(* ===== verification/Prelude.thy ===== *)
theory Prelude
  imports Main "HOL-Library.Word" "HOL-Library.Monad_Syntax"
begin

text \<open>
  Shared material of the development: the error numbers of
  \<^verbatim>\<open>libc/common/include/errno.h\<close>, the narrowing casts of C, linked lists as chains of
  next pointers, and the few generic lemmas the components use. Theorem collections are declared
  here so that each component adds its own facts to them.
\<close>

named_theorems kernel_defs \<open>definitions of straight-line kernel operations\<close>
named_theorems chain_simps \<open>simplification of linked-list chains\<close>

section \<open>Error numbers\<close>

text \<open>
  A function of the source that returns \<open>int\<close> returns 0 or one of these. Where the value is
  used as a number, \<open>errno_code\<close> is that number; elsewhere a fallible function returns
  \<open>errno + 'a\<close>, with \<open>Inl\<close> for the error.
\<close>

datatype errno =
    ENOSYS | ENOMEM | ENODEV | EALREADY | ENOTSUP | EDOM | EINVAL | EEXIST | ENOENT | EIO
  | EACCES | ENOSPC | ENAMETOOLONG | ENOTDIR | EISDIR | ELOOP | EROFS | EAGAIN | EFAULT | EBADF
  | ENOTTY | ERANGE | EILSEQ | EMFILE | ENFILE | EPIPE | ESPIPE | ETIMEDOUT | ENOBUFS | EBUSY
  | ENOEXEC | ENOTRECOVERABLE | EINTR | ECANCELED | EOVERFLOW | EABANDONED

fun errno_code :: "errno \<Rightarrow> int" where
  "errno_code ENOSYS = 1" | "errno_code ENOMEM = 2" | "errno_code ENODEV = 3"
| "errno_code EALREADY = 4" | "errno_code ENOTSUP = 5" | "errno_code EDOM = 6"
| "errno_code EINVAL = 7" | "errno_code EEXIST = 8" | "errno_code ENOENT = 9"
| "errno_code EIO = 10" | "errno_code EACCES = 11" | "errno_code ENOSPC = 12"
| "errno_code ENAMETOOLONG = 13" | "errno_code ENOTDIR = 14" | "errno_code EISDIR = 15"
| "errno_code ELOOP = 16" | "errno_code EROFS = 17" | "errno_code EAGAIN = 18"
| "errno_code EFAULT = 19" | "errno_code EBADF = 20" | "errno_code ENOTTY = 21"
| "errno_code ERANGE = 22" | "errno_code EILSEQ = 23" | "errno_code EMFILE = 24"
| "errno_code ENFILE = 25" | "errno_code EPIPE = 26" | "errno_code ESPIPE = 27"
| "errno_code ETIMEDOUT = 28" | "errno_code ENOBUFS = 29" | "errno_code EBUSY = 30"
| "errno_code ENOEXEC = 31" | "errno_code ENOTRECOVERABLE = 32" | "errno_code EINTR = 33"
| "errno_code ECANCELED = 34" | "errno_code EOVERFLOW = 35" | "errno_code EABANDONED = 36"

lemma errno_code_pos [simp]: "0 < errno_code e"
  by (cases e) auto

section \<open>Machine integers\<close>

type_synonym u8 = "8 word"
type_synonym u16 = "16 word"
type_synonym u32 = "32 word"
type_synonym u64 = "64 word"

text \<open>The cast \<open>(int8_t) x\<close> of an int.\<close>

definition int8 :: "int \<Rightarrow> int" where
  "int8 x = (x + 128) mod 256 - 128"

lemma int8_id: "\<lbrakk>- 128 \<le> x; x < 128\<rbrakk> \<Longrightarrow> int8 x = x"
  by (simp add: int8_def)

lemma unat_lt8: "unat (w :: u8) < 256"
  using unsigned_less [of w, where ?'a = nat] by simp

lemma unat_lt16: "unat (w :: u16) < 65536"
  using unsigned_less [of w, where ?'a = nat] by simp

lemma unat_lt32: "unat (w :: u32) < 4294967296"
  using unsigned_less [of w, where ?'a = nat] by simp

lemma unat_lt64: "unat (w :: u64) < 18446744073709551616"
  using unsigned_less [of w, where ?'a = nat] by simp

lemma option_eqI: "(\<And>v. x = Some v \<longleftrightarrow> y = Some v) \<Longrightarrow> x = y"
  by (cases x; cases y) auto

section \<open>Linked lists\<close>

text \<open>
  \<open>chain nxt p xs q\<close>: following the next pointers \<open>nxt\<close> from the pointer \<open>p\<close> visits the
  nodes \<open>xs\<close> in order and arrives at the pointer \<open>q\<close>. \<open>None\<close> is the null pointer.
\<close>

fun chain :: "('a \<Rightarrow> 'a option) \<Rightarrow> 'a option \<Rightarrow> 'a list \<Rightarrow> 'a option \<Rightarrow> bool" where
  "chain nxt p [] q \<longleftrightarrow> p = q"
| "chain nxt p (x # xs) q \<longleftrightarrow> p = Some x \<and> chain nxt (nxt x) xs q"

lemma chain_append [chain_simps]:
  "chain nxt p (xs @ ys) q \<longleftrightarrow> (\<exists>r. chain nxt p xs r \<and> chain nxt r ys q)"
  by (induction xs arbitrary: p) auto

lemma chain_cong:
  "(\<And>x. x \<in> set xs \<Longrightarrow> f x = g x) \<Longrightarrow> chain f p xs q \<longleftrightarrow> chain g p xs q"
  by (induction xs arbitrary: p) auto

lemma chain_upd_notin [chain_simps]:
  "a \<notin> set xs \<Longrightarrow> chain (nxt(a := v)) p xs q \<longleftrightarrow> chain nxt p xs q"
  by (rule chain_cong) auto

lemma chain_None_start: "chain nxt None xs q \<longleftrightarrow> xs = [] \<and> q = None"
  by (cases xs) auto

lemma chain_hd: "chain nxt p xs None \<Longrightarrow> p = (case xs of [] \<Rightarrow> None | x # _ \<Rightarrow> Some x)"
  by (cases xs) auto

text \<open>A null-terminated chain is determined by its start pointer and never revisits a node.\<close>

lemma chain_unique: "\<lbrakk>chain nxt p xs None; chain nxt p ys None\<rbrakk> \<Longrightarrow> xs = ys"
proof (induction xs arbitrary: p ys)
  case Nil
  then show ?case by (simp add: chain_None_start)
next
  case (Cons x xs)
  then show ?case by (cases ys) auto
qed

lemma chain_distinct: "chain nxt p xs None \<Longrightarrow> distinct xs"
proof (induction xs arbitrary: p)
  case Nil
  then show ?case by simp
next
  case (Cons x xs)
  have "x \<notin> set xs"
  proof
    assume "x \<in> set xs"
    then obtain ys zs where "xs = ys @ x # zs" by (meson split_list)
    moreover from this Cons.prems have "chain nxt (nxt x) zs None"
      by (auto simp: chain_append)
    ultimately show False
      using Cons.prems chain_unique [of nxt "nxt x" xs zs] by auto
  qed
  with Cons show ?case by auto
qed

text \<open>The last node's pointer, as a queue with a tail pointer keeps it.\<close>

definition last_ptr :: "'a list \<Rightarrow> 'a option" where
  "last_ptr xs = (if xs = [] then None else Some (last xs))"

lemma last_ptr_simps [simp]:
  "last_ptr [] = None" "last_ptr (xs @ [x]) = Some x"
  "last_ptr (x # y # ys) = last_ptr (y # ys)" "last_ptr [x] = Some x"
  by (auto simp: last_ptr_def)

lemma last_ptr_None_iff [simp]: "last_ptr xs = None \<longleftrightarrow> xs = []"
  by (simp add: last_ptr_def)

lemma last_ptr_in_set: "last_ptr xs = Some x \<Longrightarrow> x \<in> set xs"
  by (auto simp: last_ptr_def split: if_splits)

text \<open>Appending at the tail and unlinking a node, as pointer updates.\<close>

lemma chain_snoc:
  assumes "chain nxt p xs None" "xs \<noteq> []" "a \<notin> set xs"
  shows "chain (nxt(last xs := Some a, a := None)) p (xs @ [a]) None"
proof -
  obtain ys y where xs: "xs = ys @ [y]" using assms(2) by (meson rev_exhaust)
  have "distinct xs" using assms(1) by (rule chain_distinct)
  with assms xs show ?thesis by (auto simp: chain_append chain_simps)
qed

lemma chain_unlink:
  assumes "chain nxt p (xs @ y # z # ws) None"
  shows "chain (nxt(y := nxt z)) p (xs @ y # ws) None"
proof -
  have "distinct (xs @ y # z # ws)" using assms by (rule chain_distinct)
  with assms show ?thesis by (auto simp: chain_append chain_simps)
qed

end
