(* ===== verification/KObject.thy ===== *)
theory KObject
  imports Prelude
begin

text \<open>
  Kernel object headers, \<^verbatim>\<open>kernel/core/obj.c\<close> and \<^verbatim>\<open>kernel/include/obj.h\<close>: one
  32-bit word with the object's type in the top 5 bits and its reference count in the low 27.
  User objects carry a second, 8-bit count of user references.
\<close>

unbundle bit_operations_syntax

section \<open>The header word\<close>

abbreviation OBJTYPE_SEM :: u8 where "OBJTYPE_SEM \<equiv> 0"
abbreviation OBJTYPE_THREAD :: u8 where "OBJTYPE_THREAD \<equiv> 4"
abbreviation OBJTYPE_VNODE :: u8 where "OBJTYPE_VNODE \<equiv> 5"
abbreviation OBJTYPE_FILE :: u8 where "OBJTYPE_FILE \<equiv> 6"
abbreviation OBJTYPE_USEROBJ :: u8 where "OBJTYPE_USEROBJ \<equiv> 8"
abbreviation OBJTYPE_MSGBOX :: u8 where "OBJTYPE_MSGBOX \<equiv> 9"
abbreviation OBJTYPE_WAITCLOT :: u8 where "OBJTYPE_WAITCLOT \<equiv> 10"

definition InitObject :: "u8 \<Rightarrow> u32" where
  "InitObject type = 1 OR push_bit 27 (ucast type)"

definition KeGetObjectType :: "u32 \<Rightarrow> u8" where
  "KeGetObjectType ref_count = ucast (drop_bit 27 ref_count)"

definition KeGetRefCount :: "u32 \<Rightarrow> nat" where
  "KeGetRefCount ref_count = unat (ref_count AND 0x7FFFFFF)"

definition RefObject :: "u32 \<Rightarrow> u32" where
  "RefObject ref_count = ref_count + 1"

text \<open>
  \<open>DerefObject\<close> returns the new header word and, when the count fell to zero, the index of the
  cleanup handler it calls (\<open>objtype_cleanup_handlers[hdr->ref_count >> 27]\<close>). What the handler
  does belongs to the component that registered it.
\<close>

definition DerefObject :: "u32 \<Rightarrow> u32 \<times> nat option" where
  "DerefObject ref_count =
     (let c = ref_count - 1
      in (c, if c AND 0x7FFFFFF = 0 then Some (unat (drop_bit 27 c)) else None))"

lemma unat_count: "KeGetRefCount w = unat w mod 2 ^ 27"
proof -
  have "w AND 0x7FFFFFF = take_bit 27 w"
    by (simp add: take_bit_eq_mask mask_eq_exp_minus_1)
  then show ?thesis
    by (simp add: KeGetRefCount_def unsigned_take_bit_eq take_bit_eq_mod unat_mod_distrib)
qed

lemma unat_type: "unat (drop_bit 27 (w :: u32)) = unat w div 2 ^ 27"
  by (simp add: unsigned_drop_bit_eq drop_bit_eq_div take_bit_eq_mod) (simp add: unat_div_distrib)

lemma count_zero_iff: "(w :: u32) AND 0x7FFFFFF = 0 \<longleftrightarrow> KeGetRefCount w = 0"
  by (simp add: KeGetRefCount_def unat_eq_0)

text \<open>The two fields in terms of the number \<open>type * 2^27 + count\<close>.\<close>

lemma header_split: "unat (w :: u32) = unat (drop_bit 27 w) * 2 ^ 27 + KeGetRefCount w"
  by (simp add: unat_type unat_count)

lemma count_lt: "KeGetRefCount w < 2 ^ 27"
  by (simp add: unat_count)

lemma RefObject_count:
  assumes "KeGetRefCount w < 2 ^ 27 - 1"
  shows "KeGetRefCount (RefObject w) = Suc (KeGetRefCount w)"
    and "drop_bit 27 (RefObject w) = drop_bit 27 w"
proof -
  have "unat (drop_bit 27 w) < 32"
    using unat_lt32 [of w] by (simp add: unat_type)
  then have "unat w + 1 < 2 ^ 32"
    using assms header_split [of w] by simp
  then have u: "unat (RefObject w) = unat w + 1"
    by (simp add: RefObject_def unat_word_ariths)
  show "KeGetRefCount (RefObject w) = Suc (KeGetRefCount w)"
    using assms u by (simp add: unat_count mod_Suc)
  have "unat (drop_bit 27 (RefObject w)) = unat (drop_bit 27 w)"
    using assms u by (simp add: unat_type unat_count div_Suc mod_Suc)
  then show "drop_bit 27 (RefObject w) = drop_bit 27 w"
    by (simp add: word_unat_eq_iff)
qed

lemma DerefObject_count:
  assumes "0 < KeGetRefCount w"
  shows "KeGetRefCount (fst (DerefObject w)) = KeGetRefCount w - 1"
    and "drop_bit 27 (fst (DerefObject w)) = drop_bit 27 w"
    and "snd (DerefObject w) = (if KeGetRefCount w = 1 then Some (unat (drop_bit 27 w)) else None)"
proof -
  define v where "v = w - 1"
  have "w \<noteq> 0" using assms by (auto simp: KeGetRefCount_def)
  then have "w = RefObject v" and v: "unat w = unat v + 1"
    by (simp_all add: v_def RefObject_def unat_minus_one unat_gt_0)
  have lt: "KeGetRefCount v < 2 ^ 27 - 1"
  proof (rule ccontr)
    assume "\<not> ?thesis"
    then have "KeGetRefCount v = 2 ^ 27 - 1" using count_lt [of v] by simp
    then have "KeGetRefCount w = 0" using v by (simp add: unat_count mod_Suc)
    with assms show False by simp
  qed
  have 1: "KeGetRefCount w = Suc (KeGetRefCount v)" and 2: "drop_bit 27 w = drop_bit 27 v"
    using RefObject_count [OF lt] \<open>w = RefObject v\<close> by simp_all
  show "KeGetRefCount (fst (DerefObject w)) = KeGetRefCount w - 1"
    "drop_bit 27 (fst (DerefObject w)) = drop_bit 27 w"
    "snd (DerefObject w) = (if KeGetRefCount w = 1 then Some (unat (drop_bit 27 w)) else None)"
    using 1 2 by (simp_all add: DerefObject_def Let_def count_zero_iff flip: v_def)
qed

end
