(* ===== verification/NodeTable.thy ===== *)
theory NodeTable
  imports KObject "HOL-Library.Product_Lexorder"
begin

text \<open>
  The vnode table, \<^verbatim>\<open>kernel/vfs/nodetable.c\<close>: an intrusive AVL tree of the vnodes that are
  open or cached, keyed by device and inode number. The table holds one reference to every vnode
  in it. A vnode is named by its 32-bit address; the links \<open>left\<close>, \<open>right\<close> and the 8-bit
  \<open>height\<close> inside the vnodes are the constructor arguments of the tree.
\<close>

section \<open>Vnodes and the tree\<close>

type_synonym vref = u32

record vnode =
  ref_count :: u32
  st_dev :: u64
  st_ino :: u32

type_synonym vstore = "vref \<Rightarrow> vnode"

datatype vtree = Tip | Node vtree vref vtree (ht: int)

definition ShouldRemoveVnode :: "vstore \<Rightarrow> vref \<Rightarrow> bool" where
  "ShouldRemoveVnode st v \<longleftrightarrow> KeGetRefCount (ref_count (st v)) = 1"

definition CompareKey :: "u64 \<Rightarrow> u32 \<Rightarrow> vnode \<Rightarrow> int" where
  "CompareKey dev ino n =
     (if dev \<noteq> st_dev n then (if dev < st_dev n then -1 else 1)
      else if ino \<noteq> st_ino n then (if ino < st_ino n then -1 else 1)
      else 0)"

definition CompareNodes :: "vstore \<Rightarrow> vref \<Rightarrow> vref \<Rightarrow> int" where
  "CompareNodes st a b = CompareKey (st_dev (st a)) (st_ino (st a)) (st b)"

section \<open>Heights and rotations\<close>

fun Height :: "vtree \<Rightarrow> int" where
  "Height Tip = 0"
| "Height (Node l v r h) = h"

fun UpdateHeight :: "vtree \<Rightarrow> vtree" where
  "UpdateHeight Tip = Tip"
| "UpdateHeight (Node l v r h) =
     Node l v r (int8 ((if Height l > Height r then Height l else Height r) + 1))"

fun BalanceFactor :: "vtree \<Rightarrow> int" where
  "BalanceFactor Tip = 0"
| "BalanceFactor (Node l v r h) = Height l - Height r"

text \<open>
  The rotations follow the source for a node that has the child they lift. The other equations
  are a null dereference in the source; \<open>Rebalance\<close> never reaches them on a tree whose stored
  heights are not negative (lemma \<open>Rebalance_child\<close> below).
\<close>

fun RotateRight :: "vtree \<Rightarrow> vtree" where
  "RotateRight (Node (Node a x b hx) y c hy) =
     UpdateHeight (Node a x (UpdateHeight (Node b y c hy)) hx)"
| "RotateRight t = t"

fun RotateLeft :: "vtree \<Rightarrow> vtree" where
  "RotateLeft (Node a x (Node b y c hy) hx) =
     UpdateHeight (Node (UpdateHeight (Node a x b hx)) y c hy)"
| "RotateLeft t = t"

fun Rebalance :: "vtree \<Rightarrow> vtree" where
  "Rebalance Tip = Tip"
| "Rebalance (Node l v r h) =
     (let n = UpdateHeight (Node l v r h); b = BalanceFactor n
      in if b > 1 then
           (let l' = (if BalanceFactor l < 0 then RotateLeft l else l)
            in RotateRight (Node l' v r (ht n)))
         else if b < -1 then
           (let r' = (if BalanceFactor r > 0 then RotateRight r else r)
            in RotateLeft (Node l v r' (ht n)))
         else n)"

section \<open>Insertion, removal, lookup\<close>

text \<open>The flag \<open>duplicate\<close> (\<open>found\<close>) the source passes by pointer is returned beside the tree.\<close>

fun InsertNode :: "vstore \<Rightarrow> vtree \<Rightarrow> vref \<Rightarrow> bool \<Rightarrow> vtree \<times> bool" where
  "InsertNode st Tip node duplicate = (Node Tip node Tip 1, duplicate)"
| "InsertNode st (Node l v r h) node duplicate =
     (let c = CompareNodes st node v
      in if c = 0 then (Node l v r h, True)
         else if c < 0 then
           (case InsertNode st l node duplicate of
              (l', dup) \<Rightarrow>
                (if dup then Node l' v r h else Rebalance (Node l' v r h), dup))
         else
           (case InsertNode st r node duplicate of
              (r', dup) \<Rightarrow>
                (if dup then Node l v r' h else Rebalance (Node l v r' h), dup)))"

fun DetachMin :: "vtree \<Rightarrow> vtree \<times> vref option" where
  "DetachMin Tip = (Tip, None)"
| "DetachMin (Node l v r h) =
     (if l = Tip then (r, Some v)
      else (case DetachMin l of (l', m) \<Rightarrow> (Rebalance (Node l' v r h), m)))"

fun RemoveNode :: "vstore \<Rightarrow> vtree \<Rightarrow> vref \<Rightarrow> bool \<Rightarrow> vtree \<times> bool" where
  "RemoveNode st Tip node found = (Tip, found)"
| "RemoveNode st (Node l v r h) node found =
     (let c = CompareNodes st node v
      in if c < 0 then
           (case RemoveNode st l node found of (l', f) \<Rightarrow> (Rebalance (Node l' v r h), f))
         else if c > 0 then
           (case RemoveNode st r node found of (r', f) \<Rightarrow> (Rebalance (Node l v r' h), f))
         else if v \<noteq> node then (Node l v r h, found)
         else
           (if l = Tip then r
            else if r = Tip then l
            else (case DetachMin r of
                    (r', Some successor) \<Rightarrow> Rebalance (Node l successor r' h)
                  | (r', None) \<Rightarrow> r'),
            True))"

fun FindNode :: "vstore \<Rightarrow> vtree \<Rightarrow> u64 \<Rightarrow> u32 \<Rightarrow> vref option" where
  "FindNode st Tip dev ino = None"
| "FindNode st (Node l v r h) dev ino =
     (let c = CompareKey dev ino (st v)
      in if c = 0 then Some v
         else FindNode st (if c < 0 then l else r) dev ino)"


section \<open>The table's operations\<close>

text \<open>
  \<open>cleaned\<close> records, in order, the vnodes whose last reference went away and which were handed
  to the cleanup handler (\<open>CleanupVnode\<close>, which frees them).
\<close>

record table =
  vnodes :: vstore
  root :: vtree
  cleaned :: "vref list"

definition RefVnode :: "vref \<Rightarrow> table \<Rightarrow> table" where
  "RefVnode v s =
     s\<lparr>vnodes := (vnodes s)(v := (vnodes s v)\<lparr>ref_count := RefObject (ref_count (vnodes s v))\<rparr>)\<rparr>"

definition DerefVnode :: "vref \<Rightarrow> table \<Rightarrow> table" where
  "DerefVnode v s =
     (case DerefObject (ref_count (vnodes s v)) of
        (c, handler) \<Rightarrow>
          s\<lparr>vnodes := (vnodes s)(v := (vnodes s v)\<lparr>ref_count := c\<rparr>),
            cleaned := (if handler = None then cleaned s else cleaned s @ [v])\<rparr>)"

definition TryFindAndReferenceExistingVnode :: "u32 \<Rightarrow> u64 \<Rightarrow> table \<Rightarrow> vref option \<times> table" where
  "TryFindAndReferenceExistingVnode ino dev s =
     (case FindNode (vnodes s) (root s) dev ino of
        None \<Rightarrow> (None, s)
      | Some v \<Rightarrow> (Some v, RefVnode v s))"

text \<open>
  \<open>RegisterNewVnode\<close> first writes the links of \<open>node\<close>. If the node is in the tree already,
  that write cuts off the subtrees below it: \<open>ResetLinks\<close>.
\<close>

fun ResetLinks :: "vref \<Rightarrow> vtree \<Rightarrow> vtree" where
  "ResetLinks node Tip = Tip"
| "ResetLinks node (Node l v r h) =
     (if v = node then Node Tip v Tip 1
      else Node (ResetLinks node l) v (ResetLinks node r) h)"

definition RegisterNewVnode :: "vref option \<Rightarrow> table \<Rightarrow> (errno + unit) \<times> table" where
  "RegisterNewVnode nd s =
     (case nd of
        None \<Rightarrow> (Inl EINVAL, s)
      | Some node \<Rightarrow>
          (case InsertNode (vnodes s) (ResetLinks node (root s)) node False of
             (t, duplicate) \<Rightarrow>
               (let s' = s\<lparr>root := t\<rparr>
                in if duplicate then (Inl EEXIST, s') else (Inr (), RefVnode node s'))))"

definition UnregisterVnode :: "vref option \<Rightarrow> table \<Rightarrow> table" where
  "UnregisterVnode nd s =
     (case nd of
        None \<Rightarrow> s
      | Some node \<Rightarrow>
          (case RemoveNode (vnodes s) (root s) node False of
             (t, found) \<Rightarrow>
               (let s' = s\<lparr>root := t\<rparr> in if found then DerefVnode node s' else s')))"

section \<open>Purging unused vnodes\<close>

abbreviation PURGE_BATCH :: nat where "PURGE_BATCH \<equiv> 16"

record purge_scan =
  have_after :: bool
  after_dev :: u64
  after_id :: u32
  found :: "vref list"

fun CollectPurgeVictims :: "vstore \<Rightarrow> vtree \<Rightarrow> purge_scan \<Rightarrow> purge_scan" where
  "CollectPurgeVictims st Tip scan = scan"
| "CollectPurgeVictims st (Node l v r h) scan =
     (if length (found scan) \<ge> PURGE_BATCH then scan
      else if \<not> have_after scan \<or> CompareKey (after_dev scan) (after_id scan) (st v) < 0 then
        (let scan1 = CollectPurgeVictims st l scan
         in if length (found scan1) \<ge> PURGE_BATCH then scan1
            else CollectPurgeVictims st r
                   (if ShouldRemoveVnode st v then scan1\<lparr>found := found scan1 @ [v]\<rparr> else scan1))
      else CollectPurgeVictims st r scan)"

text \<open>The loop that unlinks the victims; a victim that was not found is not dereferenced later.\<close>

fun UnlinkVictims :: "vstore \<Rightarrow> vref list \<Rightarrow> vtree \<Rightarrow> vtree \<times> vref list" where
  "UnlinkVictims st [] t = (t, [])"
| "UnlinkVictims st (v # vs) t =
     (case RemoveNode st t v False of
        (t', f) \<Rightarrow>
          (case UnlinkVictims st vs t' of
             (t'', ds) \<Rightarrow> (t'', if f then v # ds else ds)))"

text \<open>One iteration of the loop of \<open>PurgeOldVnodes\<close>; the flag is \<open>more\<close>.\<close>

definition PurgeIteration :: "purge_scan \<Rightarrow> table \<Rightarrow> bool \<times> purge_scan \<times> table" where
  "PurgeIteration scan s =
     (let scan1 = CollectPurgeVictims (vnodes s) (root s) (scan\<lparr>found := []\<rparr>);
          again = (length (found scan1) = PURGE_BATCH);
          scan2 =
            (if again then
               (let last = vnodes s (last (found scan1))
                in scan1\<lparr>have_after := True, after_dev := st_dev last, after_id := st_ino last\<rparr>)
             else scan1)
      in case UnlinkVictims (vnodes s) (found scan2) (root s) of
           (t, ds) \<Rightarrow> (again, scan2, fold DerefVnode ds (s\<lparr>root := t\<rparr>)))"

partial_function (option) PurgeLoop :: "purge_scan \<Rightarrow> table \<Rightarrow> table option" where
  "PurgeLoop scan s =
     (case PurgeIteration scan s of
        (again, scan', s') \<Rightarrow> if again then PurgeLoop scan' s' else Some s')"

definition PurgeOldVnodes :: "table \<Rightarrow> table option" where
  "PurgeOldVnodes s =
     PurgeLoop \<lparr>have_after = False, after_dev = 0, after_id = 0, found = []\<rparr> s"

definition InitVnodeTable :: "table \<Rightarrow> table" where
  "InitVnodeTable s = s\<lparr>root := Tip\<rparr>"

section \<open>Invariants\<close>

definition vkey :: "vstore \<Rightarrow> vref \<Rightarrow> u64 \<times> u32" where
  "vkey st v = (st_dev (st v), st_ino (st v))"

fun inorder :: "vtree \<Rightarrow> vref list" where
  "inorder Tip = []"
| "inorder (Node l v r h) = inorder l @ v # inorder r"

fun hgt :: "vtree \<Rightarrow> nat" where
  "hgt Tip = 0"
| "hgt (Node l v r h) = max (hgt l) (hgt r) + 1"

definition bst :: "vstore \<Rightarrow> vtree \<Rightarrow> bool" where
  "bst st t \<longleftrightarrow> sorted_wrt (\<lambda>a b. vkey st a < vkey st b) (inorder t)"

fun avl :: "vtree \<Rightarrow> bool" where
  "avl Tip \<longleftrightarrow> True"
| "avl (Node l v r h) \<longleftrightarrow>
     avl l \<and> avl r \<and> h = int (max (hgt l) (hgt r)) + 1 \<and> hgt l \<le> hgt r + 1 \<and> hgt r \<le> hgt l + 1"

lemma CompareKey_sign:
  "CompareKey dev ino (st v) = 0 \<longleftrightarrow> (dev, ino) = vkey st v"
  "CompareKey dev ino (st v) < 0 \<longleftrightarrow> (dev, ino) < vkey st v"
  "0 < CompareKey dev ino (st v) \<longleftrightarrow> vkey st v < (dev, ino)"
  by (auto simp: CompareKey_def vkey_def)

lemma CompareNodes_sign:
  "CompareNodes st a b = 0 \<longleftrightarrow> vkey st a = vkey st b"
  "CompareNodes st a b < 0 \<longleftrightarrow> vkey st a < vkey st b"
  "0 < CompareNodes st a b \<longleftrightarrow> vkey st b < vkey st a"
  unfolding CompareNodes_def by (simp_all add: CompareKey_sign) (simp_all add: vkey_def)


subsection \<open>Rotations keep the order and restore the balance\<close>

lemma inorder_UpdateHeight [simp]: "inorder (UpdateHeight t) = inorder t"
  by (cases t) auto

lemma inorder_RotateRight [simp]: "inorder (RotateRight t) = inorder t"
  by (cases t rule: RotateRight.cases) auto

lemma inorder_RotateLeft [simp]: "inorder (RotateLeft t) = inorder t"
  by (cases t rule: RotateLeft.cases) auto

lemma inorder_Rebalance [simp]: "inorder (Rebalance t) = inorder t"
  by (cases t) (auto simp: Let_def simp del: UpdateHeight.simps BalanceFactor.simps)

lemma Height_avl: "avl t \<Longrightarrow> Height t = int (hgt t)"
  by (cases t) auto

lemma hgt_UpdateHeight [simp]: "hgt (UpdateHeight t) = hgt t"
  by (cases t) auto

lemma avl_UpdateHeight:
  assumes "avl l" "avl r" "hgt l \<le> hgt r + 1" "hgt r \<le> hgt l + 1" "hgt l < 127" "hgt r < 127"
  shows "avl (UpdateHeight (Node l v r h))"
  using assms by (auto simp: Height_avl int8_id max_def)

lemma BalanceFactor_UpdateHeight [simp]: "BalanceFactor (UpdateHeight t) = BalanceFactor t"
  by (cases t) auto

text \<open>A node whose balance factor calls for a rotation has the child that is lifted.\<close>

lemma Rebalance_child:
  assumes "avl l" "avl r"
  shows "BalanceFactor (Node l v r h) > 1 \<Longrightarrow> l \<noteq> Tip"
    and "BalanceFactor (Node l v r h) < -1 \<Longrightarrow> r \<noteq> Tip"
  using assms by (auto simp: Height_avl)

lemma Rebalance_id:
  assumes "avl (Node l v r h)" "hgt l < 127" "hgt r < 127"
  shows "Rebalance (Node l v r h) = Node l v r h"
  using assms by (auto simp: Let_def Height_avl int8_id max_def)

text \<open>Balance: the two sides differ by at most two before, by at most one after.\<close>

lemma Rebalance_left_heavy:
  assumes "avl l" "avl r" "hgt l = hgt r + 2" "hgt l < 120"
  shows "avl (Rebalance (Node l v r h))"
    and "hgt (Rebalance (Node l v r h)) = hgt l \<or> hgt (Rebalance (Node l v r h)) = hgt l + 1"
proof -
  obtain ll x lr hl where l: "l = Node ll x lr hl" using assms(3) by (cases l) auto
  have "avl (Rebalance (Node l v r h)) \<and>
    (hgt (Rebalance (Node l v r h)) = hgt l \<or> hgt (Rebalance (Node l v r h)) = hgt l + 1)"
  proof (cases "hgt ll < hgt lr")
    case True
    then obtain a y b hb where lr: "lr = Node a y b hb" by (cases lr) auto
    show ?thesis using assms True unfolding l lr
      by (auto simp: Let_def Height_avl int8_id max_def split: if_splits)
  next
    case False
    then show ?thesis using assms unfolding l
      by (auto simp: Let_def Height_avl int8_id max_def split: if_splits)
  qed
  then show "avl (Rebalance (Node l v r h))"
    "hgt (Rebalance (Node l v r h)) = hgt l \<or> hgt (Rebalance (Node l v r h)) = hgt l + 1"
    by blast+
qed

lemma Rebalance_right_heavy:
  assumes "avl l" "avl r" "hgt r = hgt l + 2" "hgt r < 120"
  shows "avl (Rebalance (Node l v r h))"
    and "hgt (Rebalance (Node l v r h)) = hgt r \<or> hgt (Rebalance (Node l v r h)) = hgt r + 1"
proof -
  obtain rl x rr hr where r: "r = Node rl x rr hr" using assms(3) by (cases r) auto
  have "avl (Rebalance (Node l v r h)) \<and>
    (hgt (Rebalance (Node l v r h)) = hgt r \<or> hgt (Rebalance (Node l v r h)) = hgt r + 1)"
  proof (cases "hgt rr < hgt rl")
    case True
    then obtain a y b hb where rl: "rl = Node a y b hb" by (cases rl) auto
    show ?thesis using assms True unfolding r rl
      by (auto simp: Let_def Height_avl int8_id max_def split: if_splits)
  next
    case False
    then show ?thesis using assms unfolding r
      by (auto simp: Let_def Height_avl int8_id max_def split: if_splits)
  qed
  then show "avl (Rebalance (Node l v r h))"
    "hgt (Rebalance (Node l v r h)) = hgt r \<or> hgt (Rebalance (Node l v r h)) = hgt r + 1"
    by blast+
qed

lemma Rebalance_even:
  assumes "avl l" "avl r" "hgt l \<le> hgt r + 1" "hgt r \<le> hgt l + 1" "hgt l < 120" "hgt r < 120"
  shows "avl (Rebalance (Node l v r h))" "hgt (Rebalance (Node l v r h)) = max (hgt l) (hgt r) + 1"
  using assms by (auto simp: Let_def Height_avl int8_id max_def)

declare Rebalance.simps [simp del]

lemma Rebalance_avl:
  assumes "avl l" "avl r" "hgt l \<le> hgt r + 2" "hgt r \<le> hgt l + 2" "hgt l < 120" "hgt r < 120"
  shows "avl (Rebalance (Node l v r h))"
    and "max (hgt l) (hgt r) \<le> hgt (Rebalance (Node l v r h))"
    and "hgt (Rebalance (Node l v r h)) \<le> max (hgt l) (hgt r) + 1"
proof -
  consider "hgt l = hgt r + 2" | "hgt r = hgt l + 2" | "hgt l \<le> hgt r + 1 \<and> hgt r \<le> hgt l + 1"
    using assms by linarith
  then have "avl (Rebalance (Node l v r h)) \<and>
    max (hgt l) (hgt r) \<le> hgt (Rebalance (Node l v r h)) \<and>
    hgt (Rebalance (Node l v r h)) \<le> max (hgt l) (hgt r) + 1"
  proof cases
    case 1
    with Rebalance_left_heavy [of l r v h] assms show ?thesis by auto
  next
    case 2
    with Rebalance_right_heavy [of l r v h] assms show ?thesis by auto
  next
    case 3
    with Rebalance_even [of l r v h] assms show ?thesis by auto
  qed
  then show "avl (Rebalance (Node l v r h))"
    "max (hgt l) (hgt r) \<le> hgt (Rebalance (Node l v r h))"
    "hgt (Rebalance (Node l v r h)) \<le> max (hgt l) (hgt r) + 1"
    by blast+
qed


subsection \<open>How high an AVL tree can be\<close>

lemma avl_size: "avl t \<Longrightarrow> 2 ^ hgt t \<le> (length (inorder t) + 1)\<^sup>2"
proof (induction t)
  case Tip
  then show ?case by simp
next
  case (Node l v r h)
  define a where "a = length (inorder l) + 1"
  define b where "b = length (inorder r) + 1"
  have l: "2 ^ hgt l \<le> a\<^sup>2" and r: "2 ^ hgt r \<le> b\<^sup>2"
    using Node by (simp_all add: a_def b_def)
  obtain n where n: "hgt (Node l v r h) \<le> n + 2" "n \<le> hgt l" "n \<le> hgt r"
  proof (cases "max (hgt l) (hgt r)")
    case 0
    then show ?thesis using that [of 0] by simp
  next
    case (Suc n)
    then show ?thesis using that [of n] Node.prems by auto
  qed
  define m where "m = min a b"
  have "2 ^ n \<le> m\<^sup>2"
  proof -
    have "(2::nat) ^ n \<le> 2 ^ hgt l" "(2::nat) ^ n \<le> 2 ^ hgt r" using n by simp_all
    with l r have "2 ^ n \<le> a\<^sup>2" "2 ^ n \<le> b\<^sup>2" by linarith+
    then show ?thesis by (auto simp: m_def min_def)
  qed
  then have "2 ^ (n + 2) \<le> (2 * m)\<^sup>2" by (simp add: power_mult_distrib)
  also have "\<dots> \<le> (a + b)\<^sup>2" by (rule power_mono) (auto simp: m_def)
  finally have "2 ^ (n + 2) \<le> (a + b)\<^sup>2" .
  moreover have "(2::nat) ^ hgt (Node l v r h) \<le> 2 ^ (n + 2)"
    using n(1) by (intro power_increasing) simp_all
  ultimately show ?case by (simp add: a_def b_def)
qed

lemma bst_distinct: "bst st t \<Longrightarrow> distinct (inorder t)"
  unfolding bst_def
  by (metis distinct_map sorted_wrt_map strict_sorted_iff)

text \<open>At most one vnode per address, so the height stays far below the range of \<open>int8_t\<close>.\<close>

lemma hgt_bound:
  assumes "bst st t" "avl t"
  shows "hgt t \<le> 65"
proof (rule ccontr)
  assume "\<not> hgt t \<le> 65"
  then have "(2::nat) ^ 66 \<le> 2 ^ hgt t" by (intro power_increasing) simp_all
  also have "\<dots> \<le> (length (inorder t) + 1)\<^sup>2" using assms(2) by (rule avl_size)
  finally have 1: "(2::nat) ^ 66 \<le> (length (inorder t) + 1)\<^sup>2" .
  have "length (inorder t) = card (set (inorder t))"
    using bst_distinct [OF assms(1)] by (simp add: distinct_card)
  also have "\<dots> \<le> card (UNIV :: vref set)" by (rule card_mono) auto
  also have "\<dots> = 2 ^ 32" by (simp add: card_word)
  finally have "length (inorder t) + 1 \<le> 2 ^ 32 + 1" by simp
  then have "(length (inorder t) + 1)\<^sup>2 \<le> (2 ^ 32 + 1)\<^sup>2" by (rule power_mono) simp
  with 1 have "(2::nat) ^ 66 \<le> (2 ^ 32 + 1)\<^sup>2" by linarith
  then show False by (simp add: power2_eq_square)
qed


subsection \<open>Insertion\<close>

text \<open>Splitting an ordered sequence of vnodes at a key.\<close>

lemma bst_Node [simp]:
  "bst st (Node l v r h) \<longleftrightarrow>
     bst st l \<and> bst st r \<and> (\<forall>x\<in>set (inorder l). vkey st x < vkey st v) \<and>
     (\<forall>x\<in>set (inorder r). vkey st v < vkey st x)"
  unfolding bst_def by (auto simp: sorted_wrt_append intro: order_less_trans)

lemma bst_Tip [simp]: "bst st Tip"
  by (simp add: bst_def)

lemma bst_inorder_cong: "inorder t = inorder t' \<Longrightarrow> bst st t = bst st t'"
  by (simp add: bst_def)

lemma InsertNode_duplicate:
  assumes "bst st t" "v \<in> set (inorder t)" "vkey st v = vkey st n"
  shows "InsertNode st t n d = (t, True)"
  using assms
proof (induction t)
  case Tip
  then show ?case by simp
next
  case (Node l x r h)
  consider "vkey st n < vkey st x" | "vkey st x < vkey st n" | "vkey st n = vkey st x"
    using less_linear by blast
  then show ?case
  proof cases
    case 1
    then have "v \<in> set (inorder l)" using Node.prems by (auto dest: order_less_trans)
    then show ?thesis using Node 1 by (auto simp: CompareNodes_sign Let_def)
  next
    case 2
    then have "v \<in> set (inorder r)" using Node.prems by (auto dest: order_less_trans)
    then show ?thesis using Node 2 by (auto simp: CompareNodes_sign Let_def dest: order_less_trans)
  next
    case 3
    then show ?thesis by (simp add: CompareNodes_sign Let_def)
  qed
qed

lemma InsertNode_new:
  assumes "bst st t" "\<forall>v\<in>set (inorder t). vkey st v \<noteq> vkey st n"
  shows "\<exists>t' xs ys. InsertNode st t n False = (t', False) \<and>
    inorder t = xs @ ys \<and> inorder t' = xs @ n # ys \<and>
    (\<forall>x\<in>set xs. vkey st x < vkey st n) \<and> (\<forall>y\<in>set ys. vkey st n < vkey st y)"
  using assms
proof (induction t)
  case Tip
  then show ?case by simp
next
  case (Node l v r h)
  show ?case
  proof (cases "vkey st n < vkey st v")
    case True
    obtain t' xs ys where l: "InsertNode st l n False = (t', False)" "inorder l = xs @ ys"
      "inorder t' = xs @ n # ys" "\<forall>x\<in>set xs. vkey st x < vkey st n"
      "\<forall>y\<in>set ys. vkey st n < vkey st y"
      using Node.IH(1) Node.prems by auto
    have rn: "\<forall>x\<in>set (inorder r). vkey st n < vkey st x"
      using Node.prems(1) True order_less_trans by fastforce
    show ?thesis
      using l True rn Node.prems
      by (intro exI [of _ "Rebalance (Node t' v r h)"] exI [of _ xs] exI [of _ "ys @ v # inorder r"])
        (auto simp: CompareNodes_sign Let_def)
  next
    case False
    then have gt: "vkey st v < vkey st n" using Node.prems by auto
    have ln: "\<forall>x\<in>set (inorder l). vkey st x < vkey st n"
      using Node.prems(1) gt order_less_trans by fastforce
    obtain t' xs ys where r: "InsertNode st r n False = (t', False)" "inorder r = xs @ ys"
      "inorder t' = xs @ n # ys" "\<forall>x\<in>set xs. vkey st x < vkey st n"
      "\<forall>y\<in>set ys. vkey st n < vkey st y"
      using Node.IH(2) Node.prems by auto
    show ?thesis
      using r gt ln Node.prems False
      by (intro exI [of _ "Rebalance (Node l v t' h)"] exI [of _ "inorder l @ v # xs"] exI [of _ ys])
        (auto simp: CompareNodes_sign Let_def)
  qed
qed

end
