(* ===== verification/NodeTableProps.thy ===== *)
theory NodeTableProps
  imports NodeTable
begin

text \<open>
  Proofs about the vnode table: insertion and removal keep the search order and the balance, and
  the operations refine updates of a map from keys to vnodes.
\<close>

section \<open>Insertion and removal keep the balance\<close>

lemma InsertNode_unchanged: "InsertNode st t n False = (t', True) \<Longrightarrow> t' = t"
  by (induction t arbitrary: t') (auto simp: Let_def split: if_splits prod.splits)

lemma InsertNode_avl:
  assumes "avl t" "hgt t < 100" "InsertNode st t n False = (t', d)"
  shows "avl t' \<and> hgt t \<le> hgt t' \<and> hgt t' \<le> hgt t + 1"
proof (cases d)
  case True
  then show ?thesis using InsertNode_unchanged [of st t n t'] assms by auto
next
  case False
  with assms show ?thesis
  proof (induction t arbitrary: t' d)
    case Tip
    then show ?case by auto
  next
    case (Node l v r h)
    show ?case
    proof (cases "CompareNodes st n v < 0")
      case True
      then obtain l' where l: "InsertNode st l n False = (l', False)"
        and t': "t' = Rebalance (Node l' v r h)"
        using Node.prems(3,4) by (auto simp: Let_def split: if_splits prod.splits)
      have "avl l' \<and> hgt l \<le> hgt l' \<and> hgt l' \<le> hgt l + 1"
        using Node.IH(1) [OF _ _ l] Node.prems(1,2) by simp
      then show ?thesis
        using Rebalance_avl [of l' r v h] Rebalance_even [of l' r v h] Node.prems(1,2)
        unfolding t' by (cases "hgt l' \<le> hgt r + 1") auto
    next
      case False
      then obtain r' where r: "InsertNode st r n False = (r', False)"
        and t': "t' = Rebalance (Node l v r' h)"
        using Node.prems(3,4) by (auto simp: Let_def split: if_splits prod.splits)
      have "avl r' \<and> hgt r \<le> hgt r' \<and> hgt r' \<le> hgt r + 1"
        using Node.IH(2) [OF _ _ r] Node.prems(1,2) by simp
      then show ?thesis
        using Rebalance_avl [of l r' v h] Rebalance_even [of l r' v h] Node.prems(1,2)
        unfolding t' by (cases "hgt r' \<le> hgt l + 1") auto
    qed
  qed
qed

lemma DetachMin_inorder:
  "t \<noteq> Tip \<Longrightarrow> DetachMin t = (t', m) \<Longrightarrow> \<exists>s. m = Some s \<and> inorder t = s # inorder t'"
proof (induction t arbitrary: t' m)
  case Tip
  then show ?case by simp
next
  case (Node l v r h)
  then show ?case by (cases "l = Tip") (auto split: prod.splits)
qed

lemma DetachMin_avl:
  assumes "avl t" "hgt t < 100" "t \<noteq> Tip" "DetachMin t = (t', m)"
  shows "avl t' \<and> hgt t' \<le> hgt t \<and> hgt t \<le> hgt t' + 1"
  using assms
proof (induction t arbitrary: t' m)
  case Tip
  then show ?case by simp
next
  case (Node l v r h)
  show ?case
  proof (cases "l = Tip")
    case True
    then show ?thesis using Node.prems by auto
  next
    case False
    then obtain l' where l: "DetachMin l = (l', m)" and t': "t' = Rebalance (Node l' v r h)"
      using Node.prems(4) by (auto split: prod.splits)
    have "avl l' \<and> hgt l' \<le> hgt l \<and> hgt l \<le> hgt l' + 1"
      using Node.IH(1) [OF _ _ False l] Node.prems(1,2) by simp
    then show ?thesis
      using Rebalance_avl [of l' r v h] Rebalance_even [of l' r v h] Node.prems(1,2)
      unfolding t' by (cases "hgt r \<le> hgt l' + 1") auto
  qed
qed

lemma RemoveNode_avl:
  assumes "avl t" "hgt t < 100" "RemoveNode st t n d = (t', d')"
  shows "avl t' \<and> hgt t' \<le> hgt t \<and> hgt t \<le> hgt t' + 1"
  using assms
proof (induction t arbitrary: t' d')
  case Tip
  then show ?case by simp
next
  case (Node l v r h)
  consider (less) "CompareNodes st n v < 0" | (greater) "CompareNodes st n v > 0"
    | (other) "CompareNodes st n v = 0" "v \<noteq> n" | (here) "CompareNodes st n v = 0" "v = n"
    by linarith
  then show ?case
  proof cases
    case less
    then obtain l' where l: "RemoveNode st l n d = (l', d')"
      and t': "t' = Rebalance (Node l' v r h)"
      using Node.prems(3) by (auto simp: Let_def split: prod.splits)
    have "avl l' \<and> hgt l' \<le> hgt l \<and> hgt l \<le> hgt l' + 1"
      using Node.IH(1) [OF _ _ l] Node.prems(1,2) by simp
    then show ?thesis
      using Rebalance_avl [of l' r v h] Rebalance_even [of l' r v h] Node.prems(1,2)
      unfolding t' by (cases "hgt r \<le> hgt l' + 1") auto
  next
    case greater
    then obtain r' where r: "RemoveNode st r n d = (r', d')"
      and t': "t' = Rebalance (Node l v r' h)"
      using Node.prems(3) by (auto simp: Let_def split: prod.splits)
    have "avl r' \<and> hgt r' \<le> hgt r \<and> hgt r \<le> hgt r' + 1"
      using Node.IH(2) [OF _ _ r] Node.prems(1,2) by simp
    then show ?thesis
      using Rebalance_avl [of l r' v h] Rebalance_even [of l r' v h] Node.prems(1,2)
      unfolding t' by (cases "hgt l \<le> hgt r' + 1") auto
  next
    case other
    then show ?thesis using Node.prems by (auto simp: Let_def)
  next
    case here
    show ?thesis
    proof (cases "l = Tip \<or> r = Tip")
      case True
      then show ?thesis using Node.prems here by (auto simp: Let_def split: if_splits)
    next
      case False
      then obtain r' s where r: "DetachMin r = (r', Some s)"
        and t': "t' = Rebalance (Node l s r' h)"
        using Node.prems(3) here DetachMin_inorder [of r]
        by (auto simp: Let_def split: prod.splits option.splits)
      have "avl r' \<and> hgt r' \<le> hgt r \<and> hgt r \<le> hgt r' + 1"
        using DetachMin_avl [OF _ _ _ r] Node.prems(1,2) False by simp
      then show ?thesis
        using Rebalance_avl [of l r' s h] Rebalance_even [of l r' s h] Node.prems(1,2)
        unfolding t' by (cases "hgt l \<le> hgt r' + 1") auto
    qed
  qed
qed

lemma RemoveNode_absent:
  assumes "bst st t" "n \<notin> set (inorder t)"
  shows "snd (RemoveNode st t n d) = d \<and> inorder (fst (RemoveNode st t n d)) = inorder t"
  using assms
  by (induction t) (auto simp: Let_def split: prod.splits)

lemma RemoveNode_present:
  assumes "bst st t" "n \<in> set (inorder t)"
  shows "\<exists>t' xs ys. RemoveNode st t n d = (t', True) \<and>
    inorder t = xs @ n # ys \<and> inorder t' = xs @ ys"
  using assms
proof (induction t)
  case Tip
  then show ?case by simp
next
  case (Node l v r h)
  consider (less) "n \<in> set (inorder l)" | (here) "n = v" | (greater) "n \<in> set (inorder r)"
    using Node.prems(2) by auto
  then show ?case
  proof cases
    case less
    then obtain t' xs ys where l: "RemoveNode st l n d = (t', True)" "inorder l = xs @ n # ys"
      "inorder t' = xs @ ys"
      using Node.IH(1) Node.prems(1) by auto
    have "vkey st n < vkey st v" using less Node.prems(1) by simp
    with l show ?thesis
      by (intro exI [of _ "Rebalance (Node t' v r h)"] exI [of _ xs] exI [of _ "ys @ v # inorder r"])
        (simp add: CompareNodes_sign Let_def)
  next
    case greater
    then obtain t' xs ys where r: "RemoveNode st r n d = (t', True)" "inorder r = xs @ n # ys"
      "inorder t' = xs @ ys"
      using Node.IH(2) Node.prems(1) by auto
    have "vkey st v < vkey st n" using greater Node.prems(1) by simp
    then have "\<not> CompareNodes st n v < 0" "CompareNodes st n v > 0"
      by (auto simp: CompareNodes_sign)
    with r show ?thesis
      by (intro exI [of _ "Rebalance (Node l v t' h)"] exI [of _ "inorder l @ v # xs"] exI [of _ ys])
        (simp add: Let_def)
  next
    case here
    then have c: "CompareNodes st n v = 0" by (simp add: CompareNodes_sign)
    show ?thesis
    proof (cases "l = Tip \<or> r = Tip")
      case True
      then show ?thesis using c here
        by (intro exI [of _ "if l = Tip then r else l"] exI [of _ "inorder l"] exI [of _ "inorder r"])
          (auto simp: Let_def)
    next
      case False
      obtain r' m where r: "DetachMin r = (r', m)" by fastforce
      with False obtain s where "m = Some s" "inorder r = s # inorder r'"
        using DetachMin_inorder by blast
      with False r c here show ?thesis
        by (intro exI [of _ "Rebalance (Node l s r' h)"] exI [of _ "inorder l"] exI [of _ "inorder r"])
          (auto simp: Let_def)
    qed
  qed
qed

lemma FindNode_Some:
  "bst st t \<Longrightarrow> FindNode st t dev ino = Some v \<longleftrightarrow> v \<in> set (inorder t) \<and> vkey st v = (dev, ino)"
proof (induction t)
  case Tip
  then show ?case by simp
next
  case (Node l x r h)
  consider "(dev, ino) < vkey st x" | "vkey st x < (dev, ino)" | "vkey st x = (dev, ino)"
    using less_linear by blast
  then show ?case
  proof cases
    case 1
    then have "CompareKey dev ino (st x) < 0" by (simp add: CompareKey_sign)
    moreover have "\<forall>y\<in>set (inorder r). vkey st y \<noteq> (dev, ino)"
      using Node.prems 1 order_less_asym by fastforce
    ultimately show ?thesis using Node 1 by (auto simp: Let_def)
  next
    case 2
    then have "CompareKey dev ino (st x) > 0" by (simp add: CompareKey_sign)
    moreover have "\<forall>y\<in>set (inorder l). vkey st y \<noteq> (dev, ino)"
      using Node.prems 2 order_less_asym by fastforce
    ultimately show ?thesis using Node 2 by (auto simp: Let_def)
  next
    case 3
    then have "CompareKey dev ino (st x) = 0" by (simp add: CompareKey_sign)
    then show ?thesis using Node 3 by (auto simp: Let_def)
  qed
qed

section \<open>The table as a map\<close>

definition table_inv :: "table \<Rightarrow> bool" where
  "table_inv s \<longleftrightarrow>
     bst (vnodes s) (root s) \<and> avl (root s) \<and>
     (\<forall>v\<in>set (inorder (root s)). 0 < KeGetRefCount (ref_count (vnodes s v)))"

definition table_map :: "table \<Rightarrow> u64 \<times> u32 \<Rightarrow> vref option" where
  "table_map s = map_of (map (\<lambda>v. (vkey (vnodes s) v, v)) (inorder (root s)))"

lemma table_map_Some:
  assumes "bst (vnodes s) (root s)"
  shows "table_map s k = Some v \<longleftrightarrow> v \<in> set (inorder (root s)) \<and> vkey (vnodes s) v = k"
proof -
  have "distinct (map fst (map (\<lambda>v. (vkey (vnodes s) v, v)) (inorder (root s))))"
    using assms by (simp add: bst_def comp_def) (metis sorted_wrt_map strict_sorted_iff)
  then show ?thesis by (auto simp: table_map_def map_of_eq_Some_iff)
qed

lemma table_map_None:
  assumes "bst (vnodes s) (root s)"
  shows "table_map s k = None \<longleftrightarrow> (\<forall>v\<in>set (inorder (root s)). vkey (vnodes s) v \<noteq> k)"
  using table_map_Some [OF assms] by (metis not_None_eq)

lemma FindNode_table_map:
  "bst (vnodes s) (root s) \<Longrightarrow> FindNode (vnodes s) (root s) dev ino = table_map s (dev, ino)"
  by (rule option_eqI) (simp add: FindNode_Some table_map_Some)

lemma vkey_ref_count [simp]: "vkey (st(v := (st v)\<lparr>ref_count := c\<rparr>)) = vkey st"
  by (auto simp: vkey_def fun_eq_iff)

lemma bst_ref_count [simp]: "bst (st(v := (st v)\<lparr>ref_count := c\<rparr>)) = bst st"
  by (simp add: bst_def fun_eq_iff)

lemma RefVnode_simps [simp]:
  "root (RefVnode v s) = root s" "vkey (vnodes (RefVnode v s)) = vkey (vnodes s)"
  "cleaned (RefVnode v s) = cleaned s"
  by (simp_all add: RefVnode_def)

lemma DerefVnode_simps [simp]:
  "root (DerefVnode v s) = root s" "vkey (vnodes (DerefVnode v s)) = vkey (vnodes s)"
  by (simp_all add: DerefVnode_def split: prod.splits)

lemma table_map_cong:
  "\<lbrakk>root s = root s'; vkey (vnodes s) = vkey (vnodes s')\<rbrakk> \<Longrightarrow> table_map s = table_map s'"
  by (simp add: table_map_def)

lemma bst_vkey_cong: "vkey st = vkey st' \<Longrightarrow> bst st t = bst st' t"
  by (simp add: bst_def)

lemma count_RefVnode:
  assumes "KeGetRefCount (ref_count (vnodes s v)) < 2 ^ 27 - 1"
  shows "KeGetRefCount (ref_count (vnodes (RefVnode v s) w)) =
    KeGetRefCount (ref_count (vnodes s w)) + (if w = v then 1 else 0)"
  using RefObject_count(1) [OF assms] by (simp add: RefVnode_def)

lemma ResetLinks_absent [simp]: "n \<notin> set (inorder t) \<Longrightarrow> ResetLinks n t = t"
  by (induction t) auto

text \<open>Looking up: the vnode under the key, with one more reference, and the table unchanged.\<close>

lemma TryFind_spec:
  assumes "table_inv s" "TryFindAndReferenceExistingVnode ino dev s = (res, s')"
  shows "res = table_map s (dev, ino)" "table_map s' = table_map s" "root s' = root s"
    "cleaned s' = cleaned s"
  using assms
  by (auto simp: TryFindAndReferenceExistingVnode_def table_inv_def FindNode_table_map
      split: option.splits intro: table_map_cong)

lemma Register_spec:
  assumes inv: "table_inv s" and free: "table_map s (vkey (vnodes s) n) = None"
    and count: "KeGetRefCount (ref_count (vnodes s n)) < 2 ^ 27 - 1"
  obtains s' where "RegisterNewVnode (Some n) s = (Inr (), s')" "table_inv s'"
    "table_map s' = (table_map s)(vkey (vnodes s) n \<mapsto> n)" "vkey (vnodes s') = vkey (vnodes s)"
    "KeGetRefCount (ref_count (vnodes s' n)) = KeGetRefCount (ref_count (vnodes s n)) + 1"
    "\<forall>v. v \<noteq> n \<longrightarrow> vnodes s' v = vnodes s v" "cleaned s' = cleaned s"
proof -
  have bst: "bst (vnodes s) (root s)" and avl: "avl (root s)" using inv by (auto simp: table_inv_def)
  have fresh: "\<forall>v\<in>set (inorder (root s)). vkey (vnodes s) v \<noteq> vkey (vnodes s) n"
    using free table_map_None [OF bst] by blast
  then have notin: "n \<notin> set (inorder (root s))" by blast
  obtain t xs ys where t: "InsertNode (vnodes s) (root s) n False = (t, False)"
    "inorder (root s) = xs @ ys" "inorder t = xs @ n # ys"
    "\<forall>x\<in>set xs. vkey (vnodes s) x < vkey (vnodes s) n"
    "\<forall>y\<in>set ys. vkey (vnodes s) n < vkey (vnodes s) y"
    using InsertNode_new [OF bst fresh] by blast
  define s' where "s' = RefVnode n (s\<lparr>root := t\<rparr>)"
  have reg: "RegisterNewVnode (Some n) s = (Inr (), s')"
    by (simp add: RegisterNewVnode_def notin t(1) s'_def Let_def)
  have bst': "bst (vnodes s) t" using bst t by (auto simp: bst_def sorted_wrt_append)
  have avl': "avl t"
    using InsertNode_avl [OF avl _ t(1)] hgt_bound [OF bst avl] by simp
  have keys: "vkey (vnodes s') = vkey (vnodes s)" by (simp add: s'_def)
  have cnt: "KeGetRefCount (ref_count (vnodes s' w)) =
    KeGetRefCount (ref_count (vnodes s w)) + (if w = n then 1 else 0)" for w
    using count count_RefVnode [of "s\<lparr>root := t\<rparr>" n w] by (simp add: s'_def)
  have inv': "table_inv s'"
    using bst' avl' cnt inv t(2,3) bst_vkey_cong [OF keys]
    by (auto simp: table_inv_def) (simp_all add: s'_def)
  have map': "table_map s' = (table_map s)(vkey (vnodes s) n \<mapsto> n)"
  proof
    fix k
    show "table_map s' k = ((table_map s)(vkey (vnodes s) n \<mapsto> n)) k"
    proof (cases "table_map s' k")
      case None
      then have a: "\<forall>v\<in>set (inorder t). vkey (vnodes s) v \<noteq> k"
        using table_map_None [of s' k] inv' keys by (auto simp: table_inv_def s'_def)
      then have "table_map s k = None" using table_map_None [OF bst, of k] t(2,3) by auto
      moreover have "k \<noteq> vkey (vnodes s) n" using a t(3) by auto
      ultimately show ?thesis using None by simp
    next
      case (Some v)
      then have "v \<in> set (inorder (root s'))" "vkey (vnodes s) v = k"
        using table_map_Some [of s'] inv' keys by (auto simp: table_inv_def)
      then show ?thesis
        using Some table_map_Some [OF bst, of k v] t(2,3) fresh by (auto simp: s'_def)
    qed
  qed
  show thesis
  proof (rule that [OF reg inv' map' keys])
    show "KeGetRefCount (ref_count (vnodes s' n)) = KeGetRefCount (ref_count (vnodes s n)) + 1"
      using cnt by simp
    show "\<forall>v. v \<noteq> n \<longrightarrow> vnodes s' v = vnodes s v" "cleaned s' = cleaned s"
      by (simp_all add: s'_def RefVnode_def)
  qed
qed

lemma Register_duplicate:
  assumes inv: "table_inv s" and dup: "table_map s (vkey (vnodes s) n) = Some v" "v \<noteq> n"
  shows "RegisterNewVnode (Some n) s = (Inl EEXIST, s)"
proof -
  have bst: "bst (vnodes s) (root s)" using inv by (simp add: table_inv_def)
  have v: "v \<in> set (inorder (root s))" "vkey (vnodes s) v = vkey (vnodes s) n"
    using dup(1) table_map_Some [OF bst] by auto
  have "n \<notin> set (inorder (root s))"
    using table_map_Some [OF bst, of "vkey (vnodes s) n" n] dup by auto
  then show ?thesis
    using InsertNode_duplicate [OF bst v] by (simp add: RegisterNewVnode_def Let_def)
qed

lemma filter_ne_distinct:
  assumes "distinct (xs @ n # ys)"
  shows "filter (\<lambda>v. v \<noteq> n) (xs @ n # ys) = xs @ ys"
proof -
  have "filter (\<lambda>v. v \<noteq> n) zs = zs" if "n \<notin> set zs" for zs
    using that by (induction zs) auto
  then show ?thesis using assms by simp
qed

lemma RemoveNode_filter:
  assumes "bst st t" "n \<in> set (inorder t)"
  shows "\<exists>t'. RemoveNode st t n d = (t', True) \<and> inorder t' = filter (\<lambda>v. v \<noteq> n) (inorder t)"
  using RemoveNode_present [OF assms, of d] bst_distinct [OF assms(1)] filter_ne_distinct
  by metis

lemma bst_filter: "\<lbrakk>bst st t; inorder t' = filter P (inorder t)\<rbrakk> \<Longrightarrow> bst st t'"
  by (simp add: bst_def sorted_wrt_filter)

lemma Unregister_spec:
  assumes inv: "table_inv s" and present: "n \<in> set (inorder (root s))"
  obtains s' where "UnregisterVnode (Some n) s = s'" "table_inv s'"
    "table_map s' = (table_map s)(vkey (vnodes s) n := None)"
    "KeGetRefCount (ref_count (vnodes s' n)) = KeGetRefCount (ref_count (vnodes s n)) - 1"
    "cleaned s' = cleaned s @ (if KeGetRefCount (ref_count (vnodes s n)) = 1 then [n] else [])"
proof -
  have bst: "bst (vnodes s) (root s)" and avl: "avl (root s)" using inv by (auto simp: table_inv_def)
  obtain t where t: "RemoveNode (vnodes s) (root s) n False = (t, True)"
    "inorder t = filter (\<lambda>v. v \<noteq> n) (inorder (root s))"
    using RemoveNode_filter [OF bst present] by blast
  define s' where "s' = DerefVnode n (s\<lparr>root := t\<rparr>)"
  have un: "UnregisterVnode (Some n) s = s'"
    by (simp add: UnregisterVnode_def t s'_def Let_def)
  have pos: "0 < KeGetRefCount (ref_count (vnodes s n))" using inv present by (auto simp: table_inv_def)
  note D = DerefObject_count [OF pos]
  have keys: "vkey (vnodes s') = vkey (vnodes s)" by (simp add: s'_def)
  have bst': "bst (vnodes s') t" using bst_filter [OF bst t(2)] bst_vkey_cong [OF keys] by simp
  have avl': "avl t" using RemoveNode_avl [OF avl _ t(1)] hgt_bound [OF bst avl] by simp
  have others: "v \<noteq> n \<Longrightarrow> vnodes s' v = vnodes s v" for v
    by (simp add: s'_def DerefVnode_def split: prod.splits)
  have inv': "table_inv s'"
    using bst' avl' inv t(2) others by (auto simp: table_inv_def) (simp_all add: s'_def)
  have map': "table_map s' = (table_map s)(vkey (vnodes s) n := None)"
  proof
    fix k
    show "table_map s' k = ((table_map s)(vkey (vnodes s) n := None)) k"
    proof (cases "table_map s' k")
      case None
      then have "\<forall>v\<in>set (inorder t). vkey (vnodes s) v \<noteq> k"
        using table_map_None [of s'] inv' keys by (auto simp: table_inv_def s'_def)
      then have "k \<noteq> vkey (vnodes s) n \<Longrightarrow> table_map s k = None"
        using table_map_None [OF bst] t(2) by auto
      with None show ?thesis by auto
    next
      case (Some v)
      then have v: "v \<in> set (inorder t)" "vkey (vnodes s) v = k"
        using table_map_Some [of s'] inv' keys by (auto simp: table_inv_def s'_def)
      then have sk: "table_map s k = Some v" using table_map_Some [OF bst] t(2) by auto
      moreover have "k \<noteq> vkey (vnodes s) n"
        using table_map_Some [OF bst, of k n] present sk v t(2) by auto
      ultimately show ?thesis using Some by simp
    qed
  qed
  show thesis
  proof (rule that [OF un inv' map'])
    show "KeGetRefCount (ref_count (vnodes s' n)) = KeGetRefCount (ref_count (vnodes s n)) - 1"
      using D(1) by (simp add: s'_def DerefVnode_def split_beta)
    show "cleaned s' = cleaned s @ (if KeGetRefCount (ref_count (vnodes s n)) = 1 then [n] else [])"
      using D(3) by (auto simp: s'_def DerefVnode_def split_beta)
  qed
qed


section \<open>Purging\<close>

definition victim :: "vstore \<Rightarrow> purge_scan \<Rightarrow> vref \<Rightarrow> bool" where
  "victim st scan v \<longleftrightarrow>
     ShouldRemoveVnode st v \<and> (have_after scan \<longrightarrow> (after_dev scan, after_id scan) < vkey st v)"

lemma victim_found [simp]: "victim st (scan\<lparr>found := f\<rparr>) = victim st scan"
  by (simp add: victim_def fun_eq_iff)

text \<open>One scan collects the first victims, in key order, up to the size of the batch.\<close>

lemma CollectPurgeVictims_spec:
  assumes "bst st t" "length (found scan) \<le> PURGE_BATCH"
  shows "CollectPurgeVictims st t scan =
    scan\<lparr>found := found scan @ take (PURGE_BATCH - length (found scan)) (filter (victim st scan) (inorder t))\<rparr>"
  using assms
proof (induction t arbitrary: scan)
  case Tip
  then show ?case by simp
next
  case (Node l v r h)
  show ?case
  proof (cases "length (found scan) \<ge> PURGE_BATCH")
    case True
    then show ?thesis using Node.prems by simp
  next
    case False
    show ?thesis
    proof (cases "\<not> have_after scan \<or> (after_dev scan, after_id scan) < vkey st v")
      case True
      define xs where "xs = take (PURGE_BATCH - length (found scan)) (filter (victim st scan) (inorder l))"
      have l: "CollectPurgeVictims st l scan = scan\<lparr>found := found scan @ xs\<rparr>"
        using Node.IH(1) [of scan] Node.prems by (simp add: xs_def)
      have v: "victim st scan v \<longleftrightarrow> ShouldRemoveVnode st v" using True by (auto simp: victim_def)
      show ?thesis
      proof (cases "length (found scan @ xs) \<ge> PURGE_BATCH")
        case full: True
        then have "PURGE_BATCH - length (found scan) \<le> length (filter (victim st scan) (inorder l))"
          by (auto simp: xs_def)
        then show ?thesis using True False full l v
          by (simp add: CompareKey_sign Let_def xs_def)
      next
        case False2: False
        then have xs: "xs = filter (victim st scan) (inorder l)"
          using False by (auto simp: xs_def)
        show ?thesis using True False False2 l v xs Node.prems
          by (simp add: CompareKey_sign Let_def Node.IH(2) take_Cons' Suc_diff_Suc)
      qed
    next
      case False2: False
      then have "victim st scan v = False" "\<forall>x\<in>set (inorder l). \<not> victim st scan x"
        using Node.prems(1) by (auto simp: victim_def dest: order_less_trans)
      then have "filter (victim st scan) (inorder (Node l v r h)) = filter (victim st scan) (inorder r)"
        by (simp add: filter_empty_conv)
      then show ?thesis using False False2 Node.prems Node.IH(2) [of scan]
        by (simp add: CompareKey_sign)
    qed
  qed
qed

lemma UnlinkVictims_spec:
  assumes "bst st t" "avl t" "hgt t < 100" "distinct vs" "set vs \<subseteq> set (inorder t)"
  shows "\<exists>t'. UnlinkVictims st vs t = (t', vs) \<and> avl t' \<and>
    inorder t' = filter (\<lambda>v. v \<notin> set vs) (inorder t)"
  using assms
proof (induction vs arbitrary: t)
  case Nil
  then show ?case by simp
next
  case (Cons v vs)
  obtain t1 where t1: "RemoveNode st t v False = (t1, True)"
    "inorder t1 = filter (\<lambda>w. w \<noteq> v) (inorder t)"
    using RemoveNode_filter [of st t v False] Cons.prems by auto
  have a1: "avl t1" "hgt t1 < 100" using RemoveNode_avl [OF _ _ t1(1)] Cons.prems by auto
  have "set vs \<subseteq> set (inorder t1)" using Cons.prems t1(2) by auto
  then obtain t' where "UnlinkVictims st vs t1 = (t', vs)" "avl t'"
    "inorder t' = filter (\<lambda>v. v \<notin> set vs) (inorder t1)"
    using Cons.IH [OF bst_filter [OF Cons.prems(1) t1(2)] a1] Cons.prems by auto
  then show ?case using t1 by (auto simp: filter_filter intro!: filter_cong)
qed

lemma fold_DerefVnode:
  assumes "distinct vs" "\<forall>v\<in>set vs. KeGetRefCount (ref_count (vnodes s v)) = 1"
  shows "root (fold DerefVnode vs s) = root s"
    and "cleaned (fold DerefVnode vs s) = cleaned s @ vs"
    and "vkey (vnodes (fold DerefVnode vs s)) = vkey (vnodes s)"
    and "\<forall>v. v \<notin> set vs \<longrightarrow> vnodes (fold DerefVnode vs s) v = vnodes s v"
    and "\<forall>v\<in>set vs. KeGetRefCount (ref_count (vnodes (fold DerefVnode vs s) v)) = 0"
proof -
  have "root (fold DerefVnode vs s) = root s \<and>
    cleaned (fold DerefVnode vs s) = cleaned s @ vs \<and>
    vkey (vnodes (fold DerefVnode vs s)) = vkey (vnodes s) \<and>
    (\<forall>v. v \<notin> set vs \<longrightarrow> vnodes (fold DerefVnode vs s) v = vnodes s v) \<and>
    (\<forall>v\<in>set vs. KeGetRefCount (ref_count (vnodes (fold DerefVnode vs s) v)) = 0)"
    using assms
  proof (induction vs arbitrary: s)
    case Nil
    then show ?case by simp
  next
    case (Cons v vs)
    let ?s = "DerefVnode v s"
    have v: "KeGetRefCount (ref_count (vnodes s v)) = 1" using Cons.prems by simp
    have others: "\<forall>w. w \<noteq> v \<longrightarrow> vnodes ?s w = vnodes s w"
      by (simp add: DerefVnode_def split_beta)
    have zero: "KeGetRefCount (ref_count (vnodes ?s v)) = 0" and cl: "cleaned ?s = cleaned s @ [v]"
      using v DerefObject_count [of "ref_count (vnodes s v)"] by (simp_all add: DerefVnode_def split_beta)
    have "\<forall>w\<in>set vs. KeGetRefCount (ref_count (vnodes ?s w)) = 1"
      using Cons.prems others by auto
    with Cons.IH [of ?s] Cons.prems others zero cl show ?case by auto
  qed
  then show "root (fold DerefVnode vs s) = root s" "cleaned (fold DerefVnode vs s) = cleaned s @ vs"
    "vkey (vnodes (fold DerefVnode vs s)) = vkey (vnodes s)"
    "\<forall>v. v \<notin> set vs \<longrightarrow> vnodes (fold DerefVnode vs s) v = vnodes s v"
    "\<forall>v\<in>set vs. KeGetRefCount (ref_count (vnodes (fold DerefVnode vs s) v)) = 0" by blast+
qed


text \<open>The vnodes only the table still refers to, in key order.\<close>

definition unused :: "table \<Rightarrow> vref list" where
  "unused s = filter (ShouldRemoveVnode (vnodes s)) (inorder (root s))"

lemma ShouldRemove_count: "ShouldRemoveVnode st v \<longleftrightarrow> KeGetRefCount (ref_count (st v)) = 1"
  by (simp add: ShouldRemoveVnode_def)

lemma filter_after_take:
  assumes "sorted_wrt R xs" "\<And>x y. R x y \<Longrightarrow> \<not> R y x" "k < length xs"
  shows "filter (R (xs ! k)) xs = drop (Suc k) xs"
proof -
  have "xs = take (Suc k) xs @ drop (Suc k) xs" by simp
  moreover have "filter (R (xs ! k)) (take (Suc k) xs) = []"
  proof -
    have "\<not> R (xs ! k) x" if "x \<in> set (take (Suc k) xs)" for x
    proof -
      from that assms(3) obtain i where "i \<le> k" "x = xs ! i"
        by (auto simp: in_set_conv_nth less_Suc_eq_le)
      then show ?thesis
        using assms sorted_wrt_nth_less [OF assms(1), of i k] by (cases "i = k") auto
    qed
    then show ?thesis by (simp add: filter_empty_conv)
  qed
  moreover have "filter (R (xs ! k)) (drop (Suc k) xs) = drop (Suc k) xs"
  proof -
    have "R (xs ! k) x" if "x \<in> set (drop (Suc k) xs)" for x
    proof -
      from that obtain i where "i < length xs - Suc k" "x = xs ! (Suc k + i)"
        by (auto simp: in_set_conv_nth)
      then have "Suc k + i < length xs" "k < Suc k + i" "x = xs ! (Suc k + i)" by simp_all
      then show ?thesis using sorted_wrt_nth_less [OF assms(1)] by simp
    qed
    then show ?thesis by (simp add: filter_id_conv)
  qed
  ultimately show ?thesis by (metis append_Nil filter_append)
qed

lemma filter_not_take:
  assumes "distinct xs"
  shows "filter (\<lambda>v. v \<notin> set (take n xs)) xs = drop n xs"
proof -
  have "set (take n xs) \<inter> set (drop n xs) = {}"
    using set_take_disj_set_drop_if_distinct [OF assms, of n n] by simp
  then have "filter (\<lambda>v. v \<notin> set (take n xs)) (take n xs @ drop n xs) = drop n xs"
    unfolding filter_append by (subst filter_False) (auto simp: filter_id_conv)
  then show ?thesis by simp
qed

lemma PurgeIteration_spec:
  assumes inv: "table_inv s" and vic: "filter (victim (vnodes s) scan) (inorder (root s)) = unused s"
    and res: "PurgeIteration scan s = (again, scan', s')"
  shows "again \<longleftrightarrow> PURGE_BATCH \<le> length (unused s)"
    and "table_inv s'" and "cleaned s' = cleaned s @ take PURGE_BATCH (unused s)"
    and "inorder (root s') = filter (\<lambda>v. v \<notin> set (take PURGE_BATCH (unused s))) (inorder (root s))"
    and "unused s' = drop PURGE_BATCH (unused s)"
    and "again \<Longrightarrow> filter (victim (vnodes s') scan') (inorder (root s')) = unused s'"
    and "vkey (vnodes s') = vkey (vnodes s)"
    and "\<forall>v. v \<notin> set (take PURGE_BATCH (unused s)) \<longrightarrow> vnodes s' v = vnodes s v"
    and "\<forall>v\<in>set (take PURGE_BATCH (unused s)). KeGetRefCount (ref_count (vnodes s' v)) = 0"
proof -
  define B where "B = take PURGE_BATCH (unused s)"
  have bst: "bst (vnodes s) (root s)" and avl: "avl (root s)" using inv by (auto simp: table_inv_def)
  have dist: "distinct (unused s)" using bst_distinct [OF bst] by (simp add: unused_def)
  have dB: "distinct B" using dist by (simp add: B_def)
  have Bsub: "set B \<subseteq> set (inorder (root s))" "\<forall>v\<in>set B. KeGetRefCount (ref_count (vnodes s v)) = 1"
    by (auto simp: B_def unused_def ShouldRemove_count dest!: in_set_takeD)
  obtain t where t: "UnlinkVictims (vnodes s) B (root s) = (t, B)" "avl t"
    "inorder t = filter (\<lambda>v. v \<notin> set B) (inorder (root s))"
    using UnlinkVictims_spec [OF bst avl _ dB Bsub(1)] hgt_bound [OF bst avl] by auto
  have coll: "CollectPurgeVictims (vnodes s) (root s) (scan\<lparr>found := []\<rparr>) = scan\<lparr>found := B\<rparr>"
    using CollectPurgeVictims_spec [OF bst, of "scan\<lparr>found := []\<rparr>"] vic by (simp add: B_def)
  have again: "again \<longleftrightarrow> length B = PURGE_BATCH" and s': "s' = fold DerefVnode B (s\<lparr>root := t\<rparr>)"
    and scan': "scan' = (if again then scan\<lparr>found := B, have_after := True,
        after_dev := st_dev (vnodes s (last B)), after_id := st_ino (vnodes s (last B))\<rparr>
      else scan\<lparr>found := B\<rparr>)"
    using res coll t(1) by (auto simp: PurgeIteration_def Let_def split: if_splits)
  have "\<forall>v\<in>set B. KeGetRefCount (ref_count (vnodes (s\<lparr>root := t\<rparr>) v)) = 1"
    using Bsub(2) by simp
  note D = fold_DerefVnode [OF dB this, folded s']
  show ag: "again \<longleftrightarrow> PURGE_BATCH \<le> length (unused s)" using again by (auto simp: B_def)
  show keys: "vkey (vnodes s') = vkey (vnodes s)" and
    "\<forall>v. v \<notin> set (take PURGE_BATCH (unused s)) \<longrightarrow> vnodes s' v = vnodes s v"
    "\<forall>v\<in>set (take PURGE_BATCH (unused s)). KeGetRefCount (ref_count (vnodes s' v)) = 0"
    "cleaned s' = cleaned s @ take PURGE_BATCH (unused s)"
    using D by (simp_all add: B_def)
  show ino: "inorder (root s') = filter (\<lambda>v. v \<notin> set (take PURGE_BATCH (unused s))) (inorder (root s))"
    using D(1) t(3) by (simp add: B_def)
  have bst': "bst (vnodes s') (root s')"
    using bst_filter [OF bst t(3)] D(1) bst_vkey_cong [OF keys] by simp
  then show "table_inv s'" using inv D t by (auto simp: table_inv_def)
  have un: "unused s' = filter (\<lambda>v. v \<notin> set B) (unused s)"
  proof -
    have "inorder (root s') = filter (\<lambda>v. v \<notin> set B) (inorder (root s))" by (simp add: ino B_def)
    then show ?thesis
      using D(4) unfolding unused_def [of s'] unused_def [of s]
      by (auto simp: filter_filter ShouldRemove_count intro!: filter_cong)
  qed
  show un': "unused s' = drop PURGE_BATCH (unused s)"
    using un filter_not_take [OF dist, of PURGE_BATCH] by (simp add: B_def)
  show "filter (victim (vnodes s') scan') (inorder (root s')) = unused s'" if again
  proof -
    let ?R = "\<lambda>a b. vkey (vnodes s) a < vkey (vnodes s) b"
    have len: "15 < length (unused s)" using that ag by simp
    have lB: "last B = unused s ! 15"
    proof -
      have "B \<noteq> []" using len by (auto simp: B_def)
      then have "last B = B ! (length B - 1)" by (rule last_conv_nth)
      then show ?thesis using len by (simp add: B_def)
    qed
    have "filter (?R (unused s ! 15)) (unused s) = drop (Suc 15) (unused s)"
      using len bst by (intro filter_after_take) (auto simp: unused_def bst_def sorted_wrt_filter)
    then have after: "filter (?R (last B)) (unused s) = unused s'" using un' lB by simp
    have "filter (victim (vnodes s') scan') (inorder (root s')) = filter (?R (last B)) (unused s')"
      using that keys scan' by (auto simp: unused_def victim_def vkey_def filter_filter
          intro!: filter_cong)
    also have "\<dots> = unused s'" by (simp flip: after add: filter_filter)
    finally show ?thesis .
  qed
qed


text \<open>
  The loop ends, and it removes every unused vnode, in key order, and nothing else. Each iteration
  that asks for another one removes a full batch, so the number of unused vnodes decreases.
\<close>

lemma PurgeLoop_spec:
  assumes "table_inv s" "filter (victim (vnodes s) scan) (inorder (root s)) = unused s"
  shows "\<exists>s'. PurgeLoop scan s = Some s' \<and> table_inv s' \<and> cleaned s' = cleaned s @ unused s \<and>
    inorder (root s') = filter (\<lambda>v. v \<notin> set (unused s)) (inorder (root s)) \<and>
    vkey (vnodes s') = vkey (vnodes s) \<and>
    (\<forall>v. v \<notin> set (unused s) \<longrightarrow> vnodes s' v = vnodes s v)"
  using assms
proof (induction "length (unused s)" arbitrary: s scan rule: less_induct)
  case less
  obtain again scan1 s1 where it: "PurgeIteration scan s = (again, scan1, s1)"
    by (metis prod_cases3)
  note I = PurgeIteration_spec [OF less.prems it]
  show ?case
  proof (cases again)
    case False
    then have "length (unused s) < PURGE_BATCH" using I(1) by simp
    then have "take PURGE_BATCH (unused s) = unused s" by simp
    then show ?thesis using I False it by (subst PurgeLoop.simps) auto
  next
    case True
    then have "length (unused s1) < length (unused s)" using I(1,5) by simp
    then obtain s' where s': "PurgeLoop scan1 s1 = Some s'" "table_inv s'"
      "cleaned s' = cleaned s1 @ unused s1"
      "inorder (root s') = filter (\<lambda>v. v \<notin> set (unused s1)) (inorder (root s1))"
      "vkey (vnodes s') = vkey (vnodes s1)" "\<forall>v. v \<notin> set (unused s1) \<longrightarrow> vnodes s' v = vnodes s1 v"
      using less.hyps [OF _ I(2) I(6) [OF True]] by blast
    have parts: "unused s = take PURGE_BATCH (unused s) @ unused s1" using I(5) by simp
    have sets: "set (unused s) = set (take PURGE_BATCH (unused s)) \<union> set (unused s1)"
      by (subst parts) simp
    have "inorder (root s') = filter (\<lambda>v. v \<notin> set (unused s)) (inorder (root s))"
      unfolding s'(4) I(4) sets by (auto simp: filter_filter intro!: filter_cong)
    moreover have "cleaned s' = cleaned s @ unused s"
      unfolding s'(3) I(3) by (subst parts) simp
    moreover have "\<forall>v. v \<notin> set (unused s) \<longrightarrow> vnodes s' v = vnodes s v"
      using s'(6) I(8) sets by simp
    moreover have "PurgeLoop scan s = Some s'" using it True s'(1) by (subst PurgeLoop.simps) simp
    ultimately show ?thesis using s'(2,5) I(7) by auto
  qed
qed


section \<open>The table as its clients see it\<close>

text \<open>
  A file system driver looks a vnode up by inode and device and, when there is none, creates one
  and registers it (\<^verbatim>\<open>Follow\<close> in \<^verbatim>\<open>kernel/fs/fat/fat_vnode.c\<close>). What it relies on is
  stated over any registry that behaves as a finite map with reference counts.
\<close>

locale vnode_registry =
  fixes find :: "u32 \<Rightarrow> u64 \<Rightarrow> 's \<Rightarrow> vref option \<times> 's"
    and register :: "vref option \<Rightarrow> 's \<Rightarrow> (errno + unit) \<times> 's"
    and contents :: "'s \<Rightarrow> u64 \<times> u32 \<Rightarrow> vref option"
    and key_of :: "'s \<Rightarrow> vref \<Rightarrow> u64 \<times> u32"
    and refs :: "'s \<Rightarrow> vref \<Rightarrow> nat"
    and inv :: "'s \<Rightarrow> bool"
  assumes find_result: "\<lbrakk>inv s; find ino dev s = (r, s')\<rbrakk> \<Longrightarrow> r = contents s (dev, ino)"
    and find_contents: "\<lbrakk>inv s; find ino dev s = (r, s')\<rbrakk> \<Longrightarrow> contents s' = contents s"
    and find_miss: "\<lbrakk>inv s; find ino dev s = (None, s')\<rbrakk> \<Longrightarrow> s' = s"
    and register_new: "\<lbrakk>inv s; contents s (key_of s n) = None; refs s n < 2 ^ 27 - 1\<rbrakk> \<Longrightarrow>
      \<exists>s'. register (Some n) s = (Inr (), s') \<and> inv s' \<and>
        contents s' = (contents s)(key_of s n \<mapsto> n) \<and> key_of s' = key_of s \<and>
        refs s' n = refs s n + 1"
    and register_dup: "\<lbrakk>inv s; contents s (key_of s n) = Some v; v \<noteq> n\<rbrakk> \<Longrightarrow>
      register (Some n) s = (Inl EEXIST, s)"
begin

text \<open>A lookup that misses, followed by the registration, makes later lookups hit.\<close>

lemma find_register_find:
  assumes "inv s" "find ino dev s = (None, s1)" "key_of s1 n = (dev, ino)" "refs s1 n < 2 ^ 27 - 1"
  shows "\<exists>s2. register (Some n) s1 = (Inr (), s2) \<and> inv s2 \<and> fst (find ino dev s2) = Some n \<and>
    contents s2 = (contents s)((dev, ino) \<mapsto> n)"
proof -
  have s1: "s1 = s" and none: "contents s (dev, ino) = None"
    using find_miss [OF assms(1,2)] find_result [OF assms(1,2)] by simp_all
  obtain s2 where s2: "register (Some n) s = (Inr (), s2)" "inv s2"
    "contents s2 = (contents s)(key_of s n \<mapsto> n)"
    using register_new [of s n] assms none s1 by auto
  obtain r s3 where f: "find ino dev s2 = (r, s3)" by fastforce
  then have "r = Some n" using find_result [OF s2(2) f] s2(3) assms(3) s1 by simp
  then show ?thesis using s1 s2 f assms(3) by auto
qed

text \<open>Whoever loses the race to register is told so, and the winner stays.\<close>

lemma register_loses:
  assumes "inv s" "fst (find ino dev s) = Some v" "key_of s n = (dev, ino)" "v \<noteq> n"
  shows "register (Some n) s = (Inl EEXIST, s)"
proof -
  obtain s1 where "find ino dev s = (Some v, s1)" using assms(2) by (cases "find ino dev s") auto
  then have "contents s (dev, ino) = Some v" using find_result [OF assms(1)] by simp
  then show ?thesis using register_dup [OF assms(1)] assms(3,4) by simp
qed

end

interpretation vt: vnode_registry TryFindAndReferenceExistingVnode RegisterNewVnode table_map
  "\<lambda>s. vkey (vnodes s)" "\<lambda>s v. KeGetRefCount (ref_count (vnodes s v))" table_inv
proof unfold_locales
  fix s ino dev r s'
  assume "table_inv s" "TryFindAndReferenceExistingVnode ino dev s = (r, s')"
  then show "r = table_map s (dev, ino)" "table_map s' = table_map s" using TryFind_spec by blast+
next
  fix s ino dev s'
  assume "TryFindAndReferenceExistingVnode ino dev s = (None, s')"
  then show "s' = s" by (auto simp: TryFindAndReferenceExistingVnode_def split: option.splits)
next
  fix s :: table and n
  assume "table_inv s" "table_map s (vkey (vnodes s) n) = None"
    "KeGetRefCount (ref_count (vnodes s n)) < 2 ^ 27 - 1"
  from Register_spec [OF this] show
    "\<exists>s'. RegisterNewVnode (Some n) s = (Inr (), s') \<and> table_inv s' \<and>
      table_map s' = (table_map s)(vkey (vnodes s) n \<mapsto> n) \<and> vkey (vnodes s') = vkey (vnodes s) \<and>
      KeGetRefCount (ref_count (vnodes s' n)) = KeGetRefCount (ref_count (vnodes s n)) + 1"
    by metis
next
  fix s :: table and n v
  assume "table_inv s" "table_map s (vkey (vnodes s) n) = Some v" "v \<noteq> n"
  then show "RegisterNewVnode (Some n) s = (Inl EEXIST, s)" by (rule Register_duplicate)
qed

section \<open>Properties\<close>

definition demo_store :: vstore where
  "demo_store v = \<lparr>ref_count = (if v = 16 then InitObject 5 + 1 else InitObject 5),
     st_dev = 1, st_ino = v\<rparr>"

definition demo_table :: table where
  "demo_table =
     \<lparr>vnodes = demo_store,
      root = Node (Node Tip 8 Tip 1) 16 (Node Tip 24 (Node Tip 32 Tip 1) 2) 3, cleaned = []\<rparr>"

lemma demo_table_inv: "table_inv demo_table"
  by (simp add: table_inv_def demo_table_def demo_store_def vkey_def InitObject_def
      KeGetRefCount_def)


text \<open>
  The vnode table stays balanced: in every table that satisfies the invariant the height is at
  most 65, so the height the code keeps in an \<open>int8_t\<close> is the real height and never wraps.
\<close>

lemma table_height:
  assumes "table_inv s"
  shows "Height (root s) = int (hgt (root s)) \<and> hgt (root s) \<le> 65"
  using assms hgt_bound Height_avl by (auto simp: table_inv_def)

lemma table_height_witness: "Height (root demo_table) = int (hgt (root demo_table)) \<and> hgt (root demo_table) \<le> 65"
  by (rule table_height [OF demo_table_inv])

text \<open>
  C12. \<open>RegisterNewVnode\<close> on a vnode that is not in the table: when its key is free, the call
  succeeds, the table is the old map extended by that key, the vnode has one more reference and the
  invariant (search order, balance, positive reference counts) still holds; when another vnode has
  the key, the call answers \<open>EEXIST\<close> and changes nothing.
\<close>

theorem RegisterNewVnode_correct:
  assumes "table_inv s" "n \<notin> set (inorder (root s))"
    "KeGetRefCount (ref_count (vnodes s n)) < 2 ^ 27 - 1"
  shows "case table_map s (vkey (vnodes s) n) of
      None \<Rightarrow> \<exists>s'. RegisterNewVnode (Some n) s = (Inr (), s') \<and> table_inv s' \<and>
        table_map s' = (table_map s)(vkey (vnodes s) n \<mapsto> n) \<and>
        KeGetRefCount (ref_count (vnodes s' n)) = KeGetRefCount (ref_count (vnodes s n)) + 1
    | Some v \<Rightarrow> RegisterNewVnode (Some n) s = (Inl EEXIST, s)"
proof (cases "table_map s (vkey (vnodes s) n)")
  case None
  with vt.register_new [OF assms(1) None assms(3)] show ?thesis by auto
next
  case (Some v)
  then have "v \<noteq> n" using assms(1,2) table_map_Some by (auto simp: table_inv_def)
  with Some vt.register_dup [OF assms(1) Some] show ?thesis by simp
qed

theorem RegisterNewVnode_correct_witness:
  "fst (RegisterNewVnode (Some 20) demo_table) = Inr () \<and>
   table_map (snd (RegisterNewVnode (Some 20) demo_table)) (1, 20) = Some 20"
proof -
  have k: "vkey (vnodes demo_table) 20 = (1, 20)" and f: "table_map demo_table (1, 20) = None"
    "20 \<notin> set (inorder (root demo_table))"
    "KeGetRefCount (ref_count (vnodes demo_table 20)) < 2 ^ 27 - 1"
    by (simp_all add: demo_table_def demo_store_def vkey_def table_map_def InitObject_def KeGetRefCount_def)
  show ?thesis using RegisterNewVnode_correct [OF demo_table_inv f(2,3)] f k by auto
qed

text \<open>
  C20. \<open>UnregisterVnode\<close> on a registered vnode removes exactly its key from the map, keeps the
  invariant, drops the table's reference and runs the cleanup exactly when that was the last one.
\<close>

theorem UnregisterVnode_correct:
  assumes "table_inv s" "n \<in> set (inorder (root s))"
  shows "table_inv (UnregisterVnode (Some n) s) \<and>
    table_map (UnregisterVnode (Some n) s) = (table_map s)(vkey (vnodes s) n := None) \<and>
    KeGetRefCount (ref_count (vnodes (UnregisterVnode (Some n) s) n)) =
      KeGetRefCount (ref_count (vnodes s n)) - 1 \<and>
    cleaned (UnregisterVnode (Some n) s) =
      cleaned s @ (if KeGetRefCount (ref_count (vnodes s n)) = 1 then [n] else [])"
  by (rule Unregister_spec [OF assms]) simp

theorem UnregisterVnode_correct_witness:
  "table_inv (UnregisterVnode (Some 16) demo_table) \<and>
   table_map (UnregisterVnode (Some 16) demo_table) (1, 16) = None \<and>
   cleaned (UnregisterVnode (Some 16) demo_table) = []"
proof -
  have p: "16 \<in> set (inorder (root demo_table))" "vkey (vnodes demo_table) 16 = (1, 16)"
    "KeGetRefCount (ref_count (vnodes demo_table 16)) = 2" "cleaned demo_table = []"
    by (simp_all add: demo_table_def demo_store_def vkey_def InitObject_def KeGetRefCount_def)
  show ?thesis using UnregisterVnode_correct [OF demo_table_inv p(1)] p by simp
qed

text \<open>
  C21. \<open>PurgeOldVnodes\<close> returns, and it evicts and cleans up exactly the vnodes to which only the
  table still refers, in key order and whatever their number (the code works in batches of 16);
  every other vnode stays registered, untouched, and the invariant holds.
\<close>

theorem PurgeOldVnodes_correct:
  assumes "table_inv s"
  shows "\<exists>s'. PurgeOldVnodes s = Some s' \<and> table_inv s' \<and>
    cleaned s' = cleaned s @ filter (ShouldRemoveVnode (vnodes s)) (inorder (root s)) \<and>
    inorder (root s') = filter (\<lambda>v. \<not> ShouldRemoveVnode (vnodes s) v) (inorder (root s)) \<and>
    (\<forall>v. \<not> ShouldRemoveVnode (vnodes s) v \<longrightarrow> vnodes s' v = vnodes s v)"
proof -
  let ?scan = "\<lparr>have_after = False, after_dev = 0, after_id = 0, found = []\<rparr>"
  have "filter (victim (vnodes s) ?scan) (inorder (root s)) = unused s"
    by (auto simp: victim_def unused_def intro!: filter_cong)
  from PurgeLoop_spec [OF assms this] obtain s' where s': "PurgeLoop ?scan s = Some s'"
    "table_inv s'" "cleaned s' = cleaned s @ unused s"
    "inorder (root s') = filter (\<lambda>v. v \<notin> set (unused s)) (inorder (root s))"
    "\<forall>v. v \<notin> set (unused s) \<longrightarrow> vnodes s' v = vnodes s v" by blast
  moreover have "filter (\<lambda>v. v \<notin> set (unused s)) (inorder (root s)) =
    filter (\<lambda>v. \<not> ShouldRemoveVnode (vnodes s) v) (inorder (root s))"
    by (auto simp: unused_def intro!: filter_cong)
  moreover have "\<forall>v. \<not> ShouldRemoveVnode (vnodes s) v \<longrightarrow> vnodes s' v = vnodes s v"
    using s'(5) by (auto simp: unused_def)
  ultimately show ?thesis by (auto simp: PurgeOldVnodes_def unused_def)
qed

theorem PurgeOldVnodes_correct_witness:
  "\<exists>s'. PurgeOldVnodes demo_table = Some s' \<and> inorder (root s') = [16] \<and> cleaned s' = [8, 24, 32]"
proof -
  have "filter (ShouldRemoveVnode (vnodes demo_table)) (inorder (root demo_table)) = [8, 24, 32]"
    "filter (\<lambda>v. \<not> ShouldRemoveVnode (vnodes demo_table) v) (inorder (root demo_table)) = [16]"
    "cleaned demo_table = []"
    by (simp_all add: demo_table_def demo_store_def ShouldRemoveVnode_def InitObject_def KeGetRefCount_def)
  with PurgeOldVnodes_correct [OF demo_table_inv] show ?thesis by auto
qed

text \<open>
  What the code relies on and does not check: a vnode that is registered a second time has its
  tree links reset first, so everything below it drops out of the table. Here three of the four
  vnodes become unreachable, while the call itself only reports \<open>EEXIST\<close>.
\<close>

lemma RegisterNewVnode_twice_loses_subtrees:
  "inorder (root demo_table) = [8, 16, 24, 32] \<and>
   fst (RegisterNewVnode (Some 16) demo_table) = Inl EEXIST \<and>
   inorder (root (snd (RegisterNewVnode (Some 16) demo_table))) = [16]"
  by (simp add: RegisterNewVnode_def demo_table_def demo_store_def CompareNodes_def CompareKey_def)

end
