(* ===== verification/KState.thy ===== *)
theory KState
  imports Prelude
begin

text \<open>
  The state the synchronisation and scheduling code of the kernel works on: threads, semaphores,
  wait clots (one waiter on several semaphores), the globals of \<^verbatim>\<open>kernel/task/scheduler.c\<close> and
  \<^verbatim>\<open>kernel/core/timer.c\<close>, and the interrupt state of the one CPU that is modelled
  (\<^verbatim>\<open>kernel/include/cpu.h\<close>). Objects are named by numbers that stand for their addresses; a
  pointer is an option, \<open>None\<close> being the null pointer.

  An operation has type \<open>kstate \<Rightarrow> kstate option\<close>, or returns a value beside the state.
  \<open>None\<close> means that control does not come back from the call: the kernel panicked, the CPU spins
  for ever on a lock it already holds, or a pointer was followed that the code must not follow.
  Theorems that an operation works therefore always say that it returns \<open>Some\<close>.
\<close>

section \<open>Objects\<close>

type_synonym tid = nat
type_synonym sid = nat
type_synonym cid = nat

datatype tstate = THREAD_STATE_RUNNING | THREAD_STATE_READY | THREAD_STATE_BLOCKED

text \<open>What hangs on a semaphore's waiting list, and what a waiting thread points back to.\<close>

datatype waiter = Thr tid | Clot cid

datatype waiting_on = OnSem sid | OnClot cid

record thread =
  state :: tstate
  priority :: u8
  idling :: bool
  block_return_val :: int
  next_ready :: "tid option"
  next_waiting_sem :: "waiter option"
  next_waiting_timer :: "tid option"
  waiting_sem_or_clot :: "waiting_on option"
  wakeup_time_ns :: u64
  affinity_bitmask :: u32
  irq_disable_counter :: u32
  saved_interrupt_enabled :: bool

record sem =
  count :: int
  smax :: int
  waiting_list_start :: "waiter option"
  waiting_list_end :: "waiter option"

text \<open>\<open>nexts\<close> has one entry per semaphore of the clot; the source's \<open>count\<close> is their number.\<close>

record wait_clot =
  thr :: tid
  csems :: "sid list"
  nexts :: "waiter option list"

datatype lockname = SchedLock | TimerLock

text \<open>
  \<open>Parked og\<close>: the CPU sits in the idle loop of \<open>IdleUntilRunnable\<close>, on the stack of the current
  thread, with \<open>og_seq = og\<close>. The call that led there continues when the loop is left.
\<close>

datatype phase = Executing | Parked u32

record kstate =
  threads :: "tid \<Rightarrow> thread"
  sems :: "sid \<Rightarrow> sem"
  clots :: "cid \<Rightarrow> wait_clot option"
  current_thread :: tid
  sched_init :: bool
  sched_prevent_count :: int
  sched_postponed :: bool
  sched_postponed_thr :: "tid option"
  ready_list_head :: "tid option"
  ready_list_tail :: "tid option"
  something_unblocked_seq :: u32
  last_task_switch_time :: u64
  ns_since_boot :: u64
  next_wakeup_ns :: u64
  first_waiting_timer :: "tid option"
  locks :: "lockname \<Rightarrow> bool"
  interrupts :: bool
  cpu_irq_disable_counter :: u32
  cpu_saved_interrupt_enabled :: bool
  cpu_num :: nat
  cpu_phase :: phase

definition upd_thread :: "tid \<Rightarrow> (thread \<Rightarrow> thread) \<Rightarrow> kstate \<Rightarrow> kstate" where
  "upd_thread t f s = s\<lparr>threads := (threads s)(t := f (threads s t))\<rparr>"

definition upd_sem :: "sid \<Rightarrow> (sem \<Rightarrow> sem) \<Rightarrow> kstate \<Rightarrow> kstate" where
  "upd_sem q f s = s\<lparr>sems := (sems s)(q := f (sems s q))\<rparr>"

lemma upd_thread_simps [simp]:
  "threads (upd_thread t f s) = (threads s)(t := f (threads s t))"
  "sems (upd_thread t f s) = sems s" "clots (upd_thread t f s) = clots s"
  "current_thread (upd_thread t f s) = current_thread s" "sched_init (upd_thread t f s) = sched_init s"
  "sched_prevent_count (upd_thread t f s) = sched_prevent_count s"
  "sched_postponed (upd_thread t f s) = sched_postponed s"
  "sched_postponed_thr (upd_thread t f s) = sched_postponed_thr s"
  "ready_list_head (upd_thread t f s) = ready_list_head s"
  "ready_list_tail (upd_thread t f s) = ready_list_tail s"
  "something_unblocked_seq (upd_thread t f s) = something_unblocked_seq s"
  "last_task_switch_time (upd_thread t f s) = last_task_switch_time s"
  "ns_since_boot (upd_thread t f s) = ns_since_boot s"
  "next_wakeup_ns (upd_thread t f s) = next_wakeup_ns s"
  "first_waiting_timer (upd_thread t f s) = first_waiting_timer s"
  "locks (upd_thread t f s) = locks s" "interrupts (upd_thread t f s) = interrupts s"
  "cpu_irq_disable_counter (upd_thread t f s) = cpu_irq_disable_counter s"
  "cpu_saved_interrupt_enabled (upd_thread t f s) = cpu_saved_interrupt_enabled s"
  "cpu_num (upd_thread t f s) = cpu_num s" "cpu_phase (upd_thread t f s) = cpu_phase s"
  by (simp_all add: upd_thread_def)

lemma upd_sem_simps [simp]:
  "sems (upd_sem q g s) = (sems s)(q := g (sems s q))"
  "threads (upd_sem q g s) = threads s" "clots (upd_sem q g s) = clots s"
  "current_thread (upd_sem q g s) = current_thread s" "sched_init (upd_sem q g s) = sched_init s"
  "sched_prevent_count (upd_sem q g s) = sched_prevent_count s"
  "sched_postponed (upd_sem q g s) = sched_postponed s"
  "sched_postponed_thr (upd_sem q g s) = sched_postponed_thr s"
  "ready_list_head (upd_sem q g s) = ready_list_head s"
  "ready_list_tail (upd_sem q g s) = ready_list_tail s"
  "something_unblocked_seq (upd_sem q g s) = something_unblocked_seq s"
  "last_task_switch_time (upd_sem q g s) = last_task_switch_time s"
  "ns_since_boot (upd_sem q g s) = ns_since_boot s"
  "next_wakeup_ns (upd_sem q g s) = next_wakeup_ns s"
  "first_waiting_timer (upd_sem q g s) = first_waiting_timer s"
  "locks (upd_sem q g s) = locks s" "interrupts (upd_sem q g s) = interrupts s"
  "cpu_irq_disable_counter (upd_sem q g s) = cpu_irq_disable_counter s"
  "cpu_saved_interrupt_enabled (upd_sem q g s) = cpu_saved_interrupt_enabled s"
  "cpu_num (upd_sem q g s) = cpu_num s" "cpu_phase (upd_sem q g s) = cpu_phase s"
  by (simp_all add: upd_sem_def)

section \<open>Interrupt nesting and spinlocks\<close>

text \<open>\<^verbatim>\<open>kernel/sync/irqctrl.c\<close>\<close>

definition AcquireIrqPrevent :: "kstate \<Rightarrow> kstate option" where
  "AcquireIrqPrevent s =
     (let were_irqs_on = interrupts s;
          old = cpu_irq_disable_counter s;
          s1 = s\<lparr>interrupts := False, cpu_irq_disable_counter := old + 1,
                cpu_saved_interrupt_enabled :=
                  (if old = 0 then were_irqs_on else cpu_saved_interrupt_enabled s)\<rparr>
      in if cpu_irq_disable_counter s1 = 0 then None else Some s1)"

definition ReleaseIrqPrevent :: "kstate \<Rightarrow> kstate option" where
  "ReleaseIrqPrevent s =
     (if cpu_irq_disable_counter s = 0 then None
      else
        (let c = cpu_irq_disable_counter s - 1
         in Some (s\<lparr>cpu_irq_disable_counter := c,
              interrupts := (if c = 0 \<and> cpu_saved_interrupt_enabled s then True else interrupts s)\<rparr>)))"

text \<open>
  \<^verbatim>\<open>kernel/sync/spinlock.c\<close>. With one CPU and interrupts off nobody can release a lock that is
  already taken, so spinning on it does not end.
\<close>

definition AcquireSpinlock :: "lockname \<Rightarrow> kstate \<Rightarrow> kstate option" where
  "AcquireSpinlock l s =
     do { s \<leftarrow> AcquireIrqPrevent s;
          if locks s l then None else Some (s\<lparr>locks := (locks s)(l := True)\<rparr>) }"

definition ReleaseSpinlock :: "lockname \<Rightarrow> kstate \<Rightarrow> kstate option" where
  "ReleaseSpinlock l s = ReleaseIrqPrevent (s\<lparr>locks := (locks s)(l := False)\<rparr>)"

text \<open>
  A state in which a lock can be taken and released again: the nesting counter has room. Taking
  and releasing in a nested way gives back the same interrupt state.
\<close>

definition room :: "nat \<Rightarrow> kstate \<Rightarrow> bool" where
  "room n s \<longleftrightarrow> unat (cpu_irq_disable_counter s) + n < 2 ^ 32"

lemma AcquireIrqPrevent_Some:
  assumes "room 1 s"
  shows "AcquireIrqPrevent s = Some (s\<lparr>interrupts := False,
    cpu_irq_disable_counter := cpu_irq_disable_counter s + 1,
    cpu_saved_interrupt_enabled :=
      (if cpu_irq_disable_counter s = 0 then interrupts s else cpu_saved_interrupt_enabled s)\<rparr>)"
proof -
  have "unat (cpu_irq_disable_counter s + 1) = unat (cpu_irq_disable_counter s) + 1"
    using assms by (simp add: room_def unat_word_ariths)
  then have "cpu_irq_disable_counter s + 1 \<noteq> 0" by (metis add_is_0 one_neq_zero unat_0)
  then show ?thesis by (simp add: AcquireIrqPrevent_def Let_def)
qed

lemma interrupts_off_id: "\<not> interrupts s \<Longrightarrow> s\<lparr>interrupts := False\<rparr> = s"
  by (cases s) simp

text \<open>Acquire then release: the identity, but for the saved flag when the nesting starts here.\<close>

lemma irq_balanced:
  assumes "room 1 s" "interrupts s \<Longrightarrow> cpu_irq_disable_counter s = 0"
  shows "AcquireIrqPrevent s \<bind> ReleaseIrqPrevent =
    Some (s\<lparr>cpu_saved_interrupt_enabled :=
      (if cpu_irq_disable_counter s = 0 then interrupts s else cpu_saved_interrupt_enabled s)\<rparr>)"
proof -
  have "unat (cpu_irq_disable_counter s + 1) = unat (cpu_irq_disable_counter s) + 1"
    using assms(1) by (simp add: room_def unat_word_ariths)
  then have "cpu_irq_disable_counter s + 1 \<noteq> 0" by (metis add_is_0 one_neq_zero unat_0)
  moreover have "s\<lparr>interrupts := False\<rparr> = s" if "cpu_irq_disable_counter s \<noteq> 0"
    using assms(2) that interrupts_off_id by blast
  ultimately show ?thesis
    using assms(1) by (auto simp: AcquireIrqPrevent_Some ReleaseIrqPrevent_def Let_def)
qed

end
