(* ===== verification/ReadyQueue.thy ===== *)
theory ReadyQueue
  imports KState
begin

unbundle bit_operations_syntax

text \<open>
  The ready queue of \<^verbatim>\<open>kernel/task/scheduler.c\<close>: a singly linked list through
  \<open>next_ready\<close> with a head and a tail pointer, and its reading as a list of threads.
\<close>

section \<open>Operations\<close>

definition CanThreadRunOnThisCpu :: "tid \<Rightarrow> kstate \<Rightarrow> bool" where
  "CanThreadRunOnThisCpu t s \<longleftrightarrow> bit (affinity_bitmask (threads s t)) (cpu_num s)"

text \<open>The \<open>while\<close> loop of \<open>FindNextThread\<close>, with its variables \<open>prev\<close> and \<open>thr\<close>.\<close>

partial_function (option) FindNextThread_loop ::
    "tid option \<Rightarrow> tid option \<Rightarrow> kstate \<Rightarrow> (tid option \<times> kstate) option" where
  "FindNextThread_loop prev th s =
     (case th of
        None \<Rightarrow> Some (None, s)
      | Some t \<Rightarrow>
          if CanThreadRunOnThisCpu t s then
            (let nxt = next_ready (threads s t);
                 s1 = (case prev of
                         None \<Rightarrow> s\<lparr>ready_list_head := nxt\<rparr>
                       | Some p \<Rightarrow> upd_thread p (\<lambda>x. x\<lparr>next_ready := nxt\<rparr>) s);
                 s2 = (if Some t = ready_list_tail s1 then s1\<lparr>ready_list_tail := prev\<rparr> else s1)
             in Some (Some t, upd_thread t (\<lambda>x. x\<lparr>next_ready := None\<rparr>) s2))
          else FindNextThread_loop (Some t) (next_ready (threads s t)) s)"

definition FindNextThread :: "kstate \<Rightarrow> (tid option \<times> kstate) option" where
  "FindNextThread s = FindNextThread_loop None (ready_list_head s) s"

definition AddToBackOfReadyQueue :: "tid \<Rightarrow> kstate \<Rightarrow> kstate" where
  "AddToBackOfReadyQueue t s =
     (let s1 = upd_thread t (\<lambda>x. x\<lparr>state := THREAD_STATE_READY, next_ready := None\<rparr>) s;
          s2 = (case ready_list_tail s1 of
                  None \<Rightarrow> s1
                | Some p \<Rightarrow> upd_thread p (\<lambda>x. x\<lparr>next_ready := Some t\<rparr>) s1);
          s3 = s2\<lparr>ready_list_tail := Some t\<rparr>
      in if ready_list_head s3 = None then s3\<lparr>ready_list_head := Some t\<rparr> else s3)"

section \<open>The queue as a list\<close>

definition ready_queue :: "kstate \<Rightarrow> tid list \<Rightarrow> bool" where
  "ready_queue s xs \<longleftrightarrow>
     chain (\<lambda>t. next_ready (threads s t)) (ready_list_head s) xs None \<and>
     ready_list_tail s = last_ptr xs"

lemma ready_queue_unique: "\<lbrakk>ready_queue s xs; ready_queue s ys\<rbrakk> \<Longrightarrow> xs = ys"
  unfolding ready_queue_def using chain_unique by fast

lemma ready_queue_distinct: "ready_queue s xs \<Longrightarrow> distinct xs"
  unfolding ready_queue_def using chain_distinct by fast

lemma next_ready_upd:
  "(\<lambda>t. next_ready (if t = p then f (threads s p) else threads s t)) =
     (\<lambda>t. next_ready (threads s t))(p := next_ready (f (threads s p)))"
  by auto

lemma AddToBack_queue:
  assumes "ready_queue s xs" "t \<notin> set xs"
  shows "ready_queue (AddToBackOfReadyQueue t s) (xs @ [t])"
proof (cases "xs = []")
  case True
  then show ?thesis using assms
    by (auto simp: ready_queue_def AddToBackOfReadyQueue_def Let_def)
next
  case False
  let ?n = "\<lambda>u. next_ready (threads s u)"
  have tail: "ready_list_tail s = Some (last xs)" and head: "ready_list_head s \<noteq> None"
    using assms(1) False by (auto simp: ready_queue_def last_ptr_def neq_Nil_conv)
  have l: "last xs \<noteq> t" using assms(2) False by auto
  have "chain (?n(last xs := Some t, t := None)) (ready_list_head s) (xs @ [t]) None"
    using assms False by (intro chain_snoc) (auto simp: ready_queue_def)
  moreover have "(\<lambda>u. next_ready (threads (AddToBackOfReadyQueue t s) u)) =
      ?n(last xs := Some t, t := None)"
    using tail l by (auto simp: AddToBackOfReadyQueue_def Let_def fun_eq_iff)
  moreover have "ready_list_head (AddToBackOfReadyQueue t s) = ready_list_head s"
    "ready_list_tail (AddToBackOfReadyQueue t s) = Some t"
    using tail head by (auto simp: AddToBackOfReadyQueue_def Let_def)
  ultimately show ?thesis by (simp add: ready_queue_def)
qed

text \<open>Only the queue links and the state of the queued thread change.\<close>

lemma AddToBack_frame:
  "sems (AddToBackOfReadyQueue t s) = sems s" "clots (AddToBackOfReadyQueue t s) = clots s"
  "state (threads (AddToBackOfReadyQueue t s) u) =
     (if u = t then THREAD_STATE_READY else state (threads s u))"
  "next_waiting_sem (threads (AddToBackOfReadyQueue t s) u) = next_waiting_sem (threads s u)"
  "waiting_sem_or_clot (threads (AddToBackOfReadyQueue t s) u) = waiting_sem_or_clot (threads s u)"
  "next_waiting_timer (threads (AddToBackOfReadyQueue t s) u) = next_waiting_timer (threads s u)"
  "wakeup_time_ns (threads (AddToBackOfReadyQueue t s) u) = wakeup_time_ns (threads s u)"
  "block_return_val (threads (AddToBackOfReadyQueue t s) u) = block_return_val (threads s u)"
  "priority (threads (AddToBackOfReadyQueue t s) u) = priority (threads s u)"
  "idling (threads (AddToBackOfReadyQueue t s) u) = idling (threads s u)"
  "affinity_bitmask (threads (AddToBackOfReadyQueue t s) u) = affinity_bitmask (threads s u)"
  "first_waiting_timer (AddToBackOfReadyQueue t s) = first_waiting_timer s"
  "next_wakeup_ns (AddToBackOfReadyQueue t s) = next_wakeup_ns s"
  "ns_since_boot (AddToBackOfReadyQueue t s) = ns_since_boot s"
  "current_thread (AddToBackOfReadyQueue t s) = current_thread s"
  "sched_init (AddToBackOfReadyQueue t s) = sched_init s"
  "sched_postponed (AddToBackOfReadyQueue t s) = sched_postponed s"
  "sched_postponed_thr (AddToBackOfReadyQueue t s) = sched_postponed_thr s"
  "sched_prevent_count (AddToBackOfReadyQueue t s) = sched_prevent_count s"
  "something_unblocked_seq (AddToBackOfReadyQueue t s) = something_unblocked_seq s"
  "locks (AddToBackOfReadyQueue t s) = locks s"
  "interrupts (AddToBackOfReadyQueue t s) = interrupts s"
  "cpu_irq_disable_counter (AddToBackOfReadyQueue t s) = cpu_irq_disable_counter s"
  "cpu_saved_interrupt_enabled (AddToBackOfReadyQueue t s) = cpu_saved_interrupt_enabled s"
  "cpu_num (AddToBackOfReadyQueue t s) = cpu_num s"
  "cpu_phase (AddToBackOfReadyQueue t s) = cpu_phase s"
  "ready_list_head (AddToBackOfReadyQueue t s) \<noteq> None"
  by (auto simp: AddToBackOfReadyQueue_def Let_def split: option.splits)

text \<open>
  The search takes the first thread that may run on this CPU; the others keep their order. The
  loop invariant: \<open>ys\<close> has been passed over and \<open>th\<close> heads the rest \<open>zs\<close>.
\<close>

lemma FindNextThread_loop_spec:
  assumes "ready_queue s (ys @ zs)" "\<forall>t\<in>set ys. \<not> CanThreadRunOnThisCpu t s"
    "prev = last_ptr ys" "th = (case zs of [] \<Rightarrow> None | z # _ \<Rightarrow> Some z)"
  shows "\<exists>r s'. FindNextThread_loop prev th s = Some (r, s') \<and>
    r = find (\<lambda>t. CanThreadRunOnThisCpu t s) zs \<and>
    ready_queue s' (ys @ (case r of None \<Rightarrow> zs | Some t \<Rightarrow> remove1 t zs)) \<and>
    (case r of None \<Rightarrow> s' = s | Some t \<Rightarrow> next_ready (threads s' t) = None)"
  using assms
proof (induction zs arbitrary: ys prev th)
  case Nil
  then show ?case by (subst FindNextThread_loop.simps) simp
next
  case (Cons z zs)
  let ?n = "\<lambda>u. next_ready (threads s u)"
  have chain: "chain ?n (ready_list_head s) (ys @ z # zs) None"
    and tail: "ready_list_tail s = last_ptr (ys @ z # zs)"
    using Cons.prems(1) by (auto simp: ready_queue_def)
  have dist: "distinct (ys @ z # zs)" using chain by (rule chain_distinct)
  have zn: "?n z = (case zs of [] \<Rightarrow> None | z # _ \<Rightarrow> Some z)"
    using chain by (auto simp: chain_append dest: chain_hd)
  show ?case
  proof (cases "CanThreadRunOnThisCpu z s")
    case False
    have "\<exists>r s'. FindNextThread_loop (Some z) (?n z) s = Some (r, s') \<and>
      r = find (\<lambda>t. CanThreadRunOnThisCpu t s) zs \<and>
      ready_queue s' ((ys @ [z]) @ (case r of None \<Rightarrow> zs | Some t \<Rightarrow> remove1 t zs)) \<and>
      (case r of None \<Rightarrow> s' = s | Some t \<Rightarrow> next_ready (threads s' t) = None)"
      using Cons.prems False zn by (intro Cons.IH) auto
    then obtain r s' where *: "FindNextThread_loop (Some z) (?n z) s = Some (r, s')"
      "r = find (\<lambda>t. CanThreadRunOnThisCpu t s) zs"
      "ready_queue s' ((ys @ [z]) @ (case r of None \<Rightarrow> zs | Some t \<Rightarrow> remove1 t zs))"
      "case r of None \<Rightarrow> s' = s | Some t \<Rightarrow> next_ready (threads s' t) = None" by blast
    have "t \<noteq> z" if "r = Some t" for t
      using that *(2) dist by (auto simp: find_Some_iff)
    then show ?thesis using * Cons.prems(4) False
      by (intro exI [of _ r] exI [of _ s'])
        (subst FindNextThread_loop.simps, auto split: option.splits)
  next
    case True
    define s' where "s' = upd_thread z (\<lambda>x. x\<lparr>next_ready := None\<rparr>)
      (let s1 = (case prev of None \<Rightarrow> s\<lparr>ready_list_head := ?n z\<rparr>
                 | Some p \<Rightarrow> upd_thread p (\<lambda>x. x\<lparr>next_ready := ?n z\<rparr>) s)
       in if Some z = ready_list_tail s1 then s1\<lparr>ready_list_tail := prev\<rparr> else s1)"
    have res: "FindNextThread_loop prev th s = Some (Some z, s')"
      using True Cons.prems(4) by (subst FindNextThread_loop.simps) (simp add: s'_def Let_def)
    have "ready_queue s' (ys @ zs)"
    proof (cases ys rule: rev_cases)
      case Nil
      then show ?thesis using chain tail dist Cons.prems(3)
        by (cases zs) (auto simp: ready_queue_def s'_def Let_def next_ready_upd chain_simps
            dest: last_ptr_in_set [OF sym])
    next
      case (snoc ys' p)
      have "chain (?n(p := ?n z)) (ready_list_head s) (ys' @ p # zs) None"
        using chain snoc by (intro chain_unlink) simp
      moreover have "z \<notin> set (ys' @ p # zs)" using dist snoc by auto
      ultimately have "chain (?n(p := ?n z, z := None)) (ready_list_head s) (ys' @ p # zs) None"
        by (subst chain_upd_notin) simp_all
      moreover have "(\<lambda>u. next_ready (threads s' u)) = ?n(p := ?n z, z := None)"
        using Cons.prems(3) snoc by (auto simp: s'_def Let_def fun_eq_iff)
      moreover have "ready_list_head s' = ready_list_head s"
        "ready_list_tail s' = last_ptr (ys' @ p # zs)"
        using Cons.prems(3) snoc tail dist
        by (auto simp: s'_def Let_def last_ptr_def split: if_splits)
      ultimately show ?thesis using snoc by (simp add: ready_queue_def)
    qed
    moreover have "next_ready (threads s' z) = None" by (simp add: s'_def Let_def)
    ultimately show ?thesis using res True by (intro exI [of _ "Some z"] exI [of _ s']) simp
  qed
qed

lemma FindNextThread_spec:
  assumes "ready_queue s xs"
  obtains r s' where "FindNextThread s = Some (r, s')"
    "r = find (\<lambda>t. CanThreadRunOnThisCpu t s) xs"
    "ready_queue s' (case r of None \<Rightarrow> xs | Some t \<Rightarrow> remove1 t xs)"
    "case r of None \<Rightarrow> s' = s | Some t \<Rightarrow> next_ready (threads s' t) = None"
proof -
  have "ready_list_head s = (case xs of [] \<Rightarrow> None | x # _ \<Rightarrow> Some x)"
    using assms chain_hd by (auto simp: ready_queue_def)
  with FindNextThread_loop_spec [of s "[]" xs None "ready_list_head s"] assms that show thesis
    unfolding FindNextThread_def by auto
qed

end
