(* ===== verification/SemQueue.thy ===== *)
theory SemQueue
  imports KState
begin

text \<open>
  The waiting lists of \<^verbatim>\<open>kernel/sync/sem.c\<close>. A semaphore keeps a singly linked list of
  waiters with head and tail pointers. A thread that waits for one semaphore is linked through its
  own \<open>next_waiting_sem\<close>; a thread that waits for several is represented by one wait clot, which is
  on all their lists at once and has one next pointer per semaphore.
\<close>

section \<open>Operations\<close>

fun lookup_loop :: "sid list \<Rightarrow> int \<Rightarrow> sid \<Rightarrow> int" where
  "lookup_loop [] i sem = -1"
| "lookup_loop (q # qs) i sem = (if q = sem then i else lookup_loop qs (i + 1) sem)"

definition LookupClotIndex :: "wait_clot \<Rightarrow> sid \<Rightarrow> int" where
  "LookupClotIndex clot sem = lookup_loop (csems clot) 0 sem"

text \<open>
  The thread behind a list element: the element itself, or the \<open>thr\<close> of the clot. A clot that
  has been freed cannot be read.
\<close>

definition owner :: "kstate \<Rightarrow> waiter \<Rightarrow> tid option" where
  "owner s w = (case w of Thr t \<Rightarrow> Some t | Clot c \<Rightarrow> map_option thr (clots s c))"

text \<open>
  Reading and writing the next pointer of a list element on the list of \<open>sem\<close>:
  \<open>next_waiting_sem\<close> or \<open>clot->nexts[LookupClotIndex(clot, sem)]\<close>. An index of -1 would be an
  access outside the array.
\<close>

definition read_next :: "kstate \<Rightarrow> sid \<Rightarrow> waiter \<Rightarrow> waiter option option" where
  "read_next s sem w =
     (case w of
        Thr t \<Rightarrow> Some (next_waiting_sem (threads s t))
      | Clot c \<Rightarrow>
          (case clots s c of
             None \<Rightarrow> None
           | Some clot \<Rightarrow>
               (let i = LookupClotIndex clot sem
                in if 0 \<le> i \<and> nat i < length (nexts clot) then Some (nexts clot ! nat i) else None)))"

definition write_next :: "sid \<Rightarrow> waiter \<Rightarrow> waiter option \<Rightarrow> kstate \<Rightarrow> kstate option" where
  "write_next sem w v s =
     (case w of
        Thr t \<Rightarrow> Some (upd_thread t (\<lambda>x. x\<lparr>next_waiting_sem := v\<rparr>) s)
      | Clot c \<Rightarrow>
          (case clots s c of
             None \<Rightarrow> None
           | Some clot \<Rightarrow>
               (let i = LookupClotIndex clot sem
                in if 0 \<le> i \<and> nat i < length (nexts clot)
                   then Some (s\<lparr>clots := (clots s)(c \<mapsto> clot\<lparr>nexts := (nexts clot)[nat i := v]\<rparr>)\<rparr>)
                   else None)))"

text \<open>One iteration of the loop in \<open>AddThreadToSemQueues\<close>: \<open>to_add\<close> becomes the last element.\<close>

definition AddToOneSem :: "waiter \<Rightarrow> sid \<Rightarrow> kstate \<Rightarrow> kstate option" where
  "AddToOneSem to_add sem s =
     do { s1 \<leftarrow> (case waiting_list_end (sems s sem) of
                   None \<Rightarrow> Some s
                 | Some e \<Rightarrow> write_next sem e (Some to_add) s);
          Some (upd_sem sem (\<lambda>q. q\<lparr>waiting_list_end := Some to_add,
                  waiting_list_start :=
                    (if waiting_list_start q = None then Some to_add else waiting_list_start q)\<rparr>) s1) }"

fun AddToSems :: "waiter \<Rightarrow> sid list \<Rightarrow> kstate \<Rightarrow> kstate option" where
  "AddToSems w [] s = Some s"
| "AddToSems w (q # qs) s = do { s \<leftarrow> AddToOneSem w q s; AddToSems w qs s }"

text \<open>
  \<open>CreateClot\<close> makes three allocations; \<open>mem\<close> is the address of the new clot, or \<open>None\<close> when
  one of them fails (the earlier ones are then freed again).
\<close>

definition CreateClot :: "cid option \<Rightarrow> sid list \<Rightarrow> tid \<Rightarrow> kstate \<Rightarrow> (cid \<times> kstate) option" where
  "CreateClot mem qs t s =
     (case mem of
        None \<Rightarrow> None
      | Some c \<Rightarrow> Some (c, s\<lparr>clots := (clots s)(c \<mapsto>
          \<lparr>thr = t, csems = qs, nexts = replicate (length qs) None\<rparr>)\<rparr>))"

definition AddThreadToSemQueues ::
    "cid option \<Rightarrow> tid \<Rightarrow> sid list \<Rightarrow> kstate \<Rightarrow> (int \<times> kstate) option" where
  "AddThreadToSemQueues mem t qs s =
     (let enqueue = (\<lambda>to_add waiting s.
            do { s \<leftarrow> AddToSems to_add qs
                   (upd_thread t (\<lambda>x. x\<lparr>next_waiting_sem := None, waiting_sem_or_clot := Some waiting\<rparr>) s);
                 Some (0, s) })
      in if length qs > 1 then
           (case CreateClot mem qs t s of
              None \<Rightarrow> Some (errno_code ENOMEM, s)
            | Some (c, s1) \<Rightarrow> enqueue (Clot c) (OnClot c) s1)
         else
           (case qs of [] \<Rightarrow> None | q # _ \<Rightarrow> enqueue (Thr t) (OnSem q) s))"

text \<open>The \<open>while (curr != NULL)\<close> loop of \<open>CleanupAfterSem\<close>.\<close>

partial_function (option) UnlinkLoop ::
    "sid \<Rightarrow> tid \<Rightarrow> waiter \<Rightarrow> waiter option \<Rightarrow> kstate \<Rightarrow> kstate option" where
  "UnlinkLoop sem t prev cur s =
     (case cur of
        None \<Rightarrow> Some s
      | Some c \<Rightarrow>
          do { o' \<leftarrow> owner s c;
               if o' = t then
                 do { rhs \<leftarrow> read_next s sem c;
                      s1 \<leftarrow> write_next sem prev rhs s;
                      Some (if Some c = waiting_list_end (sems s1 sem)
                            then upd_sem sem (\<lambda>q. q\<lparr>waiting_list_end := Some prev\<rparr>) s1 else s1) }
               else
                 do { nxt \<leftarrow> read_next s sem c; UnlinkLoop sem t c nxt s } })"

text \<open>One iteration of \<open>CleanupAfterSem\<close>. An empty list would be a read through a null pointer.\<close>

definition CleanupOneSem :: "sid \<Rightarrow> tid \<Rightarrow> kstate \<Rightarrow> kstate option" where
  "CleanupOneSem sem t s =
     (case waiting_list_start (sems s sem) of
        None \<Rightarrow> None
      | Some head \<Rightarrow>
          do { o' \<leftarrow> owner s head;
               nxt \<leftarrow> read_next s sem head;
               if o' = t then
                 Some (upd_sem sem (\<lambda>q. q\<lparr>waiting_list_start := nxt,
                    waiting_list_end := (if nxt = None then None else waiting_list_end q)\<rparr>) s)
               else UnlinkLoop sem t head nxt s })"

fun CleanupAfterSem :: "sid list \<Rightarrow> tid \<Rightarrow> kstate \<Rightarrow> kstate option" where
  "CleanupAfterSem [] t s = Some s"
| "CleanupAfterSem (q # qs) t s = do { s \<leftarrow> CleanupOneSem q t s; CleanupAfterSem qs t s }"

text \<open>
  \<open>DerefObject(clot)\<close> drops the only reference to the clot, so \<open>CleanupWaitClot\<close> frees it.
\<close>

definition CancelSems :: "tid \<Rightarrow> kstate \<Rightarrow> kstate option" where
  "CancelSems t s =
     do { s1 \<leftarrow> (case waiting_sem_or_clot (threads s t) of
                   None \<Rightarrow> None
                 | Some (OnClot c) \<Rightarrow>
                     do { clot \<leftarrow> clots s c;
                          s1 \<leftarrow> CleanupAfterSem (csems clot) t s;
                          Some (s1\<lparr>clots := (clots s1)(c := None)\<rparr>) }
                 | Some (OnSem q) \<Rightarrow> CleanupAfterSem [q] t s);
          Some (upd_thread t (\<lambda>x. x\<lparr>waiting_sem_or_clot := None, next_waiting_sem := None\<rparr>) s1) }"

section \<open>The lists behind the pointers\<close>

definition the_next :: "kstate \<Rightarrow> sid \<Rightarrow> waiter \<Rightarrow> waiter option" where
  "the_next s sem w = (case read_next s sem w of None \<Rightarrow> None | Some n \<Rightarrow> n)"

definition sem_chain :: "kstate \<Rightarrow> sid \<Rightarrow> waiter list \<Rightarrow> bool" where
  "sem_chain s q xs \<longleftrightarrow>
     chain (the_next s q) (waiting_list_start (sems s q)) xs None \<and>
     waiting_list_end (sems s q) = last_ptr xs"

definition waits :: "kstate \<Rightarrow> sid \<Rightarrow> waiter \<Rightarrow> bool" where
  "waits s q w \<longleftrightarrow>
     (case w of
        Thr t \<Rightarrow> waiting_sem_or_clot (threads s t) = Some (OnSem q)
      | Clot c \<Rightarrow> (case clots s c of None \<Rightarrow> False | Some k \<Rightarrow> q \<in> set (csems k)))"

definition clots_ok :: "kstate \<Rightarrow> bool" where
  "clots_ok s \<longleftrightarrow>
     (\<forall>c k. clots s c = Some k \<longrightarrow> distinct (csems k) \<and> length (nexts k) = length (csems k) \<and>
        waiting_sem_or_clot (threads s (thr k)) = Some (OnClot c)) \<and>
     (\<forall>t c. waiting_sem_or_clot (threads s t) = Some (OnClot c) \<longrightarrow>
        (\<exists>k. clots s c = Some k \<and> thr k = t))"

text \<open>Every list is well formed, and it holds exactly the waiters of its semaphore.\<close>

definition lists_ok :: "kstate \<Rightarrow> (sid \<Rightarrow> waiter list) \<Rightarrow> bool" where
  "lists_ok s Q \<longleftrightarrow> clots_ok s \<and> (\<forall>q. sem_chain s q (Q q) \<and> (\<forall>w\<in>set (Q q). waits s q w))"

definition semq :: "kstate \<Rightarrow> (sid \<Rightarrow> waiter list) \<Rightarrow> bool" where
  "semq s Q \<longleftrightarrow> lists_ok s Q \<and> (\<forall>q w. waits s q w \<longrightarrow> w \<in> set (Q q))"

text \<open>Everything but the links.\<close>

definition strip :: "kstate \<Rightarrow> kstate" where
  "strip s = s\<lparr>threads := (\<lambda>t. (threads s t)\<lparr>next_waiting_sem := None\<rparr>),
     sems := (\<lambda>q. (sems s q)\<lparr>waiting_list_start := None, waiting_list_end := None\<rparr>),
     clots := (\<lambda>c. map_option (\<lambda>k. k\<lparr>nexts := map (\<lambda>_. None) (nexts k)\<rparr>) (clots s c))\<rparr>"

lemma lookup_loop_found:
  "sem \<in> set qs \<Longrightarrow> i \<le> lookup_loop qs i sem \<and> nat (lookup_loop qs i sem - i) < length qs \<and>
     qs ! nat (lookup_loop qs i sem - i) = sem"
proof (induction qs arbitrary: i)
  case Nil
  then show ?case by simp
next
  case (Cons q qs)
  show ?case
  proof (cases "q = sem")
    case True
    then show ?thesis by simp
  next
    case False
    then have IH: "i + 1 \<le> lookup_loop qs (i + 1) sem"
      "nat (lookup_loop qs (i + 1) sem - (i + 1)) < length qs"
      "qs ! nat (lookup_loop qs (i + 1) sem - (i + 1)) = sem"
      using Cons by auto
    moreover have "nat (lookup_loop qs (i + 1) sem - i) = Suc (nat (lookup_loop qs (i + 1) sem - (i + 1)))"
      using IH(1) by linarith
    ultimately show ?thesis using False by simp
  qed
qed

lemma LookupClotIndex_found:
  assumes "sem \<in> set (csems k)"
  shows "0 \<le> LookupClotIndex k sem" "nat (LookupClotIndex k sem) < length (csems k)"
    "csems k ! nat (LookupClotIndex k sem) = sem"
  using lookup_loop_found [OF assms, of 0] by (simp_all add: LookupClotIndex_def)

lemma lookup_loop_absent: "sem \<notin> set qs \<Longrightarrow> lookup_loop qs i sem = -1"
  by (induction qs arbitrary: i) auto

lemma waits_strip: "waits (strip s) q w = waits s q w"
  by (auto simp: waits_def strip_def split: waiter.splits option.splits)

lemma owner_strip: "owner (strip s) w = owner s w"
  by (auto simp: owner_def strip_def option.map_comp comp_def split: waiter.splits)

lemma clots_ok_strip: "clots_ok (strip s) = clots_ok s"
  unfolding clots_ok_def strip_def by (simp, fastforce)

lemma strip_waits: "strip s = strip s' \<Longrightarrow> waits s q w = waits s' q w"
  by (metis waits_strip)

lemma strip_owner: "strip s = strip s' \<Longrightarrow> owner s w = owner s' w"
  by (metis owner_strip)

lemma strip_clots_ok: "strip s = strip s' \<Longrightarrow> clots_ok s = clots_ok s'"
  by (metis clots_ok_strip)

section \<open>One pointer write\<close>

lemma strip_upd_sem:
  assumes "\<And>q. count (g q) = count q" "\<And>q. smax (g q) = smax q"
  shows "strip (upd_sem q g s) = strip s"
proof -
  have "(g x)\<lparr>waiting_list_start := None, waiting_list_end := None\<rparr> =
      x\<lparr>waiting_list_start := None, waiting_list_end := None\<rparr>" for x
    using assms [of x] by (cases x; cases "g x") simp
  then show ?thesis by (auto simp: strip_def upd_sem_def fun_eq_iff)
qed

lemma read_next_waits:
  assumes "clots_ok s" "waits s q w"
  shows "read_next s q w = Some (the_next s q w)"
proof (cases w)
  case (Thr t)
  then show ?thesis by (simp add: the_next_def read_next_def)
next
  case (Clot c)
  with assms obtain k where "clots s c = Some k" "q \<in> set (csems k)" "length (nexts k) = length (csems k)"
    by (auto simp: waits_def clots_ok_def split: option.splits)
  then show ?thesis using Clot LookupClotIndex_found [of q k]
    by (simp add: the_next_def read_next_def Let_def)
qed

lemma write_next_spec:
  assumes ok: "clots_ok s" and w: "waits s q w"
  shows "\<exists>s'. write_next q w v s = Some s' \<and> strip s' = strip s \<and> sems s' = sems s \<and>
    the_next s' q w = v \<and>
    (\<forall>q' w'. waits s q' w' \<and> (q' \<noteq> q \<or> w' \<noteq> w) \<longrightarrow> the_next s' q' w' = the_next s q' w')"
proof (cases w)
  case (Thr t)
  let ?s = "upd_thread t (\<lambda>x. x\<lparr>next_waiting_sem := v\<rparr>) s"
  have "strip ?s = strip s" by (auto simp: strip_def upd_thread_def fun_eq_iff)
  moreover have "the_next ?s q' w' = the_next s q' w'"
    if "waits s q' w' \<and> (q' \<noteq> q \<or> w' \<noteq> w)" for q' w'
    using that w Thr
    by (cases w') (auto simp: waits_def the_next_def read_next_def split: option.splits)
  ultimately show ?thesis using Thr by (auto simp: write_next_def the_next_def read_next_def)
next
  case (Clot c)
  from ok w Clot obtain k where k: "clots s c = Some k" "q \<in> set (csems k)"
    "length (nexts k) = length (csems k)" "distinct (csems k)"
    by (auto simp: waits_def clots_ok_def split: option.splits)
  let ?i = "nat (LookupClotIndex k q)"
  let ?k = "k\<lparr>nexts := (nexts k)[?i := v]\<rparr>"
  let ?s = "s\<lparr>clots := (clots s)(c \<mapsto> ?k)\<rparr>"
  note L = LookupClotIndex_found [OF k(2)]
  have wr: "write_next q w v s = Some ?s" using Clot k L by (simp add: write_next_def Let_def)
  have st: "strip ?s = strip s"
  proof -
    have "map (\<lambda>_. None :: waiter option) ((nexts k)[?i := v]) = map (\<lambda>_. None) (nexts k)"
      by (simp add: map_update) (metis L(2) k(3) list_update_id map_replicate_const nth_replicate)
    then have "?k\<lparr>nexts := map (\<lambda>_. None) (nexts ?k)\<rparr> = k\<lparr>nexts := map (\<lambda>_. None) (nexts k)\<rparr>"
      by simp
    then have "(\<lambda>x. map_option (\<lambda>k. k\<lparr>nexts := map (\<lambda>_. None) (nexts k)\<rparr>) (clots ?s x)) =
        (\<lambda>x. map_option (\<lambda>k. k\<lparr>nexts := map (\<lambda>_. None) (nexts k)\<rparr>) (clots s x))"
      using k(1) by (intro ext) simp
    then show ?thesis by (simp add: strip_def)
  qed
  have idx: "LookupClotIndex ?k q' = LookupClotIndex k q'" for q'
    by (simp add: LookupClotIndex_def)
  have new: "the_next ?s q w = v"
    using Clot k L by (simp add: the_next_def read_next_def Let_def idx)
  have old: "the_next ?s q' w' = the_next s q' w'"
    if *: "waits s q' w' \<and> (q' \<noteq> q \<or> w' \<noteq> w)" for q' w'
  proof (cases "w' = w")
    case False
    then show ?thesis using Clot
      by (auto simp: the_next_def read_next_def split: waiter.splits option.splits)
  next
    case True
    then have "q' \<noteq> q" "q' \<in> set (csems k)" using * Clot k(1) by (auto simp: waits_def)
    then have "nat (LookupClotIndex k q') \<noteq> ?i"
      using LookupClotIndex_found(3) [of q' k] L(3) by auto
    then show ?thesis using True Clot k(1)
      by (auto simp: the_next_def read_next_def Let_def idx)
  qed
  show ?thesis using wr st new old by auto
qed

text \<open>A write at one element of the list of \<open>q\<close> leaves the lists of the other semaphores alone.\<close>

lemma chain_other_sem:
  assumes "\<forall>w\<in>set xs. waits s q' w" "q' \<noteq> q"
    "\<forall>q' w'. waits s q' w' \<and> (q' \<noteq> q \<or> w' \<noteq> w) \<longrightarrow> the_next s' q' w' = the_next s q' w'"
  shows "chain (the_next s' q') p xs r \<longleftrightarrow> chain (the_next s q') p xs r"
  using assms by (intro chain_cong) auto

section \<open>Appending a waiter\<close>

lemma sem_chain_start: "sem_chain s q xs \<Longrightarrow> waiting_list_start (sems s q) = (case xs of [] \<Rightarrow> None | x # _ \<Rightarrow> Some x)"
  by (auto simp: sem_chain_def dest: chain_hd)

lemma sem_chain_distinct: "sem_chain s q xs \<Longrightarrow> distinct xs"
  unfolding sem_chain_def by (blast intro: chain_distinct)

lemma AddToOneSem_spec:
  assumes ok: "lists_ok s Q" and w: "waits s q w" and new: "w \<notin> set (Q q)"
    and last: "the_next s q w = None"
  shows "\<exists>s'. AddToOneSem w q s = Some s' \<and> strip s' = strip s \<and> lists_ok s' (Q(q := Q q @ [w])) \<and>
    (\<forall>q'. q' \<noteq> q \<and> waits s q' w \<and> w \<notin> set (Q q') \<longrightarrow> the_next s' q' w = the_next s q' w)"
proof -
  have cl: "clots_ok s" and ch: "sem_chain s q (Q q)" and el: "\<forall>x\<in>set (Q q). waits s q x"
    using ok by (auto simp: lists_ok_def)
  obtain s1 where s1: "(case waiting_list_end (sems s q) of None \<Rightarrow> Some s
      | Some e \<Rightarrow> write_next q e (Some w) s) = Some s1"
    "strip s1 = strip s" "sems s1 = sems s"
    "Q q = [] \<or> the_next s1 q (last (Q q)) = Some w"
    "\<forall>q' w'. waits s q' w' \<and> (q' \<noteq> q \<or> Q q = [] \<or> w' \<noteq> last (Q q)) \<longrightarrow>
       the_next s1 q' w' = the_next s q' w'"
  proof (cases "Q q = []")
    case True
    then have "waiting_list_end (sems s q) = None" using ch by (simp add: sem_chain_def)
    with True show thesis by (intro that [of s]) auto
  next
    case False
    then have e: "waiting_list_end (sems s q) = Some (last (Q q))"
      using ch by (simp add: sem_chain_def last_ptr_def)
    have "waits s q (last (Q q))" using el False by simp
    from write_next_spec [OF cl this, of "Some w"] e False show thesis
      by (auto intro: that)
  qed
  define s' where "s' = upd_sem q (\<lambda>x. x\<lparr>waiting_list_end := Some w,
      waiting_list_start := (if waiting_list_start x = None then Some w else waiting_list_start x)\<rparr>) s1"
  have add: "AddToOneSem w q s = Some s'" using s1(1) by (simp add: AddToOneSem_def s'_def)
  have st: "strip s' = strip s" unfolding s'_def by (subst strip_upd_sem) (auto simp: s1(2))
  have nx: "the_next s' = the_next s1"
    by (simp add: s'_def the_next_def read_next_def fun_eq_iff split: waiter.split option.split)
  have "chain (the_next s1 q) (waiting_list_start (sems s' q)) (Q q @ [w]) None"
  proof (cases "Q q = []")
    case True
    then show ?thesis using s1 ch last w
      by (simp add: s'_def sem_chain_def)
  next
    case False
    let ?n = "the_next s q"
    have "chain (?n(last (Q q) := Some w, w := None)) (waiting_list_start (sems s q)) (Q q @ [w]) None"
      using ch False new by (intro chain_snoc) (auto simp: sem_chain_def)
    moreover have "\<forall>x\<in>set (Q q @ [w]). the_next s1 q x = (?n(last (Q q) := Some w, w := None)) x"
    proof
      fix x assume x: "x \<in> set (Q q @ [w])"
      have lw: "last (Q q) \<noteq> w" using False new by auto
      show "the_next s1 q x = (?n(last (Q q) := Some w, w := None)) x"
      proof (cases "x = last (Q q)")
        case True
        then show ?thesis using s1(4) False lw by simp
      next
        case xl: False
        have "waits s q x" using x el w by auto
        then have "the_next s1 q x = the_next s q x" using s1(5) xl by blast
        then show ?thesis using xl last by simp
      qed
    qed
    moreover have "waiting_list_start (sems s' q) = waiting_list_start (sems s q)"
      using sem_chain_start [OF ch] False s1(3) by (auto simp: s'_def neq_Nil_conv)
    ultimately show ?thesis
      using chain_cong [of "Q q @ [w]" "the_next s1 q"] by metis
  qed
  then have "sem_chain s' q (Q q @ [w])" using nx by (simp add: sem_chain_def) (simp add: s'_def)
  moreover have "sem_chain s' q' (Q q')" if "q' \<noteq> q" for q'
  proof -
    have "\<forall>x\<in>set (Q q'). waits s q' x" "sem_chain s q' (Q q')" using ok by (auto simp: lists_ok_def)
    moreover from this have "chain (the_next s1 q') p (Q q') r \<longleftrightarrow> chain (the_next s q') p (Q q') r" for p r
      using s1(5) that by (intro chain_cong) auto
    ultimately show ?thesis using that nx s1(3) by (simp add: sem_chain_def s'_def)
  qed
  moreover have "clots_ok s'" using cl strip_clots_ok [OF st] by simp
  moreover have "\<forall>q'. \<forall>x\<in>set ((Q(q := Q q @ [w])) q'). waits s' q' x"
    using ok w strip_waits [OF st] by (auto simp: lists_ok_def)
  ultimately have "lists_ok s' (Q(q := Q q @ [w]))" by (auto simp: lists_ok_def)
  moreover have "\<forall>q'. q' \<noteq> q \<and> waits s q' w \<and> w \<notin> set (Q q') \<longrightarrow> the_next s' q' w = the_next s q' w"
    using s1(5) nx by simp
  ultimately show ?thesis using add st by blast
qed

section \<open>Removing a waiter\<close>

lemma waits_owner:
  assumes "clots_ok s" "waits s q w"
  shows "owner s w = Some t \<longleftrightarrow>
    (case w of Thr t' \<Rightarrow> t' = t \<and> waiting_sem_or_clot (threads s t) = Some (OnSem q)
     | Clot c \<Rightarrow> waiting_sem_or_clot (threads s t) = Some (OnClot c))"
  using assms by (cases w) (fastforce simp: waits_def owner_def clots_ok_def split: option.splits)+

text \<open>A thread has one node, so at most one element of a list is owned by it.\<close>

lemma owner_inj:
  assumes "clots_ok s" "waits s q w" "waits s q' w'" "owner s w = Some t" "owner s w' = Some t"
  shows "w = w'"
  using assms waits_owner [of s q w t] waits_owner [of s q' w' t]
  by (cases w; cases w') auto

lemma owner_exists: "\<lbrakk>clots_ok s; waits s q w\<rbrakk> \<Longrightarrow> \<exists>t. owner s w = Some t"
  by (cases w) (auto simp: waits_def owner_def split: option.splits)

text \<open>Changing the list of one semaphore, in the state \<open>s'\<close>, when the writes were all on that list.\<close>

lemma lists_ok_step:
  assumes ok: "lists_ok s Q" and st: "strip s' = strip s"
    and sems: "\<forall>q'. q' \<noteq> q \<longrightarrow> sems s' q' = sems s q'"
    and nx: "\<forall>q' w'. waits s q' w' \<and> q' \<noteq> q \<longrightarrow> the_next s' q' w' = the_next s q' w'"
    and new: "sem_chain s' q xs" "\<forall>x\<in>set xs. waits s q x"
  shows "lists_ok s' (Q(q := xs))"
proof -
  have "sem_chain s' q' (Q q')" if "q' \<noteq> q" for q'
  proof -
    have el: "\<forall>x\<in>set (Q q'). waits s q' x" and c: "sem_chain s q' (Q q')"
      using ok by (auto simp: lists_ok_def)
    have "chain (the_next s' q') p (Q q') r \<longleftrightarrow> chain (the_next s q') p (Q q') r" for p r
      using el nx that by (intro chain_cong) auto
    then show ?thesis using c sems that by (simp add: sem_chain_def)
  qed
  moreover have "\<forall>q'. \<forall>x\<in>set ((Q(q := xs)) q'). waits s' q' x"
    using ok new(2) strip_waits [OF st] by (auto simp: lists_ok_def)
  moreover have "clots_ok s'" using ok strip_clots_ok [OF st] by (simp add: lists_ok_def)
  ultimately show ?thesis using new(1) by (auto simp: lists_ok_def)
qed

lemma the_next_upd_sem [simp]: "the_next (upd_sem q f s) = the_next s"
  by (simp add: the_next_def read_next_def fun_eq_iff split: waiter.split option.split)

lemma UnlinkLoop_spec:
  assumes ok: "lists_ok s Q"
  shows "\<lbrakk>Q q = ps @ p # xs @ w # ys; owner s w = Some t; \<forall>x\<in>set xs. owner s x \<noteq> Some t\<rbrakk> \<Longrightarrow>
    \<exists>s'. UnlinkLoop q t p (the_next s q p) s = Some s' \<and> strip s' = strip s \<and>
      lists_ok s' (Q(q := ps @ p # xs @ ys))"
proof (induction xs arbitrary: ps p)
  case Nil
  have cl: "clots_ok s" and ch: "sem_chain s q (Q q)" and el: "\<forall>x\<in>set (Q q). waits s q x"
    using ok by (auto simp: lists_ok_def)
  have nxt: "the_next s q p = Some w"
    using ch Nil.prems(1) by (auto simp: sem_chain_def chain_append)
  have wp: "waits s q p" and ww: "waits s q w" using el Nil.prems(1) by auto
  obtain s1 where s1: "write_next q p (the_next s q w) s = Some s1" "strip s1 = strip s"
    "sems s1 = sems s" "the_next s1 q p = the_next s q w"
    "\<forall>q' w'. waits s q' w' \<and> (q' \<noteq> q \<or> w' \<noteq> p) \<longrightarrow> the_next s1 q' w' = the_next s q' w'"
    using write_next_spec [OF cl wp, of "the_next s q w"] by blast
  define s' where "s' = (if Some w = waiting_list_end (sems s1 q)
      then upd_sem q (\<lambda>x. x\<lparr>waiting_list_end := Some p\<rparr>) s1 else s1)"
  have run: "UnlinkLoop q t p (the_next s q p) s = Some s'"
    using Nil.prems(2) nxt s1(1) read_next_waits [OF cl ww]
    by (subst UnlinkLoop.simps) (simp add: s'_def)
  have st: "strip s' = strip s" unfolding s'_def using s1(2) by (simp add: strip_upd_sem)
  have nx: "the_next s' = the_next s1" by (simp add: s'_def)
  have dist: "distinct (ps @ p # w # ys)"
    using sem_chain_distinct [OF ch] Nil.prems(1) by simp
  have "chain ((the_next s q)(p := the_next s q w)) (waiting_list_start (sems s q)) (ps @ p # ys) None"
    using ch Nil.prems(1) by (intro chain_unlink) (simp add: sem_chain_def)
  moreover have "chain (the_next s' q) u (ps @ p # ys) v \<longleftrightarrow>
      chain ((the_next s q)(p := the_next s q w)) u (ps @ p # ys) v" for u v
    using el Nil.prems(1) s1(4,5) by (intro chain_cong) (auto simp: nx)
  moreover have "waiting_list_start (sems s' q) = waiting_list_start (sems s q)"
    by (simp add: s'_def s1(3))
  moreover have "waiting_list_end (sems s' q) = last_ptr (ps @ p # ys)"
  proof (cases "ys = []")
    case True
    then show ?thesis using ch Nil.prems(1) by (simp add: s'_def s1(3) sem_chain_def last_ptr_def)
  next
    case False
    moreover from this dist have "last ys \<noteq> w" by auto
    ultimately show ?thesis using ch Nil.prems(1)
      by (simp add: s'_def s1(3) sem_chain_def last_ptr_def)
  qed
  ultimately have "sem_chain s' q (ps @ p # ys)" by (simp add: sem_chain_def)
  moreover have "\<forall>q'. q' \<noteq> q \<longrightarrow> sems s' q' = sems s q'" by (simp add: s'_def s1(3))
  moreover have "\<forall>q' w'. waits s q' w' \<and> q' \<noteq> q \<longrightarrow> the_next s' q' w' = the_next s q' w'"
    using s1(5) nx by simp
  ultimately have "lists_ok s' (Q(q := ps @ p # ys))"
    using el Nil.prems(1) by (intro lists_ok_step [OF ok st]) auto
  then show ?case unfolding append_Nil using run st by blast
next
  case (Cons x xs)
  have cl: "clots_ok s" and ch: "sem_chain s q (Q q)" and el: "\<forall>x\<in>set (Q q). waits s q x"
    using ok by (auto simp: lists_ok_def)
  have nxt: "the_next s q p = Some x"
    using ch Cons.prems(1) by (auto simp: sem_chain_def chain_append)
  have wx: "waits s q x" using el Cons.prems(1) by simp
  obtain u where u: "owner s x = Some u" using owner_exists [OF cl wx] by blast
  then have "u \<noteq> t" using Cons.prems(3) by auto
  then have "UnlinkLoop q t p (the_next s q p) s = UnlinkLoop q t x (the_next s q x) s"
    using u nxt read_next_waits [OF cl wx] by (subst UnlinkLoop.simps) simp
  moreover have "Q q = (ps @ [p]) @ x # xs @ w # ys" using Cons.prems(1) by simp
  ultimately show ?case
    using Cons.IH [of "ps @ [p]" x] Cons.prems(2,3) by simp
qed

lemma CleanupOneSem_spec:
  assumes ok: "lists_ok s Q" and q: "Q q = xs @ w # ys" and o: "owner s w = Some t"
  shows "\<exists>s'. CleanupOneSem q t s = Some s' \<and> strip s' = strip s \<and> lists_ok s' (Q(q := xs @ ys))"
proof -
  have cl: "clots_ok s" and ch: "sem_chain s q (Q q)" and el: "\<forall>x\<in>set (Q q). waits s q x"
    using ok by (auto simp: lists_ok_def)
  have dist: "distinct (xs @ w # ys)" using sem_chain_distinct [OF ch] q by simp
  have free: "owner s x \<noteq> Some t" if "x \<in> set xs" for x
    using owner_inj [OF cl, of q w q x t] el q o that dist by auto
  show ?thesis
  proof (cases xs)
    case Nil
    let ?s = "upd_sem q (\<lambda>y. y\<lparr>waiting_list_start := the_next s q w,
        waiting_list_end := (if the_next s q w = None then None else waiting_list_end y)\<rparr>) s"
    have st: "strip ?s = strip s" by (rule strip_upd_sem) auto
    have start: "waiting_list_start (sems s q) = Some w" using sem_chain_start [OF ch] q Nil by simp
    have tail: "chain (the_next s q) (the_next s q w) ys None"
      using ch q Nil by (simp add: sem_chain_def)
    have "waits s q w" using el q by simp
    then have run: "CleanupOneSem q t s = Some ?s"
      using start o read_next_waits [OF cl] by (simp add: CleanupOneSem_def)
    have "(the_next s q w = None) = (ys = [])" using chain_hd [OF tail] by (simp split: list.splits)
    then have "sem_chain ?s q ys"
      using tail ch q Nil by (simp add: sem_chain_def last_ptr_def)
    then have "lists_ok ?s (Q(q := ys))"
      using el q by (intro lists_ok_step [OF ok st]) auto
    then show ?thesis using run st Nil by auto
  next
    case (Cons h xs')
    have start: "waiting_list_start (sems s q) = Some h" using sem_chain_start [OF ch] q Cons by simp
    have wh: "waits s q h" using el q Cons by simp
    obtain u where "owner s h = Some u" "u \<noteq> t"
      using owner_exists [OF cl wh] free [of h] Cons by auto
    then have "CleanupOneSem q t s = UnlinkLoop q t h (the_next s q h) s"
      using start read_next_waits [OF cl wh] by (simp add: CleanupOneSem_def)
    moreover have "Q q = [] @ h # xs' @ w # ys" using q Cons by simp
    ultimately show ?thesis using UnlinkLoop_spec [OF ok, of q "[]" h xs' w ys t] o free Cons by auto
  qed
qed

lemma CleanupAfterSem_spec:
  assumes "lists_ok s Q" "distinct qs" "\<forall>q\<in>set qs. w \<in> set (Q q)" "owner s w = Some t"
  shows "\<exists>s'. CleanupAfterSem qs t s = Some s' \<and> strip s' = strip s \<and>
    lists_ok s' (\<lambda>q. if q \<in> set qs then remove1 w (Q q) else Q q)"
  using assms
proof (induction qs arbitrary: s Q)
  case Nil
  then show ?case by simp
next
  case (Cons q qs)
  have "w \<in> set (Q q)" using Cons.prems by simp
  then obtain xs ys where q: "Q q = xs @ w # ys" "w \<notin> set xs" by (meson split_list_first)
  obtain s1 where s1: "CleanupOneSem q t s = Some s1" "strip s1 = strip s"
    "lists_ok s1 (Q(q := xs @ ys))"
    using CleanupOneSem_spec [OF Cons.prems(1) q(1) Cons.prems(4)] by blast
  have o: "owner s1 w = Some t" using strip_owner [OF s1(2)] Cons.prems(4) by simp
  have "\<forall>q'\<in>set qs. w \<in> set ((Q(q := xs @ ys)) q')" "distinct qs" using Cons.prems(2,3) by auto
  then obtain s' where s': "CleanupAfterSem qs t s1 = Some s'" "strip s' = strip s1"
    "lists_ok s' (\<lambda>q'. if q' \<in> set qs then remove1 w ((Q(q := xs @ ys)) q') else (Q(q := xs @ ys)) q')"
    using Cons.IH [OF s1(3) _ _ o] by blast
  have "(\<lambda>q'. if q' \<in> set qs then remove1 w ((Q(q := xs @ ys)) q') else (Q(q := xs @ ys)) q') =
      (\<lambda>q'. if q' \<in> set (q # qs) then remove1 w (Q q') else Q q')"
    using Cons.prems(2) q by (auto simp: fun_eq_iff remove1_append)
  then show ?case using s' s1 by (intro exI [of _ s']) simp
qed

text \<open>The node that stands for a waiting thread, and the semaphores it is queued on.\<close>

definition node_of :: "kstate \<Rightarrow> tid \<Rightarrow> waiter option" where
  "node_of s t = map_option (\<lambda>w. case w of OnSem q \<Rightarrow> Thr t | OnClot c \<Rightarrow> Clot c)
     (waiting_sem_or_clot (threads s t))"

definition without :: "(sid \<Rightarrow> waiter list) \<Rightarrow> waiter option \<Rightarrow> sid \<Rightarrow> waiter list" where
  "without Q n = (\<lambda>q. filter (\<lambda>w. Some w \<noteq> n) (Q q))"

text \<open>The semaphores a thread waits for, in the order it was given them.\<close>

definition wait_set :: "kstate \<Rightarrow> tid \<Rightarrow> sid list" where
  "wait_set s t =
     (case waiting_sem_or_clot (threads s t) of
        None \<Rightarrow> []
      | Some (OnSem q) \<Rightarrow> [q]
      | Some (OnClot c) \<Rightarrow> (case clots s c of None \<Rightarrow> [] | Some k \<Rightarrow> csems k))"

text \<open>
  The abstraction the other components use: the waiting list of each semaphore as a list of
  threads.
\<close>

definition sem_queues :: "kstate \<Rightarrow> (sid \<Rightarrow> tid list) \<Rightarrow> bool" where
  "sem_queues s W \<longleftrightarrow> (\<exists>Q. semq s Q \<and> (\<forall>q. W q = map (\<lambda>w. the (owner s w)) (Q q)))"

text \<open>What an operation that only moves thread \<open>t\<close> on or off waiting lists leaves unchanged.\<close>

definition sem_frame :: "tid \<Rightarrow> kstate \<Rightarrow> kstate \<Rightarrow> bool" where
  "sem_frame t s s' \<longleftrightarrow>
     (\<forall>x. (threads s' x)\<lparr>next_waiting_sem := None, waiting_sem_or_clot := None\<rparr> =
          (threads s x)\<lparr>next_waiting_sem := None, waiting_sem_or_clot := None\<rparr>) \<and>
     (\<forall>x. x \<noteq> t \<longrightarrow> waiting_sem_or_clot (threads s' x) = waiting_sem_or_clot (threads s x) \<and>
        wait_set s' x = wait_set s x) \<and>
     (\<forall>q. count (sems s' q) = count (sems s q) \<and> smax (sems s' q) = smax (sems s q)) \<and>
     s'\<lparr>threads := threads s, sems := sems s, clots := clots s\<rparr> = s"

lemma strip_thread:
  assumes "strip s' = strip s"
  shows "(threads s' x)\<lparr>next_waiting_sem := None\<rparr> = (threads s x)\<lparr>next_waiting_sem := None\<rparr>"
proof -
  have "threads (strip s') x = threads (strip s) x" using assms by simp
  then show ?thesis by (simp add: strip_def)
qed

lemma strip_sem:
  assumes "strip s' = strip s"
  shows "count (sems s' q) = count (sems s q)" "smax (sems s' q) = smax (sems s q)"
proof -
  have "sems (strip s') q = sems (strip s) q" using assms by simp
  then have *: "(sems s' q)\<lparr>waiting_list_start := None, waiting_list_end := None\<rparr> =
      (sems s q)\<lparr>waiting_list_start := None, waiting_list_end := None\<rparr>" by (simp add: strip_def)
  show "count (sems s' q) = count (sems s q)" "smax (sems s' q) = smax (sems s q)"
    using arg_cong [OF *, of count] arg_cong [OF *, of smax] by simp_all
qed

lemma strip_rest:
  assumes "strip s' = strip s"
  shows "s'\<lparr>threads := T, sems := S, clots := C\<rparr> = s\<lparr>threads := T, sems := S, clots := C\<rparr>"
proof -
  have "(strip s')\<lparr>threads := T, sems := S, clots := C\<rparr> = (strip s)\<lparr>threads := T, sems := S, clots := C\<rparr>"
    using assms by simp
  then show ?thesis by (simp add: strip_def)
qed

lemma strip_clot:
  assumes "strip s' = strip s"
  shows "map_option thr (clots s' c) = map_option thr (clots s c)"
    "map_option csems (clots s' c) = map_option csems (clots s c)"
proof -
  have "clots (strip s') c = clots (strip s) c" using assms by simp
  then have *: "map_option (\<lambda>k. k\<lparr>nexts := map (\<lambda>_. None) (nexts k)\<rparr>) (clots s' c) =
      map_option (\<lambda>k. k\<lparr>nexts := map (\<lambda>_. None) (nexts k)\<rparr>) (clots s c)" by (simp add: strip_def)
  show "map_option thr (clots s' c) = map_option thr (clots s c)"
    "map_option csems (clots s' c) = map_option csems (clots s c)"
    using arg_cong [OF *, of "map_option thr"] arg_cong [OF *, of "map_option csems"]
    by (simp_all add: option.map_comp comp_def)
qed

lemma strip_wait_set:
  assumes "strip s' = strip s"
  shows "wait_set s' t = wait_set s t"
    "waiting_sem_or_clot (threads s' t) = waiting_sem_or_clot (threads s t)"
proof -
  show w: "waiting_sem_or_clot (threads s' t) = waiting_sem_or_clot (threads s t)"
    using arg_cong [OF strip_thread [OF assms, of t], of waiting_sem_or_clot] by simp
  show "wait_set s' t = wait_set s t"
    using strip_clot(2) [OF assms]
    by (auto simp: wait_set_def w split: option.splits waiting_on.splits) (metis option.distinct(1) option.map(1) option.map(2) option.inject)+
qed

lemma sem_frame_strip:
  assumes "strip s' = strip s"
  shows "sem_frame t s s'"
proof -
  have "(threads s' x)\<lparr>next_waiting_sem := None, waiting_sem_or_clot := None\<rparr> =
      (threads s x)\<lparr>next_waiting_sem := None, waiting_sem_or_clot := None\<rparr>" for x
    using arg_cong [OF strip_thread [OF assms, of x], of "\<lambda>r. r\<lparr>waiting_sem_or_clot := None\<rparr>"] by simp
  moreover have "s\<lparr>threads := threads s, sems := sems s, clots := clots s\<rparr> = s" by simp
  ultimately show ?thesis
    unfolding sem_frame_def using strip_wait_set [OF assms] strip_sem [OF assms] strip_rest [OF assms] by simp
qed

lemma waits_node_of:
  assumes "clots_ok s" "waits s q w"
  shows "owner s w = Some t \<longleftrightarrow> node_of s t = Some w"
  using waits_owner [OF assms, of t] assms(2)
  by (cases "waiting_sem_or_clot (threads s t)"; cases "the (waiting_sem_or_clot (threads s t))"; cases w)
    (auto simp: node_of_def waits_def)

lemma waits_wait_set:
  assumes "clots_ok s"
  shows "q \<in> set (wait_set s t) \<longleftrightarrow> (\<exists>w. node_of s t = Some w \<and> waits s q w)"
  using assms
  by (cases "waiting_sem_or_clot (threads s t)"; cases "the (waiting_sem_or_clot (threads s t))")
    (auto simp: wait_set_def node_of_def waits_def clots_ok_def split: option.splits)

lemma sem_queues_mem:
  assumes "sem_queues s W"
  shows "t \<in> set (W q) \<longleftrightarrow> q \<in> set (wait_set s t)"
proof -
  obtain Q where Q: "semq s Q" "\<And>q. W q = map (\<lambda>w. the (owner s w)) (Q q)"
    using assms by (auto simp: sem_queues_def)
  have cl: "clots_ok s" and el: "\<And>w. w \<in> set (Q q) \<longleftrightarrow> waits s q w"
    using Q(1) by (auto simp: semq_def lists_ok_def)
  have "t \<in> set (W q) \<longleftrightarrow> (\<exists>w. waits s q w \<and> owner s w = Some t)"
    using Q(2) el owner_exists [OF cl] by (force simp: image_iff)
  then show ?thesis using waits_node_of [OF cl] waits_wait_set [OF cl] by auto
qed

lemma sem_queues_distinct: "sem_queues s W \<Longrightarrow> distinct (W q)"
proof -
  assume "sem_queues s W"
  then obtain Q where Q: "semq s Q" "W q = map (\<lambda>w. the (owner s w)) (Q q)"
    by (auto simp: sem_queues_def)
  then have cl: "clots_ok s" and el: "\<And>w. w \<in> set (Q q) \<Longrightarrow> waits s q w" and "distinct (Q q)"
    using sem_chain_distinct by (auto simp: semq_def lists_ok_def)
  moreover have "inj_on (\<lambda>w. the (owner s w)) (set (Q q))"
    using el owner_exists [OF cl] owner_inj [OF cl] by (intro inj_onI) (metis option.sel)
  ultimately show ?thesis using Q(2) by (simp add: distinct_map)
qed

lemma sem_queues_empty:
  assumes "sem_queues s W"
  shows "waiting_list_start (sems s q) = None \<longleftrightarrow> W q = []"
proof -
  obtain Q where Q: "semq s Q" "W q = map (\<lambda>w. the (owner s w)) (Q q)"
    using assms by (auto simp: sem_queues_def)
  then have "sem_chain s q (Q q)" by (auto simp: semq_def lists_ok_def)
  from sem_chain_start [OF this] Q(2) show ?thesis by (simp split: list.splits)
qed

text \<open>The first element of a waiting list, as \<open>ReleaseSem\<close> and \<open>AbandonSem\<close> read it.\<close>

lemma sem_queues_head:
  assumes "sem_queues s W" "W q = t # ts"
  shows "\<exists>w. waiting_list_start (sems s q) = Some w \<and> node_of s t = Some w \<and> owner s w = Some t"
proof -
  obtain Q where Q: "semq s Q" "W q = map (\<lambda>w. the (owner s w)) (Q q)"
    using assms by (auto simp: sem_queues_def)
  then obtain w ws where w: "Q q = w # ws" "the (owner s w) = t" using assms(2) by auto
  have cl: "clots_ok s" and "sem_chain s q (Q q)" using Q(1) by (simp_all add: semq_def lists_ok_def)
  have ww: "waits s q w" using Q(1) w by (simp add: semq_def lists_ok_def)
  from \<open>sem_chain s q (Q q)\<close> have "waiting_list_start (sems s q) = Some w" using sem_chain_start w(1) by fastforce
  moreover have "owner s w = Some t" using owner_exists [OF cl ww] w(2) by auto
  ultimately show ?thesis using waits_node_of [OF cl ww] by auto
qed

text \<open>
  \<open>CancelSems\<close> takes a waiting thread off every list it is on, whatever its position there, and
  changes nothing else.
\<close>

lemma cancel_tail:
  assumes ok: "semq s Q" and n: "node_of s t = Some w" and st: "strip s1 = strip s"
    and ok1: "lists_ok s1 (without Q (Some w))"
    and cl': "clots s' = (case w of Thr _ \<Rightarrow> clots s1 | Clot c \<Rightarrow> (clots s1)(c := None))"
    and th': "threads s' = (threads s1)(t := (threads s1 t)
      \<lparr>waiting_sem_or_clot := None, next_waiting_sem := None\<rparr>)"
    and se': "sems s' = sems s1"
  shows "semq s' (without Q (Some w)) \<and>
    (\<forall>x. x \<noteq> t \<longrightarrow> wait_set s' x = wait_set s x \<and> waiting_sem_or_clot (threads s' x) = waiting_sem_or_clot (threads s x)) \<and>
    (\<forall>q x. x \<in> set (without Q (Some w) q) \<longrightarrow> owner s' x = owner s x)"
proof -
  have cl: "clots_ok s" and cl1: "clots_ok s1" using ok ok1 by (auto simp: semq_def lists_ok_def)
  have w1: "waiting_sem_or_clot (threads s1 x) = waiting_sem_or_clot (threads s x)" for x
    using strip_wait_set(2) [OF st] .
  have wt: "w = Thr t \<and> (\<exists>q. waiting_sem_or_clot (threads s t) = Some (OnSem q)) \<or>
      (\<exists>c. w = Clot c \<and> waiting_sem_or_clot (threads s t) = Some (OnClot c))"
    using n by (cases "waiting_sem_or_clot (threads s t)"; cases "the (waiting_sem_or_clot (threads s t))")
      (auto simp: node_of_def)
  have keep: "clots s' c = clots s1 c" if "c' = c \<and> waiting_sem_or_clot (threads s x) = Some (OnClot c') \<and> x \<noteq> t" for x c c'
  proof (cases "w = Clot c")
    case True
    then have "waiting_sem_or_clot (threads s t) = Some (OnClot c)" using wt by auto
    then have "\<exists>k. clots s c = Some k \<and> thr k = t" "\<exists>k. clots s c = Some k \<and> thr k = x"
      using cl that by (simp_all add: clots_ok_def)
    with that show ?thesis by auto
  next
    case False
    then show ?thesis using cl' by (auto split: waiter.splits)
  qed
  have others: "\<forall>x. x \<noteq> t \<longrightarrow> wait_set s' x = wait_set s x \<and>
      waiting_sem_or_clot (threads s' x) = waiting_sem_or_clot (threads s x)"
  proof (intro allI impI conjI)
    fix x assume x: "x \<noteq> t"
    show w: "waiting_sem_or_clot (threads s' x) = waiting_sem_or_clot (threads s x)"
      using x w1 by (simp add: th')
    have "wait_set s' x = wait_set s1 x"
      using x keep [of _ _ x] w1 [of x] w
      by (cases "waiting_sem_or_clot (threads s x)"; cases "the (waiting_sem_or_clot (threads s x))")
        (auto simp: wait_set_def)
    then show "wait_set s' x = wait_set s x" using strip_wait_set(1) [OF st] by simp
  qed
  have c': "clots s' c = Some k \<Longrightarrow> clots s1 c = Some k \<and> thr k \<noteq> t" for c k
  proof -
    assume a: "clots s' c = Some k"
    then have s1c: "clots s1 c = Some k" and cw: "w \<noteq> Clot c"
      using cl' by (auto split: waiter.splits if_splits)
    moreover have "waiting_sem_or_clot (threads s (thr k)) = Some (OnClot c)"
      using cl1 s1c w1 by (auto simp: clots_ok_def)
    ultimately show ?thesis using wt by auto
  qed
  have clo': "clots_ok s'"
    unfolding clots_ok_def
  proof (intro conjI allI impI)
    fix c k assume "clots s' c = Some k"
    from c' [OF this] cl1 show "distinct (csems k)" "length (nexts k) = length (csems k)"
      "waiting_sem_or_clot (threads s' (thr k)) = Some (OnClot c)"
      by (auto simp: clots_ok_def th')
  next
    fix x c assume a: "waiting_sem_or_clot (threads s' x) = Some (OnClot c)"
    then have x: "x \<noteq> t" by (auto simp: th')
    then have b: "waiting_sem_or_clot (threads s x) = Some (OnClot c)" using a w1 by (simp add: th')
    then have "clots s' c = clots s1 c" using keep x by blast
    then show "\<exists>k. clots s' c = Some k \<and> thr k = x"
      using cl1 b w1 by (simp add: clots_ok_def)
  qed
  have wts: "waits s' q x \<longleftrightarrow> waits s q x \<and> x \<noteq> w" for q x
  proof (cases x)
    case (Thr y)
    then show ?thesis using wt w1 by (auto simp: waits_def th')
  next
    case (Clot c)
    have "waits s1 q x = waits s q x" using st by (rule strip_waits)
    then show ?thesis using Clot cl' by (auto simp: waits_def split: waiter.splits)
  qed
  have nx: "the_next s' q x = the_next s1 q x" if "x \<in> set (without Q (Some w) q)" for q x
  proof -
    have "waits s1 q x" "x \<noteq> w" using that ok1 by (auto simp: lists_ok_def without_def)
    then show ?thesis using cl' th' wt w1
      by (cases x) (auto simp: the_next_def read_next_def waits_def split: waiter.splits option.splits)
  qed
  have "sem_chain s' q (without Q (Some w) q)" for q
    using ok1 chain_cong [OF nx, of "without Q (Some w) q"] se'
    by (simp add: lists_ok_def sem_chain_def)
  moreover have "\<forall>x\<in>set (without Q (Some w) q). waits s' q x" for q
    using wts ok by (auto simp: without_def semq_def lists_ok_def)
  moreover have "waits s' q x \<longrightarrow> x \<in> set (without Q (Some w) q)" for q x
    using wts ok by (auto simp: without_def semq_def)
  ultimately have "semq s' (without Q (Some w))" using clo' by (simp add: semq_def lists_ok_def)
  moreover have "\<forall>q x. x \<in> set (without Q (Some w) q) \<longrightarrow> owner s' x = owner s x"
  proof (intro allI impI)
    fix q x assume "x \<in> set (without Q (Some w) q)"
    then have "waits s' q x" using wts ok by (auto simp: without_def semq_def lists_ok_def)
    moreover have "owner s1 x = owner s x" using st by (rule strip_owner)
    ultimately show "owner s' x = owner s x"
      using cl' by (cases x) (auto simp: owner_def waits_def split: waiter.splits option.splits if_splits)
  qed
  ultimately show ?thesis using others by blast
qed

lemma without_remove1:
  assumes "distinct (Q q)"
  shows "without Q (Some w) q = remove1 w (Q q)"
  using assms by (simp add: without_def distinct_remove1_removeAll removeAll_filter_not_eq eq_commute)

lemma filter_owner:
  assumes "clots_ok s" "\<forall>w\<in>set xs. waits s q w" "node_of s t = Some n"
  shows "filter (\<lambda>x. x \<noteq> t) (map (\<lambda>w. the (owner s w)) xs) = map (\<lambda>w. the (owner s w)) (filter (\<lambda>w. Some w \<noteq> Some n) xs)"
  using assms(2)
proof (induction xs)
  case Nil
  then show ?case by simp
next
  case (Cons w xs)
  have "waits s q w" using Cons.prems by simp
  then obtain u where u: "owner s w = Some u" using owner_exists [OF assms(1)] by blast
  then have "u = t \<longleftrightarrow> w = n"
    using waits_node_of [OF assms(1), of q w t] waits_node_of [OF assms(1), of q w u] Cons.prems assms(3) by auto
  then show ?case using u Cons by auto
qed

lemma CancelSems_spec:
  assumes W: "sem_queues s W" and t: "waiting_sem_or_clot (threads s t) \<noteq> None"
  shows "\<exists>s'. CancelSems t s = Some s' \<and> sem_queues s' (\<lambda>q. filter (\<lambda>x. x \<noteq> t) (W q)) \<and>
    sem_frame t s s' \<and> waiting_sem_or_clot (threads s' t) = None"
proof -
  obtain Q where Q: "semq s Q" "\<And>q. W q = map (\<lambda>w. the (owner s w)) (Q q)"
    using W by (auto simp: sem_queues_def)
  have lo: "lists_ok s Q" and cl: "clots_ok s" and el: "\<And>q w. w \<in> set (Q q) \<longleftrightarrow> waits s q w"
    using Q(1) by (auto simp: semq_def lists_ok_def)
  have dist: "distinct (Q q)" for q using lo sem_chain_distinct by (auto simp: lists_ok_def)
  obtain w where w: "node_of s t = Some w" using t by (auto simp: node_of_def)
  have mem: "q \<in> set (wait_set s t) \<longleftrightarrow> w \<in> set (Q q)" for q
    using waits_wait_set [OF cl, of q t] w el by auto
  have ws: "distinct (wait_set s t)"
    using cl by (auto simp: wait_set_def clots_ok_def split: option.splits waiting_on.splits)
  have without: "(\<lambda>q. if q \<in> set (wait_set s t) then remove1 w (Q q) else Q q) = without Q (Some w)"
    using without_remove1 [of Q, OF dist] mem by (auto simp: fun_eq_iff remove1_idem)
  have own: "owner s w = Some t"
    using waits_node_of [OF cl, of _ w t] w mem el cl t
    by (cases "waiting_sem_or_clot (threads s t)"; cases "the (waiting_sem_or_clot (threads s t))")
      (auto simp: node_of_def owner_def clots_ok_def)
  obtain s1 where s1: "CleanupAfterSem (wait_set s t) t s = Some s1" "strip s1 = strip s"
    "lists_ok s1 (without Q (Some w))"
    using CleanupAfterSem_spec [OF lo ws _ own] mem without by auto
  define s' where "s' = upd_thread t (\<lambda>x. x\<lparr>waiting_sem_or_clot := None, next_waiting_sem := None\<rparr>)
      (case w of Thr _ \<Rightarrow> s1 | Clot c \<Rightarrow> s1\<lparr>clots := (clots s1)(c := None)\<rparr>)"
  have run: "CancelSems t s = Some s'"
    using s1(1) t w cl
    by (cases "waiting_sem_or_clot (threads s t)"; cases "the (waiting_sem_or_clot (threads s t))")
      (fastforce simp: CancelSems_def wait_set_def node_of_def s'_def clots_ok_def)+
  have tail: "semq s' (without Q (Some w))"
    "\<forall>x. x \<noteq> t \<longrightarrow> wait_set s' x = wait_set s x \<and> waiting_sem_or_clot (threads s' x) = waiting_sem_or_clot (threads s x)"
    "\<forall>q x. x \<in> set (without Q (Some w) q) \<longrightarrow> owner s' x = owner s x"
    using cancel_tail [OF Q(1) w s1(2,3), of s'] by (auto simp: s'_def split: waiter.splits)
  have "filter (\<lambda>x. x \<noteq> t) (W q) = map (\<lambda>w. the (owner s' w)) (without Q (Some w) q)" for q
  proof -
    have "filter (\<lambda>x. x \<noteq> t) (W q) = map (\<lambda>w. the (owner s w)) (without Q (Some w) q)"
      using filter_owner [OF cl _ w, of "Q q" q] el Q(2) [of q] by (simp add: without_def)
    also have "\<dots> = map (\<lambda>w. the (owner s' w)) (without Q (Some w) q)"
      using tail(3) by (intro map_cong refl) metis
    finally show ?thesis .
  qed
  then have "sem_queues s' (\<lambda>q. filter (\<lambda>x. x \<noteq> t) (W q))"
    using tail(1) by (auto simp: sem_queues_def)
  moreover have "sem_frame t s s'"
  proof -
    have f: "sem_frame t s s1" using s1(2) by (rule sem_frame_strip)
    have "(threads s' x)\<lparr>next_waiting_sem := None, waiting_sem_or_clot := None\<rparr> =
        (threads s1 x)\<lparr>next_waiting_sem := None, waiting_sem_or_clot := None\<rparr>" for x
      by (simp add: s'_def split: waiter.splits)
    moreover have "sems s' = sems s1" by (simp add: s'_def split: waiter.splits)
    moreover have "s'\<lparr>threads := threads s, sems := sems s, clots := clots s\<rparr> =
        s1\<lparr>threads := threads s, sems := sems s, clots := clots s\<rparr>"
      by (simp add: s'_def upd_thread_def split: waiter.splits)
    ultimately show ?thesis using f tail(2) by (simp add: sem_frame_def)
  qed
  moreover have "waiting_sem_or_clot (threads s' t) = None" by (simp add: s'_def split: waiter.splits)
  ultimately show ?thesis using run by blast
qed

section \<open>Enqueuing a thread\<close>

lemma AddToSems_spec:
  assumes "lists_ok s Q" "distinct qs" "\<forall>q\<in>set qs. waits s q w \<and> w \<notin> set (Q q) \<and> the_next s q w = None"
  shows "\<exists>s'. AddToSems w qs s = Some s' \<and> strip s' = strip s \<and>
    lists_ok s' (\<lambda>q. if q \<in> set qs then Q q @ [w] else Q q)"
  using assms
proof (induction qs arbitrary: s Q)
  case Nil
  then show ?case by simp
next
  case (Cons q qs)
  have w: "waits s q w" "w \<notin> set (Q q)" "the_next s q w = None" using Cons.prems(3) by auto
  obtain s1 where s1: "AddToOneSem w q s = Some s1" "strip s1 = strip s" "lists_ok s1 (Q(q := Q q @ [w]))"
    "\<forall>q'. q' \<noteq> q \<and> waits s q' w \<and> w \<notin> set (Q q') \<longrightarrow> the_next s1 q' w = the_next s q' w"
    using AddToOneSem_spec [OF Cons.prems(1) w] by blast
  have "\<forall>q'\<in>set qs. waits s1 q' w \<and> w \<notin> set ((Q(q := Q q @ [w])) q') \<and> the_next s1 q' w = None"
  proof
    fix q' assume q': "q' \<in> set qs"
    then have "q' \<noteq> q" using Cons.prems(2) by auto
    then show "waits s1 q' w \<and> w \<notin> set ((Q(q := Q q @ [w])) q') \<and> the_next s1 q' w = None"
      using s1(4) Cons.prems(3) q' strip_waits [OF s1(2)] by simp
  qed
  moreover have "distinct qs" using Cons.prems(2) by simp
  ultimately obtain s' where s': "AddToSems w qs s1 = Some s'" "strip s' = strip s1"
    "lists_ok s' (\<lambda>q'. if q' \<in> set qs then (Q(q := Q q @ [w])) q' @ [w] else (Q(q := Q q @ [w])) q')"
    using Cons.IH [OF s1(3)] by blast
  have "(\<lambda>q'. if q' \<in> set qs then (Q(q := Q q @ [w])) q' @ [w] else (Q(q := Q q @ [w])) q') =
      (\<lambda>q'. if q' \<in> set (q # qs) then Q q' @ [w] else Q q')"
    using Cons.prems(2) by (auto simp: fun_eq_iff)
  then show ?case using s' s1 by (intro exI [of _ s']) simp
qed

text \<open>
  A thread that waits for nothing, put on the queues of distinct semaphores, becomes the last
  element of each. With two or more semaphores it needs memory for a clot; without it nothing
  changes.
\<close>

lemma enqueue_spec:
  assumes W: "sem_queues s W" and t: "waiting_sem_or_clot (threads s t) = None" and qs: "distinct qs"
    and s0: "s0 = upd_thread t (\<lambda>x. x\<lparr>next_waiting_sem := None, waiting_sem_or_clot := Some o'\<rparr>) s1"
    and o': "case o' of OnSem q \<Rightarrow> qs = [q] \<and> w = Thr t \<and> s1 = s
      | OnClot c \<Rightarrow> w = Clot c \<and> clots s c = None \<and> s1 = s\<lparr>clots := (clots s)(c \<mapsto>
          \<lparr>thr = t, csems = qs, nexts = replicate (length qs) None\<rparr>)\<rparr>"
  shows "\<exists>s'. AddToSems w qs s0 = Some s' \<and>
    sem_queues s' (\<lambda>q. if q \<in> set qs then W q @ [t] else W q) \<and>
    sem_frame t s s' \<and> wait_set s' t = qs"
proof -
  obtain Q where Q: "semq s Q" "\<And>q. W q = map (\<lambda>w. the (owner s w)) (Q q)"
    using W by (auto simp: sem_queues_def)
  have lo: "lists_ok s Q" and cl: "clots_ok s" and el: "\<And>q w. w \<in> set (Q q) \<longleftrightarrow> waits s q w"
    using Q(1) by (auto simp: semq_def lists_ok_def)
  have nw: "\<not> waits s q w" for q using t o' by (auto simp: waits_def split: waiting_on.splits)
  have cl0: "clots_ok s0"
  proof (cases o')
    case (OnSem q)
    then show ?thesis using cl t o' s0 by (fastforce simp: clots_ok_def)
  next
    case (OnClot c)
    define k0 where "k0 = \<lparr>thr = t, csems = qs, nexts = replicate (length qs) None\<rparr>"
    have k0: "thr k0 = t" "csems k0 = qs" "length (nexts k0) = length qs" by (simp_all add: k0_def)
    have c: "clots s c = None" "clots s0 = (clots s)(c \<mapsto> k0)"
      "threads s0 = (threads s)(t := (threads s t)\<lparr>next_waiting_sem := None, waiting_sem_or_clot := Some (OnClot c)\<rparr>)"
      using o' s0 OnClot by (simp_all add: k0_def)
    show ?thesis
      unfolding clots_ok_def
    proof (intro conjI allI impI)
      fix c' k assume "clots s0 c' = Some k"
      then have "c' = c \<and> k = k0 \<or> c' \<noteq> c \<and> clots s c' = Some k" using c by (auto split: if_splits)
      then show "distinct (csems k)" "length (nexts k) = length (csems k)"
        "waiting_sem_or_clot (threads s0 (thr k)) = Some (OnClot c')"
        using cl k0 qs t c(3) by (fastforce simp: clots_ok_def)+
    next
      fix x c' assume a: "waiting_sem_or_clot (threads s0 x) = Some (OnClot c')"
      show "\<exists>k. clots s0 c' = Some k \<and> thr k = x"
      proof (cases "x = t")
        case True
        then show ?thesis using a c k0 by auto
      next
        case False
        then have "\<exists>k. clots s c' = Some k \<and> thr k = x" using a c(3) cl by (simp add: clots_ok_def)
        then show ?thesis using c by auto
      qed
    qed
  qed
  have wq: "waits s0 q x \<longleftrightarrow> (if x = w then q \<in> set qs else waits s q x)" for q x
    using o' t s0 by (cases x) (auto simp: waits_def split: waiting_on.splits)
  have nx: "the_next s0 q x = the_next s q x" if "waits s q x" for q x
    using that nw [of q] t o' s0
    by (cases x) (auto simp: the_next_def read_next_def waits_def split: waiting_on.splits option.splits)
  have se: "sems s0 = sems s" using s0 o' by (auto split: waiting_on.splits)
  have "sem_chain s0 q (Q q)" for q
    using lo chain_cong [of "Q q" "the_next s0 q" "the_next s q"] nx el se
    by (simp add: lists_ok_def sem_chain_def)
  then have lo0: "lists_ok s0 Q" using cl0 wq el nw by (auto simp: lists_ok_def)
  have last: "the_next s0 q w = None" if "q \<in> set qs" for q
    using that o' s0 LookupClotIndex_found [of q "\<lparr>thr = t, csems = qs, nexts = replicate (length qs) None\<rparr>"]
    by (auto simp: the_next_def read_next_def Let_def split: waiting_on.splits)
  obtain s' where s': "AddToSems w qs s0 = Some s'" "strip s' = strip s0"
    "lists_ok s' (\<lambda>q. if q \<in> set qs then Q q @ [w] else Q q)"
    using AddToSems_spec [OF lo0 qs, of w] wq last el nw by auto
  have ow: "owner s' x = owner s x" if "waits s q x" for q x
  proof -
    have "x \<noteq> w" using that nw by auto
    moreover have "owner s' x = owner s0 x" using s'(2) by (rule strip_owner)
    ultimately show ?thesis using s0 o' by (cases x) (auto simp: owner_def split: waiting_on.splits)
  qed
  have ot: "owner s' w = Some t"
    using strip_owner [OF s'(2), of w] s0 o' by (auto simp: owner_def split: waiting_on.splits)
  have "semq s' (\<lambda>q. if q \<in> set qs then Q q @ [w] else Q q)"
    using s'(3) strip_waits [OF s'(2)] wq el by (auto simp: semq_def)
  moreover have "(if q \<in> set qs then W q @ [t] else W q) =
      map (\<lambda>w. the (owner s' w)) (if q \<in> set qs then Q q @ [w] else Q q)" for q
    using Q(2) ot ow el by (auto simp: image_iff cong: map_cong)
  ultimately have "sem_queues s' (\<lambda>q. if q \<in> set qs then W q @ [t] else W q)"
    by (auto simp: sem_queues_def)
  moreover have "sem_frame t s s'"
  proof -
    have f: "sem_frame t s0 s'" using s'(2) by (rule sem_frame_strip)
    have th: "(threads s0 x)\<lparr>next_waiting_sem := None, waiting_sem_or_clot := None\<rparr> =
        (threads s x)\<lparr>next_waiting_sem := None, waiting_sem_or_clot := None\<rparr>" for x
      using s0 o' by (auto split: waiting_on.splits)
    have ot: "waiting_sem_or_clot (threads s0 x) = waiting_sem_or_clot (threads s x)" if "x \<noteq> t" for x
      using s0 o' that by (auto split: waiting_on.splits)
    have ws: "wait_set s0 x = wait_set s x" if x: "x \<noteq> t" for x
    proof (cases "waiting_sem_or_clot (threads s x)")
      case None
      then show ?thesis using ot [OF x] by (simp add: wait_set_def)
    next
      case (Some y)
      have "clots s0 c = clots s c" if "y = OnClot c" for c
      proof -
        have "clots s c \<noteq> None" using cl Some that by (fastforce simp: clots_ok_def)
        then show ?thesis using s0 o' by (auto split: waiting_on.splits)
      qed
      then show ?thesis using ot [OF x] Some by (simp add: wait_set_def split: waiting_on.splits)
    qed
    have rest: "s0\<lparr>threads := threads s, sems := sems s, clots := clots s\<rparr> = s"
      using s0 o' by (auto simp: upd_thread_def split: waiting_on.splits)
    have f0: "s'\<lparr>threads := threads s0, sems := sems s0, clots := clots s0\<rparr> = s0"
      using f by (simp add: sem_frame_def)
    have eq: "s'\<lparr>threads := threads s, sems := sems s, clots := clots s\<rparr> = s"
      using arg_cong [OF f0, of "\<lambda>u. u\<lparr>threads := threads s, sems := sems s, clots := clots s\<rparr>"] rest
      by simp
    show ?thesis
      unfolding sem_frame_def
    proof (intro conjI allI impI)
      fix x
      show "(threads s' x)\<lparr>next_waiting_sem := None, waiting_sem_or_clot := None\<rparr> =
          (threads s x)\<lparr>next_waiting_sem := None, waiting_sem_or_clot := None\<rparr>"
        using f th [of x] unfolding sem_frame_def by metis
    next
      fix x assume "x \<noteq> t"
      then show "waiting_sem_or_clot (threads s' x) = waiting_sem_or_clot (threads s x)"
        "wait_set s' x = wait_set s x"
        using f ot [of x] ws [of x] unfolding sem_frame_def by metis+
    next
      fix q
      show "count (sems s' q) = count (sems s q)" "smax (sems s' q) = smax (sems s q)"
        using f se unfolding sem_frame_def by metis+
    qed (rule eq)
  qed
  moreover have "wait_set s' t = qs"
    using strip_wait_set(1) [OF s'(2), of t] s0 o' by (auto simp: wait_set_def split: waiting_on.splits)
  ultimately show ?thesis using s'(1) by blast
qed

lemma AddThreadToSemQueues_spec:
  assumes W: "sem_queues s W" and t: "waiting_sem_or_clot (threads s t) = None"
    and qs: "distinct qs" "qs \<noteq> []" and mem: "\<And>c. mem = Some c \<Longrightarrow> clots s c = None"
  shows "if length qs > 1 \<and> mem = None then AddThreadToSemQueues mem t qs s = Some (errno_code ENOMEM, s)
    else \<exists>s'. AddThreadToSemQueues mem t qs s = Some (0, s') \<and>
      sem_queues s' (\<lambda>q. if q \<in> set qs then W q @ [t] else W q) \<and> sem_frame t s s' \<and> wait_set s' t = qs"
proof (cases "length qs > 1")
  case True
  show ?thesis
  proof (cases mem)
    case None
    then show ?thesis using True by (simp add: AddThreadToSemQueues_def CreateClot_def)
  next
    case (Some c)
    then show ?thesis
      using True mem enqueue_spec [OF W t qs(1) refl, where o' = "OnClot c" and w = "Clot c"]
      by (auto simp: AddThreadToSemQueues_def CreateClot_def)
  qed
next
  case False
  then obtain q where q: "qs = [q]" using qs(2) by (cases qs) auto
  then show ?thesis
    using enqueue_spec [OF W t qs(1) refl, where o' = "OnSem q" and w = "Thr t"]
    by (fastforce simp: AddThreadToSemQueues_def simp del: AddToSems.simps)
qed

end
