(* ===== verification/TimerQueue.thy ===== *)
theory TimerQueue
  imports KState
begin

text \<open>
  The list of sleeping threads of \<^verbatim>\<open>kernel/core/timer.c\<close>: singly linked through
  \<open>next_waiting_timer\<close>, sorted by wakeup time, with the earliest wakeup time cached in
  \<open>next_wakeup_ns\<close>. A thread is on the list exactly when its \<open>wakeup_time_ns\<close> is not 0.
\<close>

section \<open>Operations\<close>

definition GetTimeSinceBoot :: "kstate \<Rightarrow> (u64 \<times> kstate) option" where
  "GetTimeSinceBoot s =
     do { s \<leftarrow> AcquireSpinlock TimerLock s;
          let retv = ns_since_boot s;
          s \<leftarrow> ReleaseSpinlock TimerLock s;
          Some (retv, s) }"

text \<open>The loop of \<open>CancelTimer\<close> that looks for the predecessor of \<open>thr\<close>.\<close>

partial_function (option) CancelTimer_loop ::
    "tid option \<Rightarrow> tid \<Rightarrow> kstate \<Rightarrow> tid option option" where
  "CancelTimer_loop prev t s =
     (case prev of
        None \<Rightarrow> Some None
      | Some p \<Rightarrow>
          if next_waiting_timer (threads s p) \<noteq> Some t
          then CancelTimer_loop (next_waiting_timer (threads s p)) t s
          else Some (Some p))"

definition CancelTimer :: "tid \<Rightarrow> kstate \<Rightarrow> kstate option" where
  "CancelTimer t s =
     (if wakeup_time_ns (threads s t) = 0 then Some s
      else
        do { s \<leftarrow> (if first_waiting_timer s = Some t
                   then Some (s\<lparr>first_waiting_timer := next_waiting_timer (threads s t)\<rparr>)
                   else
                     do { prev \<leftarrow> CancelTimer_loop (first_waiting_timer s) t s;
                          Some (case prev of
                                  None \<Rightarrow> s
                                | Some p \<Rightarrow> upd_thread p (\<lambda>x. x\<lparr>next_waiting_timer :=
                                    next_waiting_timer (threads s t)\<rparr>) s) });
             let s = upd_thread t (\<lambda>x. x\<lparr>next_waiting_timer := None, wakeup_time_ns := 0\<rparr>) s;
             s \<leftarrow> AcquireSpinlock TimerLock s;
             ReleaseSpinlock TimerLock (s\<lparr>next_wakeup_ns :=
               (case first_waiting_timer s of
                  None \<Rightarrow> 0
                | Some f \<Rightarrow> wakeup_time_ns (threads s f))\<rparr>) })"

text \<open>The part of \<open>AddThreadToSleepQueue\<close> that links the thread into the list.\<close>

partial_function (option) SleepQueue_loop :: "tid \<Rightarrow> u64 \<Rightarrow> kstate \<Rightarrow> tid option" where
  "SleepQueue_loop prev ns s =
     (case next_waiting_timer (threads s prev) of
        None \<Rightarrow> Some prev
      | Some n \<Rightarrow> if wakeup_time_ns (threads s n) \<le> ns then SleepQueue_loop n ns s else Some prev)"

definition SleepQueueInsert :: "tid \<Rightarrow> u64 \<Rightarrow> kstate \<Rightarrow> kstate option" where
  "SleepQueueInsert t ns s =
     (let s = upd_thread t (\<lambda>x. x\<lparr>wakeup_time_ns := ns\<rparr>) s
      in case first_waiting_timer s of
           None \<Rightarrow> Some ((upd_thread t (\<lambda>x. x\<lparr>next_waiting_timer := None\<rparr>) s)
             \<lparr>first_waiting_timer := Some t\<rparr>)
         | Some f \<Rightarrow>
             if ns < wakeup_time_ns (threads s f)
             then Some ((upd_thread t (\<lambda>x. x\<lparr>next_waiting_timer := Some f\<rparr>) s)
               \<lparr>first_waiting_timer := Some t\<rparr>)
             else
               do { prev \<leftarrow> SleepQueue_loop f ns s;
                    let s1 = upd_thread t (\<lambda>x. x\<lparr>next_waiting_timer :=
                      next_waiting_timer (threads s prev)\<rparr>) s;
                    Some (upd_thread prev (\<lambda>x. x\<lparr>next_waiting_timer := Some t\<rparr>) s1) })"

section \<open>The list behind the pointers\<close>

abbreviation wake :: "kstate \<Rightarrow> tid \<Rightarrow> u64" where
  "wake s t \<equiv> wakeup_time_ns (threads s t)"

definition timer_chain :: "kstate \<Rightarrow> tid list \<Rightarrow> bool" where
  "timer_chain s T \<longleftrightarrow>
     chain (\<lambda>t. next_waiting_timer (threads s t)) (first_waiting_timer s) T None \<and>
     sorted (map (wake s) T) \<and> (\<forall>t. t \<in> set T \<longleftrightarrow> wake s t \<noteq> 0)"

definition timers :: "kstate \<Rightarrow> tid list \<Rightarrow> bool" where
  "timers s T \<longleftrightarrow> timer_chain s T \<and>
     next_wakeup_ns s = (case T of [] \<Rightarrow> 0 | t # _ \<Rightarrow> wake s t)"

text \<open>Interrupts are off and stay off for a nested lock: the scheduler lock is held around.\<close>

definition held :: "kstate \<Rightarrow> bool" where
  "held s \<longleftrightarrow> \<not> interrupts s \<and> cpu_irq_disable_counter s \<noteq> 0 \<and> room 8 s"

lemma word32_succ_neq0: "unat (c :: u32) + 1 < 2 ^ 32 \<Longrightarrow> c + 1 \<noteq> 0"
proof -
  assume "unat c + 1 < 2 ^ 32"
  then have "unat (c + 1) = unat c + 1" by (simp add: unat_word_ariths)
  then show ?thesis by (metis add_is_0 one_neq_zero unat_0)
qed

lemma AcquireSpinlock_held:
  assumes "held s" "\<not> locks s l"
  shows "AcquireSpinlock l s = Some (s\<lparr>cpu_irq_disable_counter := cpu_irq_disable_counter s + 1,
    locks := (locks s)(l := True)\<rparr>)"
proof -
  have "room 1 s" using assms(1) by (simp add: held_def room_def)
  moreover have "s\<lparr>interrupts := False\<rparr> = s" using assms(1) by (simp add: held_def)
  ultimately show ?thesis using assms
    by (cases s) (simp add: AcquireSpinlock_def AcquireIrqPrevent_Some held_def)
qed

lemma ReleaseSpinlock_nested:
  assumes "cpu_irq_disable_counter s = c + 1" "c \<noteq> 0" "unat c + 1 < 2 ^ 32"
  shows "ReleaseSpinlock l s = Some (s\<lparr>locks := (locks s)(l := False), cpu_irq_disable_counter := c\<rparr>)"
  using assms word32_succ_neq0 [OF assms(3)]
  by (cases s) (simp add: ReleaseSpinlock_def ReleaseIrqPrevent_def Let_def)

lemma held_unat: "held s \<Longrightarrow> unat (cpu_irq_disable_counter s) + 1 < 2 ^ 32"
  by (simp add: held_def room_def)

lemma GetTimeSinceBoot_spec:
  assumes "held s" "\<not> locks s TimerLock"
  shows "GetTimeSinceBoot s = Some (ns_since_boot s, s)"
proof -
  have "(locks s)(TimerLock := False) = locks s" using assms(2) by (auto simp: fun_eq_iff)
  then show ?thesis
    using assms held_unat [OF assms(1)]
    by (simp add: GetTimeSinceBoot_def AcquireSpinlock_held Let_def
        ReleaseSpinlock_nested [of _ "cpu_irq_disable_counter s"] held_def)
qed

lemma timer_chain_distinct: "timer_chain s T \<Longrightarrow> distinct T"
  unfolding timer_chain_def by (blast intro: chain_distinct)

lemma CancelTimer_loop_spec:
  assumes "chain (\<lambda>t. next_waiting_timer (threads s t)) p (xs @ y # t # ys) None"
  shows "CancelTimer_loop p t s = Some (Some y)"
proof -
  have "distinct (xs @ y # t # ys)" using assms by (rule chain_distinct)
  with assms show ?thesis
  proof (induction xs arbitrary: p)
    case Nil
    then show ?case by (subst CancelTimer_loop.simps) simp
  next
    case (Cons x xs)
    then have p: "p = Some x" and c: "chain (\<lambda>t. next_waiting_timer (threads s t)) (next_waiting_timer (threads s x)) (xs @ y # t # ys) None"
      by auto
    have "next_waiting_timer (threads s x) \<noteq> Some t"
      using c Cons.prems(2) by (cases xs) auto
    then show ?case using Cons.IH [OF c] Cons.prems(2) p by (subst CancelTimer_loop.simps) simp
  qed
qed

lemma next_timer_upd:
  "(\<lambda>t. next_waiting_timer (if t = p then f (threads s p) else threads s t)) =
     (\<lambda>t. next_waiting_timer (threads s t))(p := next_waiting_timer (f (threads s p)))"
  by auto

lemma sorted_filter_wake: "sorted (map f xs) \<Longrightarrow> sorted (map f (filter P xs))"
  by (induction xs) auto

definition timer_frame :: "tid \<Rightarrow> kstate \<Rightarrow> kstate \<Rightarrow> bool" where
  "timer_frame t s s' \<longleftrightarrow>
     (\<forall>x. (threads s' x)\<lparr>next_waiting_timer := None, wakeup_time_ns := 0\<rparr> =
          (threads s x)\<lparr>next_waiting_timer := None, wakeup_time_ns := 0\<rparr>) \<and>
     (\<forall>x. x \<noteq> t \<longrightarrow> wake s' x = wake s x) \<and>
     s'\<lparr>threads := threads s, first_waiting_timer := first_waiting_timer s,
        next_wakeup_ns := next_wakeup_ns s\<rparr> = s"

lemma CancelTimer_spec:
  assumes T: "timers s T" and h: "held s" "\<not> locks s TimerLock"
  shows "\<exists>s'. CancelTimer t s = Some s' \<and> timers s' (filter (\<lambda>x. x \<noteq> t) T) \<and>
    timer_frame t s s' \<and> wake s' t = 0"
proof (cases "wake s t = 0")
  case True
  then have "filter (\<lambda>x. x \<noteq> t) T = T" using T by (intro filter_True) (auto simp: timers_def timer_chain_def)
  then show ?thesis using T True by (simp add: CancelTimer_def timer_frame_def)
next
  case False
  let ?n = "\<lambda>t. next_waiting_timer (threads s t)"
  have tc: "chain ?n (first_waiting_timer s) T None" and so: "sorted (map (wake s) T)"
    and mem: "\<And>x. x \<in> set T \<longleftrightarrow> wake s x \<noteq> 0"
    using T by (auto simp: timers_def timer_chain_def)
  have dist: "distinct T" using tc by (rule chain_distinct)
  obtain xs ys where T': "T = xs @ t # ys" using False mem by (meson split_list)
  then have fil: "filter (\<lambda>x. x \<noteq> t) T = xs @ ys" using dist by (auto intro!: arg_cong2 [where f = append] filter_True)
  define s1 where "s1 = (if xs = [] then s\<lparr>first_waiting_timer := ?n t\<rparr>
      else upd_thread (last xs) (\<lambda>x. x\<lparr>next_waiting_timer := ?n t\<rparr>) s)"
  have first: "(first_waiting_timer s = Some t) = (xs = [])"
    using tc T' dist by (cases xs) auto
  have step: "(if first_waiting_timer s = Some t then Some (s\<lparr>first_waiting_timer := ?n t\<rparr>)
      else do { prev \<leftarrow> CancelTimer_loop (first_waiting_timer s) t s;
             Some (case prev of None \<Rightarrow> s
               | Some p \<Rightarrow> upd_thread p (\<lambda>x. x\<lparr>next_waiting_timer := ?n t\<rparr>) s) }) = Some s1"
  proof (cases xs rule: rev_cases)
    case Nil
    then show ?thesis using first by (simp add: s1_def)
  next
    case (snoc zs z)
    then have "CancelTimer_loop (first_waiting_timer s) t s = Some (Some z)"
      using tc T' by (intro CancelTimer_loop_spec [of s _ zs z t ys]) simp
    then show ?thesis using first snoc by (simp add: s1_def)
  qed
  define s2 where "s2 = upd_thread t (\<lambda>x. x\<lparr>next_waiting_timer := None, wakeup_time_ns := 0\<rparr>) s1"
  define s' where "s' = s2\<lparr>next_wakeup_ns :=
      (case first_waiting_timer s2 of None \<Rightarrow> 0 | Some f \<Rightarrow> wakeup_time_ns (threads s2 f))\<rparr>"
  have s2: "held s2" "\<not> locks s2 TimerLock" "cpu_irq_disable_counter s2 = cpu_irq_disable_counter s"
    "(locks s2)(TimerLock := False) = locks s2"
    using h by (auto simp: s2_def s1_def held_def room_def fun_eq_iff)
  have "CancelTimer t s = do { s \<leftarrow> AcquireSpinlock TimerLock s2;
             ReleaseSpinlock TimerLock (s\<lparr>next_wakeup_ns :=
               (case first_waiting_timer s of None \<Rightarrow> 0 | Some f \<Rightarrow> wakeup_time_ns (threads s f))\<rparr>) }"
    using False step by (simp add: CancelTimer_def s2_def Let_def)
  also have "\<dots> = Some s'"
    using s2 held_unat [OF s2(1)]
    by (simp add: AcquireSpinlock_held ReleaseSpinlock_nested [of _ "cpu_irq_disable_counter s2"] held_def s'_def
        cong: option.case_cong)
  finally have run: "CancelTimer t s = Some s'" .
  have w: "wake s' x = (if x = t then 0 else wake s x)" for x
    by (auto simp: s'_def s2_def s1_def)
  have ch: "chain (\<lambda>t. next_waiting_timer (threads s' t)) (first_waiting_timer s') (xs @ ys) None"
  proof (cases xs rule: rev_cases)
    case Nil
    have "chain (\<lambda>t. next_waiting_timer (threads s' t)) (?n t) ys None \<longleftrightarrow> chain ?n (?n t) ys None"
      using dist T' Nil by (intro chain_cong) (auto simp: s'_def s2_def s1_def)
    moreover have "first_waiting_timer s' = ?n t" using Nil by (simp add: s'_def s2_def s1_def)
    ultimately show ?thesis using tc T' Nil by simp
  next
    case (snoc zs z)
    have "chain (?n(z := ?n t)) (first_waiting_timer s) (zs @ z # ys) None"
      using tc T' snoc by (intro chain_unlink) simp
    moreover have "t \<notin> set (zs @ z # ys)" using dist T' snoc by auto
    ultimately have "chain (?n(z := ?n t, t := None)) (first_waiting_timer s) (zs @ z # ys) None"
      by (subst chain_upd_notin) simp_all
    moreover have "(\<lambda>u. next_waiting_timer (threads s' u)) = ?n(z := ?n t, t := None)"
      using snoc by (auto simp: s'_def s2_def s1_def fun_eq_iff)
    moreover have "first_waiting_timer s' = first_waiting_timer s"
      using snoc by (simp add: s'_def s2_def s1_def)
    ultimately show ?thesis using snoc by simp
  qed
  have eq: "map (wake s') (xs @ ys) = map (wake s) (xs @ ys)"
    using dist T' by (intro map_cong refl) (auto simp: w)
  have "sorted (map (wake s) (xs @ ys))" using sorted_filter_wake [OF so, of "\<lambda>x. x \<noteq> t"] unfolding fil .
  then have "sorted (map (wake s') (xs @ ys))" unfolding eq .
  moreover have "x \<in> set (xs @ ys) \<longleftrightarrow> wake s' x \<noteq> 0" for x
    using mem [of x] T' dist by (auto simp: w)
  ultimately have "timer_chain s' (xs @ ys)" using ch unfolding timer_chain_def by blast
  moreover have "next_wakeup_ns s' = (case xs @ ys of [] \<Rightarrow> 0 | t # _ \<Rightarrow> wake s' t)"
  proof -
    have "next_wakeup_ns s' = (case first_waiting_timer s' of None \<Rightarrow> 0 | Some f \<Rightarrow> wake s' f)"
      by (simp add: s'_def split: option.split)
    then show ?thesis using chain_hd [OF ch] by (simp split: list.splits)
  qed
  ultimately have "timers s' (xs @ ys)" by (simp add: timers_def)
  moreover have "timer_frame t s s'"
    by (auto simp: timer_frame_def w s'_def s2_def s1_def upd_thread_def)
  ultimately show ?thesis using run fil w by auto
qed

section \<open>Inserting\<close>

lemma SleepQueue_loop_spec:
  assumes "chain (\<lambda>t. next_waiting_timer (threads s t)) (Some p) (p # ys) None"
  shows "SleepQueue_loop p ns s = Some (last (p # takeWhile (\<lambda>x. wake s x \<le> ns) ys))"
  using assms
proof (induction ys arbitrary: p)
  case Nil
  then show ?case by (subst SleepQueue_loop.simps) simp
next
  case (Cons y ys)
  then have "next_waiting_timer (threads s p) = Some y" by simp
  moreover have "chain (\<lambda>t. next_waiting_timer (threads s t)) (Some y) (y # ys) None"
    using Cons.prems by simp
  ultimately show ?case using Cons.IH [of y] by (subst SleepQueue_loop.simps) simp
qed

definition sleep_insert :: "kstate \<Rightarrow> tid \<Rightarrow> u64 \<Rightarrow> tid list \<Rightarrow> tid list" where
  "sleep_insert s t ns T = takeWhile (\<lambda>x. wake s x \<le> ns) T @ t # dropWhile (\<lambda>x. wake s x \<le> ns) T"

lemma sleep_insert_sorted:
  assumes "sorted (map (wake s) T)" "t \<notin> set T" "\<forall>x. wake s' x = (if x = t then ns else wake s x)"
  shows "sorted (map (wake s') (sleep_insert s t ns T))"
proof -
  let ?a = "takeWhile (\<lambda>x. wake s x \<le> ns) T" and ?b = "dropWhile (\<lambda>x. wake s x \<le> ns) T"
  have sub: "set ?a \<subseteq> set T" "set ?b \<subseteq> set T" by (auto dest: set_takeWhileD set_dropWhileD)
  have ea: "map (wake s') ?a = map (wake s) ?a" and eb: "map (wake s') ?b = map (wake s) ?b"
    using sub assms(2,3) by (auto intro!: map_cong)
  have ab: "sorted (map (wake s) ?a @ map (wake s) ?b)"
    using assms(1) by (metis map_append takeWhile_dropWhile_id)
  have "\<forall>x\<in>set ?a. wake s x \<le> ns" by (auto dest: set_takeWhileD)
  moreover have "\<forall>x\<in>set ?b. ns \<le> wake s x"
  proof (cases ?b)
    case Nil
    show ?thesis unfolding Nil by simp
  next
    case (Cons y ys)
    then have "\<not> wake s y \<le> ns" by (metis hd_dropWhile list.discI list.sel(1))
    moreover have "\<forall>x\<in>set ?b. wake s y \<le> wake s x"
      using ab Cons by (simp add: sorted_append)
    ultimately show ?thesis by (meson linear order_trans)
  qed
  ultimately have "sorted (map (wake s) ?a @ ns # map (wake s) ?b)"
    using ab by (auto simp: sorted_append)
  moreover have "map (wake s') (sleep_insert s t ns T) = map (wake s) ?a @ ns # map (wake s) ?b"
    using ea eb assms(3) by (simp only: sleep_insert_def map_append list.map) simp
  ultimately show ?thesis by simp
qed

lemma SleepQueueInsert_spec:
  assumes T: "timer_chain s T" and t: "wake s t = 0" and ns: "ns \<noteq> 0"
  shows "\<exists>s'. SleepQueueInsert t ns s = Some s' \<and> timer_chain s' (sleep_insert s t ns T) \<and>
    timer_frame t s s' \<and> wake s' t = ns \<and> next_wakeup_ns s' = next_wakeup_ns s"
proof -
  let ?n = "\<lambda>t. next_waiting_timer (threads s t)"
  have tc: "chain ?n (first_waiting_timer s) T None" and so: "sorted (map (wake s) T)"
    and mem: "\<And>x. x \<in> set T \<longleftrightarrow> wake s x \<noteq> 0"
    using T by (auto simp: timer_chain_def)
  have tT: "t \<notin> set T" using t mem by auto
  define s1 where "s1 = upd_thread t (\<lambda>x. x\<lparr>wakeup_time_ns := ns\<rparr>) s"
  have n1: "next_waiting_timer (threads s1 x) = ?n x" for x by (simp add: s1_def)
  have w1: "wake s1 x = (if x = t then ns else wake s x)" for x by (simp add: s1_def)
  have goal: ?thesis
    if run: "SleepQueueInsert t ns s = Some s'"
      and nx: "(\<lambda>x. next_waiting_timer (threads s' x)) =
        (if ps = [] then ?n(t := first_waiting_timer s) else ?n(t := ?n (last ps), last ps := Some t))"
      and fw: "first_waiting_timer s' = (if ps = [] then Some t else first_waiting_timer s)"
      and w: "\<And>x. wake s' x = (if x = t then ns else wake s x)"
      and fr: "timer_frame t s s'" "next_wakeup_ns s' = next_wakeup_ns s"
      and ps: "ps = takeWhile (\<lambda>x. wake s x \<le> ns) T" for s' ps
  proof -
    define qs where "qs = dropWhile (\<lambda>x. wake s x \<le> ns) T"
    have Tpq: "T = ps @ qs" by (simp add: ps qs_def)
    have ins: "sleep_insert s t ns T = ps @ t # qs" by (simp add: sleep_insert_def ps qs_def)
    have dist: "distinct T" using tc by (rule chain_distinct)
    have "chain (\<lambda>x. next_waiting_timer (threads s' x)) (first_waiting_timer s') (ps @ t # qs) None"
    proof (cases ps rule: rev_cases)
      case Nil
      then show ?thesis using nx fw tc Tpq tT by (simp add: chain_upd_notin)
    next
      case (snoc rs r)
      have "r \<noteq> t" "r \<notin> set rs" "r \<notin> set qs" "t \<notin> set rs" "t \<notin> set qs"
        using dist tT Tpq snoc by auto
      moreover have "(\<lambda>x. next_waiting_timer (threads s' x)) = ?n(t := ?n r, r := Some t)"
        using nx snoc by simp
      ultimately show ?thesis
        using fw tc Tpq snoc by (auto simp: chain_append chain_upd_notin)
    qed
    moreover have "sorted (map (wake s') (sleep_insert s t ns T))"
      using so tT w by (intro sleep_insert_sorted) auto
    moreover have "x \<in> set (ps @ t # qs) \<longleftrightarrow> wake s' x \<noteq> 0" for x
      using mem [of x] Tpq w ns by auto
    ultimately have "timer_chain s' (sleep_insert s t ns T)"
      unfolding timer_chain_def ins by blast
    then show ?thesis using run fr w by auto
  qed
  show ?thesis
  proof (cases "T = [] \<or> ns < wake s (hd T)")
    case True
    define s' where "s' = (upd_thread t (\<lambda>x. x\<lparr>next_waiting_timer := first_waiting_timer s\<rparr>) s1)
        \<lparr>first_waiting_timer := Some t\<rparr>"
    have first: "first_waiting_timer s1 = first_waiting_timer s" by (simp add: s1_def)
    have run: "SleepQueueInsert t ns s = Some s'"
    proof (cases T)
      case Nil
      then show ?thesis using tc first by (simp add: SleepQueueInsert_def s'_def s1_def)
    next
      case (Cons f T')
      then have "first_waiting_timer s = Some f" "f \<noteq> t" "ns < wake s f" using tc tT True by auto
      then show ?thesis using first by (simp add: SleepQueueInsert_def s'_def s1_def)
    qed
    have ps: "[] = takeWhile (\<lambda>x. wake s x \<le> ns) T"
      using True by (cases T) auto
    show ?thesis
      by (rule goal [OF run _ _ _ _ _ ps])
        (auto simp: s'_def s1_def fun_eq_iff timer_frame_def upd_thread_def)
  next
    case False
    then obtain f T' where fT: "T = f # T'" "wake s f \<le> ns" by (cases T) auto
    have first: "first_waiting_timer s = Some f" and ft: "f \<noteq> t" using tc tT fT by auto
    define r where "r = last (f # takeWhile (\<lambda>x. wake s x \<le> ns) T')"
    have "chain (\<lambda>t. next_waiting_timer (threads s1 t)) (Some f) (f # T') None"
      using tc fT n1 by simp
    then have "SleepQueue_loop f ns s1 = Some (last (f # takeWhile (\<lambda>x. wake s1 x \<le> ns) T'))"
      by (rule SleepQueue_loop_spec)
    moreover have "takeWhile (\<lambda>x. wake s1 x \<le> ns) T' = takeWhile (\<lambda>x. wake s x \<le> ns) T'"
      using tT fT w1 by (intro takeWhile_cong) auto
    ultimately have loop: "SleepQueue_loop f ns s1 = Some r" by (simp add: r_def)
    define s' where "s' = upd_thread r (\<lambda>x. x\<lparr>next_waiting_timer := Some t\<rparr>)
      (upd_thread t (\<lambda>x. x\<lparr>next_waiting_timer := next_waiting_timer (threads s1 r)\<rparr>) s1)"
    have "r \<in> set T"
      unfolding r_def fT(1) using last_in_set [of "f # takeWhile (\<lambda>x. wake s x \<le> ns) T'"]
      by (auto dest: set_takeWhileD simp del: last.simps)
    then have rt: "r \<noteq> t" using tT by auto
    have run: "SleepQueueInsert t ns s = Some s'"
      using first ft fT loop rt by (simp add: SleepQueueInsert_def s1_def [symmetric] s'_def Let_def w1)
        (simp add: s1_def)
    show ?thesis
      by (rule goal [OF run, of "f # takeWhile (\<lambda>x. wake s x \<le> ns) T'"])
        (use fT rt r_def in \<open>auto simp: s'_def s1_def fun_eq_iff timer_frame_def upd_thread_def\<close>)
  qed
qed

end
