(* ===== verification/Scheduler.thy ===== *)
theory Scheduler
  imports ReadyQueue SemQueue TimerQueue
begin

text \<open>
  The scheduler of \<^verbatim>\<open>kernel/task/scheduler.c\<close>: the scheduler lock, blocking and unblocking
  threads, the choice of the next thread, the idle loop, and the entry of a new thread
  (\<^verbatim>\<open>kernel/task/thread.c\<close>).

  A call that switches threads returns on the stack of the thread that it switched to; in the
  model the resulting state has another \<open>current_thread\<close>. A call that finds nothing to run does not
  return: the CPU stays in the idle loop, and the resulting state has \<open>cpu_phase = Parked og\<close>. The
  loop goes on in \<open>IdleWake\<close>.
\<close>

section \<open>The scheduler lock\<close>

definition AcquireScheduler :: "kstate \<Rightarrow> kstate option" where
  "AcquireScheduler s =
     do { s \<leftarrow> AcquireIrqPrevent s;
          s \<leftarrow> AcquireSpinlock SchedLock s;
          ReleaseSpinlock SchedLock (s\<lparr>sched_prevent_count := sched_prevent_count s + 1\<rparr>) }"

definition IsCurrentThreadIdling :: "kstate \<Rightarrow> bool" where
  "IsCurrentThreadIdling s \<longleftrightarrow> sched_init s \<and> idling (threads s (current_thread s))"

text \<open>
  \<open>IdleUntilRunnable\<close> up to the first \<open>ArchIdle\<close>, and every later return to it; the flag
  \<open>idling\<close> is set before the loop.
\<close>

definition IdlePark :: "kstate \<Rightarrow> kstate option" where
  "IdlePark s =
     (let og_seq = something_unblocked_seq s
      in do { s \<leftarrow> ReleaseSpinlock SchedLock s;
              Some (s\<lparr>interrupts := True, cpu_phase := Parked og_seq\<rparr>) })"

text \<open>
  The rest of \<open>SwitchToThread\<close> once the next thread is known; \<open>own\<close> says that it was not passed as
  an argument, so that it may be the current thread itself. \<open>ArchSwitchThread\<close> continues on the
  stack of the new thread.
\<close>

definition FinishSwitch :: "bool \<Rightarrow> tid \<Rightarrow> kstate \<Rightarrow> kstate option" where
  "FinishSwitch own t s =
     (if own \<and> t = current_thread s
      then Some (upd_thread t (\<lambda>x. x\<lparr>state := THREAD_STATE_RUNNING, next_ready := None\<rparr>) s)
      else
        do { let old = current_thread s;
             let s = upd_thread t (\<lambda>x. x\<lparr>state := THREAD_STATE_RUNNING, next_ready := None\<rparr>)
                       (s\<lparr>current_thread := t\<rparr>);
             (now, s) \<leftarrow> GetTimeSinceBoot s;
             let s = s\<lparr>last_task_switch_time := now\<rparr>;
             let s = upd_thread old (\<lambda>x. x\<lparr>irq_disable_counter := cpu_irq_disable_counter s,
                       saved_interrupt_enabled := cpu_saved_interrupt_enabled s\<rparr>) s;
             Some (s\<lparr>cpu_irq_disable_counter := irq_disable_counter (threads s t),
                     cpu_saved_interrupt_enabled := saved_interrupt_enabled (threads s t)\<rparr>) })"

text \<open>
  The boolean of the result is true when the call has come back (on this or another stack) and
  false when the CPU is in the idle loop.
\<close>

definition SwitchToThread :: "tid option \<Rightarrow> kstate \<Rightarrow> (bool \<times> kstate) option" where
  "SwitchToThread th s =
     (if \<not> sched_init s then Some (True, s)
      else if interrupts s \<or> sched_prevent_count s > 0 \<or> \<not> locks s SchedLock then None
      else if state (threads s (current_thread s)) = THREAD_STATE_RUNNING \<and>
              ready_list_head s = None \<and> th = None then Some (True, s)
      else
        do { let s = (if state (threads s (current_thread s)) = THREAD_STATE_RUNNING
                      then AddToBackOfReadyQueue (current_thread s) s else s);
             case th of
               None \<Rightarrow>
                 do { (th, s) \<leftarrow> FindNextThread s;
                      case th of
                        None \<Rightarrow>
                          (if state (threads s (current_thread s)) \<noteq> THREAD_STATE_BLOCKED then None
                           else
                             do { s \<leftarrow> IdlePark (upd_thread (current_thread s) (\<lambda>x. x\<lparr>idling := True\<rparr>) s);
                                  Some (False, s) })
                      | Some t \<Rightarrow> do { s \<leftarrow> FinishSwitch True t s; Some (True, s) } }
             | Some t \<Rightarrow>
                 (if \<not> CanThreadRunOnThisCpu t s then None
                  else do { s \<leftarrow> FinishSwitch False t s; Some (True, s) }) })"

text \<open>The end of \<open>ReleaseScheduler\<close>, on the stack the switch returned to.\<close>

definition ReleaseTail :: "kstate \<Rightarrow> kstate option" where
  "ReleaseTail s = do { s \<leftarrow> ReleaseSpinlock SchedLock s; ReleaseIrqPrevent s }"

definition ReleaseScheduler :: "kstate \<Rightarrow> kstate option" where
  "ReleaseScheduler s =
     (if interrupts s then None
      else
        do { s \<leftarrow> AcquireSpinlock SchedLock s;
             let s = s\<lparr>sched_prevent_count := sched_prevent_count s - 1\<rparr>;
             (back, s) \<leftarrow>
               (if sched_prevent_count s = 0 \<and> sched_postponed s then
                  (let th = sched_postponed_thr s;
                       s = s\<lparr>sched_postponed := False, sched_postponed_thr := None\<rparr>
                   in if IsCurrentThreadIdling s then
                        (case th of
                           None \<Rightarrow> Some (True, s)
                         | Some t \<Rightarrow>
                             (let s = AddToBackOfReadyQueue t s
                              in Some (True, s\<lparr>something_unblocked_seq := something_unblocked_seq s + 1\<rparr>)))
                      else SwitchToThread th s)
                else Some (True, s));
             if back then ReleaseTail s else Some s })"

text \<open>
  The idle loop after an interrupt has woken \<open>ArchIdle\<close>. While \<open>something_unblocked_seq\<close> has not
  moved the inner loop goes on; otherwise the loop either parks again or leaves with a thread.
\<close>

definition IdleWake :: "kstate \<Rightarrow> kstate option" where
  "IdleWake s =
     (case cpu_phase s of
        Executing \<Rightarrow> None
      | Parked og_seq \<Rightarrow>
          if something_unblocked_seq s = og_seq then Some s
          else
            (let idler = current_thread s;
                 leave = (\<lambda>t s. do { let s = upd_thread idler (\<lambda>x. x\<lparr>idling := False\<rparr>)
                                            (s\<lparr>cpu_phase := Executing\<rparr>);
                                  s \<leftarrow> FinishSwitch True t s;
                                  ReleaseTail s })
             in do { s \<leftarrow> AcquireSpinlock SchedLock (s\<lparr>interrupts := False\<rparr>);
                     if state (threads s idler) = THREAD_STATE_READY then leave idler s
                     else
                       do { (th, s) \<leftarrow> FindNextThread s;
                            case th of
                              None \<Rightarrow> IdlePark s
                            | Some t \<Rightarrow> leave t s } }))"

text \<open>The first code a new thread runs. It replicates the end of \<open>ReleaseScheduler\<close>.\<close>

definition BeginNewThread :: "kstate \<Rightarrow> kstate option" where
  "BeginNewThread s =
     (let zero = sched_prevent_count s = 0
      in do { s \<leftarrow> ReleaseSpinlock SchedLock s;
              if zero then ReleaseIrqPrevent s else None })"

section \<open>Blocking and unblocking\<close>

definition Schedule :: "kstate \<Rightarrow> kstate option" where
  "Schedule s = do { s \<leftarrow> AcquireScheduler s; ReleaseScheduler (s\<lparr>sched_postponed := True\<rparr>) }"

definition BlockThread :: "kstate \<Rightarrow> kstate option" where
  "BlockThread s =
     Schedule (upd_thread (current_thread s)
       (\<lambda>x. x\<lparr>state := THREAD_STATE_BLOCKED, block_return_val := 0\<rparr>) s)"

definition ShouldPreempt :: "tid \<Rightarrow> kstate \<Rightarrow> bool" where
  "ShouldPreempt t s \<longleftrightarrow>
     sched_init s \<and> state (threads s (current_thread s)) = THREAD_STATE_RUNNING \<and>
     CanThreadRunOnThisCpu t s \<and>
     (ready_list_head s = None \<or> priority (threads s t) < priority (threads s (current_thread s)))"

text \<open>The last part of \<open>UnblockThread\<close>: \<open>t\<close> is ready and is put where it belongs.\<close>

definition make_runnable :: "tid \<Rightarrow> kstate \<Rightarrow> kstate" where
  "make_runnable t s =
     (if idling (threads s t) then s
      else if ShouldPreempt t s then
        (let s = s\<lparr>sched_postponed := True\<rparr>
         in case sched_postponed_thr s of
              None \<Rightarrow> s\<lparr>sched_postponed_thr := Some t\<rparr>
            | Some p \<Rightarrow>
                if priority (threads s t) < priority (threads s p)
                then (AddToBackOfReadyQueue p s)\<lparr>sched_postponed_thr := Some t\<rparr>
                else AddToBackOfReadyQueue t s)
      else AddToBackOfReadyQueue t s)"

definition UnblockThread :: "tid \<Rightarrow> int \<Rightarrow> kstate \<Rightarrow> kstate option" where
  "UnblockThread t retv s =
     do { s \<leftarrow> (if waiting_sem_or_clot (threads s t) \<noteq> None then CancelSems t s else Some s);
          s \<leftarrow> (if wakeup_time_ns (threads s t) \<noteq> 0 then CancelTimer t s else Some s);
          let s = make_runnable t (upd_thread t (\<lambda>x. x\<lparr>block_return_val := retv, next_ready := None,
                    state := THREAD_STATE_READY\<rparr>) s);
          Some (s\<lparr>something_unblocked_seq := something_unblocked_seq s + 1\<rparr>) }"

text \<open>
  \<open>CreateThreadEx\<close>, as far as scheduling goes: \<open>t\<close> is the freshly allocated thread. The stacks and
  the entry point (\<open>ArchSetupNewThreadEntry\<close>) belong to the memory manager and the architecture.
\<close>

definition CreateThreadEx :: "tid \<Rightarrow> kstate \<Rightarrow> kstate option" where
  "CreateThreadEx t s =
     do { let s = upd_thread t (\<lambda>x. x\<lparr>next_ready := None, next_waiting_timer := None,
                    next_waiting_sem := None, waiting_sem_or_clot := None, priority := 128,
                    block_return_val := 0, wakeup_time_ns := 0, affinity_bitmask := - 1,
                    idling := False, irq_disable_counter := 2, saved_interrupt_enabled := True\<rparr>) s;
          s \<leftarrow> AcquireScheduler s;
          s \<leftarrow> UnblockThread t 0 s;
          ReleaseScheduler s }"

definition SetThreadPriority :: "tid \<Rightarrow> u8 \<Rightarrow> kstate \<Rightarrow> kstate option" where
  "SetThreadPriority t p s =
     do { s \<leftarrow> AcquireScheduler s;
          ReleaseScheduler (upd_thread t (\<lambda>x. x\<lparr>priority := p\<rparr>) s) }"

definition GetThreadPriority :: "tid \<Rightarrow> kstate \<Rightarrow> (u8 \<times> kstate) option" where
  "GetThreadPriority t s =
     do { s \<leftarrow> AcquireScheduler s;
          let retv = priority (threads s t);
          s \<leftarrow> ReleaseScheduler s;
          Some (retv, s) }"

end
