(* ===== verification/SchedInv.thy ===== *)
theory SchedInv
  imports Scheduler
begin

text \<open>
  The invariant of the scheduler: where every thread is, and that every operation keeps it.
\<close>

section \<open>What an operation can see of a state\<close>

lemma thread_eq_fields:
  assumes "(x :: thread)\<lparr>next_waiting_sem := None, waiting_sem_or_clot := None\<rparr> =
    y\<lparr>next_waiting_sem := None, waiting_sem_or_clot := None\<rparr>"
  shows "state x = state y" "priority x = priority y" "idling x = idling y"
    "block_return_val x = block_return_val y" "next_ready x = next_ready y"
    "next_waiting_timer x = next_waiting_timer y" "wakeup_time_ns x = wakeup_time_ns y"
    "affinity_bitmask x = affinity_bitmask y" "irq_disable_counter x = irq_disable_counter y"
    "saved_interrupt_enabled x = saved_interrupt_enabled y"
  using assms by (cases x; cases y; simp)+

lemma thread_eq_fields':
  assumes "(x :: thread)\<lparr>next_waiting_timer := None, wakeup_time_ns := 0\<rparr> =
    y\<lparr>next_waiting_timer := None, wakeup_time_ns := 0\<rparr>"
  shows "state x = state y" "priority x = priority y" "idling x = idling y"
    "block_return_val x = block_return_val y" "next_ready x = next_ready y"
    "next_waiting_sem x = next_waiting_sem y" "waiting_sem_or_clot x = waiting_sem_or_clot y"
    "affinity_bitmask x = affinity_bitmask y" "irq_disable_counter x = irq_disable_counter y"
    "saved_interrupt_enabled x = saved_interrupt_enabled y"
  using assms by (cases x; cases y; simp)+

text \<open>The globals of the scheduler, the locks and the CPU.\<close>

definition same_globals :: "kstate \<Rightarrow> kstate \<Rightarrow> bool" where
  "same_globals s s' \<longleftrightarrow>
     current_thread s' = current_thread s \<and> sched_init s' = sched_init s \<and>
     sched_prevent_count s' = sched_prevent_count s \<and> ns_since_boot s' = ns_since_boot s \<and>
     locks s' = locks s \<and> interrupts s' = interrupts s \<and>
     cpu_irq_disable_counter s' = cpu_irq_disable_counter s \<and>
     cpu_saved_interrupt_enabled s' = cpu_saved_interrupt_enabled s \<and>
     cpu_num s' = cpu_num s \<and> cpu_phase s' = cpu_phase s \<and>
     last_task_switch_time s' = last_task_switch_time s"

definition same_sched :: "kstate \<Rightarrow> kstate \<Rightarrow> bool" where
  "same_sched s s' \<longleftrightarrow>
     sched_postponed s' = sched_postponed s \<and> sched_postponed_thr s' = sched_postponed_thr s \<and>
     ready_list_head s' = ready_list_head s \<and> ready_list_tail s' = ready_list_tail s \<and>
     something_unblocked_seq s' = something_unblocked_seq s"

lemma sem_frame_fields:
  assumes "sem_frame t s s'"
  shows "same_globals s s'" "same_sched s s'" "first_waiting_timer s' = first_waiting_timer s"
    "next_wakeup_ns s' = next_wakeup_ns s"
proof -
  have "s'\<lparr>threads := threads s, sems := sems s, clots := clots s\<rparr> = s"
    using assms by (simp add: sem_frame_def)
  then show "same_globals s s'" "same_sched s s'" "first_waiting_timer s' = first_waiting_timer s"
    "next_wakeup_ns s' = next_wakeup_ns s"
    by (cases s; cases s'; simp add: same_globals_def same_sched_def)+
qed

lemma sem_frame_threads:
  assumes "sem_frame t s s'"
  shows "state (threads s' x) = state (threads s x)" "priority (threads s' x) = priority (threads s x)"
    "idling (threads s' x) = idling (threads s x)"
    "block_return_val (threads s' x) = block_return_val (threads s x)"
    "next_ready (threads s' x) = next_ready (threads s x)"
    "next_waiting_timer (threads s' x) = next_waiting_timer (threads s x)"
    "wakeup_time_ns (threads s' x) = wakeup_time_ns (threads s x)"
    "affinity_bitmask (threads s' x) = affinity_bitmask (threads s x)"
    "irq_disable_counter (threads s' x) = irq_disable_counter (threads s x)"
    "saved_interrupt_enabled (threads s' x) = saved_interrupt_enabled (threads s x)"
    "x \<noteq> t \<Longrightarrow> waiting_sem_or_clot (threads s' x) = waiting_sem_or_clot (threads s x)"
    "x \<noteq> t \<Longrightarrow> wait_set s' x = wait_set s x"
    "count (sems s' q) = count (sems s q)" "smax (sems s' q) = smax (sems s q)"
  using assms thread_eq_fields [of "threads s' x" "threads s x"] by (simp_all add: sem_frame_def)

lemma timer_frame_fields:
  assumes "timer_frame t s s'"
  shows "same_globals s s'" "same_sched s s'" "sems s' = sems s" "clots s' = clots s"
proof -
  have "s'\<lparr>threads := threads s, first_waiting_timer := first_waiting_timer s,
      next_wakeup_ns := next_wakeup_ns s\<rparr> = s"
    using assms by (simp add: timer_frame_def)
  then show "same_globals s s'" "same_sched s s'" "sems s' = sems s" "clots s' = clots s"
    by (cases s; cases s'; simp add: same_globals_def same_sched_def)+
qed

lemma timer_frame_threads:
  assumes "timer_frame t s s'"
  shows "state (threads s' x) = state (threads s x)" "priority (threads s' x) = priority (threads s x)"
    "idling (threads s' x) = idling (threads s x)"
    "block_return_val (threads s' x) = block_return_val (threads s x)"
    "next_ready (threads s' x) = next_ready (threads s x)"
    "next_waiting_sem (threads s' x) = next_waiting_sem (threads s x)"
    "waiting_sem_or_clot (threads s' x) = waiting_sem_or_clot (threads s x)"
    "affinity_bitmask (threads s' x) = affinity_bitmask (threads s x)"
    "irq_disable_counter (threads s' x) = irq_disable_counter (threads s x)"
    "saved_interrupt_enabled (threads s' x) = saved_interrupt_enabled (threads s x)"
    "x \<noteq> t \<Longrightarrow> wakeup_time_ns (threads s' x) = wakeup_time_ns (threads s x)"
  using assms thread_eq_fields' [of "threads s' x" "threads s x"] by (simp_all add: timer_frame_def)

text \<open>The three list abstractions each depend on their own links only.\<close>

lemma ready_queue_cong:
  assumes "\<And>t. next_ready (threads s' t) = next_ready (threads s t)"
    "ready_list_head s' = ready_list_head s" "ready_list_tail s' = ready_list_tail s"
  shows "ready_queue s' R = ready_queue s R"
  using assms by (simp add: ready_queue_def)

lemma timer_chain_cong:
  assumes "\<And>t. next_waiting_timer (threads s' t) = next_waiting_timer (threads s t)"
    "\<And>t. wake s' t = wake s t" "first_waiting_timer s' = first_waiting_timer s"
  shows "timer_chain s' T = timer_chain s T"
  using assms by (simp add: timer_chain_def)

lemma sem_queues_cong:
  assumes w: "\<And>t. waiting_sem_or_clot (threads s' t) = waiting_sem_or_clot (threads s t)"
    and n: "\<And>t. next_waiting_sem (threads s' t) = next_waiting_sem (threads s t)"
    and s: "\<And>q. waiting_list_start (sems s' q) = waiting_list_start (sems s q)"
      "\<And>q. waiting_list_end (sems s' q) = waiting_list_end (sems s q)"
    and c: "clots s' = clots s"
  shows "sem_queues s' W = sem_queues s W"
proof -
  have "owner s' = owner s" by (simp add: owner_def c fun_eq_iff split: waiter.split)
  moreover have "waits s' = waits s" by (simp add: waits_def w c fun_eq_iff split: waiter.split)
  moreover have "the_next s' = the_next s"
    by (simp add: the_next_def read_next_def n c fun_eq_iff split: waiter.split)
  moreover have "clots_ok s' = clots_ok s" by (simp add: clots_ok_def w c)
  ultimately show ?thesis
    by (simp add: sem_queues_def semq_def lists_ok_def sem_chain_def s)
qed

lemma wait_set_cong:
  assumes "waiting_sem_or_clot (threads s' t) = waiting_sem_or_clot (threads s t)" "clots s' = clots s"
  shows "wait_set s' t = wait_set s t"
  using assms by (simp add: wait_set_def split: option.split waiting_on.split)

section \<open>The invariant\<close>

text \<open>
  \<open>placed R s\<close>: \<open>R\<close> is the ready queue. A ready thread is on it, or is the thread a switch has been
  postponed to, or idles the CPU; only the current thread runs or idles; the saved interrupt
  nesting of a thread is that of the end of \<open>ReleaseScheduler\<close>, and is far from overflowing.
\<close>

definition placed :: "tid list \<Rightarrow> kstate \<Rightarrow> bool" where
  "placed R s \<longleftrightarrow> ready_queue s R \<and> sched_init s \<and> current_thread s \<notin> set R \<and>
     CanThreadRunOnThisCpu (current_thread s) s \<and>
     (\<forall>t\<in>set R. state (threads s t) = THREAD_STATE_READY) \<and>
     (\<forall>t. state (threads s t) = THREAD_STATE_READY \<longrightarrow>
        t \<in> set R \<or> sched_postponed_thr s = Some t \<or> t = current_thread s \<and> idling (threads s t)) \<and>
     (\<forall>t. state (threads s t) = THREAD_STATE_RUNNING \<longrightarrow> t = current_thread s) \<and>
     (\<forall>t. idling (threads s t) \<longrightarrow> t = current_thread s) \<and>
     (\<forall>p. sched_postponed_thr s = Some p \<longrightarrow> state (threads s p) = THREAD_STATE_READY \<and>
        p \<notin> set R \<and> p \<noteq> current_thread s \<and> CanThreadRunOnThisCpu p s \<and> sched_postponed s) \<and>
     (\<forall>t. 2 \<le> unat (irq_disable_counter (threads s t)) \<and>
        unat (irq_disable_counter (threads s t)) \<le> 2 ^ 31)"

lemma placedD:
  assumes "placed R s"
  shows "ready_queue s R" "sched_init s" "current_thread s \<notin> set R"
    "CanThreadRunOnThisCpu (current_thread s) s"
    "t \<in> set R \<Longrightarrow> state (threads s t) = THREAD_STATE_READY"
    "state (threads s t) = THREAD_STATE_READY \<Longrightarrow>
       t \<in> set R \<or> sched_postponed_thr s = Some t \<or> t = current_thread s \<and> idling (threads s t)"
    "state (threads s t) = THREAD_STATE_RUNNING \<Longrightarrow> t = current_thread s"
    "idling (threads s t) \<Longrightarrow> t = current_thread s"
    "sched_postponed_thr s = Some p \<Longrightarrow> state (threads s p) = THREAD_STATE_READY \<and>
       p \<notin> set R \<and> p \<noteq> current_thread s \<and> CanThreadRunOnThisCpu p s \<and> sched_postponed s"
    "2 \<le> unat (irq_disable_counter (threads s t))" "unat (irq_disable_counter (threads s t)) \<le> 2 ^ 31"
  using assms unfolding placed_def by blast+

lemma placedI:
  assumes "ready_queue s R" "sched_init s" "current_thread s \<notin> set R"
    "CanThreadRunOnThisCpu (current_thread s) s"
    "\<And>t. t \<in> set R \<Longrightarrow> state (threads s t) = THREAD_STATE_READY"
    "\<And>t. state (threads s t) = THREAD_STATE_READY \<Longrightarrow>
       t \<in> set R \<or> sched_postponed_thr s = Some t \<or> t = current_thread s \<and> idling (threads s t)"
    "\<And>t. state (threads s t) = THREAD_STATE_RUNNING \<Longrightarrow> t = current_thread s"
    "\<And>t. idling (threads s t) \<Longrightarrow> t = current_thread s"
    "\<And>p. sched_postponed_thr s = Some p \<Longrightarrow> state (threads s p) = THREAD_STATE_READY \<and>
       p \<notin> set R \<and> p \<noteq> current_thread s \<and> CanThreadRunOnThisCpu p s \<and> sched_postponed s"
    "\<And>t. 2 \<le> unat (irq_disable_counter (threads s t)) \<and>
       unat (irq_disable_counter (threads s t)) \<le> 2 ^ 31"
  shows "placed R s"
  unfolding placed_def
proof (intro conjI allI ballI impI assms(1-4))
  fix t
  show "2 \<le> unat (irq_disable_counter (threads s t))"
    "unat (irq_disable_counter (threads s t)) \<le> 2 ^ 31"
    using assms(10) by blast+
qed (use assms(5-9) in blast)+

definition waiting :: "kstate \<Rightarrow> tid \<Rightarrow> bool" where
  "waiting s t \<longleftrightarrow> waiting_sem_or_clot (threads s t) \<noteq> None \<or> wake s t \<noteq> 0"

text \<open>Everything about threads and lists; the current thread may be about to block.\<close>

definition kcore :: "tid list \<Rightarrow> (sid \<Rightarrow> tid list) \<Rightarrow> tid list \<Rightarrow> kstate \<Rightarrow> bool" where
  "kcore R W T s \<longleftrightarrow> placed R s \<and> sem_queues s W \<and> timer_chain s T \<and>
     (\<forall>t. t \<noteq> current_thread s \<and> waiting s t \<longrightarrow> state (threads s t) = THREAD_STATE_BLOCKED)"

text \<open>The list \<open>R\<close> after a thread \<open>t\<close> has been made runnable.\<close>

definition unblocked_queue :: "tid \<Rightarrow> kstate \<Rightarrow> tid list \<Rightarrow> tid list" where
  "unblocked_queue t s R =
     (if idling (threads s t) then R
      else if ShouldPreempt t s then
        (case sched_postponed_thr s of
           None \<Rightarrow> R
         | Some p \<Rightarrow> if priority (threads s t) < priority (threads s p) then R @ [p] else R @ [t])
      else R @ [t])"

lemma AddToBack_more [simp]:
  "irq_disable_counter (threads (AddToBackOfReadyQueue t s) u) = irq_disable_counter (threads s u)"
  "saved_interrupt_enabled (threads (AddToBackOfReadyQueue t s) u) = saved_interrupt_enabled (threads s u)"
  "last_task_switch_time (AddToBackOfReadyQueue t s) = last_task_switch_time s"
  by (auto simp: AddToBackOfReadyQueue_def Let_def split: option.splits)

lemmas [simp] = AddToBack_frame

lemma AddToBack_can [simp]:
  "CanThreadRunOnThisCpu u (AddToBackOfReadyQueue t s) = CanThreadRunOnThisCpu u s"
  by (simp add: CanThreadRunOnThisCpu_def)

lemma ready_queue_simps [simp]:
  "ready_queue (s\<lparr>sched_postponed := b\<rparr>) R = ready_queue s R"
  "ready_queue (s\<lparr>sched_postponed_thr := p\<rparr>) R = ready_queue s R"
  "ready_queue (s\<lparr>something_unblocked_seq := q\<rparr>) R = ready_queue s R"
  "ready_queue (s\<lparr>sched_prevent_count := n\<rparr>) R = ready_queue s R"
  "ready_queue (s\<lparr>locks := l\<rparr>) R = ready_queue s R"
  "ready_queue (s\<lparr>interrupts := i\<rparr>) R = ready_queue s R"
  "ready_queue (s\<lparr>cpu_irq_disable_counter := c\<rparr>) R = ready_queue s R"
  "ready_queue (s\<lparr>cpu_saved_interrupt_enabled := e\<rparr>) R = ready_queue s R"
  "ready_queue (s\<lparr>cpu_phase := ph\<rparr>) R = ready_queue s R"
  "ready_queue (s\<lparr>current_thread := t\<rparr>) R = ready_queue s R"
  "ready_queue (s\<lparr>last_task_switch_time := tm\<rparr>) R = ready_queue s R"
  by (simp_all add: ready_queue_def)

lemma can_simps [simp]:
  "CanThreadRunOnThisCpu t (s\<lparr>sched_postponed := b\<rparr>) = CanThreadRunOnThisCpu t s"
  "CanThreadRunOnThisCpu t (s\<lparr>sched_postponed_thr := p\<rparr>) = CanThreadRunOnThisCpu t s"
  "CanThreadRunOnThisCpu t (s\<lparr>something_unblocked_seq := q\<rparr>) = CanThreadRunOnThisCpu t s"
  "CanThreadRunOnThisCpu t (s\<lparr>sched_prevent_count := n\<rparr>) = CanThreadRunOnThisCpu t s"
  "CanThreadRunOnThisCpu t (s\<lparr>locks := l\<rparr>) = CanThreadRunOnThisCpu t s"
  "CanThreadRunOnThisCpu t (s\<lparr>interrupts := i\<rparr>) = CanThreadRunOnThisCpu t s"
  "CanThreadRunOnThisCpu t (s\<lparr>cpu_irq_disable_counter := c\<rparr>) = CanThreadRunOnThisCpu t s"
  "CanThreadRunOnThisCpu t (s\<lparr>cpu_saved_interrupt_enabled := e\<rparr>) = CanThreadRunOnThisCpu t s"
  "CanThreadRunOnThisCpu t (s\<lparr>cpu_phase := ph\<rparr>) = CanThreadRunOnThisCpu t s"
  "CanThreadRunOnThisCpu t (s\<lparr>current_thread := c2\<rparr>) = CanThreadRunOnThisCpu t s"
  "CanThreadRunOnThisCpu t (s\<lparr>last_task_switch_time := tm\<rparr>) = CanThreadRunOnThisCpu t s"
  by (simp_all add: CanThreadRunOnThisCpu_def)

text \<open>
  \<open>pre_placed t R s\<close>: as \<open>placed\<close>, except that \<open>t\<close>, which is ready, has no place yet.
\<close>

definition pre_placed :: "tid \<Rightarrow> tid list \<Rightarrow> kstate \<Rightarrow> bool" where
  "pre_placed t R s \<longleftrightarrow> ready_queue s R \<and> sched_init s \<and> current_thread s \<notin> set R \<and>
     CanThreadRunOnThisCpu (current_thread s) s \<and>
     t \<notin> set R \<and> sched_postponed_thr s \<noteq> Some t \<and> (t = current_thread s \<longrightarrow> idling (threads s t)) \<and>
     state (threads s t) = THREAD_STATE_READY \<and>
     (\<forall>t\<in>set R. state (threads s t) = THREAD_STATE_READY) \<and>
     (\<forall>u. u \<noteq> t \<and> state (threads s u) = THREAD_STATE_READY \<longrightarrow>
        u \<in> set R \<or> sched_postponed_thr s = Some u \<or> u = current_thread s \<and> idling (threads s u)) \<and>
     (\<forall>t. state (threads s t) = THREAD_STATE_RUNNING \<longrightarrow> t = current_thread s) \<and>
     (\<forall>t. idling (threads s t) \<longrightarrow> t = current_thread s) \<and>
     (\<forall>p. sched_postponed_thr s = Some p \<longrightarrow> state (threads s p) = THREAD_STATE_READY \<and>
        p \<notin> set R \<and> p \<noteq> current_thread s \<and> CanThreadRunOnThisCpu p s \<and> sched_postponed s) \<and>
     (\<forall>t. 2 \<le> unat (irq_disable_counter (threads s t)) \<and>
        unat (irq_disable_counter (threads s t)) \<le> 2 ^ 31)"

lemma make_runnable_placed:
  assumes "pre_placed t R s"
  shows "placed (unblocked_queue t s R) (make_runnable t s)"
proof -
  have rq: "ready_queue s R" and init: "sched_init s" and cur: "current_thread s \<notin> set R"
    and can: "CanThreadRunOnThisCpu (current_thread s) s"
    and t: "t \<notin> set R" "sched_postponed_thr s \<noteq> Some t" "t = current_thread s \<longrightarrow> idling (threads s t)"
      "state (threads s t) = THREAD_STATE_READY"
    and RR: "\<And>t. t \<in> set R \<Longrightarrow> state (threads s t) = THREAD_STATE_READY"
    and rest: "\<And>u. \<lbrakk>u \<noteq> t; state (threads s u) = THREAD_STATE_READY\<rbrakk> \<Longrightarrow>
        u \<in> set R \<or> sched_postponed_thr s = Some u \<or> u = current_thread s \<and> idling (threads s u)"
    and run: "\<And>t. state (threads s t) = THREAD_STATE_RUNNING \<Longrightarrow> t = current_thread s"
    and idl: "\<And>t. idling (threads s t) \<Longrightarrow> t = current_thread s"
    and pp: "\<And>p. sched_postponed_thr s = Some p \<Longrightarrow> state (threads s p) = THREAD_STATE_READY \<and>
        p \<notin> set R \<and> p \<noteq> current_thread s \<and> CanThreadRunOnThisCpu p s \<and> sched_postponed s"
    and irq: "\<And>t. 2 \<le> unat (irq_disable_counter (threads s t)) \<and>
        unat (irq_disable_counter (threads s t)) \<le> 2 ^ 31"
    using assms unfolding pre_placed_def by blast+
  consider (idle) "idling (threads s t)"
    | (direct) "\<not> idling (threads s t)" "ShouldPreempt t s" "sched_postponed_thr s = None"
    | (swap) q where "\<not> idling (threads s t)" "ShouldPreempt t s" "sched_postponed_thr s = Some q"
        "priority (threads s t) < priority (threads s q)"
    | (behind) q where "\<not> idling (threads s t)" "ShouldPreempt t s" "sched_postponed_thr s = Some q"
        "\<not> priority (threads s t) < priority (threads s q)"
    | (queue) "\<not> idling (threads s t)" "\<not> ShouldPreempt t s"
    by fastforce
  then show ?thesis
  proof cases
    case idle
    have "t = current_thread s" using idl idle by blast
    then show ?thesis using idle rq init cur can RR rest run idl pp irq
      by (simp add: unblocked_queue_def make_runnable_def placed_def) metis
  next
    case direct
    have "t \<noteq> current_thread s" "CanThreadRunOnThisCpu t s" using direct t by (auto simp: ShouldPreempt_def)
    then show ?thesis using direct rq init cur can RR rest run idl irq t
      by (simp add: unblocked_queue_def make_runnable_def placed_def Let_def) metis
  next
    case swap
    note q = pp [OF swap(3)]
    have tc: "t \<noteq> current_thread s" "CanThreadRunOnThisCpu t s" "t \<noteq> q"
      using swap t by (auto simp: ShouldPreempt_def)
    have rq': "ready_queue (AddToBackOfReadyQueue q (s\<lparr>sched_postponed := True\<rparr>)) (R @ [q])"
      using rq q by (intro AddToBack_queue) simp_all
    show ?thesis using swap rq' init cur can RR rest run idl irq t q tc
      by (simp add: unblocked_queue_def make_runnable_def placed_def Let_def) metis
  next
    case behind
    note q = pp [OF behind(3)]
    have tc: "t \<noteq> current_thread s" using behind t by blast
    have rq': "ready_queue (AddToBackOfReadyQueue t (s\<lparr>sched_postponed := True\<rparr>)) (R @ [t])"
      using rq t by (intro AddToBack_queue) simp_all
    show ?thesis using behind rq' init cur can RR rest run idl irq t q tc
      by (simp add: unblocked_queue_def make_runnable_def placed_def Let_def)
  next
    case queue
    have tc: "t \<noteq> current_thread s" using queue t by blast
    have rq': "ready_queue (AddToBackOfReadyQueue t s) (R @ [t])"
      using rq t by (intro AddToBack_queue) simp_all
    show ?thesis using queue rq' init cur can RR rest run idl irq t pp tc
      by (simp add: unblocked_queue_def make_runnable_def placed_def Let_def)
  qed
qed

lemma make_runnable_frame [simp]:
  "sems (make_runnable t s) = sems s" "clots (make_runnable t s) = clots s"
  "next_waiting_sem (threads (make_runnable t s) u) = next_waiting_sem (threads s u)"
  "waiting_sem_or_clot (threads (make_runnable t s) u) = waiting_sem_or_clot (threads s u)"
  "next_waiting_timer (threads (make_runnable t s) u) = next_waiting_timer (threads s u)"
  "wakeup_time_ns (threads (make_runnable t s) u) = wakeup_time_ns (threads s u)"
  "block_return_val (threads (make_runnable t s) u) = block_return_val (threads s u)"
  "priority (threads (make_runnable t s) u) = priority (threads s u)"
  "idling (threads (make_runnable t s) u) = idling (threads s u)"
  "irq_disable_counter (threads (make_runnable t s) u) = irq_disable_counter (threads s u)"
  "saved_interrupt_enabled (threads (make_runnable t s) u) = saved_interrupt_enabled (threads s u)"
  "affinity_bitmask (threads (make_runnable t s) u) = affinity_bitmask (threads s u)"
  "first_waiting_timer (make_runnable t s) = first_waiting_timer s"
  "next_wakeup_ns (make_runnable t s) = next_wakeup_ns s"
  "something_unblocked_seq (make_runnable t s) = something_unblocked_seq s"
  by (auto simp: make_runnable_def Let_def split: option.splits)

lemma make_runnable_globals: "same_globals s (make_runnable t s)"
  by (auto simp: make_runnable_def Let_def same_globals_def split: option.splits)

text \<open>What \<open>UnblockThread\<close> leaves as it was: all but the placement of \<open>t\<close>.\<close>

definition others_same :: "tid \<Rightarrow> kstate \<Rightarrow> kstate \<Rightarrow> bool" where
  "others_same t s s' \<longleftrightarrow>
     (\<forall>u. priority (threads s' u) = priority (threads s u) \<and>
          affinity_bitmask (threads s' u) = affinity_bitmask (threads s u) \<and>
          idling (threads s' u) = idling (threads s u) \<and>
          irq_disable_counter (threads s' u) = irq_disable_counter (threads s u) \<and>
          saved_interrupt_enabled (threads s' u) = saved_interrupt_enabled (threads s u)) \<and>
     (\<forall>u. u \<noteq> t \<longrightarrow> state (threads s' u) = state (threads s u) \<and>
          block_return_val (threads s' u) = block_return_val (threads s u) \<and>
          waiting_sem_or_clot (threads s' u) = waiting_sem_or_clot (threads s u) \<and>
          wait_set s' u = wait_set s u \<and> wake s' u = wake s u) \<and>
     (\<forall>q. count (sems s' q) = count (sems s q) \<and> smax (sems s' q) = smax (sems s q))"

lemma cancel_waits:
  assumes "sem_queues s W"
  shows "\<exists>s1. (if waiting_sem_or_clot (threads s t) \<noteq> None then CancelSems t s else Some s) = Some s1 \<and>
    sem_queues s1 (\<lambda>q. filter (\<lambda>x. x \<noteq> t) (W q)) \<and> sem_frame t s s1 \<and>
    waiting_sem_or_clot (threads s1 t) = None"
proof (cases "waiting_sem_or_clot (threads s t) = None")
  case True
  then have "wait_set s t = []" by (simp add: wait_set_def)
  then have "t \<notin> set (W q)" for q using sem_queues_mem [OF assms] by simp
  then have "(\<lambda>q. filter (\<lambda>x. x \<noteq> t) (W q)) = W" by (intro ext filter_True) metis
  moreover have "sem_frame t s s" by (simp add: sem_frame_def)
  ultimately show ?thesis using True assms by simp
next
  case False
  then show ?thesis using CancelSems_spec [OF assms False] by simp
qed

lemma cancel_timer:
  assumes T: "timer_chain s T"
    and w: "wake s t \<noteq> 0 \<Longrightarrow> timers s T \<and> held s \<and> \<not> locks s TimerLock"
  shows "\<exists>s1. (if wake s t \<noteq> 0 then CancelTimer t s else Some s) = Some s1 \<and>
    timer_chain s1 (filter (\<lambda>x. x \<noteq> t) T) \<and> timer_frame t s s1 \<and> wake s1 t = 0 \<and>
    (if wake s t = 0 then next_wakeup_ns s1 = next_wakeup_ns s else timers s1 (filter (\<lambda>x. x \<noteq> t) T))"
proof (cases "wake s t = 0")
  case True
  then have "t \<notin> set T" using T by (simp add: timer_chain_def)
  then have "filter (\<lambda>x. x \<noteq> t) T = T" by (intro filter_True) auto
  moreover have "timer_frame t s s" by (simp add: timer_frame_def)
  ultimately show ?thesis using True T by simp
next
  case False
  then show ?thesis using CancelTimer_spec [of s T t] w by (auto simp: timers_def)
qed

lemma unblocked_queue_cong:
  assumes "\<And>u. idling (threads s' u) = idling (threads s u)"
    "\<And>u. priority (threads s' u) = priority (threads s u)"
    "\<And>u. affinity_bitmask (threads s' u) = affinity_bitmask (threads s u)"
    "state (threads s' (current_thread s)) = state (threads s (current_thread s)) \<or> idling (threads s t)"
    "same_globals s s'" "same_sched s s'"
  shows "unblocked_queue t s' R = unblocked_queue t s R"
proof -
  have "ShouldPreempt t s' = ShouldPreempt t s" if "\<not> idling (threads s t)"
    using assms that by (simp add: ShouldPreempt_def CanThreadRunOnThisCpu_def same_globals_def same_sched_def)
  then show ?thesis
    using assms by (simp add: unblocked_queue_def same_sched_def split: option.split)
qed

lemma UnblockThread_spec:
  assumes k: "kcore R W T s" and t: "state (threads s t) = THREAD_STATE_BLOCKED"
    "t = current_thread s \<longrightarrow> idling (threads s t)"
    and w: "wake s t \<noteq> 0 \<Longrightarrow> timers s T \<and> held s \<and> \<not> locks s TimerLock"
  shows "\<exists>s'. UnblockThread t r s = Some s' \<and>
    kcore (unblocked_queue t s R) (\<lambda>q. filter (\<lambda>x. x \<noteq> t) (W q)) (filter (\<lambda>x. x \<noteq> t) T) s' \<and>
    same_globals s s' \<and> others_same t s s' \<and>
    state (threads s' t) = THREAD_STATE_READY \<and> block_return_val (threads s' t) = r \<and>
    waiting_sem_or_clot (threads s' t) = None \<and> wake s' t = 0 \<and>
    something_unblocked_seq s' = something_unblocked_seq s + 1 \<and>
    (if wake s t = 0 then next_wakeup_ns s' = next_wakeup_ns s else timers s' (filter (\<lambda>x. x \<noteq> t) T)) \<and>
    (sched_postponed s \<longrightarrow> sched_postponed s')"
proof -
  have pl: "placed R s" and W: "sem_queues s W" and T: "timer_chain s T"
    and wb: "\<And>u. \<lbrakk>u \<noteq> current_thread s; waiting s u\<rbrakk> \<Longrightarrow> state (threads s u) = THREAD_STATE_BLOCKED"
    using k by (auto simp: kcore_def)
  obtain s1 where s1: "(if waiting_sem_or_clot (threads s t) \<noteq> None then CancelSems t s else Some s) = Some s1"
    "sem_queues s1 (\<lambda>q. filter (\<lambda>x. x \<noteq> t) (W q))" "sem_frame t s s1"
    "waiting_sem_or_clot (threads s1 t) = None"
    using cancel_waits [OF W] by blast
  note f1 = sem_frame_fields [OF s1(3)] sem_frame_threads [OF s1(3)]
  note g1 = f1(1) [unfolded same_globals_def] f1(2) [unfolded same_sched_def]
  have T1: "timer_chain s1 T" using T by (subst timer_chain_cong [of s1 s]) (simp_all add: f1)
  have "wake s1 t \<noteq> 0 \<Longrightarrow> timers s1 T \<and> held s1 \<and> \<not> locks s1 TimerLock"
    using w T1 by (auto simp: f1 g1 timers_def held_def room_def split: list.splits)
  from cancel_timer [OF T1 this] obtain s2 where s2:
    "(if wake s1 t \<noteq> 0 then CancelTimer t s1 else Some s1) = Some s2"
    "timer_chain s2 (filter (\<lambda>x. x \<noteq> t) T)" "timer_frame t s1 s2" "wake s2 t = 0"
    "if wake s1 t = 0 then next_wakeup_ns s2 = next_wakeup_ns s1 else timers s2 (filter (\<lambda>x. x \<noteq> t) T)"
    by blast
  note f2 = timer_frame_fields [OF s2(3)] timer_frame_threads [OF s2(3)]
  note g2 = f2(1) [unfolded same_globals_def] f2(2) [unfolded same_sched_def]
  define s3 where "s3 = upd_thread t (\<lambda>x. x\<lparr>block_return_val := r, next_ready := None,
      state := THREAD_STATE_READY\<rparr>) s2"
  define s' where "s' = (make_runnable t s3)\<lparr>something_unblocked_seq := something_unblocked_seq (make_runnable t s3) + 1\<rparr>"
  have run: "UnblockThread t r s = Some s'"
    unfolding UnblockThread_def s1(1) bind.bind_lunit s2(1) Let_def s'_def s3_def ..
  have tR: "t \<notin> set R" "sched_postponed_thr s \<noteq> Some t"
    using placedD(5,9) [OF pl] t(1) by fastforce+
  have "ready_queue s2 R"
    using placedD(1) [OF pl] by (subst ready_queue_cong [of s2 s]) (simp_all add: f1 f2 g1 g2)
  moreover have "chain (\<lambda>u. next_ready (threads s3 u)) p R None \<longleftrightarrow>
      chain (\<lambda>u. next_ready (threads s2 u)) p R None" for p
    using tR by (intro chain_cong) (auto simp: s3_def)
  ultimately have rq3: "ready_queue s3 R" by (simp add: ready_queue_def) (simp add: s3_def)
  have can3: "CanThreadRunOnThisCpu u s3 = CanThreadRunOnThisCpu u s" for u
    by (simp add: CanThreadRunOnThisCpu_def s3_def f1 f2 g1 g2)
  have "pre_placed t R s3"
    using pl t tR rq3 unfolding pre_placed_def placed_def
    by (simp add: can3) (simp add: s3_def f1 f2 g1 g2)
  then have "placed (unblocked_queue t s3 R) (make_runnable t s3)" by (rule make_runnable_placed)
  moreover have "unblocked_queue t s3 R = unblocked_queue t s R"
    using t by (intro unblocked_queue_cong)
      (auto simp: s3_def f1 f2 same_globals_def same_sched_def g1 g2)
  ultimately have pl': "placed (unblocked_queue t s R) s'"
    unfolding s'_def by (simp add: placed_def)
  have gl: "same_globals s s'"
    using make_runnable_globals [of s3 t] by (simp add: s'_def same_globals_def s3_def g1 g2)
  have thr3: "threads s3 u = (if u = t then (threads s2 t)\<lparr>block_return_val := r, next_ready := None,
      state := THREAD_STATE_READY\<rparr> else threads s2 u)" for u by (simp add: s3_def)
  have st: "state (threads s' u) = (if u = t then THREAD_STATE_READY else state (threads s u))" for u
  proof -
    have "state (threads (make_runnable t s3) u) = state (threads s3 u)"
      using placedD(9) [OF pl]
      by (simp add: make_runnable_def thr3 f1 f2 g1 g2 Let_def s3_def split: option.split)
    then show ?thesis by (simp add: s'_def thr3 f1 f2)
  qed
  have clo: "clots s' = clots s1" "sems s' = sems s1" by (simp_all add: s'_def s3_def f2)
  have wc: "waiting_sem_or_clot (threads s' u) = waiting_sem_or_clot (threads s1 u)" for u
    by (simp add: s'_def thr3 f2)
  have ws: "wait_set s' u = wait_set s1 u" for u
    using wc clo(1) by (rule wait_set_cong)
  have wk: "wake s' u = wake s2 u" for u by (simp add: s'_def thr3)
  have wk2: "wake s2 u = (if u = t then 0 else wake s u)" for u
    using s2(4) by (simp add: f1 f2)
  have ot: "others_same t s s'"
    unfolding others_same_def
    by (simp add: st ws wc wk wk2 clo f1) (simp add: s'_def thr3 f1 f2)
  have Wq: "sem_queues s' (\<lambda>q. filter (\<lambda>x. x \<noteq> t) (W q))"
    using s1(2) by (subst sem_queues_cong [of s' s1]) (simp_all add: wc clo, simp add: s'_def thr3 f2)
  have Tq: "timer_chain s' (filter (\<lambda>x. x \<noteq> t) T)"
    using s2(2) by (subst timer_chain_cong [of s' s2]) (simp_all add: s'_def thr3, simp add: s3_def)
  have wt: "\<not> waiting s' t" by (simp add: waiting_def wc wk s1(4) s2(4))
  have wo: "waiting s' u = waiting s u" if "u \<noteq> t" for u
    using that by (simp add: waiting_def wc wk wk2 f1)
  have cur: "current_thread s' = current_thread s" using gl by (simp add: same_globals_def)
  have "\<forall>u. u \<noteq> current_thread s' \<and> waiting s' u \<longrightarrow> state (threads s' u) = THREAD_STATE_BLOCKED"
  proof (intro allI impI)
    fix u assume u: "u \<noteq> current_thread s' \<and> waiting s' u"
    then have "u \<noteq> t" using wt by blast
    then show "state (threads s' u) = THREAD_STATE_BLOCKED" using u wb wo st cur by simp
  qed
  then have "kcore (unblocked_queue t s R) (\<lambda>q. filter (\<lambda>x. x \<noteq> t) (W q)) (filter (\<lambda>x. x \<noteq> t) T) s'"
    using pl' Wq Tq by (simp add: kcore_def)
  moreover have "block_return_val (threads s' t) = r" by (simp add: s'_def thr3)
  moreover have "something_unblocked_seq s' = something_unblocked_seq s + 1"
    by (simp add: s'_def s3_def g1 g2)
  moreover have "next_wakeup_ns s' = next_wakeup_ns s2" by (simp add: s'_def s3_def)
  moreover have "if wake s t = 0 then next_wakeup_ns s' = next_wakeup_ns s
      else timers s' (filter (\<lambda>x. x \<noteq> t) T)"
  proof (cases "wake s t = 0")
    case True
    then show ?thesis using s2(5) calculation(4) by (simp add: f1)
  next
    case False
    then have "timers s2 (filter (\<lambda>x. x \<noteq> t) T)" using s2(5) by (simp add: f1)
    then show ?thesis using False Tq calculation(4) wk by (simp add: timers_def split: list.splits)
  qed
  moreover have "state (threads s' t) = THREAD_STATE_READY" by (simp add: st)
  moreover have "waiting_sem_or_clot (threads s' t) = None \<and> wake s' t = 0"
    by (simp add: wc s1(4) wk s2(4))
  moreover have "sched_postponed s \<longrightarrow> sched_postponed s'"
    by (simp add: s'_def make_runnable_def Let_def s3_def g1 g2 split: option.split)
  ultimately show ?thesis using run gl ot by blast
qed

section \<open>Between operations and inside them\<close>

definition kernel_ok :: "tid list \<Rightarrow> (sid \<Rightarrow> tid list) \<Rightarrow> tid list \<Rightarrow> kstate \<Rightarrow> bool" where
  "kernel_ok R W T s \<longleftrightarrow> kcore R W T s \<and> timers s T \<and> (\<forall>l. \<not> locks s l) \<and>
     sched_prevent_count s = 0 \<and> \<not> sched_postponed s \<and>
     (waiting s (current_thread s) \<longrightarrow> state (threads s (current_thread s)) = THREAD_STATE_BLOCKED) \<and>
     (case cpu_phase s of
        Executing \<Rightarrow> state (threads s (current_thread s)) = THREAD_STATE_RUNNING \<and>
          \<not> idling (threads s (current_thread s)) \<and> unat (cpu_irq_disable_counter s) + 2 \<le> 2 ^ 31
      | Parked og \<Rightarrow> state (threads s (current_thread s)) \<noteq> THREAD_STATE_RUNNING \<and>
          idling (threads s (current_thread s)) \<and> 1 \<le> unat (cpu_irq_disable_counter s) \<and>
          unat (cpu_irq_disable_counter s) + 1 \<le> 2 ^ 31)"

text \<open>The scheduler lock is held once.\<close>

definition in_op :: "tid list \<Rightarrow> (sid \<Rightarrow> tid list) \<Rightarrow> tid list \<Rightarrow> kstate \<Rightarrow> bool" where
  "in_op R W T s \<longleftrightarrow> kcore R W T s \<and> timers s T \<and> (\<forall>l. \<not> locks s l) \<and>
     sched_prevent_count s = 1 \<and> \<not> interrupts s \<and>
     (waiting s (current_thread s) \<longrightarrow> state (threads s (current_thread s)) = THREAD_STATE_BLOCKED) \<and>
     (state (threads s (current_thread s)) \<noteq> THREAD_STATE_RUNNING \<longrightarrow>
        sched_postponed s \<or> idling (threads s (current_thread s))) \<and>
     (case cpu_phase s of
        Executing \<Rightarrow> \<not> idling (threads s (current_thread s)) \<and>
          1 \<le> unat (cpu_irq_disable_counter s) \<and> unat (cpu_irq_disable_counter s) + 1 \<le> 2 ^ 31
      | Parked og \<Rightarrow> state (threads s (current_thread s)) \<noteq> THREAD_STATE_RUNNING \<and>
          idling (threads s (current_thread s)) \<and> 2 \<le> unat (cpu_irq_disable_counter s) \<and>
          unat (cpu_irq_disable_counter s) \<le> 2 ^ 31)"

lemma unat_succ32: "unat (c :: u32) + 1 < 2 ^ 32 \<Longrightarrow> unat (c + 1) = unat c + 1"
  by (simp add: unat_word_ariths)

lemma unat_pred32: "1 \<le> unat (c :: u32) \<Longrightarrow> unat (c - 1) = unat c - 1"
  by (metis One_nat_def not_one_le_zero unat_0 unat_minus_one)

lemma unat_eq0_32: "(c :: u32) = 0 \<longleftrightarrow> unat c = 0"
  by (simp add: unat_eq_zero)

text \<open>Fields that no part of the invariant on lists and threads looks at.\<close>

lemma kcore_cong:
  assumes "threads s' = threads s" "sems s' = sems s" "clots s' = clots s"
    "current_thread s' = current_thread s" "sched_init s' = sched_init s"
    "ready_list_head s' = ready_list_head s" "ready_list_tail s' = ready_list_tail s"
    "sched_postponed_thr s' = sched_postponed_thr s" "first_waiting_timer s' = first_waiting_timer s"
    "cpu_num s' = cpu_num s" "sched_postponed s' = sched_postponed s"
  shows "kcore R W T s' = kcore R W T s"
proof -
  have e: "ready_queue s' R = ready_queue s R" "sem_queues s' W = sem_queues s W"
    "timer_chain s' T = timer_chain s T"
    by (rule ready_queue_cong sem_queues_cong timer_chain_cong; simp add: assms)+
  have c: "CanThreadRunOnThisCpu t s' = CanThreadRunOnThisCpu t s" for t
    using assms by (simp add: CanThreadRunOnThisCpu_def)
  have w: "waiting s' t = waiting s t" for t using assms by (simp add: waiting_def)
  show ?thesis unfolding kcore_def placed_def e c w assms ..
qed

lemma kcore_postpone:
  assumes "kcore R W T s"
  shows "kcore R W T (s\<lparr>sched_postponed := True\<rparr>)"
proof -
  have "placed R (s\<lparr>sched_postponed := True\<rparr>)"
  proof -
    have e: "threads (s\<lparr>sched_postponed := True\<rparr>) = threads s"
      "current_thread (s\<lparr>sched_postponed := True\<rparr>) = current_thread s"
      "sched_init (s\<lparr>sched_postponed := True\<rparr>) = sched_init s"
      "sched_postponed_thr (s\<lparr>sched_postponed := True\<rparr>) = sched_postponed_thr s"
      "sched_postponed (s\<lparr>sched_postponed := True\<rparr>) = True"
      by simp_all
    show ?thesis
      unfolding placed_def e ready_queue_simps can_simps
      using assms unfolding kcore_def placed_def by blast
  qed
  moreover have "sem_queues (s\<lparr>sched_postponed := True\<rparr>) W = sem_queues s W"
    by (intro sem_queues_cong) simp_all
  moreover have "timer_chain (s\<lparr>sched_postponed := True\<rparr>) T = timer_chain s T"
    by (intro timer_chain_cong) simp_all
  ultimately show ?thesis using assms by (simp add: kcore_def waiting_def)
qed

lemma timers_cong:
  assumes "threads s' = threads s" "first_waiting_timer s' = first_waiting_timer s"
    "next_wakeup_ns s' = next_wakeup_ns s"
  shows "timers s' T = timers s T"
  using timer_chain_cong [of s' s T] assms by (simp add: timers_def split: list.split)

definition acquired :: "kstate \<Rightarrow> kstate" where
  "acquired s = s\<lparr>interrupts := False, cpu_irq_disable_counter := cpu_irq_disable_counter s + 1,
     cpu_saved_interrupt_enabled :=
       (if cpu_irq_disable_counter s = 0 then interrupts s else cpu_saved_interrupt_enabled s),
     sched_prevent_count := sched_prevent_count s + 1\<rparr>"

lemma AcquireScheduler_Some:
  assumes "\<forall>l. \<not> locks s l" "room 8 s"
  shows "AcquireScheduler s = Some (acquired s)"
proof -
  let ?s1 = "s\<lparr>interrupts := False, cpu_irq_disable_counter := cpu_irq_disable_counter s + 1,
    cpu_saved_interrupt_enabled :=
      (if cpu_irq_disable_counter s = 0 then interrupts s else cpu_saved_interrupt_enabled s)\<rparr>"
  have u: "unat (cpu_irq_disable_counter s + 1) = unat (cpu_irq_disable_counter s) + 1"
    using assms(2) by (intro unat_succ32) (simp add: room_def)
  have "AcquireIrqPrevent s = Some ?s1" using assms(2) by (intro AcquireIrqPrevent_Some) (simp add: room_def)
  moreover have "AcquireIrqPrevent ?s1 = Some (?s1\<lparr>cpu_irq_disable_counter := cpu_irq_disable_counter ?s1 + 1\<rparr>)"
  proof -
    have "room 1 ?s1" using assms(2) u by (simp add: room_def)
    moreover have "cpu_irq_disable_counter ?s1 \<noteq> 0" using u by (simp add: unat_eq0_32)
    ultimately show ?thesis by (subst AcquireIrqPrevent_Some) simp_all
  qed
  moreover have "(locks s)(SchedLock := False) = locks s" using assms(1) by (auto simp: fun_eq_iff)
  moreover have "cpu_irq_disable_counter s + 1 \<noteq> 0" using u by (simp add: unat_eq0_32)
  moreover have "unat (cpu_irq_disable_counter s + 1) + 1 < 2 ^ 32" using assms(2) u by (simp add: room_def)
  ultimately show ?thesis using assms(1)
    by (simp add: AcquireScheduler_def AcquireSpinlock_def acquired_def
        ReleaseSpinlock_nested [of _ "cpu_irq_disable_counter s + 1"])
qed

end
