(* ===== verification/SchedSwitch.thy ===== *)
theory SchedSwitch
  imports SchedInv
begin

text \<open>
  Taking and releasing the scheduler lock: what \<open>ReleaseScheduler\<close> does with the invariant, and
  which thread runs next.
\<close>

section \<open>Taking the lock\<close>

lemma kernel_okD:
  assumes "kernel_ok R W T s"
  shows "kcore R W T s" "timers s T" "\<not> locks s l" "sched_prevent_count s = 0" "\<not> sched_postponed s"
    "waiting s (current_thread s) \<Longrightarrow> state (threads s (current_thread s)) = THREAD_STATE_BLOCKED"
    "placed R s" "sem_queues s W" "timer_chain s T" "sched_postponed_thr s = None"
    "unat (cpu_irq_disable_counter s) + 1 \<le> 2 ^ 31" "room 8 s"
    "waiting s t \<Longrightarrow> state (threads s t) = THREAD_STATE_BLOCKED"
proof -
  show "kcore R W T s" "timers s T" "\<not> locks s l" "sched_prevent_count s = 0"
    and np: "\<not> sched_postponed s"
    and w: "waiting s (current_thread s) \<Longrightarrow> state (threads s (current_thread s)) = THREAD_STATE_BLOCKED"
    using assms unfolding kernel_ok_def by blast+
  show pl: "placed R s" and "sem_queues s W" "timer_chain s T"
    using assms unfolding kernel_ok_def kcore_def by blast+
  show "sched_postponed_thr s = None"
    using placedD(9) [OF pl] np by (cases "sched_postponed_thr s") auto
  show c: "unat (cpu_irq_disable_counter s) + 1 \<le> 2 ^ 31"
    using assms unfolding kernel_ok_def by (simp split: phase.splits)
  then show "room 8 s" by (simp add: room_def)
  assume "waiting s t"
  then show "state (threads s t) = THREAD_STATE_BLOCKED"
    using assms w unfolding kernel_ok_def kcore_def by (cases "t = current_thread s") auto
qed

lemma in_opD:
  assumes "in_op R W T s"
  shows "kcore R W T s" "timers s T" "\<not> locks s l" "sched_prevent_count s = 1" "\<not> interrupts s"
    "waiting s (current_thread s) \<Longrightarrow> state (threads s (current_thread s)) = THREAD_STATE_BLOCKED"
    "placed R s" "sem_queues s W" "timer_chain s T" "1 \<le> unat (cpu_irq_disable_counter s)"
    "unat (cpu_irq_disable_counter s) \<le> 2 ^ 31" "held s"
    "waiting s t \<Longrightarrow> state (threads s t) = THREAD_STATE_BLOCKED"
    "\<lbrakk>state (threads s (current_thread s)) \<noteq> THREAD_STATE_RUNNING; \<not> sched_postponed s\<rbrakk> \<Longrightarrow>
       idling (threads s (current_thread s))"
proof -
  show "kcore R W T s" "timers s T" "\<not> locks s l" "sched_prevent_count s = 1"
    and i: "\<not> interrupts s"
    and w: "waiting s (current_thread s) \<Longrightarrow> state (threads s (current_thread s)) = THREAD_STATE_BLOCKED"
    using assms unfolding in_op_def by blast+
  show "placed R s" "sem_queues s W" "timer_chain s T"
    using assms unfolding in_op_def kcore_def by blast+
  show c: "1 \<le> unat (cpu_irq_disable_counter s)" "unat (cpu_irq_disable_counter s) \<le> 2 ^ 31"
    using assms unfolding in_op_def by (auto split: phase.splits)
  then show "held s" using i by (auto simp: held_def room_def unat_eq0_32)
  show "\<lbrakk>state (threads s (current_thread s)) \<noteq> THREAD_STATE_RUNNING; \<not> sched_postponed s\<rbrakk> \<Longrightarrow>
       idling (threads s (current_thread s))"
    using assms unfolding in_op_def by blast
  assume "waiting s t"
  then show "state (threads s t) = THREAD_STATE_BLOCKED"
    using assms w unfolding in_op_def kcore_def by (cases "t = current_thread s") auto
qed

lemma acquired_fields [simp]:
  "threads (acquired s) = threads s" "sems (acquired s) = sems s" "clots (acquired s) = clots s"
  "current_thread (acquired s) = current_thread s" "sched_init (acquired s) = sched_init s"
  "sched_prevent_count (acquired s) = sched_prevent_count s + 1"
  "sched_postponed (acquired s) = sched_postponed s"
  "sched_postponed_thr (acquired s) = sched_postponed_thr s"
  "ready_list_head (acquired s) = ready_list_head s" "ready_list_tail (acquired s) = ready_list_tail s"
  "something_unblocked_seq (acquired s) = something_unblocked_seq s"
  "ns_since_boot (acquired s) = ns_since_boot s" "next_wakeup_ns (acquired s) = next_wakeup_ns s"
  "first_waiting_timer (acquired s) = first_waiting_timer s" "locks (acquired s) = locks s"
  "\<not> interrupts (acquired s)" "cpu_num (acquired s) = cpu_num s" "cpu_phase (acquired s) = cpu_phase s"
  "cpu_irq_disable_counter (acquired s) = cpu_irq_disable_counter s + 1"
  by (simp_all add: acquired_def)

lemma AcquireScheduler_spec:
  assumes "kernel_ok R W T s"
  shows "AcquireScheduler s = Some (acquired s)" "in_op R W T (acquired s)"
proof -
  note k = kernel_okD [OF assms]
  show "AcquireScheduler s = Some (acquired s)" using k by (intro AcquireScheduler_Some) blast+
  have "unat (cpu_irq_disable_counter s + 1) = unat (cpu_irq_disable_counter s) + 1"
    using k(11) by (intro unat_succ32) simp
  moreover have "kcore R W T (acquired s)" using k(1) by (subst kcore_cong [of _ s]) simp_all
  moreover have "timers (acquired s) T" using k(2) by (subst timers_cong [of _ s]) simp_all
  moreover have "waiting (acquired s) t = waiting s t" for t by (simp add: waiting_def)
  ultimately show "in_op R W T (acquired s)"
    using assms unfolding in_op_def kernel_ok_def by (simp split: phase.splits)
qed

section \<open>Switching\<close>

text \<open>
  \<open>before_switch t R s\<close>: nobody runs, \<open>t\<close> has been chosen and is on no list. \<open>switched t s s'\<close>: what
  \<open>FinishSwitch\<close> changes.
\<close>

definition switched :: "tid \<Rightarrow> kstate \<Rightarrow> kstate \<Rightarrow> bool" where
  "switched t s s' \<longleftrightarrow> current_thread s' = t \<and>
     sched_init s' = sched_init s \<and> sched_prevent_count s' = sched_prevent_count s \<and>
     sched_postponed s' = sched_postponed s \<and> sched_postponed_thr s' = sched_postponed_thr s \<and>
     ready_list_head s' = ready_list_head s \<and> ready_list_tail s' = ready_list_tail s \<and>
     something_unblocked_seq s' = something_unblocked_seq s \<and>
     ns_since_boot s' = ns_since_boot s \<and> next_wakeup_ns s' = next_wakeup_ns s \<and>
     first_waiting_timer s' = first_waiting_timer s \<and> locks s' = locks s \<and>
     interrupts s' = interrupts s \<and> cpu_num s' = cpu_num s \<and> cpu_phase s' = cpu_phase s \<and>
     sems s' = sems s \<and> clots s' = clots s \<and>
     (\<forall>u. state (threads s' u) = (if u = t then THREAD_STATE_RUNNING else state (threads s u)) \<and>
          next_ready (threads s' u) = (if u = t then None else next_ready (threads s u)) \<and>
          priority (threads s' u) = priority (threads s u) \<and>
          idling (threads s' u) = idling (threads s u) \<and>
          affinity_bitmask (threads s' u) = affinity_bitmask (threads s u) \<and>
          block_return_val (threads s' u) = block_return_val (threads s u) \<and>
          next_waiting_sem (threads s' u) = next_waiting_sem (threads s u) \<and>
          next_waiting_timer (threads s' u) = next_waiting_timer (threads s u) \<and>
          waiting_sem_or_clot (threads s' u) = waiting_sem_or_clot (threads s u) \<and>
          wake s' u = wake s u \<and>
          (u \<noteq> current_thread s \<or> u = t \<longrightarrow>
             irq_disable_counter (threads s' u) = irq_disable_counter (threads s u)) \<and>
          (u = current_thread s \<and> u \<noteq> t \<longrightarrow>
             irq_disable_counter (threads s' u) = cpu_irq_disable_counter s)) \<and>
     cpu_irq_disable_counter s' =
       (if t = current_thread s then cpu_irq_disable_counter s else irq_disable_counter (threads s t))"

lemma FinishSwitch_switched:
  assumes "held s" "\<not> locks s TimerLock" "own \<or> t \<noteq> current_thread s"
  shows "\<exists>s'. FinishSwitch own t s = Some s' \<and> switched t s s'"
proof (cases "t = current_thread s")
  case True
  then show ?thesis using assms(3) by (simp add: FinishSwitch_def switched_def)
next
  case False
  let ?s1 = "upd_thread t (\<lambda>x. x\<lparr>state := THREAD_STATE_RUNNING, next_ready := None\<rparr>) (s\<lparr>current_thread := t\<rparr>)"
  have "GetTimeSinceBoot ?s1 = Some (ns_since_boot ?s1, ?s1)"
    using assms by (intro GetTimeSinceBoot_spec) (simp_all add: held_def room_def)
  then show ?thesis using False
    by (simp add: FinishSwitch_def Let_def switched_def)
qed

lemma switched_placed:
  assumes sw: "switched t s s'" and rq: "ready_queue s R" and init: "sched_init s"
    and t: "t \<notin> set R" "CanThreadRunOnThisCpu t s"
    and RR: "\<And>u. u \<in> set R \<Longrightarrow> state (threads s u) = THREAD_STATE_READY"
    and rest: "\<And>u. state (threads s u) = THREAD_STATE_READY \<Longrightarrow> u \<in> set R \<or> u = t"
    and nr: "\<And>u. state (threads s u) \<noteq> THREAD_STATE_RUNNING \<or> u = t"
    and idl: "\<And>u. \<not> idling (threads s u)" and pp: "sched_postponed_thr s = None"
    and irq: "\<And>u. 2 \<le> unat (irq_disable_counter (threads s u)) \<and>
        unat (irq_disable_counter (threads s u)) \<le> 2 ^ 31"
    and cpu: "2 \<le> unat (cpu_irq_disable_counter s)" "unat (cpu_irq_disable_counter s) \<le> 2 ^ 31"
  shows "placed R s'" "2 \<le> unat (cpu_irq_disable_counter s')"
    "unat (cpu_irq_disable_counter s') \<le> 2 ^ 31"
proof -
  have f: "current_thread s' = t" "sched_init s'" "sched_postponed_thr s' = None"
    and th: "\<And>u. state (threads s' u) = (if u = t then THREAD_STATE_RUNNING else state (threads s u))"
      "\<And>u. idling (threads s' u) = idling (threads s u)"
    using sw init pp by (simp_all add: switched_def)
  have "chain (\<lambda>u. next_ready (threads s' u)) p R None \<longleftrightarrow> chain (\<lambda>u. next_ready (threads s u)) p R None" for p
    using t(1) sw by (intro chain_cong) (auto simp: switched_def)
  then have "ready_queue s' R" using rq sw by (simp add: ready_queue_def switched_def)
  moreover have "CanThreadRunOnThisCpu t s'" using t(2) sw by (simp add: CanThreadRunOnThisCpu_def switched_def)
  moreover have "2 \<le> unat (irq_disable_counter (threads s' u)) \<and> unat (irq_disable_counter (threads s' u)) \<le> 2 ^ 31" for u
  proof (cases "u \<noteq> current_thread s \<or> u = t")
    case True
    then have "irq_disable_counter (threads s' u) = irq_disable_counter (threads s u)"
      using sw by (simp add: switched_def)
    then show ?thesis using irq [of u] by simp
  next
    case False
    then have "irq_disable_counter (threads s' u) = cpu_irq_disable_counter s"
      using sw unfolding switched_def by blast
    then show ?thesis using cpu by simp
  qed
  moreover have "state (threads s' u) = THREAD_STATE_READY" if "u \<in> set R" for u
    using RR [OF that] th(1) that t(1) by auto
  moreover have "u \<in> set R" if "state (threads s' u) = THREAD_STATE_READY" for u
    using that th(1) rest [of u] by (simp split: if_splits)
  moreover have "u = t" if "state (threads s' u) = THREAD_STATE_RUNNING" for u
    using that th(1) nr [of u] by (simp split: if_splits)
  moreover have "sched_postponed_thr s' \<noteq> Some p" for p using f(3) by simp
  ultimately show "placed R s'"
    using t(1) f idl by (intro placedI) (simp_all add: th(2))
  show "2 \<le> unat (cpu_irq_disable_counter s')" "unat (cpu_irq_disable_counter s') \<le> 2 ^ 31"
    using sw irq [of t] cpu by (simp_all add: switched_def)
qed

lemma ReleaseTail_Some:
  assumes "2 \<le> unat (cpu_irq_disable_counter s)"
  shows "ReleaseTail s = Some (s\<lparr>locks := (locks s)(SchedLock := False),
    cpu_irq_disable_counter := cpu_irq_disable_counter s - 2,
    interrupts := (cpu_irq_disable_counter s = 2 \<and> cpu_saved_interrupt_enabled s \<or> interrupts s)\<rparr>)"
proof -
  let ?c = "cpu_irq_disable_counter s"
  have u: "unat (?c - 1) = unat ?c - 1" using assms by (intro unat_pred32) simp
  have "ReleaseSpinlock SchedLock s = Some (s\<lparr>locks := (locks s)(SchedLock := False), cpu_irq_disable_counter := ?c - 1\<rparr>)"
    using assms u unat_lt32 [of ?c] by (intro ReleaseSpinlock_nested) (simp_all add: unat_eq0_32)
  moreover have "?c - 1 \<noteq> 0" using u assms by (simp only: unat_eq0_32)
  moreover have "?c - 1 = 1 \<longleftrightarrow> ?c = 2" by (simp add: diff_eq_eq)
  ultimately show ?thesis
    by (cases s) (auto simp: ReleaseTail_def ReleaseIrqPrevent_def Let_def)
qed

definition candidates :: "kstate \<Rightarrow> tid list \<Rightarrow> tid list" where
  "candidates s R =
     (if state (threads s (current_thread s)) = THREAD_STATE_RUNNING
      then R @ [current_thread s] else R)"

definition next_thread :: "kstate \<Rightarrow> tid list \<Rightarrow> tid option" where
  "next_thread s R =
     (case sched_postponed_thr s of
        Some p \<Rightarrow> Some p
      | None \<Rightarrow> find (\<lambda>t. CanThreadRunOnThisCpu t s) (candidates s R))"

text \<open>What the clients of the scheduler see is untouched by a switch.\<close>

definition client_same :: "kstate \<Rightarrow> kstate \<Rightarrow> bool" where
  "client_same s s' \<longleftrightarrow> sems s' = sems s \<and> clots s' = clots s \<and> ns_since_boot s' = ns_since_boot s \<and>
     next_wakeup_ns s' = next_wakeup_ns s \<and> first_waiting_timer s' = first_waiting_timer s \<and>
     cpu_num s' = cpu_num s \<and>
     (\<forall>u. next_waiting_sem (threads s' u) = next_waiting_sem (threads s u) \<and>
          next_waiting_timer (threads s' u) = next_waiting_timer (threads s u) \<and>
          waiting_sem_or_clot (threads s' u) = waiting_sem_or_clot (threads s u) \<and>
          wake s' u = wake s u \<and> priority (threads s' u) = priority (threads s u) \<and>
          affinity_bitmask (threads s' u) = affinity_bitmask (threads s u) \<and>
          block_return_val (threads s' u) = block_return_val (threads s u))"

lemma client_same_refl [simp]: "client_same s s"
  by (simp add: client_same_def)

lemma client_same_trans: "client_same s t \<Longrightarrow> client_same t u \<Longrightarrow> client_same s u"
  by (simp add: client_same_def)

lemma switched_client: "switched t s s' \<Longrightarrow> client_same s s'"
  by (simp add: switched_def client_same_def)

lemma client_same_lists:
  assumes "client_same s s'"
  shows "sem_queues s' W = sem_queues s W" "timer_chain s' T = timer_chain s T"
    "timers s' T = timers s T" "waiting s' t = waiting s t" "wait_set s' t = wait_set s t"
proof -
  note c = assms [unfolded client_same_def]
  show "sem_queues s' W = sem_queues s W" by (rule sem_queues_cong; simp add: c)
  show tc: "timer_chain s' T = timer_chain s T" by (rule timer_chain_cong; simp add: c)
  show "timers s' T = timers s T" by (simp add: timers_def tc c split: list.split)
  show "waiting s' t = waiting s t" by (simp add: waiting_def c)
  show "wait_set s' t = wait_set s t" by (rule wait_set_cong) (simp_all add: c)
qed

text \<open>
  The state in which the next thread is chosen: the lock is held, the postponement is over, and a
  running thread has been queued.
\<close>

definition choosing :: "tid list \<Rightarrow> kstate \<Rightarrow> kstate" where
  "choosing R s =
     (let s0 = s\<lparr>cpu_irq_disable_counter := cpu_irq_disable_counter s + 1,
                 locks := (locks s)(SchedLock := True), sched_prevent_count := 0,
                 sched_postponed := False, sched_postponed_thr := None\<rparr>
      in if state (threads s (current_thread s)) = THREAD_STATE_RUNNING
         then AddToBackOfReadyQueue (current_thread s) s0 else s0)"

lemma choosing_fields [simp]:
  "sems (choosing R s) = sems s" "clots (choosing R s) = clots s"
  "current_thread (choosing R s) = current_thread s" "sched_init (choosing R s) = sched_init s"
  "sched_prevent_count (choosing R s) = 0" "\<not> sched_postponed (choosing R s)"
  "sched_postponed_thr (choosing R s) = None"
  "something_unblocked_seq (choosing R s) = something_unblocked_seq s"
  "ns_since_boot (choosing R s) = ns_since_boot s" "next_wakeup_ns (choosing R s) = next_wakeup_ns s"
  "first_waiting_timer (choosing R s) = first_waiting_timer s"
  "locks (choosing R s) = (locks s)(SchedLock := True)"
  "interrupts (choosing R s) = interrupts s" "cpu_num (choosing R s) = cpu_num s"
  "cpu_phase (choosing R s) = cpu_phase s"
  "cpu_irq_disable_counter (choosing R s) = cpu_irq_disable_counter s + 1"
  "cpu_saved_interrupt_enabled (choosing R s) = cpu_saved_interrupt_enabled s"
  "idling (threads (choosing R s) u) = idling (threads s u)"
  "irq_disable_counter (threads (choosing R s) u) = irq_disable_counter (threads s u)"
  "state (threads (choosing R s) u) =
     (if u = current_thread s \<and> state (threads s u) = THREAD_STATE_RUNNING
      then THREAD_STATE_READY else state (threads s u))"
  "CanThreadRunOnThisCpu u (choosing R s) = CanThreadRunOnThisCpu u s"
  by (auto simp: choosing_def Let_def CanThreadRunOnThisCpu_def)

lemma choosing_client: "client_same s (choosing R s)"
  by (simp add: choosing_def Let_def client_same_def)

lemma choosing_queue:
  assumes "placed R s"
  shows "ready_queue (choosing R s) (candidates s R)"
proof (cases "state (threads s (current_thread s)) = THREAD_STATE_RUNNING")
  case True
  show ?thesis
    unfolding choosing_def candidates_def Let_def if_P [OF True]
    using placedD(1,3) [OF assms] by (intro AddToBack_queue) (simp_all add: ready_queue_def)
next
  case False
  then show ?thesis using placedD(1) [OF assms]
    by (simp add: choosing_def candidates_def Let_def ready_queue_def)
qed

text \<open>Which of \<open>xs\<close> is taken, and what is known of it.\<close>

lemma find_first:
  assumes "find P xs = Some t"
  shows "t \<in> set xs" "P t"
  using assms by (induction xs) (auto split: if_splits)

lemma next_thread_ready:
  assumes op: "in_op R W T s" and ex: "cpu_phase s = Executing" and n: "next_thread s R = Some t"
  shows "CanThreadRunOnThisCpu t s" "state (threads s t) \<noteq> THREAD_STATE_BLOCKED" "\<not> waiting s t"
    "t \<in> set (candidates s R) \<or> sched_postponed_thr s = Some t"
    "t \<notin> set (remove1 t (candidates s R))"
    "\<And>u. \<lbrakk>state (threads s u) \<noteq> THREAD_STATE_BLOCKED; u \<noteq> t\<rbrakk> \<Longrightarrow> u \<in> set (remove1 t (candidates s R))"
proof -
  note o' = in_opD [OF op]
  note p = placedD [OF o'(7)]
  have nid: "\<not> idling (threads s u)" for u
    using p(8) [of u] op ex unfolding in_op_def by auto
  have c: "set (candidates s R) \<subseteq> set R \<union> {current_thread s}" "distinct (candidates s R)"
    using p(3) ready_queue_distinct [OF p(1)] by (auto simp: candidates_def)
  show mem: "t \<in> set (candidates s R) \<or> sched_postponed_thr s = Some t"
    and can: "CanThreadRunOnThisCpu t s"
    using n p(9) [of t] find_first [of "\<lambda>t. CanThreadRunOnThisCpu t s" "candidates s R" t]
    by (auto simp: next_thread_def split: option.splits)
  show st: "state (threads s t) \<noteq> THREAD_STATE_BLOCKED"
    using mem p(9) [of t] p(5) [of t] by (auto simp: candidates_def split: if_splits)
  then show "\<not> waiting s t" using o'(13) by blast
  show "t \<notin> set (remove1 t (candidates s R))" using c(2) by simp
  fix u assume u: "state (threads s u) \<noteq> THREAD_STATE_BLOCKED" "u \<noteq> t"
  then have "state (threads s u) = THREAD_STATE_READY \<or> state (threads s u) = THREAD_STATE_RUNNING"
    by (cases "state (threads s u)") auto
  then have "u \<in> set (candidates s R)"
  proof
    assume "state (threads s u) = THREAD_STATE_READY"
    then have "u \<in> set R \<or> sched_postponed_thr s = Some u" using p(6) nid by blast
    moreover have "sched_postponed_thr s \<noteq> Some u" using n u(2) by (auto simp: next_thread_def)
    ultimately show ?thesis by (auto simp: candidates_def)
  next
    assume "state (threads s u) = THREAD_STATE_RUNNING"
    moreover from this have "u = current_thread s" by (rule p(7))
    ultimately show ?thesis by (simp add: candidates_def)
  qed
  then show "u \<in> set (remove1 t (candidates s R))" using u(2) c(2) by simp
qed

text \<open>The state after the switch has been finished and the lock released.\<close>

lemma finish_kernel_ok:
  assumes op: "in_op R W T s" and ex: "cpu_phase s = Executing" and n: "next_thread s R = Some t"
    and cs: "client_same s s1" and rq: "ready_queue s1 R'" and R': "R' = remove1 t (candidates s R)"
    and f: "sched_init s1" "current_thread s1 = current_thread s" "sched_prevent_count s1 = 0"
      "\<not> sched_postponed s1" "sched_postponed_thr s1 = None" "locks s1 = (locks s)(SchedLock := True)"
      "\<not> interrupts s1" "cpu_phase s1 = Executing"
      "cpu_irq_disable_counter s1 = cpu_irq_disable_counter s + 1"
      "\<And>u. idling (threads s1 u) = idling (threads s u)"
      "\<And>u. irq_disable_counter (threads s1 u) = irq_disable_counter (threads s u)"
      "\<And>u. state (threads s1 u) = (if u = current_thread s \<and> state (threads s u) = THREAD_STATE_RUNNING
         then THREAD_STATE_READY else state (threads s u))"
    and own: "own \<or> t \<noteq> current_thread s"
  shows "\<exists>s'. FinishSwitch own t s1 \<bind> ReleaseTail = Some s' \<and> kernel_ok R' W T s' \<and>
    client_same s s' \<and> current_thread s' = t \<and> cpu_phase s' = Executing \<and>
    something_unblocked_seq s' = something_unblocked_seq s1"
proof -
  note o' = in_opD [OF op]
  note p = placedD [OF o'(7)]
  note nt = next_thread_ready [OF op ex n]
  have nid: "\<not> idling (threads s u)" for u
    using p(8) [of u] op ex unfolding in_op_def by auto
  have c31: "unat (cpu_irq_disable_counter s) + 1 \<le> 2 ^ 31" using op ex by (simp add: in_op_def)
  have c1: "unat (cpu_irq_disable_counter s1) = unat (cpu_irq_disable_counter s) + 1"
    unfolding f(9) using c31 by (intro unat_succ32) simp
  have h1: "held s1" using f(7) c1 c31 by (auto simp: held_def room_def unat_eq0_32)
  have tl: "\<not> locks s1 TimerLock" using f(6) o'(3) by simp
  obtain s2 where s2: "FinishSwitch own t s1 = Some s2" "switched t s1 s2"
    using FinishSwitch_switched [OF h1 tl] own f(2) by metis
  have RR: "state (threads s1 u) = THREAD_STATE_READY" if "u \<in> set R'" for u
  proof -
    have "u \<in> set (candidates s R)" using that R' set_remove1_subset by fastforce
    then show ?thesis using p(5) [of u] by (auto simp: f(12) candidates_def split: if_splits)
  qed
  have can1: "CanThreadRunOnThisCpu t s1"
    using nt(1) cs by (simp add: CanThreadRunOnThisCpu_def client_same_def)
  have rest: "u \<in> set R' \<or> u = t" if "state (threads s1 u) = THREAD_STATE_READY" for u
    using that nt(6) [of u] by (auto simp: f(12) R' split: if_splits)
  have nr: "state (threads s1 u) \<noteq> THREAD_STATE_RUNNING \<or> u = t" for u
    using p(7) [of u] by (auto simp: f(12))
  have pl: "placed R' s2" "2 \<le> unat (cpu_irq_disable_counter s2)" "unat (cpu_irq_disable_counter s2) \<le> 2 ^ 31"
    using switched_placed [OF s2(2) rq f(1) _ can1 RR rest nr _ f(5)] nt(5) nid p(10,11) c1 c31 o'(10)
    by (simp_all add: f(10,11) R')
  have c2: "client_same s1 s2" using s2(2) by (rule switched_client)
  define s' where "s' = s2\<lparr>locks := (locks s2)(SchedLock := False),
    cpu_irq_disable_counter := cpu_irq_disable_counter s2 - 2,
    interrupts := (cpu_irq_disable_counter s2 = 2 \<and> cpu_saved_interrupt_enabled s2 \<or> interrupts s2)\<rparr>"
  have run: "FinishSwitch own t s1 \<bind> ReleaseTail = Some s'"
    using s2(1) ReleaseTail_Some [OF pl(2)] by (simp add: s'_def)
  have cs': "client_same s s'"
    using client_same_trans [OF cs c2] by (simp add: s'_def client_same_def)
  note sw = s2(2) [unfolded switched_def]
  have th: "threads s' = threads s2" and cur: "current_thread s' = t" and ph: "cpu_phase s' = Executing"
    using sw f(8) by (simp_all add: s'_def)
  have st: "state (threads s' u) = (if u = t then THREAD_STATE_RUNNING else state (threads s1 u))" for u
    using sw by (simp add: th)
  have "placed R' s'"
    using pl(1) kcore_cong [of s' s2] unfolding placed_def s'_def by simp
  moreover have W: "sem_queues s' W" "timer_chain s' T" "timers s' T"
    using client_same_lists [OF cs'] o'(2,8,9) by blast+
  moreover have w: "waiting s' u = waiting s u" for u using client_same_lists(4) [OF cs'] .
  moreover have "state (threads s' u) = THREAD_STATE_BLOCKED" if "u \<noteq> t" "waiting s u" for u
    using that o'(13) [of u] st by (auto simp: f(12))
  moreover have "\<not> waiting s t" by (rule nt(3))
  moreover have "unat (cpu_irq_disable_counter s') + 2 \<le> 2 ^ 31"
  proof -
    have "unat (cpu_irq_disable_counter s2 - 2) = unat (cpu_irq_disable_counter s2) - 2"
      using pl(2) unat_sub [of 2 "cpu_irq_disable_counter s2"] by (simp add: word_le_nat_alt)
    then show ?thesis using pl(2,3) by (simp add: s'_def)
  qed
  moreover have "\<not> locks s' l" for l using sw f(6) o'(3) by (cases l) (simp_all add: s'_def)
  moreover have "sched_prevent_count s' = 0" "\<not> sched_postponed s'" using sw f by (simp_all add: s'_def)
  moreover have "\<not> idling (threads s' t)" using sw nid f(10) by (simp add: th)
  ultimately have "kernel_ok R' W T s'"
    using st [of t] by (simp add: kernel_ok_def kcore_def cur ph)
  moreover have "something_unblocked_seq s' = something_unblocked_seq s1" using sw by (simp add: s'_def)
  ultimately show ?thesis using run cs' cur ph by blast
qed

text \<open>The search for the next thread changes links of the ready queue only.\<close>

definition ready_frame :: "kstate \<Rightarrow> kstate \<Rightarrow> bool" where
  "ready_frame s s' \<longleftrightarrow>
     (\<forall>x. (threads s' x)\<lparr>next_ready := None\<rparr> = (threads s x)\<lparr>next_ready := None\<rparr>) \<and>
     s'\<lparr>threads := threads s, ready_list_head := ready_list_head s,
        ready_list_tail := ready_list_tail s\<rparr> = s"

lemma FindNextThread_loop_frame:
  assumes "FindNextThread_loop prev th s = Some r"
  shows "ready_frame s (snd r)"
  using assms
proof (induction prev th s r rule: FindNextThread_loop.raw_induct [rotated, consumes 1, case_names step])
  case (step f prev th s r)
  from step(2) show ?case
    by (auto simp: ready_frame_def Let_def upd_thread_def fun_eq_iff split: option.splits if_splits dest!: step(1))
qed

lemma ready_frame_threads:
  assumes "ready_frame s s'"
  shows "state (threads s' x) = state (threads s x)" "idling (threads s' x) = idling (threads s x)"
    "irq_disable_counter (threads s' x) = irq_disable_counter (threads s x)"
    "client_same s s'"
proof -
  have th: "(threads s' x)\<lparr>next_ready := None\<rparr> = (threads s x)\<lparr>next_ready := None\<rparr>" for x
    using assms by (simp add: ready_frame_def)
  have f: "state (threads s' x) = state (threads s x)" "idling (threads s' x) = idling (threads s x)"
    "irq_disable_counter (threads s' x) = irq_disable_counter (threads s x)"
    "next_waiting_sem (threads s' x) = next_waiting_sem (threads s x)"
    "next_waiting_timer (threads s' x) = next_waiting_timer (threads s x)"
    "waiting_sem_or_clot (threads s' x) = waiting_sem_or_clot (threads s x)"
    "wake s' x = wake s x" "priority (threads s' x) = priority (threads s x)"
    "affinity_bitmask (threads s' x) = affinity_bitmask (threads s x)"
    "block_return_val (threads s' x) = block_return_val (threads s x)" for x
    using th [of x] by (cases "threads s' x"; cases "threads s x"; simp)+
  then show "state (threads s' x) = state (threads s x)" "idling (threads s' x) = idling (threads s x)"
    "irq_disable_counter (threads s' x) = irq_disable_counter (threads s x)" by simp_all
  have "s'\<lparr>threads := threads s, ready_list_head := ready_list_head s, ready_list_tail := ready_list_tail s\<rparr> = s"
    using assms by (simp add: ready_frame_def)
  then have "sems s' = sems s" "clots s' = clots s" "ns_since_boot s' = ns_since_boot s"
    "next_wakeup_ns s' = next_wakeup_ns s" "first_waiting_timer s' = first_waiting_timer s"
    "cpu_num s' = cpu_num s"
    by (cases s; cases s'; simp)+
  then show "client_same s s'" by (simp add: client_same_def f)
qed

lemma ready_frame_globals:
  assumes "ready_frame s s'"
  shows "same_globals s s'" "sched_postponed s' = sched_postponed s"
    "sched_postponed_thr s' = sched_postponed_thr s"
    "something_unblocked_seq s' = something_unblocked_seq s"
proof -
  have "s'\<lparr>threads := threads s, ready_list_head := ready_list_head s, ready_list_tail := ready_list_tail s\<rparr> = s"
    using assms by (simp add: ready_frame_def)
  then show "same_globals s s'" "sched_postponed s' = sched_postponed s"
    "sched_postponed_thr s' = sched_postponed_thr s"
    "something_unblocked_seq s' = something_unblocked_seq s"
    by (cases s; cases s'; simp add: same_globals_def)+
qed

lemma FindNextThread_full:
  assumes "ready_queue s xs"
  obtains s' where "FindNextThread s = Some (find (\<lambda>t. CanThreadRunOnThisCpu t s) xs, s')"
    "ready_queue s' (case find (\<lambda>t. CanThreadRunOnThisCpu t s) xs of None \<Rightarrow> xs | Some t \<Rightarrow> remove1 t xs)"
    "find (\<lambda>t. CanThreadRunOnThisCpu t s) xs = None \<Longrightarrow> s' = s" "ready_frame s s'"
proof -
  obtain r s' where *: "FindNextThread s = Some (r, s')" "r = find (\<lambda>t. CanThreadRunOnThisCpu t s) xs"
    "ready_queue s' (case r of None \<Rightarrow> xs | Some t \<Rightarrow> remove1 t xs)"
    "case r of None \<Rightarrow> s' = s | Some t \<Rightarrow> next_ready (threads s' t) = None"
    using FindNextThread_spec [OF assms] by blast
  moreover have "ready_frame s s'"
    using FindNextThread_loop_frame [of None "ready_list_head s" s "(r, s')"] *(1) by (simp add: FindNextThread_def)
  moreover have "s' = s" if "find (\<lambda>t. CanThreadRunOnThisCpu t s) xs = None" using *(2,4) that by simp
  ultimately show thesis using that by simp
qed

section \<open>Releasing the lock\<close>

lemma ReleaseScheduler_locked:
  assumes "in_op R W T s"
  shows "AcquireSpinlock SchedLock s = Some (s\<lparr>cpu_irq_disable_counter := cpu_irq_disable_counter s + 1,
      locks := (locks s)(SchedLock := True)\<rparr>)"
    "unat (cpu_irq_disable_counter s + 1) = unat (cpu_irq_disable_counter s) + 1"
  using in_opD [OF assms] by (simp_all add: AcquireSpinlock_held unat_succ32)

text \<open>Without a switch: no switch was asked for, or the interrupted CPU idles.\<close>

lemma release_same_thread:
  assumes op: "in_op R W T s" and pl: "placed R' s1"
    and s1: "client_same s s1" "current_thread s1 = current_thread s" "sched_prevent_count s1 = 0"
      "\<not> sched_postponed s1" "locks s1 = (locks s)(SchedLock := True)"
      "cpu_phase s1 = cpu_phase s" "cpu_irq_disable_counter s1 = cpu_irq_disable_counter s + 1"
      "\<And>u. idling (threads s1 u) = idling (threads s u)"
      "\<And>u. state (threads s1 u) = state (threads s u)" "\<not> interrupts s1"
    and run: "state (threads s (current_thread s)) = THREAD_STATE_RUNNING \<or> cpu_phase s \<noteq> Executing"
  shows "\<exists>s'. ReleaseTail s1 = Some s' \<and> kernel_ok R' W T s' \<and>
    client_same s s' \<and> current_thread s' = current_thread s \<and> cpu_phase s' = cpu_phase s \<and>
    something_unblocked_seq s' = something_unblocked_seq s1 \<and> threads s' = threads s1"
proof -
  note o' = in_opD [OF op]
  have c1: "unat (cpu_irq_disable_counter s1) = unat (cpu_irq_disable_counter s) + 1"
    using ReleaseScheduler_locked(2) [OF op] s1 by simp
  define s' where "s' = s1\<lparr>locks := (locks s1)(SchedLock := False),
    cpu_irq_disable_counter := cpu_irq_disable_counter s1 - 2,
    interrupts := (cpu_irq_disable_counter s1 = 2 \<and> cpu_saved_interrupt_enabled s1 \<or> interrupts s1)\<rparr>"
  have run': "ReleaseTail s1 = Some s'" using ReleaseTail_Some [of s1] c1 o'(10) by (simp add: s'_def)
  have c': "unat (cpu_irq_disable_counter s') = unat (cpu_irq_disable_counter s) - 1"
    using c1 o'(10) unat_sub [of 2 "cpu_irq_disable_counter s1"] by (simp add: s'_def word_le_nat_alt)
  have f: "threads s' = threads s1" "current_thread s' = current_thread s" "cpu_phase s' = cpu_phase s"
    "sched_prevent_count s' = 0" "sched_postponed s' = False" "locks s' = (locks s)(SchedLock := False)"
    using s1 by (simp_all add: s'_def)
  have cs: "client_same s s'" using s1(1) by (simp add: s'_def client_same_def)
  have "placed R' s'" using pl kcore_cong [of s' s1] unfolding placed_def s'_def by simp
  moreover have "sem_queues s' W" "timer_chain s' T" "timers s' T"
    using client_same_lists [OF cs] o'(2,8,9) by blast+
  moreover have "waiting s' u = waiting s u" for u using client_same_lists(4) [OF cs] .
  moreover have "\<not> locks s' l" for l using f(6) o'(3) by simp
  ultimately have "kernel_ok R' W T s'"
    using op run c' unfolding kernel_ok_def kcore_def in_op_def f(1-5) s1(8,9) by (auto split: phase.splits)
  then show ?thesis using run' s1 cs by (simp add: s'_def)
qed

definition switches :: "kstate \<Rightarrow> bool" where
  "switches s \<longleftrightarrow> sched_postponed s \<and> cpu_phase s = Executing"

definition released_queue :: "kstate \<Rightarrow> tid list \<Rightarrow> tid list" where
  "released_queue s R =
     (if switches s then
        (case next_thread s R of None \<Rightarrow> R | Some t \<Rightarrow> remove1 t (candidates s R))
      else (case sched_postponed_thr s of None \<Rightarrow> R | Some p \<Rightarrow> R @ [p]))"

definition released_current :: "kstate \<Rightarrow> tid list \<Rightarrow> tid" where
  "released_current s R =
     (if switches s then (case next_thread s R of None \<Rightarrow> current_thread s | Some t \<Rightarrow> t)
      else current_thread s)"

definition released_phase :: "kstate \<Rightarrow> tid list \<Rightarrow> phase" where
  "released_phase s R =
     (if switches s \<and> next_thread s R = None then Parked (something_unblocked_seq s) else cpu_phase s)"

lemma in_op_idling:
  assumes "in_op R W T s"
  shows "IsCurrentThreadIdling s \<longleftrightarrow> cpu_phase s \<noteq> Executing"
    "idling (threads s u) \<longleftrightarrow> u = current_thread s \<and> cpu_phase s \<noteq> Executing"
proof -
  have i: "idling (threads s (current_thread s)) \<longleftrightarrow> cpu_phase s \<noteq> Executing"
    using assms by (auto simp: in_op_def split: phase.splits)
  note p = placedD [OF in_opD(7) [OF assms]]
  show "IsCurrentThreadIdling s \<longleftrightarrow> cpu_phase s \<noteq> Executing"
    using i p(2) by (simp add: IsCurrentThreadIdling_def)
  show "idling (threads s u) \<longleftrightarrow> u = current_thread s \<and> cpu_phase s \<noteq> Executing"
    using i p(8) [of u] by auto
qed

text \<open>The state in which \<open>ReleaseScheduler\<close> decides, and its decision.\<close>

definition deciding :: "kstate \<Rightarrow> kstate" where
  "deciding s = s\<lparr>cpu_irq_disable_counter := cpu_irq_disable_counter s + 1,
     locks := (locks s)(SchedLock := True), sched_prevent_count := 0,
     sched_postponed := False, sched_postponed_thr := None\<rparr>"

lemma ReleaseScheduler_unfold:
  assumes op: "in_op R W T s"
  shows "ReleaseScheduler s =
    (if \<not> sched_postponed s then ReleaseTail (s\<lparr>cpu_irq_disable_counter := cpu_irq_disable_counter s + 1,
       locks := (locks s)(SchedLock := True), sched_prevent_count := 0\<rparr>)
     else if cpu_phase s \<noteq> Executing then
       ReleaseTail (case sched_postponed_thr s of None \<Rightarrow> deciding s
         | Some t \<Rightarrow> (AddToBackOfReadyQueue t (deciding s))
             \<lparr>something_unblocked_seq := something_unblocked_seq s + 1\<rparr>)
     else do { (back, s) \<leftarrow> SwitchToThread (sched_postponed_thr s) (deciding s);
               if back then ReleaseTail s else Some s })"
proof -
  note o' = in_opD [OF op]
  let ?s = "s\<lparr>cpu_irq_disable_counter := cpu_irq_disable_counter s + 1, locks := (locks s)(SchedLock := True),
      sched_prevent_count := 0, sched_postponed := False, sched_postponed_thr := None\<rparr>"
  have idl: "IsCurrentThreadIdling ?s \<longleftrightarrow> cpu_phase s \<noteq> Executing"
    using in_op_idling(1) [OF op] by (simp add: IsCurrentThreadIdling_def)
  show ?thesis
    using o'(4,5) idl ReleaseScheduler_locked(1) [OF op]
    by (cases "sched_postponed_thr s") (simp_all add: ReleaseScheduler_def deciding_def Let_def)
qed

lemma release_plain:
  assumes op: "in_op R W T s" and np: "\<not> sched_postponed s"
  shows "\<exists>s'. ReleaseScheduler s = Some s' \<and> kernel_ok (released_queue s R) W T s' \<and>
    client_same s s' \<and> current_thread s' = released_current s R \<and> cpu_phase s' = released_phase s R \<and>
    threads s' = threads s \<and> something_unblocked_seq s' = something_unblocked_seq s"
proof -
  note o' = in_opD [OF op]
  note p = placedD [OF o'(7)]
  let ?s1 = "s\<lparr>cpu_irq_disable_counter := cpu_irq_disable_counter s + 1,
       locks := (locks s)(SchedLock := True), sched_prevent_count := 0\<rparr>"
  have none: "sched_postponed_thr s = None" using p(9) np by (cases "sched_postponed_thr s") auto
  have pl: "placed R ?s1"
    using o'(1) kcore_cong [of ?s1 s R W T] by (simp add: kcore_def)
  have run: "state (threads s (current_thread s)) = THREAD_STATE_RUNNING \<or> cpu_phase s \<noteq> Executing"
    using o'(14) np in_op_idling(2) [OF op] by blast
  have "\<exists>s'. ReleaseTail ?s1 = Some s' \<and> kernel_ok R W T s' \<and>
    client_same s s' \<and> current_thread s' = current_thread s \<and> cpu_phase s' = cpu_phase s \<and>
    something_unblocked_seq s' = something_unblocked_seq ?s1 \<and> threads s' = threads ?s1"
    using op pl run o'(5) np
    by (intro release_same_thread) (simp_all add: client_same_def)
  then show ?thesis
    using np none ReleaseScheduler_unfold [OF op]
    by (simp add: released_queue_def released_current_def released_phase_def switches_def) blast
qed

lemma release_idling:
  assumes op: "in_op R W T s" and po: "sched_postponed s" and ph: "cpu_phase s \<noteq> Executing"
  shows "\<exists>s'. ReleaseScheduler s = Some s' \<and> kernel_ok (released_queue s R) W T s' \<and>
    client_same s s' \<and> current_thread s' = released_current s R \<and> cpu_phase s' = released_phase s R"
proof -
  note o' = in_opD [OF op]
  note p = placedD [OF o'(7)]
  let ?s1 = "case sched_postponed_thr s of None \<Rightarrow> deciding s
         | Some t \<Rightarrow> (AddToBackOfReadyQueue t (deciding s))
             \<lparr>something_unblocked_seq := something_unblocked_seq s + 1\<rparr>"
  have cur: "state (threads s (current_thread s)) \<noteq> THREAD_STATE_RUNNING" "idling (threads s (current_thread s))"
    using op ph by (auto simp: in_op_def split: phase.splits)
  have st: "state (threads ?s1 u) = state (threads s u)" for u
    using p(9) by (auto simp: deciding_def split: option.split)
  have pl: "placed (released_queue s R) ?s1"
  proof (cases "sched_postponed_thr s")
    case None
    show ?thesis
      using p None ph by (intro placedI) (simp_all add: released_queue_def switches_def deciding_def)
  next
    case (Some t)
    note t = p(9) [OF Some]
    have "ready_queue (deciding s) R" using p(1) by (simp add: deciding_def ready_queue_def)
    then have rq: "ready_queue (AddToBackOfReadyQueue t (deciding s)) (R @ [t])"
      using t by (intro AddToBack_queue) simp_all
    show ?thesis
      using p(2-4,7,10,11) Some ph rq t
    proof (intro placedI)
      fix u assume "state (threads ?s1 u) = THREAD_STATE_READY"
      then show "u \<in> set (released_queue s R) \<or> sched_postponed_thr ?s1 = Some u \<or>
          u = current_thread ?s1 \<and> idling (threads ?s1 u)"
        using p(6) [of u] Some ph st [of u]
        by (auto simp: released_queue_def switches_def deciding_def split: if_splits)
    next
      fix u assume "u \<in> set (released_queue s R)"
      then show "state (threads ?s1 u) = THREAD_STATE_READY"
        using p(5) [of u] t st [of u] Some ph by (auto simp: released_queue_def switches_def)
    next
      fix u assume "state (threads ?s1 u) = THREAD_STATE_RUNNING"
      then show "u = current_thread ?s1" using st [of u] p(7) [of u] Some by (simp add: deciding_def)
    next
      fix u assume "idling (threads ?s1 u)"
      then show "u = current_thread ?s1" using p(8) [of u] Some by (simp add: deciding_def)
    qed (simp_all add: released_queue_def switches_def deciding_def)
  qed
  have "\<exists>s'. ReleaseTail ?s1 = Some s' \<and> kernel_ok (released_queue s R) W T s' \<and>
    client_same s s' \<and> current_thread s' = current_thread s \<and> cpu_phase s' = cpu_phase s \<and>
    something_unblocked_seq s' = something_unblocked_seq ?s1 \<and> threads s' = threads ?s1"
    using op pl ph o'(5) st
    by (intro release_same_thread) (auto simp: deciding_def client_same_def split: option.split)
  then show ?thesis
    using po ph ReleaseScheduler_unfold [OF op]
    by (auto simp: released_current_def released_phase_def switches_def)
qed

lemma choosing_deciding:
  "choosing R s = (if state (threads (deciding s) (current_thread (deciding s))) = THREAD_STATE_RUNNING
     then AddToBackOfReadyQueue (current_thread (deciding s)) (deciding s) else deciding s)"
  by (simp add: choosing_def deciding_def Let_def)

text \<open>The CPU goes idle on the stack of the current thread, which is blocked.\<close>

lemma idle_kernel_ok:
  assumes op: "in_op R W T s" and ex: "cpu_phase s = Executing" and n: "next_thread s R = None"
  shows "\<exists>s'. IdlePark (upd_thread (current_thread s) (\<lambda>x. x\<lparr>idling := True\<rparr>) (deciding s)) = Some s' \<and>
    kernel_ok R W T s' \<and> client_same s s' \<and> current_thread s' = current_thread s \<and>
    cpu_phase s' = Parked (something_unblocked_seq s) \<and>
    state (threads s (current_thread s)) = THREAD_STATE_BLOCKED \<and>
    something_unblocked_seq s' = something_unblocked_seq s"
proof -
  note o' = in_opD [OF op]
  note p = placedD [OF o'(7)]
  have none: "sched_postponed_thr s = None"
    and no: "find (\<lambda>t. CanThreadRunOnThisCpu t s) (candidates s R) = None"
    using n by (auto simp: next_thread_def split: option.splits)
  have "state (threads s (current_thread s)) \<noteq> THREAD_STATE_RUNNING"
    using no p(4) by (auto simp: candidates_def find_None_iff)
  moreover have "state (threads s (current_thread s)) \<noteq> THREAD_STATE_READY"
    using p(3) p(6) [of "current_thread s"] none in_op_idling(2) [OF op] ex by auto
  ultimately have bl: "state (threads s (current_thread s)) = THREAD_STATE_BLOCKED"
    by (cases "state (threads s (current_thread s))") auto
  let ?s0 = "upd_thread (current_thread s) (\<lambda>x. x\<lparr>idling := True\<rparr>) (deciding s)"
  have c31: "unat (cpu_irq_disable_counter s) + 1 \<le> 2 ^ 31" using op ex by (simp add: in_op_def)
  define s' where "s' = ?s0\<lparr>locks := (locks ?s0)(SchedLock := False),
    cpu_irq_disable_counter := cpu_irq_disable_counter s, interrupts := True,
    cpu_phase := Parked (something_unblocked_seq s)\<rparr>"
  have "ReleaseSpinlock SchedLock ?s0 = Some (?s0\<lparr>locks := (locks ?s0)(SchedLock := False),
      cpu_irq_disable_counter := cpu_irq_disable_counter s\<rparr>)"
    using o'(10) c31 by (intro ReleaseSpinlock_nested) (simp_all add: deciding_def unat_eq0_32)
  then have run: "IdlePark ?s0 = Some s'"
    by (simp add: IdlePark_def s'_def deciding_def)
  have cs: "client_same s s'" by (simp add: s'_def deciding_def client_same_def)
  have th: "threads s' u = (if u = current_thread s then (threads s u)\<lparr>idling := True\<rparr> else threads s u)" for u
    by (simp add: s'_def deciding_def)
  have rest: "current_thread s' = current_thread s" "sched_postponed_thr s' = None" "sched_init s' = sched_init s"
    "ready_list_head s' = ready_list_head s" "ready_list_tail s' = ready_list_tail s" "cpu_num s' = cpu_num s"
    "sched_prevent_count s' = 0" "\<not> sched_postponed s'" "cpu_irq_disable_counter s' = cpu_irq_disable_counter s"
    "cpu_phase s' = Parked (something_unblocked_seq s)" "something_unblocked_seq s' = something_unblocked_seq s"
    by (simp_all add: s'_def deciding_def)
  have nl: "\<not> locks s' l" for l using o'(3) by (cases l) (simp_all add: s'_def deciding_def)
  have st: "state (threads s' u) = state (threads s u)" for u by (simp add: th)
  have can: "CanThreadRunOnThisCpu u s' = CanThreadRunOnThisCpu u s" for u
    by (simp add: CanThreadRunOnThisCpu_def th rest)
  have "ready_queue s' R"
    using p(1) by (subst ready_queue_cong [of s' s]) (simp_all add: th rest)
  then have "placed R s'"
    using p(2-4,10,11)
  proof (intro placedI)
    fix u assume "u \<in> set R"
    then show "state (threads s' u) = THREAD_STATE_READY" using p(5) st by simp
  next
    fix u assume "state (threads s' u) = THREAD_STATE_READY"
    then show "u \<in> set R \<or> sched_postponed_thr s' = Some u \<or> u = current_thread s' \<and> idling (threads s' u)"
      using p(6) [of u] none bl by (auto simp: st rest th)
  next
    fix u assume "state (threads s' u) = THREAD_STATE_RUNNING"
    then show "u = current_thread s'" using p(7) [of u] by (simp add: st rest)
  next
    fix u assume "idling (threads s' u)"
    then show "u = current_thread s'" using p(8) [of u] by (simp add: th rest split: if_splits)
  qed (simp_all add: rest can th)
  moreover have "sem_queues s' W" "timer_chain s' T" "timers s' T"
    using client_same_lists [OF cs] o'(2,8,9) by blast+
  moreover have "waiting s' u = waiting s u" for u using client_same_lists(4) [OF cs] .
  moreover have "idling (threads s' (current_thread s))" by (simp add: th)
  moreover have "state (threads s u) = THREAD_STATE_BLOCKED" if "waiting s u" for u
    using that by (rule o'(13))
  ultimately have "kernel_ok R W T s'"
    using o'(10) c31 nl bl by (simp add: kernel_ok_def kcore_def rest st)
  then show ?thesis using run cs bl rest by blast
qed

lemma release_switching:
  assumes op: "in_op R W T s" and sw: "switches s"
  shows "\<exists>s'. ReleaseScheduler s = Some s' \<and> kernel_ok (released_queue s R) W T s' \<and>
    client_same s s' \<and> current_thread s' = released_current s R \<and> cpu_phase s' = released_phase s R"
proof -
  note o' = in_opD [OF op]
  note p = placedD [OF o'(7)]
  have po: "sched_postponed s" and ex: "cpu_phase s = Executing" using sw by (auto simp: switches_def)
  have rel: "ReleaseScheduler s = do { (back, s) \<leftarrow> SwitchToThread (sched_postponed_thr s) (deciding s);
               if back then ReleaseTail s else Some s }"
    using ReleaseScheduler_unfold [OF op] po ex by simp
  have d: "sched_init (deciding s)" "\<not> interrupts (deciding s)" "sched_prevent_count (deciding s) = 0"
    "locks (deciding s) SchedLock" "ready_list_head (deciding s) = ready_list_head s"
    "state (threads (deciding s) u) = state (threads s u)"
    "current_thread (deciding s) = current_thread s" for u
    using p(2) o'(5) by (simp_all add: deciding_def)
  let ?c = "candidates s R" and ?run = "state (threads s (current_thread s)) = THREAD_STATE_RUNNING"
  have rq1: "ready_queue (choosing R s) ?c" using o'(7) by (rule choosing_queue)
  have cs1: "client_same s (choosing R s)" by (rule choosing_client)
  show ?thesis
  proof (cases "?run \<and> ready_list_head s = None \<and> sched_postponed_thr s = None")
    case True
    then have R: "R = []" using p(1) by (cases R) (auto simp: ready_queue_def)
    have nt: "next_thread s R = Some (current_thread s)"
      using True R p(4) by (simp add: next_thread_def candidates_def)
    have pl: "placed [] (deciding s)"
      using p True R by (intro placedI) (auto simp: deciding_def ready_queue_def)
    have "\<exists>s'. ReleaseTail (deciding s) = Some s' \<and> kernel_ok [] W T s' \<and>
      client_same s s' \<and> current_thread s' = current_thread s \<and> cpu_phase s' = cpu_phase s \<and>
      something_unblocked_seq s' = something_unblocked_seq (deciding s) \<and> threads s' = threads (deciding s)"
      using op pl True o'(5) by (intro release_same_thread) (simp_all add: deciding_def client_same_def)
    moreover have "SwitchToThread (sched_postponed_thr s) (deciding s) = Some (True, deciding s)"
      using d True by (simp add: SwitchToThread_def)
    moreover have "released_queue s R = []" "released_current s R = current_thread s" "released_phase s R = cpu_phase s"
      using nt sw R True by (simp_all add: released_queue_def released_current_def released_phase_def candidates_def)
    ultimately show ?thesis using rel by auto
  next
    case False
    show ?thesis
    proof (cases "sched_postponed_thr s")
      case (Some t)
      note t = p(9) [OF Some]
      have nt: "next_thread s R = Some t" using Some by (simp add: next_thread_def)
      have "t \<notin> set ?c" using t by (simp add: candidates_def)
      then have rq: "ready_queue (choosing R s) (remove1 t ?c)" using rq1 by (simp add: remove1_idem)
      have "\<exists>s'. FinishSwitch False t (choosing R s) \<bind> ReleaseTail = Some s' \<and> kernel_ok (remove1 t ?c) W T s' \<and>
        client_same s s' \<and> current_thread s' = t \<and> cpu_phase s' = Executing \<and>
        something_unblocked_seq s' = something_unblocked_seq (choosing R s)"
        using t o'(5) p(2) ex by (intro finish_kernel_ok [OF op ex nt cs1 rq refl]) simp_all
      moreover have "SwitchToThread (Some t) (deciding s) =
          do { s \<leftarrow> FinishSwitch False t (choosing R s); Some (True, s) }"
        using d t Some by (simp add: SwitchToThread_def choosing_deciding [of R s] Let_def)
          (simp add: deciding_def CanThreadRunOnThisCpu_def)
      ultimately show ?thesis
        using rel Some nt sw ex
        by (fastforce simp: released_queue_def released_current_def released_phase_def bind_eq_Some_conv)
    next
      case None
      have fp: "find (\<lambda>t. CanThreadRunOnThisCpu t (choosing R s)) ?c = next_thread s R"
        using None by (simp add: next_thread_def)
      obtain s2 where s2: "FindNextThread (choosing R s) = Some (next_thread s R, s2)"
        "ready_queue s2 (case next_thread s R of None \<Rightarrow> ?c | Some t \<Rightarrow> remove1 t ?c)"
        "next_thread s R = None \<Longrightarrow> s2 = choosing R s" "ready_frame (choosing R s) s2"
        using FindNextThread_full [OF rq1] unfolding fp by blast
      have sws: "SwitchToThread None (deciding s) =
          (case next_thread s R of
             None \<Rightarrow> (if state (threads s2 (current_thread s2)) \<noteq> THREAD_STATE_BLOCKED then None
               else do { s \<leftarrow> IdlePark (upd_thread (current_thread s2) (\<lambda>x. x\<lparr>idling := True\<rparr>) s2); Some (False, s) })
           | Some t \<Rightarrow> do { s \<leftarrow> FinishSwitch True t s2; Some (True, s) })"
        using d False None s2(1)
        by (cases "?run"; cases "ready_list_head s"; cases "next_thread s R")
          (simp_all add: SwitchToThread_def choosing_deciding [of R s] Let_def)
      show ?thesis
      proof (cases "next_thread s R")
        case (Some t)
        note g = ready_frame_globals [OF s2(4), unfolded same_globals_def]
        note th = ready_frame_threads [OF s2(4)]
        have cs2: "client_same s s2" using cs1 th(4) by (rule client_same_trans)
        have rq2: "ready_queue s2 (remove1 t ?c)" using s2(2) Some by simp
        have "\<exists>s'. FinishSwitch True t s2 \<bind> ReleaseTail = Some s' \<and> kernel_ok (remove1 t ?c) W T s' \<and>
          client_same s s' \<and> current_thread s' = t \<and> cpu_phase s' = Executing \<and>
          something_unblocked_seq s' = something_unblocked_seq s2"
          using o'(5) p(2) ex g
          by (intro finish_kernel_ok [OF op ex Some cs2 rq2 refl]) (simp_all add: th)
        then show ?thesis
          using rel None Some sw sws ex
          by (fastforce simp: released_queue_def released_current_def released_phase_def bind_eq_Some_conv)
      next
        case n: None
        from idle_kernel_ok [OF op ex n] have bl: "state (threads s (current_thread s)) = THREAD_STATE_BLOCKED" by blast
        then have "choosing R s = deciding s" by (simp add: choosing_def deciding_def Let_def)
        then have "s2 = deciding s" using s2(3) [OF n] by simp
        then show ?thesis
          using idle_kernel_ok [OF op ex n] rel None n sw sws bl d
          by (auto simp: released_queue_def released_current_def released_phase_def)
      qed
    qed
  qed
qed

text \<open>
  \<open>ReleaseScheduler\<close> from any state an operation may leave: it comes back to the caller, to another
  thread, or goes idle, and the kernel is consistent again.
\<close>

lemma ReleaseScheduler_spec:
  assumes "in_op R W T s"
  shows "\<exists>s'. ReleaseScheduler s = Some s' \<and> kernel_ok (released_queue s R) W T s' \<and>
    client_same s s' \<and> current_thread s' = released_current s R \<and> cpu_phase s' = released_phase s R"
proof (cases "switches s")
  case True
  then show ?thesis using release_switching assms by blast
next
  case False
  then show ?thesis using release_plain [OF assms] release_idling [OF assms] unfolding switches_def by blast
qed

end
