(* ===== verification/SchedOps.thy ===== *)
theory SchedOps
  imports SchedSwitch
begin

text \<open>
  The operations of the scheduler and of threads keep the invariant of the kernel: unblocking,
  blocking, yielding, the idle loop, new threads.
\<close>

section \<open>Unblocking with the lock held\<close>

lemma UnblockThread_in_op:
  assumes op: "in_op R W T s" and t: "state (threads s t) = THREAD_STATE_BLOCKED"
    and c: "t = current_thread s \<longrightarrow> idling (threads s t)"
  shows "\<exists>s'. UnblockThread t r s = Some s' \<and>
    in_op (unblocked_queue t s R) (\<lambda>q. filter (\<lambda>x. x \<noteq> t) (W q)) (filter (\<lambda>x. x \<noteq> t) T) s' \<and>
    same_globals s s' \<and> others_same t s s' \<and>
    state (threads s' t) = THREAD_STATE_READY \<and> block_return_val (threads s' t) = r \<and>
    waiting_sem_or_clot (threads s' t) = None \<and> wake s' t = 0 \<and>
    something_unblocked_seq s' = something_unblocked_seq s + 1"
proof -
  note o' = in_opD [OF op]
  have w: "wake s t \<noteq> 0 \<Longrightarrow> timers s T \<and> held s \<and> \<not> locks s TimerLock" using o' by blast
  from UnblockThread_spec [OF o'(1) t c w, of r] obtain s' where s': "UnblockThread t r s = Some s'"
    "kcore (unblocked_queue t s R) (\<lambda>q. filter (\<lambda>x. x \<noteq> t) (W q)) (filter (\<lambda>x. x \<noteq> t) T) s'"
    "same_globals s s'" "others_same t s s'" "state (threads s' t) = THREAD_STATE_READY"
    "block_return_val (threads s' t) = r" "waiting_sem_or_clot (threads s' t) = None" "wake s' t = 0"
    "something_unblocked_seq s' = something_unblocked_seq s + 1"
    "if wake s t = 0 then next_wakeup_ns s' = next_wakeup_ns s else timers s' (filter (\<lambda>x. x \<noteq> t) T)"
    "sched_postponed s \<longrightarrow> sched_postponed s'" by blast
  note g = s'(3) [unfolded same_globals_def]
  note os = s'(4) [unfolded others_same_def]
  have "timers s' (filter (\<lambda>x. x \<noteq> t) T)"
  proof (cases "wake s t = 0")
    case True
    then have "t \<notin> set T" using o'(9) by (simp add: timer_chain_def)
    then have f: "filter (\<lambda>x. x \<noteq> t) T = T" by (intro filter_True) auto
    have "timer_chain s' T" using s'(2) by (simp add: kcore_def f)
    moreover have "wake s' u = wake s u" if "u \<in> set T" for u using os that \<open>t \<notin> set T\<close> by auto
    ultimately show ?thesis
      unfolding f using o'(2) s'(10) True by (cases T) (simp_all add: timers_def)
  next
    case False
    then show ?thesis using s'(10) by simp
  qed
  moreover have "waiting s' u = waiting s u" if "u \<noteq> t" for u
    using os that by (simp add: waiting_def)
  moreover have "\<not> waiting s' t" using s'(7,8) by (simp add: waiting_def)
  moreover have "state (threads s' u) = state (threads s u)" if "u \<noteq> t" for u using os that by simp
  moreover have "idling (threads s' u) = idling (threads s u)" for u using os by simp
  ultimately have "in_op (unblocked_queue t s R) (\<lambda>q. filter (\<lambda>x. x \<noteq> t) (W q)) (filter (\<lambda>x. x \<noteq> t) T) s'"
    using op s'(2,5,11) g c unfolding in_op_def
    by (cases "t = current_thread s") (auto split: phase.splits)
  then show ?thesis using s' by blast
qed

text \<open>A thread that is not blocked is not lost when the lock is released.\<close>

lemma released_keeps:
  assumes op: "in_op R W T s" and u: "state (threads s u) \<noteq> THREAD_STATE_BLOCKED"
  shows "u \<in> set (released_queue s R) \<or> u = released_current s R"
proof -
  note p = placedD [OF in_opD(7) [OF op]]
  have u': "u \<in> set R \<or> sched_postponed_thr s = Some u \<or> u = current_thread s"
    using u p(6,7) [of u] by (cases "state (threads s u)") auto
  show ?thesis
  proof (cases "switches s")
    case True
    then have ex: "cpu_phase s = Executing" by (simp add: switches_def)
    show ?thesis
    proof (cases "next_thread s R")
      case None
      then have "sched_postponed_thr s = None" by (simp add: next_thread_def split: option.splits)
      then show ?thesis using None True u' by (auto simp: released_queue_def released_current_def)
    next
      case (Some t)
      then show ?thesis using next_thread_ready(6) [OF op ex Some u] True
        by (auto simp: released_queue_def released_current_def)
    qed
  next
    case False
    then show ?thesis using u' by (auto simp: released_queue_def released_current_def split: option.split)
  qed
qed

section \<open>Blocking with the lock held\<close>

text \<open>With the lock held around, \<open>BlockThread\<close> only asks for a switch.\<close>

definition blocked :: "kstate \<Rightarrow> kstate" where
  "blocked s = (upd_thread (current_thread s)
     (\<lambda>x. x\<lparr>state := THREAD_STATE_BLOCKED, block_return_val := 0\<rparr>) s)\<lparr>sched_postponed := True\<rparr>"

lemma AcquireSpinlock_off:
  assumes "\<not> interrupts s" "cpu_irq_disable_counter s \<noteq> 0" "room 1 s" "\<not> locks s l"
  shows "AcquireSpinlock l s = Some (s\<lparr>cpu_irq_disable_counter := cpu_irq_disable_counter s + 1,
    locks := (locks s)(l := True)\<rparr>)"
  using assms by (cases s) (simp add: AcquireSpinlock_def AcquireIrqPrevent_Some)

lemma BlockThread_held:
  assumes h: "held s" and l: "\<forall>l. \<not> locks s l" and n: "sched_prevent_count s > 0"
  shows "BlockThread s = Some (blocked s)"
proof -
  let ?u = "upd_thread (current_thread s) (\<lambda>x. x\<lparr>state := THREAD_STATE_BLOCKED, block_return_val := 0\<rparr>) s"
  let ?c = "cpu_irq_disable_counter s"
  have r: "room 8 s" and c0: "?c \<noteq> 0" and i: "\<not> interrupts s" using h by (auto simp: held_def)
  have acq: "AcquireScheduler ?u = Some (acquired ?u)"
    using l r by (intro AcquireScheduler_Some) (simp_all add: room_def)
  let ?a = "(acquired ?u)\<lparr>sched_postponed := True\<rparr>"
  have u1: "unat (?c + 1) = unat ?c + 1" using r by (intro unat_succ32) (simp add: room_def)
  have sp: "AcquireSpinlock SchedLock ?a = Some (?a\<lparr>cpu_irq_disable_counter := ?c + 1 + 1, locks := (locks s)(SchedLock := True)\<rparr>)"
    using l r u1 by (subst AcquireSpinlock_off) (simp_all add: room_def unat_eq0_32)
  let ?b = "?a\<lparr>cpu_irq_disable_counter := ?c + 1 + 1, locks := (locks s)(SchedLock := True),
    sched_prevent_count := sched_prevent_count s\<rparr>"
  have u2: "unat (?c + 1 + 1) = unat ?c + 2"
    using r u1 unat_succ32 [of "?c + 1"] by (simp add: room_def)
  have "?c + 1 + 1 \<noteq> 2" using c0 by (simp add: add.assoc)
  have "ReleaseScheduler ?a = ReleaseTail ?b"
    using sp n by (simp add: ReleaseScheduler_def Let_def)
  also have "\<dots> = Some (?b\<lparr>locks := (locks ?b)(SchedLock := False),
      cpu_irq_disable_counter := cpu_irq_disable_counter ?b - 2,
      interrupts := (cpu_irq_disable_counter ?b = 2 \<and> cpu_saved_interrupt_enabled ?b \<or> interrupts ?b)\<rparr>)"
    using u2 by (intro ReleaseTail_Some) simp
  also have "\<dots> = Some (blocked s)"
  proof -
    have "(locks s)(SchedLock := False) = locks s" using l by (auto simp: fun_eq_iff)
    then show ?thesis using c0 i
      by (cases s) (simp add: blocked_def acquired_def upd_thread_def add.assoc)
  qed
  finally show ?thesis using acq by (simp add: BlockThread_def Schedule_def)
qed

lemma blocked_fields [simp]:
  "current_thread (blocked s) = current_thread s" "sems (blocked s) = sems s" "clots (blocked s) = clots s"
  "locks (blocked s) = locks s" "interrupts (blocked s) = interrupts s" "cpu_num (blocked s) = cpu_num s"
  "cpu_irq_disable_counter (blocked s) = cpu_irq_disable_counter s" "cpu_phase (blocked s) = cpu_phase s"
  "sched_prevent_count (blocked s) = sched_prevent_count s" "sched_postponed (blocked s)"
  "sched_postponed_thr (blocked s) = sched_postponed_thr s" "sched_init (blocked s) = sched_init s"
  "ns_since_boot (blocked s) = ns_since_boot s" "next_wakeup_ns (blocked s) = next_wakeup_ns s"
  "first_waiting_timer (blocked s) = first_waiting_timer s"
  "ready_list_head (blocked s) = ready_list_head s" "ready_list_tail (blocked s) = ready_list_tail s"
  "something_unblocked_seq (blocked s) = something_unblocked_seq s"
  "state (threads (blocked s) u) = (if u = current_thread s then THREAD_STATE_BLOCKED else state (threads s u))"
  "next_ready (threads (blocked s) u) = next_ready (threads s u)"
  "idling (threads (blocked s) u) = idling (threads s u)"
  "next_waiting_sem (threads (blocked s) u) = next_waiting_sem (threads s u)"
  "waiting_sem_or_clot (threads (blocked s) u) = waiting_sem_or_clot (threads s u)"
  "next_waiting_timer (threads (blocked s) u) = next_waiting_timer (threads s u)"
  "wake (blocked s) u = wake s u"
  "irq_disable_counter (threads (blocked s) u) = irq_disable_counter (threads s u)"
  "priority (threads (blocked s) u) = priority (threads s u)"
  "affinity_bitmask (threads (blocked s) u) = affinity_bitmask (threads s u)"
  by (simp_all add: blocked_def)

lemma blocked_in_op:
  assumes k: "kcore R W T s" and tm: "timers s T" and l: "\<forall>l. \<not> locks s l"
    and n: "sched_prevent_count s = 1" and i: "\<not> interrupts s" and ph: "cpu_phase s = Executing"
    and ni: "\<not> idling (threads s (current_thread s))"
    and c: "1 \<le> unat (cpu_irq_disable_counter s)" "unat (cpu_irq_disable_counter s) + 1 \<le> 2 ^ 31"
  shows "in_op R W T (blocked s)"
proof -
  have pl: "placed R s" using k by (simp add: kcore_def)
  note p = placedD [OF pl]
  have can: "CanThreadRunOnThisCpu u (blocked s) = CanThreadRunOnThisCpu u s" for u
    by (simp add: CanThreadRunOnThisCpu_def)
  have "ready_queue (blocked s) R" using p(1) by (subst ready_queue_cong [of _ s]) simp_all
  then have "placed R (blocked s)"
    using p(2-4,10,11)
  proof (intro placedI)
    fix u assume "u \<in> set R"
    then show "state (threads (blocked s) u) = THREAD_STATE_READY" using p(3,5) by auto
  next
    fix u assume "state (threads (blocked s) u) = THREAD_STATE_READY"
    then show "u \<in> set R \<or> sched_postponed_thr (blocked s) = Some u \<or>
        u = current_thread (blocked s) \<and> idling (threads (blocked s) u)"
      using p(6) [of u] by (auto split: if_splits)
  next
    fix u assume "state (threads (blocked s) u) = THREAD_STATE_RUNNING"
    then show "u = current_thread (blocked s)" using p(7) [of u] by (simp split: if_splits)
  next
    fix u assume "idling (threads (blocked s) u)"
    then show "u = current_thread (blocked s)" using p(8) [of u] by simp
  next
    fix q assume "sched_postponed_thr (blocked s) = Some q"
    then show "state (threads (blocked s) q) = THREAD_STATE_READY \<and> q \<notin> set R \<and>
        q \<noteq> current_thread (blocked s) \<and> CanThreadRunOnThisCpu q (blocked s) \<and> sched_postponed (blocked s)"
      using p(9) [of q] can by simp
  qed (simp_all add: can)
  moreover have "sem_queues (blocked s) W"
    using k by (subst sem_queues_cong [of _ s]) (simp_all add: kcore_def)
  moreover have tc: "timer_chain (blocked s) T = timer_chain s T" by (rule timer_chain_cong) simp_all
  moreover have "timers (blocked s) T"
    using tm tc by (simp add: timers_def split: list.splits)
  moreover have "waiting (blocked s) u = waiting s u" for u by (simp add: waiting_def)
  ultimately show ?thesis
    using k l n i ph ni c unfolding in_op_def kcore_def by simp
qed

section \<open>Yielding and the priority of a thread\<close>

lemma Schedule_spec:
  assumes k: "kernel_ok R W T s"
  shows "\<exists>s'. Schedule s = Some s' \<and>
    kernel_ok (released_queue ((acquired s)\<lparr>sched_postponed := True\<rparr>) R) W T s' \<and> client_same s s' \<and>
    current_thread s' = released_current ((acquired s)\<lparr>sched_postponed := True\<rparr>) R \<and>
    cpu_phase s' = released_phase ((acquired s)\<lparr>sched_postponed := True\<rparr>) R"
proof -
  note a = AcquireScheduler_spec [OF k]
  let ?a = "(acquired s)\<lparr>sched_postponed := True\<rparr>"
  have "kcore R W T ?a" using in_opD(1) [OF a(2)] by (rule kcore_postpone)
  moreover have "timers ?a T" using in_opD(2) [OF a(2)] by (subst timers_cong [of _ "acquired s"]) simp_all
  moreover have "waiting ?a u = waiting (acquired s) u" for u by (simp add: waiting_def)
  ultimately have "in_op R W T ?a"
    using a(2) unfolding in_op_def by (simp split: phase.splits)
  from ReleaseScheduler_spec [OF this] obtain s' where s': "ReleaseScheduler ?a = Some s'"
    "kernel_ok (released_queue ?a R) W T s'" "client_same ?a s'"
    "current_thread s' = released_current ?a R" "cpu_phase s' = released_phase ?a R" by blast
  have "client_same s ?a" by (simp add: client_same_def)
  then have "client_same s s'" using s'(3) by (rule client_same_trans)
  then show ?thesis using s' a(1) by (auto simp: Schedule_def)
qed

section \<open>The idle loop\<close>

definition idle_choice :: "kstate \<Rightarrow> tid list \<Rightarrow> tid option" where
  "idle_choice s R =
     (if state (threads s (current_thread s)) = THREAD_STATE_READY then Some (current_thread s)
      else find (\<lambda>t. CanThreadRunOnThisCpu t s) R)"

text \<open>Leaving the loop with thread \<open>t\<close>, from a state \<open>s1\<close> in which the lock is held.\<close>

lemma idle_leave:
  assumes k: "kernel_ok R W T s" and ph: "cpu_phase s = Parked og" and n: "idle_choice s R = Some t"
    and cs: "client_same s s1" and rq: "ready_queue s1 (remove1 t R)"
    and f: "sched_init s1" "current_thread s1 = current_thread s" "sched_prevent_count s1 = 0"
      "\<not> sched_postponed s1" "sched_postponed_thr s1 = None" "locks s1 = (locks s)(SchedLock := True)"
      "\<not> interrupts s1" "cpu_irq_disable_counter s1 = cpu_irq_disable_counter s + 1"
      "\<And>u. idling (threads s1 u) = idling (threads s u)"
      "\<And>u. irq_disable_counter (threads s1 u) = irq_disable_counter (threads s u)"
      "\<And>u. state (threads s1 u) = state (threads s u)"
  shows "\<exists>s'. FinishSwitch True t (upd_thread (current_thread s) (\<lambda>x. x\<lparr>idling := False\<rparr>)
      (s1\<lparr>cpu_phase := Executing\<rparr>)) \<bind> ReleaseTail = Some s' \<and> kernel_ok (remove1 t R) W T s' \<and>
    client_same s s' \<and> current_thread s' = t \<and> cpu_phase s' = Executing"
proof -
  note k' = kernel_okD [OF k]
  note p = placedD [OF k'(7)]
  have cur: "state (threads s (current_thread s)) \<noteq> THREAD_STATE_RUNNING" "idling (threads s (current_thread s))"
    "1 \<le> unat (cpu_irq_disable_counter s)" "unat (cpu_irq_disable_counter s) + 1 \<le> 2 ^ 31"
    using k ph by (auto simp: kernel_ok_def)
  define s2 where "s2 = upd_thread (current_thread s) (\<lambda>x. x\<lparr>idling := False\<rparr>) (s1\<lparr>cpu_phase := Executing\<rparr>)"
  have f2: "sched_init s2" "current_thread s2 = current_thread s" "sched_prevent_count s2 = 0"
      "\<not> sched_postponed s2" "sched_postponed_thr s2 = None" "locks s2 = (locks s)(SchedLock := True)"
      "\<not> interrupts s2" "cpu_irq_disable_counter s2 = cpu_irq_disable_counter s + 1"
      "cpu_phase s2 = Executing"
      "\<And>u. irq_disable_counter (threads s2 u) = irq_disable_counter (threads s u)"
      "\<And>u. state (threads s2 u) = state (threads s u)"
    using f by (simp_all add: s2_def)
  have nid: "\<not> idling (threads s2 u)" for u
    using p(8) [of u] f(9) by (auto simp: s2_def)
  have cs2: "client_same s s2" using cs by (simp add: s2_def client_same_def)
  have c1: "unat (cpu_irq_disable_counter s2) = unat (cpu_irq_disable_counter s) + 1"
    unfolding f2(8) using cur(4) by (intro unat_succ32) simp
  have h: "held s2" using f2(7) c1 cur(4) by (auto simp: held_def room_def unat_eq0_32)
  have tl: "\<not> locks s2 TimerLock" using f2(6) k'(3) by simp
  obtain s3 where s3: "FinishSwitch True t s2 = Some s3" "switched t s2 s3"
    using FinishSwitch_switched [OF h tl, of True t] by blast
  have dist: "distinct R" using ready_queue_distinct [OF p(1)] .
  have t: "CanThreadRunOnThisCpu t s" "state (threads s t) = THREAD_STATE_READY"
    "t \<in> set R \<or> t = current_thread s"
    using n p(4,5) find_first [of "\<lambda>t. CanThreadRunOnThisCpu t s" R t]
    by (auto simp: idle_choice_def split: if_splits)
  have can2: "CanThreadRunOnThisCpu t s2" using t(1) cs2 by (simp add: CanThreadRunOnThisCpu_def client_same_def)
  have rq2: "ready_queue s2 (remove1 t R)"
    using rq by (subst ready_queue_cong [of s2 s1]) (simp_all add: s2_def)
  have RR: "state (threads s2 u) = THREAD_STATE_READY" if "u \<in> set (remove1 t R)" for u
    using that p(5) [of u] dist by (simp add: f2(11))
  have rest: "u \<in> set (remove1 t R) \<or> u = t" if "state (threads s2 u) = THREAD_STATE_READY" for u
  proof -
    have "u \<in> set R \<or> u = current_thread s" using p(6) [of u] k'(10) that by (auto simp: f2(11))
    moreover have "t = current_thread s" if "u = current_thread s"
      using n that \<open>state (threads s2 u) = THREAD_STATE_READY\<close> by (simp add: f2(11) idle_choice_def)
    ultimately show ?thesis using dist by auto
  qed
  have nr: "state (threads s2 u) \<noteq> THREAD_STATE_RUNNING \<or> u = t" for u
    using p(7) [of u] cur(1) by (auto simp: f2(11))
  have pl: "placed (remove1 t R) s3" "2 \<le> unat (cpu_irq_disable_counter s3)" "unat (cpu_irq_disable_counter s3) \<le> 2 ^ 31"
    using switched_placed [OF s3(2) rq2 f2(1) _ can2 RR rest nr nid f2(5)] dist p(10,11) c1 cur(3,4)
    by (simp_all add: f2(10))
  have c3: "client_same s2 s3" using s3(2) by (rule switched_client)
  define s' where "s' = s3\<lparr>locks := (locks s3)(SchedLock := False),
    cpu_irq_disable_counter := cpu_irq_disable_counter s3 - 2,
    interrupts := (cpu_irq_disable_counter s3 = 2 \<and> cpu_saved_interrupt_enabled s3 \<or> interrupts s3)\<rparr>"
  have run: "FinishSwitch True t s2 \<bind> ReleaseTail = Some s'"
    using s3(1) ReleaseTail_Some [OF pl(2)] by (simp add: s'_def)
  have cs': "client_same s s'"
    using client_same_trans [OF cs2 c3] by (simp add: s'_def client_same_def)
  note sw = s3(2) [unfolded switched_def]
  have th: "threads s' = threads s3" and cu: "current_thread s' = t" and ph': "cpu_phase s' = Executing"
    using sw f2(9) by (simp_all add: s'_def)
  have st: "state (threads s' u) = (if u = t then THREAD_STATE_RUNNING else state (threads s u))" for u
    using sw by (simp add: th f2(11))
  have "placed (remove1 t R) s'"
    using pl(1) kcore_cong [of s' s3] unfolding placed_def s'_def by simp
  moreover have "sem_queues s' W" "timer_chain s' T" "timers s' T"
    using client_same_lists [OF cs'] k'(2,8,9) by blast+
  moreover have w: "waiting s' u = waiting s u" for u using client_same_lists(4) [OF cs'] .
  moreover have "state (threads s' u) = THREAD_STATE_BLOCKED" if "u \<noteq> t" "waiting s u" for u
    using that k'(13) [of u] st by auto
  moreover have "\<not> waiting s t" using k'(13) [of t] t(2) by auto
  moreover have "unat (cpu_irq_disable_counter s') + 2 \<le> 2 ^ 31"
    using pl(2,3) unat_sub [of 2 "cpu_irq_disable_counter s3"] by (simp add: word_le_nat_alt s'_def)
  moreover have "\<not> locks s' l" for l using sw f2(6) k'(3) by (cases l) (simp_all add: s'_def)
  moreover have "sched_prevent_count s' = 0" "\<not> sched_postponed s'" using sw f2 by (simp_all add: s'_def)
  moreover have "\<not> idling (threads s' t)" using sw nid by (simp add: th)
  ultimately have "kernel_ok (remove1 t R) W T s'"
    using st [of t] by (simp add: kernel_ok_def kcore_def cu ph')
  then show ?thesis using run cs' cu ph' by (simp add: s2_def)
qed

lemma IdleWake_spec:
  assumes k: "kernel_ok R W T s" and ph: "cpu_phase s = Parked og" and sq: "something_unblocked_seq s \<noteq> og"
  shows "\<exists>s'. IdleWake s = Some s' \<and> client_same s s' \<and>
    (case idle_choice s R of
       None \<Rightarrow> kernel_ok R W T s' \<and> current_thread s' = current_thread s \<and>
         cpu_phase s' = Parked (something_unblocked_seq s)
     | Some t \<Rightarrow> kernel_ok (remove1 t R) W T s' \<and> current_thread s' = t \<and> cpu_phase s' = Executing)"
proof -
  note k' = kernel_okD [OF k]
  note p = placedD [OF k'(7)]
  have cur: "state (threads s (current_thread s)) \<noteq> THREAD_STATE_RUNNING" "idling (threads s (current_thread s))"
    "1 \<le> unat (cpu_irq_disable_counter s)" "unat (cpu_irq_disable_counter s) + 1 \<le> 2 ^ 31"
    using k ph by (auto simp: kernel_ok_def)
  let ?c = "cpu_irq_disable_counter s" and ?i = "current_thread s"
  define s1 where "s1 = s\<lparr>interrupts := False, cpu_irq_disable_counter := ?c + 1, locks := (locks s)(SchedLock := True)\<rparr>"
  have acq: "AcquireSpinlock SchedLock (s\<lparr>interrupts := False\<rparr>) = Some s1"
    using k'(3,12) cur(3) by (subst AcquireSpinlock_off) (simp_all add: room_def unat_eq0_32 s1_def)
  have cs: "client_same s s1" by (simp add: s1_def client_same_def)
  have rq1: "ready_queue s1 R" using p(1) by (simp add: s1_def)
  have f1: "sched_init s1" "current_thread s1 = ?i" "sched_prevent_count s1 = 0" "\<not> sched_postponed s1"
    "sched_postponed_thr s1 = None" "locks s1 = (locks s)(SchedLock := True)" "\<not> interrupts s1"
    "cpu_irq_disable_counter s1 = ?c + 1" "threads s1 = threads s" "something_unblocked_seq s1 = something_unblocked_seq s"
    using p(2) k'(4,5,10) by (simp_all add: s1_def)
  show ?thesis
  proof (cases "state (threads s ?i) = THREAD_STATE_READY")
    case True
    then have n: "idle_choice s R = Some ?i" by (simp add: idle_choice_def)
    have "ready_queue s1 (remove1 ?i R)" using rq1 p(3) by (simp add: remove1_idem)
    from idle_leave [OF k ph n cs this f1(1-8)] f1(9) show ?thesis
      using acq True ph sq n by (auto simp: IdleWake_def Let_def f1(2) bind_eq_Some_conv)
  next
    case False
    have can: "CanThreadRunOnThisCpu t s1 = CanThreadRunOnThisCpu t s" for t by (simp add: s1_def)
    obtain s2 where s2: "FindNextThread s1 = Some (idle_choice s R, s2)"
      "ready_queue s2 (case idle_choice s R of None \<Rightarrow> R | Some t \<Rightarrow> remove1 t R)"
      "idle_choice s R = None \<Longrightarrow> s2 = s1" "ready_frame s1 s2"
      using FindNextThread_full [OF rq1] False by (auto simp: can idle_choice_def)
    show ?thesis
    proof (cases "idle_choice s R")
      case (Some t)
      note g = ready_frame_globals [OF s2(4), unfolded same_globals_def]
      note th = ready_frame_threads [OF s2(4)]
      have cs2: "client_same s s2" using cs th(4) by (rule client_same_trans)
      have rq2: "ready_queue s2 (remove1 t R)" using s2(2) Some by simp
      have "\<exists>s'. FinishSwitch True t (upd_thread ?i (\<lambda>x. x\<lparr>idling := False\<rparr>)
          (s2\<lparr>cpu_phase := Executing\<rparr>)) \<bind> ReleaseTail = Some s' \<and> kernel_ok (remove1 t R) W T s' \<and>
        client_same s s' \<and> current_thread s' = t \<and> cpu_phase s' = Executing"
        using f1 g by (intro idle_leave [OF k ph Some cs2 rq2]) (simp_all add: th)
      then show ?thesis
        using acq False ph sq Some s2(1) by (auto simp: IdleWake_def Let_def f1 bind_eq_Some_conv)
    next
      case None
      define s' where "s' = s1\<lparr>locks := (locks s1)(SchedLock := False), cpu_irq_disable_counter := ?c,
        interrupts := True, cpu_phase := Parked (something_unblocked_seq s)\<rparr>"
      have "ReleaseSpinlock SchedLock s1 = Some (s1\<lparr>locks := (locks s1)(SchedLock := False),
          cpu_irq_disable_counter := ?c\<rparr>)"
        using cur(3,4) f1 by (intro ReleaseSpinlock_nested) (simp_all add: unat_eq0_32)
      then have run: "IdlePark s1 = Some s'" by (simp add: IdlePark_def s'_def f1)
      have cs': "client_same s s'" by (simp add: s'_def s1_def client_same_def)
      have "kcore R W T s'" using k'(1) by (subst kcore_cong [of s' s]) (simp_all add: s'_def s1_def)
      moreover have "timers s' T" using k'(2) by (subst timers_cong [of s' s]) (simp_all add: s'_def s1_def)
      moreover have "waiting s' u = waiting s u" for u using client_same_lists(4) [OF cs'] .
      moreover have "\<not> locks s' l" for l using k'(3) by (cases l) (simp_all add: s'_def s1_def)
      moreover have "current_thread s' = ?i" "cpu_phase s' = Parked (something_unblocked_seq s)"
        "threads s' = threads s" "sched_prevent_count s' = 0" "\<not> sched_postponed s'" "cpu_irq_disable_counter s' = ?c"
        using k'(4,5) by (simp_all add: s'_def s1_def)
      ultimately have "kernel_ok R W T s'" using k ph cur unfolding kernel_ok_def by simp
      then show ?thesis
        using acq False ph sq None s2(1,3) run cs' \<open>current_thread s' = ?i\<close> \<open>cpu_phase s' = _\<close>
        by (simp add: IdleWake_def Let_def f1)
    qed
  qed
qed

lemma IdleWake_spurious:
  "cpu_phase s = Parked (something_unblocked_seq s) \<Longrightarrow> IdleWake s = Some s"
  by (simp add: IdleWake_def)

section \<open>New threads\<close>

text \<open>A new thread leaves the lock exactly as the end of \<open>ReleaseScheduler\<close> does.\<close>

lemma BeginNewThread_tail:
  "sched_prevent_count s = 0 \<Longrightarrow> BeginNewThread s = ReleaseTail s"
  by (simp add: BeginNewThread_def ReleaseTail_def)

lemma sem_queues_fresh:
  assumes w: "waiting_sem_or_clot (threads s t) = None" "waiting_sem_or_clot (threads s' t) = None"
    and th: "\<And>u. u \<noteq> t \<Longrightarrow> threads s' u = threads s u"
    and se: "sems s' = sems s" and cl: "clots s' = clots s" and W: "sem_queues s W"
  shows "sem_queues s' W"
proof -
  obtain Q where Q: "semq s Q" "\<And>q. W q = map (\<lambda>w. the (owner s w)) (Q q)"
    using W by (auto simp: sem_queues_def)
  have wt: "waiting_sem_or_clot (threads s' u) = waiting_sem_or_clot (threads s u)" for u
    using w th by (cases "u = t") auto
  have ow: "owner s' = owner s" by (simp add: owner_def cl fun_eq_iff split: waiter.split)
  have wa: "waits s' = waits s" by (simp add: waits_def wt cl fun_eq_iff split: waiter.split)
  have ck: "clots_ok s' = clots_ok s" by (simp add: clots_ok_def wt cl)
  have nx: "the_next s' q x = the_next s q x" if "waits s q x" for q x
  proof (cases x)
    case (Thr u)
    then have "u \<noteq> t" using that w by (auto simp: waits_def)
    then show ?thesis using Thr th by (simp add: the_next_def read_next_def)
  next
    case (Clot c)
    then show ?thesis by (simp add: the_next_def read_next_def cl)
  qed
  have "sem_chain s' q (Q q)" for q
  proof -
    have "sem_chain s q (Q q)" "\<forall>x\<in>set (Q q). waits s q x" using Q(1) by (simp_all add: semq_def lists_ok_def)
    moreover from this have "chain (the_next s' q) p (Q q) None \<longleftrightarrow> chain (the_next s q) p (Q q) None" for p
      using nx by (intro chain_cong) simp
    ultimately show ?thesis by (simp add: sem_chain_def se)
  qed
  then have "semq s' Q" using Q(1) by (simp add: semq_def lists_ok_def wa ck)
  then show ?thesis using Q(2) by (auto simp: sem_queues_def ow)
qed

definition new_thread :: "thread \<Rightarrow> thread" where
  "new_thread x = x\<lparr>next_ready := None, next_waiting_timer := None,
     next_waiting_sem := None, waiting_sem_or_clot := None, priority := 128,
     block_return_val := 0, wakeup_time_ns := 0, affinity_bitmask := - 1,
     idling := False, irq_disable_counter := 2, saved_interrupt_enabled := True\<rparr>"

lemma new_thread_kernel_ok:
  assumes k: "kernel_ok R W T s" and t: "state (threads s t) = THREAD_STATE_BLOCKED" "\<not> waiting s t"
    "t \<noteq> current_thread s"
  shows "kernel_ok R W T (upd_thread t new_thread s)"
proof -
  let ?s = "upd_thread t new_thread s"
  note k' = kernel_okD [OF k]
  note p = placedD [OF k'(7)]
  have tR: "t \<notin> set R" using p(5) t(1) by fastforce
  have th: "threads ?s u = (if u = t then new_thread (threads s t) else threads s u)" for u by simp
  have st: "state (threads ?s u) = state (threads s u)" for u by (simp add: new_thread_def)
  have wa: "waiting ?s u = waiting s u" for u using t(2) by (auto simp: waiting_def new_thread_def)
  have wk: "wake ?s u = wake s u" for u using t(2) by (simp add: waiting_def new_thread_def)
  have can: "CanThreadRunOnThisCpu u ?s = CanThreadRunOnThisCpu u s" if "u \<noteq> t" for u
    using that by (simp add: CanThreadRunOnThisCpu_def)
  have "chain (\<lambda>u. next_ready (threads ?s u)) q R None \<longleftrightarrow> chain (\<lambda>u. next_ready (threads s u)) q R None" for q
    using tR by (intro chain_cong) auto
  then have "ready_queue ?s R" using p(1) by (simp add: ready_queue_def)
  then have "placed R ?s"
    using p(2,3) k'(10)
  proof (intro placedI)
    show "CanThreadRunOnThisCpu (current_thread ?s) ?s" using p(4) t(3) can by simp
  next
    fix u assume "u \<in> set R"
    then show "state (threads ?s u) = THREAD_STATE_READY" using p(5) st by simp
  next
    fix u assume "state (threads ?s u) = THREAD_STATE_READY"
    then show "u \<in> set R \<or> sched_postponed_thr ?s = Some u \<or> u = current_thread ?s \<and> idling (threads ?s u)"
    proof (cases "u = t")
      case True
      then show ?thesis using \<open>state (threads ?s u) = THREAD_STATE_READY\<close> st [of t] t(1) by simp
    next
      case False
      then show ?thesis using \<open>state (threads ?s u) = THREAD_STATE_READY\<close> p(6) [of u] by simp
    qed
  next
    fix u assume "state (threads ?s u) = THREAD_STATE_RUNNING"
    then show "u = current_thread ?s" using p(7) [of u] st by simp
  next
    fix u assume "idling (threads ?s u)"
    then show "u = current_thread ?s" using p(8) [of u] by (simp add: new_thread_def split: if_splits)
  next
    fix u show "2 \<le> unat (irq_disable_counter (threads ?s u)) \<and> unat (irq_disable_counter (threads ?s u)) \<le> 2 ^ 31"
      using p(10,11) [of u] by (simp add: new_thread_def)
  qed simp_all
  moreover have "sem_queues ?s W"
    using t(2) k'(8) by (intro sem_queues_fresh [of s t ?s]) (simp_all add: waiting_def new_thread_def)
  moreover have tc: "timer_chain ?s T"
  proof -
    have "t \<notin> set T" using k'(9) t(2) by (simp add: timer_chain_def waiting_def)
    then have "chain (\<lambda>u. next_waiting_timer (threads ?s u)) q T None \<longleftrightarrow>
        chain (\<lambda>u. next_waiting_timer (threads s u)) q T None" for q
      by (intro chain_cong) auto
    then show ?thesis using k'(9) wk by (simp add: timer_chain_def)
  qed
  moreover have "timers ?s T" using tc k'(2) wk by (simp add: timers_def split: list.splits)
  ultimately show ?thesis
    using k st wa t(3) unfolding kernel_ok_def kcore_def by (simp split: phase.splits)
qed

lemma CreateThreadEx_spec:
  assumes k: "kernel_ok R W T s" and t: "state (threads s t) = THREAD_STATE_BLOCKED" "\<not> waiting s t"
    "t \<noteq> current_thread s"
  shows "\<exists>s' R'. CreateThreadEx t s = Some s' \<and> kernel_ok R' W T s' \<and>
    (state (threads s' t) = THREAD_STATE_READY \<or> current_thread s' = t) \<and>
    (\<forall>q. count (sems s' q) = count (sems s q) \<and> smax (sems s' q) = smax (sems s q))"
proof -
  let ?s = "upd_thread t new_thread s"
  have k0: "kernel_ok R W T ?s" using new_thread_kernel_ok [OF k t] .
  note a = AcquireScheduler_spec [OF k0]
  have t': "state (threads (acquired ?s) t) = THREAD_STATE_BLOCKED" using t(1) by (simp add: new_thread_def)
  from UnblockThread_in_op [OF a(2) t', of 0] t(3) obtain s1 where s1: "UnblockThread t 0 (acquired ?s) = Some s1"
    "in_op (unblocked_queue t (acquired ?s) R) (\<lambda>q. filter (\<lambda>x. x \<noteq> t) (W q)) (filter (\<lambda>x. x \<noteq> t) T) s1"
    "state (threads s1 t) = THREAD_STATE_READY" "others_same t (acquired ?s) s1" by auto
  from ReleaseScheduler_spec [OF s1(2)] obtain s' R' where s': "ReleaseScheduler s1 = Some s'"
    "kernel_ok R' (\<lambda>q. filter (\<lambda>x. x \<noteq> t) (W q)) (filter (\<lambda>x. x \<noteq> t) T) s'"
    "R' = released_queue s1 (unblocked_queue t (acquired ?s) R)"
    "current_thread s' = released_current s1 (unblocked_queue t (acquired ?s) R)"
    "client_same s1 s'" by blast
  have cnt: "\<forall>q. count (sems s' q) = count (sems s q) \<and> smax (sems s' q) = smax (sems s q)"
    using s1(4) s'(5) by (simp add: others_same_def client_same_def)
  have "t \<in> set R' \<or> t = current_thread s'"
    using released_keeps [OF s1(2), of t] s1(3) s'(3,4) by simp
  then have st: "state (threads s' t) = THREAD_STATE_READY \<or> current_thread s' = t"
    using placedD(5) [OF kernel_okD(7) [OF s'(2)]] by blast
  have "t \<notin> set (W q)" for q
    using sem_queues_mem [OF kernel_okD(8) [OF k], of t q] t(2) by (simp add: wait_set_def waiting_def)
  then have "(\<lambda>q. filter (\<lambda>x. x \<noteq> t) (W q)) = W" by (intro ext filter_True) metis
  moreover have "t \<notin> set T"
    using kernel_okD(9) [OF k] t(2) by (simp add: timer_chain_def waiting_def)
  then have "filter (\<lambda>x. x \<noteq> t) T = T" by (intro filter_True) auto
  ultimately show ?thesis
    using a(1) s1(1) s'(1,2) st cnt by (auto simp: CreateThreadEx_def new_thread_def [abs_def] Let_def)
qed

lemma SetThreadPriority_spec:
  assumes k: "kernel_ok R W T s"
  shows "\<exists>s'. SetThreadPriority t p s = Some s' \<and> kernel_ok R W T s' \<and>
    current_thread s' = current_thread s \<and> (\<forall>u. priority (threads s' u) = (if u = t then p else priority (threads s u))) \<and>
    (\<forall>q. count (sems s' q) = count (sems s q) \<and> smax (sems s' q) = smax (sems s q))"
proof -
  note a = AcquireScheduler_spec [OF k]
  note o' = in_opD [OF a(2)]
  let ?s = "upd_thread t (\<lambda>x. x\<lparr>priority := p\<rparr>) (acquired s)"
  note q = placedD [OF o'(7)]
  have rq: "ready_queue ?s R" using q(1) by (subst ready_queue_cong [of _ "acquired s"]) simp_all
  have th: "state (threads ?s u) = state (threads s u)" "idling (threads ?s u) = idling (threads s u)"
    "irq_disable_counter (threads ?s u) = irq_disable_counter (threads s u)"
    "CanThreadRunOnThisCpu u ?s = CanThreadRunOnThisCpu u (acquired s)" for u
    by (simp_all add: CanThreadRunOnThisCpu_def)
  have gl: "current_thread ?s = current_thread s" "sched_init ?s = sched_init s"
    "sched_postponed_thr ?s = sched_postponed_thr s" "sched_postponed ?s = sched_postponed s" by simp_all
  have "placed R ?s"
    unfolding placed_def th gl using o'(7) rq unfolding placed_def by (simp only: acquired_fields) blast
  moreover have "sem_queues ?s W" using o'(8) by (subst sem_queues_cong [of _ "acquired s"]) simp_all
  moreover have tc: "timer_chain ?s T = timer_chain (acquired s) T" by (rule timer_chain_cong) simp_all
  moreover have "timers ?s T" using o'(2) tc by (simp add: timers_def split: list.splits)
  moreover have "waiting ?s u = waiting (acquired s) u" for u by (simp add: waiting_def)
  ultimately have op: "in_op R W T ?s"
    using a(2) o'(9) unfolding in_op_def kcore_def by (cases "t = current_thread s") (simp_all split: phase.splits)
  have np: "\<not> sched_postponed ?s" "sched_postponed_thr ?s = None" using kernel_okD(5,10) [OF k] by simp_all
  from release_plain [OF op np(1)] np(2) obtain s' where s': "ReleaseScheduler ?s = Some s'" "kernel_ok R W T s'"
    "current_thread s' = current_thread s" "threads s' = threads ?s" "client_same ?s s'"
    using np(1) by (auto simp: released_queue_def released_current_def switches_def)
  then show ?thesis using a(1) by (simp add: SetThreadPriority_def client_same_def)
qed

end
