(* ===== verification/Timer.thy ===== *)
theory Timer
  imports SchedOps
begin

text \<open>
  Sleeping and waking up: the rest of \<^verbatim>\<open>kernel/core/timer.c\<close>, on top of the list of
  sleeping threads (theory TimerQueue) and of the scheduler. \<open>AdvanceTimer\<close> is called by the timer
  interrupt.
\<close>

section \<open>Operations\<close>

text \<open>
  The boolean is the source's result; when the thread has gone to sleep it is delivered once the
  thread runs again.
\<close>

definition AddThreadToSleepQueue :: "bool \<Rightarrow> u64 \<Rightarrow> bool \<Rightarrow> kstate \<Rightarrow> (bool \<times> kstate) option" where
  "AddThreadToSleepQueue relative ns need_sched_lock s =
     do { s \<leftarrow> (if need_sched_lock then AcquireScheduler s else Some s);
          s \<leftarrow> AcquireSpinlock TimerLock s;
          let ns = (if relative then ns + ns_since_boot s else ns);
          if ns \<le> ns_since_boot s then
            do { s \<leftarrow> ReleaseSpinlock TimerLock s;
                 s \<leftarrow> (if need_sched_lock then ReleaseScheduler s else Some s);
                 Some (False, s) }
          else
            do { let s = (if next_wakeup_ns s = 0 \<or> ns < next_wakeup_ns s
                          then s\<lparr>next_wakeup_ns := ns\<rparr> else s);
                 s \<leftarrow> ReleaseSpinlock TimerLock s;
                 s \<leftarrow> SleepQueueInsert (current_thread s) ns s;
                 s \<leftarrow> BlockThread s;
                 s \<leftarrow> (if need_sched_lock then ReleaseScheduler s else Some s);
                 Some (True, s) } }"

definition SleepUntil :: "u64 \<Rightarrow> kstate \<Rightarrow> (bool \<times> kstate) option" where
  "SleepUntil ns s = AddThreadToSleepQueue False ns True s"

definition SleepNano :: "u64 \<Rightarrow> kstate \<Rightarrow> (bool \<times> kstate) option" where
  "SleepNano ns s = AddThreadToSleepQueue True ns True s"

definition SleepMilli :: "u64 \<Rightarrow> kstate \<Rightarrow> (bool \<times> kstate) option" where
  "SleepMilli ms s = AddThreadToSleepQueue True (ms * 1000000) True s"

partial_function (option) DoWakeups :: "u64 \<Rightarrow> kstate \<Rightarrow> kstate option" where
  "DoWakeups ns s =
     (case first_waiting_timer s of
        None \<Rightarrow> Some (s\<lparr>next_wakeup_ns := 0\<rparr>)
      | Some t \<Rightarrow>
          if wakeup_time_ns (threads s t) \<le> ns then
            do { let s = (upd_thread t (\<lambda>x. x\<lparr>wakeup_time_ns := 0\<rparr>) s)
                           \<lparr>first_waiting_timer := next_waiting_timer (threads s t)\<rparr>;
                 s \<leftarrow> UnblockThread t (errno_code ETIMEDOUT) s;
                 DoWakeups ns s }
          else Some (s\<lparr>next_wakeup_ns := wakeup_time_ns (threads s t)\<rparr>))"

definition AdvanceTimer :: "u64 \<Rightarrow> kstate \<Rightarrow> kstate option" where
  "AdvanceTimer ns s =
     do { s \<leftarrow> AcquireScheduler s;
          s \<leftarrow> AcquireSpinlock TimerLock s;
          let s = s\<lparr>ns_since_boot := ns_since_boot s + ns\<rparr>;
          s \<leftarrow> (if next_wakeup_ns s \<noteq> 0 \<and> next_wakeup_ns s \<le> ns_since_boot s
                then DoWakeups (ns_since_boot s) s else Some s);
          s \<leftarrow> ReleaseSpinlock TimerLock s;
          ReleaseScheduler s }"

section \<open>Waking up\<close>

text \<open>A waiting thread is blocked, and is the current one only while that idles the CPU.\<close>

definition waiters_blocked :: "kstate \<Rightarrow> bool" where
  "waiters_blocked s \<longleftrightarrow> (\<forall>t. waiting s t \<longrightarrow>
     state (threads s t) = THREAD_STATE_BLOCKED \<and> (t = current_thread s \<longrightarrow> idling (threads s t)))"

text \<open>Taking the first thread off the list, as the loop does before it unblocks it.\<close>

lemma pop_timer:
  assumes k: "kcore R W (t # T) s" and wb: "waiters_blocked s"
  defines "s1 \<equiv> (upd_thread t (\<lambda>x. x\<lparr>wakeup_time_ns := 0\<rparr>) s)
    \<lparr>first_waiting_timer := next_waiting_timer (threads s t)\<rparr>"
  shows "kcore R W T s1" "wake s1 t = 0" "t \<notin> set T"
    "\<And>u. u \<noteq> t \<Longrightarrow> wake s1 u = wake s u" "\<And>u. state (threads s1 u) = state (threads s u)"
    "\<And>u. waiting s1 u \<Longrightarrow> waiting s u" "waiters_blocked s1" "same_globals s s1" "others_same t s s1"
    "\<And>u. block_return_val (threads s1 u) = block_return_val (threads s u)"
proof -
  have tc: "timer_chain s (t # T)" and pl: "placed R s" using k by (simp_all add: kcore_def)
  note p = placedD [OF pl]
  have dist: "distinct (t # T)" using tc by (rule timer_chain_distinct)
  have first: "first_waiting_timer s = Some t" using tc by (simp add: timer_chain_def)
  show w0: "wake s1 t = 0" and wo: "\<And>u. u \<noteq> t \<Longrightarrow> wake s1 u = wake s u"
    and st: "\<And>u. state (threads s1 u) = state (threads s u)"
    and "\<And>u. block_return_val (threads s1 u) = block_return_val (threads s u)"
    by (simp_all add: s1_def)
  show tT: "t \<notin> set T" using dist by simp
  show wt: "\<And>u. waiting s1 u \<Longrightarrow> waiting s u"
    by (auto simp: waiting_def s1_def split: if_splits)
  have id: "idling (threads s1 u) = idling (threads s u)" for u by (simp add: s1_def)
  show wb1: "waiters_blocked s1"
  proof -
    have "current_thread s1 = current_thread s" by (simp add: s1_def)
    then show ?thesis using wb wt st id unfolding waiters_blocked_def by metis
  qed
  show "same_globals s s1" by (simp add: same_globals_def s1_def)
  have wset: "wait_set s1 u = wait_set s u" for u by (rule wait_set_cong) (simp_all add: s1_def)
  show "others_same t s s1" by (simp add: others_same_def wset) (simp add: s1_def)
  have th: "idling (threads s1 u) = idling (threads s u)"
    "irq_disable_counter (threads s1 u) = irq_disable_counter (threads s u)"
    "CanThreadRunOnThisCpu u s1 = CanThreadRunOnThisCpu u s" for u
    by (simp_all add: s1_def CanThreadRunOnThisCpu_def)
  have gl: "current_thread s1 = current_thread s" "sched_init s1 = sched_init s"
    "sched_postponed_thr s1 = sched_postponed_thr s" "sched_postponed s1 = sched_postponed s"
    by (simp_all add: s1_def)
  have rq: "ready_queue s1 R = ready_queue s R" by (rule ready_queue_cong) (simp_all add: s1_def)
  have "placed R s1" unfolding placed_def rq st th gl using pl unfolding placed_def .
  moreover have "sem_queues s1 W"
    using k by (subst sem_queues_cong [of s1 s]) (simp_all add: s1_def kcore_def)
  moreover have "timer_chain s1 T"
  proof -
    have "chain (\<lambda>u. next_waiting_timer (threads s1 u)) (first_waiting_timer s1) T None"
    proof -
      have "(\<lambda>u. next_waiting_timer (threads s1 u)) = (\<lambda>u. next_waiting_timer (threads s u))"
        by (simp add: s1_def fun_eq_iff)
      moreover have "first_waiting_timer s1 = next_waiting_timer (threads s t)" by (simp add: s1_def)
      ultimately show ?thesis using tc by (simp add: timer_chain_def)
    qed
    moreover have "map (wake s1) T = map (wake s) T" using tT wo by (intro map_cong refl) metis
    moreover have "u \<in> set T \<longleftrightarrow> wake s1 u \<noteq> 0" for u
      using tc tT w0 wo by (cases "u = t") (auto simp: timer_chain_def)
    moreover have "sorted (map (wake s) T)" using tc by (simp add: timer_chain_def)
    ultimately show ?thesis by (simp only: timer_chain_def) simp
  qed
  ultimately show "kcore R W T s1"
    using k wt st unfolding kcore_def by (simp add: s1_def)
qed

lemma DoWakeups_spec:
  fixes ns :: u64
  assumes "kcore R W T s" "waiters_blocked s"
  defines "V \<equiv> takeWhile (\<lambda>t. wake s t \<le> ns) T"
  shows "\<exists>s' R'. DoWakeups ns s = Some s' \<and>
    kcore R' (\<lambda>q. filter (\<lambda>x. x \<notin> set V) (W q)) (dropWhile (\<lambda>t. wake s t \<le> ns) T) s' \<and>
    timers s' (dropWhile (\<lambda>t. wake s t \<le> ns) T) \<and> same_globals s s' \<and>
    (sched_postponed s \<longrightarrow> sched_postponed s') \<and>
    (\<forall>u. if u \<in> set V then state (threads s' u) = THREAD_STATE_READY \<and>
           block_return_val (threads s' u) = errno_code ETIMEDOUT \<and> \<not> waiting s' u
         else state (threads s' u) = state (threads s u) \<and>
           block_return_val (threads s' u) = block_return_val (threads s u) \<and>
           waiting s' u = waiting s u \<and> wait_set s' u = wait_set s u \<and> wake s' u = wake s u) \<and>
    (\<forall>u. idling (threads s' u) = idling (threads s u)) \<and>
    (\<forall>q. count (sems s' q) = count (sems s q) \<and> smax (sems s' q) = smax (sems s q))"
  unfolding V_def using assms(1,2)
proof (induction T arbitrary: R W s)
  case Nil
  let ?s = "s\<lparr>next_wakeup_ns := 0\<rparr>"
  have first: "first_waiting_timer s = None" using Nil by (simp add: kcore_def timer_chain_def)
  have "DoWakeups ns s = Some ?s" by (subst DoWakeups.simps) (simp add: first)
  moreover have "kcore R W [] ?s" using Nil(1) by (subst kcore_cong [of _ s]) simp_all
  moreover from this have "timers ?s []" by (simp add: timers_def kcore_def)
  moreover have "wait_set ?s u = wait_set s u" for u by (rule wait_set_cong) simp_all
  ultimately show ?case by (intro exI [of _ ?s] exI [of _ R]) (simp add: same_globals_def waiting_def)
next
  case (Cons t T)
  have first: "first_waiting_timer s = Some t" using Cons.prems by (simp add: kcore_def timer_chain_def)
  show ?case
  proof (cases "wake s t \<le> ns")
    case False
    let ?s = "s\<lparr>next_wakeup_ns := wake s t\<rparr>"
    have "DoWakeups ns s = Some ?s" using False by (subst DoWakeups.simps) (simp add: first)
    moreover have "kcore R W (t # T) ?s" using Cons.prems(1) by (subst kcore_cong [of _ s]) simp_all
    moreover from this have "timers ?s (t # T)" by (simp add: timers_def kcore_def)
    moreover have "wait_set ?s u = wait_set s u" for u by (rule wait_set_cong) simp_all
    ultimately show ?thesis using False
      by (intro exI [of _ ?s] exI [of _ R]) (simp add: same_globals_def waiting_def)
  next
    case True
    define s1 where "s1 = (upd_thread t (\<lambda>x. x\<lparr>wakeup_time_ns := 0\<rparr>) s)
      \<lparr>first_waiting_timer := next_waiting_timer (threads s t)\<rparr>"
    note s1 = pop_timer [OF Cons.prems, folded s1_def]
    have "\<forall>u. u \<in> set (t # T) \<longleftrightarrow> wake s u \<noteq> 0"
      using Cons.prems(1) unfolding kcore_def timer_chain_def by blast
    then have "wake s t \<noteq> 0" by (metis list.set_intros(1))
    then have "waiting s t" by (simp add: waiting_def)
    then have t: "state (threads s1 t) = THREAD_STATE_BLOCKED" "t = current_thread s1 \<longrightarrow> idling (threads s1 t)"
      using Cons.prems(2) by (simp_all add: waiters_blocked_def s1_def)
    from UnblockThread_spec [OF s1(1) t, of "errno_code ETIMEDOUT"] s1(2) obtain s2 where s2:
      "UnblockThread t (errno_code ETIMEDOUT) s1 = Some s2"
      "kcore (unblocked_queue t s1 R) (\<lambda>q. filter (\<lambda>x. x \<noteq> t) (W q)) (filter (\<lambda>x. x \<noteq> t) T) s2"
      "same_globals s1 s2" "others_same t s1 s2" "state (threads s2 t) = THREAD_STATE_READY"
      "block_return_val (threads s2 t) = errno_code ETIMEDOUT"
      "waiting_sem_or_clot (threads s2 t) = None" "wake s2 t = 0" "sched_postponed s1 \<longrightarrow> sched_postponed s2"
      by auto
    have fT: "filter (\<lambda>x. x \<noteq> t) T = T" using s1(3) by (intro filter_True) auto
    note g2 = s2(3) [unfolded same_globals_def]
    note o2 = s2(4) [unfolded others_same_def]
    have wt2: "\<not> waiting s2 t" using s2(7,8) by (simp add: waiting_def)
    have w2: "waiting s2 u = waiting s1 u" if "u \<noteq> t" for u using o2 that by (simp add: waiting_def)
    have wb2: "waiters_blocked s2"
      using s1(7) o2 w2 wt2 g2 unfolding waiters_blocked_def by metis
    have wk2: "wake s2 u = wake s u" if "u \<noteq> t" for u using o2 s1(4) that by simp
    have w1: "waiting s1 u = waiting s u" if "u \<noteq> t" for u using that by (simp add: waiting_def s1_def)
    have tw: "takeWhile (\<lambda>u. wake s2 u \<le> ns) T = takeWhile (\<lambda>u. wake s u \<le> ns) T"
      "dropWhile (\<lambda>u. wake s2 u \<le> ns) T = dropWhile (\<lambda>u. wake s u \<le> ns) T"
    proof -
      have "wake s2 u = wake s u" if "u \<in> set T" for u using that s1(3) wk2 by metis
      then show "takeWhile (\<lambda>u. wake s2 u \<le> ns) T = takeWhile (\<lambda>u. wake s u \<le> ns) T"
        "dropWhile (\<lambda>u. wake s2 u \<le> ns) T = dropWhile (\<lambda>u. wake s u \<le> ns) T"
        by (auto intro!: takeWhile_cong dropWhile_cong)
    qed
    obtain s' R' where s': "DoWakeups ns s2 = Some s'"
      "kcore R' (\<lambda>q. filter (\<lambda>x. x \<notin> set (takeWhile (\<lambda>u. wake s u \<le> ns) T)) (filter (\<lambda>x. x \<noteq> t) (W q)))
        (dropWhile (\<lambda>u. wake s u \<le> ns) T) s'"
      "timers s' (dropWhile (\<lambda>u. wake s u \<le> ns) T)" "same_globals s2 s'" "sched_postponed s2 \<longrightarrow> sched_postponed s'"
      "\<forall>u. if u \<in> set (takeWhile (\<lambda>u. wake s u \<le> ns) T) then state (threads s' u) = THREAD_STATE_READY \<and>
           block_return_val (threads s' u) = errno_code ETIMEDOUT \<and> \<not> waiting s' u
         else state (threads s' u) = state (threads s2 u) \<and>
           block_return_val (threads s' u) = block_return_val (threads s2 u) \<and>
           waiting s' u = waiting s2 u \<and> wait_set s' u = wait_set s2 u \<and> wake s' u = wake s2 u"
      "\<forall>u. idling (threads s' u) = idling (threads s2 u)"
      "\<forall>q. count (sems s' q) = count (sems s2 q) \<and> smax (sems s' q) = smax (sems s2 q)"
      using Cons.IH [OF s2(2) [unfolded fT] wb2] unfolding tw by blast
    have run: "DoWakeups ns s = Some s'"
      using True s2(1) s'(1) by (subst DoWakeups.simps) (simp add: first s1_def)
    have W: "(\<lambda>q. filter (\<lambda>x. x \<notin> set (takeWhile (\<lambda>u. wake s u \<le> ns) T)) (filter (\<lambda>x. x \<noteq> t) (W q))) =
        (\<lambda>q. filter (\<lambda>x. x \<notin> set (takeWhile (\<lambda>u. wake s u \<le> ns) (t # T))) (W q))"
      using True by (auto intro!: ext filter_cong)
    have tV: "t \<notin> set (takeWhile (\<lambda>u. wake s u \<le> ns) T)" using s1(3) by (auto dest: set_takeWhileD)
    have o1: "wait_set s1 u = wait_set s u" "count (sems s1 q) = count (sems s q)" "smax (sems s1 q) = smax (sems s q)"
      if "u \<noteq> t" for u q using s1(9) that by (simp_all add: others_same_def)
    have "same_globals s s'" using s1(8) s2(3) s'(4) by (simp add: same_globals_def)
    moreover have "sched_postponed s \<longrightarrow> sched_postponed s'"
      using s2(9) s'(5) by (simp add: s1_def)
    moreover have "\<forall>u. if u \<in> set (takeWhile (\<lambda>u. wake s u \<le> ns) (t # T))
         then state (threads s' u) = THREAD_STATE_READY \<and>
           block_return_val (threads s' u) = errno_code ETIMEDOUT \<and> \<not> waiting s' u
         else state (threads s' u) = state (threads s u) \<and>
           block_return_val (threads s' u) = block_return_val (threads s u) \<and>
           waiting s' u = waiting s u \<and> wait_set s' u = wait_set s u \<and> wake s' u = wake s u"
    proof
      fix u
      show "if u \<in> set (takeWhile (\<lambda>u. wake s u \<le> ns) (t # T))
         then state (threads s' u) = THREAD_STATE_READY \<and>
           block_return_val (threads s' u) = errno_code ETIMEDOUT \<and> \<not> waiting s' u
         else state (threads s' u) = state (threads s u) \<and>
           block_return_val (threads s' u) = block_return_val (threads s u) \<and>
           waiting s' u = waiting s u \<and> wait_set s' u = wait_set s u \<and> wake s' u = wake s u"
        using spec [OF s'(6), of u] True tV s2(5,6) wt2 o2 s1(5,10) o1 w1 [of u] w2 [of u] wk2 [of u]
        by (cases "u = t") simp_all
    qed
    moreover have "\<forall>u. idling (threads s' u) = idling (threads s u)"
      using s'(7) o2 by (simp add: s1_def)
    moreover have "\<forall>q. count (sems s' q) = count (sems s q) \<and> smax (sems s' q) = smax (sems s q)"
      using s'(8) o2 by (simp add: s1_def)
    ultimately show ?thesis
      using run s'(2,3) True unfolding W by (intro exI [of _ s'] exI [of _ R']) simp
  qed
qed

lemma sorted_dropWhile_filter:
  fixes f :: "'a \<Rightarrow> u64"
  assumes "sorted (map f T)"
  shows "dropWhile (\<lambda>t. f t \<le> n) T = filter (\<lambda>t. n < f t) T"
    "takeWhile (\<lambda>t. f t \<le> n) T = filter (\<lambda>t. f t \<le> n) T"
  using assms
proof (induction T)
  case (Cons t T)
  {
    case 1
    then show ?case using Cons by (auto simp: not_le intro!: filter_True [symmetric])
  next
    case 2
    then have "f t \<le> f x" if "x \<in> set T" for x using that by simp
    then have "\<not> f t \<le> n \<Longrightarrow> filter (\<lambda>t. f t \<le> n) T = []"
      by (intro filter_False) (meson order_trans)
    then show ?case using Cons 2 by simp
  }
qed simp_all

text \<open>
  One tick: time advances, exactly the threads whose time has come are woken with \<open>ETIMEDOUT\<close> and
  leave their queues, and the kernel is consistent again.
\<close>

lemma AdvanceTimer_spec:
  fixes ns :: u64
  assumes k: "kernel_ok R W T s"
  defines "now \<equiv> ns_since_boot s + ns"
  defines "due \<equiv> (\<lambda>t. wake s t \<noteq> 0 \<and> wake s t \<le> now)"
  shows "\<exists>s' R'. AdvanceTimer ns s = Some s' \<and>
    kernel_ok R' (\<lambda>q. filter (\<lambda>x. \<not> due x) (W q)) (filter (\<lambda>t. \<not> due t) T) s' \<and>
    ns_since_boot s' = now \<and>
    (\<forall>t. due t \<longrightarrow> (state (threads s' t) = THREAD_STATE_READY \<or> current_thread s' = t) \<and>
       block_return_val (threads s' t) = errno_code ETIMEDOUT) \<and>
    (\<forall>t. \<not> due t \<longrightarrow> block_return_val (threads s' t) = block_return_val (threads s t) \<and>
       wake s' t = wake s t \<and> wait_set s' t = wait_set s t) \<and>
    (\<forall>q. count (sems s' q) = count (sems s q) \<and> smax (sems s' q) = smax (sems s q))"
proof -
  note k' = kernel_okD [OF k]
  note a = AcquireScheduler_spec [OF k]
  note o' = in_opD [OF a(2)]
  let ?c = "cpu_irq_disable_counter (acquired s)"
  define s1 where "s1 = (acquired s)\<lparr>cpu_irq_disable_counter := ?c + 1, locks := (locks s)(TimerLock := True),
    ns_since_boot := now\<rparr>"
  have f1: "threads s1 = threads s" "sems s1 = sems s" "clots s1 = clots s" "next_wakeup_ns s1 = next_wakeup_ns s"
    "ns_since_boot s1 = now" "current_thread s1 = current_thread s" "first_waiting_timer s1 = first_waiting_timer s"
    by (simp_all add: s1_def)
  have ws1: "wait_set s1 u = wait_set s u" for u by (rule wait_set_cong) (simp_all add: f1)
  have sp: "AcquireSpinlock TimerLock (acquired s) =
      Some ((acquired s)\<lparr>cpu_irq_disable_counter := ?c + 1, locks := (locks s)(TimerLock := True)\<rparr>)"
    using o'(3,12) by (subst AcquireSpinlock_held) simp_all
  have kc: "kcore R W T s1" using o'(1) by (subst kcore_cong [of _ "acquired s"]) (simp_all add: s1_def)
  have cur: "state (threads s (current_thread s)) = THREAD_STATE_RUNNING \<or> idling (threads s (current_thread s))"
    using k by (auto simp: kernel_ok_def split: phase.splits)
  have w1: "waiting s1 u = waiting s u" for u by (simp add: waiting_def f1)
  have wb: "waiters_blocked s1"
    unfolding waiters_blocked_def w1 f1 using k'(13) cur by auto
  have so: "sorted (map (wake s) T)" and mem: "\<And>t. t \<in> set T \<longleftrightarrow> wake s t \<noteq> 0"
    using k'(9) by (auto simp: timer_chain_def)
  have due: "due t \<longleftrightarrow> t \<in> set (takeWhile (\<lambda>t. wake s t \<le> now) T)" for t
    using sorted_dropWhile_filter(2) [OF so] mem by (auto simp: due_def)
  have drop: "dropWhile (\<lambda>t. wake s t \<le> now) T = filter (\<lambda>t. \<not> due t) T"
    unfolding sorted_dropWhile_filter(1) [OF so]
    by (rule filter_cong) (auto simp: due_def mem not_le)
  define s2o where "s2o = (if next_wakeup_ns s1 \<noteq> 0 \<and> next_wakeup_ns s1 \<le> ns_since_boot s1
      then DoWakeups (ns_since_boot s1) s1 else Some s1)"
  have "\<exists>s2 R2. s2o = Some s2 \<and>
    kcore R2 (\<lambda>q. filter (\<lambda>x. \<not> due x) (W q)) (filter (\<lambda>t. \<not> due t) T) s2 \<and>
    timers s2 (filter (\<lambda>t. \<not> due t) T) \<and> same_globals s1 s2 \<and>
    (sched_postponed s1 \<longrightarrow> sched_postponed s2) \<and>
    (\<forall>u. if due u then state (threads s2 u) = THREAD_STATE_READY \<and>
           block_return_val (threads s2 u) = errno_code ETIMEDOUT \<and> \<not> waiting s2 u
         else state (threads s2 u) = state (threads s u) \<and>
           block_return_val (threads s2 u) = block_return_val (threads s u) \<and>
           waiting s2 u = waiting s u \<and> wait_set s2 u = wait_set s u \<and> wake s2 u = wake s u) \<and>
    (\<forall>u. idling (threads s2 u) = idling (threads s u)) \<and>
    (\<forall>q. count (sems s2 q) = count (sems s q) \<and> smax (sems s2 q) = smax (sems s q))"
    (is "\<exists>s2 R2. ?P s2 R2")
  proof (cases "next_wakeup_ns s \<noteq> 0 \<and> next_wakeup_ns s \<le> now")
    case True
    then have "s2o = DoWakeups now s1" by (simp add: s2o_def f1)
    then show ?thesis
      using DoWakeups_spec [OF kc wb, of now] unfolding f1 w1 ws1 due [symmetric] drop by metis
  next
    case False
    have nd: "\<not> due t" for t
    proof
      assume "due t"
      then have t: "t \<in> set T" "wake s t \<le> now" using mem by (auto simp: due_def)
      then obtain h T' where T: "T = h # T'" by (cases T) auto
      then have "next_wakeup_ns s = wake s h" "wake s h \<noteq> 0" using k'(2) mem by (auto simp: timers_def)
      moreover have "wake s h \<le> wake s t" using so t(1) T by auto
      ultimately show False using False t(2) by auto
    qed
    have tm: "timers s1 T" using k'(2) by (subst timers_cong [of _ s]) (simp_all add: f1)
    have "s2o = Some s1" using False by (auto simp: s2o_def f1)
    then have "?P s1 R" using kc nd ws1 w1 tm by (simp add: same_globals_def f1)
    then show ?thesis by blast
  qed
  then obtain s2 R2 where s2: "?P s2 R2" by blast
  note g2 = s2 [THEN conjunct2, THEN conjunct2, THEN conjunct2, THEN conjunct1, unfolded same_globals_def]
  have g1: "locks s1 = (locks s)(TimerLock := True)" "cpu_irq_disable_counter s1 = ?c + 1" "\<not> interrupts s1"
    "sched_prevent_count s1 = sched_prevent_count (acquired s)" "cpu_phase s1 = cpu_phase s" by (simp_all add: s1_def)
  have s2': "s2o = Some s2" "kcore R2 (\<lambda>q. filter (\<lambda>x. \<not> due x) (W q)) (filter (\<lambda>t. \<not> due t) T) s2"
    "timers s2 (filter (\<lambda>t. \<not> due t) T)"
    and th2: "\<And>u. if due u then state (threads s2 u) = THREAD_STATE_READY \<and>
           block_return_val (threads s2 u) = errno_code ETIMEDOUT \<and> \<not> waiting s2 u
         else state (threads s2 u) = state (threads s u) \<and>
           block_return_val (threads s2 u) = block_return_val (threads s u) \<and>
           waiting s2 u = waiting s u \<and> wait_set s2 u = wait_set s u \<and> wake s2 u = wake s u"
    and id2: "\<And>u. idling (threads s2 u) = idling (threads s u)"
    and ct2: "\<And>q. count (sems s2 q) = count (sems s q) \<and> smax (sems s2 q) = smax (sems s q)"
    using s2 by blast+
  let ?s3 = "s2\<lparr>locks := (locks s2)(TimerLock := False), cpu_irq_disable_counter := ?c\<rparr>"
  have rel: "ReleaseSpinlock TimerLock s2 = Some ?s3"
    using g1 g2 o'(10,11) by (intro ReleaseSpinlock_nested) (simp_all add: unat_eq0_32)
  have w3: "waiting ?s3 u = waiting s2 u" for u by (simp add: waiting_def)
  have kc3: "kcore R2 (\<lambda>q. filter (\<lambda>x. \<not> due x) (W q)) (filter (\<lambda>t. \<not> due t) T) ?s3"
    using s2'(2) by (subst kcore_cong [of _ s2]) simp_all
  have tm3: "timers ?s3 (filter (\<lambda>t. \<not> due t) T)" using s2'(3) by (subst timers_cong [of _ s2]) simp_all
  have lk: "\<not> locks ?s3 l" for l using g1 g2 k'(3) by (cases l) simp_all
  have run: "\<not> due (current_thread s)" if "cpu_phase s = Executing"
    using k'(13) [of "current_thread s"] k that by (auto simp: due_def waiting_def kernel_ok_def)
  have op: "in_op R2 (\<lambda>q. filter (\<lambda>x. \<not> due x) (W q)) (filter (\<lambda>t. \<not> due t) T) ?s3"
    using a(2) k kc3 tm3 lk g1 g2 f1 th2 [of "current_thread s"] id2 w3 run
    unfolding in_op_def kernel_ok_def by (auto split: phase.splits if_splits)
  from ReleaseScheduler_spec [OF op] obtain s' R' where s': "ReleaseScheduler ?s3 = Some s'"
    "kernel_ok R' (\<lambda>q. filter (\<lambda>x. \<not> due x) (W q)) (filter (\<lambda>t. \<not> due t) T) s'" "client_same ?s3 s'"
    "R' = released_queue ?s3 R2" "current_thread s' = released_current ?s3 R2" by blast
  note c = s'(3) [unfolded client_same_def]
  have "AdvanceTimer ns s = do { s \<leftarrow> s2o; s \<leftarrow> ReleaseSpinlock TimerLock s; ReleaseScheduler s }"
    unfolding AdvanceTimer_def a(1) bind.bind_lunit sp Let_def s2o_def s1_def now_def by simp
  then have adv: "AdvanceTimer ns s = Some s'"
    unfolding s2'(1) bind.bind_lunit rel s'(1) .
  have "state (threads s' t) = THREAD_STATE_READY \<or> current_thread s' = t" if "due t" for t
  proof -
    have "state (threads ?s3 t) \<noteq> THREAD_STATE_BLOCKED" using th2 [of t] that by simp
    from released_keeps [OF op this] show ?thesis
      using placedD(5) [OF kernel_okD(7) [OF s'(2)]] s'(4,5) by blast
  qed
  moreover have "block_return_val (threads s' t) = block_return_val (threads s2 t)" "wake s' t = wake s2 t" for t
    using c by simp_all
  moreover have "wait_set s' t = wait_set s2 t" for t
    using client_same_lists(5) [OF s'(3)] wait_set_cong [of ?s3 t s2] by simp
  moreover have "ns_since_boot s' = now" using c g2 f1 by simp
  ultimately show ?thesis
    using adv s'(2) th2 ct2 c by (intro exI [of _ s'] exI [of _ R']) auto
qed

section \<open>Going to sleep\<close>

text \<open>
  With the scheduler lock held: the thread is put on the list of sleepers, in the order of wakeup
  times, and blocked; or nothing at all happens, when the time has already come.
\<close>

lemma SleepQueue_in_op:
  fixes ns :: u64 and relative :: bool
  assumes op: "in_op R W T s" and ph: "cpu_phase s = Executing"
    and nw: "\<not> waiting s (current_thread s)"
  defines "at \<equiv> if relative then ns + ns_since_boot s else ns"
  shows "if at \<le> ns_since_boot s then AddThreadToSleepQueue relative ns False s = Some (False, s)
    else \<exists>s'. AddThreadToSleepQueue relative ns False s = Some (True, s') \<and>
      in_op R W (sleep_insert s (current_thread s) at T) s' \<and> cpu_phase s' = Executing \<and>
      current_thread s' = current_thread s \<and> wake s' (current_thread s) = at \<and>
      waiting_sem_or_clot (threads s' (current_thread s)) = None \<and>
      state (threads s' (current_thread s)) = THREAD_STATE_BLOCKED \<and> sems s' = sems s \<and> clots s' = clots s \<and>
      ns_since_boot s' = ns_since_boot s \<and>
      (\<forall>u. u \<noteq> current_thread s \<longrightarrow> wake s' u = wake s u \<and>
        waiting_sem_or_clot (threads s' u) = waiting_sem_or_clot (threads s u) \<and>
        state (threads s' u) = state (threads s u))"
proof -
  note o' = in_opD [OF op]
  let ?c = "cpu_irq_disable_counter s" and ?t = "current_thread s"
  let ?s1 = "s\<lparr>cpu_irq_disable_counter := ?c + 1, locks := (locks s)(TimerLock := True)\<rparr>"
  have sp: "AcquireSpinlock TimerLock s = Some ?s1"
    using o'(3,12) by (subst AcquireSpinlock_held) simp_all
  have body: "AddThreadToSleepQueue relative ns False s =
      (if at \<le> ns_since_boot s then do { s \<leftarrow> ReleaseSpinlock TimerLock ?s1; Some (False, s) }
       else do { s \<leftarrow> ReleaseSpinlock TimerLock (if next_wakeup_ns ?s1 = 0 \<or> at < next_wakeup_ns ?s1
                   then ?s1\<lparr>next_wakeup_ns := at\<rparr> else ?s1);
                 s \<leftarrow> SleepQueueInsert (current_thread s) at s;
                 s \<leftarrow> BlockThread s;
                 Some (True, s) })"
    unfolding AddThreadToSleepQueue_def by (cases relative) (simp_all add: sp at_def Let_def)
  have lk: "(locks s)(TimerLock := False) = locks s" using o'(3) by (auto simp: fun_eq_iff)
  have c: "?c \<noteq> 0" "unat ?c + 1 < 2 ^ 32" using o'(10,11) by (simp_all add: unat_eq0_32)
  show ?thesis
  proof (cases "at \<le> ns_since_boot s")
    case True
    have "ReleaseSpinlock TimerLock ?s1 = Some (?s1\<lparr>locks := (locks ?s1)(TimerLock := False), cpu_irq_disable_counter := ?c\<rparr>)"
      using c by (intro ReleaseSpinlock_nested) simp_all
    then have "ReleaseSpinlock TimerLock ?s1 = Some s" by (simp add: lk)
    then show ?thesis using True by (simp add: body)
  next
    case False
    define s2 where "s2 = s\<lparr>next_wakeup_ns := (if next_wakeup_ns s = 0 \<or> at < next_wakeup_ns s then at else next_wakeup_ns s)\<rparr>"
    have rel: "ReleaseSpinlock TimerLock (if next_wakeup_ns ?s1 = 0 \<or> at < next_wakeup_ns ?s1
        then ?s1\<lparr>next_wakeup_ns := at\<rparr> else ?s1) = Some s2"
    proof -
      let ?s = "if next_wakeup_ns ?s1 = 0 \<or> at < next_wakeup_ns ?s1 then ?s1\<lparr>next_wakeup_ns := at\<rparr> else ?s1"
      have "ReleaseSpinlock TimerLock ?s = Some (?s\<lparr>locks := (locks ?s)(TimerLock := False), cpu_irq_disable_counter := ?c\<rparr>)"
        using c by (intro ReleaseSpinlock_nested) simp_all
      then show ?thesis by (auto simp: lk s2_def)
    qed
    have w0: "wake s2 ?t = 0" "at \<noteq> 0" using nw False by (auto simp: waiting_def s2_def)
    have tc2: "timer_chain s2 T" using o'(9) by (subst timer_chain_cong [of _ s]) (simp_all add: s2_def)
    obtain s3 where s3: "SleepQueueInsert ?t at s2 = Some s3" "timer_chain s3 (sleep_insert s2 ?t at T)"
      "timer_frame ?t s2 s3" "wake s3 ?t = at" "next_wakeup_ns s3 = next_wakeup_ns s2"
      using SleepQueueInsert_spec [OF tc2 w0] by blast
    note f3 = timer_frame_fields [OF s3(3)] timer_frame_threads [OF s3(3)]
    note g3 = f3(1) [unfolded same_globals_def] f3(2) [unfolded same_sched_def]
    have f2: "threads s2 = threads s" "sems s2 = sems s" "clots s2 = clots s" "current_thread s2 = ?t"
      "ready_list_head s2 = ready_list_head s" "ready_list_tail s2 = ready_list_tail s"
      "sched_init s2 = sched_init s" "sched_postponed_thr s2 = sched_postponed_thr s"
      "sched_postponed s2 = sched_postponed s" "cpu_num s2 = cpu_num s" "locks s2 = locks s"
      "sched_prevent_count s2 = sched_prevent_count s" "interrupts s2 = interrupts s"
      "cpu_irq_disable_counter s2 = ?c" "cpu_phase s2 = cpu_phase s" "ns_since_boot s2 = ns_since_boot s"
      by (simp_all add: s2_def)
    have ins: "sleep_insert s2 ?t at T = sleep_insert s ?t at T" by (simp add: sleep_insert_def s2_def)
    have rq: "ready_queue s3 R = ready_queue s R" by (rule ready_queue_cong) (simp_all add: f3 g3 f2)
    have can: "CanThreadRunOnThisCpu u s3 = CanThreadRunOnThisCpu u s" for u
      by (simp add: CanThreadRunOnThisCpu_def f3 g3 f2)
    have pl: "placed R s3"
      unfolding placed_def rq can f3 using o'(7) unfolding placed_def by (simp only: g3 f2, blast)
    have W3: "sem_queues s3 W" using o'(8) by (subst sem_queues_cong [of _ s]) (simp_all add: f3 f2)
    have k3: "kcore R W (sleep_insert s ?t at T) s3"
    proof -
      have "waiting s3 u = waiting s u" if "u \<noteq> ?t" for u using that by (simp add: waiting_def f3 f2)
      moreover have "state (threads s3 u) = state (threads s u)" "current_thread s3 = ?t" for u
        by (simp_all add: g3 f2 f3)
      ultimately show ?thesis using pl W3 s3(2) o'(1) unfolding kcore_def ins by metis
    qed
    have nw3: "next_wakeup_ns s3 = (if next_wakeup_ns s = 0 \<or> at < next_wakeup_ns s then at else next_wakeup_ns s)"
      using s3(5) by (simp add: s2_def)
    have tm3: "timers s3 (sleep_insert s ?t at T)"
    proof (cases T)
      case Nil
      then have "next_wakeup_ns s = 0" using o'(2) by (simp add: timers_def)
      then show ?thesis using k3 s3(4) nw3 Nil by (simp add: timers_def kcore_def sleep_insert_def)
    next
      case (Cons h T')
      have "\<forall>u. u \<in> set T \<longleftrightarrow> wake s u \<noteq> 0" using o'(9) unfolding timer_chain_def by blast
      then have h: "wake s h \<noteq> 0" "h \<noteq> ?t" using Cons w0 by (auto simp: s2_def)
      have nh: "next_wakeup_ns s = wake s h" using o'(2) Cons by (simp add: timers_def)
      have "wake s3 h = wake s h" using h f3 f2 by simp
      then show ?thesis using k3 s3(4) nw3 h nh Cons
        by (auto simp: timers_def kcore_def sleep_insert_def not_le)
    qed
    have "BlockThread s3 = Some (blocked s3)"
      using o'(3,4,12) by (intro BlockThread_held) (simp_all add: g3 f2 held_def room_def)
    then have run: "AddThreadToSleepQueue relative ns False s = Some (True, blocked s3)"
      unfolding body if_not_P [OF False] rel bind.bind_lunit using s3(1) by (simp add: f2)
    have ni: "\<not> idling (threads s ?t)" "unat ?c + 1 \<le> 2 ^ 31" using op ph by (simp_all add: in_op_def)
    have "in_op R W (sleep_insert s ?t at T) (blocked s3)"
      using k3 tm3 o'(3,4,5,10) ph ni by (intro blocked_in_op) (simp_all add: g3 f2 f3)
    then show ?thesis using run False nw s3(4) f3 f2 g3 ph by (auto simp: waiting_def)
  qed
qed

lemma sleep_queue_locking:
  "AddThreadToSleepQueue relative ns True s =
     do { s \<leftarrow> AcquireScheduler s; (b, s) \<leftarrow> AddThreadToSleepQueue relative ns False s;
          s \<leftarrow> ReleaseScheduler s; Some (b, s) }"
proof (cases "AcquireScheduler s")
  case (Some s1)
  show ?thesis
  proof (cases "AcquireSpinlock TimerLock s1")
    case s2: (Some s2)
    show ?thesis
      unfolding AddThreadToSleepQueue_def Some s2 bind.bind_lunit if_True if_False Let_def
      by (simp only: if_distrib [of "\<lambda>m. Option.bind m _"] Option.bind_assoc bind.bind_lunit case_prod_conv)
  qed (simp add: AddThreadToSleepQueue_def Some)
qed (simp add: AddThreadToSleepQueue_def)

text \<open>
  The system calls: the caller sleeps until \<open>at\<close>, or gets the answer at once when that has passed.
\<close>

lemma AddThreadToSleepQueue_spec:
  fixes ns :: u64 and relative :: bool
  assumes k: "kernel_ok R W T s" and ph: "cpu_phase s = Executing"
  defines "at \<equiv> if relative then ns + ns_since_boot s else ns"
  shows "if at \<le> ns_since_boot s
    then \<exists>s'. AddThreadToSleepQueue relative ns True s = Some (False, s') \<and> kernel_ok R W T s' \<and>
      current_thread s' = current_thread s \<and> threads s' = threads s \<and>
      (\<forall>q. count (sems s' q) = count (sems s q) \<and> smax (sems s' q) = smax (sems s q))
    else \<exists>s' R'. AddThreadToSleepQueue relative ns True s = Some (True, s') \<and>
      kernel_ok R' W (sleep_insert s (current_thread s) at T) s' \<and>
      wake s' (current_thread s) = at \<and> state (threads s' (current_thread s)) = THREAD_STATE_BLOCKED \<and>
      (\<forall>q. count (sems s' q) = count (sems s q) \<and> smax (sems s' q) = smax (sems s q))"
proof -
  note k' = kernel_okD [OF k]
  note a = AcquireScheduler_spec [OF k]
  have nw: "\<not> waiting (acquired s) (current_thread (acquired s))"
  proof -
    have "\<not> waiting s (current_thread s)" using k'(6) k ph by (auto simp: kernel_ok_def)
    then show ?thesis by (simp add: waiting_def)
  qed
  have np: "\<not> sched_postponed (acquired s)" "sched_postponed_thr (acquired s) = None" using k'(5,10) by simp_all
  have eq: "AddThreadToSleepQueue relative ns True s =
      do { (b, s) \<leftarrow> AddThreadToSleepQueue relative ns False (acquired s); s \<leftarrow> ReleaseScheduler s; Some (b, s) }"
    using sleep_queue_locking [of relative ns s] a(1) by simp
  have ins: "sleep_insert (acquired s) (current_thread s) at T = sleep_insert s (current_thread s) at T"
    by (simp add: sleep_insert_def)
  note S = SleepQueue_in_op [OF a(2) _ nw, of relative ns, unfolded acquired_fields, folded at_def, OF ph]
  show ?thesis
  proof (cases "at \<le> ns_since_boot s")
    case True
    then have "AddThreadToSleepQueue relative ns False (acquired s) = Some (False, acquired s)"
      using S by simp
    moreover from release_plain [OF a(2) np(1)] np(2) obtain s' where "ReleaseScheduler (acquired s) = Some s'"
      "kernel_ok R W T s'" "current_thread s' = current_thread s" "threads s' = threads s"
      "\<forall>q. count (sems s' q) = count (sems s q) \<and> smax (sems s' q) = smax (sems s q)"
      using np(1) by (auto simp: client_same_def released_queue_def released_current_def switches_def)
    ultimately show ?thesis using True eq by simp
  next
    case False
    then obtain s1 where s1: "AddThreadToSleepQueue relative ns False (acquired s) = Some (True, s1)"
      "in_op R W (sleep_insert s (current_thread s) at T) s1" "wake s1 (current_thread s) = at"
      "state (threads s1 (current_thread s)) = THREAD_STATE_BLOCKED" "sems s1 = sems s"
      using S ins by auto
    from ReleaseScheduler_spec [OF s1(2)] obtain s' R' where s': "ReleaseScheduler s1 = Some s'"
      "kernel_ok R' W (sleep_insert s (current_thread s) at T) s'" "client_same s1 s'" by blast
    have w: "wake s' (current_thread s) = at" using s'(3) s1(3) by (simp add: client_same_def)
    have "at \<noteq> 0" using False by auto
    then have "waiting s' (current_thread s)" using w by (simp add: waiting_def)
    then have "state (threads s' (current_thread s)) = THREAD_STATE_BLOCKED" by (rule kernel_okD(13) [OF s'(2)])
    then show ?thesis using False eq s1(1,5) s' w by (auto simp: client_same_def)
  qed
qed

end
