(* ===== verification/Sem.thy ===== *)
theory Sem
  imports Timer
begin

text \<open>
  Semaphores and mutexes: the operations of \<^verbatim>\<open>kernel/sync/sem.c\<close>. A semaphore counts the
  tokens in use, from 0 to \<open>max\<close>; a mutex is a semaphore with one token.
\<close>

section \<open>Operations\<close>

text \<open>
  \<open>Done res sel\<close>: the call has returned \<open>res\<close>, having stored \<open>sel\<close> through \<open>selected_out\<close>.
  \<open>Resumes t k\<close>: thread \<open>t\<close> is suspended in the call. When it runs again the call returns \<open>r\<close> if
  \<open>k = Some r\<close>, and what \<open>AcquireResume\<close> reads from the thread if \<open>k = None\<close>.
\<close>

datatype acquire_result = Done int "int option" | Resumes tid "int option"

definition AcquireResume :: "tid \<Rightarrow> kstate \<Rightarrow> int \<times> int option" where
  "AcquireResume t s =
     (let retv = block_return_val (threads s t)
      in if retv > 0 then (retv, None) else (0, Some (- retv)))"

text \<open>The \<open>for\<close> loop that looks for a semaphore with a free token, and takes it.\<close>

fun take_free :: "sid list \<Rightarrow> int \<Rightarrow> kstate \<Rightarrow> (int \<times> kstate) option" where
  "take_free [] i s = None"
| "take_free (q # qs) i s =
     (if count (sems s q) < smax (sems s q)
      then Some (i, upd_sem q (\<lambda>x. x\<lparr>count := count x + 1\<rparr>) s)
      else take_free qs (i + 1) s)"

definition AcquireSemFromMany ::
    "cid option \<Rightarrow> sid list \<Rightarrow> int \<Rightarrow> kstate \<Rightarrow> (acquire_result \<times> kstate) option" where
  "AcquireSemFromMany mem qs timeout s =
     (if \<not> sched_init s then Some (Done (errno_code EINVAL) None, s)
      else
        do { s \<leftarrow> AcquireScheduler s;
             case take_free qs 0 s of
               Some (i, s) \<Rightarrow> do { s \<leftarrow> ReleaseScheduler s; Some (Done 0 (Some i), s) }
             | None \<Rightarrow>
                 if timeout = 0 then do { s \<leftarrow> ReleaseScheduler s; Some (Done (errno_code EAGAIN) None, s) }
                 else
                   do { let needs_timer_wait = timeout \<noteq> 0 \<and> timeout \<noteq> -1;
                        (added, s) \<leftarrow> (if needs_timer_wait
                                      then AddThreadToSleepQueue True (word_of_int timeout) False s
                                      else Some (True, s));
                        if \<not> added then do { s \<leftarrow> ReleaseScheduler s; Some (Done (errno_code EAGAIN) None, s) }
                        else
                          do { let curr_thread = current_thread s;
                               (res, s) \<leftarrow> AddThreadToSemQueues mem curr_thread qs s;
                               if res \<noteq> 0 then
                                 do { s \<leftarrow> ReleaseScheduler s;
                                      Some (if needs_timer_wait then Resumes curr_thread (Some res)
                                            else Done res None, s) }
                               else
                                 do { s \<leftarrow> BlockThread s;
                                      s \<leftarrow> ReleaseScheduler s;
                                      Some (Resumes curr_thread None, s) } } } })"

definition AcquireSem :: "sid \<Rightarrow> int \<Rightarrow> kstate \<Rightarrow> (acquire_result \<times> kstate) option" where
  "AcquireSem q timeout s =
     (if \<not> sched_init s then Some (Done 0 None, upd_sem q (\<lambda>x. x\<lparr>count := count x + 1\<rparr>) s)
      else AcquireSemFromMany None [q] timeout s)"

definition ReleaseSem :: "sid \<Rightarrow> kstate \<Rightarrow> (int \<times> kstate) option" where
  "ReleaseSem q s =
     (if \<not> sched_init s then Some (0, upd_sem q (\<lambda>x. x\<lparr>count := count x - 1\<rparr>) s)
      else
        do { s \<leftarrow> AcquireScheduler s;
             s \<leftarrow> (if count (sems s q) = smax (sems s q) then
                     (case waiting_list_start (sems s q) of
                        None \<Rightarrow> Some (upd_sem q (\<lambda>x. x\<lparr>count := count x - 1\<rparr>) s)
                      | Some (Thr t) \<Rightarrow> UnblockThread t 0 s
                      | Some (Clot c) \<Rightarrow>
                          do { clot \<leftarrow> clots s c;
                               UnblockThread (thr clot) (- LookupClotIndex clot q) s })
                   else Some (upd_sem q (\<lambda>x. x\<lparr>count := count x - 1\<rparr>) s));
             s \<leftarrow> ReleaseScheduler s;
             Some (0, s) })"

partial_function (option) AbandonSemLocked :: "sid \<Rightarrow> kstate \<Rightarrow> kstate option" where
  "AbandonSemLocked q s =
     (case waiting_list_start (sems s q) of
        None \<Rightarrow> Some s
      | Some head \<Rightarrow>
          do { t \<leftarrow> owner s head;
               s \<leftarrow> UnblockThread t (errno_code EABANDONED) s;
               s \<leftarrow> (if waiting_list_start (sems s q) = Some head then CancelSems t s else Some s);
               AbandonSemLocked q s })"

definition AbandonSem :: "sid \<Rightarrow> kstate \<Rightarrow> kstate option" where
  "AbandonSem q s =
     do { s \<leftarrow> AcquireScheduler s;
          s \<leftarrow> AbandonSemLocked q s;
          ReleaseScheduler s }"

definition DestroyStaticSem :: "sid \<Rightarrow> kstate \<Rightarrow> kstate option" where
  "DestroyStaticSem q s = AbandonSem q s"

definition InitStaticSem :: "sid \<Rightarrow> int \<Rightarrow> int \<Rightarrow> kstate \<Rightarrow> kstate" where
  "InitStaticSem q mx initial s =
     upd_sem q (\<lambda>_. \<lparr>count = initial, smax = mx, waiting_list_start = None, waiting_list_end = None\<rparr>) s"

text \<open>\<open>mem\<close> is the address the heap returns, \<open>None\<close> when it has no memory.\<close>

definition CreateSem :: "sid option \<Rightarrow> int \<Rightarrow> int \<Rightarrow> kstate \<Rightarrow> sid option \<times> kstate" where
  "CreateSem mem mx initial s =
     (case mem of None \<Rightarrow> (None, s) | Some q \<Rightarrow> (Some q, InitStaticSem q mx initial s))"

definition CreateMutex :: "sid option \<Rightarrow> kstate \<Rightarrow> sid option \<times> kstate" where
  "CreateMutex mem s = CreateSem mem 1 0 s"

definition InitStaticMutex :: "sid \<Rightarrow> kstate \<Rightarrow> kstate" where
  "InitStaticMutex m s = InitStaticSem m 1 0 s"

definition DestroyStaticMutex :: "sid \<Rightarrow> kstate \<Rightarrow> kstate option" where
  "DestroyStaticMutex m s = DestroyStaticSem m s"

definition AcquireMutex :: "sid \<Rightarrow> int \<Rightarrow> kstate \<Rightarrow> (acquire_result \<times> kstate) option" where
  "AcquireMutex m timeout s = AcquireSem m timeout s"

definition ReleaseMutex :: "sid \<Rightarrow> kstate \<Rightarrow> (int \<times> kstate) option" where
  "ReleaseMutex m s = ReleaseSem m s"

section \<open>Taking a token\<close>

lemma take_free_None:
  "take_free qs i s = None \<longleftrightarrow> (\<forall>q\<in>set qs. smax (sems s q) \<le> count (sems s q))"
  by (induction qs arbitrary: i) (auto simp: not_less)

lemma take_free_Some:
  assumes "take_free qs i s = Some (j, s')"
  shows "i \<le> j \<and> nat (j - i) < length qs \<and>
    count (sems s (qs ! nat (j - i))) < smax (sems s (qs ! nat (j - i))) \<and>
    (\<forall>k < nat (j - i). smax (sems s (qs ! k)) \<le> count (sems s (qs ! k))) \<and>
    s' = upd_sem (qs ! nat (j - i)) (\<lambda>x. x\<lparr>count := count x + 1\<rparr>) s"
  using assms
proof (induction qs arbitrary: i)
  case Nil
  then show ?case by simp
next
  case (Cons q qs)
  show ?case
  proof (cases "count (sems s q) < smax (sems s q)")
    case True
    then show ?thesis using Cons.prems by auto
  next
    case False
    then have IH: "i + 1 \<le> j" "nat (j - (i + 1)) < length qs"
      "count (sems s (qs ! nat (j - (i + 1)))) < smax (sems s (qs ! nat (j - (i + 1))))"
      "\<forall>k < nat (j - (i + 1)). smax (sems s (qs ! k)) \<le> count (sems s (qs ! k))"
      "s' = upd_sem (qs ! nat (j - (i + 1))) (\<lambda>x. x\<lparr>count := count x + 1\<rparr>) s"
      using Cons.IH [of "i + 1"] Cons.prems by auto
    have n: "nat (j - i) = Suc (nat (j - (i + 1)))" using IH(1) by linarith
    show ?thesis
      unfolding n using IH False by (auto simp: less_Suc_eq_0_disj)
  qed
qed

text \<open>The invariant does not look at the counts.\<close>

lemma in_op_count:
  assumes "in_op R W T s"
  shows "in_op R W T (upd_sem q (\<lambda>x. x\<lparr>count := f x\<rparr>) s)"
proof -
  let ?s = "upd_sem q (\<lambda>x. x\<lparr>count := f x\<rparr>) s"
  note o' = in_opD [OF assms]
  have rq: "ready_queue ?s R = ready_queue s R" by (rule ready_queue_cong) simp_all
  have can: "CanThreadRunOnThisCpu u ?s = CanThreadRunOnThisCpu u s" for u by (simp add: CanThreadRunOnThisCpu_def)
  have pl: "placed R ?s" using o'(7) unfolding placed_def rq can upd_sem_simps .
  have W: "sem_queues ?s W = sem_queues s W" by (rule sem_queues_cong) simp_all
  have T: "timer_chain ?s T = timer_chain s T" by (rule timer_chain_cong) simp_all
  have T': "timers ?s T = timers s T" by (rule timers_cong) simp_all
  have w: "waiting ?s u = waiting s u" for u by (simp add: waiting_def)
  show ?thesis using assms pl unfolding in_op_def kcore_def W T T' w upd_sem_simps by blast
qed

lemma count_upd [simp]:
  "count (sems (upd_sem q (\<lambda>x. x\<lparr>count := f x\<rparr>) s) p) = (if p = q then f (sems s q) else count (sems s p))"
  "smax (sems (upd_sem q (\<lambda>x. x\<lparr>count := f x\<rparr>) s) p) = smax (sems s p)"
  by simp_all

lemma kcore_sem_frame:
  assumes k: "kcore R W T s" and f: "sem_frame (current_thread s) s s'" and W: "sem_queues s' W'"
  shows "kcore R W' T s'"
proof -
  note f' = sem_frame_fields [OF f] sem_frame_threads [OF f]
  note g = f'(1) [unfolded same_globals_def] f'(2) [unfolded same_sched_def]
  have rq: "ready_queue s' R = ready_queue s R" by (rule ready_queue_cong) (simp_all add: f' g)
  have can: "CanThreadRunOnThisCpu u s' = CanThreadRunOnThisCpu u s" for u
    by (simp add: CanThreadRunOnThisCpu_def f' g)
  have gl: "current_thread s' = current_thread s" "sched_init s' = sched_init s"
    "sched_postponed_thr s' = sched_postponed_thr s" "sched_postponed s' = sched_postponed s"
    by (simp_all add: g)
  have "placed R s'" using k unfolding kcore_def placed_def rq can f' gl by blast
  moreover have "timer_chain s' T" using k by (subst timer_chain_cong [of s' s]) (simp_all add: f' kcore_def)
  moreover have "waiting s' u = waiting s u" if "u \<noteq> current_thread s" for u
    using that by (simp add: waiting_def f')
  ultimately show ?thesis using k W unfolding kcore_def gl f'(5) by metis
qed

text \<open>Joining the queues of the semaphores \<open>qs\<close>, blocking, and leaving the lock.\<close>

lemma enqueue_and_block:
  assumes op: "in_op R W T s" and ph: "cpu_phase s = Executing"
    and nw: "waiting_sem_or_clot (threads s (current_thread s)) = None"
    and qs: "distinct qs" "qs \<noteq> []" and mem: "\<And>c. mem = Some c \<Longrightarrow> clots s c = None"
    and room: "length qs > 1 \<Longrightarrow> mem \<noteq> None"
  shows "\<exists>s1 s' R'. AddThreadToSemQueues mem (current_thread s) qs s = Some (0, s1) \<and>
    BlockThread s1 \<bind> ReleaseScheduler = Some s' \<and>
    kernel_ok R' (\<lambda>q. if q \<in> set qs then W q @ [current_thread s] else W q) T s' \<and>
    wait_set s' (current_thread s) = qs \<and> state (threads s' (current_thread s)) = THREAD_STATE_BLOCKED \<and>
    (\<forall>q. count (sems s' q) = count (sems s q) \<and> smax (sems s' q) = smax (sems s q)) \<and>
    (\<forall>u. wake s' u = wake s u) \<and> (\<forall>u. u \<noteq> current_thread s \<longrightarrow> wait_set s' u = wait_set s u \<and>
       block_return_val (threads s' u) = block_return_val (threads s u))"
proof -
  note o' = in_opD [OF op]
  let ?t = "current_thread s" and ?W = "\<lambda>q. if q \<in> set qs then W q @ [current_thread s] else W q"
  have nr: "\<not> (length qs > 1 \<and> mem = None)" using room by blast
  have "if length qs > 1 \<and> mem = None then AddThreadToSemQueues mem ?t qs s = Some (errno_code ENOMEM, s)
      else \<exists>s1. AddThreadToSemQueues mem ?t qs s = Some (0, s1) \<and> sem_queues s1 ?W \<and>
        sem_frame ?t s s1 \<and> wait_set s1 ?t = qs"
    by (rule AddThreadToSemQueues_spec [OF o'(8) nw qs]) (rule mem)
  then have "\<exists>s1. AddThreadToSemQueues mem ?t qs s = Some (0, s1) \<and> sem_queues s1 ?W \<and>
      sem_frame ?t s s1 \<and> wait_set s1 ?t = qs"
    using nr by (simp only: if_False)
  then obtain s1 where s1: "AddThreadToSemQueues mem ?t qs s = Some (0, s1)" "sem_queues s1 ?W"
    "sem_frame ?t s s1" "wait_set s1 ?t = qs" by blast
  note f = sem_frame_fields [OF s1(3)] sem_frame_threads [OF s1(3)]
  note g = f(1) [unfolded same_globals_def] f(2) [unfolded same_sched_def]
  have k1: "kcore R ?W T s1" using o'(1) s1(3,2) by (rule kcore_sem_frame)
  have tm1: "timers s1 T"
    using k1 o'(2) by (simp add: timers_def kcore_def f split: list.splits)
  have b: "BlockThread s1 = Some (blocked s1)"
    using o'(3,4,12) by (intro BlockThread_held) (simp_all add: g held_def room_def)
  have ni: "\<not> idling (threads s ?t)" "unat (cpu_irq_disable_counter s) + 1 \<le> 2 ^ 31"
    using op ph by (simp_all add: in_op_def)
  have "in_op R ?W T (blocked s1)"
    using k1 tm1 o'(3,4,5,10) ph ni by (intro blocked_in_op) (simp_all add: g f)
  from ReleaseScheduler_spec [OF this] obtain s' R' where s': "ReleaseScheduler (blocked s1) = Some s'"
    "kernel_ok R' ?W T s'" "client_same (blocked s1) s'" by blast
  have ws: "wait_set s' u = wait_set s1 u" for u
    using client_same_lists(5) [OF s'(3)] wait_set_cong [of "blocked s1" u s1] by simp
  note c = s'(3) [unfolded client_same_def]
  have "wait_set s' ?t = []" if "waiting_sem_or_clot (threads s' ?t) = None"
    using that by (simp add: wait_set_def)
  then have "waiting_sem_or_clot (threads s' ?t) \<noteq> None" using ws s1(4) qs(2) by auto
  then have "state (threads s' ?t) = THREAD_STATE_BLOCKED"
    using kernel_okD(13) [OF s'(2)] by (simp add: waiting_def)
  moreover have "block_return_val (threads s' u) = block_return_val (threads s u)" if "u \<noteq> ?t" for u
    using c that by (simp add: blocked_def f g)
  moreover have "BlockThread s1 \<bind> ReleaseScheduler = Some s'" using b s'(1) by simp
  moreover have "count (sems s' q) = count (sems s q) \<and> smax (sems s' q) = smax (sems s q)" for q
    using c f by simp
  moreover have "wake s' u = wake s u" for u using c f by simp
  moreover have "wait_set s' u = wait_set s u" if "u \<noteq> ?t" for u using ws f that by simp
  moreover have "wait_set s' ?t = qs" using ws s1(4) by simp
  ultimately show ?thesis using s1(1) s'(2) by blast
qed

definition sems_same :: "kstate \<Rightarrow> kstate \<Rightarrow> bool" where
  "sems_same s s' \<longleftrightarrow> (\<forall>q. count (sems s' q) = count (sems s q) \<and> smax (sems s' q) = smax (sems s q))"

text \<open>The call returns at once: a token was free, or the caller does not wait.\<close>

lemma AcquireSem_now:
  assumes k: "kernel_ok R W T s"
  shows "take_free qs 0 s = Some (i, s0) \<Longrightarrow>
      \<exists>s'. AcquireSemFromMany mem qs timeout s = Some (Done 0 (Some i), s') \<and> kernel_ok R W T s' \<and>
        current_thread s' = current_thread s \<and> threads s' = threads s \<and> cpu_phase s' = cpu_phase s \<and>
        clots s' = clots s \<and> sems s' = sems s0"
    "\<lbrakk>take_free qs 0 s = None; timeout = 0\<rbrakk> \<Longrightarrow>
      \<exists>s'. AcquireSemFromMany mem qs timeout s = Some (Done (errno_code EAGAIN) None, s') \<and>
        kernel_ok R W T s' \<and> current_thread s' = current_thread s \<and> threads s' = threads s \<and>
        cpu_phase s' = cpu_phase s \<and> clots s' = clots s \<and> sems s' = sems s"
proof -
  note a = AcquireScheduler_spec [OF k]
  note o' = in_opD [OF a(2)]
  have init: "sched_init s" using placedD(2) [OF kernel_okD(7) [OF k]] .
  have tf: "take_free qs i (acquired s) = map_option (\<lambda>(j, s0). (j, upd_sem (qs ! nat (j - i)) (\<lambda>x. x\<lparr>count := count x + 1\<rparr>) (acquired s))) (take_free qs i s)" for i
  proof (cases "take_free qs i (acquired s)")
    case None
    then show ?thesis using take_free_None [of qs i s] take_free_None [of qs i "acquired s"] by simp
  next
    case (Some r)
    obtain j s1 where r: "r = (j, s1)" by (cases r)
    note A = take_free_Some [OF Some [unfolded r]]
    have "take_free qs i s \<noteq> None" using Some take_free_None [of qs i s] take_free_None [of qs i "acquired s"] by auto
    then obtain j' s2 where B': "take_free qs i s = Some (j', s2)" by auto
    note B = take_free_Some [OF B']
    have "j' = j"
    proof (rule ccontr)
      assume "j' \<noteq> j"
      then consider "nat (j - i) < nat (j' - i)" | "nat (j' - i) < nat (j - i)" using A B by linarith
      then show False
      proof cases
        case 1
        then have "smax (sems s (qs ! nat (j - i))) \<le> count (sems s (qs ! nat (j - i)))" using B by blast
        then show False using A by simp
      next
        case 2
        then have "smax (sems s (qs ! nat (j' - i))) \<le> count (sems s (qs ! nat (j' - i)))" using A by simp
        then show False using B by simp
      qed
    qed
    then show ?thesis using Some r A B' by simp
  qed
  have plain: "\<exists>s'. ReleaseScheduler s1 = Some s' \<and> kernel_ok R W T s' \<and> current_thread s' = current_thread s \<and>
      threads s' = threads s1 \<and> sems s' = sems s1 \<and> clots s' = clots s1 \<and> cpu_phase s' = cpu_phase s"
    if "in_op R W T s1" "sched_postponed s1 = sched_postponed s" "sched_postponed_thr s1 = sched_postponed_thr s"
      "current_thread s1 = current_thread s" "cpu_phase s1 = cpu_phase s" for s1
    using release_plain [OF that(1)] that(2-5) kernel_okD(5,10) [OF k]
    by (auto simp: released_queue_def released_current_def released_phase_def switches_def client_same_def)
  show "\<exists>s'. AcquireSemFromMany mem qs timeout s = Some (Done 0 (Some i), s') \<and> kernel_ok R W T s' \<and>
        current_thread s' = current_thread s \<and> threads s' = threads s \<and> cpu_phase s' = cpu_phase s \<and>
        clots s' = clots s \<and> sems s' = sems s0"
    if "take_free qs 0 s = Some (i, s0)"
  proof -
    let ?s1 = "upd_sem (qs ! nat i) (\<lambda>x. x\<lparr>count := count x + 1\<rparr>) (acquired s)"
    have "s0 = upd_sem (qs ! nat i) (\<lambda>x. x\<lparr>count := count x + 1\<rparr>) s" using take_free_Some [OF that] by simp
    then have "sems ?s1 = sems s0" by simp
    moreover have "in_op R W T ?s1" using a(2) by (rule in_op_count)
    ultimately show ?thesis
      using plain [of ?s1] a(1) init tf [of 0] that by (auto simp: AcquireSemFromMany_def)
  qed
  show "\<exists>s'. AcquireSemFromMany mem qs timeout s = Some (Done (errno_code EAGAIN) None, s') \<and>
        kernel_ok R W T s' \<and> current_thread s' = current_thread s \<and> threads s' = threads s \<and>
        cpu_phase s' = cpu_phase s \<and> clots s' = clots s \<and> sems s' = sems s"
    if "take_free qs 0 s = None" "timeout = 0"
    using plain [OF a(2)] a(1) init tf [of 0] that by (auto simp: AcquireSemFromMany_def)
qed

text \<open>
  Every semaphore is exhausted and the caller waits: it becomes the last of every queue, and with a
  timeout it also goes on the list of sleepers.
\<close>

lemma AcquireSem_wait:
  assumes k: "kernel_ok R W T s" and ph: "cpu_phase s = Executing"
    and full: "\<forall>q\<in>set qs. smax (sems s q) \<le> count (sems s q)"
    and qs: "distinct qs" "qs \<noteq> []" and mem: "\<And>c. mem = Some c \<Longrightarrow> clots s c = None"
    and room: "length qs > 1 \<Longrightarrow> mem \<noteq> None"
    and to: "timeout \<noteq> 0" "timeout \<noteq> -1 \<Longrightarrow> ns_since_boot s < word_of_int timeout + ns_since_boot s"
  shows "\<exists>s' R'. AcquireSemFromMany mem qs timeout s = Some (Resumes (current_thread s) None, s') \<and>
    kernel_ok R' (\<lambda>q. if q \<in> set qs then W q @ [current_thread s] else W q)
      (if timeout = -1 then T
       else sleep_insert s (current_thread s) (word_of_int timeout + ns_since_boot s) T) s' \<and>
    wait_set s' (current_thread s) = qs \<and> state (threads s' (current_thread s)) = THREAD_STATE_BLOCKED \<and>
    sems_same s s' \<and>
    (\<forall>u. u \<noteq> current_thread s \<longrightarrow> wait_set s' u = wait_set s u \<and> wake s' u = wake s u)"
proof -
  note a = AcquireScheduler_spec [OF k]
  note o' = in_opD [OF a(2)]
  have init: "sched_init s" using placedD(2) [OF kernel_okD(7) [OF k]] .
  have nws: "\<not> waiting s (current_thread s)" using kernel_okD(6) [OF k] k ph by (auto simp: kernel_ok_def)
  have nw: "\<not> waiting (acquired s) (current_thread (acquired s))" using nws by (simp add: waiting_def)
  have tf: "take_free qs 0 (acquired s) = None" using full by (simp add: take_free_None)
  show ?thesis
  proof (cases "timeout = -1")
    case True
    have "\<exists>s1 s' R'. AddThreadToSemQueues mem (current_thread s) qs (acquired s) = Some (0, s1) \<and>
      BlockThread s1 \<bind> ReleaseScheduler = Some s' \<and>
      kernel_ok R' (\<lambda>q. if q \<in> set qs then W q @ [current_thread s] else W q) T s' \<and>
      wait_set s' (current_thread s) = qs \<and> state (threads s' (current_thread s)) = THREAD_STATE_BLOCKED \<and>
      (\<forall>q. count (sems s' q) = count (sems s q) \<and> smax (sems s' q) = smax (sems s q)) \<and>
      (\<forall>u. wake s' u = wake s u) \<and> (\<forall>u. u \<noteq> current_thread s \<longrightarrow> wait_set s' u = wait_set (acquired s) u \<and>
         block_return_val (threads s' u) = block_return_val (threads s u))"
      using enqueue_and_block [OF a(2), of qs mem, unfolded acquired_fields] ph nw qs mem room by (simp add: waiting_def)
    moreover have "wait_set (acquired s) u = wait_set s u" for u by (rule wait_set_cong) simp_all
    ultimately show ?thesis
      using a(1) init tf to(1) True
      by (auto simp: AcquireSemFromMany_def sems_same_def Let_def bind_eq_Some_conv)
  next
    case False
    let ?at = "word_of_int timeout + ns_since_boot s"
    have at: "\<not> ?at \<le> ns_since_boot s" using to(2) [OF False] by simp
    have ins: "sleep_insert (acquired s) u x T = sleep_insert s u x T" for u x by (simp add: sleep_insert_def)
    note S = SleepQueue_in_op [OF a(2) _ nw, of True "word_of_int timeout", unfolded acquired_fields if_True if_not_P [OF at], OF ph]
    from S obtain s1 where s1: "AddThreadToSleepQueue True (word_of_int timeout) False (acquired s) = Some (True, s1)"
      "in_op R W (sleep_insert s (current_thread s) ?at T) s1" "cpu_phase s1 = Executing"
      "current_thread s1 = current_thread s" "waiting_sem_or_clot (threads s1 (current_thread s)) = None"
      "sems s1 = sems s" "clots s1 = clots s"
      "\<forall>u. u \<noteq> current_thread s \<longrightarrow> wake s1 u = wake s u \<and>
        waiting_sem_or_clot (threads s1 u) = waiting_sem_or_clot (threads s u)"
      unfolding ins by blast
    have "\<exists>s2 s' R'. AddThreadToSemQueues mem (current_thread s) qs s1 = Some (0, s2) \<and>
      BlockThread s2 \<bind> ReleaseScheduler = Some s' \<and>
      kernel_ok R' (\<lambda>q. if q \<in> set qs then W q @ [current_thread s] else W q)
        (sleep_insert s (current_thread s) ?at T) s' \<and>
      wait_set s' (current_thread s) = qs \<and> state (threads s' (current_thread s)) = THREAD_STATE_BLOCKED \<and>
      (\<forall>q. count (sems s' q) = count (sems s q) \<and> smax (sems s' q) = smax (sems s q)) \<and>
      (\<forall>u. wake s' u = wake s1 u) \<and> (\<forall>u. u \<noteq> current_thread s \<longrightarrow> wait_set s' u = wait_set s1 u \<and>
         block_return_val (threads s' u) = block_return_val (threads s1 u))"
      using enqueue_and_block [OF s1(2,3), of qs mem, unfolded s1(4)] s1(5-7) qs mem room by simp
    moreover have "wait_set s1 u = wait_set s u" if "u \<noteq> current_thread s" for u
      using s1(7,8) that by (intro wait_set_cong) simp_all
    ultimately show ?thesis
      using a(1) init tf to(1) False s1(1,4,8)
      by (auto simp: AcquireSemFromMany_def sems_same_def Let_def bind_eq_Some_conv)
  qed
qed

end
