(* ===== verification/SemProps.thy ===== *)
theory SemProps
  imports Sem
begin

text \<open>
  What releasing and abandoning a semaphore do to the threads that wait for it, on every branch of
  \<^verbatim>\<open>ReleaseSem\<close> and \<^verbatim>\<open>AbandonSem\<close>, and the branches of \<^verbatim>\<open>AcquireSemFromMany\<close> on which no
  token is obtained.
\<close>

section \<open>Waking waiters\<close>

definition woken :: "tid \<Rightarrow> int \<Rightarrow> kstate \<Rightarrow> bool" where
  "woken t r s \<longleftrightarrow> (state (threads s t) = THREAD_STATE_READY \<or> current_thread s = t) \<and>
     state (threads s t) \<noteq> THREAD_STATE_BLOCKED \<and>
     block_return_val (threads s t) = r \<and> \<not> waiting s t"

definition others_wait :: "tid set \<Rightarrow> kstate \<Rightarrow> kstate \<Rightarrow> bool" where
  "others_wait V s s' \<longleftrightarrow> (\<forall>u. u \<notin> V \<longrightarrow> wait_set s' u = wait_set s u \<and> wake s' u = wake s u \<and>
     block_return_val (threads s' u) = block_return_val (threads s u))"

lemma in_op_waiting:
  assumes "in_op R W T s" "waiting s t" "cpu_phase s = Executing \<Longrightarrow> \<not> waiting s (current_thread s)"
  shows "state (threads s t) = THREAD_STATE_BLOCKED" "t = current_thread s \<longrightarrow> idling (threads s t)"
  using in_opD(13) [OF assms(1,2)] in_op_idling(2) [OF assms(1)] assms(2,3) by auto

text \<open>Leaving the lock blocks nobody.\<close>

lemma ReleaseSpinlock_threads: "ReleaseSpinlock l s = Some s' \<Longrightarrow> threads s' = threads s"
  by (auto simp: ReleaseSpinlock_def ReleaseIrqPrevent_def Let_def split: if_splits)

lemma AcquireSpinlock_threads: "AcquireSpinlock l s = Some s' \<Longrightarrow> threads s' = threads s"
  by (auto simp: AcquireSpinlock_def AcquireIrqPrevent_def Let_def bind_eq_Some_conv split: if_splits)

lemma ReleaseTail_threads: "ReleaseTail s = Some s' \<Longrightarrow> threads s' = threads s"
  by (auto simp: ReleaseTail_def ReleaseIrqPrevent_def Let_def bind_eq_Some_conv
      dest!: ReleaseSpinlock_threads split: if_splits)

lemma FinishSwitch_keeps:
  assumes "FinishSwitch own t s = Some s'" "state (threads s u) \<noteq> THREAD_STATE_BLOCKED"
  shows "state (threads s' u) \<noteq> THREAD_STATE_BLOCKED"
proof (cases "own \<and> t = current_thread s")
  case True
  then show ?thesis using assms by (auto simp: FinishSwitch_def split: if_splits)
next
  case False
  let ?s0 = "upd_thread t (\<lambda>x. x\<lparr>state := THREAD_STATE_RUNNING, next_ready := None\<rparr>)
    (s\<lparr>current_thread := t\<rparr>)"
  obtain now s1 where s1: "GetTimeSinceBoot ?s0 = Some (now, s1)"
    and s': "state (threads s' u) = state (threads s1 u)"
    using assms(1) False by (auto simp: FinishSwitch_def Let_def bind_eq_Some_conv simp del: upd_thread_simps)
      (auto simp: upd_thread_def)
  have "threads s1 = threads ?s0"
    using s1 by (auto simp: GetTimeSinceBoot_def bind_eq_Some_conv simp del: upd_thread_simps
        dest!: AcquireSpinlock_threads ReleaseSpinlock_threads)
  then show ?thesis using assms(2) s' by simp
qed

lemma SwitchToThread_keeps:
  assumes sw: "SwitchToThread th s = Some (b, s')" and u: "state (threads s u) \<noteq> THREAD_STATE_BLOCKED"
  shows "state (threads s' u) \<noteq> THREAD_STATE_BLOCKED"
proof -
  let ?s1 = "if state (threads s (current_thread s)) = THREAD_STATE_RUNNING
             then AddToBackOfReadyQueue (current_thread s) s else s"
  have u1: "state (threads ?s1 u) \<noteq> THREAD_STATE_BLOCKED" using u by simp
  have find_keeps: "state (threads s2 u) \<noteq> THREAD_STATE_BLOCKED" if "FindNextThread ?s1 = Some (r, s2)" for r s2
    using FindNextThread_loop_frame [of None "ready_list_head ?s1" ?s1 "(r, s2)"] that u1
      ready_frame_threads(1) [of ?s1 s2 u] by (simp add: FindNextThread_def)
  have park: "state (threads s3 u) \<noteq> THREAD_STATE_BLOCKED"
    if "IdlePark (upd_thread x (\<lambda>x. x\<lparr>idling := True\<rparr>) s2) = Some s3" "state (threads s2 u) \<noteq> THREAD_STATE_BLOCKED" for s2 s3 x
    using that by (auto simp: IdlePark_def bind_eq_Some_conv Let_def dest!: ReleaseSpinlock_threads split: if_splits)
  show ?thesis
    using sw u u1 find_keeps park FinishSwitch_keeps
    unfolding SwitchToThread_def Let_def
    by (auto simp: bind_eq_Some_conv simp del: upd_thread_simps split: if_splits option.splits)
qed

lemma ReleaseScheduler_unblocked:
  assumes r: "ReleaseScheduler s = Some s'" and u: "state (threads s u) \<noteq> THREAD_STATE_BLOCKED"
  shows "state (threads s' u) \<noteq> THREAD_STATE_BLOCKED"
  using r u unfolding ReleaseScheduler_def Let_def
  by (auto simp: bind_eq_Some_conv split: if_splits option.splits
      dest!: ReleaseTail_threads AcquireSpinlock_threads SwitchToThread_keeps)

lemma ReleaseScheduler_keeps:
  assumes op: "in_op R W T s"
  shows "\<exists>s' R'. ReleaseScheduler s = Some s' \<and> kernel_ok R' W T s' \<and> sems_same s s' \<and> others_wait {} s s' \<and>
    (\<forall>t. waiting s' t = waiting s t) \<and>
    (\<forall>t. state (threads s t) \<noteq> THREAD_STATE_BLOCKED \<and> \<not> waiting s t \<longrightarrow>
       woken t (block_return_val (threads s t)) s')"
proof -
  from ReleaseScheduler_spec [OF op] obtain s' where s': "ReleaseScheduler s = Some s'"
    "kernel_ok (released_queue s R) W T s'" "client_same s s'" "current_thread s' = released_current s R" by blast
  note c = s'(3) [unfolded client_same_def]
  have "state (threads s' t) \<noteq> THREAD_STATE_BLOCKED \<and> (state (threads s' t) = THREAD_STATE_READY \<or> current_thread s' = t)"
    if "state (threads s t) \<noteq> THREAD_STATE_BLOCKED" for t
    using ReleaseScheduler_unblocked [OF s'(1) that] released_keeps [OF op that] s'(4)
      placedD(5) [OF kernel_okD(7) [OF s'(2)], of t] by auto
  then show ?thesis
    using s'(1,2) client_same_lists(4,5) [OF s'(3)] c
    by (intro exI [of _ s'] exI [of _ "released_queue s R"]) (simp add: sems_same_def others_wait_def woken_def)
qed

section \<open>Releasing a token\<close>

lemma ReleaseSem_free:
  assumes k: "kernel_ok R W T s" and c: "count (sems s q) \<noteq> smax (sems s q) \<or> W q = []"
  shows "\<exists>s'. ReleaseSem q s = Some (0, s') \<and> kernel_ok R W T s' \<and> threads s' = threads s \<and>
    clots s' = clots s \<and> current_thread s' = current_thread s \<and>
    sems s' = (sems s)(q := (sems s q)\<lparr>count := count (sems s q) - 1\<rparr>)"
proof -
  note a = AcquireScheduler_spec [OF k]
  have init: "sched_init s" using placedD(2) [OF kernel_okD(7) [OF k]] .
  let ?s = "upd_sem q (\<lambda>x. x\<lparr>count := count x - 1\<rparr>) (acquired s)"
  have op: "in_op R W T ?s" using a(2) by (rule in_op_count)
  have np: "\<not> sched_postponed s" "sched_postponed_thr s = None" using kernel_okD(5,10) [OF k] by auto
  from release_plain [OF op] np obtain s' where s': "ReleaseScheduler ?s = Some s'" "kernel_ok R W T s'"
    "client_same ?s s'" "current_thread s' = current_thread s" "threads s' = threads s"
    by (auto simp: released_queue_def released_current_def switches_def)
  have e: "waiting_list_start (sems s q) = None" if "W q = []"
    using sem_queues_empty [OF kernel_okD(8) [OF k]] that by blast
  have "ReleaseSem q s = Some (0, s')"
    using a(1) init s'(1) c e by (auto simp: ReleaseSem_def Let_def)
  moreover have "sems s' = sems ?s" "clots s' = clots s" using s'(3) by (simp_all add: client_same_def)
  ultimately show ?thesis using s' by (auto simp: upd_sem_def)
qed

lemma ReleaseSem_hands_over:
  assumes k: "kernel_ok R W T s" and c: "count (sems s q) = smax (sems s q)" and w: "W q = t # ts"
  shows "\<exists>s' R' i. ReleaseSem q s = Some (0, s') \<and>
    kernel_ok R' (\<lambda>p. filter (\<lambda>x. x \<noteq> t) (W p)) (filter (\<lambda>x. x \<noteq> t) T) s' \<and> sems_same s s' \<and>
    others_wait {t} s s' \<and> woken t (- int i) s' \<and> i < length (wait_set s t) \<and> wait_set s t ! i = q"
proof -
  note a = AcquireScheduler_spec [OF k]
  have init: "sched_init s" using placedD(2) [OF kernel_okD(7) [OF k]] .
  note sq = kernel_okD(8) [OF k]
  obtain h where h: "waiting_list_start (sems s q) = Some h" "node_of s t = Some h" "owner s h = Some t"
    using sem_queues_head [OF sq w] by blast
  have qt: "q \<in> set (wait_set s t)" using sem_queues_mem [OF sq, of t q] w by simp
  then have wt: "waiting s t" by (auto simp: waiting_def wait_set_def split: option.splits)
  have nw: "\<not> waiting s (current_thread s)" if "cpu_phase s = Executing"
    using kernel_okD(6) [OF k] k that by (auto simp: kernel_ok_def)
  have t: "state (threads s t) = THREAD_STATE_BLOCKED" "t = current_thread s \<longrightarrow> idling (threads s t)"
    using in_op_waiting [OF a(2), of t] wt nw by (simp_all add: waiting_def)
  obtain i where i: "i < length (wait_set s t)" "wait_set s t ! i = q"
    "ReleaseSem q s = UnblockThread t (- int i) (acquired s) \<bind> ReleaseScheduler \<bind> (\<lambda>s. Some (0, s))"
  proof (cases "waiting_sem_or_clot (threads s t)")
    case None
    then show ?thesis using qt by (simp add: wait_set_def)
  next
    case (Some on)
    show ?thesis
    proof (cases on)
      case (OnSem p)
      then have "h = Thr t" "wait_set s t = [q]" using Some h(2) qt by (auto simp: node_of_def wait_set_def)
      then show ?thesis using that [of 0] a(1) init h(1) c by (simp add: ReleaseSem_def)
    next
      case (OnClot cl)
      obtain kk where kk: "clots s cl = Some kk" "wait_set s t = csems kk"
        using Some OnClot qt by (cases "clots s cl") (auto simp: wait_set_def)
      have hc: "h = Clot cl" using Some OnClot h(2) by (simp add: node_of_def)
      with kk have "thr kk = t" using h(3) by (simp add: owner_def)
      then show ?thesis
        using that [of "nat (LookupClotIndex kk q)"] LookupClotIndex_found [of q kk] qt a(1) init h(1) c kk hc
        by (simp add: ReleaseSem_def)
    qed
  qed
  from UnblockThread_in_op [OF a(2), of t "- int i"] t obtain s1 where s1:
    "UnblockThread t (- int i) (acquired s) = Some s1"
    "in_op (unblocked_queue t (acquired s) R) (\<lambda>q. filter (\<lambda>x. x \<noteq> t) (W q)) (filter (\<lambda>x. x \<noteq> t) T) s1"
    "others_same t (acquired s) s1" "state (threads s1 t) = THREAD_STATE_READY"
    "block_return_val (threads s1 t) = - int i" "waiting_sem_or_clot (threads s1 t) = None" "wake s1 t = 0"
    by auto
  from ReleaseScheduler_keeps [OF s1(2)] obtain s' R' where s': "ReleaseScheduler s1 = Some s'"
    "kernel_ok R' (\<lambda>q. filter (\<lambda>x. x \<noteq> t) (W q)) (filter (\<lambda>x. x \<noteq> t) T) s'" "sems_same s1 s'"
    "others_wait {} s1 s'"
    "\<forall>t. state (threads s1 t) \<noteq> THREAD_STATE_BLOCKED \<and> \<not> waiting s1 t \<longrightarrow>
       woken t (block_return_val (threads s1 t)) s'" by blast
  have wa: "wait_set (acquired s) u = wait_set s u" for u by (rule wait_set_cong) simp_all
  have "sems_same s s'" "others_wait {t} s s'"
    using s'(3,4) s1(3) wa by (simp_all add: sems_same_def others_wait_def others_same_def)
  moreover have "woken t (- int i) s'" using spec [OF s'(5), of t] s1(4-7) by (simp add: waiting_def)
  ultimately show ?thesis using s1(1) s'(1,2) i by auto
qed

section \<open>Abandoning a semaphore\<close>

text \<open>The list loses its head when the head's thread is unblocked, so the loop makes progress.\<close>

lemma head_moves:
  assumes W: "sem_queues s W" "W q = t # ts" "waiting_list_start (sems s q) = Some h"
    and W': "sem_queues s' (\<lambda>p. filter (\<lambda>x. x \<noteq> t) (W p))" and os: "others_same t s s'"
  shows "waiting_list_start (sems s' q) \<noteq> Some h"
proof
  assume h': "waiting_list_start (sems s' q) = Some h"
  then have "filter (\<lambda>x. x \<noteq> t) (W q) \<noteq> []" using sem_queues_empty [OF W', of q] by auto
  then obtain t' ts' where t': "filter (\<lambda>x. x \<noteq> t) (W q) = t' # ts'" by (meson neq_Nil_conv)
  then have "t' \<in> set (filter (\<lambda>x. x \<noteq> t) (W q))" by simp
  then have ne: "t' \<noteq> t" by simp
  from sem_queues_head [OF W' t'] h' have n': "node_of s' t' = Some h" by auto
  from sem_queues_head [OF W(1,2)] W(3) have n: "node_of s t = Some h" "owner s h = Some t" by auto
  have "waiting_sem_or_clot (threads s' t') = waiting_sem_or_clot (threads s t')"
    using os ne by (simp add: others_same_def)
  then have nt: "node_of s t' = Some h" using n' by (simp add: node_of_def)
  have cl: "clots_ok s" using W(1) by (auto simp: sem_queues_def semq_def lists_ok_def)
  show False
  proof (cases h)
    case (Thr x)
    then show ?thesis using n(2) nt ne by (auto simp: node_of_def owner_def split: waiting_on.splits) (metis waiting_on.exhaust)
  next
    case (Clot c)
    then have "waiting_sem_or_clot (threads s t') = Some (OnClot c)"
      using nt by (auto simp: node_of_def split: waiting_on.splits) (metis waiting_on.exhaust)
    then obtain k where "clots s c = Some k" "thr k = t'" using cl unfolding clots_ok_def by blast
    then show ?thesis using n(2) ne Clot by (simp add: owner_def)
  qed
qed

lemma AbandonSemLocked_spec:
  assumes "in_op R W T s" "cpu_phase s = Executing \<Longrightarrow> \<not> waiting s (current_thread s)"
  shows "\<exists>s' R'. AbandonSemLocked q s = Some s' \<and>
    in_op R' (\<lambda>p. filter (\<lambda>x. x \<notin> set (W q)) (W p)) (filter (\<lambda>x. x \<notin> set (W q)) T) s' \<and>
    sems_same s s' \<and> others_wait (set (W q)) s s' \<and>
    (\<forall>t. t \<notin> set (W q) \<longrightarrow> state (threads s' t) = state (threads s t) \<and> waiting s' t = waiting s t) \<and>
    (\<forall>t\<in>set (W q). state (threads s' t) = THREAD_STATE_READY \<and> \<not> waiting s' t \<and>
       block_return_val (threads s' t) = errno_code EABANDONED)"
  using assms
proof (induction "W q" arbitrary: R W T s)
  case Nil
  then have "waiting_list_start (sems s q) = None"
    using sem_queues_empty [OF in_opD(8) [OF Nil.prems(1)], of q] by simp
  then have "AbandonSemLocked q s = Some s" by (subst AbandonSemLocked.simps) simp
  then show ?case
    using Nil by (intro exI [of _ s] exI [of _ R]) (simp add: sems_same_def others_wait_def flip: Nil.hyps)
next
  case (Cons t ts)
  note sq = in_opD(8) [OF Cons.prems(1)]
  note w = Cons.hyps(2) [symmetric]
  obtain h where h: "waiting_list_start (sems s q) = Some h" "node_of s t = Some h" "owner s h = Some t"
    using sem_queues_head [OF sq w] by blast
  have d: "distinct (t # ts)" using sem_queues_distinct [OF sq, of q] w by simp
  have wt: "waiting s t" using h(2) by (auto simp: waiting_def node_of_def)
  note t = in_op_waiting [OF Cons.prems(1) wt Cons.prems(2)]
  let ?W = "\<lambda>p. filter (\<lambda>x. x \<noteq> t) (W p)" and ?T = "filter (\<lambda>x. x \<noteq> t) T"
  from UnblockThread_in_op [OF Cons.prems(1), of t "errno_code EABANDONED"] t obtain s1 where s1:
    "UnblockThread t (errno_code EABANDONED) s = Some s1" "in_op (unblocked_queue t s R) ?W ?T s1"
    "same_globals s s1" "others_same t s s1" "state (threads s1 t) = THREAD_STATE_READY"
    "block_return_val (threads s1 t) = errno_code EABANDONED" "waiting_sem_or_clot (threads s1 t) = None"
    "wake s1 t = 0" by auto
  have mv: "waiting_list_start (sems s1 q) \<noteq> Some h"
    using head_moves [OF sq w h(1) in_opD(8) [OF s1(2)] s1(4)] .
  have ts: "ts = ?W q" using w d by (auto simp: filter_id_conv intro!: filter_True [symmetric])
  have nwt: "\<not> waiting s1 t" using s1(7,8) by (simp add: waiting_def)
  note o1 = s1(4) [unfolded others_same_def]
  have w1: "waiting s1 u = waiting s u" if "u \<noteq> t" for u using o1 that by (simp add: waiting_def)
  have "\<not> waiting s1 (current_thread s1)" if "cpu_phase s1 = Executing"
    using Cons.prems(2) that s1(3) nwt w1 by (cases "current_thread s = t") (simp_all add: same_globals_def)
  from Cons.hyps(1) [of ?W, OF ts s1(2) this] obtain s' R' where s': "AbandonSemLocked q s1 = Some s'"
    "in_op R' (\<lambda>p. filter (\<lambda>x. x \<notin> set (?W q)) (?W p)) (filter (\<lambda>x. x \<notin> set (?W q)) ?T) s'"
    "sems_same s1 s'" "others_wait (set (?W q)) s1 s'"
    "\<forall>t. t \<notin> set (?W q) \<longrightarrow> state (threads s' t) = state (threads s1 t) \<and> waiting s' t = waiting s1 t"
    "\<forall>t\<in>set (?W q). state (threads s' t) = THREAD_STATE_READY \<and> \<not> waiting s' t \<and>
       block_return_val (threads s' t) = errno_code EABANDONED" by blast
  have run: "AbandonSemLocked q s = Some s'"
    using s1(1) s'(1) mv h by (subst AbandonSemLocked.simps) simp
  have ff: "filter (\<lambda>x. x \<notin> set (?W q)) (filter (\<lambda>x. x \<noteq> t) xs) = filter (\<lambda>x. x \<notin> set (W q)) xs" for xs
    using w by (auto intro!: filter_cong)
  note o2 = s'(4) [unfolded others_wait_def]
  have tq: "t \<in> set (W q)" using w by simp
  have "sems_same s s'" using s'(3) o1 by (simp add: sems_same_def)
  moreover have "others_wait (set (W q)) s s'"
    unfolding others_wait_def
  proof (intro allI impI)
    fix u assume "u \<notin> set (W q)"
    then have "u \<noteq> t" "u \<notin> set (?W q)" using tq by auto
    then show "wait_set s' u = wait_set s u \<and> wake s' u = wake s u \<and>
      block_return_val (threads s' u) = block_return_val (threads s u)" using o1 o2 by simp
  qed
  moreover have "\<forall>u. u \<notin> set (W q) \<longrightarrow> state (threads s' u) = state (threads s u) \<and> waiting s' u = waiting s u"
  proof (intro allI impI)
    fix u assume "u \<notin> set (W q)"
    then have "u \<noteq> t" "u \<notin> set (?W q)" using tq by auto
    then show "state (threads s' u) = state (threads s u) \<and> waiting s' u = waiting s u"
      using s'(5) o1 w1 by simp
  qed
  moreover have "state (threads s' u) = THREAD_STATE_READY \<and> \<not> waiting s' u \<and>
       block_return_val (threads s' u) = errno_code EABANDONED" if "u \<in> set (W q)" for u
  proof (cases "u = t")
    case True
    then have "t \<notin> set (?W q)" by simp
    then show ?thesis using True s'(5) o2 s1(5,6) nwt by simp
  next
    case False
    then show ?thesis using that s'(6) by simp
  qed
  ultimately show ?case
    using run s'(2) unfolding ff by blast
qed

lemma AbandonSem_wakes_all:
  assumes k: "kernel_ok R W T s"
  shows "\<exists>s' R'. AbandonSem q s = Some s' \<and>
    kernel_ok R' (\<lambda>p. filter (\<lambda>x. x \<notin> set (W q)) (W p)) (filter (\<lambda>x. x \<notin> set (W q)) T) s' \<and>
    sems_same s s' \<and> others_wait (set (W q)) s s' \<and>
    (\<forall>t\<in>set (W q). woken t (errno_code EABANDONED) s')"
proof -
  note a = AcquireScheduler_spec [OF k]
  have "\<not> waiting s (current_thread s)" if "cpu_phase s = Executing"
    using kernel_okD(6) [OF k] k that by (auto simp: kernel_ok_def)
  then have nw: "\<not> waiting (acquired s) (current_thread (acquired s))" if "cpu_phase (acquired s) = Executing"
    using that by (simp add: waiting_def)
  from AbandonSemLocked_spec [OF a(2) nw] obtain s1 R1 where s1: "AbandonSemLocked q (acquired s) = Some s1"
    "in_op R1 (\<lambda>p. filter (\<lambda>x. x \<notin> set (W q)) (W p)) (filter (\<lambda>x. x \<notin> set (W q)) T) s1"
    "sems_same (acquired s) s1" "others_wait (set (W q)) (acquired s) s1"
    "\<forall>t\<in>set (W q). state (threads s1 t) = THREAD_STATE_READY \<and> \<not> waiting s1 t \<and>
       block_return_val (threads s1 t) = errno_code EABANDONED" by blast
  from ReleaseScheduler_keeps [OF s1(2)] obtain s' R' where s': "ReleaseScheduler s1 = Some s'"
    "kernel_ok R' (\<lambda>p. filter (\<lambda>x. x \<notin> set (W q)) (W p)) (filter (\<lambda>x. x \<notin> set (W q)) T) s'"
    "sems_same s1 s'" "others_wait {} s1 s'"
    "\<forall>t. state (threads s1 t) \<noteq> THREAD_STATE_BLOCKED \<and> \<not> waiting s1 t \<longrightarrow>
       woken t (block_return_val (threads s1 t)) s'" by blast
  have wa: "wait_set (acquired s) u = wait_set s u" for u by (rule wait_set_cong) simp_all
  have "sems_same s s'" "others_wait (set (W q)) s s'"
    using s'(3,4) s1(3,4) wa by (simp_all add: sems_same_def others_wait_def)
  moreover have "\<forall>t\<in>set (W q). woken t (errno_code EABANDONED) s'"
    using s'(5) s1(5) by (metis tstate.distinct(5))
  ultimately show ?thesis using a(1) s1(1) s'(1,2) by (auto simp: AbandonSem_def)
qed

section \<open>Waiting in vain\<close>

text \<open>The deadline has passed already, or the sum of the clock and the timeout wraps around.\<close>

lemma AcquireSem_past:
  assumes k: "kernel_ok R W T s" and ph: "cpu_phase s = Executing"
    and full: "\<forall>q\<in>set qs. smax (sems s q) \<le> count (sems s q)"
    and to: "timeout \<noteq> 0" "timeout \<noteq> -1" "word_of_int timeout + ns_since_boot s \<le> ns_since_boot s"
  shows "\<exists>s'. AcquireSemFromMany mem qs timeout s = Some (Done (errno_code EAGAIN) None, s') \<and>
    kernel_ok R W T s' \<and> threads s' = threads s \<and> sems s' = sems s \<and> clots s' = clots s"
proof -
  note a = AcquireScheduler_spec [OF k]
  have init: "sched_init s" using placedD(2) [OF kernel_okD(7) [OF k]] .
  have "\<not> waiting s (current_thread s)" using kernel_okD(6) [OF k] k ph by (auto simp: kernel_ok_def)
  then have nw: "\<not> waiting (acquired s) (current_thread (acquired s))" by (simp add: waiting_def)
  have tf: "take_free qs 0 (acquired s) = None" using full by (simp add: take_free_None)
  have sl: "AddThreadToSleepQueue True (word_of_int timeout) False (acquired s) = Some (False, acquired s)"
    using SleepQueue_in_op [OF a(2) _ nw, of True "word_of_int timeout"] ph to(3) by simp
  have np: "\<not> sched_postponed (acquired s)" "sched_postponed_thr (acquired s) = None"
    using kernel_okD(5,10) [OF k] by simp_all
  from release_plain [OF a(2) np(1)] np obtain s' where s': "ReleaseScheduler (acquired s) = Some s'"
    "kernel_ok R W T s'" "client_same (acquired s) s'" "threads s' = threads s"
    by (auto simp: released_queue_def switches_def)
  then show ?thesis
    using a(1) init tf to sl by (auto simp: AcquireSemFromMany_def Let_def client_same_def)
qed

text \<open>No memory for the clot. With a timeout the caller is asleep already and gets the error later.\<close>

lemma AcquireSem_nomem:
  assumes k: "kernel_ok R W T s" and ph: "cpu_phase s = Executing"
    and full: "\<forall>q\<in>set qs. smax (sems s q) \<le> count (sems s q)"
    and qs: "distinct qs" "length qs > 1"
    and to: "timeout \<noteq> 0" "timeout \<noteq> -1 \<Longrightarrow> ns_since_boot s < word_of_int timeout + ns_since_boot s"
  shows "\<exists>s' R'. AcquireSemFromMany None qs timeout s =
      Some (if timeout = -1 then Done (errno_code ENOMEM) None
            else Resumes (current_thread s) (Some (errno_code ENOMEM)), s') \<and>
    kernel_ok R' W (if timeout = -1 then T
       else sleep_insert s (current_thread s) (word_of_int timeout + ns_since_boot s) T) s' \<and>
    sems s' = sems s \<and> wait_set s' (current_thread s) = [] \<and>
    (timeout \<noteq> -1 \<longrightarrow> state (threads s' (current_thread s)) = THREAD_STATE_BLOCKED)"
proof -
  note a = AcquireScheduler_spec [OF k]
  have init: "sched_init s" using placedD(2) [OF kernel_okD(7) [OF k]] .
  have nws: "\<not> waiting s (current_thread s)" using kernel_okD(6) [OF k] k ph by (auto simp: kernel_ok_def)
  then have nw: "\<not> waiting (acquired s) (current_thread (acquired s))" by (simp add: waiting_def)
  have tf: "take_free qs 0 (acquired s) = None" using full by (simp add: take_free_None)
  have nm: "AddThreadToSemQueues None t qs s = Some (errno_code ENOMEM, s)" for t s
    using qs by (simp add: AddThreadToSemQueues_def CreateClot_def)
  have e: "errno_code ENOMEM \<noteq> 0" by simp
  show ?thesis
  proof (cases "timeout = -1")
    case True
    have np: "\<not> sched_postponed (acquired s)" "sched_postponed_thr (acquired s) = None"
      using kernel_okD(5,10) [OF k] by simp_all
    from release_plain [OF a(2) np(1)] np obtain s' where s': "ReleaseScheduler (acquired s) = Some s'"
      "kernel_ok R W T s'" "client_same (acquired s) s'" "threads s' = threads s"
      by (auto simp: released_queue_def switches_def)
    have "wait_set s' (current_thread s) = []" using nws s'(4) by (simp add: waiting_def wait_set_def)
    then show ?thesis
      using a(1) init tf True s' nm by (auto simp: AcquireSemFromMany_def Let_def client_same_def)
  next
    case False
    let ?at = "word_of_int timeout + ns_since_boot s"
    have at: "\<not> ?at \<le> ns_since_boot s" using to(2) [OF False] by simp
    have ins: "sleep_insert (acquired s) u x T = sleep_insert s u x T" for u x by (simp add: sleep_insert_def)
    note S = SleepQueue_in_op [OF a(2) _ nw, of True "word_of_int timeout", unfolded acquired_fields if_True if_not_P [OF at], OF ph]
    from S obtain s1 where s1: "AddThreadToSleepQueue True (word_of_int timeout) False (acquired s) = Some (True, s1)"
      "in_op R W (sleep_insert s (current_thread s) ?at T) s1" "wake s1 (current_thread s) = ?at"
      "current_thread s1 = current_thread s" "waiting_sem_or_clot (threads s1 (current_thread s)) = None"
      "sems s1 = sems s"
      unfolding ins by blast
    from ReleaseScheduler_spec [OF s1(2)] obtain s' R' where s': "ReleaseScheduler s1 = Some s'"
      "kernel_ok R' W (sleep_insert s (current_thread s) ?at T) s'" "client_same s1 s'" by blast
    have "?at \<noteq> 0" using at by auto
    then have "waiting s' (current_thread s)" using s'(3) s1(3) by (simp add: waiting_def client_same_def)
    then have "state (threads s' (current_thread s)) = THREAD_STATE_BLOCKED" by (rule kernel_okD(13) [OF s'(2)])
    moreover have "wait_set s' (current_thread s) = []" using s'(3) s1(5) by (simp add: wait_set_def client_same_def)
    ultimately show ?thesis
      using a(1) init tf to(1) False s1 s' nm e
      by (auto simp: AcquireSemFromMany_def Let_def client_same_def bind_eq_Some_conv)
  qed
qed

end
