(* ===== verification/Kernel.thy ===== *)
theory Kernel
  imports "HOL-Library.Multiset" SemProps
begin

text \<open>
  The kernel as a transition system: its steps are the operations of the scheduler, the timer and
  the semaphores, in any order. Its invariant ties the lists to the counts of the semaphores and to
  the tokens that have been granted.
\<close>

section \<open>The transition system\<close>

type_synonym holders = "sid \<Rightarrow> tid multiset"

text \<open>
  One step of the machine: an operation of the running thread, a timer interrupt, or the idle loop.
  \<open>H q\<close> counts who has been granted a token of \<open>q\<close> and has not given it back: the caller when
  \<open>AcquireSemFromMany\<close> returns with a selection, and the thread that \<open>ReleaseSem\<close> wakes with a
  selection. The semaphores in \<open>M\<close> are used as locks: only a holder releases one, and it starts out
  free.
\<close>

inductive kstep :: "sid set \<Rightarrow> kstate \<times> holders \<Rightarrow> kstate \<times> holders \<Rightarrow> bool" for M where
  take: "\<lbrakk>cpu_phase s = Executing; distinct qs; qs \<noteq> []; \<forall>c. mem = Some c \<longrightarrow> clots s c = None;
     AcquireSemFromMany mem qs timeout s = Some (Done 0 (Some i), s')\<rbrakk> \<Longrightarrow>
     kstep M (s, H) (s', H(qs ! nat i := add_mset (current_thread s) (H (qs ! nat i))))"
| wait: "\<lbrakk>cpu_phase s = Executing; distinct qs; qs \<noteq> []; \<forall>c. mem = Some c \<longrightarrow> clots s c = None;
     AcquireSemFromMany mem qs timeout s = Some (r, s'); \<And>i. r \<noteq> Done 0 (Some i)\<rbrakk> \<Longrightarrow>
     kstep M (s, H) (s', H)"
| give: "\<lbrakk>q \<in> M \<Longrightarrow> current_thread s \<in># H q; ReleaseSem q s = Some (0, s');
     \<And>t. wait_set s' t = wait_set s t\<rbrakk> \<Longrightarrow>
     kstep M (s, H) (s', H(q := H q - {#current_thread s#}))"
| hand: "\<lbrakk>q \<in> M \<Longrightarrow> current_thread s \<in># H q; ReleaseSem q s = Some (0, s'); wait_set s t \<noteq> [];
     AcquireResume t s' = (0, Some i); \<not> waiting s' t; H1 = H(q := H q - {#current_thread s#})\<rbrakk> \<Longrightarrow>
     kstep M (s, H) (s', H1(wait_set s t ! nat i := add_mset t (H1 (wait_set s t ! nat i))))"
| abandon: "AbandonSem q s = Some s' \<Longrightarrow> kstep M (s, H) (s', H)"
| yield: "Schedule s = Some s' \<Longrightarrow> kstep M (s, H) (s', H)"
| sleep: "\<lbrakk>cpu_phase s = Executing; AddThreadToSleepQueue relative ns True s = Some (b, s')\<rbrakk> \<Longrightarrow>
     kstep M (s, H) (s', H)"
| tick: "AdvanceTimer ns s = Some s' \<Longrightarrow> kstep M (s, H) (s', H)"
| idle: "\<lbrakk>cpu_phase s = Parked og; IdleWake s = Some s'\<rbrakk> \<Longrightarrow> kstep M (s, H) (s', H)"
| create: "\<lbrakk>t \<noteq> current_thread s; state (threads s t) = THREAD_STATE_BLOCKED; \<not> waiting s t;
     CreateThreadEx t s = Some s'\<rbrakk> \<Longrightarrow> kstep M (s, H) (s', H)"
| priority: "SetThreadPriority t p s = Some s' \<Longrightarrow> kstep M (s, H) (s', H)"
| init: "\<lbrakk>waiting_list_start (sems s q) = None; initial \<le> mx; q \<in> M \<Longrightarrow> initial = 0 \<and> H q = {#}\<rbrakk> \<Longrightarrow>
     kstep M (s, H) (InitStaticSem q mx initial s, H)"

section \<open>The invariant\<close>

definition sems_ok :: "(sid \<Rightarrow> tid list) \<Rightarrow> kstate \<Rightarrow> bool" where
  "sems_ok W s \<longleftrightarrow> (\<forall>q. count (sems s q) \<le> smax (sems s q) \<and>
     (W q \<noteq> [] \<longrightarrow> count (sems s q) = smax (sems s q)))"

definition held_ok :: "sid set \<Rightarrow> kstate \<Rightarrow> holders \<Rightarrow> bool" where
  "held_ok M s H \<longleftrightarrow> (\<forall>q\<in>M. count (sems s q) = int (size (H q)))"

definition kernel_inv :: "sid set \<Rightarrow> kstate \<times> holders \<Rightarrow> bool" where
  "kernel_inv M c \<longleftrightarrow> (\<exists>R W T. kernel_ok R W T (fst c) \<and> sems_ok W (fst c)) \<and> held_ok M (fst c) (snd c)"

lemma kernel_invI:
  "\<lbrakk>kernel_ok R W T s; sems_ok W s; held_ok M s H\<rbrakk> \<Longrightarrow> kernel_inv M (s, H)"
  by (auto simp: kernel_inv_def)

lemma sems_ok_sub:
  assumes "sems_ok W s" "sems_same s s'" "\<And>q. W q = [] \<Longrightarrow> W' q = []"
  shows "sems_ok W' s'"
  using assms unfolding sems_ok_def sems_same_def by metis

lemma same_inv:
  assumes "kernel_ok R' W' T' s'" "sems_same s s'" "sems_ok W s" "held_ok M s H"
    "\<And>q. W q = [] \<Longrightarrow> W' q = []"
  shows "kernel_inv M (s', H)"
  using assms by (intro kernel_invI [of R' W' T']) (auto simp: sems_ok_def held_ok_def sems_same_def)

lemma held_add:
  assumes "held_ok M s H" "count (sems s' q) = count (sems s q) + 1"
    "\<And>p. p \<noteq> q \<Longrightarrow> count (sems s' p) = count (sems s p)"
  shows "held_ok M s' (H(q := add_mset t (H q)))"
  using assms by (simp add: held_ok_def)

lemma held_sub:
  assumes "held_ok M s H" "count (sems s' q) = count (sems s q) - 1" "q \<in> M \<Longrightarrow> t \<in># H q"
    "\<And>p. p \<noteq> q \<Longrightarrow> count (sems s' p) = count (sems s p)"
  shows "held_ok M s' (H(q := H q - {#t#}))"
proof -
  have "int (size (H q - {#t#})) = int (size (H q)) - 1" if "q \<in> M"
    using assms(3) that by (cases "H q") (auto simp: size_Diff_singleton of_nat_diff Suc_leI)
  then show ?thesis using assms by (simp add: held_ok_def)
qed

lemma InitStaticSem_kernel_ok:
  assumes k: "kernel_ok R W T s" and e: "waiting_list_start (sems s q) = None"
  shows "kernel_ok R W T (InitStaticSem q mx initial s)" "W q = []"
proof -
  show Wq: "W q = []" using sem_queues_empty [OF kernel_okD(8) [OF k]] e by blast
  let ?s = "InitStaticSem q mx initial s"
  obtain Q where Q: "semq s Q" "W q = map (\<lambda>w. the (owner s w)) (Q q)"
    using kernel_okD(8) [OF k] by (auto simp: sem_queues_def)
  then have "sem_chain s q []" using Wq unfolding semq_def lists_ok_def by (metis map_is_Nil_conv)
  then have f: "waiting_list_start (sems ?s p) = waiting_list_start (sems s p)"
    "waiting_list_end (sems ?s p) = waiting_list_end (sems s p)" for p
    by (simp_all add: InitStaticSem_def sem_chain_def)
  have rq: "ready_queue ?s R = ready_queue s R" by (rule ready_queue_cong) (simp_all add: InitStaticSem_def)
  have can: "CanThreadRunOnThisCpu u ?s = CanThreadRunOnThisCpu u s" for u
    by (simp add: CanThreadRunOnThisCpu_def InitStaticSem_def)
  have g: "threads ?s = threads s" "current_thread ?s = current_thread s" "sched_init ?s = sched_init s"
    "sched_postponed_thr ?s = sched_postponed_thr s" "sched_postponed ?s = sched_postponed s"
    "locks ?s = locks s" "sched_prevent_count ?s = sched_prevent_count s" "cpu_phase ?s = cpu_phase s"
    "cpu_irq_disable_counter ?s = cpu_irq_disable_counter s"
    by (simp_all add: InitStaticSem_def)
  have pl: "placed R ?s" using kernel_okD(7) [OF k] unfolding placed_def rq can g .
  have W: "sem_queues ?s W = sem_queues s W"
    by (rule sem_queues_cong) (use f in \<open>simp_all add: InitStaticSem_def\<close>)
  have T: "timer_chain ?s T = timer_chain s T" by (rule timer_chain_cong) (simp_all add: InitStaticSem_def)
  have T': "timers ?s T = timers s T" by (rule timers_cong) (simp_all add: InitStaticSem_def)
  have w: "waiting ?s u = waiting s u" for u by (simp add: waiting_def g)
  show "kernel_ok R W T ?s" using k pl unfolding kernel_ok_def kcore_def W T T' w g by blast
qed

section \<open>Every step keeps the invariant\<close>

text \<open>All that \<open>AcquireSemFromMany\<close> may answer, and what it leaves behind.\<close>

lemma AcquireSem_cases:
  assumes k: "kernel_ok R W T s" and ph: "cpu_phase s = Executing" and qs: "distinct qs" "qs \<noteq> []"
    and mem: "\<forall>c. mem = Some c \<longrightarrow> clots s c = None"
  obtains
    (taken) i s' where "AcquireSemFromMany mem qs timeout s = Some (Done 0 (Some (int i)), s')"
      "i < length qs" "count (sems s (qs ! i)) < smax (sems s (qs ! i))" "kernel_ok R W T s'"
      "sems s' = sems (upd_sem (qs ! i) (\<lambda>x. x\<lparr>count := count x + 1\<rparr>) s)"
  | (refused) e s' R' where "AcquireSemFromMany mem qs timeout s = Some (Done (errno_code e) None, s')"
      "\<forall>q\<in>set qs. smax (sems s q) \<le> count (sems s q)" "kernel_ok R' W T s'" "sems_same s s'"
  | (failed) s' R' T' where "AcquireSemFromMany mem qs timeout s =
       Some (Resumes (current_thread s) (Some (errno_code ENOMEM)), s')"
      "\<forall>q\<in>set qs. smax (sems s q) \<le> count (sems s q)" "kernel_ok R' W T' s'" "sems_same s s'"
  | (blocks) s' R' T' where "AcquireSemFromMany mem qs timeout s = Some (Resumes (current_thread s) None, s')"
      "\<forall>q\<in>set qs. smax (sems s q) \<le> count (sems s q)"
      "kernel_ok R' (\<lambda>q. if q \<in> set qs then W q @ [current_thread s] else W q) T' s'" "sems_same s s'"
      "wait_set s' (current_thread s) = qs"
proof (cases "take_free qs 0 s")
  case (Some r)
  obtain i s0 where r: "r = (i, s0)" by (cases r)
  note t = take_free_Some [OF Some [unfolded r]]
  from AcquireSem_now(1) [OF k Some [unfolded r], of mem timeout] t show thesis
    using taken [of "nat i"] by fastforce
next
  case None
  then have full: "\<forall>q\<in>set qs. smax (sems s q) \<le> count (sems s q)" by (simp add: take_free_None)
  note ss = sems_same_def
  let ?past = "word_of_int timeout + ns_since_boot s \<le> ns_since_boot s"
  consider (zero) "timeout = 0" | (past) "timeout \<noteq> 0" "timeout \<noteq> -1" "?past"
    | (nomem) "timeout \<noteq> 0" "timeout = -1 \<or> \<not> ?past" "length qs > 1" "mem = None"
    | (wait) "timeout \<noteq> 0" "timeout = -1 \<or> \<not> ?past" "length qs > 1 \<Longrightarrow> mem \<noteq> None" by blast
  then show thesis
  proof cases
    case zero
    from AcquireSem_now(2) [OF k None zero] obtain s' where
      "AcquireSemFromMany mem qs timeout s = Some (Done (errno_code EAGAIN) None, s')"
      "kernel_ok R W T s'" "sems s' = sems s" by blast
    then show thesis by (intro refused [where e = EAGAIN, OF _ full]) (auto simp: ss)
  next
    case past
    from AcquireSem_past [OF k ph full past] obtain s' where
      "AcquireSemFromMany mem qs timeout s = Some (Done (errno_code EAGAIN) None, s')"
      "kernel_ok R W T s'" "sems s' = sems s" by blast
    then show thesis by (intro refused [where e = EAGAIN, OF _ full]) (auto simp: ss)
  next
    case nomem
    from AcquireSem_nomem [OF k ph full qs(1) nomem(3,1)] nomem(2) obtain s' R' where
      "AcquireSemFromMany None qs timeout s = Some (if timeout = -1 then Done (errno_code ENOMEM) None
            else Resumes (current_thread s) (Some (errno_code ENOMEM)), s')"
      "kernel_ok R' W (if timeout = -1 then T
       else sleep_insert s (current_thread s) (word_of_int timeout + ns_since_boot s) T) s'"
      "sems s' = sems s" by (auto simp: not_le)
    then show thesis
      using refused [where e = ENOMEM, OF _ full] failed [OF _ full] nomem(4) by (cases "timeout = -1") (auto simp: ss)
  next
    case wait
    from AcquireSem_wait [OF k ph full qs _ wait(3,1)] mem wait(2) obtain s' R' where
      "AcquireSemFromMany mem qs timeout s = Some (Resumes (current_thread s) None, s')"
      "kernel_ok R' (\<lambda>q. if q \<in> set qs then W q @ [current_thread s] else W q)
      (if timeout = -1 then T
       else sleep_insert s (current_thread s) (word_of_int timeout + ns_since_boot s) T) s'"
      "sems_same s s'" "wait_set s' (current_thread s) = qs" by (auto simp: not_le)
    then show thesis by (intro blocks [OF _ full])
  qed
qed

lemma take_step:
  assumes I: "kernel_inv M (s, H)" and ph: "cpu_phase s = Executing" and qs: "distinct qs" "qs \<noteq> []"
    and mem: "\<forall>c. mem = Some c \<longrightarrow> clots s c = None"
    and a: "AcquireSemFromMany mem qs timeout s = Some (Done 0 (Some i), s')"
  shows "kernel_inv M (s', H(qs ! nat i := add_mset (current_thread s) (H (qs ! nat i))))"
proof -
  from I obtain R W T where k: "kernel_ok R W T s" and sk: "sems_ok W s" and h: "held_ok M s H"
    by (auto simp: kernel_inv_def)
  show ?thesis
  proof (cases rule: AcquireSem_cases [OF k ph qs mem, of timeout, case_names taken refused failed blocks])
    case (taken j t)
    then have e: "i = int j" "s' = t" using a by simp_all
    then have c: "count (sems s' (qs ! j)) = count (sems s (qs ! j)) + 1"
      "\<And>p. p \<noteq> qs ! j \<Longrightarrow> sems s' p = sems s p" "smax (sems s' p) = smax (sems s p)" for p
      using taken by simp_all
    have "sems_ok W s'"
      unfolding sems_ok_def
    proof
      fix q
      show "count (sems s' q) \<le> smax (sems s' q) \<and> (W q \<noteq> [] \<longrightarrow> count (sems s' q) = smax (sems s' q))"
        using sk taken(3) c by (cases "q = qs ! j") (auto simp: sems_ok_def)
    qed
    moreover have "held_ok M s' (H(qs ! j := add_mset (current_thread s) (H (qs ! j))))"
      using h c by (intro held_add) simp_all
    ultimately show ?thesis using taken(4) e by (auto intro: kernel_invI)
  qed (use a in auto)
qed

lemma wait_step:
  assumes I: "kernel_inv M (s, H)" and ph: "cpu_phase s = Executing" and qs: "distinct qs" "qs \<noteq> []"
    and mem: "\<forall>c. mem = Some c \<longrightarrow> clots s c = None"
    and a: "AcquireSemFromMany mem qs timeout s = Some (r, s')" and r: "\<And>i. r \<noteq> Done 0 (Some i)"
  shows "kernel_inv M (s', H)"
proof -
  from I obtain R W T where k: "kernel_ok R W T s" and sk: "sems_ok W s" and h: "held_ok M s H"
    by (auto simp: kernel_inv_def)
  show ?thesis
  proof (cases rule: AcquireSem_cases [OF k ph qs mem, of timeout, case_names taken refused failed blocks])
    case (blocks t R' T')
    then have e: "s' = t" using a by simp
    have "sems_ok (\<lambda>q. if q \<in> set qs then W q @ [current_thread s] else W q) s'"
      using sk blocks(2,4) e by (auto simp: sems_ok_def sems_same_def intro: antisym)
    moreover have "held_ok M s' H" using h blocks(4) e by (simp add: held_ok_def sems_same_def)
    ultimately show ?thesis using blocks(3) e by (auto intro: kernel_invI)
  qed (use a r sk h in \<open>auto intro: same_inv\<close>)
qed

text \<open>\<open>ReleaseSem\<close> either frees a token or hands it to the first waiter, never both.\<close>

lemma ReleaseSem_cases:
  assumes k: "kernel_ok R W T s"
  obtains
    (free) s' where "ReleaseSem q s = Some (0, s')" "count (sems s q) \<noteq> smax (sems s q) \<or> W q = []"
      "kernel_ok R W T s'" "threads s' = threads s" "clots s' = clots s"
      "sems s' = (sems s)(q := (sems s q)\<lparr>count := count (sems s q) - 1\<rparr>)"
  | (passed) s' R' t i where "ReleaseSem q s = Some (0, s')" "count (sems s q) = smax (sems s q)"
      "hd (W q) = t" "kernel_ok R' (\<lambda>p. filter (\<lambda>x. x \<noteq> t) (W p)) (filter (\<lambda>x. x \<noteq> t) T) s'"
      "sems_same s s'" "others_wait {t} s s'" "woken t (- int i) s'" "i < length (wait_set s t)"
      "wait_set s t ! i = q"
proof (cases "count (sems s q) \<noteq> smax (sems s q) \<or> W q = []")
  case True
  from ReleaseSem_free [OF k True] True show thesis using free by blast
next
  case False
  then obtain t ts where w: "W q = t # ts" "count (sems s q) = smax (sems s q)" by (cases "W q") auto
  from ReleaseSem_hands_over [OF k w(2,1)] w show thesis using passed by auto
qed

lemma woken_wait_set: "\<not> waiting s t \<Longrightarrow> wait_set s t = []"
  by (simp add: waiting_def wait_set_def)

lemma give_step:
  assumes I: "kernel_inv M (s, H)" and h: "q \<in> M \<Longrightarrow> current_thread s \<in># H q"
    and r: "ReleaseSem q s = Some (0, s')" and nw: "\<And>t. wait_set s' t = wait_set s t"
  shows "kernel_inv M (s', H(q := H q - {#current_thread s#}))"
proof -
  from I obtain R W T where k: "kernel_ok R W T s" and sk: "sems_ok W s" and hk: "held_ok M s H"
    by (auto simp: kernel_inv_def)
  show ?thesis
  proof (cases rule: ReleaseSem_cases [OF k, of q, case_names free passed])
    case (free t)
    then have e: "s' = t" using r by simp
    have "sems_ok W s'"
      unfolding sems_ok_def
    proof
      fix p
      show "count (sems s' p) \<le> smax (sems s' p) \<and> (W p \<noteq> [] \<longrightarrow> count (sems s' p) = smax (sems s' p))"
        using spec [OF sk [unfolded sems_ok_def], of p] free(2,6) e by (cases "p = q") auto
    qed
    moreover have "held_ok M s' (H(q := H q - {#current_thread s#}))"
      using hk h free(6) e by (intro held_sub) simp_all
    ultimately show ?thesis using free(3) e by (auto intro: kernel_invI)
  next
    case (passed x R' t i)
    have "wait_set x t = []" using passed(7) by (intro woken_wait_set) (simp add: woken_def)
    then show ?thesis using passed(1,8) r nw [of t] by simp
  qed
qed

lemma hand_step:
  assumes I: "kernel_inv M (s, H)" and h: "q \<in> M \<Longrightarrow> current_thread s \<in># H q"
    and r: "ReleaseSem q s = Some (0, s')" and t: "wait_set s t \<noteq> []" "\<not> waiting s' t"
    and i: "AcquireResume t s' = (0, Some i)"
  defines "H1 \<equiv> H(q := H q - {#current_thread s#})"
  shows "kernel_inv M (s', H1(wait_set s t ! nat i := add_mset t (H1 (wait_set s t ! nat i))))"
proof -
  from I obtain R W T where k: "kernel_ok R W T s" and sk: "sems_ok W s" and hk: "held_ok M s H"
    by (auto simp: kernel_inv_def)
  show ?thesis
  proof (cases rule: ReleaseSem_cases [OF k, of q, case_names free passed])
    case (free x)
    then have "wait_set s' t = wait_set s t" using r by (intro wait_set_cong) simp_all
    then show ?thesis using t woken_wait_set [of s' t] by simp
  next
    case (passed x R' u j)
    then have e: "s' = x" using r by simp
    have u: "u = t"
      using passed(6) t woken_wait_set [of s' t] e by (auto simp: others_wait_def)
    then have q: "wait_set s t ! nat i = q"
      using i passed(7,9) e by (auto simp: AcquireResume_def woken_def Let_def)
    have s1: "size (H1 q) + 1 = size (H q)" if "q \<in> M"
      using h [OF that] by (simp add: H1_def size_Diff_singleton)
        (metis Suc_pred size_eq_0_iff_empty empty_not_add_mset insert_DiffM not_gr_zero)
    have "held_ok M s' (H1(q := add_mset t (H1 q)))"
      unfolding held_ok_def
    proof
      fix p assume p: "p \<in> M"
      show "count (sems s' p) = int (size ((H1(q := add_mset t (H1 q))) p))"
        using hk p s1 passed(5) e by (cases "p = q") (auto simp: held_ok_def sems_same_def H1_def)
    qed
    moreover have "sems_ok (\<lambda>p. filter (\<lambda>x. x \<noteq> u) (W p)) s'"
      using sk passed(5) unfolding e by (rule sems_ok_sub) simp
    ultimately show ?thesis using passed(4) e unfolding q by (auto intro: kernel_invI)
  qed
qed

text \<open>The other steps leave the counts alone and only ever shorten the queues.\<close>

lemma quiet_step:
  assumes "kernel_inv M (s, H)"
    and "\<And>R W T. kernel_ok R W T s \<Longrightarrow> \<exists>R' W' T'. kernel_ok R' W' T' s' \<and> sems_same s s' \<and>
      (\<forall>q. W q = [] \<longrightarrow> W' q = [])"
  shows "kernel_inv M (s', H)"
proof -
  from assms(1) obtain R W T where k: "kernel_ok R W T s" and sk: "sems_ok W s" and h: "held_ok M s H"
    by (auto simp: kernel_inv_def)
  from assms(2) [OF k] same_inv [OF _ _ sk h] show ?thesis by blast
qed

lemma client_same_sems: "client_same s s' \<Longrightarrow> sems_same s s'"
  by (simp add: client_same_def sems_same_def)

lemma kstep_inv:
  assumes "kstep M c c'" "kernel_inv M c"
  shows "kernel_inv M c'"
  using assms
proof (induction rule: kstep.induct)
  case (take s qs mem timeout i s' H)
  show ?case using take.prems take.hyps by (rule take_step)
next
  case (wait s qs mem timeout r s' H)
  show ?case using wait.prems wait.hyps by (rule wait_step)
next
  case (give q s H s')
  show ?case using give.prems give.hyps by (rule give_step)
next
  case (hand q s H s' t i H1)
  then show ?case using hand_step [of M s H q s' t i] by simp
next
  case (abandon q s s' H)
  show ?case
  proof (rule quiet_step [OF abandon.prems])
    fix R W T assume "kernel_ok R W T s"
    from AbandonSem_wakes_all [OF this, of q] abandon.hyps
    show "\<exists>R' W' T'. kernel_ok R' W' T' s' \<and> sems_same s s' \<and> (\<forall>q. W q = [] \<longrightarrow> W' q = [])" by fastforce
  qed
next
  case (yield s s' H)
  show ?case
  proof (rule quiet_step [OF yield.prems])
    fix R W T assume "kernel_ok R W T s"
    from Schedule_spec [OF this] yield.hyps client_same_sems [of s s']
    show "\<exists>R' W' T'. kernel_ok R' W' T' s' \<and> sems_same s s' \<and> (\<forall>q. W q = [] \<longrightarrow> W' q = [])" by fastforce
  qed
next
  case (sleep s relative ns b s' H)
  show ?case
  proof (rule quiet_step [OF sleep.prems])
    fix R W T assume k: "kernel_ok R W T s"
    from AddThreadToSleepQueue_spec [OF k sleep.hyps(1), of relative ns] sleep.hyps(2)
    show "\<exists>R' W' T'. kernel_ok R' W' T' s' \<and> sems_same s s' \<and> (\<forall>q. W q = [] \<longrightarrow> W' q = [])"
      unfolding sems_same_def by (simp split: if_split_asm) blast+
  qed
next
  case (tick ns s s' H)
  show ?case
  proof (rule quiet_step [OF tick.prems])
    fix R W T assume "kernel_ok R W T s"
    from AdvanceTimer_spec [OF this, of ns] tick.hyps
    show "\<exists>R' W' T'. kernel_ok R' W' T' s' \<and> sems_same s s' \<and> (\<forall>q. W q = [] \<longrightarrow> W' q = [])"
      unfolding sems_same_def by fastforce
  qed
next
  case (idle s og s' H)
  show ?case
  proof (rule quiet_step [OF idle.prems])
    fix R W T assume k: "kernel_ok R W T s"
    show "\<exists>R' W' T'. kernel_ok R' W' T' s' \<and> sems_same s s' \<and> (\<forall>q. W q = [] \<longrightarrow> W' q = [])"
    proof (cases "something_unblocked_seq s = og")
      case True
      then show ?thesis using idle.hyps IdleWake_spurious [of s] k by (auto simp: sems_same_def)
    next
      case False
      from IdleWake_spec [OF k idle.hyps(1) False] idle.hyps(2) client_same_sems [of s s']
      show ?thesis by (fastforce split: option.splits)
    qed
  qed
next
  case (create t s s' H)
  show ?case
  proof (rule quiet_step [OF create.prems])
    fix R W T assume k: "kernel_ok R W T s"
    from CreateThreadEx_spec [OF k create.hyps(2,3,1)] create.hyps(4)
    show "\<exists>R' W' T'. kernel_ok R' W' T' s' \<and> sems_same s s' \<and> (\<forall>q. W q = [] \<longrightarrow> W' q = [])"
      unfolding sems_same_def by fastforce
  qed
next
  case (priority t p s s' H)
  show ?case
  proof (rule quiet_step [OF priority.prems])
    fix R W T assume k: "kernel_ok R W T s"
    from SetThreadPriority_spec [OF k, of t p] priority.hyps
    show "\<exists>R' W' T'. kernel_ok R' W' T' s' \<and> sems_same s s' \<and> (\<forall>q. W q = [] \<longrightarrow> W' q = [])"
      unfolding sems_same_def by fastforce
  qed
next
  case (init s q initial mx H)
  from init.prems obtain R W T where k: "kernel_ok R W T s" and sk: "sems_ok W s" and h: "held_ok M s H"
    by (auto simp: kernel_inv_def)
  note i = InitStaticSem_kernel_ok(1) [OF k init.hyps(1), of mx initial]
    InitStaticSem_kernel_ok(2) [OF k init.hyps(1)]
  have "sems_ok W (InitStaticSem q mx initial s)"
    using sk init.hyps(2) i(2) by (auto simp: sems_ok_def InitStaticSem_def)
  moreover have "held_ok M (InitStaticSem q mx initial s) H"
    using h init.hyps(3) by (auto simp: held_ok_def InitStaticSem_def)
  ultimately show ?case using i(1) by (auto intro: kernel_invI)
qed

lemma reachable_inv: "\<lbrakk>(kstep M)\<^sup>*\<^sup>* c c'; kernel_inv M c\<rbrakk> \<Longrightarrow> kernel_inv M c'"
  by (induction rule: rtranclp_induct) (auto intro: kstep_inv)

section \<open>A concrete kernel state\<close>

text \<open>Thread 0 runs and holds mutex 0, thread 1 waits for it, thread 2 is ready, thread 3 unused.\<close>

definition demo_thread :: "tstate \<Rightarrow> tid option \<Rightarrow> waiting_on option \<Rightarrow> thread" where
  "demo_thread st nx w = \<lparr>state = st, priority = 128, idling = False, block_return_val = 0,
     next_ready = nx, next_waiting_sem = None, next_waiting_timer = None, waiting_sem_or_clot = w,
     wakeup_time_ns = 0, affinity_bitmask = 1, irq_disable_counter = 2, saved_interrupt_enabled = True\<rparr>"

definition demo :: kstate where
  "demo = \<lparr>threads = (\<lambda>t. if t = 0 then demo_thread THREAD_STATE_RUNNING None None
       else if t = 1 then demo_thread THREAD_STATE_BLOCKED None (Some (OnSem 0))
       else if t = 2 then demo_thread THREAD_STATE_READY None None
       else demo_thread THREAD_STATE_BLOCKED None None),
     sems = (\<lambda>q. if q = 0 then \<lparr>count = 1, smax = 1, waiting_list_start = Some (Thr 1), waiting_list_end = Some (Thr 1)\<rparr>
       else \<lparr>count = 0, smax = 1, waiting_list_start = None, waiting_list_end = None\<rparr>),
     clots = (\<lambda>_. None), current_thread = 0, sched_init = True, sched_prevent_count = 0,
     sched_postponed = False, sched_postponed_thr = None, ready_list_head = Some 2, ready_list_tail = Some 2,
     something_unblocked_seq = 0, last_task_switch_time = 0, ns_since_boot = 1, next_wakeup_ns = 0,
     first_waiting_timer = None, locks = (\<lambda>_. False), interrupts = True, cpu_irq_disable_counter = 0,
     cpu_saved_interrupt_enabled = False, cpu_num = 0, cpu_phase = Executing\<rparr>"

definition demo_W :: "sid \<Rightarrow> tid list" where
  "demo_W q = (if q = 0 then [1] else [])"

lemma demo_semq: "semq demo (\<lambda>q. if q = 0 then [Thr 1] else [])"
  by (auto simp: semq_def lists_ok_def clots_ok_def sem_chain_def waits_def demo_def demo_thread_def
      the_next_def read_next_def last_ptr_def split: waiter.splits if_splits option.splits)

lemma demo_ok: "kernel_ok [2] demo_W [] demo"
proof -
  have "sem_queues demo demo_W"
    unfolding sem_queues_def using demo_semq
    by (intro exI [of _ "\<lambda>q. if q = 0 then [Thr 1] else []"]) (simp add: demo_W_def owner_def)
  moreover have "ready_queue demo [2]" by (simp add: ready_queue_def demo_def demo_thread_def last_ptr_def)
  moreover from this have "placed [2] demo"
    by (intro placedI) (auto simp: demo_def demo_thread_def CanThreadRunOnThisCpu_def split: if_splits)
  moreover have "timer_chain demo []" by (simp add: timer_chain_def demo_def demo_thread_def)
  ultimately show ?thesis
    by (auto simp: kernel_ok_def kcore_def timers_def waiting_def demo_def demo_thread_def split: if_splits)
qed

lemma demo_sems: "sems_ok demo_W demo"
  by (simp add: sems_ok_def demo_W_def demo_def)

end
