(* ===== verification/KernelProps.thy ===== *)
theory KernelProps
  imports Kernel
begin

text \<open>
  The properties of the scheduler, the timer and the semaphores that span their operations, each
  with an application to the state \<open>demo\<close>.
\<close>

lemma demo_simps:
  "current_thread demo = 0" "cpu_phase demo = Executing" "CanThreadRunOnThisCpu t demo"
  "wait_set demo 1 = [0]" "wait_set demo (Suc 0) = [0]" "count (sems demo q) = (if q = 0 then 1 else 0)" "smax (sems demo q) = 1"
  "ns_since_boot demo = 1"
  by (simp_all add: demo_def demo_thread_def CanThreadRunOnThisCpu_def wait_set_def)

section \<open>Round robin\<close>

lemma Schedule_next:
  assumes k: "kernel_ok R W T s" and ph: "cpu_phase s = Executing"
  shows "\<exists>s' t. Schedule s = Some s' \<and>
    find (\<lambda>t. CanThreadRunOnThisCpu t s) (R @ [current_thread s]) = Some t \<and>
    kernel_ok (remove1 t (R @ [current_thread s])) W T s' \<and>
    current_thread s' = t \<and> cpu_phase s' = Executing \<and> client_same s s'"
proof -
  let ?a = "(acquired s)\<lparr>sched_postponed := True\<rparr>"
  from Schedule_spec [OF k] obtain s' where s': "Schedule s = Some s'" "kernel_ok (released_queue ?a R) W T s'"
    "client_same s s'" "current_thread s' = released_current ?a R"
    "cpu_phase s' = released_phase ?a R" by blast
  have run: "state (threads s (current_thread s)) = THREAD_STATE_RUNNING"
    using k ph by (simp add: kernel_ok_def)
  have sw: "switches ?a" using ph by (simp add: switches_def)
  have can: "CanThreadRunOnThisCpu t (acquired s) = CanThreadRunOnThisCpu t s" for t
    by (simp add: CanThreadRunOnThisCpu_def)
  have np: "sched_postponed_thr s = None" using kernel_okD(10) [OF k] .
  have nx: "next_thread ?a R = find (\<lambda>t. CanThreadRunOnThisCpu t s) (R @ [current_thread s])"
    by (simp add: next_thread_def candidates_def run np can)
  have "CanThreadRunOnThisCpu (current_thread s) s" using placedD(4) [OF kernel_okD(7) [OF k]] .
  then obtain t where t: "find (\<lambda>t. CanThreadRunOnThisCpu t s) (R @ [current_thread s]) = Some t"
    by (cases "find (\<lambda>t. CanThreadRunOnThisCpu t s) (R @ [current_thread s])") (auto simp: find_None_iff)
  have cur: "current_thread s' = t" using s'(4) sw nx t by (simp add: released_current_def)
  moreover have "kernel_ok (remove1 t (R @ [current_thread s])) W T s'"
    using s'(2) sw nx t by (simp add: released_queue_def candidates_def run)
  moreover have "cpu_phase s' = Executing"
    using s'(5) nx t ph by (simp add: released_phase_def)
  ultimately show ?thesis using s'(1,3) t by blast
qed

text \<open>Yielding \<open>n\<close> times.\<close>

fun yields :: "nat \<Rightarrow> kstate \<Rightarrow> kstate option" where
  "yields 0 s = Some s"
| "yields (Suc n) s = do { s \<leftarrow> Schedule s; yields n s }"

lemma yields_reach:
  assumes "kernel_ok R W T s" "cpu_phase s = Executing" "R = xs @ t # ys"
    "\<forall>u\<in>set R. CanThreadRunOnThisCpu u s"
  shows "\<exists>s'. yields (Suc (length xs)) s = Some s' \<and> current_thread s' = t \<and> cpu_phase s' = Executing"
  using assms
proof (induction xs arbitrary: R s ys)
  case Nil
  from Schedule_next [OF Nil(1,2)] Nil(3,4) show ?case by auto
next
  case (Cons x xs)
  from Schedule_next [OF Cons.prems(1,2)] Cons.prems(3,4) obtain s1 where s1: "Schedule s = Some s1"
    "kernel_ok (xs @ t # (ys @ [current_thread s])) W T s1" "cpu_phase s1 = Executing" "client_same s s1" by auto
  have "CanThreadRunOnThisCpu (current_thread s) s" using placedD(4) [OF kernel_okD(7) [OF Cons.prems(1)]] .
  then have "\<forall>u\<in>set (xs @ t # (ys @ [current_thread s])). CanThreadRunOnThisCpu u s1"
    using Cons.prems(3,4) s1(4) by (simp add: CanThreadRunOnThisCpu_def client_same_def)
  from Cons.IH [OF s1(2,3) refl this] s1(1) show ?case by auto
qed

section \<open>Bounded waiting\<close>

fun releases :: "nat \<Rightarrow> sid \<Rightarrow> kstate \<Rightarrow> kstate option" where
  "releases 0 q s = Some s"
| "releases (Suc n) q s = do { (r, s) \<leftarrow> ReleaseSem q s; releases n q s }"

lemma releases_reach:
  assumes "kernel_ok R W T s" "count (sems s q) = smax (sems s q)" "W q = xs @ t # ys"
  shows "\<exists>s' i. releases (Suc (length xs)) q s = Some s' \<and> woken t (- int i) s' \<and>
    i < length (wait_set s t) \<and> wait_set s t ! i = q"
  using assms
proof (induction xs arbitrary: R W T s)
  case Nil
  from ReleaseSem_hands_over [OF Nil(1,2)] Nil(3) show ?case by fastforce
next
  case (Cons x xs)
  have d: "distinct (x # xs @ t # ys)"
    using sem_queues_distinct [OF kernel_okD(8) [OF Cons.prems(1)], of q] Cons.prems(3) by simp
  from ReleaseSem_hands_over [OF Cons.prems(1,2)] Cons.prems(3) obtain s1 R1 where s1: "ReleaseSem q s = Some (0, s1)"
    "kernel_ok R1 (\<lambda>p. filter (\<lambda>u. u \<noteq> x) (W p)) (filter (\<lambda>u. u \<noteq> x) T) s1" "sems_same s s1" "others_wait {x} s s1"
    by fastforce
  have "filter (\<lambda>u. u \<noteq> x) (W q) = xs @ t # ys" proof -
    have "filter (\<lambda>u. u \<noteq> x) (xs @ t # ys) = xs @ t # ys" by (rule filter_True) (use d in auto)
    then show ?thesis using Cons.prems(3) by simp
  qed
  from Cons.IH [OF s1(2) _ this] Cons.prems(2) s1(3) obtain s' i where
    "releases (Suc (length xs)) q s1 = Some s'" "woken t (- int i) s'" "i < length (wait_set s1 t)"
    "wait_set s1 t ! i = q" by (auto simp: sems_same_def)
  moreover have "wait_set s1 t = wait_set s t" using s1(4) d by (simp add: others_wait_def)
  ultimately show ?case using s1(1) by auto
qed

section \<open>Properties\<close>

text \<open>
  C2. No sequence of operations of the running thread, timer interrupts and wake-ups of the idle
  loop breaks the kernel's data: the ready queue, the waiting lists of the semaphores and the list
  of sleepers stay well formed and agree with the states of the threads, a semaphore that threads
  wait for is exhausted, and the count of a lock is the number of tokens held.
\<close>

theorem kernel_invariant:
  assumes "(kstep M)\<^sup>*\<^sup>* (s0, H0) (s, H)" "kernel_ok R0 W0 T0 s0" "sems_ok W0 s0" "held_ok M s0 H0"
  shows "\<exists>R W T. kernel_ok R W T s \<and> sems_ok W s \<and> held_ok M s H"
  using reachable_inv [OF assms(1)] kernel_invI [OF assms(2-4)] by (auto simp: kernel_inv_def)

text \<open>Two steps from \<open>demo\<close>: an interrupt of the timer, and thread 0 takes lock 5.\<close>

lemma demo_run:
  "\<exists>s. (kstep {5})\<^sup>*\<^sup>* (demo, \<lambda>_. {#}) (s, (\<lambda>_. {#})(5 := {#0#})) \<and> smax (sems s 5) = 1"
proof -
  have tf: "take_free [5] 0 demo = Some (0, upd_sem 5 (\<lambda>x. x\<lparr>count := count x + 1\<rparr>) demo)"
    by (simp add: demo_def)
  from AcquireSem_now(1) [OF demo_ok tf, of None 0] obtain s where
    s: "AcquireSemFromMany None [5] 0 demo = Some (Done 0 (Some 0), s)"
    "sems s = sems (upd_sem 5 (\<lambda>x. x\<lparr>count := count x + 1\<rparr>) demo)" by blast
  then have "smax (sems s 5) = 1" by (simp add: demo_def)
  moreover have "kstep {5} (demo, \<lambda>_. {#}) (s, (\<lambda>_. {#})(5 := {#0#}))"
    using kstep.take [of demo "[5]" None 0 0 s "{5}" "\<lambda>_. {#}"] s(1) by (simp add: demo_simps)
  ultimately show ?thesis by blast
qed

lemma demo_held: "held_ok {5} demo (\<lambda>_. {#})"
  by (simp add: held_ok_def demo_def)

theorem kernel_invariant_witness:
  "\<exists>s R W T. kernel_ok R W T s \<and> sems_ok W s \<and> held_ok {5} s ((\<lambda>_. {#})(5 := {#0#}))"
  using demo_run kernel_invariant [OF _ demo_ok demo_sems demo_held] by metis

text \<open>
  C1. Mutual exclusion: of a semaphore with one token that is used as a lock, at most one thread
  holds the token at any time, whether it got it from \<open>AcquireSemFromMany\<close> or from the thread that
  released it.
\<close>

theorem mutual_exclusion:
  assumes "(kstep M)\<^sup>*\<^sup>* (s0, \<lambda>_. {#}) (s, H)" "kernel_ok R0 W0 T0 s0" "sems_ok W0 s0"
    "\<forall>q\<in>M. count (sems s0 q) = 0" "m \<in> M" "smax (sems s m) = 1"
  shows "size (H m) \<le> 1 \<and> (\<forall>t u. t \<in># H m \<and> u \<in># H m \<longrightarrow> t = u)"
proof -
  have "held_ok M s0 (\<lambda>_. {#})" using assms(4) by (simp add: held_ok_def)
  then have I: "kernel_inv M (s, H)" using reachable_inv [OF assms(1)] kernel_invI [OF assms(2,3)] by blast
  then obtain W where "sems_ok W s" "held_ok M s H" by (auto simp: kernel_inv_def)
  then have "count (sems s m) \<le> smax (sems s m)" "count (sems s m) = int (size (H m))"
    using assms(5) unfolding sems_ok_def held_ok_def by blast+
  then have le: "size (H m) \<le> 1" using assms(6) by simp
  have "t = u" if "t \<in># H m" "u \<in># H m" for t u
  proof -
    from that(1) obtain A where A: "H m = add_mset t A" by (meson multi_member_split)
    then have "A = {#}" using le by simp
    then show ?thesis using A that(2) by simp
  qed
  then show ?thesis using le by blast
qed

theorem mutual_exclusion_witness:
  "\<exists>s H. (kstep {5})\<^sup>*\<^sup>* (demo, \<lambda>_. {#}) (s, H) \<and> 0 \<in># H 5 \<and> (\<forall>t. t \<in># H 5 \<longrightarrow> t = 0)"
proof -
  obtain s where s: "(kstep {5})\<^sup>*\<^sup>* (demo, \<lambda>_. {#}) (s, (\<lambda>_. {#})(5 := {#0#}))" "smax (sems s 5) = 1"
    using demo_run by blast
  show ?thesis
    using mutual_exclusion [OF s(1) demo_ok demo_sems _ _ s(2)] s(1)
    by (intro exI [of _ s] exI [of _ "(\<lambda>_. {#})(5 := {#0#})"]) (simp add: demo_simps)
qed

text \<open>
  C13. No wake-up is lost: as long as a thread waits for a semaphore, the semaphore has no free
  token, and the thread is blocked and is on the waiting list, so the next release finds it.
\<close>

theorem no_lost_wakeup:
  assumes "(kstep M)\<^sup>*\<^sup>* (s0, H0) (s, H)" "kernel_ok R0 W0 T0 s0" "sems_ok W0 s0" "held_ok M s0 H0"
    "q \<in> set (wait_set s t)"
  shows "count (sems s q) = smax (sems s q) \<and> state (threads s t) = THREAD_STATE_BLOCKED \<and>
    (\<exists>R W T. kernel_ok R W T s \<and> t \<in> set (W q))"
proof -
  from reachable_inv [OF assms(1)] kernel_invI [OF assms(2-4)] obtain R W T where
    k: "kernel_ok R W T s" and sk: "sems_ok W s" by (auto simp: kernel_inv_def)
  have t: "t \<in> set (W q)" using sem_queues_mem [OF kernel_okD(8) [OF k]] assms(5) by blast
  then have "W q \<noteq> []" by auto
  moreover have "waiting s t" using assms(5) woken_wait_set by fastforce
  ultimately show ?thesis using sk k t kernel_okD(13) [OF k] by (auto simp: sems_ok_def)
qed

theorem no_lost_wakeup_witness:
  "count (sems demo 0) = smax (sems demo 0) \<and> (\<exists>R W T. kernel_ok R W T demo \<and> 1 \<in> set (W 0))"
  using no_lost_wakeup [OF _ demo_ok demo_sems demo_held, of demo "\<lambda>_. {#}" 0 1]
  by (simp add: demo_simps)

text \<open>
  C3. No operation gets stuck: in every reachable state each of them returns, switches to another
  thread or parks the CPU. It does not panic, follow a null or freed pointer, loop for ever in a
  list or wait for a spinlock that is held.
\<close>

theorem operations_return:
  assumes "(kstep M)\<^sup>*\<^sup>* (s0, H0) (s, H)" "kernel_ok R0 W0 T0 s0" "sems_ok W0 s0" "held_ok M s0 H0"
  shows "ReleaseSem q s \<noteq> None \<and> AbandonSem q s \<noteq> None \<and> Schedule s \<noteq> None \<and> AdvanceTimer ns s \<noteq> None \<and>
    (cpu_phase s = Executing \<and> distinct qs \<and> qs \<noteq> [] \<and> (\<forall>c. mem = Some c \<longrightarrow> clots s c = None) \<longrightarrow>
       AcquireSemFromMany mem qs timeout s \<noteq> None) \<and>
    (cpu_phase s = Executing \<longrightarrow> AddThreadToSleepQueue relative ns True s \<noteq> None) \<and>
    (cpu_phase s \<noteq> Executing \<longrightarrow> IdleWake s \<noteq> None)"
proof -
  from reachable_inv [OF assms(1)] kernel_invI [OF assms(2-4)] obtain R W T where
    k: "kernel_ok R W T s" by (auto simp: kernel_inv_def)
  have "ReleaseSem q s \<noteq> None" by (rule ReleaseSem_cases [OF k, of q]) simp_all
  moreover have "AbandonSem q s \<noteq> None" using AbandonSem_wakes_all [OF k, of q] by auto
  moreover have "Schedule s \<noteq> None" using Schedule_spec [OF k] by auto
  moreover have "AdvanceTimer ns s \<noteq> None" using AdvanceTimer_spec [OF k, of ns] by auto
  moreover have "AcquireSemFromMany mem qs timeout s \<noteq> None"
    if "cpu_phase s = Executing" "distinct qs" "qs \<noteq> []" "\<forall>c. mem = Some c \<longrightarrow> clots s c = None"
    by (rule AcquireSem_cases [OF k that, of timeout]) simp_all
  moreover have "AddThreadToSleepQueue relative ns True s \<noteq> None" if "cpu_phase s = Executing"
    using AddThreadToSleepQueue_spec [OF k that, of relative ns] by (auto split: if_splits)
  moreover have "IdleWake s \<noteq> None" if "cpu_phase s \<noteq> Executing"
  proof (cases "cpu_phase s")
    case (Parked og)
    then show ?thesis
      using IdleWake_spec [OF k Parked] IdleWake_spurious [of s] by (cases "something_unblocked_seq s = og") auto
  qed (use that in simp)
  ultimately show ?thesis by blast
qed

theorem operations_return_witness:
  "ReleaseSem 0 demo \<noteq> None \<and> AcquireSemFromMany None [3, 0] (- 1) demo \<noteq> None"
  using operations_return [OF _ demo_ok demo_sems demo_held, of demo "\<lambda>_. {#}" 0 0 "[3, 0]" None "- 1"]
  by (simp add: demo_simps)

text \<open>
  C14. Bounded waiting: the waiters of an exhausted semaphore are served in the order of arrival.
  The thread behind \<open>n\<close> others is woken by the release number \<open>n + 1\<close>, and its call returns the
  index of this semaphore among those it waited for.
\<close>

theorem bounded_waiting:
  assumes "kernel_ok R W T s" "count (sems s q) = smax (sems s q)" "W q = xs @ t # ys"
  shows "\<exists>s' i. releases (Suc (length xs)) q s = Some s' \<and> woken t (- int i) s' \<and>
    AcquireResume t s' = (0, Some (int i)) \<and> i < length (wait_set s t) \<and> wait_set s t ! i = q"
  using releases_reach [OF assms] by (fastforce simp: AcquireResume_def woken_def)

theorem bounded_waiting_witness:
  "\<exists>s'. releases 1 0 demo = Some s' \<and> woken 1 0 s'"
  using bounded_waiting [OF demo_ok, of 0 "[]" 1 "[]"] by (auto simp: demo_simps demo_W_def)

text \<open>
  C22. Yielding is round robin: \<open>Schedule\<close> refines the queue that puts the caller at the back and
  takes out the first thread that may run on this CPU, which becomes the current thread.
\<close>

theorem Schedule_round_robin:
  assumes "kernel_ok R W T s" "cpu_phase s = Executing"
  shows "\<exists>s' t. Schedule s = Some s' \<and>
    find (\<lambda>t. CanThreadRunOnThisCpu t s) (R @ [current_thread s]) = Some t \<and>
    kernel_ok (remove1 t (R @ [current_thread s])) W T s' \<and>
    current_thread s' = t \<and> cpu_phase s' = Executing \<and> client_same s s'"
  by (rule Schedule_next [OF assms])

theorem Schedule_round_robin_witness:
  "\<exists>s'. Schedule demo = Some s' \<and> current_thread s' = 2 \<and> kernel_ok [0] demo_W [] s'"
  using Schedule_round_robin [OF demo_ok] by (auto simp: demo_simps)

text \<open>
  C23. No ready thread starves: the thread behind \<open>n\<close> others of the ready queue has the CPU after
  \<open>n + 1\<close> yields, when the queued threads may run on this CPU.
\<close>

theorem no_starvation:
  assumes "kernel_ok R W T s" "cpu_phase s = Executing" "R = xs @ t # ys"
    "\<forall>u\<in>set R. CanThreadRunOnThisCpu u s"
  shows "\<exists>s'. yields (Suc (length xs)) s = Some s' \<and> current_thread s' = t \<and> cpu_phase s' = Executing"
  by (rule yields_reach [OF assms])

theorem no_starvation_witness:
  "\<exists>s'. yields 1 demo = Some s' \<and> current_thread s' = 2"
  using no_starvation [OF demo_ok, of "[]" 2 "[]"]
  by (simp add: demo_simps) blast

text \<open>
  C24. Waiting for several semaphores: when all are exhausted and the deadline lies ahead, the caller
  is blocked as the last waiter of every one of them and, with a timeout, is among the sleepers in
  the order of wake-up times; nobody else's waits change.
\<close>

theorem AcquireSemFromMany_waits:
  assumes "kernel_ok R W T s" "cpu_phase s = Executing"
    "\<forall>q\<in>set qs. smax (sems s q) \<le> count (sems s q)" "distinct qs" "qs \<noteq> []"
    "\<And>c. mem = Some c \<Longrightarrow> clots s c = None" "length qs > 1 \<Longrightarrow> mem \<noteq> None"
    "timeout \<noteq> 0" "timeout \<noteq> -1 \<Longrightarrow> ns_since_boot s < word_of_int timeout + ns_since_boot s"
  shows "\<exists>s' R'. AcquireSemFromMany mem qs timeout s = Some (Resumes (current_thread s) None, s') \<and>
    kernel_ok R' (\<lambda>q. if q \<in> set qs then W q @ [current_thread s] else W q)
      (if timeout = -1 then T
       else sleep_insert s (current_thread s) (word_of_int timeout + ns_since_boot s) T) s' \<and>
    wait_set s' (current_thread s) = qs \<and> state (threads s' (current_thread s)) = THREAD_STATE_BLOCKED \<and>
    sems_same s s' \<and>
    (\<forall>u. u \<noteq> current_thread s \<longrightarrow> wait_set s' u = wait_set s u \<and> wake s' u = wake s u)"
  using assms by (rule AcquireSem_wait)

theorem AcquireSemFromMany_waits_witness:
  "\<exists>s'. AcquireSemFromMany None [0] 1000 demo = Some (Resumes 0 None, s') \<and> wait_set s' 0 = [0] \<and>
     (\<exists>R T. kernel_ok R (\<lambda>q. if q = 0 then [1, 0] else []) T s')"
proof -
  have ns: "ns_since_boot demo = 1" by (simp add: demo_def)
  have W: "(\<lambda>q. if q = 0 then demo_W q @ [current_thread demo] else demo_W q) = (\<lambda>q. if q = 0 then [1, 0] else [])"
    by (auto simp: demo_W_def demo_simps)
  have "ns_since_boot demo < word_of_int 1000 + ns_since_boot demo" by (simp add: ns)
  then show ?thesis
    using AcquireSemFromMany_waits [OF demo_ok, of "[0]" None 1000] W by (auto simp: demo_simps)
qed

text \<open>
  C25. Abandoning a semaphore wakes all its waiters, each with \<open>EABANDONED\<close>, and takes each of them off
  the other semaphores it waited for and off the list of sleepers; the loop ends, since every round
  takes a waiter off the list.
\<close>

theorem AbandonSem_correct:
  assumes "kernel_ok R W T s"
  shows "\<exists>s' R'. AbandonSem q s = Some s' \<and>
    kernel_ok R' (\<lambda>p. filter (\<lambda>x. x \<notin> set (W q)) (W p)) (filter (\<lambda>x. x \<notin> set (W q)) T) s' \<and>
    sems_same s s' \<and> others_wait (set (W q)) s s' \<and>
    (\<forall>t\<in>set (W q). woken t (errno_code EABANDONED) s')"
  using assms by (rule AbandonSem_wakes_all)

theorem AbandonSem_correct_witness:
  "\<exists>s'. AbandonSem 0 demo = Some s' \<and> woken 1 36 s'"
  using AbandonSem_correct [OF demo_ok, of 0] by (auto simp: demo_W_def)

text \<open>
  C26. The timer interrupt advances the clock and wakes exactly the threads whose time has come, each
  with \<open>ETIMEDOUT\<close>; a semaphore such a thread was also waiting for forgets it.
\<close>

theorem AdvanceTimer_correct:
  fixes ns :: u64
  assumes "kernel_ok R W T s"
  defines "now \<equiv> ns_since_boot s + ns"
  defines "due \<equiv> (\<lambda>t. wake s t \<noteq> 0 \<and> wake s t \<le> now)"
  shows "\<exists>s' R'. AdvanceTimer ns s = Some s' \<and>
    kernel_ok R' (\<lambda>q. filter (\<lambda>x. \<not> due x) (W q)) (filter (\<lambda>t. \<not> due t) T) s' \<and>
    ns_since_boot s' = now \<and>
    (\<forall>t. due t \<longrightarrow> (state (threads s' t) = THREAD_STATE_READY \<or> current_thread s' = t) \<and>
       block_return_val (threads s' t) = errno_code ETIMEDOUT) \<and>
    (\<forall>t. \<not> due t \<longrightarrow> block_return_val (threads s' t) = block_return_val (threads s t) \<and>
       wake s' t = wake s t \<and> wait_set s' t = wait_set s t) \<and>
    (\<forall>q. count (sems s' q) = count (sems s q) \<and> smax (sems s' q) = smax (sems s q))"
  unfolding now_def due_def by (rule AdvanceTimer_spec [OF assms(1)])

theorem AdvanceTimer_correct_witness:
  "\<exists>s'. AdvanceTimer 5 demo = Some s' \<and> ns_since_boot s' = 6 \<and> wait_set s' 1 = [0]"
proof -
  have "wake demo 1 = 0" "ns_since_boot demo = 1" by (simp_all add: demo_def demo_thread_def)
  then show ?thesis
    using AdvanceTimer_correct [OF demo_ok, of 5] by (fastforce simp: demo_simps)
qed

text \<open>
  Going to sleep: a thread whose time has passed already gets false and goes on running;
  otherwise it is blocked and is on the list of sleepers, in the order of wake-up times, until its
  time comes.
\<close>

lemma AddThreadToSleepQueue_correct:
  fixes ns :: u64 and relative :: bool
  assumes "kernel_ok R W T s" "cpu_phase s = Executing"
  defines "at \<equiv> if relative then ns + ns_since_boot s else ns"
  shows "if at \<le> ns_since_boot s
    then \<exists>s'. AddThreadToSleepQueue relative ns True s = Some (False, s') \<and> kernel_ok R W T s' \<and>
      current_thread s' = current_thread s \<and> threads s' = threads s \<and>
      (\<forall>q. count (sems s' q) = count (sems s q) \<and> smax (sems s' q) = smax (sems s q))
    else \<exists>s' R'. AddThreadToSleepQueue relative ns True s = Some (True, s') \<and>
      kernel_ok R' W (sleep_insert s (current_thread s) at T) s' \<and>
      wake s' (current_thread s) = at \<and> state (threads s' (current_thread s)) = THREAD_STATE_BLOCKED \<and>
      (\<forall>q. count (sems s' q) = count (sems s q) \<and> smax (sems s' q) = smax (sems s q))"
  unfolding at_def by (rule AddThreadToSleepQueue_spec [OF assms(1,2)])

lemma AddThreadToSleepQueue_correct_witness:
  "\<exists>s'. AddThreadToSleepQueue True 9 True demo = Some (True, s') \<and> wake s' 0 = 10"
proof -
  have n: "\<not> (10::u64) \<le> 1" "(9 + 1::u64) = 10" by (simp_all add: word_le_nat_alt)
  show ?thesis
    using AddThreadToSleepQueue_correct [OF demo_ok demo_simps(2), of True 9]
    unfolding demo_simps if_True n(2) unfolding if_not_P [OF n(1)] by blast
qed

end
