(* ===== verification/Bytes.thy ===== *)
theory Bytes
  imports Prelude

begin

unbundle bit_operations_syntax

text \<open>
  Byte buffers: the effect of \<^verbatim>\<open>memcpy\<close>, \<^verbatim>\<open>memcmp\<close> and of loads and stores of little-endian
  integers on a buffer that is a list of bytes. An access outside the buffer has no value.
\<close>

definition read_bytes :: "u8 list \<Rightarrow> nat \<Rightarrow> nat \<Rightarrow> u8 list option" where
  "read_bytes buf off n = (if off + n \<le> length buf then Some (take n (drop off buf)) else None)"

definition write_bytes :: "u8 list \<Rightarrow> nat \<Rightarrow> u8 list \<Rightarrow> u8 list option" where
  "write_bytes buf off bs =
     (if off + length bs \<le> length buf then Some (take off buf @ bs @ drop (off + length bs) buf) else None)"

lemma read_bytes_Some: "off + n \<le> length buf \<Longrightarrow> read_bytes buf off n = Some (take n (drop off buf))"
  by (simp add: read_bytes_def)

lemma write_bytes_Some:
  "off + length bs \<le> length buf \<Longrightarrow>
   write_bytes buf off bs = Some (take off buf @ bs @ drop (off + length bs) buf)"
  by (simp add: write_bytes_def)

lemma write_bytes_length: "write_bytes buf off bs = Some buf' \<Longrightarrow> length buf' = length buf"
  by (auto simp: write_bytes_def split: if_splits)

lemma read_write_same: "write_bytes buf off bs = Some buf' \<Longrightarrow> read_bytes buf' off (length bs) = Some bs"
  by (auto simp: write_bytes_def read_bytes_def split: if_splits)

lemma read_write_other:
  assumes "write_bytes buf off bs = Some buf'" "off' + n \<le> off \<or> off + length bs \<le> off'"
  shows "read_bytes buf' off' n = read_bytes buf off' n"
proof -
  have b: "off + length bs \<le> length buf" and buf': "buf' = take off buf @ bs @ drop (off + length bs) buf"
    using assms(1) by (auto simp: write_bytes_def split: if_splits)
  from assms(2) show ?thesis
  proof
    assume "off' + n \<le> off"
    then show ?thesis using b unfolding buf' by (simp add: read_bytes_def drop_take min_absorb1)
  next
    assume "off + length bs \<le> off'"
    then show ?thesis using b unfolding buf' by (auto simp: read_bytes_def add.commute)
  qed
qed

text \<open>The first character of a C string, or its terminator.\<close>

definition chr0 :: "u8 list \<Rightarrow> u8" where
  "chr0 s = (case s of [] \<Rightarrow> 0 | c # _ \<Rightarrow> c)"

text \<open>Little-endian integers.\<close>

definition le16 :: "u16 \<Rightarrow> u8 list" where
  "le16 w = [ucast w, ucast (drop_bit 8 w)]"

definition of_le16 :: "u8 \<Rightarrow> u8 \<Rightarrow> u16" where
  "of_le16 a b = ucast a OR push_bit 8 (ucast b)"

definition le32 :: "u32 \<Rightarrow> u8 list" where
  "le32 w = [ucast w, ucast (drop_bit 8 w), ucast (drop_bit 16 w), ucast (drop_bit 24 w)]"

definition of_le32 :: "u8 \<Rightarrow> u8 \<Rightarrow> u8 \<Rightarrow> u8 \<Rightarrow> u32" where
  "of_le32 a b c d = ucast a OR push_bit 8 (ucast b) OR push_bit 16 (ucast c) OR push_bit 24 (ucast d)"


lemma length_le [simp]: "length (le16 w) = 2" "length (le32 v) = 4"
  by (simp_all add: le16_def le32_def)

lemma of_le16_le16: "of_le16 (ucast w) (ucast (drop_bit 8 w)) = w"
  by (rule bit_word_eqI) (auto simp: of_le16_def bit_simps)

lemma of_le32_le32:
  "of_le32 (ucast w) (ucast (drop_bit 8 w)) (ucast (drop_bit 16 w)) (ucast (drop_bit 24 w)) = w"
proof (rule bit_word_eqI)
  fix n assume "n < LENGTH(32)"
  then consider "n < 8" | "8 \<le> n" "n < 16" | "16 \<le> n" "n < 24" | "24 \<le> n" "n < 32" by fastforce
  then show "bit (of_le32 (ucast w) (ucast (drop_bit 8 w)) (ucast (drop_bit 16 w)) (ucast (drop_bit 24 w))) n = bit w n"
    by cases (auto simp: of_le32_def bit_simps)
qed

lemma le16_of_le16: "le16 (of_le16 a b) = [a, b]"
proof -
  have "\<not> bit a (8 + n)" for n using bit_imp_le_length [of a "8 + n"] by auto
  then show ?thesis by (auto simp: le16_def of_le16_def bit_simps intro!: bit_word_eqI)
qed

end
