(* ===== verification/MsgBox.thy ===== *)
theory MsgBox
  imports Sem Bytes
begin

text \<open>
  Message boxes: \<^verbatim>\<open>kernel/sync/msgbox.c\<close>. A box is a ring buffer of fixed-size messages,
  guarded by a mutex; \<open>empty_sem\<close> counts the slots in use, \<open>filled_sem\<close> the slots that hold no
  message. First the ring buffer and its critical sections, then the protocol around them.
\<close>

section \<open>The ring buffer\<close>

record msgbox =
  box_data :: "u8 list"
  message_size :: u32
  max_count :: u32
  start_idx :: u32
  end_idx :: u32
  lock :: "sid option"
  empty_sem :: "sid option"
  filled_sem :: "sid option"
  box_count :: int

text \<open>
  \<open>CreateMessageBox\<close>: what the heap answers to its allocations is \<open>mem_box\<close> (the box), \<open>mem_data\<close>
  (the message buffer, with its uninitialised contents), and the addresses of the three
  semaphores.
\<close>

definition CreateMessageBox ::
    "bool \<Rightarrow> u8 list option \<Rightarrow> sid option \<Rightarrow> sid option \<Rightarrow> sid option \<Rightarrow> u32 \<Rightarrow> u32 \<Rightarrow> kstate \<Rightarrow>
     msgbox option \<times> kstate" where
  "CreateMessageBox mem_box mem_data mem_lock mem_empty mem_filled msz maxc s =
     (if \<not> mem_box then (None, s)
      else case mem_data of
        None \<Rightarrow> (None, s)
      | Some bytes \<Rightarrow>
          (case CreateMutex mem_lock s of
             (None, s) \<Rightarrow> (None, s)
           | (Some l, s) \<Rightarrow>
               (case CreateSem mem_empty (uint maxc) 0 s of
                  (None, s) \<Rightarrow> (None, s)
                | (Some e, s) \<Rightarrow>
                    (let (f, s) = CreateSem mem_filled (uint maxc) (uint maxc) s
                     in (Some \<lparr>box_data = bytes, message_size = msz, max_count = maxc,
                               start_idx = 0, end_idx = 0, lock = Some l, empty_sem = Some e,
                               filled_sem = f, box_count = 0\<rparr>, s)))))"

text \<open>The critical section of \<open>KePostMessage\<close>, also the second one of \<open>KeTryReplaceOrAdd\<close>.\<close>

definition put_message :: "u8 list \<Rightarrow> msgbox \<Rightarrow> msgbox option" where
  "put_message msg b =
     do { d \<leftarrow> write_bytes (box_data b) (unat (end_idx b * message_size b)) msg;
          Some (b\<lparr>box_data := d, end_idx := (end_idx b + 1) mod max_count b, box_count := box_count b + 1\<rparr>) }"

text \<open>\<open>KeTryReplaceOrAdd\<close>: the boolean is true when the last message was replaced.\<close>

definition replace_or_add :: "u8 list \<Rightarrow> u8 list \<Rightarrow> msgbox \<Rightarrow> (bool \<times> msgbox) option" where
  "replace_or_add compare_to replace_with b =
     do { let tail = (end_idx b + max_count b - 1) mod max_count b;
          let tail_ptr = unat (tail * message_size b);
          same \<leftarrow> (if box_count b \<noteq> 0 then
                     map_option (\<lambda>m. m = compare_to) (read_bytes (box_data b) tail_ptr (unat (message_size b)))
                   else Some False);
          if same then
            do { d \<leftarrow> write_bytes (box_data b) tail_ptr replace_with;
                 Some (True, b\<lparr>box_data := d\<rparr>) }
          else map_option (Pair False) (put_message replace_with b) }"

text \<open>The critical section of \<open>KeGetMessageFromMany\<close>.\<close>

definition get_message :: "bool \<Rightarrow> msgbox \<Rightarrow> (u8 list \<times> msgbox) option" where
  "get_message rm b =
     do { msg \<leftarrow> read_bytes (box_data b) (unat (start_idx b * message_size b)) (unat (message_size b));
          Some (msg, if rm then b\<lparr>start_idx := (start_idx b + 1) mod max_count b, box_count := box_count b - 1\<rparr>
                     else b) }"

subsection \<open>The queue it holds\<close>

definition slot :: "msgbox \<Rightarrow> nat \<Rightarrow> u8 list" where
  "slot b i = take (unat (message_size b)) (drop (i * unat (message_size b)) (box_data b))"

definition box_queue :: "msgbox \<Rightarrow> u8 list list" where
  "box_queue b = map (\<lambda>k. slot b ((unat (start_idx b) + k) mod unat (max_count b))) [0..<nat (box_count b)]"

definition box_ok :: "msgbox \<Rightarrow> bool" where
  "box_ok b \<longleftrightarrow> 0 < unat (max_count b) \<and> unat (max_count b) < 2 ^ 31 \<and>
     unat (max_count b) * unat (message_size b) < 2 ^ 32 \<and>
     length (box_data b) = unat (max_count b) * unat (message_size b) \<and>
     unat (start_idx b) < unat (max_count b) \<and>
     0 \<le> box_count b \<and> box_count b \<le> int (unat (max_count b)) \<and>
     unat (end_idx b) = (unat (start_idx b) + nat (box_count b)) mod unat (max_count b)"

lemma box_queue_length: "length (box_queue b) = nat (box_count b)"
  by (simp add: box_queue_def)

lemma unat_offset:
  assumes "unat i < m" "m * unat (z :: u32) < 2 ^ 32"
  shows "unat (i * z :: u32) = unat i * unat z"
proof -
  have "unat i * unat z \<le> m * unat z" using assms(1) by (intro mult_le_mono1) simp
  then have "unat i * unat z < 2 ^ 32" using assms(2) by (rule le_less_trans)
  then show ?thesis by (simp add: unat_word_ariths)
qed

lemma unat_next:
  assumes "unat i < unat m" "unat m < 2 ^ 31"
  shows "unat ((i + 1 :: u32) mod m) = Suc (unat i) mod unat m"
proof -
  have "unat (i + 1) = unat i + 1" using assms by (simp add: unat_word_ariths)
  then show ?thesis by (simp add: unat_mod_distrib)
qed

lemma slot_fits: "i < m \<Longrightarrow> i * z + z \<le> m * (z :: nat)"
  by (metis Suc_leI add.commute mult_Suc mult_le_mono1)

lemma slot_disjoint: "i \<noteq> j \<Longrightarrow> i * z + z \<le> j * (z :: nat) \<or> j * z + z \<le> i * z"
  by (metis slot_fits nat_neq_iff)

text \<open>Writing one slot leaves the others alone.\<close>

lemma write_slot:
  assumes ok: "box_ok b" and i: "unat i < unat (max_count b)" and m: "length msg = unat (message_size b)"
  shows "\<exists>d. write_bytes (box_data b) (unat (i * message_size b)) msg = Some d \<and>
    length d = length (box_data b) \<and>
    (\<forall>j < unat (max_count b). slot (b\<lparr>box_data := d\<rparr>) j = (if j = unat i then msg else slot b j))"
proof -
  let ?z = "unat (message_size b)" and ?n = "unat (max_count b)"
  have off: "unat (i * message_size b) = unat i * ?z"
    using ok i by (intro unat_offset [of _ ?n]) (auto simp: box_ok_def)
  have fit: "unat i * ?z + length msg \<le> length (box_data b)"
    using slot_fits [OF i, of ?z] ok m by (simp add: box_ok_def)
  obtain d where d: "write_bytes (box_data b) (unat i * ?z) msg = Some d" using write_bytes_Some [OF fit] by blast
  have l: "length d = length (box_data b)" using write_bytes_length [OF d] .
  have rd: "read_bytes x (j * ?z) ?z = Some (take ?z (drop (j * ?z) x))"
    if "j < ?n" "length x = length (box_data b)" for x j
    using slot_fits [OF that(1), of ?z] that(2) ok by (intro read_bytes_Some) (simp add: box_ok_def)
  have "slot (b\<lparr>box_data := d\<rparr>) j = (if j = unat i then msg else slot b j)" if j: "j < ?n" for j
  proof (cases "j = unat i")
    case True
    then show ?thesis using read_write_same [OF d] rd [OF j l] m by (simp add: slot_def)
  next
    case False
    then have "read_bytes d (j * ?z) ?z = read_bytes (box_data b) (j * ?z) ?z"
      using slot_disjoint [of j "unat i" ?z] m by (intro read_write_other [OF d]) auto
    then show ?thesis using False rd [OF j l] rd [OF j refl] by (simp add: slot_def)
  qed
  then show ?thesis using d l off by auto
qed

lemma put_message_spec:
  assumes ok: "box_ok b" and room: "box_count b < int (unat (max_count b))"
    and m: "length msg = unat (message_size b)"
  shows "\<exists>b'. put_message msg b = Some b' \<and> box_ok b' \<and> box_queue b' = box_queue b @ [msg] \<and>
    message_size b' = message_size b \<and> max_count b' = max_count b"
proof -
  let ?n = "unat (max_count b)" and ?c = "nat (box_count b)" and ?s = "unat (start_idx b)"
  have e: "unat (end_idx b) = (?s + ?c) mod ?n" "unat (end_idx b) < ?n" using ok by (auto simp: box_ok_def)
  obtain d where d: "write_bytes (box_data b) (unat (end_idx b * message_size b)) msg = Some d"
    "length d = length (box_data b)"
    "\<And>j. j < ?n \<Longrightarrow> slot (b\<lparr>box_data := d\<rparr>) j = (if j = unat (end_idx b) then msg else slot b j)"
    using write_slot [OF ok e(2) m] by blast
  define b' where "b' = b\<lparr>box_data := d, end_idx := (end_idx b + 1) mod max_count b, box_count := box_count b + 1\<rparr>"
  have run: "put_message msg b = Some b'" using d(1) by (simp add: put_message_def b'_def)
  have sl: "slot b' j = (if j = unat (end_idx b) then msg else slot b j)" if "j < ?n" for j
    using d(3) [OF that] by (simp add: slot_def b'_def)
  have c1: "nat (box_count b + 1) = Suc ?c" "?c < ?n" "0 < ?n"
  proof -
    have "0 \<le> box_count b" "0 < ?n" using ok by (simp_all add: box_ok_def)
    then show "nat (box_count b + 1) = Suc ?c" "?c < ?n" "0 < ?n"
      using room by (simp_all only: nat_less_iff nat_add_distrib)
  qed
  have ne: "(?s + k) mod ?n \<noteq> (?s + ?c) mod ?n" if "k < ?c" for k
  proof
    assume "(?s + k) mod ?n = (?s + ?c) mod ?n"
    then have "?n dvd (?s + ?c) - (?s + k)"
      using that mod_eq_dvd_iff_nat [of "?s + k" "?s + ?c" ?n] by simp
    moreover have "(?s + ?c) - (?s + k) < ?n" "0 < (?s + ?c) - (?s + k)" using that c1 by auto
    ultimately show False by (metis nat_dvd_not_less)
  qed
  have "box_queue b' = map (\<lambda>k. slot b' ((?s + k) mod ?n)) [0..<?c] @ [slot b' ((?s + ?c) mod ?n)]"
    using c1 by (simp add: box_queue_def b'_def)
  also have "map (\<lambda>k. slot b' ((?s + k) mod ?n)) [0..<?c] = box_queue b"
    using sl ne e c1(3) by (auto simp: box_queue_def)
  also have "slot b' ((?s + ?c) mod ?n) = msg" using sl [of "(?s + ?c) mod ?n"] e c1(3) by simp
  finally have q: "box_queue b' = box_queue b @ [msg]" .
  have "unat (end_idx b') = (?s + Suc ?c) mod ?n"
    using unat_next [OF e(2)] e(1) ok by (simp add: b'_def box_ok_def mod_Suc_eq)
  then have "box_ok b'" using ok room d(2) c1 by (simp add: box_ok_def b'_def)
  then show ?thesis using run q by (simp add: b'_def)
qed

lemma get_message_spec:
  assumes ok: "box_ok b" and ne: "0 < box_count b"
  shows "\<exists>b'. get_message rm b = Some (hd (box_queue b), b') \<and> box_ok b' \<and>
    box_queue b' = (if rm then tl (box_queue b) else box_queue b) \<and>
    message_size b' = message_size b \<and> max_count b' = max_count b"
proof -
  let ?n = "unat (max_count b)" and ?c = "nat (box_count b)" and ?s = "unat (start_idx b)" and ?z = "unat (message_size b)"
  have s: "?s < ?n" "?n < 2 ^ 31" "0 < ?c" using ok ne by (auto simp: box_ok_def)
  have off: "unat (start_idx b * message_size b) = ?s * ?z"
    using ok s by (intro unat_offset [of _ ?n]) (auto simp: box_ok_def)
  have fit: "?s * ?z + ?z \<le> length (box_data b)" using slot_fits [OF s(1), of ?z] ok by (simp add: box_ok_def)
  define b' where "b' = b\<lparr>start_idx := (start_idx b + 1) mod max_count b, box_count := box_count b - 1\<rparr>"
  have up: "[0..<?c] = 0 # [Suc 0..<?c]" using s(3) by (simp add: upt_conv_Cons)
  have hd: "hd (box_queue b) = slot b ?s" using s unfolding box_queue_def up by simp
  have run: "get_message rm b = Some (slot b ?s, if rm then b' else b)"
    using read_bytes_Some [OF fit] off by (simp add: get_message_def b'_def slot_def)
  have n1: "unat (start_idx b') = Suc ?s mod ?n" using unat_next [OF s(1,2)] by (simp add: b'_def)
  have c1: "nat (box_count b') = ?c - 1" using s(3) by (simp add: b'_def)
  have "box_queue b' = map (\<lambda>k. slot b ((?s + Suc k) mod ?n)) [0..<?c - 1]"
    unfolding box_queue_def c1 n1 by (simp add: slot_def b'_def mod_add_left_eq)
  also have "\<dots> = tl (box_queue b)"
  proof -
    have "[Suc 0..<?c] = map Suc [0..<?c - 1]" using s(3) by (simp add: map_Suc_upt)
    then show ?thesis unfolding box_queue_def up by (simp add: comp_def)
  qed
  finally have q: "box_queue b' = tl (box_queue b)" .
  have "unat (end_idx b') = (unat (start_idx b') + nat (box_count b')) mod ?n"
  proof -
    have "(Suc ?s mod ?n + (?c - 1)) mod ?n = (Suc ?s + (?c - 1)) mod ?n" by (rule mod_add_left_eq)
    also have "Suc ?s + (?c - 1) = ?s + ?c" using s(3) by simp
    also have "(?s + ?c) mod ?n = unat (end_idx b')" using ok by (simp add: box_ok_def b'_def)
    finally show ?thesis unfolding n1 c1 by simp
  qed
  then have "box_ok b'" using ok ne n1 s by (simp add: box_ok_def b'_def)
  then show ?thesis using run q hd ok by (simp add: b'_def)
qed

lemma replace_or_add_spec:
  assumes ok: "box_ok b" and room: "box_count b < int (unat (max_count b))"
    and m: "length new = unat (message_size b)"
  shows "\<exists>b'. replace_or_add old new b = Some (box_queue b \<noteq> [] \<and> last (box_queue b) = old, b') \<and> box_ok b' \<and>
    box_queue b' = (if box_queue b \<noteq> [] \<and> last (box_queue b) = old
       then butlast (box_queue b) @ [new] else box_queue b @ [new]) \<and>
    message_size b' = message_size b \<and> max_count b' = max_count b"
proof -
  let ?n = "unat (max_count b)" and ?c = "nat (box_count b)" and ?s = "unat (start_idx b)" and ?z = "unat (message_size b)"
  let ?tail = "(end_idx b + max_count b - 1) mod max_count b"
  from put_message_spec [OF ok room m] obtain b1 where b1: "put_message new b = Some b1" "box_ok b1"
    "box_queue b1 = box_queue b @ [new]" "message_size b1 = message_size b" "max_count b1 = max_count b" by blast
  show ?thesis
  proof (cases "box_count b = 0")
    case True
    then have "box_queue b = []" by (simp add: box_queue_def)
    then show ?thesis using b1 True by (simp add: replace_or_add_def Let_def)
  next
    case False
    have n: "0 < ?n" "?n < 2 ^ 31" "?s < ?n" and c: "0 < ?c"
      and e: "unat (end_idx b) = (?s + ?c) mod ?n" "unat (end_idx b) < ?n"
      using ok False by (auto simp: box_ok_def)
    have "unat (end_idx b + max_count b) = unat (end_idx b) + ?n" using e(2) n by (simp add: unat_word_ariths)
    then have "unat (end_idx b + max_count b - 1) = unat (end_idx b) + ?n - 1"
      using n by (subst unat_sub) (auto simp: word_le_nat_alt)
    then have "unat ?tail = (unat (end_idx b) + (?n - 1)) mod ?n" using n by (simp add: unat_mod_distrib)
    also have "\<dots> = (?s + ?c + (?n - 1)) mod ?n" unfolding e(1) by (rule mod_add_left_eq)
    also have "?s + ?c + (?n - 1) = (?s + (?c - 1)) + ?n" using n c by simp
    finally have t: "unat ?tail = (?s + (?c - 1)) mod ?n" by simp
    then have tn: "unat ?tail < ?n" using n by simp
    have off: "unat (?tail * message_size b) = unat ?tail * ?z"
      using ok tn by (intro unat_offset [of _ ?n]) (auto simp: box_ok_def)
    have fit: "unat ?tail * ?z + ?z \<le> length (box_data b)" using slot_fits [OF tn, of ?z] ok by (simp add: box_ok_def)
    have up: "[0..<?c] = [0..<?c - 1] @ [?c - 1]" using c by (metis Suc_pred' upt_Suc_append zero_le)
    let ?sl = "\<lambda>b k. slot b ((?s + k) mod ?n)"
    have q: "box_queue b = map (?sl b) [0..<?c - 1] @ [?sl b (?c - 1)]" unfolding box_queue_def up by simp
    have rd: "read_bytes (box_data b) (unat (?tail * message_size b)) ?z = Some (last (box_queue b))"
      using read_bytes_Some [OF fit] off t q by (simp add: slot_def)
    show ?thesis
    proof (cases "last (box_queue b) = old")
      case True
      obtain d where d: "write_bytes (box_data b) (unat (?tail * message_size b)) new = Some d"
        "length d = length (box_data b)"
        "\<And>j. j < ?n \<Longrightarrow> slot (b\<lparr>box_data := d\<rparr>) j = (if j = unat ?tail then new else slot b j)"
        using write_slot [OF ok tn m] by blast
      have ne: "(?s + k) mod ?n \<noteq> (?s + (?c - 1)) mod ?n" if "k < ?c - 1" for k
      proof
        assume "(?s + k) mod ?n = (?s + (?c - 1)) mod ?n"
        then have "?n dvd (?s + (?c - 1)) - (?s + k)"
          using that mod_eq_dvd_iff_nat [of "?s + k" "?s + (?c - 1)" ?n] by simp
        moreover have "?c \<le> ?n" using ok by (auto simp: box_ok_def nat_le_iff)
        then have "(?s + (?c - 1)) - (?s + k) < ?n" "0 < (?s + (?c - 1)) - (?s + k)" using that by auto
        ultimately show False by (metis nat_dvd_not_less)
      qed
      have "box_queue (b\<lparr>box_data := d\<rparr>) = map (?sl (b\<lparr>box_data := d\<rparr>)) [0..<?c]" by (simp add: box_queue_def)
      also have "\<dots> = map (?sl (b\<lparr>box_data := d\<rparr>)) [0..<?c - 1] @ [?sl (b\<lparr>box_data := d\<rparr>) (?c - 1)]"
        unfolding up by simp
      also have "\<dots> = map (?sl b) [0..<?c - 1] @ [new]" using d(3) t tn ne n by auto
      finally have "box_queue (b\<lparr>box_data := d\<rparr>) = butlast (box_queue b) @ [new]" unfolding q by simp
      moreover have "box_ok (b\<lparr>box_data := d\<rparr>)" using ok d(2) by (simp add: box_ok_def)
      moreover have "replace_or_add old new b = Some (True, b\<lparr>box_data := d\<rparr>)"
        using False rd True d(1) by (simp add: replace_or_add_def Let_def)
      ultimately show ?thesis using True q by simp
    next
      case ne: False
      then have "replace_or_add old new b = Some (False, b1)"
        using False rd b1(1) by (simp add: replace_or_add_def Let_def)
      then show ?thesis using ne b1 by simp
    qed
  qed
qed

end
