(* ===== verification/MsgProtocol.thy ===== *)
theory MsgProtocol
  imports Kernel MsgBox
begin

text \<open>
  Any number of threads post to, get from and peek into one message box. The steps are the points
  at which they can be interleaved: the semaphore operations and the critical sections. A release
  that hands the token to a waiter is the release followed by the waiter's acquisition.
\<close>

section \<open>The protocol\<close>

text \<open>
  Where a call of \<open>KePostMessage\<close>, \<open>KeTryReplaceOrAdd\<close> or \<open>KeGetMessageFromMany\<close> has got to:
  \<open>...Slot\<close> and \<open>GetToken\<close> have their first semaphore and ask for the lock, \<open>...Locked\<close> is in the critical
  section, \<open>Stored\<close>, \<open>Replaced\<close>, \<open>Got\<close> has done its work and still holds the lock, and the last
  ones have released the lock and are about to release the other semaphore.
\<close>

datatype pc =
    PostSlot "u8 list" | PostLocked "u8 list"
  | ReplaceSlot "u8 list" "u8 list" | ReplaceLocked "u8 list" "u8 list"
  | Stored | StoredUnlocked | Replaced | ReplacedUnlocked
  | GetToken bool | GetLocked bool | Got bool | GotUnlocked bool

text \<open>
  The counts of the three semaphores, the calls in progress, and the history: what has been stored
  (a replacement takes the place of the message it replaces) and what has been taken out.
\<close>

record chan =
  cbox :: msgbox
  used_empty :: int
  used_filled :: int
  used_lock :: int
  pend :: "pc multiset"
  stored :: "u8 list list"
  taken :: "u8 list list"

definition room_for :: "int \<Rightarrow> msgbox \<Rightarrow> bool" where
  "room_for used b \<longleftrightarrow> used < int (unat (max_count b))"

inductive chan_step :: "chan \<Rightarrow> chan \<Rightarrow> bool" where
  post: "\<lbrakk>room_for (used_empty c) (cbox c); length m = unat (message_size (cbox c))\<rbrakk> \<Longrightarrow>
     chan_step c (c\<lparr>used_empty := used_empty c + 1, pend := add_mset (PostSlot m) (pend c)\<rparr>)"
| post_lock: "\<lbrakk>pend c = add_mset (PostSlot m) P; used_lock c < 1\<rbrakk> \<Longrightarrow>
     chan_step c (c\<lparr>used_lock := used_lock c + 1, pend := add_mset (PostLocked m) P\<rparr>)"
| post_fail: "pend c = add_mset (PostSlot m) P \<Longrightarrow>
     chan_step c (c\<lparr>used_empty := used_empty c - 1, pend := P\<rparr>)"
| post_store: "\<lbrakk>pend c = add_mset (PostLocked m) P; put_message m (cbox c) = Some b\<rbrakk> \<Longrightarrow>
     chan_step c (c\<lparr>cbox := b, pend := add_mset Stored P, stored := stored c @ [m]\<rparr>)"
| stored_unlock: "pend c = add_mset Stored P \<Longrightarrow>
     chan_step c (c\<lparr>used_lock := used_lock c - 1, pend := add_mset StoredUnlocked P\<rparr>)"
| stored_signal: "pend c = add_mset StoredUnlocked P \<Longrightarrow>
     chan_step c (c\<lparr>used_filled := used_filled c - 1, pend := P\<rparr>)"
| replace: "\<lbrakk>room_for (used_empty c) (cbox c); length m = unat (message_size (cbox c))\<rbrakk> \<Longrightarrow>
     chan_step c (c\<lparr>used_empty := used_empty c + 1, pend := add_mset (ReplaceSlot old m) (pend c)\<rparr>)"
| replace_lock: "\<lbrakk>pend c = add_mset (ReplaceSlot old m) P; used_lock c < 1\<rbrakk> \<Longrightarrow>
     chan_step c (c\<lparr>used_lock := used_lock c + 1, pend := add_mset (ReplaceLocked old m) P\<rparr>)"
| replace_fail: "pend c = add_mset (ReplaceSlot old m) P \<Longrightarrow>
     chan_step c (c\<lparr>used_empty := used_empty c - 1, pend := P\<rparr>)"
| replace_store: "\<lbrakk>pend c = add_mset (ReplaceLocked old m) P; replace_or_add old m (cbox c) = Some (False, b)\<rbrakk> \<Longrightarrow>
     chan_step c (c\<lparr>cbox := b, pend := add_mset Stored P, stored := stored c @ [m]\<rparr>)"
| replace_last: "\<lbrakk>pend c = add_mset (ReplaceLocked old m) P; replace_or_add old m (cbox c) = Some (True, b)\<rbrakk> \<Longrightarrow>
     chan_step c (c\<lparr>cbox := b, pend := add_mset Replaced P, stored := butlast (stored c) @ [m]\<rparr>)"
| replaced_unlock: "pend c = add_mset Replaced P \<Longrightarrow>
     chan_step c (c\<lparr>used_lock := used_lock c - 1, pend := add_mset ReplacedUnlocked P\<rparr>)"
| replaced_signal: "pend c = add_mset ReplacedUnlocked P \<Longrightarrow>
     chan_step c (c\<lparr>used_empty := used_empty c - 1, pend := P\<rparr>)"
| get: "room_for (used_filled c) (cbox c) \<Longrightarrow>
     chan_step c (c\<lparr>used_filled := used_filled c + 1, pend := add_mset (GetToken rm) (pend c)\<rparr>)"
| get_lock: "\<lbrakk>pend c = add_mset (GetToken rm) P; used_lock c < 1\<rbrakk> \<Longrightarrow>
     chan_step c (c\<lparr>used_lock := used_lock c + 1, pend := add_mset (GetLocked rm) P\<rparr>)"
| get_fail: "pend c = add_mset (GetToken rm) P \<Longrightarrow>
     chan_step c (c\<lparr>used_filled := used_filled c - 1, pend := P\<rparr>)"
| get_read: "\<lbrakk>pend c = add_mset (GetLocked rm) P; get_message rm (cbox c) = Some (m, b)\<rbrakk> \<Longrightarrow>
     chan_step c (c\<lparr>cbox := b, pend := add_mset (Got rm) P,
        taken := (if rm then taken c @ [m] else taken c)\<rparr>)"
| got_unlock: "pend c = add_mset (Got rm) P \<Longrightarrow>
     chan_step c (c\<lparr>used_lock := used_lock c - 1, pend := add_mset (GotUnlocked rm) P\<rparr>)"
| got_signal: "pend c = add_mset (GotUnlocked rm) P \<Longrightarrow>
     chan_step c (if rm then c\<lparr>used_empty := used_empty c - 1, pend := P\<rparr>
                  else c\<lparr>used_filled := used_filled c - 1, pend := P\<rparr>)"

section \<open>The invariant\<close>

primrec in_section :: "pc \<Rightarrow> bool" where
  "in_section (PostSlot m) = False" | "in_section (PostLocked m) = True"
| "in_section (ReplaceSlot a m) = False" | "in_section (ReplaceLocked a m) = True"
| "in_section Stored = True" | "in_section StoredUnlocked = False"
| "in_section Replaced = True" | "in_section ReplacedUnlocked = False"
| "in_section (GetToken r) = False" | "in_section (GetLocked r) = True"
| "in_section (Got r) = True" | "in_section (GotUnlocked r) = False"

text \<open>A slot counted as used that holds no message yet, or no message any more.\<close>

primrec keeps_slot :: "pc \<Rightarrow> bool" where
  "keeps_slot (PostSlot m) = True" | "keeps_slot (PostLocked m) = True"
| "keeps_slot (ReplaceSlot a m) = True" | "keeps_slot (ReplaceLocked a m) = True"
| "keeps_slot Stored = False" | "keeps_slot StoredUnlocked = False"
| "keeps_slot Replaced = True" | "keeps_slot ReplacedUnlocked = True"
| "keeps_slot (GetToken r) = False" | "keeps_slot (GetLocked r) = False"
| "keeps_slot (Got r) = r" | "keeps_slot (GotUnlocked r) = r"

text \<open>A message that is not announced yet, or that a reader has claimed.\<close>

primrec keeps_message :: "pc \<Rightarrow> bool" where
  "keeps_message (PostSlot m) = False" | "keeps_message (PostLocked m) = False"
| "keeps_message (ReplaceSlot a m) = False" | "keeps_message (ReplaceLocked a m) = False"
| "keeps_message Stored = True" | "keeps_message StoredUnlocked = True"
| "keeps_message Replaced = False" | "keeps_message ReplacedUnlocked = False"
| "keeps_message (GetToken r) = True" | "keeps_message (GetLocked r) = True"
| "keeps_message (Got r) = (\<not> r)" | "keeps_message (GotUnlocked r) = (\<not> r)"

primrec fits :: "nat \<Rightarrow> pc \<Rightarrow> bool" where
  "fits n (PostSlot m) = (length m = n)" | "fits n (PostLocked m) = (length m = n)"
| "fits n (ReplaceSlot a m) = (length m = n)" | "fits n (ReplaceLocked a m) = (length m = n)"
| "fits n Stored = True" | "fits n StoredUnlocked = True"
| "fits n Replaced = True" | "fits n ReplacedUnlocked = True"
| "fits n (GetToken r) = True" | "fits n (GetLocked r) = True"
| "fits n (Got r) = True" | "fits n (GotUnlocked r) = True"

definition tally :: "(pc \<Rightarrow> bool) \<Rightarrow> pc multiset \<Rightarrow> int" where
  "tally f P = int (size (filter_mset f P))"

lemma tally_simps [simp]:
  "tally f {#} = 0" "tally f (add_mset p P) = (if f p then 1 else 0) + tally f P"
  by (simp_all add: tally_def)

lemma tally_nonneg [simp]: "0 \<le> tally f P"
  by (simp add: tally_def)

definition chan_inv :: "chan \<Rightarrow> bool" where
  "chan_inv c \<longleftrightarrow> box_ok (cbox c) \<and>
     used_lock c = tally in_section (pend c) \<and> used_lock c \<le> 1 \<and>
     used_empty c = int (length (box_queue (cbox c))) + tally keeps_slot (pend c) \<and>
     used_empty c \<le> int (unat (max_count (cbox c))) \<and>
     used_filled c = int (unat (max_count (cbox c))) - int (length (box_queue (cbox c))) +
       tally keeps_message (pend c) \<and>
     used_filled c \<le> int (unat (max_count (cbox c))) \<and>
     (\<forall>p\<in>#pend c. fits (unat (message_size (cbox c))) p) \<and>
     stored c = taken c @ box_queue (cbox c)"

lemma box_count_queue: "box_ok b \<Longrightarrow> box_count b = int (length (box_queue b))"
  by (simp add: box_queue_length box_ok_def)

lemma locked_room:
  assumes "chan_inv c" "pend c = add_mset p P" "p = PostLocked m \<or> p = ReplaceLocked old m"
  shows "box_count (cbox c) < int (unat (max_count (cbox c)))" "length m = unat (message_size (cbox c))"
proof -
  have "tally keeps_slot P \<ge> 0" by simp
  then show "box_count (cbox c) < int (unat (max_count (cbox c)))"
    using assms by (auto simp: chan_inv_def box_count_queue simp del: tally_nonneg)
  show "length m = unat (message_size (cbox c))" using assms by (auto simp: chan_inv_def)
qed

lemma locked_message:
  assumes "chan_inv c" "pend c = add_mset (GetLocked rm) P"
  shows "0 < box_count (cbox c)"
proof -
  have "tally keeps_message P \<ge> 0" by simp
  then show ?thesis using assms by (auto simp: chan_inv_def box_count_queue simp del: tally_nonneg)
qed

lemma chan_step_inv:
  assumes "chan_step c c'" "chan_inv c"
  shows "chan_inv c'"
  using assms
proof (induction rule: chan_step.induct)
  case (post_store c m P b)
  note r = locked_room [OF post_store.prems post_store.hyps(1), of m]
  have ok: "box_ok (cbox c)" using post_store.prems by (simp add: chan_inv_def)
  from put_message_spec [OF ok, of m] r post_store.hyps(2) have "box_ok b" "box_queue b = box_queue (cbox c) @ [m]"
    "message_size b = message_size (cbox c)" "max_count b = max_count (cbox c)" by auto
  then show ?case using post_store by (auto simp: chan_inv_def)
next
  case (replace_store c old m P b)
  note r = locked_room [OF replace_store.prems replace_store.hyps(1), of m old]
  have ok: "box_ok (cbox c)" using replace_store.prems by (simp add: chan_inv_def)
  from replace_or_add_spec [OF ok, of m old] r replace_store.hyps(2) have "box_ok b"
    "box_queue b = box_queue (cbox c) @ [m]"
    "message_size b = message_size (cbox c)" "max_count b = max_count (cbox c)" by (auto split: if_splits)
  then show ?case using replace_store by (auto simp: chan_inv_def)
next
  case (replace_last c old m P b)
  note r = locked_room [OF replace_last.prems replace_last.hyps(1), of m old]
  have ok: "box_ok (cbox c)" using replace_last.prems by (simp add: chan_inv_def)
  from replace_or_add_spec [OF ok, of m old] r replace_last.hyps(2) have b: "box_ok b"
    "box_queue (cbox c) \<noteq> []" "box_queue b = butlast (box_queue (cbox c)) @ [m]"
    "message_size b = message_size (cbox c)" "max_count b = max_count (cbox c)" by (auto split: if_splits)
  then have "length (box_queue b) = length (box_queue (cbox c))" by simp
  then show ?case using replace_last b by (auto simp: chan_inv_def butlast_append)
next
  case (get_read c rm P m b)
  have ok: "box_ok (cbox c)" using get_read.prems by (simp add: chan_inv_def)
  note ne = locked_message [OF get_read.prems get_read.hyps(1)]
  from get_message_spec [OF ok ne, of rm] get_read.hyps(2) have b: "box_ok b" "m = hd (box_queue (cbox c))"
    "box_queue b = (if rm then tl (box_queue (cbox c)) else box_queue (cbox c))"
    "message_size b = message_size (cbox c)" "max_count b = max_count (cbox c)" by auto
  have "box_queue (cbox c) \<noteq> []" using ne box_count_queue [OF ok] by auto
  then obtain x xs where "box_queue (cbox c) = x # xs" by (meson neq_Nil_conv)
  then show ?case using get_read b by (auto simp: chan_inv_def)
next
  case (got_signal c rm P)
  then show ?case by (cases rm) (auto simp: chan_inv_def)
qed (auto simp: chan_inv_def room_for_def)

text \<open>What a message box is when it has just been made.\<close>

definition fresh_chan :: "msgbox \<Rightarrow> chan" where
  "fresh_chan b = \<lparr>cbox = b, used_empty = 0, used_filled = int (unat (max_count b)), used_lock = 0,
     pend = {#}, stored = [], taken = []\<rparr>"

lemma fresh_inv: "\<lbrakk>box_ok b; box_count b = 0\<rbrakk> \<Longrightarrow> chan_inv (fresh_chan b)"
  by (simp add: chan_inv_def fresh_chan_def box_queue_def)

lemma chan_reachable_inv: "\<lbrakk>chan_step\<^sup>*\<^sup>* c c'; chan_inv c\<rbrakk> \<Longrightarrow> chan_inv c'"
  by (induction rule: rtranclp_induct) (auto intro: chan_step_inv)

section \<open>Calls that nobody interrupts\<close>

text \<open>
  A whole call, when no other call comes in between. It has no value when it would have to wait;
  a timeout of 0 never waits for the first semaphore.
\<close>

definition KePostMessage :: "u8 list \<Rightarrow> int \<Rightarrow> chan \<Rightarrow> (int \<times> chan) option" where
  "KePostMessage m timeout c =
     (if \<not> room_for (used_empty c) (cbox c)
      then (if timeout = 0 then Some (errno_code EAGAIN, c) else None)
      else if \<not> used_lock c < 1 then None
      else do { b \<leftarrow> put_message m (cbox c);
                Some (0, c\<lparr>cbox := b, used_empty := used_empty c + 1, used_filled := used_filled c - 1,
                           stored := stored c @ [m]\<rparr>) })"

definition KeTryReplaceOrAdd :: "u8 list \<Rightarrow> u8 list \<Rightarrow> int \<Rightarrow> chan \<Rightarrow> (int \<times> chan) option" where
  "KeTryReplaceOrAdd compare_to m timeout c =
     (if \<not> room_for (used_empty c) (cbox c)
      then (if timeout = 0 then Some (errno_code EAGAIN, c) else None)
      else if \<not> used_lock c < 1 then None
      else do { (replaced, b) \<leftarrow> replace_or_add compare_to m (cbox c);
                Some (0, if replaced then c\<lparr>cbox := b, stored := butlast (stored c) @ [m]\<rparr>
                  else c\<lparr>cbox := b, used_empty := used_empty c + 1, used_filled := used_filled c - 1,
                         stored := stored c @ [m]\<rparr>) })"

text \<open>
  \<open>KeGetMessageFromMany\<close> on a list of boxes: \<open>AcquireSemFromMany\<close> chooses the first whose
  \<open>filled_sem\<close> has a token. The result has the message and the index for \<open>box_out\<close>.
\<close>

fun select_box :: "chan list \<Rightarrow> nat \<Rightarrow> nat option" where
  "select_box [] i = None"
| "select_box (c # cs) i = (if room_for (used_filled c) (cbox c) then Some i else select_box cs (i + 1))"

definition KeGetMessageFromMany ::
    "chan list \<Rightarrow> int \<Rightarrow> bool \<Rightarrow> ((errno + u8 list \<times> nat) \<times> chan list) option" where
  "KeGetMessageFromMany cs timeout rm =
     (if cs = [] then Some (Inl EINVAL, cs)
      else case select_box cs 0 of
        None \<Rightarrow> if timeout = 0 then Some (Inl EAGAIN, cs) else None
      | Some i \<Rightarrow>
          (let c = cs ! i
           in if \<not> used_lock c < 1 then None
              else do { (m, b) \<leftarrow> get_message rm (cbox c);
                        Some (Inr (m, i), cs[i := if rm
                          then c\<lparr>cbox := b, used_empty := used_empty c - 1, used_filled := used_filled c + 1,
                                 taken := taken c @ [m]\<rparr>
                          else c\<lparr>cbox := b\<rparr>]) }))"

definition KeGetMessage :: "chan \<Rightarrow> int \<Rightarrow> ((errno + u8 list \<times> nat) \<times> chan list) option" where
  "KeGetMessage c timeout = KeGetMessageFromMany [c] timeout True"

definition KePeekMessage :: "chan \<Rightarrow> int \<Rightarrow> ((errno + u8 list \<times> nat) \<times> chan list) option" where
  "KePeekMessage c timeout = KeGetMessageFromMany [c] timeout False"

text \<open>Such a call is a sequence of steps of the protocol.\<close>

lemma KePostMessage_steps:
  assumes "KePostMessage m timeout c = Some (0, c')" "length m = unat (message_size (cbox c))"
  shows "chan_step\<^sup>*\<^sup>* c c'"
proof -
  have r: "room_for (used_empty c) (cbox c)" and l: "used_lock c < 1"
    using assms(1) by (auto simp: KePostMessage_def split: if_splits)
  obtain b where b: "put_message m (cbox c) = Some b" and c': "c' = c\<lparr>cbox := b, used_empty := used_empty c + 1,
      used_filled := used_filled c - 1, stored := stored c @ [m]\<rparr>"
    using assms(1) r l by (auto simp: KePostMessage_def bind_eq_Some_conv)
  let ?P = "pend c"
  let ?c1 = "c\<lparr>used_empty := used_empty c + 1, pend := add_mset (PostSlot m) ?P\<rparr>"
  let ?c2 = "?c1\<lparr>used_lock := used_lock c + 1, pend := add_mset (PostLocked m) ?P\<rparr>"
  let ?c3 = "?c2\<lparr>cbox := b, pend := add_mset Stored ?P, stored := stored c @ [m]\<rparr>"
  let ?c4 = "?c3\<lparr>used_lock := used_lock c, pend := add_mset StoredUnlocked ?P\<rparr>"
  have "chan_step c ?c1" using chan_step.post [OF r assms(2)] .
  moreover have "chan_step ?c1 ?c2" using chan_step.post_lock [of ?c1 m ?P] l by simp
  moreover have "chan_step ?c2 ?c3" using chan_step.post_store [of ?c2 m ?P b] b by simp
  moreover have "chan_step ?c3 ?c4" using chan_step.stored_unlock [of ?c3 ?P] by simp
  moreover have "chan_step ?c4 c'" using chan_step.stored_signal [of ?c4 ?P] unfolding c' by (cases c) simp
  ultimately show ?thesis by (meson rtranclp.rtrancl_into_rtrancl rtranclp.rtrancl_refl)
qed

lemma KeGetMessage_steps:
  assumes "KeGetMessageFromMany [c] timeout rm = Some (Inr (m, i), [c'])"
  shows "chan_step\<^sup>*\<^sup>* c c'"
proof -
  have r: "room_for (used_filled c) (cbox c)" and l: "used_lock c < 1"
    using assms by (auto simp: KeGetMessageFromMany_def Let_def split: if_splits)
  obtain b where b: "get_message rm (cbox c) = Some (m, b)"
    and c': "c' = (if rm then c\<lparr>cbox := b, used_empty := used_empty c - 1, used_filled := used_filled c + 1,
                     taken := taken c @ [m]\<rparr> else c\<lparr>cbox := b\<rparr>)"
    using assms r l by (auto simp: KeGetMessageFromMany_def Let_def bind_eq_Some_conv)
  let ?P = "pend c"
  let ?c1 = "c\<lparr>used_filled := used_filled c + 1, pend := add_mset (GetToken rm) ?P\<rparr>"
  let ?c2 = "?c1\<lparr>used_lock := used_lock c + 1, pend := add_mset (GetLocked rm) ?P\<rparr>"
  let ?c3 = "?c2\<lparr>cbox := b, pend := add_mset (Got rm) ?P, taken := (if rm then taken c @ [m] else taken c)\<rparr>"
  let ?c4 = "?c3\<lparr>used_lock := used_lock c, pend := add_mset (GotUnlocked rm) ?P\<rparr>"
  have "chan_step c ?c1" using chan_step.get [OF r] .
  moreover have "chan_step ?c1 ?c2" using chan_step.get_lock [of ?c1 rm ?P] l by simp
  moreover have "chan_step ?c2 ?c3" using chan_step.get_read [of ?c2 rm ?P m b] b by (cases c; cases rm) simp_all
  moreover have "chan_step ?c3 ?c4" using chan_step.got_unlock [of ?c3 rm ?P] by simp
  moreover have "chan_step ?c4 c'" using chan_step.got_signal [of ?c4 rm ?P] unfolding c' by (cases c; cases rm) simp_all
  ultimately show ?thesis by (meson rtranclp.rtrancl_into_rtrancl rtranclp.rtrancl_refl)
qed

section \<open>Properties\<close>

text \<open>
  Making a box: with all five allocations successful the box is empty and its semaphores have
  the counts the protocol starts from; other semaphores are untouched.
\<close>

lemma CreateMessageBox_correct:
  assumes "0 < unat n" "unat n < 2 ^ 31" "unat n * unat z < 2 ^ 32" "length bytes = unat n * unat z"
    "l \<noteq> e" "l \<noteq> f" "e \<noteq> f"
  shows "\<exists>b s'. CreateMessageBox True (Some bytes) (Some l) (Some e) (Some f) z n s = (Some b, s') \<and>
    box_ok b \<and> box_queue b = [] \<and> lock b = Some l \<and> empty_sem b = Some e \<and> filled_sem b = Some f \<and>
    count (sems s' l) = 0 \<and> smax (sems s' l) = 1 \<and>
    count (sems s' e) = used_empty (fresh_chan b) \<and> smax (sems s' e) = int (unat (max_count b)) \<and>
    count (sems s' f) = used_filled (fresh_chan b) \<and> smax (sems s' f) = int (unat (max_count b)) \<and>
    (\<forall>q. q \<notin> {l, e, f} \<longrightarrow> sems s' q = sems s q)"
  using assms
  by (simp add: CreateMessageBox_def CreateMutex_def CreateSem_def InitStaticSem_def fresh_chan_def box_ok_def
      box_queue_def)

lemma CreateMessageBox_correct_witness:
  "\<exists>b s'. CreateMessageBox True (Some (replicate 24 0)) (Some 7) (Some 8) (Some 9) 12 2 demo = (Some b, s') \<and>
     box_ok b \<and> box_queue b = []"
  using CreateMessageBox_correct [of 2 12 "replicate 24 0" 7 8 9 demo] by auto

text \<open>
  A missing check: when the heap has no memory for \<open>filled_sem\<close>, the constructor does not fail. It
  tests \<open>empty_sem\<close> a second time and returns a box whose \<open>filled_sem\<close> is null.
\<close>

lemma CreateMessageBox_null_semaphore:
  "\<exists>b s'. CreateMessageBox True (Some bytes) (Some l) (Some e) None z n s = (Some b, s') \<and> filled_sem b = None"
  by (simp add: CreateMessageBox_def CreateMutex_def CreateSem_def)

text \<open>
  C27. Delivery: however posts, replacements, reads and peeks are interleaved, the messages are taken
  out in the order in which they were stored, each exactly once, and those not taken yet are in the
  box. At most one thread is in a critical section, the box never holds more than \<open>max_count\<close>
  messages, a thread about to store finds a free slot and a thread about to read finds a message,
  and no access falls outside the buffer.
\<close>

theorem message_box_delivery:
  assumes "chan_step\<^sup>*\<^sup>* (fresh_chan b) c" "box_ok b" "box_count b = 0"
  shows "stored c = taken c @ box_queue (cbox c) \<and> length (box_queue (cbox c)) \<le> unat (max_count (cbox c)) \<and>
    size (filter_mset in_section (pend c)) \<le> 1 \<and>
    (\<forall>m. PostLocked m \<in># pend c \<longrightarrow>
       put_message m (cbox c) \<noteq> None \<and> length (box_queue (cbox c)) < unat (max_count (cbox c))) \<and>
    (\<forall>a m. ReplaceLocked a m \<in># pend c \<longrightarrow> replace_or_add a m (cbox c) \<noteq> None) \<and>
    (\<forall>rm. GetLocked rm \<in># pend c \<longrightarrow> get_message rm (cbox c) \<noteq> None \<and> box_queue (cbox c) \<noteq> [])"
proof -
  have I: "chan_inv c" using chan_reachable_inv [OF assms(1) fresh_inv [OF assms(2,3)]] .
  have ok: "box_ok (cbox c)" using I by (simp add: chan_inv_def)
  note q = box_count_queue [OF ok]
  have cap: "length (box_queue (cbox c)) \<le> unat (max_count (cbox c))"
  proof -
    have "int (length (box_queue (cbox c))) \<le> int (unat (max_count (cbox c)))" using ok q by (simp only: box_ok_def)
    then show ?thesis by (simp only: of_nat_le_iff)
  qed
  have one: "size (filter_mset in_section (pend c)) \<le> 1" using I by (simp add: chan_inv_def tally_def)
  have put: "put_message m (cbox c) \<noteq> None \<and> length (box_queue (cbox c)) < unat (max_count (cbox c))"
    if m: "PostLocked m \<in># pend c" for m
  proof -
    obtain P where "pend c = add_mset (PostLocked m) P" using m by (meson multi_member_split)
    note r = locked_room [OF I this, of m]
    then have "length (box_queue (cbox c)) < unat (max_count (cbox c))" unfolding q of_nat_less_iff by simp
    then show ?thesis using r put_message_spec [OF ok, of m] by auto
  qed
  have rep: "replace_or_add a m (cbox c) \<noteq> None" if m: "ReplaceLocked a m \<in># pend c" for a m
  proof -
    obtain P where "pend c = add_mset (ReplaceLocked a m) P" using m by (meson multi_member_split)
    from locked_room [OF I this, of m a] replace_or_add_spec [OF ok, of m a] show ?thesis by auto
  qed
  have "get_message rm (cbox c) \<noteq> None \<and> box_queue (cbox c) \<noteq> []" if m: "GetLocked rm \<in># pend c" for rm
  proof -
    obtain P where "pend c = add_mset (GetLocked rm) P" using m by (meson multi_member_split)
    from locked_message [OF I this] get_message_spec [OF ok, of rm] q show ?thesis by auto
  qed
  then show ?thesis using I cap one put rep by (simp add: chan_inv_def)
qed

definition demo_box :: msgbox where
  "demo_box = \<lparr>box_data = replicate 4 0, message_size = 2, max_count = 2, start_idx = 0, end_idx = 0,
     lock = Some 7, empty_sem = Some 8, filled_sem = Some 9, box_count = 0\<rparr>"

lemma demo_box_ok: "box_ok demo_box" "box_count demo_box = 0"
  by (simp_all add: box_ok_def demo_box_def)

lemma demo_chan_run:
  "\<exists>c. chan_step\<^sup>*\<^sup>* (fresh_chan demo_box) c \<and> pend c = {#Stored#} \<and> stored c = [[5, 6]]"
proof -
  let ?c0 = "fresh_chan demo_box"
  let ?c1 = "?c0\<lparr>used_empty := 1, pend := {#PostSlot [5, 6]#}\<rparr>"
  let ?c2 = "?c1\<lparr>used_lock := 1, pend := {#PostLocked [5, 6]#}\<rparr>"
  have "chan_step ?c0 ?c1"
    using chan_step.post [of ?c0 "[5, 6]"] by (simp add: fresh_chan_def room_for_def demo_box_def)
  moreover have "chan_step ?c1 ?c2"
    using chan_step.post_lock [of ?c1 "[5, 6]" "{#}"] by (simp add: fresh_chan_def)
  moreover obtain b where "put_message [5, 6] (cbox ?c2) = Some b"
    by (simp add: fresh_chan_def put_message_def demo_box_def write_bytes_def)
  then have "chan_step ?c2 (?c2\<lparr>cbox := b, pend := {#Stored#}, stored := [[5, 6]]\<rparr>)"
    using chan_step.post_store [of ?c2 "[5, 6]" "{#}" b] by (simp add: fresh_chan_def)
  ultimately show ?thesis
    by (intro exI [of _ "?c2\<lparr>cbox := b, pend := {#Stored#}, stored := [[5, 6]]\<rparr>"]) auto
qed

theorem message_box_delivery_witness:
  "\<exists>c. chan_step\<^sup>*\<^sup>* (fresh_chan demo_box) c \<and> [[5, 6]] = taken c @ box_queue (cbox c)"
  using demo_chan_run message_box_delivery [OF _ demo_box_ok] by metis

text \<open>
  No slot leaks: once all calls have returned, on whatever paths, the semaphores count exactly
  the messages in the box and the lock is free.
\<close>

lemma message_box_quiescent:
  assumes "chan_step\<^sup>*\<^sup>* (fresh_chan b) c" "box_ok b" "box_count b = 0" "pend c = {#}"
  shows "used_empty c = box_count (cbox c) \<and>
    used_filled c = int (unat (max_count (cbox c))) - box_count (cbox c) \<and> used_lock c = 0"
proof -
  have I: "chan_inv c" using chan_reachable_inv [OF assms(1) fresh_inv [OF assms(2,3)]] .
  then show ?thesis using assms(4) box_count_queue [of "cbox c"] by (simp add: chan_inv_def)
qed

lemma message_box_quiescent_witness:
  "used_empty (fresh_chan demo_box) = 0 \<and> used_filled (fresh_chan demo_box) = 2"
  using message_box_quiescent [OF _ demo_box_ok, of "fresh_chan demo_box"]
  by (simp add: fresh_chan_def demo_box_def)

text \<open>
  The deferred messages of interrupt handlers are posted with the scheduler lock held, and that
  breaks the mutex: a wait inside the lock does not suspend the caller. In a state where another
  thread waits and the mutex is taken, \<open>AcquireMutex\<close> returns 0 at once to the same thread, which has
  not got the token (the count is that of the present holder), is on the waiting list and is marked
  as blocked.
\<close>

lemma wait_under_scheduler_lock:
  "\<exists>s. AcquireScheduler demo \<bind> AcquireMutex 0 (- 1) = Some (Resumes 0 None, s) \<and>
     current_thread s = 0 \<and> cpu_phase s = Executing \<and> AcquireResume 0 s = (0, Some 0) \<and>
     count (sems s 0) = 1 \<and> wait_set s 0 = [0] \<and> state (threads s 0) = THREAD_STATE_BLOCKED"
  by (simp add: demo_def demo_thread_def AcquireScheduler_def AcquireIrqPrevent_def AcquireSpinlock_def
      ReleaseSpinlock_def ReleaseIrqPrevent_def AcquireMutex_def AcquireSem_def AcquireSemFromMany_def
      AddThreadToSemQueues_def AddToOneSem_def write_next_def BlockThread_def Schedule_def
      ReleaseScheduler_def ReleaseTail_def AcquireResume_def wait_set_def Let_def upd_thread_def upd_sem_def)

end
