(* ===== verification/IrqQueue.thy ===== *)
theory IrqQueue
  imports Kernel
begin

unbundle bit_operations_syntax

text \<open>
  The queue of messages that interrupt handlers leave for the system message box:
  \<^verbatim>\<open>EnqueueIrqMessage\<close> and \<^verbatim>\<open>DequeueIrqMessage\<close> of \<^verbatim>\<open>kernel/task/scheduler.c\<close>. It has 32 slots and
  two bitmaps, and its users synchronise by atomic operations on these only.
\<close>

section \<open>The operations\<close>

text \<open>\<open>__builtin_ctz\<close>, with 32 for no bit at all.\<close>

definition ctz :: "u32 \<Rightarrow> nat" where
  "ctz w = (case find (bit w) [0..<32] of None \<Rightarrow> 32 | Some k \<Rightarrow> k)"

record 'm irq_queue =
  irq_msg_queue :: "nat \<Rightarrow> 'm"
  irq_msg_claimed :: u32
  irq_msg_filled :: u32

text \<open>
  The atomic actions: the successful compare-and-exchange of each loop (an unsuccessful one changes
  nothing), the access to the slot, and the final update of the other bitmap.
\<close>

definition claim_slot :: "'m irq_queue \<Rightarrow> (nat \<times> 'm irq_queue) option" where
  "claim_slot q =
     (let current = irq_msg_claimed q; bit_index = ctz (NOT current)
      in if current = - 1 then None
         else if bit_index \<ge> 32 then None
         else Some (bit_index, q\<lparr>irq_msg_claimed := current OR push_bit bit_index 1\<rparr>))"

definition fill_slot :: "nat \<Rightarrow> 'm \<Rightarrow> 'm irq_queue \<Rightarrow> 'm irq_queue" where
  "fill_slot k m q = q\<lparr>irq_msg_queue := (irq_msg_queue q)(k := m)\<rparr>"

definition publish_slot :: "nat \<Rightarrow> 'm irq_queue \<Rightarrow> 'm irq_queue" where
  "publish_slot k q = q\<lparr>irq_msg_filled := irq_msg_filled q OR push_bit k 1\<rparr>"

definition take_slot :: "'m irq_queue \<Rightarrow> (nat \<times> 'm irq_queue) option" where
  "take_slot q =
     (let current = irq_msg_filled q; bit_index = ctz current
      in if current = 0 then None
         else if bit_index \<ge> 32 then None
         else Some (bit_index, q\<lparr>irq_msg_filled := current AND NOT (push_bit bit_index 1)\<rparr>))"

definition free_slot :: "nat \<Rightarrow> 'm irq_queue \<Rightarrow> 'm irq_queue" where
  "free_slot k q = q\<lparr>irq_msg_claimed := irq_msg_claimed q AND NOT (push_bit k 1)\<rparr>"

text \<open>A call that nobody interferes with.\<close>

definition EnqueueIrqMessage :: "'m \<Rightarrow> 'm irq_queue \<Rightarrow> int \<times> 'm irq_queue" where
  "EnqueueIrqMessage m q =
     (case claim_slot q of
        None \<Rightarrow> (errno_code ENOBUFS, q)
      | Some (k, q) \<Rightarrow> (0, publish_slot k (fill_slot k m q)))"

definition DequeueIrqMessage :: "'m irq_queue \<Rightarrow> (errno + 'm) \<times> 'm irq_queue" where
  "DequeueIrqMessage q =
     (case take_slot q of
        None \<Rightarrow> (Inl EAGAIN, q)
      | Some (k, q) \<Rightarrow> (Inr (irq_msg_queue q k), free_slot k q))"

section \<open>Interleaving\<close>

text \<open>A call in progress owns one slot: what it will do next is to fill, publish, read or free it.\<close>

datatype 'm agent = ToFill nat 'm | ToPublish nat 'm | ToRead nat | ToFree nat

primrec agent_slot :: "'m agent \<Rightarrow> nat" where
  "agent_slot (ToFill k m) = k" | "agent_slot (ToPublish k m) = k"
| "agent_slot (ToRead k) = k" | "agent_slot (ToFree k) = k"

record 'm irq_state =
  irqq :: "'m irq_queue"
  agents :: "'m agent multiset"
  accepted :: "'m multiset"
  delivered :: "'m multiset"

inductive irq_step :: "'m irq_state \<Rightarrow> 'm irq_state \<Rightarrow> bool" where
  claim: "claim_slot (irqq s) = Some (k, q) \<Longrightarrow>
     irq_step s (s\<lparr>irqq := q, agents := add_mset (ToFill k m) (agents s), accepted := add_mset m (accepted s)\<rparr>)"
| fill: "agents s = add_mset (ToFill k m) A \<Longrightarrow>
     irq_step s (s\<lparr>irqq := fill_slot k m (irqq s), agents := add_mset (ToPublish k m) A\<rparr>)"
| publish: "agents s = add_mset (ToPublish k m) A \<Longrightarrow>
     irq_step s (s\<lparr>irqq := publish_slot k (irqq s), agents := A\<rparr>)"
| take: "take_slot (irqq s) = Some (k, q) \<Longrightarrow>
     irq_step s (s\<lparr>irqq := q, agents := add_mset (ToRead k) (agents s)\<rparr>)"
| read: "agents s = add_mset (ToRead k) A \<Longrightarrow>
     irq_step s (s\<lparr>agents := add_mset (ToFree k) A, delivered := add_mset (irq_msg_queue (irqq s) k) (delivered s)\<rparr>)"
| free: "agents s = add_mset (ToFree k) A \<Longrightarrow>
     irq_step s (s\<lparr>irqq := free_slot k (irqq s), agents := A\<rparr>)"

text \<open>The message a slot or a call carries, with the queue's contents.\<close>

primrec carried :: "(nat \<Rightarrow> 'm) \<Rightarrow> 'm agent \<Rightarrow> 'm multiset" where
  "carried f (ToFill k m) = {#m#}" | "carried f (ToPublish k m) = {#m#}"
| "carried f (ToRead k) = {#f k#}" | "carried f (ToFree k) = {#}"

primrec agent_ok :: "(nat \<Rightarrow> 'm) \<Rightarrow> 'm agent \<Rightarrow> bool" where
  "agent_ok f (ToFill k m) = True" | "agent_ok f (ToPublish k m) = (f k = m)"
| "agent_ok f (ToRead k) = True" | "agent_ok f (ToFree k) = True"

definition bits :: "u32 \<Rightarrow> nat set" where
  "bits w = {k. k < 32 \<and> bit w k}"

definition queued :: "'m irq_queue \<Rightarrow> 'm multiset" where
  "queued q = image_mset (irq_msg_queue q) (mset_set (bits (irq_msg_filled q)))"

definition irq_inv :: "'m irq_state \<Rightarrow> bool" where
  "irq_inv s \<longleftrightarrow>
     image_mset agent_slot (agents s) + mset_set (bits (irq_msg_filled (irqq s))) =
       mset_set (bits (irq_msg_claimed (irqq s))) \<and>
     (\<forall>a\<in>#agents s. agent_ok (irq_msg_queue (irqq s)) a) \<and>
     accepted s = delivered s + queued (irqq s) + (\<Sum>a\<in>#agents s. carried (irq_msg_queue (irqq s)) a)"

lemma finite_bits [simp]: "finite (bits w)"
  by (simp add: bits_def)

lemma bits_set: "k < 32 \<Longrightarrow> bits (w OR push_bit k 1) = insert k (bits w)"
  by (auto simp: bits_def bit_simps)

lemma bits_clear: "bits (w AND NOT (push_bit k 1)) = bits w - {k}"
  by (auto simp: bits_def bit_simps)

lemmas bits_upd = bits_set bits_clear bits_set [simplified] bits_clear [simplified]

lemma ctz_bit: "ctz w < 32 \<Longrightarrow> bit w (ctz w)"
  by (cases "find (bit w) [0..<32]") (simp_all add: ctz_def, auto simp: find_Some_iff)

lemma ctz_bound: "w \<noteq> 0 \<Longrightarrow> ctz w < 32"
proof -
  assume "w \<noteq> 0"
  then obtain k where k: "bit w k" "k < 32" by (auto simp: bit_eq_iff dest: bit_imp_le_length)
  then have "find (bit w) [0..<32] \<noteq> None" by (auto simp: find_None_iff)
  then show ?thesis by (auto simp: ctz_def find_Some_iff split: option.splits)
qed

lemma claim_slot_Some:
  assumes "claim_slot q = Some (k, q')"
  shows "k < 32" "k \<notin> bits (irq_msg_claimed q)" "irq_msg_filled q' = irq_msg_filled q"
    "irq_msg_queue q' = irq_msg_queue q" "bits (irq_msg_claimed q') = insert k (bits (irq_msg_claimed q))"
proof -
  have q': "k = ctz (NOT (irq_msg_claimed q))" "k < 32" "q' = q\<lparr>irq_msg_claimed := irq_msg_claimed q OR push_bit k 1\<rparr>"
    using assms by (auto simp: claim_slot_def Let_def split: if_splits)
  then show "k < 32" "irq_msg_filled q' = irq_msg_filled q" "irq_msg_queue q' = irq_msg_queue q"
    "bits (irq_msg_claimed q') = insert k (bits (irq_msg_claimed q))"
    by (simp_all add: bits_upd)
  have "bit (NOT (irq_msg_claimed q)) k" using q' ctz_bit by blast
  then show "k \<notin> bits (irq_msg_claimed q)" by (simp add: bits_def bit_simps)
qed

lemma take_slot_Some:
  assumes "take_slot q = Some (k, q')"
  shows "k \<in> bits (irq_msg_filled q)" "irq_msg_claimed q' = irq_msg_claimed q"
    "irq_msg_queue q' = irq_msg_queue q" "bits (irq_msg_filled q') = bits (irq_msg_filled q) - {k}"
proof -
  have q': "k = ctz (irq_msg_filled q)" "k < 32" "q' = q\<lparr>irq_msg_filled := irq_msg_filled q AND NOT (push_bit k 1)\<rparr>"
    using assms by (auto simp: take_slot_def Let_def split: if_splits)
  then show "irq_msg_claimed q' = irq_msg_claimed q" "irq_msg_queue q' = irq_msg_queue q"
    "bits (irq_msg_filled q') = bits (irq_msg_filled q) - {k}"
    by (simp_all add: bits_upd)
  show "k \<in> bits (irq_msg_filled q)" using q' ctz_bit [of "irq_msg_filled q"] by (simp add: bits_def)
qed

text \<open>A slot that a call owns is claimed, is not filled, and no other call owns it.\<close>

lemma owned_slot:
  assumes "irq_inv s" "agents s = add_mset a A"
  shows "agent_slot a \<in> bits (irq_msg_claimed (irqq s))" "agent_slot a \<notin> bits (irq_msg_filled (irqq s))"
    "agent_slot a \<notin># image_mset agent_slot A"
proof -
  let ?k = "agent_slot a"
  have eq: "add_mset ?k (image_mset agent_slot A + mset_set (bits (irq_msg_filled (irqq s)))) =
      mset_set (bits (irq_msg_claimed (irqq s)))" using assms by (simp add: irq_inv_def)
  then have m: "?k \<in># mset_set (bits (irq_msg_claimed (irqq s)))" by (metis union_single_eq_member)
  then show "?k \<in> bits (irq_msg_claimed (irqq s))" by simp
  have "Multiset.count (mset_set (bits (irq_msg_claimed (irqq s)))) ?k = 1" using m by simp
  then have "Multiset.count (image_mset agent_slot A) ?k = 0"
    "Multiset.count (mset_set (bits (irq_msg_filled (irqq s)))) ?k = 0"
    unfolding eq [symmetric] by simp_all
  then show "?k \<notin> bits (irq_msg_filled (irqq s))" "?k \<notin># image_mset agent_slot A"
    by (simp_all add: count_eq_zero_iff)
qed

text \<open>Contents of other slots do not matter.\<close>

lemma carried_upd:
  assumes "k \<notin># image_mset agent_slot A"
  shows "(\<Sum>a\<in>#A. carried (f(k := m)) a) = (\<Sum>a\<in>#A. carried f a)"
    "(\<forall>a\<in>#A. agent_ok (f(k := m)) a) \<longleftrightarrow> (\<forall>a\<in>#A. agent_ok f a)"
proof -
  have "carried (f(k := m)) a = carried f a \<and> agent_ok (f(k := m)) a = agent_ok f a" if "a \<in># A" for a
  proof -
    have "agent_slot a \<noteq> k" using assms that by auto
    then show ?thesis by (cases a) auto
  qed
  then show "(\<Sum>a\<in>#A. carried (f(k := m)) a) = (\<Sum>a\<in>#A. carried f a)"
    "(\<forall>a\<in>#A. agent_ok (f(k := m)) a) \<longleftrightarrow> (\<forall>a\<in>#A. agent_ok f a)"
    by (auto intro!: arg_cong [of _ _ sum_mset] image_mset_cong)
qed

lemma queued_upd: "k \<notin> bits (irq_msg_filled q) \<Longrightarrow> queued (fill_slot k m q) = queued q"
  unfolding queued_def fill_slot_def by (auto intro!: image_mset_cong)

lemma queued_publish:
  "\<lbrakk>k < 32; k \<notin> bits (irq_msg_filled q)\<rbrakk> \<Longrightarrow>
   queued (publish_slot k q) = add_mset (irq_msg_queue q k) (queued q)"
  by (simp add: queued_def publish_slot_def bits_upd)

lemma irq_step_inv:
  assumes "irq_step s s'" "irq_inv s"
  shows "irq_inv s'"
  using assms
proof (induction rule: irq_step.induct)
  case (claim s k q m)
  note c = claim_slot_Some [OF claim.hyps]
  then show ?case using claim.prems by (simp add: irq_inv_def queued_def)
next
  case (fill s k m A)
  note o' = owned_slot [OF fill.prems fill.hyps, simplified]
  show ?case
    using fill carried_upd [of k A "irq_msg_queue (irqq s)" m] o' queued_upd [OF o'(2), of m]
    by (simp add: irq_inv_def fill_slot_def)
next
  case (publish s k m A)
  note o' = owned_slot [OF publish.prems publish.hyps, simplified]
  have "k < 32" using o'(1) by (simp add: bits_def)
  then show ?case
    using publish o' queued_publish [of k "irqq s"] by (simp add: irq_inv_def publish_slot_def bits_upd)
next
  case (take s k q)
  note c = take_slot_Some [OF take.hyps]
  have "mset_set (bits (irq_msg_filled (irqq s))) = add_mset k (mset_set (bits (irq_msg_filled (irqq s)) - {k}))"
    using c(1) by (metis finite_bits mset_set.remove)
  then show ?case using take.prems c by (simp add: irq_inv_def queued_def)
next
  case (read s k A)
  then show ?case by (simp add: irq_inv_def)
next
  case (free s k A)
  note o' = owned_slot [OF free.prems free.hyps, simplified]
  have "mset_set (bits (irq_msg_claimed (irqq s))) = add_mset k (mset_set (bits (irq_msg_claimed (irqq s)) - {k}))"
    using o'(1) by (metis finite_bits mset_set.remove)
  then show ?case using free by (simp add: irq_inv_def free_slot_def bits_upd queued_def)
qed

definition empty_irq :: "(nat \<Rightarrow> 'm) \<Rightarrow> 'm irq_state" where
  "empty_irq f = \<lparr>irqq = \<lparr>irq_msg_queue = f, irq_msg_claimed = 0, irq_msg_filled = 0\<rparr>,
     agents = {#}, accepted = {#}, delivered = {#}\<rparr>"

lemma irq_reachable_inv: "irq_step\<^sup>*\<^sup>* (empty_irq f) s \<Longrightarrow> irq_inv s"
proof (induction rule: rtranclp_induct)
  case base
  then show ?case by (simp add: irq_inv_def empty_irq_def queued_def bits_def)
next
  case (step s s')
  then show ?case using irq_step_inv by blast
qed

section \<open>Properties\<close>

text \<open>
  C28. However interrupt handlers and the reader are interleaved, no two calls in progress use the
  same slot, and no message is lost, duplicated or overwritten: the accepted messages are those
  delivered, those in filled slots and those the calls in progress carry.
\<close>

theorem irq_queue_conserves:
  assumes "irq_step\<^sup>*\<^sup>* (empty_irq f) s"
  shows "accepted s = delivered s + queued (irqq s) + (\<Sum>a\<in>#agents s. carried (irq_msg_queue (irqq s)) a) \<and>
    (\<forall>k. Multiset.count (image_mset agent_slot (agents s)) k + (if k \<in> bits (irq_msg_filled (irqq s)) then 1 else 0)
       = (if k \<in> bits (irq_msg_claimed (irqq s)) then 1 else 0))"
proof -
  have I: "irq_inv s" using irq_reachable_inv [OF assms] .
  have "Multiset.count (image_mset agent_slot (agents s)) k + (if k \<in> bits (irq_msg_filled (irqq s)) then 1 else 0)
       = (if k \<in> bits (irq_msg_claimed (irqq s)) then 1 else 0)" for k
  proof -
    have c: "Multiset.count (mset_set (bits w)) k = (if k \<in> bits w then 1 else 0)" for w by simp
    show ?thesis
      using I arg_cong [of _ _ "\<lambda>M. Multiset.count M k"] unfolding irq_inv_def c [symmetric] count_union [symmetric] by metis
  qed
  then show ?thesis using I by (simp add: irq_inv_def)
qed

lemma irq_demo_run: "irq_step\<^sup>*\<^sup>* (empty_irq (\<lambda>_. 0::int))
    ((empty_irq (\<lambda>_. 0))\<lparr>irqq := \<lparr>irq_msg_queue = (\<lambda>_. 0), irq_msg_claimed = 1, irq_msg_filled = 0\<rparr>,
       agents := {#ToFill 0 7#}, accepted := {#7#}\<rparr>)"
proof -
  have c: "claim_slot (irqq (empty_irq (\<lambda>_. 0::int))) =
      Some (0, \<lparr>irq_msg_queue = (\<lambda>_. 0), irq_msg_claimed = 1, irq_msg_filled = 0\<rparr>)"
    by (simp add: claim_slot_def empty_irq_def Let_def ctz_def upt_conv_Cons bit_simps)
  show ?thesis
    using irq_step.claim [OF c, of 7] by (simp add: empty_irq_def r_into_rtranclp)
qed

theorem irq_queue_conserves_witness:
  "\<exists>s. irq_step\<^sup>*\<^sup>* (empty_irq (\<lambda>_. 0::int)) s \<and> accepted s = {#7#} \<and>
     accepted s = delivered s + queued (irqq s) + (\<Sum>a\<in>#agents s. carried (irq_msg_queue (irqq s)) a)"
  using irq_demo_run irq_queue_conserves [OF irq_demo_run] by (intro exI conjI) (assumption, simp, blast)

text \<open>
  The order of delivery is not the order of arrival, although the reader's comment says that it
  matches the producers' order: after A and B have come and A has been taken, a new message C goes to the
  slot of A and is delivered before B.
\<close>

lemma irq_queue_not_fifo:
  "let (_, q) = EnqueueIrqMessage CHR ''A'' \<lparr>irq_msg_queue = (\<lambda>_. CHR ''-''), irq_msg_claimed = 0, irq_msg_filled = 0\<rparr>;
       (_, q) = EnqueueIrqMessage CHR ''B'' q;
       (a, q) = DequeueIrqMessage q;
       (_, q) = EnqueueIrqMessage CHR ''C'' q;
       (b, q) = DequeueIrqMessage q;
       (c, q) = DequeueIrqMessage q
   in [a, b, c] = [Inr CHR ''A'', Inr CHR ''C'', Inr CHR ''B'']"
  by (simp add: EnqueueIrqMessage_def DequeueIrqMessage_def claim_slot_def take_slot_def publish_slot_def
      fill_slot_def free_slot_def Let_def ctz_def upt_conv_Cons bit_simps)

end
