(* ===== verification/Transfers.thy ===== *)
theory Transfers
  imports Bytes
begin

text \<open>
  Copying between kernel buffers and untrusted memory: \<^verbatim>\<open>kernel/vfs/transfer.c\<close>. Memory is a
  function from 32-bit addresses to bytes; a kernel buffer is a list of bytes, and a copy that would
  run past its end has no value.
\<close>

section \<open>Memory\<close>

type_synonym mem = "u32 \<Rightarrow> u8"

definition load_bytes :: "u32 \<Rightarrow> nat \<Rightarrow> mem \<Rightarrow> u8 list" where
  "load_bytes a n m = map (\<lambda>i. m (a + of_nat i)) [0..<n]"

definition store_bytes :: "u32 \<Rightarrow> u8 list \<Rightarrow> mem \<Rightarrow> mem" where
  "store_bytes a bs m = (\<lambda>x. if unat (x - a) < length bs then bs ! unat (x - a) else m x)"

lemma store_bytes_Nil [simp]: "store_bytes a [] m = m"
  by (simp add: store_bytes_def)

lemma length_load_bytes [simp]: "length (load_bytes a n m) = n"
  by (simp add: load_bytes_def)

lemma load_store_same:
  assumes "length bs \<le> 2 ^ 32"
  shows "load_bytes a (length bs) (store_bytes a bs m) = bs"
proof (rule nth_equalityI)
  fix i assume "i < length (load_bytes a (length bs) (store_bytes a bs m))"
  then have i: "i < length bs" by simp
  then have "unat (of_nat i :: u32) = i" using assms by (simp add: unat_of_nat)
  then show "load_bytes a (length bs) (store_bytes a bs m) ! i = bs ! i"
    using i by (simp add: load_bytes_def store_bytes_def)
qed simp

text \<open>Memory that holds zeros, for examples.\<close>

definition zeroed :: mem where
  "zeroed _ = 0"

text \<open>Storing two adjacent pieces.\<close>

lemma unat_sub_of_nat:
  fixes d :: u32
  assumes "k < 2 ^ 32"
  shows "unat (d - of_nat k) = (if unat d < k then 2 ^ 32 - (k - unat d) else unat d - k)"
  using assms by (auto simp add: unat_sub_if' unat_of_nat)

lemma store_bytes_append:
  assumes "length xs + length ys < 2 ^ 32"
  shows "store_bytes (a + of_nat (length xs)) ys (store_bytes a xs m) = store_bytes a (xs @ ys) m"
proof
  fix x
  let ?d = "unat (x - a)"
  show "store_bytes (a + of_nat (length xs)) ys (store_bytes a xs m) x = store_bytes a (xs @ ys) m x"
  proof (cases "?d < length xs")
    case True
    have d: "x - (a + of_nat (length xs)) = (x - a) - of_nat (length xs)" by simp
    then have "unat (x - (a + of_nat (length xs))) = 2 ^ 32 - (length xs - ?d)"
      using True assms unat_sub_of_nat [of "length xs" "x - a"] unfolding d by simp
    then have "\<not> unat (x - (a + of_nat (length xs))) < length ys" using assms True by linarith
    then show ?thesis using True by (simp add: store_bytes_def nth_append)
  next
    case False
    have d: "x - (a + of_nat (length xs)) = (x - a) - of_nat (length xs)" by simp
    then have "unat (x - (a + of_nat (length xs))) = ?d - length xs"
      using False assms unat_sub_of_nat [of "length xs" "x - a"] unfolding d by simp
    then show ?thesis using False by (auto simp: store_bytes_def nth_append)
  qed
qed

section \<open>The operations\<close>

datatype transfer_type = TRANSFER_INTRA_KERNEL | TRANSFER_USERMODE

datatype transfer_direction = TRANSFER_READ | TRANSFER_WRITE

record transfer =
  address :: u32
  length_remaining :: u64
  offset :: u64
  direction :: transfer_direction
  ttype :: transfer_type
  blockable :: bool

definition ARCH_USER_AREA_BASE :: u32 where
  "ARCH_USER_AREA_BASE = 0x08000000"

definition ARCH_USER_AREA_LIMIT :: u32 where
  "ARCH_USER_AREA_LIMIT = 0xC0000000"

text \<open>A source function that returns 0 or an error number; 0 is \<open>None\<close> here.\<close>

definition ValidateCopy :: "u32 \<Rightarrow> u32 \<Rightarrow> errno option" where
  "ValidateCopy user_addr n =
     (let initial_address = user_addr; final_address = initial_address + n
      in if initial_address < ARCH_USER_AREA_BASE \<or> ARCH_USER_AREA_LIMIT \<le> initial_address then Some EINVAL
         else if final_address < initial_address then Some EINVAL
         else if final_address < ARCH_USER_AREA_BASE \<or> ARCH_USER_AREA_LIMIT \<le> final_address then Some EINVAL
         else None)"

definition CopyIntoKernel :: "u8 list \<Rightarrow> u32 \<Rightarrow> u32 \<Rightarrow> mem \<Rightarrow> errno + u8 list" where
  "CopyIntoKernel trusted user_addr n m =
     (case ValidateCopy user_addr n of
        Some e \<Rightarrow> Inl e
      | None \<Rightarrow> Inr (load_bytes user_addr (unat n) m @ drop (unat n) trusted))"

definition CopyOutOfKernel :: "u8 list \<Rightarrow> u32 \<Rightarrow> u32 \<Rightarrow> mem \<Rightarrow> errno + mem" where
  "CopyOutOfKernel trusted user_addr n m =
     (case ValidateCopy user_addr n of
        Some e \<Rightarrow> Inl e
      | None \<Rightarrow> Inr (store_bytes user_addr (take (unat n) trusted) m))"

definition RevertTransfer :: "transfer \<Rightarrow> u64 \<Rightarrow> transfer" where
  "RevertTransfer io amount =
     io\<lparr>length_remaining := length_remaining io + amount, offset := offset io - amount,
        address := address io - ucast amount\<rparr>"

definition advance :: "u32 \<Rightarrow> transfer \<Rightarrow> transfer" where
  "advance amount io =
     io\<lparr>length_remaining := length_remaining io - ucast amount, offset := offset io + ucast amount,
        address := address io + amount\<rparr>"

text \<open>
  The result has the status, the kernel buffer, the transfer and memory. \<open>amount\<close> is a \<open>size_t\<close>, so the
  64-bit minimum is narrowed to 32 bits.
\<close>

definition PerformTransfer ::
    "u8 list \<Rightarrow> transfer \<Rightarrow> u64 \<Rightarrow> mem \<Rightarrow> (errno option \<times> u8 list \<times> transfer \<times> mem) option" where
  "PerformTransfer trusted io len m =
     (if address io = 0 then Some (Some EINVAL, trusted, io, m)
      else
        (let amount = ucast (min len (length_remaining io)) :: u32; n = unat amount
         in if amount = 0 then Some (None, trusted, io, m)
            else if length trusted < n then None
            else case ttype io of
              TRANSFER_INTRA_KERNEL \<Rightarrow>
                (case direction io of
                   TRANSFER_READ \<Rightarrow> Some (None, trusted, advance amount io, store_bytes (address io) (take n trusted) m)
                 | TRANSFER_WRITE \<Rightarrow> Some (None, load_bytes (address io) n m @ drop n trusted, advance amount io, m))
            | TRANSFER_USERMODE \<Rightarrow>
                (case direction io of
                   TRANSFER_READ \<Rightarrow>
                     (case CopyOutOfKernel trusted (address io) amount m of
                        Inl e \<Rightarrow> Some (Some e, trusted, io, m)
                      | Inr m' \<Rightarrow> Some (None, trusted, advance amount io, m'))
                 | TRANSFER_WRITE \<Rightarrow>
                     (case CopyIntoKernel trusted (address io) amount m of
                        Inl e \<Rightarrow> Some (Some e, trusted, io, m)
                      | Inr t' \<Rightarrow> Some (None, t', advance amount io, m)))))"

definition CreateTransfer :: "u32 \<Rightarrow> u64 \<Rightarrow> u64 \<Rightarrow> transfer_direction \<Rightarrow> transfer_type \<Rightarrow> transfer" where
  "CreateTransfer addr len off dir ty =
     \<lparr>address = addr, length_remaining = len, offset = off, direction = dir, ttype = ty, blockable = True\<rparr>"

definition CreateKernelTransfer :: "u32 \<Rightarrow> u64 \<Rightarrow> u64 \<Rightarrow> transfer_direction \<Rightarrow> transfer" where
  "CreateKernelTransfer addr len off dir = CreateTransfer addr len off dir TRANSFER_INTRA_KERNEL"

definition CreateTransferWritingToUser :: "u32 \<Rightarrow> u64 \<Rightarrow> u64 \<Rightarrow> transfer" where
  "CreateTransferWritingToUser addr len off = CreateTransfer addr len off TRANSFER_READ TRANSFER_USERMODE"

definition CreateTransferReadingFromUser :: "u32 \<Rightarrow> u64 \<Rightarrow> u64 \<Rightarrow> transfer" where
  "CreateTransferReadingFromUser addr len off = CreateTransfer addr len off TRANSFER_WRITE TRANSFER_USERMODE"

text \<open>A C string in the kernel is the list of its bytes without the terminator.\<close>

definition WriteStringToUsermode :: "u8 list \<Rightarrow> u32 \<Rightarrow> u64 \<Rightarrow> mem \<Rightarrow> (errno option \<times> mem) option" where
  "WriteStringToUsermode str untrusted max_length m =
     (let tr = CreateTransferWritingToUser untrusted max_length 0;
          sz = (if of_nat (length str) < max_length then of_nat (length str) else max_length - 1)
      in case PerformTransfer (str @ [0]) tr sz m of
           None \<Rightarrow> None
         | Some (Some e, _, _, m) \<Rightarrow> Some (Some e, m)
         | Some (None, _, tr, m) \<Rightarrow>
             (case PerformTransfer [0] tr 1 m of
                None \<Rightarrow> None
              | Some (e, _, _, m) \<Rightarrow> Some (e, m)))"

text \<open>The loop of \<open>ReadStringFromUsermode\<close>; \<open>k\<close> is what is left of \<open>max_length\<close>.\<close>

fun ReadString_loop :: "nat \<Rightarrow> transfer \<Rightarrow> mem \<Rightarrow> (errno + u8 list) option" where
  "ReadString_loop k tr m =
     (if k \<le> 1 then Some (Inr [])
      else case PerformTransfer [0] tr 1 m of
        None \<Rightarrow> None
      | Some (Some e, _, _, _) \<Rightarrow> Some (Inl e)
      | Some (None, buf, tr, _) \<Rightarrow>
          (if hd buf = 0 then Some (Inr [])
           else map_option (map_sum id (Cons (hd buf))) (ReadString_loop (k - 1) tr m)))"

definition ReadStringFromUsermode :: "u32 \<Rightarrow> u64 \<Rightarrow> mem \<Rightarrow> (errno + u8 list) option" where
  "ReadStringFromUsermode untrusted max_length m =
     ReadString_loop (unat max_length) (CreateTransferReadingFromUser untrusted max_length 0) m"

definition WriteWordToUsermode :: "u32 \<Rightarrow> u32 \<Rightarrow> mem \<Rightarrow> (errno option \<times> mem) option" where
  "WriteWordToUsermode location v m =
     (case PerformTransfer (le32 v) (CreateTransferWritingToUser location 4 0) 4 m of
        None \<Rightarrow> None
      | Some (res, _, io, m) \<Rightarrow> Some (if length_remaining io \<noteq> 0 then Some EINVAL else res, m))"

definition ReadWordFromUsermode :: "u32 \<Rightarrow> u8 list \<Rightarrow> mem \<Rightarrow> (errno option \<times> u8 list) option" where
  "ReadWordFromUsermode location out m =
     (case PerformTransfer out (CreateTransferReadingFromUser location 4 0) 4 m of
        None \<Rightarrow> None
      | Some (res, out, io, _) \<Rightarrow> Some (if length_remaining io \<noteq> 0 then Some EINVAL else res, out))"

section \<open>Properties\<close>

text \<open>The range the copy may touch.\<close>

definition user_area :: "u32 \<Rightarrow> bool" where
  "user_area x \<longleftrightarrow> ARCH_USER_AREA_BASE \<le> x \<and> x < ARCH_USER_AREA_LIMIT"


lemma ucast_up_down [simp]: "ucast (ucast (w :: u32) :: u64) = w"
  by (rule bit_word_eqI) (simp add: bit_simps)

lemma RevertTransfer_advance:
  "RevertTransfer (advance n io) (length_remaining io - length_remaining (advance n io)) = io"
  by (cases io) (simp add: RevertTransfer_def advance_def)

lemma RevertTransfer_0: "RevertTransfer io 0 = io"
  by (cases io) (simp add: RevertTransfer_def)


definition demo_io :: transfer where
  "demo_io = \<lparr>address = 0x08000010, length_remaining = 8, offset = 100, direction = TRANSFER_READ,
     ttype = TRANSFER_USERMODE, blockable = True\<rparr>"


text \<open>
  Reverting: after a successful transfer, reverting the amount it has moved gives
  back the transfer as it was, so that the operation can be tried again.
\<close>

lemma RevertTransfer_undoes:
  assumes "PerformTransfer trusted io len m = Some (None, trusted', io', m')"
  shows "RevertTransfer io' (length_remaining io - length_remaining io') = io"
  using assms
  by (auto simp: PerformTransfer_def RevertTransfer_advance RevertTransfer_0 Let_def CopyOutOfKernel_def CopyIntoKernel_def
      split: if_splits transfer_direction.splits transfer_type.splits option.splits sum.splits)

lemma RevertTransfer_undoes_witness:
  "\<exists>io' m'. PerformTransfer [1, 2, 3] demo_io 3 (\<lambda>_. 0) = Some (None, [1, 2, 3], io', m') \<and>
     RevertTransfer io' (8 - length_remaining io') = demo_io"
proof -
  obtain io' m' where *: "PerformTransfer [1, 2, 3] demo_io 3 (\<lambda>_. 0) = Some (None, [1, 2, 3], io', m')"
    by (simp add: PerformTransfer_def demo_io_def CopyOutOfKernel_def ValidateCopy_def ARCH_USER_AREA_BASE_def
        ARCH_USER_AREA_LIMIT_def advance_def store_bytes_def Let_def)
  then show ?thesis using RevertTransfer_undoes [OF *] by (auto simp: demo_io_def)
qed

text \<open>Strings: one byte, then the rest.\<close>

definition reading :: "u32 \<Rightarrow> u64 \<Rightarrow> u64 \<Rightarrow> transfer" where
  "reading a len off = \<lparr>address = a, length_remaining = len, offset = off, direction = TRANSFER_WRITE,
     ttype = TRANSFER_USERMODE, blockable = True\<rparr>"

lemma read_one:
  assumes "user_area a" "user_area (a + 1)" "0 < len"
  shows "PerformTransfer [x] (reading a len off) 1 m = Some (None, [m a], reading (a + 1) (len - 1) (off + 1), m)"
proof -
  have a: "a \<noteq> 0" using assms(1) by (auto simp: user_area_def ARCH_USER_AREA_BASE_def)
  have v: "ValidateCopy a 1 = None"
  proof -
    have "a \<le> a + 1"
    proof -
      have "a < 0xC0000000" using assms(1) by (simp add: user_area_def ARCH_USER_AREA_LIMIT_def)
      then have "unat a + 1 < 2 ^ 32" by (simp add: word_less_nat_alt)
      then show ?thesis by (simp add: word_le_nat_alt unat_word_ariths)
    qed
    then show ?thesis using assms(1,2) by (auto simp: ValidateCopy_def user_area_def Let_def not_le not_less)
  qed
  have "1 \<le> len" using assms(3) by (simp add: word_le_nat_alt word_less_nat_alt)
  then have "min 1 len = 1" by simp
  then show ?thesis
    using a v by (simp add: PerformTransfer_def reading_def CopyIntoKernel_def advance_def load_bytes_def Let_def)
qed

lemma ReadString_loop_spec:
  assumes "\<And>i. i \<le> Suc (length str) \<Longrightarrow> user_area (a + of_nat i)"
    "\<And>i. i < length str \<Longrightarrow> m (a + of_nat i) = str ! i" "m (a + of_nat (length str)) = 0"
    "0 \<notin> set str" "length str + 1 < k" "unat len = k"
  shows "ReadString_loop k (reading a len off) m = Some (Inr str)"
  using assms
proof (induction str arbitrary: a k len off)
  case Nil
  have "user_area a" "user_area (a + 1)" using Nil(1) [of 0] Nil(1) [of 1] by simp_all
  moreover have "0 < len" using Nil(5,6) by (simp add: word_less_nat_alt)
  ultimately have "PerformTransfer [0] (reading a len off) 1 m = Some (None, [m a], reading (a + 1) (len - 1) (off + 1), m)"
    by (rule read_one)
  then show ?case using Nil by (subst ReadString_loop.simps) simp
next
  case (Cons c str)
  have ua: "user_area a" "user_area (a + 1)" using Cons.prems(1) [of 0] Cons.prems(1) [of 1] by simp_all
  have l: "0 < len" using Cons.prems(5,6) by (simp add: word_less_nat_alt)
  have c: "m a = c" "c \<noteq> 0" using Cons.prems(2) [of 0] Cons.prems(4) by simp_all
  have k: "unat (len - 1) = k - 1" using Cons.prems(6) l by (simp add: unat_minus_one)
  have "ReadString_loop (k - 1) (reading (a + 1) (len - 1) (off + 1)) m = Some (Inr str)"
  proof (rule Cons.IH)
    show "user_area (a + 1 + of_nat i)" if "i \<le> Suc (length str)" for i
      using Cons.prems(1) [of "Suc i"] that by (simp add: add.assoc)
    show "m (a + 1 + of_nat i) = str ! i" if "i < length str" for i
      using Cons.prems(2) [of "Suc i"] that by (simp add: add.assoc)
    show "m (a + 1 + of_nat (length str)) = 0" using Cons.prems(3) by (simp add: add.assoc)
  qed (use Cons.prems k in auto)
  then show ?case
    using read_one [OF ua l, of 0 off m] c Cons.prems(5) by (subst ReadString_loop.simps) simp
qed

definition writing :: "u32 \<Rightarrow> u64 \<Rightarrow> u64 \<Rightarrow> transfer" where
  "writing a len off = \<lparr>address = a, length_remaining = len, offset = off, direction = TRANSFER_READ,
     ttype = TRANSFER_USERMODE, blockable = True\<rparr>"

lemma write_some:
  assumes "user_area a" "user_area (a + of_nat n)" "unat a + n < 2 ^ 32" "n \<le> length bs" "n \<le> unat len"
  shows "PerformTransfer bs (writing a len off) (of_nat n) m =
    Some (None, bs, writing (a + of_nat n) (len - of_nat n) (off + of_nat n), store_bytes a (take n bs) m)"
proof -
  have a: "a \<noteq> 0" using assms(1) by (auto simp: user_area_def ARCH_USER_AREA_BASE_def)
  have n: "unat (of_nat n :: u32) = n" "unat (of_nat n :: u64) = n" using assms(3) by (simp_all add: unat_of_nat)
  have "of_nat n \<le> len" using assms(5) n by (simp add: word_le_nat_alt)
  then have mn: "min (of_nat n) len = of_nat n" by simp
  have uc: "ucast (of_nat n :: u64) = (of_nat n :: u32)" "ucast (of_nat n :: u32) = (of_nat n :: u64)"
    using assms(3) by (simp_all add: unsigned_of_nat take_bit_nat_eq_self)
  have v: "ValidateCopy a (of_nat n) = None"
  proof -
    have "a \<le> a + of_nat n" using assms(3) n by (simp add: word_le_nat_alt unat_word_ariths)
    then show ?thesis using assms(1,2) by (auto simp: ValidateCopy_def user_area_def Let_def not_le not_less)
  qed
  show ?thesis
  proof (cases "n = 0")
    case True
    then show ?thesis using a by (simp add: PerformTransfer_def writing_def)
  next
    case False
    then have "(of_nat n :: u32) \<noteq> 0" using n by auto
    then show ?thesis
      using a v mn uc n assms(4) by (simp add: PerformTransfer_def writing_def CopyOutOfKernel_def advance_def Let_def)
  qed
qed

text \<open>
  Round trip: a string without embedded terminator that is written to user memory with room for
  its terminator is read back unchanged.
\<close>

lemma user_string_roundtrip:
  assumes "0 \<notin> set str" "length str + 1 < unat max_length"
    "\<And>i. i \<le> length str + 1 \<Longrightarrow> user_area (a + of_nat i)" "unat a + length str + 1 < 2 ^ 32"
  shows "\<exists>m'. WriteStringToUsermode str a max_length m = Some (None, m') \<and>
    ReadStringFromUsermode a max_length m' = Some (Inr str)"
proof -
  let ?n = "length str"
  let ?m' = "store_bytes a (str @ [0]) m"
  have n: "unat (of_nat ?n :: u64) = ?n" using assms(4) by (simp add: unat_of_nat)
  have lt: "(of_nat ?n :: u64) < max_length" using assms(2) n by (simp add: word_less_nat_alt)
  have ua: "user_area a" "user_area (a + of_nat ?n)" "user_area (a + of_nat ?n + 1)"
    using assms(3) [of 0] assms(3) [of ?n] assms(3) [of "?n + 1"] by (simp_all add: ac_simps)
  have ad: "unat (a + of_nat ?n) = unat a + ?n" using assms(4) by (simp add: unat_word_ariths unat_of_nat)
  have rem: "unat (max_length - of_nat ?n) = unat max_length - ?n"
    using lt n by (subst unat_sub) (simp_all add: order_less_imp_le)
  have w1: "PerformTransfer (str @ [0]) (writing a max_length 0) (of_nat ?n) m =
      Some (None, str @ [0], writing (a + of_nat ?n) (max_length - of_nat ?n) (of_nat ?n), store_bytes a str m)"
    using write_some [of a ?n "str @ [0]" max_length 0 m] ua assms(2,4) by simp
  have w2: "PerformTransfer [0] (writing (a + of_nat ?n) (max_length - of_nat ?n) (of_nat ?n)) 1 (store_bytes a str m) =
      Some (None, [0], writing (a + of_nat ?n + 1) (max_length - of_nat ?n - 1) (of_nat ?n + 1),
        store_bytes (a + of_nat ?n) [0] (store_bytes a str m))"
    using write_some [of "a + of_nat ?n" 1 "[0]" "max_length - of_nat ?n" "of_nat ?n" "store_bytes a str m"]
      ua assms(2,4) ad rem by simp
  have st: "store_bytes (a + of_nat ?n) [0] (store_bytes a str m) = ?m'"
    using assms(4) by (intro store_bytes_append) simp
  have wr: "WriteStringToUsermode str a max_length m = Some (None, ?m')"
    using lt w1 w2 st
    by (simp add: WriteStringToUsermode_def CreateTransferWritingToUser_def CreateTransfer_def writing_def Let_def)
  have ld: "?m' (a + of_nat i) = (str @ [0]) ! i" if "i < Suc ?n" for i
  proof -
    have "unat (of_nat i :: u32) = i" using that assms(4) by (simp add: unat_of_nat)
    then show ?thesis using that by (simp add: store_bytes_def)
  qed
  have "ReadString_loop (unat max_length) (reading a max_length 0) ?m' = Some (Inr str)"
    using assms(1-3) ld [of ?n] by (intro ReadString_loop_spec) (auto simp: ld nth_append)
  then show ?thesis
    using wr by (simp add: ReadStringFromUsermode_def CreateTransferReadingFromUser_def CreateTransfer_def reading_def)
qed

lemma user_string_roundtrip_witness:
  "\<exists>m'. WriteStringToUsermode [72, 105] 0x08000000 16 (\<lambda>_. 0) = Some (None, m') \<and>
     ReadStringFromUsermode 0x08000000 16 m' = Some (Inr [72, 105])"
proof (rule user_string_roundtrip)
  fix i :: nat assume "i \<le> length [72, 105 :: u8] + 1"
  then consider "i = 0" | "i = 1" | "i = 2" | "i = 3" by fastforce
  then show "user_area (0x08000000 + of_nat i)"
    by cases (simp_all add: user_area_def ARCH_USER_AREA_BASE_def ARCH_USER_AREA_LIMIT_def)
qed simp_all

end
