(* ===== verification/FatTable.thy ===== *)
theory FatTable
  imports Transfers
begin

unbundle bit_operations_syntax

text \<open>
  The file allocation table of the FAT driver: \<^verbatim>\<open>kernel/fs/fat/fat_table.c\<close> and the disk access of
  \<^verbatim>\<open>fat_core.c\<close>. The disk is a parameter.
\<close>

section \<open>The disk\<close>

text \<open>
  \<open>dev off len\<close> is what the driver of the disk answers to a read of \<open>len\<close> bytes at \<open>off\<close>: its status,
  and the bytes it transferred, possibly fewer. A transfer that fails part-way has changed memory, but the
  caller keeps its own copy of the transfer.
\<close>

type_synonym disk = "u64 \<Rightarrow> u64 \<Rightarrow> errno option \<times> u8 list"

definition fat_disk_transfer :: "disk \<Rightarrow> transfer \<Rightarrow> mem \<Rightarrow> (errno option \<times> transfer \<times> mem) option" where
  "fat_disk_transfer dev io m =
     (let (status, bs) = dev (offset io) (length_remaining io)
      in case PerformTransfer bs io (of_nat (length bs)) m of
           None \<Rightarrow> None
         | Some (Some e, _, _, m) \<Rightarrow> Some (Some e, io, m)
         | Some (None, _, aio, m) \<Rightarrow> Some (if status = None then (None, aio, m) else (status, io, m)))"

text \<open>The same into a buffer of the kernel.\<close>

definition fat_disk_read :: "disk \<Rightarrow> nat \<Rightarrow> u64 \<Rightarrow> errno + u8 list" where
  "fat_disk_read dev len off =
     (case dev off (of_nat len) of
        (Some e, _) \<Rightarrow> Inl e
      | (None, bs) \<Rightarrow> if length bs = len then Inr bs else Inl EIO)"

text \<open>
  What the driver relies on: bytes that are transferred are those of the image \<open>img\<close>, no more than
  asked for. Errors and short reads may happen at any time.
\<close>

locale faithful_disk =
  fixes dev :: disk and img :: "nat \<Rightarrow> u8"
  assumes dev_data: "dev off len = (st, bs) \<Longrightarrow>
    length bs \<le> unat len \<and> bs = map (\<lambda>i. img (unat off + i)) [0..<length bs]"
begin

lemma disk_read_data:
  assumes "fat_disk_read dev len off = Inr bs"
  shows "bs = map (\<lambda>i. img (unat off + i)) [0..<len]"
  using assms dev_data by (fastforce simp: fat_disk_read_def split: prod.splits option.splits if_splits)

end

text \<open>A disk without failures on the first \<open>size\<close> bytes.\<close>

locale reliable_disk = faithful_disk +
  fixes capacity :: nat
  assumes dev_full: "unat off + unat len \<le> capacity \<Longrightarrow> dev off len = (None, map (\<lambda>i. img (unat off + i)) [0..<unat len])"
begin

lemma disk_read_full:
  assumes "unat off + len \<le> capacity" "len < 2 ^ 64"
  shows "fat_disk_read dev len off = Inr (map (\<lambda>i. img (unat off + i)) [0..<len])"
  using dev_full [of off "of_nat len"] assms by (simp add: fat_disk_read_def unat_of_nat)

end

text \<open>A disk held in memory: reads past its end fail.\<close>

definition image_disk :: "(nat \<Rightarrow> u8) \<Rightarrow> nat \<Rightarrow> disk" where
  "image_disk img cap off len =
     (if unat off + unat len \<le> cap then (None, map (\<lambda>i. img (unat off + i)) [0..<unat len]) else (Some EIO, []))"

interpretation image: reliable_disk "image_disk img cap" img cap
  by unfold_locales (auto simp: image_disk_def split: if_splits)

section \<open>The state of a mounted volume\<close>

datatype fat_type = FAT_TYPE_12 | FAT_TYPE_16 | FAT_TYPE_32

record fat_cache_slot =
  valid :: bool
  csector :: u32
  cdata :: "u8 list"

record fat =
  ftype :: fat_type
  sectors_per_cluster :: u32
  cluster_bytes :: u32
  root_cluster :: u32
  root_dir_start_sector :: u32
  root_dir_sectors :: u32
  data_start_sector :: u32
  max_cluster :: u32
  fat_start_sector :: u32
  fat_sectors :: u32
  slot0 :: fat_cache_slot
  slot1 :: fat_cache_slot
  cache_mru :: nat
  hint_first_cluster :: u32
  hint_index :: u32
  hint_cluster :: u32

abbreviation FAT_SECTOR_SIZE :: nat where
  "FAT_SECTOR_SIZE \<equiv> 512"

section \<open>The cache of table sectors\<close>

text \<open>
  The two slots of the array \<open>cache\<close> are fields. The result is the data of the sector; the volume
  comes back with its cache changed.
\<close>

definition fat_cache_get :: "disk \<Rightarrow> fat \<Rightarrow> u32 \<Rightarrow> (errno + u8 list) \<times> fat" where
  "fat_cache_get dev fat sector =
     (if valid (slot0 fat) \<and> csector (slot0 fat) = sector
      then (Inr (cdata (slot0 fat)), fat\<lparr>cache_mru := 0\<rparr>)
      else if valid (slot1 fat) \<and> csector (slot1 fat) = sector
      then (Inr (cdata (slot1 fat)), fat\<lparr>cache_mru := 1\<rparr>)
      else
        (let victim = (if \<not> valid (slot0 fat) then 0 else if \<not> valid (slot1 fat) then 1 else 1 - cache_mru fat);
             byte = ucast (fat_start_sector fat + sector) * 512
         in case fat_disk_read dev FAT_SECTOR_SIZE byte of
              Inl e \<Rightarrow> (Inl e, if victim = 0 then fat\<lparr>slot0 := (slot0 fat)\<lparr>valid := False\<rparr>\<rparr>
                              else fat\<lparr>slot1 := (slot1 fat)\<lparr>valid := False\<rparr>\<rparr>)
            | Inr bs \<Rightarrow> (Inr bs, (if victim = 0 then fat\<lparr>slot0 := \<lparr>valid = True, csector = sector, cdata = bs\<rparr>\<rparr>
                              else fat\<lparr>slot1 := \<lparr>valid = True, csector = sector, cdata = bs\<rparr>\<rparr>)
                              \<lparr>cache_mru := victim\<rparr>)))"

section \<open>Entries and chains\<close>

definition Le16 :: "u8 list \<Rightarrow> u16" where
  "Le16 p = of_le16 (p ! 0) (p ! 1)"

definition Le32 :: "u8 list \<Rightarrow> u32" where
  "Le32 p = of_le32 (p ! 0) (p ! 1) (p ! 2) (p ! 3)"

text \<open>The two \<open>switch\<close> statements around the table access of \<open>fat_read_entry\<close>.\<close>

definition entry_position :: "fat_type \<Rightarrow> u32 \<Rightarrow> u32 \<times> nat" where
  "entry_position ty cluster =
     (case ty of
        FAT_TYPE_12 \<Rightarrow> (cluster + cluster div 2, 2)
      | FAT_TYPE_16 \<Rightarrow> (cluster * 2, 2)
      | FAT_TYPE_32 \<Rightarrow> (cluster * 4, 4))"

definition entry_value :: "fat_type \<Rightarrow> u32 \<Rightarrow> u8 list \<Rightarrow> u32" where
  "entry_value ty cluster bytes =
     (case ty of
        FAT_TYPE_12 \<Rightarrow>
          (let raw = ucast (bytes ! 0) OR push_bit 8 (ucast (bytes ! 1))
           in if bit cluster 0 then drop_bit 4 raw else raw AND 0xFFF)
      | FAT_TYPE_16 \<Rightarrow> ucast (Le16 bytes)
      | FAT_TYPE_32 \<Rightarrow> Le32 bytes AND 0x0FFFFFFF)"

definition fat_read_entry :: "disk \<Rightarrow> fat \<Rightarrow> u32 \<Rightarrow> (errno + u32) \<times> fat" where
  "fat_read_entry dev fat cluster =
     (let (off, len) = entry_position (ftype fat) cluster;
          sector = off div 512; within = unat (off mod 512);
          first_part = min len (FAT_SECTOR_SIZE - within)
      in if fat_sectors fat \<le> sector then (Inl EIO, fat)
         else case fat_cache_get dev fat sector of
           (Inl e, fat) \<Rightarrow> (Inl e, fat)
         | (Inr d, fat) \<Rightarrow>
             (let bytes = take first_part (drop within d)
              in if first_part < len then
                   (if fat_sectors fat \<le> sector + 1 then (Inl EIO, fat)
                    else case fat_cache_get dev fat (sector + 1) of
                      (Inl e, fat) \<Rightarrow> (Inl e, fat)
                    | (Inr d, fat) \<Rightarrow>
                        (Inr (entry_value (ftype fat) cluster (bytes @ take (len - first_part) d)), fat))
                 else (Inr (entry_value (ftype fat) cluster bytes), fat)))"

text \<open>\<open>FAT_END\<close>, the end of a chain, is a result besides the error numbers.\<close>

datatype 'a fat_result = Found 'a | FatEnd | Failed errno

definition end_marker :: "fat_type \<Rightarrow> u32" where
  "end_marker ty = (case ty of FAT_TYPE_12 \<Rightarrow> 0xFF8 | FAT_TYPE_16 \<Rightarrow> 0xFFF8 | FAT_TYPE_32 \<Rightarrow> 0x0FFFFFF8)"

definition fat_next_cluster :: "disk \<Rightarrow> fat \<Rightarrow> u32 \<Rightarrow> u32 fat_result \<times> fat" where
  "fat_next_cluster dev fat cluster =
     (if cluster < 2 \<or> max_cluster fat < cluster then (Failed EIO, fat)
      else case fat_read_entry dev fat cluster of
        (Inl e, fat) \<Rightarrow> (Failed e, fat)
      | (Inr entry, fat) \<Rightarrow>
          if end_marker (ftype fat) \<le> entry then (FatEnd, fat)
          else if entry < 2 \<or> max_cluster fat < entry then (Failed EIO, fat)
          else (Found entry, fat))"

definition fat_set_hint :: "fat \<Rightarrow> u32 \<Rightarrow> u32 \<Rightarrow> u32 \<Rightarrow> fat" where
  "fat_set_hint fat first_cluster index cluster =
     fat\<lparr>hint_first_cluster := first_cluster, hint_index := index, hint_cluster := cluster\<rparr>"

text \<open>The \<open>for\<close> loop of \<open>fat_cluster_at\<close>, with \<open>n\<close> rounds to go.\<close>

fun walk_chain :: "disk \<Rightarrow> nat \<Rightarrow> fat \<Rightarrow> u32 \<Rightarrow> u32 fat_result \<times> fat" where
  "walk_chain dev 0 fat cluster = (Found cluster, fat)"
| "walk_chain dev (Suc n) fat cluster =
     (case fat_next_cluster dev fat cluster of
        (Found c, fat) \<Rightarrow> walk_chain dev n fat c
      | (FatEnd, fat) \<Rightarrow> (FatEnd, fat)
      | (Failed e, fat) \<Rightarrow> (Failed e, fat))"

definition fat_cluster_at :: "disk \<Rightarrow> fat \<Rightarrow> u32 \<Rightarrow> u32 \<Rightarrow> u32 fat_result \<times> fat" where
  "fat_cluster_at dev fat first_cluster index =
     (let hinted = hint_first_cluster fat = first_cluster \<and> hint_index fat \<le> index;
          cluster = (if hinted then hint_cluster fat else first_cluster);
          i = (if hinted then hint_index fat else 0)
      in case walk_chain dev (unat index - unat i) fat cluster of
           (Found c, fat) \<Rightarrow> (Found c, fat_set_hint fat first_cluster index c)
         | r \<Rightarrow> r)"

definition fat_cluster_to_byte :: "fat \<Rightarrow> u32 \<Rightarrow> u64" where
  "fat_cluster_to_byte fat cluster =
     (ucast (data_start_sector fat) + ucast (cluster - 2) * ucast (sectors_per_cluster fat)) * 512"

end
