(* ===== verification/FatTableProps.thy ===== *)
theory FatTableProps
  imports FatTable
begin

unbundle bit_operations_syntax

text \<open>
  What the cached, hinted access of \<^verbatim>\<open>fat_table.c\<close> finds is what the table on the disk says: the table
  itself, chains of clusters in it, and the invariant of the cache and of the seek hint.
\<close>

section \<open>The table without the cache\<close>

definition table_byte :: "(nat \<Rightarrow> u8) \<Rightarrow> fat \<Rightarrow> nat \<Rightarrow> u8" where
  "table_byte img fat i = img (512 * unat (fat_start_sector fat) + i)"

definition table_entry :: "(nat \<Rightarrow> u8) \<Rightarrow> fat \<Rightarrow> u32 \<Rightarrow> u32" where
  "table_entry img fat c =
     (let (off, len) = entry_position (ftype fat) c
      in entry_value (ftype fat) c (map (\<lambda>i. table_byte img fat (unat off + i)) [0..<len]))"

definition table_sector :: "(nat \<Rightarrow> u8) \<Rightarrow> fat \<Rightarrow> u32 \<Rightarrow> u8 list" where
  "table_sector img fat sector = map (\<lambda>i. table_byte img fat (512 * unat sector + i)) [0..<512]"

text \<open>The parts of the volume that mounting has set.\<close>

definition same_volume :: "fat \<Rightarrow> fat \<Rightarrow> bool" where
  "same_volume fat fat' \<longleftrightarrow> ftype fat' = ftype fat \<and> sectors_per_cluster fat' = sectors_per_cluster fat \<and>
     cluster_bytes fat' = cluster_bytes fat \<and> root_cluster fat' = root_cluster fat \<and>
     root_dir_start_sector fat' = root_dir_start_sector fat \<and> root_dir_sectors fat' = root_dir_sectors fat \<and>
     data_start_sector fat' = data_start_sector fat \<and> max_cluster fat' = max_cluster fat \<and>
     fat_start_sector fat' = fat_start_sector fat \<and> fat_sectors fat' = fat_sectors fat"

definition same_hint :: "fat \<Rightarrow> fat \<Rightarrow> bool" where
  "same_hint fat fat' \<longleftrightarrow> hint_first_cluster fat' = hint_first_cluster fat \<and>
     hint_index fat' = hint_index fat \<and> hint_cluster fat' = hint_cluster fat"

lemma same_volume_refl [simp]: "same_volume fat fat" "same_hint fat fat"
  by (simp_all add: same_volume_def same_hint_def)

lemma same_volume_trans [trans]:
  "\<lbrakk>same_volume a b; same_volume b c\<rbrakk> \<Longrightarrow> same_volume a c"
  "\<lbrakk>same_hint a b; same_hint b c\<rbrakk> \<Longrightarrow> same_hint a c"
  by (simp_all add: same_volume_def same_hint_def)

text \<open>
  What mounting establishes: the table, the fixed root directory and the data area follow each other,
  every cluster has an entry in the table, the sectors of the volume have 32-bit numbers.
\<close>

definition entry_end :: "fat_type \<Rightarrow> nat \<Rightarrow> nat" where
  "entry_end ty c = (case ty of FAT_TYPE_12 \<Rightarrow> c + c div 2 + 2 | FAT_TYPE_16 \<Rightarrow> 2 * c + 2 | FAT_TYPE_32 \<Rightarrow> 4 * c + 4)"

definition volume_end :: "fat \<Rightarrow> nat" where
  "volume_end fat = unat (data_start_sector fat) + (unat (max_cluster fat) - 1) * unat (sectors_per_cluster fat)"

definition volume_ok :: "fat \<Rightarrow> bool" where
  "volume_ok fat \<longleftrightarrow>
     unat (fat_start_sector fat) + unat (fat_sectors fat) \<le> unat (root_dir_start_sector fat) \<and>
     unat (root_dir_start_sector fat) + unat (root_dir_sectors fat) = unat (data_start_sector fat) \<and>
     0 < unat (sectors_per_cluster fat) \<and> unat (sectors_per_cluster fat) \<le> 255 \<and>
     unat (cluster_bytes fat) = 512 * unat (sectors_per_cluster fat) \<and>
     2 \<le> unat (max_cluster fat) \<and> unat (max_cluster fat) < unat (end_marker (ftype fat)) - 1 \<and>
     entry_end (ftype fat) (unat (max_cluster fat)) \<le> 512 * unat (fat_sectors fat) \<and>
     volume_end fat < 2 ^ 32 \<and>
     (if ftype fat = FAT_TYPE_32 then 2 \<le> root_cluster fat \<and> root_cluster fat \<le> max_cluster fat else root_cluster fat = 0)"

definition slot_ok :: "(nat \<Rightarrow> u8) \<Rightarrow> fat \<Rightarrow> fat_cache_slot \<Rightarrow> bool" where
  "slot_ok img fat s \<longleftrightarrow> (valid s \<longrightarrow> cdata s = table_sector img fat (csector s))"

definition cache_ok :: "(nat \<Rightarrow> u8) \<Rightarrow> fat \<Rightarrow> bool" where
  "cache_ok img fat \<longleftrightarrow> slot_ok img fat (slot0 fat) \<and> slot_ok img fat (slot1 fat) \<and> cache_mru fat \<le> 1"

lemma table_cong:
  assumes "same_volume fat fat'"
  shows "table_byte img fat' = table_byte img fat" "table_sector img fat' = table_sector img fat"
    "table_entry img fat' = table_entry img fat" "volume_ok fat' = volume_ok fat" "slot_ok img fat' = slot_ok img fat"
    "volume_end fat' = volume_end fat"
proof -
  show b: "table_byte img fat' = table_byte img fat"
    using assms by (simp add: table_byte_def same_volume_def fun_eq_iff)
  show "table_sector img fat' = table_sector img fat" by (simp add: table_sector_def b fun_eq_iff)
  then show "slot_ok img fat' = slot_ok img fat" by (simp add: slot_ok_def fun_eq_iff)
  show "table_entry img fat' = table_entry img fat"
    using assms by (simp add: table_entry_def b same_volume_def fun_eq_iff)
  have eqs: "ftype fat' = ftype fat" "sectors_per_cluster fat' = sectors_per_cluster fat"
    "cluster_bytes fat' = cluster_bytes fat" "root_cluster fat' = root_cluster fat"
    "root_dir_start_sector fat' = root_dir_start_sector fat" "root_dir_sectors fat' = root_dir_sectors fat"
    "data_start_sector fat' = data_start_sector fat" "max_cluster fat' = max_cluster fat"
    "fat_start_sector fat' = fat_start_sector fat" "fat_sectors fat' = fat_sectors fat"
    using assms by (simp_all add: same_volume_def)
  show "volume_ok fat' = volume_ok fat" by (simp only: volume_ok_def volume_end_def eqs)
  show "volume_end fat' = volume_end fat" by (simp only: volume_end_def eqs)
qed

lemma volume_okD:
  assumes "volume_ok fat"
  shows "unat (fat_start_sector fat) + unat (fat_sectors fat) \<le> unat (data_start_sector fat)"
    "unat (data_start_sector fat) < 2 ^ 32" "unat (max_cluster fat) < 2 ^ 28"
    "2 \<le> max_cluster fat" "max_cluster fat < end_marker (ftype fat)"
    "unat (data_start_sector fat) \<le> volume_end fat"
proof -
  have m: "unat (max_cluster fat) < unat (end_marker (ftype fat)) - 1" "2 \<le> unat (max_cluster fat)"
    using assms by (simp_all add: volume_ok_def)
  then show "max_cluster fat < end_marker (ftype fat)" "2 \<le> max_cluster fat"
    by (simp_all add: word_less_nat_alt word_le_nat_alt)
  show "unat (max_cluster fat) < 2 ^ 28" using m by (auto simp: end_marker_def split: fat_type.splits)
qed (use assms unat_lt32 [of "data_start_sector fat"] in \<open>simp_all add: volume_ok_def volume_end_def\<close>)

lemma unat_ucast_u32 [simp]: "unat (ucast (w :: u32) :: u64) = unat w"
  by (simp add: unsigned_ucast_eq take_bit_nat_eq_self unat_lt32 less_trans [OF unat_lt32])

lemma unat_ucast_down: "unat (w :: u64) < 2 ^ 32 \<Longrightarrow> unat (ucast w :: u32) = unat w"
  by (simp add: unsigned_ucast_eq take_bit_nat_eq_self)

lemma unat_sector_byte: "unat (ucast (w :: u32) * 512 :: u64) = unat w * 512"
proof -
  have "unat w * 512 < 2 ^ 64" using unat_lt32 [of w] by simp
  then show ?thesis by (simp add: unat_word_ariths)
qed

context faithful_disk
begin

lemma cache_get_spec:
  assumes c: "cache_ok img fat" and v: "volume_ok fat" and s: "sector < fat_sectors fat"
    and g: "fat_cache_get dev fat sector = (r, fat')"
  shows "same_volume fat fat'" "same_hint fat fat'" "cache_ok img fat'"
    "r = Inr d \<Longrightarrow> d = table_sector img fat sector"
proof -
  have add: "unat (fat_start_sector fat + sector) = unat (fat_start_sector fat) + unat sector"
    using volume_okD(1,2) [OF v] s by (simp add: word_less_nat_alt unat_word_ariths)
  have rd: "bs = table_sector img fat sector"
    if "fat_disk_read dev FAT_SECTOR_SIZE (ucast (fat_start_sector fat + sector) * 512) = Inr bs" for bs
    using disk_read_data [OF that] unfolding unat_sector_byte add
    by (simp add: table_sector_def table_byte_def algebra_simps)
  show sv: "same_volume fat fat'" and "same_hint fat fat'"
    using g by (auto simp: fat_cache_get_def same_volume_def same_hint_def Let_def split: if_splits sum.splits)
  have ok: "slot_ok img fat (slot0 fat') \<and> slot_ok img fat (slot1 fat') \<and> cache_mru fat' \<le> 1"
    using g c rd by (auto simp: fat_cache_get_def cache_ok_def slot_ok_def Let_def split: if_splits sum.splits)
  then show "cache_ok img fat'" using table_cong(5) [OF sv] by (simp add: cache_ok_def)
  show "d = table_sector img fat sector" if "r = Inr d"
    using g c rd that by (auto simp: fat_cache_get_def cache_ok_def slot_ok_def Let_def split: if_splits sum.splits)
qed

lemma read_entry_spec:
  assumes c: "cache_ok img fat" and v: "volume_ok fat"
    and r: "fat_read_entry dev fat cluster = (r, fat')"
  shows "same_volume fat fat' \<and> same_hint fat fat' \<and> cache_ok img fat' \<and>
    (\<forall>w. r = Inr w \<longrightarrow> w = table_entry img fat cluster)"
proof -
  obtain off len where ol: "entry_position (ftype fat) cluster = (off, len)" by (cases "entry_position (ftype fat) cluster")
  have len: "len \<le> 4" using ol by (auto simp: entry_position_def split: fat_type.splits)
  define sector where "sector = off div 512"
  define within where "within = unat (off mod 512)"
  define fp where "fp = min len (512 - within)"
  let ?tb = "table_byte img fat"
  have off: "unat off = 512 * unat sector + within"
    unfolding sector_def within_def by (simp add: unat_div_distrib unat_mod_distrib)
  have w: "within < 512" unfolding within_def by (simp add: unat_mod_distrib)
  have first: "take fp (drop within (table_sector img fat sector)) = map (\<lambda>i. ?tb (unat off + i)) [0..<fp]"
    using w by (simp add: table_sector_def off drop_map take_map drop_upt take_upt fp_def algebra_simps)
      (simp add: list_eq_iff_nth_eq fp_def ac_simps)
  show ?thesis
  proof (cases "fat_sectors fat \<le> sector")
    case True
    then show ?thesis using r ol c by (auto simp: fat_read_entry_def Let_def sector_def)
  next
    case False
    then have s: "sector < fat_sectors fat" by simp
    obtain r1 fat1 where g1: "fat_cache_get dev fat sector = (r1, fat1)" by (cases "fat_cache_get dev fat sector")
    note C1 = cache_get_spec [OF c v s g1]
    show ?thesis
    proof (cases r1)
      case (Inl e)
      then show ?thesis using r ol g1 False C1 by (auto simp: fat_read_entry_def Let_def sector_def)
    next
      case (Inr d)
      note d = C1(4) [OF Inr]
      show ?thesis
      proof (cases "fp < len")
        case fpl: False
        then have "fp = len" by (simp add: fp_def)
        then have "r = Inr (table_entry img fat cluster)" "fat' = fat1"
          using r ol g1 False Inr fpl first d C1(1)
          by (auto simp: fat_read_entry_def Let_def table_entry_def same_volume_def
              simp flip: sector_def within_def fp_def)
        then show ?thesis using C1 by simp
      next
        case fpl: True
        then have fp: "fp = 512 - within" by (simp add: fp_def)
        have fs1: "fat_sectors fat1 = fat_sectors fat" "ftype fat1 = ftype fat" using C1(1) by (simp_all add: same_volume_def)
        show ?thesis
        proof (cases "fat_sectors fat \<le> sector + 1")
          case True
          then have "r = Inl EIO" "fat' = fat1"
            using r ol g1 False Inr fpl fs1
            by (auto simp: fat_read_entry_def Let_def simp flip: sector_def within_def fp_def)
          then show ?thesis using C1 by simp
        next
          case s2: False
          then have s2': "sector + 1 < fat_sectors fat1" using fs1 by simp
          obtain r2 fat2 where g2: "fat_cache_get dev fat1 (sector + 1) = (r2, fat2)"
            by (cases "fat_cache_get dev fat1 (sector + 1)")
          have v1: "volume_ok fat1" using v table_cong(4) [OF C1(1)] by simp
          note C2 = cache_get_spec [OF C1(3) v1 s2' g2]
          have sv: "same_volume fat fat2" "same_hint fat fat2" using C1 C2 same_volume_trans by blast+
          show ?thesis
          proof (cases r2)
            case (Inl e)
            then have "r = Inl e" "fat' = fat2"
              using r ol g1 g2 False Inr fpl s2 fs1
              by (auto simp: fat_read_entry_def Let_def simp flip: sector_def within_def fp_def)
            then show ?thesis using sv C2 by simp
          next
            case r2: (Inr d2)
            have d2: "d2 = table_sector img fat (sector + 1)" using C2(4) [OF r2] table_cong(2) [OF C1(1)] by simp
            have "unat (sector + 1) = unat sector + 1"
            proof -
              have "unat sector + 1 < 2 ^ 32" using s unat_lt32 [of "fat_sectors fat"] by (simp add: word_less_nat_alt)
              then show ?thesis by (simp add: unat_word_ariths)
            qed
            then have "take (len - fp) d2 = map (\<lambda>i. ?tb (unat off + (fp + i))) [0..<len - fp]"
              using len fp w by (simp add: d2 table_sector_def off take_map take_upt algebra_simps)
            moreover have "map f [0..<fp] @ map (\<lambda>i. f (fp + i)) [0..<len - fp] = map f [0..<len]" for f :: "nat \<Rightarrow> u8"
              using fpl by (auto simp: list_eq_iff_nth_eq nth_append)
            ultimately have bytes: "take fp (drop within d) @ take (len - fp) d2 = map (\<lambda>i. ?tb (unat off + i)) [0..<len]"
              using first d by simp
            have "r = Inr (table_entry img fat cluster)" "fat' = fat2"
              using r ol g1 g2 False Inr r2 fpl s2 fs1 bytes sv(1)
              by (auto simp: fat_read_entry_def Let_def table_entry_def same_volume_def
                  simp flip: sector_def within_def fp_def)
            then show ?thesis using sv C2 by simp
          qed
        qed
      qed
    qed
  qed
qed

end

text \<open>On a disk without failures every entry of the table can be read.\<close>

lemma entry_position_end:
  assumes "entry_position ty c = (off, len)" "unat c < 2 ^ 28"
  shows "unat off + len = entry_end ty (unat c)"
proof -
  have "unat (c + c div 2) = unat c + unat c div 2" if "unat c < 2 ^ 28"
    using that by (simp add: unat_word_ariths unat_div_distrib)
  then show ?thesis using assms
    by (auto simp: entry_position_def entry_end_def unat_word_ariths split: fat_type.splits)
qed

lemma entry_end_mono: "a \<le> b \<Longrightarrow> entry_end ty a \<le> entry_end ty b"
  by (auto simp: entry_end_def split: fat_type.splits intro: add_mono div_le_mono)

context reliable_disk
begin

lemma cache_get_full:
  assumes "volume_ok fat" "sector < fat_sectors fat" "512 * volume_end fat \<le> capacity"
  shows "\<exists>d fat'. fat_cache_get dev fat sector = (Inr d, fat')"
proof -
  note V = volume_okD [OF assms(1)]
  have s: "unat sector < unat (fat_sectors fat)" using assms(2) by (simp add: word_less_nat_alt)
  have add: "unat (fat_start_sector fat + sector) = unat (fat_start_sector fat) + unat sector"
    using V(1,2) s by (simp add: unat_word_ariths)
  have "\<exists>bs. fat_disk_read dev FAT_SECTOR_SIZE (ucast (fat_start_sector fat + sector) * 512) = Inr bs"
    using disk_read_full [of "ucast (fat_start_sector fat + sector) * 512" 512] V(1,6) s assms(3)
    unfolding unat_sector_byte add by simp
  then show ?thesis by (auto simp: fat_cache_get_def Let_def)
qed

lemma read_entry_full:
  assumes c: "cache_ok img fat" and v: "volume_ok fat" and m: "cluster \<le> max_cluster fat"
    and cap: "512 * volume_end fat \<le> capacity"
  shows "\<exists>w fat'. fat_read_entry dev fat cluster = (Inr w, fat')"
proof -
  obtain off len where ol: "entry_position (ftype fat) cluster = (off, len)" by (cases "entry_position (ftype fat) cluster")
  have len: "0 < len" using ol by (auto simp: entry_position_def split: fat_type.splits)
  define sector where "sector = off div 512"
  define within where "within = unat (off mod 512)"
  have off: "unat off = 512 * unat sector + within"
    unfolding sector_def within_def by (simp add: unat_div_distrib unat_mod_distrib)
  have w: "within < 512" unfolding within_def by (simp add: unat_mod_distrib)
  have "unat cluster \<le> unat (max_cluster fat)" using m by (simp add: word_le_nat_alt)
  then have e: "unat off + len \<le> 512 * unat (fat_sectors fat)"
    using entry_position_end [OF ol] entry_end_mono [of "unat cluster" "unat (max_cluster fat)" "ftype fat"] v volume_okD(3) [OF v]
    by (simp add: volume_ok_def)
  then have "unat sector < unat (fat_sectors fat)" using off len by linarith
  then have s: "sector < fat_sectors fat" by (simp add: word_less_nat_alt)
  obtain d fat1 where g1: "fat_cache_get dev fat sector = (Inr d, fat1)" using cache_get_full [OF v s cap] by blast
  note C1 = cache_get_spec [OF c v s g1]
  have sec: "fat_sectors fat1 = fat_sectors fat" using C1(1) by (simp add: same_volume_def)
  show ?thesis
  proof (cases "min len (512 - within) < len")
    case False
    then show ?thesis using ol g1 s by (simp add: fat_read_entry_def Let_def flip: sector_def within_def)
  next
    case True
    then have "512 - within < len" by simp
    then have "unat sector + 1 < unat (fat_sectors fat)" using e off w by linarith
    then have s2: "sector + 1 < fat_sectors fat1"
      using unat_lt32 [of "fat_sectors fat"] sec by (simp add: word_less_nat_alt unat_word_ariths)
    have "volume_ok fat1" "512 * volume_end fat1 \<le> capacity" using v cap table_cong(4,6) [OF C1(1)] by simp_all
    then obtain d2 fat2 where "fat_cache_get dev fat1 (sector + 1) = (Inr d2, fat2)" using cache_get_full s2 by blast
    then show ?thesis using ol g1 s s2 sec True
      by (simp add: fat_read_entry_def Let_def not_le [symmetric] flip: sector_def within_def)
  qed
qed

end

section \<open>Cluster chains\<close>

text \<open>One step and \<open>n\<close> steps along a chain of the table.\<close>

definition table_next :: "(nat \<Rightarrow> u8) \<Rightarrow> fat \<Rightarrow> u32 \<Rightarrow> u32 fat_result" where
  "table_next img fat c =
     (if c < 2 \<or> max_cluster fat < c then Failed EIO
      else let e = table_entry img fat c
        in if end_marker (ftype fat) \<le> e then FatEnd
           else if e < 2 \<or> max_cluster fat < e then Failed EIO else Found e)"

fun nth_cluster :: "(nat \<Rightarrow> u8) \<Rightarrow> fat \<Rightarrow> nat \<Rightarrow> u32 \<Rightarrow> u32 fat_result" where
  "nth_cluster img fat 0 c = Found c"
| "nth_cluster img fat (Suc n) c =
     (case table_next img fat c of Found c' \<Rightarrow> nth_cluster img fat n c' | r \<Rightarrow> r)"

text \<open>The hint is a true statement about the table.\<close>

definition hint_ok :: "(nat \<Rightarrow> u8) \<Rightarrow> fat \<Rightarrow> bool" where
  "hint_ok img fat \<longleftrightarrow> (hint_first_cluster fat \<noteq> 0 \<longrightarrow>
     nth_cluster img fat (unat (hint_index fat)) (hint_first_cluster fat) = Found (hint_cluster fat))"

definition fat_ok :: "(nat \<Rightarrow> u8) \<Rightarrow> fat \<Rightarrow> bool" where
  "fat_ok img fat \<longleftrightarrow> cache_ok img fat \<and> volume_ok fat \<and> hint_ok img fat"

lemma cluster_chain_cong:
  assumes "same_volume fat fat'"
  shows "table_next img fat' = table_next img fat" "nth_cluster img fat' = nth_cluster img fat"
proof -
  show n: "table_next img fat' = table_next img fat"
  proof
    fix c
    have "max_cluster fat' = max_cluster fat" "ftype fat' = ftype fat" using assms by (simp_all add: same_volume_def)
    then show "table_next img fat' c = table_next img fat c"
      unfolding table_next_def table_cong(3) [OF assms] by presburger
  qed
  have "nth_cluster img fat' k c = nth_cluster img fat k c" for k c
    by (induction k arbitrary: c) (simp_all add: n split: fat_result.split)
  then show "nth_cluster img fat' = nth_cluster img fat" by (simp add: fun_eq_iff)
qed

lemma nth_cluster_add:
  "nth_cluster img fat m c = Found c' \<Longrightarrow> nth_cluster img fat (m + n) c = nth_cluster img fat n c'"
  by (induction m arbitrary: c) (auto split: fat_result.splits)

lemma hint_cong: "\<lbrakk>same_volume fat fat'; same_hint fat fat'\<rbrakk> \<Longrightarrow> hint_ok img fat' = hint_ok img fat"
  using cluster_chain_cong(2) [of fat fat'] by (simp add: hint_ok_def same_hint_def)

lemma fat_ok_cong:
  "\<lbrakk>same_volume fat fat'; same_hint fat fat'; cache_ok img fat'; fat_ok img fat\<rbrakk> \<Longrightarrow> fat_ok img fat'"
  using hint_cong [of fat fat'] table_cong(4) [of fat fat'] by (simp add: fat_ok_def)

text \<open>An answer of the driver is right, or an error of the disk has come up.\<close>

definition sound_result :: "'a fat_result \<Rightarrow> 'a fat_result \<Rightarrow> bool" where
  "sound_result r r' \<longleftrightarrow> r = r' \<or> (\<exists>e. r = Failed e)"

text \<open>Setting a true hint, and what \<open>fat_cluster_at\<close> makes of one.\<close>

lemma fat_set_hint_ok:
  assumes "fat_ok img fat" "nth_cluster img fat (unat index) first = Found c"
  shows "fat_ok img (fat_set_hint fat first index c) \<and> same_volume fat (fat_set_hint fat first index c)"
proof -
  have sv: "same_volume fat (fat_set_hint fat first index c)" by (simp add: fat_set_hint_def same_volume_def)
  have "hint_ok img (fat_set_hint fat first index c)"
    using assms(2) cluster_chain_cong(2) [OF sv] by (simp add: hint_ok_def fat_set_hint_def)
  moreover have "cache_ok img (fat_set_hint fat first index c)"
    using assms(1) table_cong(5) [OF sv] by (simp add: fat_ok_def cache_ok_def fat_set_hint_def)
  ultimately show ?thesis using assms(1) table_cong(4) [OF sv] sv by (simp add: fat_ok_def)
qed

lemma cluster_at_start:
  assumes "fat_ok img fat" "first \<noteq> 0"
  shows "\<exists>c n. nth_cluster img fat (unat index) first = nth_cluster img fat n c \<and>
    fat_cluster_at dev fat first index =
      (case walk_chain dev n fat c of (Found c, fat) \<Rightarrow> (Found c, fat_set_hint fat first index c) | r \<Rightarrow> r)"
proof (cases "hint_first_cluster fat = first \<and> hint_index fat \<le> index")
  case True
  then have "nth_cluster img fat (unat (hint_index fat)) first = Found (hint_cluster fat)"
    and le: "unat (hint_index fat) \<le> unat index"
    using assms by (auto simp: fat_ok_def hint_ok_def word_le_nat_alt)
  from nth_cluster_add [OF this(1), of "unat index - unat (hint_index fat)"] le True show ?thesis
    by (intro exI [of _ "hint_cluster fat"] exI [of _ "unat index - unat (hint_index fat)"])
      (simp add: fat_cluster_at_def)
next
  case False
  then show ?thesis
    by (intro exI [of _ first] exI [of _ "unat index"]) (auto simp: fat_cluster_at_def Let_def)
qed

context faithful_disk
begin

lemma next_cluster_spec:
  assumes ok: "fat_ok img fat" and r: "fat_next_cluster dev fat c = (r, fat')"
  shows "same_volume fat fat' \<and> same_hint fat fat' \<and> fat_ok img fat' \<and> sound_result r (table_next img fat c)"
proof (cases "c < 2 \<or> max_cluster fat < c")
  case True
  then show ?thesis using r ok by (auto simp: fat_next_cluster_def sound_result_def)
next
  case False
  obtain r1 fat1 where r1: "fat_read_entry dev fat c = (r1, fat1)" by (cases "fat_read_entry dev fat c")
  have cv: "cache_ok img fat" "volume_ok fat" using ok by (simp_all add: fat_ok_def)
  note S = read_entry_spec [OF cv r1]
  have fat': "fat' = fat1" using r r1 False by (auto simp: fat_next_cluster_def split: sum.splits if_splits)
  have "max_cluster fat1 = max_cluster fat" "ftype fat1 = ftype fat" using S by (simp_all add: same_volume_def)
  then have "sound_result r (table_next img fat c)"
    using r r1 False S
    by (auto simp: fat_next_cluster_def sound_result_def table_next_def Let_def split: sum.splits if_splits)
  then show ?thesis using S fat_ok_cong [of fat fat1] ok fat' by blast
qed

lemma walk_chain_spec:
  assumes "fat_ok img fat" "walk_chain dev n fat c = (r, fat')"
  shows "same_volume fat fat' \<and> same_hint fat fat' \<and> fat_ok img fat' \<and> sound_result r (nth_cluster img fat n c)"
  using assms
proof (induction n arbitrary: fat c)
  case 0
  then show ?case by (simp add: sound_result_def)
next
  case (Suc n)
  obtain r1 fat1 where r1: "fat_next_cluster dev fat c = (r1, fat1)" by (cases "fat_next_cluster dev fat c")
  note S = next_cluster_spec [OF Suc.prems(1) r1]
  show ?case
  proof (cases r1)
    case (Found c')
    then have w: "walk_chain dev n fat1 c' = (r, fat')" using Suc.prems(2) r1 by simp
    have ok1: "fat_ok img fat1" and nx: "table_next img fat c = Found c'" using S Found by (auto simp: sound_result_def)
    from Suc.IH [OF ok1 w] S nx cluster_chain_cong(2) [of fat fat1] show ?thesis by (auto intro: same_volume_trans)
  qed (use Suc.prems(2) r1 S in \<open>auto simp: sound_result_def\<close>)
qed

text \<open>The hint and the cache do not change what is found.\<close>

lemma cluster_at_spec:
  assumes ok: "fat_ok img fat" and r: "fat_cluster_at dev fat first index = (r, fat')" and f: "first \<noteq> 0"
  shows "same_volume fat fat' \<and> fat_ok img fat' \<and> sound_result r (nth_cluster img fat (unat index) first)"
proof -
  obtain c n where n: "nth_cluster img fat (unat index) first = nth_cluster img fat n c"
    and at: "fat_cluster_at dev fat first index =
      (case walk_chain dev n fat c of (Found c, fat) \<Rightarrow> (Found c, fat_set_hint fat first index c) | r \<Rightarrow> r)"
    using cluster_at_start [OF ok f] by blast
  obtain r1 fat1 where r1: "walk_chain dev n fat c = (r1, fat1)" by (cases "walk_chain dev n fat c")
  note S = walk_chain_spec [OF ok r1]
  show ?thesis
  proof (cases r1)
    case (Found c')
    then have e: "r = Found c'" "fat' = fat_set_hint fat1 first index c'" using r r1 at by simp_all
    have "nth_cluster img fat1 (unat index) first = Found c'"
      using S Found n cluster_chain_cong(2) [of fat fat1] by (simp add: sound_result_def)
    then have "fat_ok img fat'" "same_volume fat1 fat'" unfolding e using S fat_set_hint_ok by blast+
    then show ?thesis using S n e Found by (auto simp: sound_result_def intro: same_volume_trans)
  qed (use r r1 at S n in \<open>auto simp: sound_result_def\<close>)
qed

end

context reliable_disk
begin

lemma next_cluster_full:
  assumes ok: "fat_ok img fat" and cap: "512 * volume_end fat \<le> capacity"
    and r: "fat_next_cluster dev fat c = (r, fat')"
  shows "r = table_next img fat c"
proof (cases "c < 2 \<or> max_cluster fat < c")
  case True
  then show ?thesis using r by (simp add: fat_next_cluster_def table_next_def)
next
  case False
  have cv: "cache_ok img fat" "volume_ok fat" using ok by (simp_all add: fat_ok_def)
  obtain w fat1 where e: "fat_read_entry dev fat c = (Inr w, fat1)" using read_entry_full [OF cv _ cap] False by (metis not_le)
  note S = read_entry_spec [OF cv e]
  then have "w = table_entry img fat c" "max_cluster fat1 = max_cluster fat" "ftype fat1 = ftype fat"
    by (simp_all add: same_volume_def)
  then show ?thesis using r e False by (auto simp: fat_next_cluster_def table_next_def Let_def split: if_splits)
qed

lemma walk_chain_full:
  assumes "fat_ok img fat" "512 * volume_end fat \<le> capacity" "walk_chain dev n fat c = (r, fat')"
  shows "r = nth_cluster img fat n c"
  using assms
proof (induction n arbitrary: fat c)
  case (Suc n)
  obtain r1 fat1 where r1: "fat_next_cluster dev fat c = (r1, fat1)" by (cases "fat_next_cluster dev fat c")
  note S = next_cluster_spec [OF Suc.prems(1) r1] and F = next_cluster_full [OF Suc.prems(1,2) r1]
  show ?case
  proof (cases r1)
    case (Found c')
    then have w: "walk_chain dev n fat1 c' = (r, fat')" using Suc.prems(3) r1 by simp
    have "fat_ok img fat1" "512 * volume_end fat1 \<le> capacity" using S Suc.prems(2) table_cong(6) [of fat fat1] by simp_all
    from Suc.IH [OF this w] have "r = nth_cluster img fat n c'" using S cluster_chain_cong(2) [of fat fat1] by simp
    moreover have "table_next img fat c = Found c'" using F Found by simp
    ultimately show ?thesis by simp
  next
    case FatEnd
    then have "table_next img fat c = FatEnd" "r = FatEnd" using Suc.prems(3) r1 F by auto
    then show ?thesis by simp
  next
    case (Failed e)
    then have "table_next img fat c = Failed e" "r = Failed e" using Suc.prems(3) r1 F by auto
    then show ?thesis by simp
  qed
qed simp

lemma cluster_at_full:
  assumes ok: "fat_ok img fat" and cap: "512 * volume_end fat \<le> capacity"
    and r: "fat_cluster_at dev fat first index = (r, fat')" and f: "first \<noteq> 0"
  shows "r = nth_cluster img fat (unat index) first"
proof -
  obtain c n where n: "nth_cluster img fat (unat index) first = nth_cluster img fat n c"
    and at: "fat_cluster_at dev fat first index =
      (case walk_chain dev n fat c of (Found c, fat) \<Rightarrow> (Found c, fat_set_hint fat first index c) | r \<Rightarrow> r)"
    using cluster_at_start [OF ok f] by blast
  obtain r1 fat1 where r1: "walk_chain dev n fat c = (r1, fat1)" by (cases "walk_chain dev n fat c")
  have "r1 = nth_cluster img fat (unat index) first" using walk_chain_full [OF ok cap r1] n by simp
  moreover have "r = r1" using r r1 at by (auto split: fat_result.splits)
  ultimately show ?thesis by simp
qed

end

section \<open>Properties\<close>

definition faithful :: "disk \<Rightarrow> (nat \<Rightarrow> u8) \<Rightarrow> bool" where
  "faithful dev img \<longleftrightarrow> (\<forall>off len st bs. dev off len = (st, bs) \<longrightarrow>
     length bs \<le> unat len \<and> bs = map (\<lambda>i. img (unat off + i)) [0..<length bs])"

definition reliable :: "disk \<Rightarrow> (nat \<Rightarrow> u8) \<Rightarrow> nat \<Rightarrow> bool" where
  "reliable dev img cap \<longleftrightarrow> faithful dev img \<and> (\<forall>off len. unat off + unat len \<le> cap \<longrightarrow>
     dev off len = (None, map (\<lambda>i. img (unat off + i)) [0..<unat len]))"

lemma disk_locales:
  "faithful dev img \<Longrightarrow> faithful_disk dev img"
  "reliable dev img cap \<Longrightarrow> reliable_disk dev img cap"
  "reliable dev img cap \<Longrightarrow> faithful_disk dev img"
  by (unfold_locales; auto simp: faithful_def reliable_def)+

lemma image_disk_reliable: "reliable (image_disk img cap) img cap" "faithful (image_disk img cap) img"
  by (auto simp: reliable_def faithful_def image_disk_def)

text \<open>
  C36. Equivalence of the optimised lookup with the table: whatever the two cached sectors and the seek
  hint hold, \<open>fat_cluster_at\<close> finds the cluster that following the chain from its start in the table
  on the disk finds (or its end, or that it is corrupt), unless the disk fails; on a disk that does not
  fail there is no other answer. The cache and the hint stay true.
\<close>

theorem fat_cluster_at_equivalence:
  assumes "faithful dev img" "fat_ok img fat" "first \<noteq> 0" "fat_cluster_at dev fat first index = (r, fat')"
  shows "fat_ok img fat' \<and> same_volume fat fat' \<and>
    (r = nth_cluster img fat (unat index) first \<or> (\<exists>e. r = Failed e)) \<and>
    (reliable dev img cap \<and> 512 * volume_end fat \<le> cap \<longrightarrow> r = nth_cluster img fat (unat index) first)"
  using faithful_disk.cluster_at_spec [OF disk_locales(1) [OF assms(1)] assms(2,4,3)]
    reliable_disk.cluster_at_full [OF disk_locales(2) assms(2) _ assms(4,3)]
  by (auto simp: sound_result_def)

lemma upt_0_2: "[0..<2] = [0, 1]"
  by (simp add: numeral_2_eq_2)

text \<open>A floppy-like volume: the file at cluster 2 goes on at 5 and ends there.\<close>

definition demo_fat :: fat where
  "demo_fat = \<lparr>ftype = FAT_TYPE_12, sectors_per_cluster = 1, cluster_bytes = 512, root_cluster = 0,
     root_dir_start_sector = 2, root_dir_sectors = 1, data_start_sector = 3, max_cluster = 9,
     fat_start_sector = 1, fat_sectors = 1,
     slot0 = \<lparr>valid = False, csector = 0, cdata = []\<rparr>, slot1 = \<lparr>valid = False, csector = 0, cdata = []\<rparr>,
     cache_mru = 0, hint_first_cluster = 0, hint_index = 0, hint_cluster = 0\<rparr>"

definition demo_image :: "nat \<Rightarrow> u8" where
  "demo_image = (\<lambda>_. 0)(515 := 5, 519 := 0xF0, 520 := 0xFF, 3072 := 104, 3073 := 105)"

lemma demo_fat_ok: "fat_ok img demo_fat"
  by (simp add: fat_ok_def cache_ok_def volume_ok_def hint_ok_def slot_ok_def demo_fat_def entry_end_def
      volume_end_def end_marker_def)

theorem fat_cluster_at_equivalence_witness:
  "fst (fat_cluster_at (image_disk demo_image 8192) demo_fat 2 1) = Found 5"
proof -
  obtain r fat' where r: "fat_cluster_at (image_disk demo_image 8192) demo_fat 2 1 = (r, fat')"
    by (cases "fat_cluster_at (image_disk demo_image 8192) demo_fat 2 1")
  have "r = nth_cluster demo_image demo_fat (unat (1 :: u32)) 2"
    using fat_cluster_at_equivalence [OF image_disk_reliable(2) demo_fat_ok _ r, of 8192]
    by (simp add: image_disk_reliable volume_end_def demo_fat_def)
  also have "\<dots> = Found 5"
    by (simp add: table_next_def table_entry_def entry_position_def entry_value_def table_byte_def demo_fat_def
        demo_image_def end_marker_def of_le16_def upt_0_2)
  finally show ?thesis using r by simp
qed

text \<open>
  Bounds of packed entries: an entry of a FAT12 table is below 4096, and its bits are the bits
  \<open>12 * c\<close> to \<open>12 * c + 11\<close> of the table read as a string of bits, also where they lie in two sectors.
\<close>

lemma fat12_entry_bits:
  assumes "faithful dev img" "fat_ok img fat" "ftype fat = FAT_TYPE_12" "c \<le> max_cluster fat"
    "fat_read_entry dev fat c = (Inr w, fat')"
  shows "w < 0x1000 \<and>
    (\<forall>i < 12. bit w i = bit (table_byte img fat ((12 * unat c + i) div 8)) ((12 * unat c + i) mod 8))"
proof -
  let ?b = "\<lambda>i. table_byte img fat i"
  have cv: "cache_ok img fat" "volume_ok fat" using assms(2) by (simp_all add: fat_ok_def)
  have c: "unat c < 2 ^ 28" using volume_okD(3) [OF cv(2)] assms(4) by (simp add: word_le_nat_alt)
  have off: "unat (c + c div 2) = unat c + unat c div 2" using c by (simp add: unat_word_ariths unat_div_distrib)
  have w: "w = table_entry img fat c"
    using faithful_disk.read_entry_spec [OF disk_locales(1) [OF assms(1)] cv assms(5)] by simp
  define b0 b1 where "b0 = table_byte img fat (unat c + unat c div 2)" and "b1 = table_byte img fat (unat c + unat c div 2 + 1)"
  define raw :: u32 where "raw = ucast b0 OR push_bit 8 (ucast b1)"
  have w': "w = (if bit c 0 then drop_bit 4 raw else raw AND 0xFFF)"
    by (simp add: w table_entry_def assms(3) entry_position_def entry_value_def off raw_def b0_def b1_def upt_0_2)
  have raw: "bit raw k = (if k < 8 then bit b0 k else if k < 16 then bit b1 (k - 8) else False)" for k
    using bit_imp_le_length [of b0 k] bit_imp_le_length [of b1 "k - 8"] by (auto simp: raw_def bit_simps)
  have mask: "(0xFFF :: u32) = mask 12" by (simp add: mask_eq_exp_minus_1)
  have bits: "bit w i = (i < 12 \<and> bit raw (if bit c 0 then i + 4 else i))" for i
    using raw [of "i + 4"] by (auto simp: w' mask bit_simps add.commute split: if_splits)
  have "take_bit 12 w = w" by (rule bit_word_eqI) (simp add: bits bit_simps)
  then have "unat w < 2 ^ 12" by (metis take_bit_nat_less_exp unsigned_take_bit_eq)
  then have "w < 0x1000" by (simp add: word_less_nat_alt)
  moreover have "bit w i = bit (?b ((12 * unat c + i) div 8)) ((12 * unat c + i) mod 8)" if i: "i < 12" for i
  proof -
    define j where "j = (if bit c 0 then i + 4 else i)"
    have e: "12 * unat c + i = 8 * (unat c + unat c div 2) + j"
    proof (cases "bit c 0")
      case True
      then have "odd (unat c)" by (simp flip: bit_0 add: bit_unsigned_iff)
      then show ?thesis using True by (auto simp: j_def elim: oddE)
    next
      case False
      then have "\<not> bit (unat c) 0" by (simp add: bit_unsigned_iff)
      then have "even (unat c)" by (simp add: bit_0)
      then show ?thesis using False by (auto simp: j_def elim: evenE)
    qed
    have dm: "(12 * unat c + i) div 8 = unat c + unat c div 2 + j div 8" "(12 * unat c + i) mod 8 = j mod 8"
      unfolding e by (simp_all only: mod_mult_self4) simp
    have j: "j < 16" using i by (simp add: j_def)
    have w: "bit w i = bit raw j" using i unfolding bits j_def by simp
    show ?thesis
    proof (cases "j < 8")
      case True
      then show ?thesis using raw [of j] w unfolding dm by (simp add: b0_def)
    next
      case False
      then have "j div 8 = 1" "j mod 8 = j - 8" using j by (simp_all add: div_nat_eqI mod_nat_eqI)
      then show ?thesis using False j raw [of j] w unfolding dm by (simp add: b1_def)
    qed
  qed
  ultimately show ?thesis by simp
qed

lemma fat12_entry_bits_witness:
  "\<exists>w fat'. fat_read_entry (image_disk demo_image 8192) demo_fat 5 = (Inr w, fat') \<and> w = 0xFFF \<and> w < 0x1000"
proof -
  have ok: "cache_ok demo_image demo_fat" "volume_ok demo_fat" using demo_fat_ok [of demo_image] by (simp_all add: fat_ok_def)
  have five: "(5 :: u32) \<le> max_cluster demo_fat" "512 * volume_end demo_fat \<le> 8192" "ftype demo_fat = FAT_TYPE_12"
    by (simp_all add: volume_end_def demo_fat_def)
  obtain w fat' where r: "fat_read_entry (image_disk demo_image 8192) demo_fat 5 = (Inr w, fat')"
    using reliable_disk.read_entry_full [OF disk_locales(2) [OF image_disk_reliable(1)] ok five(1,2)] by blast
  have "w = table_entry demo_image demo_fat 5"
    using faithful_disk.read_entry_spec [OF disk_locales(1) [OF image_disk_reliable(2)] ok r] by simp
  moreover have "table_entry demo_image demo_fat 5 = 0xFFF" by code_simp
  moreover have "w < 0x1000"
    by (rule conjunct1 [OF fat12_entry_bits [OF image_disk_reliable(2) demo_fat_ok five(3,1) r]])
  ultimately show ?thesis using r by simp
qed

end
