(* ===== verification/FatRead.thy ===== *)
theory FatRead
  imports FatTableProps
begin

unbundle bit_operations_syntax

text \<open>
  Reading contiguous data from the disk into memory: \<^verbatim>\<open>fat_read_linear\<close> of
  \<^verbatim>\<open>kernel/fs/fat/fat_file.c\<close>, and what a transfer has delivered.
\<close>

section \<open>Transfers into memory\<close>

text \<open>The transfer after \<open>n\<close> bytes, and when there is room for them.\<close>

definition skip :: "nat \<Rightarrow> transfer \<Rightarrow> transfer" where
  "skip n io = io\<lparr>length_remaining := length_remaining io - of_nat n, offset := offset io + of_nat n,
     address := address io + of_nat n\<rparr>"

definition room :: "transfer \<Rightarrow> nat \<Rightarrow> bool" where
  "room io n \<longleftrightarrow> direction io = TRANSFER_READ \<and> address io \<noteq> 0 \<and> unat (address io) + n < 2 ^ 32 \<and>
     n \<le> unat (length_remaining io) \<and>
     (ttype io = TRANSFER_USERMODE \<longrightarrow> user_area (address io) \<and> user_area (address io + of_nat n))"

lemma skip_0 [simp]: "skip 0 io = io"
  by (simp add: skip_def)

lemma skip_skip [simp]: "skip a (skip b io) = skip (b + a) io"
  by (cases io) (simp add: skip_def algebra_simps)

lemma skip_simps [simp]:
  "address (skip n io) = address io + of_nat n" "direction (skip n io) = direction io" "ttype (skip n io) = ttype io"
  "offset (skip n io) = offset io + of_nat n" "length_remaining (skip n io) = length_remaining io - of_nat n"
  by (simp_all add: skip_def)

lemma user_area_between:
  assumes "user_area a" "user_area (a + of_nat n)" "unat a + n < 2 ^ 32" "k \<le> n"
  shows "user_area (a + of_nat k)"
proof -
  have "unat (a + of_nat k) = unat a + k" "unat (a + of_nat n) = unat a + n"
    using assms(3,4) by (simp_all add: unat_word_ariths unat_of_nat)
  then show ?thesis using assms by (auto simp: user_area_def word_le_nat_alt word_less_nat_alt)
qed

lemma room_less: "\<lbrakk>room io n; k \<le> n\<rbrakk> \<Longrightarrow> room io k"
  using user_area_between [of "address io" n k] by (auto simp: room_def)

lemma room_skip:
  assumes "room io n" "k \<le> n"
  shows "room (skip k io) (n - k)"
proof -
  have a: "unat (address io + of_nat k) = unat (address io) + k"
    using assms by (simp add: room_def unat_word_ariths unat_of_nat)
  have k: "unat (of_nat k :: u64) = k" using assms by (simp add: room_def unat_of_nat)
  have "of_nat k \<le> length_remaining io" using assms k by (simp add: room_def word_le_nat_alt)
  then have l: "unat (length_remaining io - of_nat k) = unat (length_remaining io) - k" using k by (simp add: unat_sub)
  have "address io + of_nat k \<noteq> 0" using a assms(1) by (auto simp: room_def unat_gt_0)
  moreover have "of_nat k + of_nat (n - k) = (of_nat n :: u32)" using assms(2) by (simp flip: of_nat_add)
  ultimately show ?thesis using assms a l user_area_between [of "address io" n k]
    by (auto simp: room_def add.assoc)
qed

lemma PerformTransfer_read:
  assumes "room io n" "n \<le> length bs"
  shows "PerformTransfer bs io (of_nat n) m = Some (None, bs, skip n io, store_bytes (address io) (take n bs) m)"
proof -
  have n: "unat (of_nat n :: u32) = n" "unat (of_nat n :: u64) = n" using assms(1) by (simp_all add: room_def unat_of_nat)
  have "of_nat n \<le> length_remaining io" using assms(1) n by (simp add: room_def word_le_nat_alt)
  then have mn: "min (of_nat n) (length_remaining io) = of_nat n" by simp
  have uc: "ucast (of_nat n :: u64) = (of_nat n :: u32)" "ucast (of_nat n :: u32) = (of_nat n :: u64)"
    using assms(1) by (simp_all add: room_def unsigned_of_nat take_bit_nat_eq_self)
  show ?thesis
  proof (cases "n = 0")
    case True
    then show ?thesis using assms(1) by (simp add: PerformTransfer_def room_def)
  next
    case False
    then have nz: "(of_nat n :: u32) \<noteq> 0" using n by auto
    have v: "ValidateCopy (address io) (of_nat n) = None" if "ttype io = TRANSFER_USERMODE"
    proof -
      have "unat (address io + of_nat n) = unat (address io) + n"
        using assms(1) by (simp add: room_def unat_word_ariths unat_of_nat)
      then have "address io \<le> address io + of_nat n" by (simp add: word_le_nat_alt)
      then show ?thesis using assms(1) that
        by (auto simp: ValidateCopy_def room_def user_area_def Let_def not_le not_less)
    qed
    have "advance (of_nat n) io = skip n io" by (cases io) (simp add: advance_def skip_def uc)
    then show ?thesis using assms mn uc n nz v
      by (cases "ttype io") (auto simp: PerformTransfer_def room_def CopyOutOfKernel_def Let_def)
  qed
qed

text \<open>What a read from the disk does to memory, whether it fails or not.\<close>

definition data_at :: "(nat \<Rightarrow> u8) \<Rightarrow> nat \<Rightarrow> nat \<Rightarrow> u8 list" where
  "data_at img p n = map (\<lambda>i. img (p + i)) [0..<n]"

lemma length_data_at [simp]: "length (data_at img p n) = n"
  by (simp add: data_at_def)

lemma nth_data_at [simp]: "i < n \<Longrightarrow> data_at img p n ! i = img (p + i)"
  by (simp add: data_at_def)

lemma take_data_at [simp]: "take k (data_at img p n) = data_at img p (min k n)"
  by (simp add: data_at_def take_map take_upt min_def)

lemma drop_data_at [simp]: "drop k (data_at img p n) = data_at img (p + k) (n - k)"
  by (rule nth_equalityI) (simp_all add: add.assoc)

lemma data_at_append: "data_at img p a @ data_at img (p + a) b = data_at img p (a + b)"
  by (rule nth_equalityI) (auto simp: nth_append)

lemma store_data_at:
  assumes "k + n < 2 ^ 32"
  shows "store_bytes (a + of_nat k) (data_at img (p + k) n) (store_bytes a (data_at img p k) m) =
    store_bytes a (data_at img p (k + n)) m"
  using store_bytes_append [of "data_at img p k" "data_at img (p + k) n" a m] assms
  by (simp add: data_at_append)

text \<open>The disk serves every request on its first \<open>cap\<close> bytes.\<close>

definition never_fails :: "disk \<Rightarrow> nat \<Rightarrow> bool" where
  "never_fails dev cap \<longleftrightarrow> (\<forall>off len. unat off + unat len \<le> cap \<longrightarrow>
     fst (dev off len) = None \<and> length (snd (dev off len)) = unat len)"

lemma reliable_never_fails: "reliable dev img cap \<Longrightarrow> c \<le> cap \<Longrightarrow> never_fails dev c"
  by (simp add: reliable_def never_fails_def)

context faithful_disk
begin

lemma disk_transfer_spec:
  assumes "room io (unat (length_remaining io))"
    "sure \<longrightarrow> never_fails dev cap \<and> unat (offset io) + unat (length_remaining io) \<le> cap"
  shows "\<exists>res io' k. fat_disk_transfer dev io m =
      Some (res, io', store_bytes (address io) (data_at img (unat (offset io)) k) m) \<and>
    k \<le> unat (length_remaining io) \<and> io' = (if res = None then skip k io else io) \<and>
    (sure \<longrightarrow> res = None \<and> k = unat (length_remaining io))"
proof -
  obtain st bs where d: "dev (offset io) (length_remaining io) = (st, bs)" by fastforce
  from dev_data [OF d] have k: "length bs \<le> unat (length_remaining io)" and bs: "bs = data_at img (unat (offset io)) (length bs)"
    by (simp_all add: data_at_def)
  have "PerformTransfer bs io (of_nat (length bs)) m = Some (None, bs, skip (length bs) io, store_bytes (address io) bs m)"
    using PerformTransfer_read [OF room_less [OF assms(1) k], of bs m] by simp
  moreover have "st = None \<and> length bs = unat (length_remaining io)" if sure
    using assms(2) that d by (force simp: never_fails_def)
  ultimately show ?thesis using d k bs by (auto simp: fat_disk_transfer_def intro!: exI [of _ "length bs"])
qed

end

section \<open>Contiguous data\<close>

lemma fat_disk_transfer_progress:
  assumes "fat_disk_transfer dev io m = Some (None, io', m')"
  shows "length_remaining io' \<le> length_remaining io"
proof -
  have "length_remaining io - ucast (ucast (min l (length_remaining io)) :: u32) \<le> length_remaining io" for l
  proof -
    have "unat (ucast (ucast (min l (length_remaining io)) :: u32) :: u64) \<le> unat (min l (length_remaining io))"
      by (simp add: unsigned_ucast_eq) (simp only: unsigned_take_bit_eq take_bit_nat_less_eq_self)
    also have "\<dots> \<le> unat (length_remaining io)" by (simp add: word_le_nat_alt [symmetric])
    finally show ?thesis by (simp add: word_le_nat_alt unat_sub)
  qed
  then show ?thesis using assms
    by (auto simp: fat_disk_transfer_def PerformTransfer_def advance_def Let_def
        split: prod.splits option.splits if_splits transfer_type.splits transfer_direction.splits sum.splits)
qed

lemma minus_less_word:
  fixes n k :: u64
  assumes "k \<noteq> 0" "k \<le> n"
  shows "unat (n - k) < unat n"
  using assms by (simp add: unat_sub word_le_nat_alt) (metis diff_less less_le_trans not_gr_zero unat_eq_zero)

function fat_read_linear ::
    "disk \<Rightarrow> u64 \<Rightarrow> u64 \<Rightarrow> transfer \<Rightarrow> mem \<Rightarrow> (errno option \<times> transfer \<times> mem) option" where
  "fat_read_linear dev disk_byte n io m =
     (if n = 0 then Some (None, io, m)
      else
        (let sector_offset = disk_byte mod 512
         in if sector_offset = 0 \<and> 512 \<le> n then
              (let len = n - n mod 512
               in case fat_disk_transfer dev (io\<lparr>offset := disk_byte, length_remaining := len\<rparr>) m of
                    None \<Rightarrow> None
                  | Some (Some e, _, m) \<Rightarrow> Some (Some e, io, m)
                  | Some (None, disk_io, m) \<Rightarrow>
                      (let transferred = len - length_remaining disk_io
                       in if transferred = 0 then Some (Some EIO, io, m)
                          else fat_read_linear dev (disk_byte + transferred) (n - transferred)
                            (io\<lparr>offset := offset io + transferred,
                               length_remaining := length_remaining io - transferred,
                               address := address io + ucast transferred\<rparr>) m))
            else
              (case fat_disk_read dev FAT_SECTOR_SIZE (disk_byte - sector_offset) of
                 Inl e \<Rightarrow> Some (Some e, io, m)
               | Inr sector_buffer \<Rightarrow>
                   (let transfer_size = min (512 - sector_offset) n
                    in case PerformTransfer (drop (unat sector_offset) sector_buffer) io transfer_size m of
                         None \<Rightarrow> None
                       | Some (Some e, _, io, m) \<Rightarrow> Some (Some e, io, m)
                       | Some (None, _, io, m) \<Rightarrow>
                           fat_read_linear dev (disk_byte + transfer_size) (n - transfer_size) io m))))"
  by pat_completeness auto

termination
proof (relation "measure (\<lambda>(_, _, n, _, _). unat n)", goal_cases)
  case (2 dev disk_byte n io m so len r1 r2 st disk_io m' transferred)
  then have "length_remaining disk_io \<le> len" using fat_disk_transfer_progress by fastforce
  then have "transferred \<le> len" using 2 by (simp add: word_le_nat_alt unat_sub)
  moreover have "len \<le> n" using 2 by (simp add: word_le_nat_alt unat_sub unat_mod_distrib)
  ultimately show ?case using minus_less_word [of transferred n] 2 by simp
next
  case (3 dev disk_byte n io m so buf ts)
  have "512 - so \<noteq> 0"
  proof -
    have "unat so < 512" using 3 by (simp add: unat_mod_distrib)
    then show ?thesis by auto
  qed
  then show ?case using minus_less_word [of ts n] 3 by (simp add: min_def)
qed simp

declare fat_read_linear.simps [simp del]

text \<open>
  \<open>src p\<close> is the byte at position \<open>p\<close> of what is read, if there is one. Whatever the disk does, a prefix
  of the data has been stored and the transfer has moved over no more than that; without failure it
  has moved over all of it. \<open>sure\<close> says that there is no failure.
\<close>

definition delivers :: "bool \<Rightarrow> (nat \<Rightarrow> u8 option) \<Rightarrow> nat \<Rightarrow> nat \<Rightarrow> transfer \<Rightarrow> mem \<Rightarrow>
    errno option \<times> transfer \<times> mem \<Rightarrow> bool" where
  "delivers sure src p n io m r \<longleftrightarrow> (\<exists>res j bs. r = (res, skip j io, store_bytes (address io) bs m) \<and>
     (\<forall>i < length bs. src (p + i) = Some (bs ! i)) \<and> j \<le> length bs \<and> length bs \<le> n \<and>
     (res = None \<longrightarrow> j = n) \<and> (sure \<longrightarrow> res = None))"

lemma delivers_step:
  assumes "delivers sure src (p + a) (n - a) (skip a io) (store_bytes (address io) bs m) r"
    "length bs = a" "\<forall>i < a. src (p + i) = Some (bs ! i)" "a \<le> n" "n < 2 ^ 32"
  shows "delivers sure src p n io m r"
proof -
  obtain res j cs where r: "r = (res, skip (a + j) io, store_bytes (address io + of_nat a) cs (store_bytes (address io) bs m))"
    "\<forall>i < length cs. src (p + a + i) = Some (cs ! i)" "j \<le> length cs" "length cs \<le> n - a"
    "res = None \<longrightarrow> j = n - a" "sure \<longrightarrow> res = None"
    using assms(1) by (auto simp: delivers_def)
  have "r = (res, skip (a + j) io, store_bytes (address io) (bs @ cs) m)"
    using r(1,4) store_bytes_append [of bs cs "address io" m] assms(2,4,5) by simp
  moreover have "src (p + i) = Some ((bs @ cs) ! i)" if "i < a + length cs" for i
    using that r(2) [rule_format, of "i - a"] assms(2,3) by (cases "i < a") (auto simp: nth_append)
  ultimately show ?thesis unfolding delivers_def
    using r(3-) assms(2,4) by (intro exI [of _ res] exI [of _ "a + j"] exI [of _ "bs @ cs"]) auto
qed

lemma delivers_fail:
  assumes "\<not> sure" "length bs \<le> n" "\<forall>i < length bs. src (p + i) = Some (bs ! i)"
  shows "delivers sure src p n io m (Some e, io, store_bytes (address io) bs m)"
  unfolding delivers_def using assms by (intro exI [of _ "Some e"] exI [of _ 0] exI [of _ bs]) simp

lemma delivers_fail0: "\<not> sure \<Longrightarrow> delivers sure src p n io m (Some e, io, m)"
  using delivers_fail [of sure "[]" n src p io m e] by simp

lemma delivers_none: "delivers sure src p 0 io m (None, io, m)"
  unfolding delivers_def by (intro exI [of _ None] exI [of _ 0] exI [of _ "[]"]) simp

lemma delivers_src:
  assumes "delivers sure src p n io m r" "\<And>i. i < n \<Longrightarrow> src' (q + i) = src (p + i)"
  shows "delivers sure src' q n io m r"
proof -
  obtain res j bs where r: "r = (res, skip j io, store_bytes (address io) bs m)"
    "\<forall>i < length bs. src (p + i) = Some (bs ! i)" "j \<le> length bs" "length bs \<le> n"
    "res = None \<longrightarrow> j = n" "sure \<longrightarrow> res = None"
    using assms(1) by (auto simp: delivers_def)
  have "\<forall>i < length bs. src' (q + i) = Some (bs ! i)" using r(2,4) assms(2) by simp
  with r show ?thesis unfolding delivers_def by blast
qed

abbreviation bytes_of :: "(nat \<Rightarrow> u8) \<Rightarrow> nat \<Rightarrow> u8 option" where
  "bytes_of img \<equiv> \<lambda>p. Some (img p)"

text \<open>The two kinds of step.\<close>

lemma whole_sectors:
  fixes disk_byte n :: u64
  assumes "disk_byte mod 512 = 0" "512 \<le> n"
  shows "unat (n - n mod 512) \<le> unat n" "512 \<le> unat (n - n mod 512)"
proof -
  have m: "unat (n mod 512) = unat n mod 512" by (simp add: unat_mod_distrib)
  have "n mod 512 \<le> n" using m by (simp add: word_le_nat_alt)
  then have e: "unat (n - n mod 512) = unat n - unat n mod 512" using m by (simp add: unat_sub)
  have "512 \<le> unat n" using assms(2) by (simp add: word_le_nat_alt)
  then have "1 \<le> unat n div 512" by (simp add: div_greater_zero_iff Suc_le_eq)
  then show "unat (n - n mod 512) \<le> unat n" "512 \<le> unat (n - n mod 512)"
    using e minus_mod_eq_mult_div [of "unat n" 512] by simp_all
qed

lemma whole_step:
  assumes "disk_byte mod 512 = 0" "512 \<le> n" "n \<noteq> 0"
    "fat_disk_transfer dev (io\<lparr>offset := disk_byte, length_remaining := n - n mod 512\<rparr>) m =
       Some (None, skip k (io\<lparr>offset := disk_byte, length_remaining := n - n mod 512\<rparr>), m')"
    "0 < k" "k < 2 ^ 32"
  shows "fat_read_linear dev disk_byte n io m = fat_read_linear dev (disk_byte + of_nat k) (n - of_nat k) (skip k io) m'"
proof -
  have nz: "(of_nat k :: u64) \<noteq> 0"
  proof
    assume "(of_nat k :: u64) = 0"
    then have "unat (of_nat k :: u64) = 0" by simp
    then show False using assms(5,6) by (simp add: unat_of_nat)
  qed
  have "ucast (of_nat k :: u64) = (of_nat k :: u32)"
    using assms(6) by (simp add: unsigned_of_nat take_bit_nat_eq_self)
  then have "io\<lparr>offset := offset io + of_nat k, length_remaining := length_remaining io - of_nat k,
      address := address io + ucast (of_nat k :: u64)\<rparr> = skip k io"
    by (cases io) (simp add: skip_def)
  then show ?thesis using assms nz by (subst fat_read_linear.simps) (simp add: Let_def)
qed

lemma part_step:
  assumes "\<not> (disk_byte mod 512 = 0 \<and> 512 \<le> n)" "n \<noteq> 0"
    "fat_disk_read dev FAT_SECTOR_SIZE (disk_byte - disk_byte mod 512) = Inr buf"
    "PerformTransfer (drop (unat (disk_byte mod 512)) buf) io (min (512 - disk_byte mod 512) n) m =
       Some (None, buf', io', m')"
  shows "fat_read_linear dev disk_byte n io m =
    fat_read_linear dev (disk_byte + min (512 - disk_byte mod 512) n) (n - min (512 - disk_byte mod 512) n) io' m'"
  using assms by (subst fat_read_linear.simps) (auto simp: Let_def)

context faithful_disk
begin

lemma read_linear_spec:
  assumes "room io (unat n)" "unat disk_byte + unat n < 2 ^ 64"
    "sure \<longrightarrow> never_fails dev (512 * V) \<and> unat disk_byte + unat n \<le> 512 * V"
  shows "\<exists>r. fat_read_linear dev disk_byte n io m = Some r \<and> delivers sure (bytes_of img) (unat disk_byte) (unat n) io m r"
  using assms
proof (induction "unat n" arbitrary: n disk_byte io m rule: less_induct)
  case less
  have n32: "unat n < 2 ^ 32" using less.prems(1) by (simp add: room_def)
  have step: "\<exists>r. fat_read_linear dev (disk_byte + of_nat k) (n - of_nat k) (skip k io)
        (store_bytes (address io) (data_at img (unat disk_byte) k) m) = Some r \<and>
      delivers sure (bytes_of img) (unat disk_byte) (unat n) io m r" if k: "0 < k" "k \<le> unat n" for k
  proof -
    have u: "unat (of_nat k :: u64) = k" using k n32 by (simp add: unat_of_nat)
    have "of_nat k \<le> n" using k u by (simp add: word_le_nat_alt)
    then have n: "unat (n - of_nat k) = unat n - k" using u by (simp add: unat_sub)
    have d: "unat (disk_byte + of_nat k) = unat disk_byte + k" using less.prems(2) k u by (simp add: unat_word_ariths)
    obtain r where r: "fat_read_linear dev (disk_byte + of_nat k) (n - of_nat k) (skip k io)
        (store_bytes (address io) (data_at img (unat disk_byte) k) m) = Some r"
      "delivers sure (bytes_of img) (unat disk_byte + k) (unat n - k) (skip k io)
        (store_bytes (address io) (data_at img (unat disk_byte) k) m) r"
      using less.hyps [of "n - of_nat k" "skip k io" "disk_byte + of_nat k"
          "store_bytes (address io) (data_at img (unat disk_byte) k) m"]
        room_skip [OF less.prems(1) k(2)] k less.prems(2,3) by (auto simp: n d)
    have "delivers sure (bytes_of img) (unat disk_byte) (unat n) io m r"
      by (rule delivers_step [OF r(2)]) (use k n32 in simp_all)
    with r(1) show ?thesis by blast
  qed
  show ?case
  proof (cases "n = 0")
    case True
    then show ?thesis
      by (subst fat_read_linear.simps) (simp add: delivers_none)
  next
    case nz: False
    show ?thesis
    proof (cases "disk_byte mod 512 = 0 \<and> 512 \<le> n")
      case True
      define len where "len = n - n mod 512"
      define disk_io where "disk_io = io\<lparr>offset := disk_byte, length_remaining := len\<rparr>"
      have len: "unat len \<le> unat n" "512 \<le> unat len" using whole_sectors [of disk_byte n] True by (simp_all add: len_def)
      have rm: "room disk_io (unat (length_remaining disk_io))"
        using room_less [OF less.prems(1) len(1)] by (simp add: room_def disk_io_def)
      have f: "address disk_io = address io" "offset disk_io = disk_byte" "length_remaining disk_io = len"
        by (simp_all add: disk_io_def)
      have sure: "sure \<longrightarrow> never_fails dev (512 * V) \<and> unat (offset disk_io) + unat (length_remaining disk_io) \<le> 512 * V"
        using less.prems(3) len(1) unfolding f by linarith
      obtain res io' k where t: "fat_disk_transfer dev disk_io m =
          Some (res, io', store_bytes (address io) (data_at img (unat disk_byte) k) m)"
        and k: "k \<le> unat len" and io': "io' = (if res = None then skip k disk_io else disk_io)"
        and ok: "sure \<longrightarrow> res = None \<and> k = unat len"
        using disk_transfer_spec [OF rm sure, of m] unfolding f by blast
      show ?thesis
      proof (cases "res = None \<and> 0 < k")
        case True: True
        have "fat_read_linear dev disk_byte n io m = fat_read_linear dev (disk_byte + of_nat k) (n - of_nat k) (skip k io)
            (store_bytes (address io) (data_at img (unat disk_byte) k) m)"
          using t io' True k len n32 nz \<open>disk_byte mod 512 = 0 \<and> 512 \<le> n\<close>
          by (intro whole_step) (simp_all add: disk_io_def len_def)
        then show ?thesis using step [of k] True k len by simp
      next
        case False
        then have "\<exists>e. fat_read_linear dev disk_byte n io m =
            Some (Some e, io, store_bytes (address io) (data_at img (unat disk_byte) k) m)"
          using t io' \<open>disk_byte mod 512 = 0 \<and> 512 \<le> n\<close> nz
          by (cases res; subst fat_read_linear.simps) (simp_all add: Let_def disk_io_def len_def)
        moreover have "\<not> sure" using False ok len by auto
        ultimately show ?thesis
          using delivers_fail [of sure "data_at img (unat disk_byte) k" "unat n" "bytes_of img" "unat disk_byte" io m] k len
          by fastforce
      qed
    next
      case False
      let ?so = "disk_byte mod 512" and ?ts = "min (512 - disk_byte mod 512) n"
      have so: "unat ?so = unat disk_byte mod 512" by (simp add: unat_mod_distrib)
      have "unat ?so < 512" unfolding so by simp
      then have so': "unat (512 - ?so) = 512 - unat ?so" by (simp add: unat_sub word_le_nat_alt)
      have ts: "unat ?ts \<le> 512 - unat ?so" "unat ?ts \<le> unat n" "0 < unat ?ts"
        using nz so' \<open>unat ?so < 512\<close> by (auto simp: min_def word_le_nat_alt unat_gt_0)
      have base: "unat (disk_byte - ?so) = unat disk_byte - unat ?so"
        by (simp add: unat_sub word_le_nat_alt so)
      show ?thesis
      proof (cases "fat_disk_read dev FAT_SECTOR_SIZE (disk_byte - ?so)")
        case (Inl e)
        then have "fat_read_linear dev disk_byte n io m = Some (Some e, io, m)"
          using False nz by (subst fat_read_linear.simps) (auto simp: Let_def)
        moreover have "\<not> sure"
        proof
          assume sure
          moreover have "0 < unat n" using nz by (simp add: unat_gt_0)
          ultimately have nf: "never_fails dev (512 * V)" and "unat disk_byte < 512 * V" using less.prems(3) by auto
          then have "unat disk_byte div 512 < V" by (simp add: less_mult_imp_div_less mult.commute)
          moreover have "unat (disk_byte - ?so) = 512 * (unat disk_byte div 512)"
            unfolding base so by (rule minus_mod_eq_mult_div)
          ultimately have "unat (disk_byte - ?so) + unat (512 :: u64) \<le> 512 * V" by simp
          then have "fst (dev (disk_byte - ?so) 512) = None \<and> length (snd (dev (disk_byte - ?so) 512)) = unat (512 :: u64)"
            using nf unfolding never_fails_def by blast
          then show False using Inl by (auto simp: fat_disk_read_def split: prod.splits)
        qed
        ultimately show ?thesis by (simp add: delivers_fail0)
      next
        case (Inr buf)
        have buf: "drop (unat ?so) buf = data_at img (unat disk_byte) (512 - unat ?so)"
        proof -
          have "buf = data_at img (unat disk_byte - unat ?so) 512"
            using disk_read_data [OF Inr] unfolding base by (simp only: data_at_def)
          moreover have "unat ?so \<le> unat disk_byte" unfolding so by simp
          ultimately show ?thesis by simp
        qed
        have "PerformTransfer (data_at img (unat disk_byte) (512 - unat ?so)) io ?ts m =
            Some (None, data_at img (unat disk_byte) (512 - unat ?so), skip (unat ?ts) io,
              store_bytes (address io) (data_at img (unat disk_byte) (unat ?ts)) m)"
          using PerformTransfer_read [of io "unat ?ts" "data_at img (unat disk_byte) (512 - unat ?so)" m]
            room_less [OF less.prems(1) ts(2)] ts(1) by (simp add: min_absorb1)
        then show ?thesis using part_step [OF False nz Inr] step [of "unat ?ts"] ts buf by simp
      qed
    qed
  qed
qed

end

end
