(* ===== verification/FatFile.thy ===== *)
theory FatFile
  imports FatRead
begin

unbundle bit_operations_syntax

text \<open>
  Reading the data of a file along its chain of clusters: \<^verbatim>\<open>fat_read_file_sync\<close> of
  \<^verbatim>\<open>kernel/fs/fat/fat_file.c\<close>.
\<close>

section \<open>Reading a file\<close>

text \<open>
  The inner loop follows the chain while it goes on with the next cluster. Its result: an error, or
  the last cluster of the run, the bytes of the run, the cluster after it, and whether the chain ended.
\<close>

partial_function (option) run_loop ::
    "disk \<Rightarrow> u64 \<Rightarrow> fat \<Rightarrow> u32 \<Rightarrow> u64 \<Rightarrow> u32 \<Rightarrow> ((errno + u32 \<times> u64 \<times> u32 \<times> bool) \<times> fat) option" where
  "run_loop dev want fat lastc run_bytes next_cluster =
     (if run_bytes < want then
        (case fat_next_cluster dev fat lastc of
           (r, fat) \<Rightarrow>
             (case r of
                FatEnd \<Rightarrow> Some (Inr (lastc, run_bytes, next_cluster, True), fat)
              | Failed e \<Rightarrow> Some (Inl e, fat)
              | Found nx \<Rightarrow>
                  if nx \<noteq> lastc + 1 then Some (Inr (lastc, run_bytes, nx, False), fat)
                  else run_loop dev want fat nx (run_bytes + ucast (cluster_bytes fat)) nx))
      else Some (Inr (lastc, run_bytes, next_cluster, False), fat))"

partial_function (option) file_loop ::
    "disk \<Rightarrow> u32 \<Rightarrow> fat \<Rightarrow> u32 \<Rightarrow> u32 \<Rightarrow> u32 \<Rightarrow> u32 \<Rightarrow> transfer \<Rightarrow> mem \<Rightarrow>
      (errno option \<times> fat \<times> transfer \<times> mem) option" where
  "file_loop dev first fat index cluster within size_left io m =
     (if length_remaining io \<noteq> 0 \<and> size_left \<noteq> 0 then
        (let want = min (length_remaining io) (ucast size_left)
         in case run_loop dev want fat cluster (ucast (cluster_bytes fat - within)) 0 of
              None \<Rightarrow> None
            | Some (r, fat) \<Rightarrow>
                (case r of
                   Inl e \<Rightarrow> Some (Some e, fat, io, m)
                 | Inr (lastc, run_bytes, next_cluster, chain_ended) \<Rightarrow>
                     (let n = min want run_bytes
                      in case fat_read_linear dev (fat_cluster_to_byte fat cluster + ucast within) n io m of
                           None \<Rightarrow> None
                         | Some (res, io, m) \<Rightarrow>
                             (case res of
                                Some e \<Rightarrow> Some (Some e, fat, io, m)
                              | None \<Rightarrow>
                                  (let hops = ucast ((ucast within + n - 1) div ucast (cluster_bytes fat)) :: u32;
                                       fat = fat_set_hint fat first (index + hops) (cluster + hops);
                                       size_left = size_left - ucast n
                                   in if length_remaining io = 0 \<or> size_left = 0 then Some (None, fat, io, m)
                                      else if chain_ended then Some (Some EIO, fat, io, m)
                                      else file_loop dev first fat (index + (lastc - cluster) + 1) next_cluster 0 size_left io m)))))
      else Some (None, fat, io, m))"

definition fat_read_file_sync ::
    "disk \<Rightarrow> fat \<Rightarrow> u32 \<Rightarrow> u32 \<Rightarrow> transfer \<Rightarrow> mem \<Rightarrow> (errno option \<times> fat \<times> transfer \<times> mem) option" where
  "fat_read_file_sync dev fat first_cluster file_size io m =
     (if ucast file_size \<le> offset io then Some (None, fat, io, m)
      else if first_cluster < 2 \<or> max_cluster fat < first_cluster then Some (Some EIO, fat, io, m)
      else
        (let size_left = file_size - ucast (offset io);
             index = ucast (offset io div ucast (cluster_bytes fat)) :: u32;
             within = ucast (offset io mod ucast (cluster_bytes fat)) :: u32
         in case fat_cluster_at dev fat first_cluster index of
              (FatEnd, fat) \<Rightarrow> Some (Some EIO, fat, io, m)
            | (Failed e, fat) \<Rightarrow> Some (Some e, fat, io, m)
            | (Found cluster, fat) \<Rightarrow> file_loop dev first_cluster fat index cluster within size_left io m))"

section \<open>The bytes of a file\<close>

abbreviation cluster_size :: "fat \<Rightarrow> nat" where
  "cluster_size fat \<equiv> unat (cluster_bytes fat)"

definition cluster_pos :: "fat \<Rightarrow> u32 \<Rightarrow> nat" where
  "cluster_pos fat c = (unat (data_start_sector fat) + (unat c - 2) * unat (sectors_per_cluster fat)) * 512"

text \<open>The byte at position \<open>p\<close> of the file whose chain starts at \<open>first\<close>, if its chain is that long.\<close>

definition file_byte :: "(nat \<Rightarrow> u8) \<Rightarrow> fat \<Rightarrow> u32 \<Rightarrow> nat \<Rightarrow> u8 option" where
  "file_byte img fat first p =
     (case nth_cluster img fat (p div cluster_size fat) first of
        Found c \<Rightarrow> Some (img (cluster_pos fat c + p mod cluster_size fat))
      | _ \<Rightarrow> None)"

lemma table_next_range: "table_next img fat c = Found c' \<Longrightarrow> 2 \<le> c' \<and> c' \<le> max_cluster fat"
  by (auto simp: table_next_def Let_def split: if_splits)

lemma nth_cluster_range:
  "\<lbrakk>nth_cluster img fat n c = Found c'; 2 \<le> c; c \<le> max_cluster fat\<rbrakk> \<Longrightarrow> 2 \<le> c' \<and> c' \<le> max_cluster fat"
  by (induction n arbitrary: c) (auto split: fat_result.splits dest: table_next_range)

lemma nth_cluster_Suc:
  "nth_cluster img fat n c = Found c' \<Longrightarrow> nth_cluster img fat (Suc n) c = table_next img fat c'"
  using nth_cluster_add [of img fat n c c' 1] by (auto split: fat_result.splits)

text \<open>A chain that ends or is broken stays so.\<close>

lemma nth_cluster_mono:
  assumes "nth_cluster img fat n c = Found c'" "k \<le> n"
  shows "\<exists>c''. nth_cluster img fat k c = Found c''"
  using assms
proof (induction k arbitrary: n c)
  case (Suc k)
  then obtain n' where n: "n = Suc n'" "k \<le> n'" by (cases n) auto
  then obtain d where "table_next img fat c = Found d" "nth_cluster img fat n' d = Found c'"
    using Suc.prems(1) by (auto split: fat_result.splits)
  then show ?case using Suc.IH [of n' d] n by simp
qed simp

lemma cluster_to_byte:
  assumes v: "volume_ok fat" and c: "2 \<le> c" "c \<le> max_cluster fat"
  shows "unat (fat_cluster_to_byte fat c) = cluster_pos fat c"
    "cluster_pos fat c + cluster_size fat \<le> 512 * volume_end fat" "volume_end fat < 2 ^ 32"
proof -
  let ?s = "unat (sectors_per_cluster fat)"
  have c': "2 \<le> unat c" "unat c \<le> unat (max_cluster fat)" using c by (simp_all add: word_le_nat_alt)
  show V: "volume_end fat < 2 ^ 32" and cb: "cluster_pos fat c + cluster_size fat \<le> 512 * volume_end fat"
  proof -
    show "volume_end fat < 2 ^ 32" using v by (simp add: volume_ok_def)
    have "(unat c - 2 + 1) * ?s \<le> (unat (max_cluster fat) - 1) * ?s" using c' by (intro mult_le_mono1) simp
    then show "cluster_pos fat c + cluster_size fat \<le> 512 * volume_end fat"
      using v by (simp add: cluster_pos_def volume_end_def volume_ok_def algebra_simps)
  qed
  have cm: "unat (c - 2) = unat c - 2" using c' by (simp add: unat_sub word_le_nat_alt)
  have "cluster_pos fat c < 2 ^ 41" using V cb by simp
  then have "(unat c - 2) * ?s < 2 ^ 41" "unat (data_start_sector fat) + (unat c - 2) * ?s < 2 ^ 41"
    "(unat (data_start_sector fat) + (unat c - 2) * ?s) * 512 < 2 ^ 41"
    by (simp_all add: cluster_pos_def)
  then show "unat (fat_cluster_to_byte fat c) = cluster_pos fat c"
    by (simp add: fat_cluster_to_byte_def cluster_pos_def unat_word_ariths cm del: distrib_right_numeral)
qed

lemma file_cong:
  assumes "same_volume fat fat'"
  shows "file_byte img fat' = file_byte img fat" "cluster_bytes fat' = cluster_bytes fat" "max_cluster fat' = max_cluster fat"
    "fat_cluster_to_byte fat' = fat_cluster_to_byte fat"
proof -
  have eqs: "cluster_bytes fat' = cluster_bytes fat" "max_cluster fat' = max_cluster fat"
    "data_start_sector fat' = data_start_sector fat" "sectors_per_cluster fat' = sectors_per_cluster fat"
    using assms by (simp_all add: same_volume_def)
  then show "cluster_bytes fat' = cluster_bytes fat" "max_cluster fat' = max_cluster fat" by simp_all
  show "file_byte img fat' = file_byte img fat"
    unfolding file_byte_def cluster_pos_def cluster_chain_cong(2) [OF assms] eqs ..
  show "fat_cluster_to_byte fat' = fat_cluster_to_byte fat" by (simp add: fun_eq_iff fat_cluster_to_byte_def eqs)
qed

text \<open>A run of consecutive clusters is contiguous on the disk.\<close>

definition is_run :: "(nat \<Rightarrow> u8) \<Rightarrow> fat \<Rightarrow> u32 \<Rightarrow> nat \<Rightarrow> u32 \<Rightarrow> nat \<Rightarrow> bool" where
  "is_run img fat first i c h \<longleftrightarrow> (\<forall>t \<le> h. nth_cluster img fat (i + t) first = Found (c + of_nat t))"

lemma is_run_index:
  assumes r: "is_run img fat first i c h" and v: "volume_ok fat" and f: "2 \<le> first" "first \<le> max_cluster fat"
    and t: "t \<le> h"
  shows "unat (c + of_nat t) = unat c + t"
  using t
proof (induction t)
  case (Suc t)
  have "nth_cluster img fat (i + t) first = Found (c + of_nat t)" using r Suc.prems by (simp add: is_run_def)
  then have "c + of_nat t \<le> max_cluster fat" using nth_cluster_range f by blast
  then have "unat (c + of_nat t) < 2 ^ 28" using volume_okD(3) [OF v] by (simp add: word_le_nat_alt)
  then have "unat (c + of_nat t + 1) = unat (c + of_nat t) + 1" by (simp add: unat_word_ariths)
  then show ?case using Suc by (simp add: algebra_simps)
qed simp

lemma run_bytes:
  assumes r: "is_run img fat first i c h" and v: "volume_ok fat" and f: "2 \<le> first" "first \<le> max_cluster fat"
    and w: "w < (h + 1) * cluster_size fat"
  shows "file_byte img fat first (i * cluster_size fat + w) = Some (img (cluster_pos fat c + w))"
proof -
  let ?cb = "cluster_size fat"
  have cb: "0 < ?cb" "?cb = 512 * unat (sectors_per_cluster fat)" using v by (simp_all add: volume_ok_def)
  define t where "t = w div ?cb"
  have t: "t \<le> h" unfolding t_def using w cb(1) by (simp add: div_less_iff_less_mult less_Suc_eq_le [symmetric])
  have n: "nth_cluster img fat (i + t) first = Found (c + of_nat t)" using r t by (simp add: is_run_def)
  have "nth_cluster img fat i first = Found c" using r by (auto simp: is_run_def dest: spec [of _ 0])
  then have c2: "2 \<le> unat c" using nth_cluster_range [OF _ f] by (fastforce simp: word_le_nat_alt)
  have "cluster_pos fat (c + of_nat t) = cluster_pos fat c + t * ?cb"
  proof -
    have "unat (c + of_nat t) - 2 = unat c - 2 + t" using is_run_index [OF r v f t] c2 by simp
    then show ?thesis by (simp add: cluster_pos_def cb algebra_simps)
  qed
  then have pos: "cluster_pos fat (c + of_nat t) + w mod ?cb = cluster_pos fat c + w" by (simp add: t_def add.assoc)
  have dm: "(i * ?cb + w) div ?cb = i + t" "(i * ?cb + w) mod ?cb = w mod ?cb" using cb(1) by (simp_all add: t_def)
  show ?thesis unfolding file_byte_def dm n using pos by simp
qed

section \<open>Correctness of the loops\<close>

text \<open>What the inner loop finds from cluster \<open>c\<close>, the \<open>i\<close>-th of the file, on.\<close>

definition run_post :: "(nat \<Rightarrow> u8) \<Rightarrow> fat \<Rightarrow> u32 \<Rightarrow> nat \<Rightarrow> u32 \<Rightarrow> nat \<Rightarrow> u64 \<Rightarrow> bool \<Rightarrow>
    errno + u32 \<times> u64 \<times> u32 \<times> bool \<Rightarrow> bool" where
  "run_post img fat first i c w want sure r \<longleftrightarrow>
     (case r of
        Inl e \<Rightarrow> sure \<longrightarrow> (\<exists>k. k * cluster_size fat < unat want + w \<and> (\<nexists>d. nth_cluster img fat (i + k) first = Found d))
      | Inr (l, rb', nx, ended) \<Rightarrow> (\<exists>h'. l = c + of_nat h' \<and> is_run img fat first i c h' \<and>
          unat rb' + w = (h' + 1) * cluster_size fat \<and>
          (unat want \<le> unat rb' \<or> nth_cluster img fat (i + h' + 1) first = (if ended then FatEnd else Found nx))))"

lemma run_post_cong:
  assumes "same_volume fat fat'"
  shows "run_post img fat' = run_post img fat"
  unfolding run_post_def is_run_def fun_eq_iff cluster_chain_cong(2) [OF assms] file_cong(2) [OF assms] by simp

context faithful_disk
begin

text \<open>\<open>sure\<close>: the disk does not fail.\<close>

lemma next_cluster_sure:
  assumes "fat_ok img fat" "fat_next_cluster dev fat c = (r, fat')" "sure \<longrightarrow> reliable dev img cap \<and> 512 * volume_end fat \<le> cap"
  shows "same_volume fat fat' \<and> fat_ok img fat' \<and> (r = table_next img fat c \<or> \<not> sure \<and> (\<exists>e. r = Failed e))"
  using next_cluster_spec [OF assms(1,2)] reliable_disk.next_cluster_full [OF disk_locales(2) assms(1) _ assms(2), of cap] assms(3)
  by (auto simp: sound_result_def)

lemma run_loop_spec:
  assumes "fat_ok img fat" "is_run img fat first i c h" "2 \<le> first" "first \<le> max_cluster fat"
    "sure \<longrightarrow> reliable dev img cap \<and> 512 * volume_end fat \<le> cap"
    "unat rb + w = (h + 1) * cluster_size fat" "w < cluster_size fat" "unat want < 2 ^ 32"
    "unat rb < unat want + cluster_size fat" 
  shows "\<exists>r fat'. run_loop dev want fat (c + of_nat h) rb nx0 = Some (r, fat') \<and> same_volume fat fat' \<and> fat_ok img fat' \<and>
    run_post img fat first i c w want sure r"
  using assms
proof (induction "unat want + cluster_size fat - unat rb" arbitrary: fat h rb nx0 rule: less_induct)
  case less
  note prems = less.prems
  have v: "volume_ok fat" using prems(1) by (simp add: fat_ok_def)
  have cb: "0 < cluster_size fat" "cluster_size fat < 2 ^ 32" using v unat_lt32 [of "cluster_bytes fat"] by (simp_all add: volume_ok_def)
  show ?case
  proof (cases "rb < want")
    case False
    then have "run_loop dev want fat (c + of_nat h) rb nx0 = Some (Inr (c + of_nat h, rb, nx0, False), fat)"
      by (subst run_loop.simps) simp
    then show ?thesis using prems False by (auto simp: run_post_def word_le_nat_alt not_less intro!: exI [of _ h])
  next
    case True
    obtain r1 fat1 where r1: "fat_next_cluster dev fat (c + of_nat h) = (r1, fat1)"
      by (cases "fat_next_cluster dev fat (c + of_nat h)")
    note S = next_cluster_sure [OF prems(1) r1 prems(5)]
    have n: "nth_cluster img fat (i + h + 1) first = table_next img fat (c + of_nat h)"
      using nth_cluster_Suc [of img fat "i + h"] prems(2) by (simp add: is_run_def)
    show ?thesis
    proof (cases r1)
      case (Failed e)
      then have "run_loop dev want fat (c + of_nat h) rb nx0 = Some (Inl e, fat1)" using True r1 by (subst run_loop.simps) simp
      moreover have "(h + 1) * cluster_size fat < unat want + w" using True prems(6) by (simp add: word_less_nat_alt)
      moreover have "sure \<longrightarrow> (\<nexists>d. nth_cluster img fat (i + (h + 1)) first = Found d)" using S Failed n by auto
      ultimately show ?thesis using S by (auto simp: run_post_def intro!: exI [of _ "h + 1"])
    next
      case FatEnd
      then have "run_loop dev want fat (c + of_nat h) rb nx0 = Some (Inr (c + of_nat h, rb, nx0, True), fat1)"
        using True r1 by (subst run_loop.simps) simp
      then show ?thesis using S FatEnd n prems(2,6) by (auto simp: run_post_def intro!: exI [of _ h])
    next
      case (Found nx)
      then have f: "table_next img fat (c + of_nat h) = Found nx" using S by auto
      show ?thesis
      proof (cases "nx = c + of_nat h + 1")
        case False
        then have "run_loop dev want fat (c + of_nat h) rb nx0 = Some (Inr (c + of_nat h, rb, nx, False), fat1)"
          using True r1 Found by (subst run_loop.simps) simp
        then show ?thesis using S f n prems(2,6) by (auto simp: run_post_def intro!: exI [of _ h])
      next
        case nx: True
        have run: "is_run img fat first i c (h + 1)"
          using prems(2) f n nx by (auto simp: is_run_def le_Suc_eq algebra_simps)
        have cb1: "cluster_bytes fat1 = cluster_bytes fat" "max_cluster fat1 = max_cluster fat" "volume_end fat1 = volume_end fat"
          using S file_cong [of fat fat1] table_cong(6) [of fat fat1] by simp_all
        have rb': "unat (rb + ucast (cluster_bytes fat)) = unat rb + cluster_size fat"
          using True prems(8) cb by (simp add: unat_word_ariths word_less_nat_alt)
        have run1: "is_run img fat1 first i c (h + 1)" "nth_cluster img fat1 = nth_cluster img fat"
          using run S cluster_chain_cong(2) [of fat fat1] by (simp_all add: is_run_def)
        have "run_loop dev want fat (c + of_nat h) rb nx0 =
            run_loop dev want fat1 (c + of_nat (h + 1)) (rb + ucast (cluster_bytes fat)) nx"
          using True r1 Found nx cb1 by (subst run_loop.simps) (simp add: algebra_simps)
        moreover have "\<exists>r fat'. run_loop dev want fat1 (c + of_nat (h + 1)) (rb + ucast (cluster_bytes fat)) nx = Some (r, fat') \<and>
            same_volume fat1 fat' \<and> fat_ok img fat' \<and> run_post img fat1 first i c w want sure r"
          using less.hyps [of fat1 "rb + ucast (cluster_bytes fat)" "h + 1" nx] S prems(3-9) run1(1) True rb' cb cb1
          by (simp add: word_less_nat_alt)
        moreover have "run_post img fat1 = run_post img fat" using run_post_cong S by blast
        moreover have "same_volume fat fat1" using S by blast
        ultimately show ?thesis by (auto dest: same_volume_trans(1))
      qed
    qed
  qed
qed

text \<open>Reading from a run, and the hint that is left behind.\<close>

lemma run_read:
  fixes within :: u32
  assumes ok: "fat_ok img fat" and run: "is_run img fat first i c h" and f: "2 \<le> first" "first \<le> max_cluster fat"
    and n: "unat n + unat within \<le> (h + 1) * cluster_size fat" "room io (unat n)"
    and sure: "sure \<longrightarrow> reliable dev img cap \<and> 512 * volume_end fat \<le> cap"
  shows "\<exists>r. fat_read_linear dev (fat_cluster_to_byte fat c + ucast within) n io m = Some r \<and>
    delivers sure (file_byte img fat first) (i * cluster_size fat + unat within) (unat n) io m r"
proof -
  have v: "volume_ok fat" using ok by (simp add: fat_ok_def)
  have cb: "cluster_size fat = 512 * unat (sectors_per_cluster fat)" using v by (simp add: volume_ok_def)
  have n0: "nth_cluster img fat (i + t) first = Found (c + of_nat t)" if "t \<le> h" for t using run that by (simp add: is_run_def)
  have c: "2 \<le> c" "c \<le> max_cluster fat" using nth_cluster_range [OF n0 [of 0] f] by simp_all
  have ch: "2 \<le> c + of_nat h" "c + of_nat h \<le> max_cluster fat" using nth_cluster_range [OF n0 [of h] f] by simp_all
  have "unat (c + of_nat h) - 2 = unat c - 2 + h"
    using is_run_index [OF run v f, of h] c by (simp add: word_le_nat_alt)
  then have "cluster_pos fat (c + of_nat h) = cluster_pos fat c + h * cluster_size fat"
    by (simp add: cluster_pos_def cb algebra_simps)
  then have V: "cluster_pos fat c + unat within + unat n \<le> 512 * volume_end fat" "volume_end fat < 2 ^ 32"
    using cluster_to_byte(2,3) [OF v ch] n(1) by simp_all
  have pos: "unat (fat_cluster_to_byte fat c + ucast within) = cluster_pos fat c + unat within"
    using V by (simp add: unat_word_ariths cluster_to_byte(1) [OF v c])
  have "sure \<longrightarrow> never_fails dev (512 * volume_end fat) \<and>
      unat (fat_cluster_to_byte fat c + ucast within) + unat n \<le> 512 * volume_end fat"
    using sure reliable_never_fails V unfolding pos by blast
  then obtain r where "fat_read_linear dev (fat_cluster_to_byte fat c + ucast within) n io m = Some r"
    "delivers sure (bytes_of img) (cluster_pos fat c + unat within) (unat n) io m r"
    using read_linear_spec [of io n "fat_cluster_to_byte fat c + ucast within" sure "volume_end fat" m] n(2) V
    unfolding pos by auto
  moreover have "file_byte img fat first (i * cluster_size fat + unat within + k) = Some (img (cluster_pos fat c + unat within + k))"
    if "k < unat n" for k
    using run_bytes [OF run v f, of "unat within + k"] n(1) that by (simp add: add.assoc)
  ultimately show ?thesis using delivers_src by blast
qed

end

lemma delivers_more:
  "\<lbrakk>delivers sure src p n io m (Some e, io', m'); n \<le> N\<rbrakk> \<Longrightarrow> delivers sure src p N io m (Some e, io', m')"
  by (fastforce simp: delivers_def)

lemma delivers_NoneE:
  assumes "delivers sure src p n io m (None, io', m')"
  obtains bs where "io' = skip n io" "m' = store_bytes (address io) bs m" "length bs = n"
    "\<forall>i < n. src (p + i) = Some (bs ! i)"
  using assms by (auto simp: delivers_def)

lemma run_hint:
  fixes y :: u64
  assumes "fat_ok img fat" "is_run img fat first i c h" "unat index = i" "x < (h + 1) * cluster_size fat"
    "i * cluster_size fat + x < 2 ^ 32" "x < 2 ^ 64" "unat y = x" "0 < cluster_size fat"
  shows "fat_ok img (fat_set_hint fat first (index + ucast (y div ucast (cluster_bytes fat)))
      (c + ucast (y div ucast (cluster_bytes fat)))) \<and>
    same_volume fat (fat_set_hint fat first (index + ucast (y div ucast (cluster_bytes fat)))
      (c + ucast (y div ucast (cluster_bytes fat))))"
proof -
  let ?q = "x div cluster_size fat"
  have q: "?q \<le> h" using assms(4,8) by (simp add: div_less_iff_less_mult less_Suc_eq_le [symmetric])
  have lt: "i + ?q < 2 ^ 32"
  proof -
    have "i + ?q \<le> (i + ?q) * cluster_size fat" using assms(8) by (cases "cluster_size fat") simp_all
    also have "\<dots> \<le> i * cluster_size fat + x" by (simp add: algebra_simps)
    finally show ?thesis using assms(5) by simp
  qed
  have "unat (y div ucast (cluster_bytes fat)) = ?q" by (simp add: unat_div_distrib assms(7))
  then have y: "ucast (y div ucast (cluster_bytes fat)) = (of_nat ?q :: u32)"
    by (metis of_nat_unat)
  have "unat (index + of_nat ?q) = i + ?q" using lt assms(3) by (simp add: unat_word_ariths unat_of_nat)
  then have "nth_cluster img fat (unat (index + of_nat ?q)) first = Found (c + of_nat ?q)"
    using assms(2) q by (simp add: is_run_def)
  then show ?thesis unfolding y using fat_set_hint_ok [OF assms(1)] by blast
qed

text \<open>The outer loop, from a state in which \<open>cluster\<close> is the \<open>index\<close>-th cluster of the file.\<close>

definition complete_to :: "(nat \<Rightarrow> u8) \<Rightarrow> fat \<Rightarrow> u32 \<Rightarrow> nat \<Rightarrow> bool" where
  "complete_to img fat first p \<longleftrightarrow> (\<forall>k. k * cluster_size fat < p \<longrightarrow> (\<exists>c. nth_cluster img fat k first = Found c))"

definition file_post :: "bool \<Rightarrow> (nat \<Rightarrow> u8) \<Rightarrow> fat \<Rightarrow> u32 \<Rightarrow> nat \<Rightarrow> nat \<Rightarrow> transfer \<Rightarrow> mem \<Rightarrow>
    (errno option \<times> fat \<times> transfer \<times> mem) option \<Rightarrow> bool" where
  "file_post sure img fat first p n io m r \<longleftrightarrow> (\<exists>res fat' io' m'. r = Some (res, fat', io', m') \<and>
     same_volume fat fat' \<and> fat_ok img fat' \<and> delivers sure (file_byte img fat first) p n io m (res, io', m'))"

lemma file_post_step:
  assumes "file_post sure img fat' first (p + a) (n - a) (skip a io) (store_bytes (address io) bs m) r"
    "length bs = a" "\<forall>i < a. file_byte img fat first (p + i) = Some (bs ! i)" "a \<le> n" "n < 2 ^ 32" "same_volume fat fat'"
  shows "file_post sure img fat first p n io m r"
proof -
  obtain res fat2 io' m' where r: "r = Some (res, fat2, io', m')" "same_volume fat' fat2" "fat_ok img fat2"
    "delivers sure (file_byte img fat first) (p + a) (n - a) (skip a io) (store_bytes (address io) bs m) (res, io', m')"
    using assms(1) file_cong(1) [OF assms(6)] by (auto simp: file_post_def)
  from delivers_step [OF r(4) assms(2-5)] r(1-3) assms(6) show ?thesis
    unfolding file_post_def by (blast intro: same_volume_trans(1))
qed

context faithful_disk
begin

lemma file_loop_spec:
  assumes "fat_ok img fat" "2 \<le> first" "first \<le> max_cluster fat"
    "nth_cluster img fat (unat index) first = Found cluster" "unat within < cluster_size fat"
    "N = min (unat (length_remaining io)) (unat size_left)" "room io N"
    "p = unat index * cluster_size fat + unat within" "p + unat size_left < 2 ^ 32"
    "sure \<longrightarrow> reliable dev img cap \<and> 512 * volume_end fat \<le> cap \<and> complete_to img fat first (p + N)"
  shows "file_post sure img fat first p N io m (file_loop dev first fat index cluster within size_left io m)"
  using assms
proof (induction "unat size_left" arbitrary: fat index cluster within size_left io m N p rule: less_induct)
  case less
  note ok = less.prems(1) and first = less.prems(2,3) and at = less.prems(4) and within = less.prems(5)
    and N = less.prems(6) and rm = less.prems(7) and p = less.prems(8) and small = less.prems(9) and sure = less.prems(10)
  have v: "volume_ok fat" using ok by (simp add: fat_ok_def)
  show ?case
  proof (cases "length_remaining io \<noteq> 0 \<and> size_left \<noteq> 0")
    case False
    then have "N = 0" using N by auto
    then show ?thesis using False ok by (subst file_loop.simps) (auto simp: file_post_def delivers_none)
  next
    case True
    define want where "want = min (length_remaining io) (ucast size_left)"
    have want: "unat want = N" using N by (simp add: want_def min_def word_le_nat_alt)
    have N0: "0 < N" using True N by (simp add: unat_gt_0)
    define rb :: u64 where "rb = ucast (cluster_bytes fat - within)"
    have rb: "unat rb = cluster_size fat - unat within" using within by (simp add: rb_def unat_sub word_le_nat_alt)
    have run0: "is_run img fat first (unat index) cluster 0" using at by (simp add: is_run_def)
    have sure': "sure \<longrightarrow> reliable dev img cap \<and> 512 * volume_end fat \<le> cap" using sure by blast
    have N32: "N < 2 ^ 32" using N unat_lt32 [of size_left] by (simp add: min_less_iff_disj)
    have e: "unat rb + unat within = (0 + 1) * cluster_size fat" "unat want < 2 ^ 32" "unat rb < unat want + cluster_size fat"
      using rb within want N N0 unat_lt32 [of size_left] by auto
    obtain r fat1 where loop: "run_loop dev want fat cluster rb 0 = Some (r, fat1)" and sv: "same_volume fat fat1"
      and ok1: "fat_ok img fat1" and post: "run_post img fat first (unat index) cluster (unat within) want sure r"
      using run_loop_spec [OF ok run0 first sure' e(1) within e(2,3), of 0] by auto
    note cong = file_cong [OF sv] cluster_chain_cong [OF sv] table_cong(4,6) [OF sv]
    show ?thesis
    proof (cases r)
      case (Inl e)
      have "\<not> sure"
      proof
        assume sure
        then obtain k where k: "k * cluster_size fat < N + unat within" "\<nexists>d. nth_cluster img fat (unat index + k) first = Found d"
          using post Inl want by (auto simp: run_post_def)
        then have "(unat index + k) * cluster_size fat < p + N" using p by (simp add: algebra_simps)
        then show False using sure k(2) \<open>sure\<close> by (auto simp: complete_to_def)
      qed
      moreover have "file_loop dev first fat index cluster within size_left io m = Some (Some e, fat1, io, m)"
        using True loop Inl by (subst file_loop.simps) (simp add: Let_def flip: want_def rb_def)
      ultimately show ?thesis using sv ok1 delivers_fail0 by (auto simp: file_post_def)
    next
      case (Inr x)
      then obtain l rb' nx ended where r: "r = Inr (l, rb', nx, ended)" by (metis prod_cases4)
      obtain h where l: "l = cluster + of_nat h" and run: "is_run img fat first (unat index) cluster h"
        and rb': "unat rb' + unat within = (h + 1) * cluster_size fat"
        and next_c: "N \<le> unat rb' \<or> nth_cluster img fat (unat index + h + 1) first = (if ended then FatEnd else Found nx)"
        using post r want by (auto simp: run_post_def)
      define n where "n = min want rb'"
      have n: "unat n = min N (unat rb')" using want by (simp add: n_def min_def word_le_nat_alt)
      have run1: "is_run img fat1 first (unat index) cluster h" using run cong(5,6) by (simp add: is_run_def)
      have n': "unat n + unat within \<le> (h + 1) * cluster_size fat1" using n rb' cong(2) by simp
      obtain res io1 m1 where rl: "fat_read_linear dev (fat_cluster_to_byte fat1 cluster + ucast within) n io m = Some (res, io1, m1)"
        and dl: "delivers sure (file_byte img fat first) p (unat n) io m (res, io1, m1)"
        using run_read [OF ok1 run1 _ _ n' room_less [OF rm], of sure cap m] first sure' cong n p by auto
      define y where "y = ucast within + n - 1"
      define fat2 where "fat2 = fat_set_hint fat1 first (index + ucast (y div ucast (cluster_bytes fat1)))
        (cluster + ucast (y div ucast (cluster_bytes fat1)))"
      define left' where "left' = size_left - ucast n"
      have body: "file_loop dev first fat index cluster within size_left io m =
          (case res of Some e \<Rightarrow> Some (Some e, fat1, io1, m1)
           | None \<Rightarrow> if length_remaining io1 = 0 \<or> left' = 0 then Some (None, fat2, io1, m1)
                else if ended then Some (Some EIO, fat2, io1, m1)
                else file_loop dev first fat2 (index + (l - cluster) + 1) nx 0 left' io1 m1)"
        using True loop r rl
        by (subst file_loop.simps) (simp add: Let_def flip: want_def rb_def n_def y_def fat2_def left'_def split: option.split)
      show ?thesis
      proof (cases res)
        case (Some e)
        have "unat n \<le> N" using n by simp
        then show ?thesis using body Some sv ok1 delivers_more [OF dl [unfolded Some]] by (auto simp: file_post_def)
      next
        case None
        obtain bs where io1: "io1 = skip (unat n) io" and m1: "m1 = store_bytes (address io) bs m"
          and bs: "length bs = unat n" "\<forall>i < unat n. file_byte img fat first (p + i) = Some (bs ! i)"
          using dl unfolding None by (rule delivers_NoneE)
        have rb0: "0 < unat rb'" using rb' within by (cases "unat rb' = 0") auto
        then have n0: "0 < unat n" "unat n \<le> N" using n N0 by simp_all
        have le: "unat n \<le> unat (length_remaining io)" "unat n \<le> unat size_left" using n0 N by simp_all
        have y: "unat y = unat within + unat n - 1"
        proof -
          have "unat (ucast within + n) = unat within + unat n"
            using le(2) unat_lt32 [of size_left] unat_lt32 [of within] by (simp add: unat_word_ariths)
          moreover from this have "ucast within + n \<noteq> 0" using n0 by auto
          ultimately show ?thesis by (simp add: y_def unat_minus_one)
        qed
        have sv2: "fat_ok img fat2" "same_volume fat1 fat2"
          using run_hint [OF ok1 run1 refl _ _ _ y] n' n0 p small le(2) within cong(2) unfolding fat2_def by auto
        have left': "unat left' = unat size_left - unat n"
          using unat_ucast_down [of n] le(2) unat_lt32 [of size_left]
          by (simp add: left'_def unat_sub word_le_nat_alt)
        have lr': "unat (length_remaining io1) = unat (length_remaining io) - unat n"
          using le(1) by (simp add: io1 unat_sub word_le_nat_alt)
        show ?thesis
        proof (cases "length_remaining io1 = 0 \<or> left' = 0")
          case True
          then have "unat (length_remaining io1) = 0 \<or> unat left' = 0" by auto
          then have "N = unat n" using N n0(2) lr' left' le by auto
          moreover have "file_loop dev first fat index cluster within size_left io m = Some (None, fat2, io1, m1)"
            using body None True by simp
          ultimately show ?thesis using dl None sv sv2 by (auto simp: file_post_def intro: same_volume_trans(1))
        next
          case False
          then have "unat (length_remaining io1) \<noteq> 0" "unat left' \<noteq> 0" by (auto simp: unat_eq_zero)
          then have lt: "unat n < N" using N lr' left' by auto
          then have nrb: "unat n = unat rb'" using n by simp
          have pn: "p + unat n = (unat index + h + 1) * cluster_size fat" using rb' nrb p by (simp add: algebra_simps)
          have nc: "nth_cluster img fat (unat index + h + 1) first = (if ended then FatEnd else Found nx)"
            using next_c lt nrb by simp
          show ?thesis
          proof (cases ended)
            case ended: True
            have "\<not> sure" using sure nc lt pn ended by (auto simp: complete_to_def dest!: spec [of _ "unat index + h + 1"])
            then have "delivers sure (file_byte img fat first) p N io m (Some EIO, io1, m1)"
              unfolding delivers_def io1 m1 using bs n0 by (intro exI [of _ "Some EIO"] exI [of _ "unat n"] exI [of _ bs]) simp
            then show ?thesis using body None False ended sv sv2
              by (auto simp: file_post_def intro: same_volume_trans(1))
          next
            case going: False
            have "(unat index + h + 1) \<le> (unat index + h + 1) * cluster_size fat" using within by (cases "cluster_size fat") auto
            then have i32: "unat index + h + 1 < 2 ^ 32" using pn small le(2) by linarith
            have idx: "unat (index + (l - cluster) + 1) = unat index + h + 1"
              using i32 by (simp add: l unat_word_ariths unat_of_nat)
            have sv': "same_volume fat fat2" using sv sv2(2) same_volume_trans(1) by blast
            note cong2 = file_cong [OF sv'] cluster_chain_cong [OF sv'] table_cong(4,6) [OF sv']
            have "file_post sure img fat2 first (p + unat n) (N - unat n) io1 m1
                (file_loop dev first fat2 (index + (l - cluster) + 1) nx 0 left' io1 m1)"
            proof (rule less.hyps)
              show "room io1 (N - unat n)" using room_skip [OF rm n0(2)] by (simp add: io1)
              show "sure \<longrightarrow> reliable dev img cap \<and> 512 * volume_end fat2 \<le> cap \<and> complete_to img fat2 first (p + unat n + (N - unat n))"
                using sure n0(2) cong2 by (simp add: complete_to_def)
            qed (use sv2 first nc going within small idx left' lr' le lt N pn n0 cong2 in auto)
            then have "file_post sure img fat first p N io m (file_loop dev first fat2 (index + (l - cluster) + 1) nx 0 left' io1 m1)"
              unfolding io1 m1 by (rule file_post_step) (use bs n0 N32 sv' in auto)
            then show ?thesis using body None False going by simp
          qed
        qed
      qed
    qed
  qed
qed

end

context faithful_disk
begin

lemma read_file_spec:
  assumes ok: "fat_ok img fat" and N: "N = min (unat (length_remaining io)) (unat file_size - unat (offset io))"
    and rm: "room io N"
    and sure: "sure \<longrightarrow> reliable dev img cap \<and> 512 * volume_end fat \<le> cap \<and>
      complete_to img fat first (unat (offset io) + N) \<and> 2 \<le> first \<and> first \<le> max_cluster fat \<and> length_remaining io \<noteq> 0"
  shows "file_post sure img fat first (unat (offset io)) N io m (fat_read_file_sync dev fat first file_size io m)"
proof -
  have v: "volume_ok fat" using ok by (simp add: fat_ok_def)
  have cb: "0 < cluster_size fat" using v by (simp add: volume_ok_def)
  show ?thesis
  proof (cases "ucast file_size \<le> offset io")
    case True
    then have "N = 0" using N by (simp add: word_le_nat_alt)
    then show ?thesis using True ok by (auto simp: fat_read_file_sync_def file_post_def delivers_none)
  next
    case False
    then have off: "unat (offset io) < unat file_size" by (simp add: word_le_nat_alt)
    show ?thesis
    proof (cases "first < 2 \<or> max_cluster fat < first")
      case True
      then show ?thesis using False ok sure delivers_fail0 by (auto simp: fat_read_file_sync_def file_post_def)
    next
      case rg: False
      then have first: "2 \<le> first" "first \<le> max_cluster fat" "first \<noteq> 0" by auto
      define index :: u32 where "index = ucast (offset io div ucast (cluster_bytes fat))"
      define within :: u32 where "within = ucast (offset io mod ucast (cluster_bytes fat))"
      have o32: "unat (offset io) < 2 ^ 32" using off unat_lt32 [of file_size] by simp
      have d: "unat (offset io div ucast (cluster_bytes fat)) = unat (offset io) div cluster_size fat"
        "unat (offset io mod ucast (cluster_bytes fat)) = unat (offset io) mod cluster_size fat"
        by (simp_all add: unat_div_distrib unat_mod_distrib)
      have index: "unat index = unat (offset io) div cluster_size fat"
        unfolding index_def using o32 by (subst unat_ucast_down) (simp_all add: d le_less_trans [OF div_le_dividend])
      have within: "unat within = unat (offset io) mod cluster_size fat"
        unfolding within_def using o32 by (subst unat_ucast_down) (simp_all add: d le_less_trans [OF mod_less_eq_dividend])
      have left: "unat (file_size - ucast (offset io)) = unat file_size - unat (offset io)"
        using off unat_ucast_down [OF o32] by (simp add: unat_sub word_le_nat_alt)
      obtain r fat1 where at: "fat_cluster_at dev fat first index = (r, fat1)" by (cases "fat_cluster_at dev fat first index")
      have S: "same_volume fat fat1" "fat_ok img fat1" "sound_result r (nth_cluster img fat (unat index) first)"
        using cluster_at_spec [OF ok at first(3)] by simp_all
      note cong = file_cong [OF S(1)] cluster_chain_cong [OF S(1)] table_cong(6) [OF S(1)]
      have full: "r = nth_cluster img fat (unat index) first" if sure
        using reliable_disk.cluster_at_full [OF disk_locales(2) ok _ at first(3)] sure that by blast
      have body: "fat_read_file_sync dev fat first file_size io m =
          (case r of FatEnd \<Rightarrow> Some (Some EIO, fat1, io, m) | Failed e \<Rightarrow> Some (Some e, fat1, io, m)
           | Found c \<Rightarrow> file_loop dev first fat1 index c within (file_size - ucast (offset io)) io m)"
        using False rg at
        by (simp add: fat_read_file_sync_def Let_def flip: index_def within_def split: fat_result.split)
      show ?thesis
      proof (cases "\<exists>c. r = Found c")
        case True
        then obtain c where c: "r = Found c" by blast
        have "file_post sure img fat1 first (unat (offset io)) N io m
            (file_loop dev first fat1 index c within (file_size - ucast (offset io)) io m)"
        proof (rule file_loop_spec)
          show "nth_cluster img fat1 (unat index) first = Found c" using S(3) c cong by (simp add: sound_result_def)
          show "sure \<longrightarrow> reliable dev img cap \<and> 512 * volume_end fat1 \<le> cap \<and> complete_to img fat1 first (unat (offset io) + N)"
            using sure cong by (simp add: complete_to_def)
        qed (use S rm first cong cb N off index within left unat_lt32 [of file_size] in auto)
        then show ?thesis using body c S(1) cong
          by (auto simp: file_post_def intro: same_volume_trans(1))
      next
        case noc: False
        have "\<not> sure"
        proof
          assume sure
          then have "0 < N" using sure off N by (simp add: unat_gt_0)
          then have "unat index * cluster_size fat < unat (offset io) + N" unfolding index
            by (metis div_times_less_eq_dividend le_neq_implies_less less_add_same_cancel1 trans_less_add1)
          then show False using sure \<open>sure\<close> full noc by (auto simp: complete_to_def)
        qed
        then show ?thesis using body S noc delivers_fail0 by (cases r) (auto simp: file_post_def)
      qed
    qed
  qed
qed

end

section \<open>Properties\<close>

text \<open>
  C32. Reading a file ends, on any disk and any chain, looping ones included. What it has stored is a
  prefix of the bytes of the file from the transfer's offset on, cut off at the size of the file, and
  nothing else in memory has changed; the transfer has moved over stored bytes only. A successful read
  has transferred all of it, and on a disk without failures and a chain as long as the size says the
  read is successful.
\<close>

theorem fat_read_file_correct:
  assumes "faithful dev img" "fat_ok img fat"
    "N = min (unat (length_remaining io)) (unat file_size - unat (offset io))" "room io N"
  shows "\<exists>res fat' j bs.
    fat_read_file_sync dev fat first file_size io m = Some (res, fat', skip j io, store_bytes (address io) bs m) \<and>
    fat_ok img fat' \<and> same_volume fat fat' \<and>
    (\<forall>i < length bs. file_byte img fat first (unat (offset io) + i) = Some (bs ! i)) \<and>
    j \<le> length bs \<and> length bs \<le> N \<and> (res = None \<longrightarrow> j = N) \<and>
    (reliable dev img cap \<and> 512 * volume_end fat \<le> cap \<and> complete_to img fat first (unat (offset io) + N) \<and>
     2 \<le> first \<and> first \<le> max_cluster fat \<and> length_remaining io \<noteq> 0 \<longrightarrow> res = None)"
proof -
  define sure where "sure \<longleftrightarrow> reliable dev img cap \<and> 512 * volume_end fat \<le> cap \<and>
    complete_to img fat first (unat (offset io) + N) \<and> 2 \<le> first \<and> first \<le> max_cluster fat \<and> length_remaining io \<noteq> 0"
  obtain res fat' io' m' where r: "fat_read_file_sync dev fat first file_size io m = Some (res, fat', io', m')"
    "same_volume fat fat'" "fat_ok img fat'"
    and d: "delivers sure (file_byte img fat first) (unat (offset io)) N io m (res, io', m')"
    using faithful_disk.read_file_spec [OF disk_locales(1) [OF assms(1)] assms(2-4) impI, of sure cap first m]
    unfolding file_post_def sure_def by blast
  obtain j bs where "io' = skip j io" "m' = store_bytes (address io) bs m"
    "\<forall>i < length bs. file_byte img fat first (unat (offset io) + i) = Some (bs ! i)" "j \<le> length bs"
    "length bs \<le> N" "res = None \<longrightarrow> j = N" "sure \<longrightarrow> res = None"
    using d by (auto simp: delivers_def)
  with r show ?thesis unfolding sure_def by blast
qed

definition demo_read :: transfer where
  "demo_read = \<lparr>address = 0x1000, length_remaining = 100, offset = 512, direction = TRANSFER_READ,
     ttype = TRANSFER_INTRA_KERNEL, blockable = True\<rparr>"

theorem fat_read_file_correct_witness:
  "\<exists>fat'. fat_read_file_sync (image_disk demo_image 8192) demo_fat 2 514 demo_read zeroed =
     Some (None, fat', skip 2 demo_read, store_bytes 0x1000 [104, 105] zeroed)"
proof -
  have chain: "nth_cluster demo_image demo_fat 0 2 = Found 2" "nth_cluster demo_image demo_fat 1 2 = Found 5"
    by (simp_all add: table_next_def table_entry_def entry_position_def entry_value_def table_byte_def demo_fat_def
        demo_image_def end_marker_def upt_0_2)
  have "complete_to demo_image demo_fat 2 514"
    unfolding complete_to_def
  proof (intro allI impI)
    fix k assume "k * cluster_size demo_fat < 514"
    then have "k = 0 \<or> k = 1" by (auto simp: demo_fat_def)
    then show "\<exists>c. nth_cluster demo_image demo_fat k 2 = Found c" using chain by auto
  qed
  moreover have "room demo_read 2" "512 * volume_end demo_fat \<le> 8192" "2 \<le> max_cluster demo_fat"
    by (simp_all add: room_def demo_read_def volume_end_def demo_fat_def)
  ultimately obtain fat' bs where r: "fat_read_file_sync (image_disk demo_image 8192) demo_fat 2 514 demo_read zeroed =
      Some (None, fat', skip 2 demo_read, store_bytes 0x1000 bs zeroed)"
    and bs: "\<forall>i < length bs. file_byte demo_image demo_fat 2 (512 + i) = Some (bs ! i)" "length bs = 2"
    using fat_read_file_correct [OF image_disk_reliable(2) demo_fat_ok, of 2 demo_read 514 demo_image 8192 2 zeroed 8192]
      image_disk_reliable(1) [of demo_image 8192]
    by (auto simp: demo_read_def)
  have "file_byte demo_image demo_fat 2 512 = Some 104" "file_byte demo_image demo_fat 2 513 = Some 105"
    using chain(2) by (simp_all add: file_byte_def cluster_pos_def demo_fat_def demo_image_def)
  then have "bs = [104, 105]"
    using bs(2) bs(1) [rule_format, of 0] bs(1) [rule_format, of 1] by (auto simp: length_Suc_conv numeral_2_eq_2)
  then show ?thesis using r by blast
qed

end
