(* ===== verification/FatDir.thy ===== *)
theory FatDir
  imports FatFile
begin

unbundle bit_operations_syntax

text \<open>
  Directories: \<^verbatim>\<open>kernel/fs/fat/fat_dir.c\<close>. A C string is the list of its characters; the terminator is
  what is read behind them.
\<close>

section \<open>Names\<close>

definition FatToUpper :: "u8 \<Rightarrow> u8" where
  "FatToUpper c = (if 0x61 \<le> c \<and> c \<le> 0x7A then c - 0x61 + 0x41 else c)"

definition FatToLower :: "u8 \<Rightarrow> u8" where
  "FatToLower c = (if 0x41 \<le> c \<and> c \<le> 0x5A then c - 0x41 + 0x61 else c)"

function FatNameEquals :: "u8 list \<Rightarrow> u8 list \<Rightarrow> bool" where
  "FatNameEquals a b =
     (if chr0 a \<noteq> 0 \<and> chr0 b \<noteq> 0 then
        (if FatToUpper (chr0 a) \<noteq> FatToUpper (chr0 b) then False else FatNameEquals (tl a) (tl b))
      else chr0 a = chr0 b)"
  by pat_completeness auto
termination
  by (relation "measure (\<lambda>(a, _). length a)") (auto simp: chr0_def split: list.splits)

definition FatEntryVisible :: "u8 list \<Rightarrow> bool" where
  "FatEntryVisible entry \<longleftrightarrow>
     (if entry ! 0 = 0xE5 then False
      else if entry ! 11 AND 0x3F = 0x0F then False
      else if entry ! 11 AND 0x08 \<noteq> 0 then False
      else True)"

text \<open>The two \<open>while\<close> loops that drop trailing spaces.\<close>

fun trimmed :: "u8 list \<Rightarrow> nat \<Rightarrow> nat \<Rightarrow> nat" where
  "trimmed entry base 0 = 0"
| "trimmed entry base (Suc n) = (if entry ! (base + n) = 0x20 then trimmed entry base n else Suc n)"

definition FatEntryName :: "u8 list \<Rightarrow> u8 list" where
  "FatEntryName entry =
     (let lower_name = entry ! 12 AND 0x08 \<noteq> 0; lower_ext = entry ! 12 AND 0x10 \<noteq> 0;
          name_length = trimmed entry 0 8; ext_length = trimmed entry 8 3;
          name = map (\<lambda>i. let c = entry ! i; c = (if i = 0 \<and> c = 0x05 then 0xE5 else c)
                          in if lower_name then FatToLower c else c) [0..<name_length];
          ext = map (\<lambda>i. let c = entry ! (8 + i) in if lower_ext then FatToLower c else c) [0..<ext_length]
      in if 0 < ext_length then name @ [0x2E] @ ext else name)"

section \<open>Entries\<close>

record fat_node_info =
  first_cluster :: u32
  fsize :: u32
  is_directory :: bool
  ino :: u32

definition FAT_ROOT_INO :: u32 where "FAT_ROOT_INO = 1"

definition fat_make_ino :: "fat \<Rightarrow> u32 \<Rightarrow> bool \<Rightarrow> u64 \<Rightarrow> u32" where
  "fat_make_ino fat cluster isdir position =
     (if isdir \<and> cluster = root_cluster fat then FAT_ROOT_INO
      else if cluster \<noteq> 0 then cluster + 1
      else 0x80000000 OR (ucast position AND 0x7FFFFFFF))"

definition fat_decode_entry :: "fat \<Rightarrow> u8 list \<Rightarrow> u64 \<Rightarrow> fat_node_info" where
  "fat_decode_entry fat entry position =
     (let isdir = entry ! 11 AND 0x10 \<noteq> 0;
          low = ucast (Le16 (drop 26 entry)) :: u32;
          cluster = (if ftype fat = FAT_TYPE_32 then low OR push_bit 16 (ucast (Le16 (drop 20 entry))) else low);
          cluster = (if isdir \<and> cluster = 0 then root_cluster fat else cluster)
      in \<lparr>first_cluster = cluster, fsize = (if isdir then 0 else Le32 (drop 28 entry)), is_directory = isdir,
          ino = fat_make_ino fat cluster isdir position\<rparr>)"

section \<open>Walking through a directory\<close>

record fat_dir_cursor =
  fixed_root :: bool
  csec :: u32
  ccluster :: u32
  sector_in_cluster :: u32
  cadvance :: bool

definition fat_dir_start :: "fat \<Rightarrow> u32 \<Rightarrow> errno + fat_dir_cursor" where
  "fat_dir_start fat dir_cluster =
     (if dir_cluster \<noteq> 0 \<and> (dir_cluster < 2 \<or> max_cluster fat < dir_cluster) then Inl EIO
      else Inr \<lparr>fixed_root = (dir_cluster = 0), csec = 0, ccluster = dir_cluster, sector_in_cluster = 0, cadvance = False\<rparr>)"

text \<open>Reading the sector at \<open>byte\<close> and stepping the cursor: the second half of \<open>fat_dir_next_sector\<close>.\<close>

definition dir_read_sector :: "disk \<Rightarrow> fat \<Rightarrow> fat_dir_cursor \<Rightarrow> u64 \<Rightarrow>
    (u8 list \<times> u64) fat_result \<times> fat \<times> fat_dir_cursor" where
  "dir_read_sector dev fat cursor byte =
     (case fat_disk_read dev FAT_SECTOR_SIZE byte of
        Inl e \<Rightarrow> (Failed e, fat, cursor)
      | Inr buffer \<Rightarrow>
          (let cursor = cursor\<lparr>csec := csec cursor + 1\<rparr>;
               cursor = (if fixed_root cursor then cursor
                 else (let cursor = cursor\<lparr>sector_in_cluster := sector_in_cluster cursor + 1\<rparr>
                       in if sector_in_cluster cursor = sectors_per_cluster fat then cursor\<lparr>cadvance := True\<rparr> else cursor))
           in (Found (buffer, byte), fat, cursor)))"

definition fat_dir_next_sector :: "disk \<Rightarrow> fat \<Rightarrow> fat_dir_cursor \<Rightarrow>
    (u8 list \<times> u64) fat_result \<times> fat \<times> fat_dir_cursor" where
  "fat_dir_next_sector dev fat cursor =
     (if 4096 \<le> csec cursor then (FatEnd, fat, cursor)
      else if fixed_root cursor then
        (if root_dir_sectors fat \<le> csec cursor then (FatEnd, fat, cursor)
         else dir_read_sector dev fat cursor (ucast (root_dir_start_sector fat + csec cursor) * 512))
      else
        (case (if cadvance cursor then
                 (case fat_next_cluster dev fat (ccluster cursor) of
                    (Found c, fat) \<Rightarrow> (Found (), fat, cursor\<lparr>ccluster := c, sector_in_cluster := 0, cadvance := False\<rparr>)
                  | (FatEnd, fat) \<Rightarrow> (FatEnd, fat, cursor)
                  | (Failed e, fat) \<Rightarrow> (Failed e, fat, cursor))
               else (Found (), fat, cursor)) of
           (Found _, fat, cursor) \<Rightarrow>
             dir_read_sector dev fat cursor
               (fat_cluster_to_byte fat (ccluster cursor) + ucast (sector_in_cluster cursor) * 512)
         | (FatEnd, fat, cursor) \<Rightarrow> (FatEnd, fat, cursor)
         | (Failed e, fat, cursor) \<Rightarrow> (Failed e, fat, cursor)))"

text \<open>
  The \<open>for\<close> loop over the entries of a sector, from the \<open>i\<close>-th on: a hit, the end of the directory, or
  the number of entries shown so far.
\<close>

datatype sector_scan = ScanHit nat "u8 list" | ScanEnd | ScanMore u32

definition entry_matches :: "u8 list option \<Rightarrow> u32 \<Rightarrow> u32 \<Rightarrow> u8 list \<Rightarrow> bool \<times> u32" where
  "entry_matches name nth_entry seen entry =
     (case name of
        Some s \<Rightarrow> (FatNameEquals s (FatEntryName entry), seen)
      | None \<Rightarrow> (seen = nth_entry, seen + 1))"

function scan_sector :: "u8 list option \<Rightarrow> u32 \<Rightarrow> u8 list \<Rightarrow> nat \<Rightarrow> u32 \<Rightarrow> sector_scan" where
  "scan_sector name nth_entry buffer i seen =
     (if i < 16 then
        (let entry = take 32 (drop (i * 32) buffer)
         in if entry ! 0 = 0 then ScanEnd
            else if \<not> FatEntryVisible entry then scan_sector name nth_entry buffer (i + 1) seen
            else (case entry_matches name nth_entry seen entry of
                    (True, _) \<Rightarrow> ScanHit i entry
                  | (False, seen) \<Rightarrow> scan_sector name nth_entry buffer (i + 1) seen))
      else ScanMore seen)"
  by pat_completeness auto
termination
  by (relation "measure (\<lambda>(_, _, _, i, _). 16 - i)") auto

text \<open>The loop over the sectors; it ends because the number of sectors is bounded.\<close>

lemma dir_next_sector_advances:
  assumes "fat_dir_next_sector dev fat cursor = (Found x, fat', cursor')"
  shows "unat (csec cursor') = unat (csec cursor) + 1" "unat (csec cursor) < 4096"
proof -
  have "csec cursor < 4096" using assms by (auto simp: fat_dir_next_sector_def not_le [symmetric] split: if_splits)
  then show lt: "unat (csec cursor) < 4096" by (simp add: word_less_nat_alt)
  have "csec cursor' = csec cursor + 1"
    using assms
    by (auto simp: fat_dir_next_sector_def dir_read_sector_def Let_def
        split: if_splits prod.splits sum.splits fat_result.splits)
  then show "unat (csec cursor') = unat (csec cursor) + 1" using lt by (simp add: unat_word_ariths)
qed

lemma dir_next_sector_measure:
  "fat_dir_next_sector dev fat cursor = (Found x, fat', cursor') \<Longrightarrow>
   4096 - unat (csec cursor') < 4096 - unat (csec cursor)"
  using dir_next_sector_advances [of dev fat cursor x fat' cursor'] by linarith

declare scan_sector.simps [simp del] FatNameEquals.simps [simp del]

function dir_scan_loop :: "disk \<Rightarrow> u8 list option \<Rightarrow> u32 \<Rightarrow> fat \<Rightarrow> fat_dir_cursor \<Rightarrow> u32 \<Rightarrow>
    (errno + u8 list \<times> u64) \<times> fat" where
  "dir_scan_loop dev name nth_entry fat cursor seen =
     (case fat_dir_next_sector dev fat cursor of
        (r, fat, cursor) \<Rightarrow>
          (case r of
             FatEnd \<Rightarrow> (Inl ENOENT, fat)
           | Failed e \<Rightarrow> (Inl e, fat)
           | Found x \<Rightarrow>
               (case scan_sector name nth_entry (fst x) 0 seen of
                  ScanEnd \<Rightarrow> (Inl ENOENT, fat)
                | ScanHit i entry \<Rightarrow> (Inr (entry, (snd x div 512) * 16 + of_nat i), fat)
                | ScanMore seen \<Rightarrow> dir_scan_loop dev name nth_entry fat cursor seen)))"
  by pat_completeness auto
termination
  by (relation "measure (\<lambda>(_, _, _, _, cursor, _). 4096 - unat (csec cursor))") (auto dest: dir_next_sector_measure [OF sym])

declare dir_scan_loop.simps [simp del]

definition fat_dir_scan :: "disk \<Rightarrow> fat \<Rightarrow> u32 \<Rightarrow> u8 list option \<Rightarrow> u32 \<Rightarrow> (errno + u8 list \<times> u64) \<times> fat" where
  "fat_dir_scan dev fat dir_cluster name nth_entry =
     (case fat_dir_start fat dir_cluster of
        Inl e \<Rightarrow> (Inl e, fat)
      | Inr cursor \<Rightarrow> dir_scan_loop dev name nth_entry fat cursor 0)"

definition fat_follow :: "disk \<Rightarrow> fat \<Rightarrow> u32 \<Rightarrow> u8 list \<Rightarrow> (errno + fat_node_info) \<times> fat" where
  "fat_follow dev fat dir_cluster name =
     (if 12 < length name then (Inl ENOENT, fat)
      else case fat_dir_scan dev fat dir_cluster (Some name) 0 of
        (Inl e, fat) \<Rightarrow> (Inl e, fat)
      | (Inr (entry, position), fat) \<Rightarrow> (Inr (fat_decode_entry fat entry position), fat))"

text \<open>
  The bytes of a \<^verbatim>\<open>struct dirent\<close>: \<open>d_ino\<close>, \<open>d_name\<close>, \<open>d_namlen\<close>, \<open>d_type\<close>, two bytes of padding,
  \<open>d_disk\<close>. \<open>DT_REG\<close> is 4, \<open>DT_DIR\<close> 5.
\<close>

definition dirent :: "u32 \<Rightarrow> u8 list \<Rightarrow> bool \<Rightarrow> u32 \<Rightarrow> u8 list" where
  "dirent inode name isdir dsk =
     le32 inode @ (name @ replicate (256 - length name) 0) @ [of_nat (length name), if isdir then 5 else 4, 0, 0] @ le32 dsk"

text \<open>Cuts a name off at its terminator, as \<open>strcpy\<close> and \<open>strlen\<close> do.\<close>

definition c_string :: "u8 list \<Rightarrow> u8 list" where
  "c_string s = takeWhile (\<lambda>c. c \<noteq> 0) s"

text \<open>\<open>st_dev\<close> is the device number of the disk.\<close>

definition fat_read_directory_entry_sync ::
    "disk \<Rightarrow> u64 \<Rightarrow> fat \<Rightarrow> u32 \<Rightarrow> transfer \<Rightarrow> mem \<Rightarrow> (errno option \<times> fat \<times> transfer \<times> mem) option" where
  "fat_read_directory_entry_sync dev st_dev fat dir_cluster io m =
     (if offset io mod 268 \<noteq> 0 then Some (Some EINVAL, fat, io, m)
      else
        (let entry_number = offset io div 268; root = (dir_cluster = root_cluster fat)
         in if root \<and> entry_number = 0 then
              map_option (\<lambda>(res, _, io, m). (res, fat, io, m))
                (PerformTransfer (dirent FAT_ROOT_INO [0x2E] True (ucast st_dev)) io 268 m)
            else
              (let entry_number = (if root then entry_number - 1 else entry_number)
               in case fat_dir_scan dev fat dir_cluster None (ucast entry_number) of
                    (Inl e, fat) \<Rightarrow> Some (if e = ENOENT then None else Some e, fat, io, m)
                  | (Inr (entry, position), fat) \<Rightarrow>
                      (let info = fat_decode_entry fat entry position
                       in map_option (\<lambda>(res, _, io, m). (res, fat, io, m))
                            (PerformTransfer (dirent (ino info) (c_string (FatEntryName entry)) (is_directory info) (ucast st_dev))
                               io 268 m)))))"

section \<open>The directory as a list\<close>

text \<open>
  Where the \<open>k\<close>-th sector of a directory lies, the positions of its sectors, and its entries with their
  positions on the volume in units of entries. At most 4096 sectors count.
\<close>

definition dir_pos :: "(nat \<Rightarrow> u8) \<Rightarrow> fat \<Rightarrow> u32 \<Rightarrow> nat \<Rightarrow> nat fat_result" where
  "dir_pos img fat dir k =
     (if dir = 0 then
        (if k < unat (root_dir_sectors fat) then Found ((unat (root_dir_start_sector fat) + k) * 512) else FatEnd)
      else
        (case nth_cluster img fat (k div unat (sectors_per_cluster fat)) dir of
           Found c \<Rightarrow> Found (cluster_pos fat c + k mod unat (sectors_per_cluster fat) * 512)
         | FatEnd \<Rightarrow> FatEnd
         | Failed e \<Rightarrow> Failed e))"

fun dir_positions :: "(nat \<Rightarrow> u8) \<Rightarrow> fat \<Rightarrow> u32 \<Rightarrow> nat \<Rightarrow> nat \<Rightarrow> nat list" where
  "dir_positions img fat dir k 0 = []"
| "dir_positions img fat dir k (Suc n) =
     (case dir_pos img fat dir k of Found p \<Rightarrow> p # dir_positions img fat dir (Suc k) n | _ \<Rightarrow> [])"

definition sector_entries :: "(nat \<Rightarrow> u8) \<Rightarrow> nat \<Rightarrow> (nat \<times> u8 list) list" where
  "sector_entries img p = map (\<lambda>i. (p div 512 * 16 + i, data_at img (p + i * 32) 32)) [0..<16]"

definition dir_entries :: "(nat \<Rightarrow> u8) \<Rightarrow> fat \<Rightarrow> u32 \<Rightarrow> (nat \<times> u8 list) list" where
  "dir_entries img fat dir = concat (map (sector_entries img) (dir_positions img fat dir 0 4096))"

text \<open>The entries that are shown: those before the end marker that are not deleted, labels or long names.\<close>

definition dir_visible :: "(nat \<Rightarrow> u8) \<Rightarrow> fat \<Rightarrow> u32 \<Rightarrow> (nat \<times> u8 list) list" where
  "dir_visible img fat dir = filter (\<lambda>(_, e). FatEntryVisible e) (takeWhile (\<lambda>(_, e). e ! 0 \<noteq> 0) (dir_entries img fat dir))"

text \<open>What a scan looks for in them.\<close>

definition dir_lookup :: "u8 list option \<Rightarrow> nat \<Rightarrow> (nat \<times> u8 list) list \<Rightarrow> (nat \<times> u8 list) option" where
  "dir_lookup name n es =
     (case name of
        Some s \<Rightarrow> find (\<lambda>(_, e). FatNameEquals s (FatEntryName e)) es
      | None \<Rightarrow> if n < length es then Some (es ! n) else None)"

text \<open>The same, entry by entry.\<close>

fun dir_find :: "u8 list option \<Rightarrow> u32 \<Rightarrow> u32 \<Rightarrow> (nat \<times> u8 list) list \<Rightarrow> (nat \<times> u8 list) option" where
  "dir_find name nth_entry seen [] = None"
| "dir_find name nth_entry seen (x # xs) =
     (if snd x ! 0 = 0 then None
      else if \<not> FatEntryVisible (snd x) then dir_find name nth_entry seen xs
      else (case entry_matches name nth_entry seen (snd x) of
              (True, _) \<Rightarrow> Some x
            | (False, seen) \<Rightarrow> dir_find name nth_entry seen xs))"

lemma dir_find_named:
  "dir_find (Some s) n seen es =
   find (\<lambda>(_, e). FatNameEquals s (FatEntryName e)) (filter (\<lambda>(_, e). FatEntryVisible e) (takeWhile (\<lambda>(_, e). e ! 0 \<noteq> 0) es))"
  by (induction es) (auto simp: entry_matches_def)

lemma dir_find_nth:
  assumes "unat seen \<le> unat n" "unat seen + length es < 2 ^ 32"
  shows "dir_find None n seen es =
   (let vs = filter (\<lambda>(_, e). FatEntryVisible e) (takeWhile (\<lambda>(_, e). e ! 0 \<noteq> 0) es)
    in if unat n - unat seen < length vs then Some (vs ! (unat n - unat seen)) else None)"
  using assms
proof (induction es arbitrary: seen)
  case (Cons x es)
  show ?case
  proof (cases "snd x ! 0 \<noteq> 0 \<and> FatEntryVisible (snd x) \<and> seen \<noteq> n")
    case True
    then have lt: "unat seen < unat n" using Cons.prems(1) by (metis le_neq_implies_less unsigned_word_eqI)
    have "unat (seen + 1) = unat seen + 1" using Cons.prems(2) by (simp add: unat_word_ariths)
    with Cons.IH [of "seen + 1"] Cons.prems(2) True lt show ?thesis
      by (cases x) (simp add: entry_matches_def Let_def Suc_diff_Suc [symmetric] nth_Cons')
  next
    case False
    then show ?thesis using Cons.IH [of seen] Cons.prems by (cases x) (auto simp: entry_matches_def Let_def)
  qed
qed simp

lemma dir_find_lookup:
  assumes "length es < 2 ^ 32"
  shows "dir_find name n 0 es =
    dir_lookup name (unat n) (filter (\<lambda>(_, e). FatEntryVisible e) (takeWhile (\<lambda>(_, e). e ! 0 \<noteq> 0) es))"
  using dir_find_named dir_find_nth [of 0 n es] assms by (cases name) (auto simp: dir_lookup_def Let_def)

text \<open>A scan of one sector does a step of that.\<close>

lemma scan_sector_find:
  assumes "i \<le> 16"
  shows "dir_find name n seen (drop i (sector_entries img p) @ rest) =
    (case scan_sector name n (data_at img p 512) i seen of
       ScanHit j e \<Rightarrow> Some (p div 512 * 16 + j, e)
     | ScanEnd \<Rightarrow> None
     | ScanMore seen \<Rightarrow> dir_find name n seen rest)"
  using assms
proof (induction name n "data_at img p 512" i seen rule: scan_sector.induct)
  case (1 name n i seen)
  show ?case
  proof (cases "i < 16")
    case True
    let ?e = "data_at img (p + i * 32) 32"
    have d: "drop i (sector_entries img p) = (p div 512 * 16 + i, ?e) # drop (Suc i) (sector_entries img p)"
      using True by (simp add: sector_entries_def Cons_nth_drop_Suc [symmetric])
    have e: "take 32 (drop (i * 32) (data_at img p 512)) = ?e" using True by (simp add: mult.commute)
    show ?thesis
      using 1 True unfolding d
      by (subst scan_sector.simps) (auto simp: e Let_def split: prod.splits bool.splits)
  next
    case False
    then have "i = 16" using "1.prems" by simp
    then show ?thesis by (subst scan_sector.simps) (simp add: sector_entries_def)
  qed
qed

end
