(* ===== verification/FatDirProps.thy ===== *)
theory FatDirProps
  imports FatDir
begin

unbundle bit_operations_syntax

text \<open>
  Scanning a directory with \<^verbatim>\<open>kernel/fs/fat/fat_dir.c\<close> finds what the list of its entries says; looking up
  names, reading a directory, and the inode numbers.
\<close>

section \<open>Walking reads the sectors of the directory\<close>

definition dir_ok :: "fat \<Rightarrow> u32 \<Rightarrow> bool" where
  "dir_ok fat dir \<longleftrightarrow> dir = 0 \<or> 2 \<le> dir \<and> dir \<le> max_cluster fat"

text \<open>The cursor stands before the \<open>k\<close>-th sector.\<close>

definition cursor_at :: "(nat \<Rightarrow> u8) \<Rightarrow> fat \<Rightarrow> u32 \<Rightarrow> nat \<Rightarrow> fat_dir_cursor \<Rightarrow> bool" where
  "cursor_at img fat dir k cur \<longleftrightarrow>
     k \<le> 4096 \<and> unat (csec cur) = k \<and> fixed_root cur = (dir = 0) \<and> (dir = 0 \<longrightarrow> \<not> cadvance cur) \<and>
     (dir \<noteq> 0 \<longrightarrow> (let s = unat (sectors_per_cluster fat) in
        if cadvance cur then k mod s = 0 \<and> 0 < k \<and> nth_cluster img fat (k div s - 1) dir = Found (ccluster cur)
        else nth_cluster img fat (k div s) dir = Found (ccluster cur) \<and> unat (sector_in_cluster cur) = k mod s))"

lemma dir_cong:
  assumes "same_volume fat fat'"
  shows "dir_pos img fat' = dir_pos img fat" "cursor_at img fat' = cursor_at img fat"
    "sectors_per_cluster fat' = sectors_per_cluster fat" "root_dir_start_sector fat' = root_dir_start_sector fat"
    "root_dir_sectors fat' = root_dir_sectors fat"
proof -
  have eqs: "sectors_per_cluster fat' = sectors_per_cluster fat" "root_dir_start_sector fat' = root_dir_start_sector fat"
    "root_dir_sectors fat' = root_dir_sectors fat" "data_start_sector fat' = data_start_sector fat"
    using assms by (simp_all add: same_volume_def)
  then show "sectors_per_cluster fat' = sectors_per_cluster fat" "root_dir_start_sector fat' = root_dir_start_sector fat"
    "root_dir_sectors fat' = root_dir_sectors fat" by simp_all
  show "dir_pos img fat' = dir_pos img fat"
    unfolding dir_pos_def cluster_pos_def cluster_chain_cong(2) [OF assms] eqs ..
  show "cursor_at img fat' = cursor_at img fat" unfolding cursor_at_def cluster_chain_cong(2) [OF assms] eqs ..
qed

lemma cursor_advanced:
  assumes c: "cursor_at img fat dir k cur" "\<not> cadvance cur" "k < 4096" and v: "volume_ok fat"
  shows "cursor_at img fat dir (k + 1)
    (let cursor = cur\<lparr>csec := csec cur + 1\<rparr>
     in if fixed_root cursor then cursor
        else (let cursor = cursor\<lparr>sector_in_cluster := sector_in_cluster cursor + 1\<rparr>
              in if sector_in_cluster cursor = sectors_per_cluster fat then cursor\<lparr>cadvance := True\<rparr> else cursor))"
proof -
  let ?s = "unat (sectors_per_cluster fat)"
  have s: "0 < ?s" "?s \<le> 255" using v by (simp_all add: volume_ok_def)
  have k1: "unat (csec cur + 1) = k + 1" using c by (simp add: cursor_at_def unat_word_ariths)
  show ?thesis
  proof (cases "dir = 0")
    case True
    then show ?thesis using c k1 by (simp add: cursor_at_def)
  next
    case False
    then have n: "nth_cluster img fat (k div ?s) dir = Found (ccluster cur)" and sic: "unat (sector_in_cluster cur) = k mod ?s"
      using c by (simp_all add: cursor_at_def Let_def)
    have "k mod ?s < ?s" using s by simp
    then have sic1: "unat (sector_in_cluster cur + 1) = k mod ?s + 1" using s sic \<open>k mod ?s < ?s\<close> by (simp add: unat_word_ariths)
    show ?thesis
    proof (cases "k mod ?s + 1 = ?s")
      case True
      then have "sector_in_cluster cur + 1 = sectors_per_cluster fat" using sic1 by (metis unsigned_word_eqI)
      moreover have "(k + 1) mod ?s = 0" "(k + 1) div ?s - 1 = k div ?s"
        using True s by (simp_all add: mod_Suc div_Suc)
      ultimately show ?thesis using c False n k1 by (simp add: cursor_at_def Let_def)
    next
      case ne: False
      then have "sector_in_cluster cur + 1 \<noteq> sectors_per_cluster fat" using sic1 by auto
      moreover have "(k + 1) mod ?s = k mod ?s + 1" "(k + 1) div ?s = k div ?s"
        using ne s by (simp_all add: mod_Suc div_Suc)
      ultimately show ?thesis using c False n k1 sic1 by (simp add: cursor_at_def Let_def)
    qed
  qed
qed

lemma dir_positions_step:
  "k < 4096 \<Longrightarrow> dir_positions img fat dir k (4096 - k) =
    (case dir_pos img fat dir k of Found p \<Rightarrow> p # dir_positions img fat dir (k + 1) (4096 - (k + 1)) | _ \<Rightarrow> [])"
  by (subst Suc_diff_Suc [symmetric]) (auto split: fat_result.splits)

context faithful_disk
begin

lemma read_sector_sure:
  assumes "fat_disk_read dev FAT_SECTOR_SIZE byte = r"
    "sure \<longrightarrow> reliable dev img cap \<and> unat byte + 512 \<le> cap"
  shows "case r of Inl e \<Rightarrow> \<not> sure | Inr bs \<Rightarrow> bs = data_at img (unat byte) 512"
proof (cases r)
  case (Inl e)
  have "reliable_disk dev img cap" if sure using disk_locales(2) assms(2) that by blast
  then have "\<not> sure" using assms Inl reliable_disk.disk_read_full [of dev img cap byte 512] by auto
  then show ?thesis using Inl by simp
next
  case (Inr bs)
  then show ?thesis using disk_read_data [of 512 byte bs] assms(1) by (simp add: data_at_def)
qed

lemma dir_read_sector_spec:
  assumes c: "cursor_at img fat dir k cur" "\<not> cadvance cur" "k < 4096" and v: "volume_ok fat"
    and p: "dir_pos img fat dir k = Found (unat byte)" "unat byte + 512 \<le> 512 * volume_end fat"
    and sure: "sure \<longrightarrow> reliable dev img cap \<and> 512 * volume_end fat \<le> cap"
    and r: "dir_read_sector dev fat cur byte = (r, fat', cur')"
  shows "fat' = fat \<and>
    (case r of
       Found (buf, b) \<Rightarrow> dir_pos img fat dir k = Found (unat b) \<and> buf = data_at img (unat b) 512 \<and> cursor_at img fat dir (k + 1) cur'
     | FatEnd \<Rightarrow> False
     | Failed e \<Rightarrow> \<not> sure)"
proof -
  have "sure \<longrightarrow> reliable dev img cap \<and> unat byte + 512 \<le> cap" using sure p(2) by linarith
  note rd = read_sector_sure [OF refl this]
  show ?thesis
  proof (cases "fat_disk_read dev FAT_SECTOR_SIZE byte")
    case (Inl e)
    then show ?thesis using r rd by (auto simp: dir_read_sector_def)
  next
    case (Inr buf)
    then have "r = Found (buf, byte)" "fat' = fat" "cur' =
       (let cursor = cur\<lparr>csec := csec cur + 1\<rparr>
        in if fixed_root cursor then cursor
           else (let cursor = cursor\<lparr>sector_in_cluster := sector_in_cluster cursor + 1\<rparr>
                 in if sector_in_cluster cursor = sectors_per_cluster fat then cursor\<lparr>cadvance := True\<rparr> else cursor))"
      using r by (simp_all add: dir_read_sector_def Let_def)
    then show ?thesis using cursor_advanced [OF c v] rd Inr p(1) by simp
  qed
qed

text \<open>The position of a sector in a cluster.\<close>

lemma cluster_sector_pos:
  assumes v: "volume_ok fat" and c: "2 \<le> c" "c \<le> max_cluster fat" and j: "unat j < unat (sectors_per_cluster fat)"
  shows "unat (fat_cluster_to_byte fat c + ucast (j :: u32) * 512) = cluster_pos fat c + unat j * 512"
    "cluster_pos fat c + unat j * 512 + 512 \<le> 512 * volume_end fat"
proof -
  note C = cluster_to_byte [OF v c]
  have "cluster_size fat = 512 * unat (sectors_per_cluster fat)" using v by (simp add: volume_ok_def)
  then show "cluster_pos fat c + unat j * 512 + 512 \<le> 512 * volume_end fat" using C(2) j by linarith
  then have lt: "cluster_pos fat c + unat j * 512 < 2 ^ 64" using C(3) by simp
  have "unat (ucast j * 512 :: u64) = unat j * 512" by (rule unat_sector_byte)
  then show "unat (fat_cluster_to_byte fat c + ucast j * 512) = cluster_pos fat c + unat j * 512"
    unfolding unat_word_ariths(1) C(1) using lt by simp
qed

text \<open>Following the chain when a cluster is used up, and reading from the cluster the cursor is in.\<close>

lemma dir_next_sector_chain:
  assumes ok: "fat_ok img fat" and dir: "2 \<le> dir" "dir \<le> max_cluster fat" and c: "cursor_at img fat dir k cur" "k < 4096"
    and sure: "sure \<longrightarrow> reliable dev img cap \<and> 512 * volume_end fat \<le> cap"
    and r: "fat_dir_next_sector dev fat cur = (r, fat', cur')"
  shows "same_volume fat fat' \<and> fat_ok img fat' \<and>
    (case r of
       Found (buf, byte) \<Rightarrow> dir_pos img fat dir k = Found (unat byte) \<and> buf = data_at img (unat byte) 512 \<and>
         cursor_at img fat dir (k + 1) cur'
     | FatEnd \<Rightarrow> dir_pos img fat dir k = FatEnd
     | Failed e \<Rightarrow> sure \<longrightarrow> dir_pos img fat dir k = Failed e)"
proof -
  let ?s = "unat (sectors_per_cluster fat)"
  have v: "volume_ok fat" using ok by (simp add: fat_ok_def)
  then have s: "0 < ?s" by (simp add: volume_ok_def)
  have d0: "dir \<noteq> 0" using dir(1) by auto
  have c4: "\<not> 4096 \<le> csec cur" "\<not> fixed_root cur" using c d0 by (simp_all add: cursor_at_def word_le_nat_alt)
  have read: "same_volume fat fat' \<and> fat_ok img fat' \<and>
    (case r of
       Found (buf, byte) \<Rightarrow> dir_pos img fat dir k = Found (unat byte) \<and> buf = data_at img (unat byte) 512 \<and>
         cursor_at img fat dir (k + 1) cur'
     | FatEnd \<Rightarrow> dir_pos img fat dir k = FatEnd
     | Failed e \<Rightarrow> sure \<longrightarrow> dir_pos img fat dir k = Failed e)"
    if ok1: "fat_ok img fat1" "same_volume fat fat1" and c1: "cursor_at img fat1 dir k cur1" "\<not> cadvance cur1"
      and r1: "dir_read_sector dev fat1 cur1 (fat_cluster_to_byte fat1 (ccluster cur1) + ucast (sector_in_cluster cur1) * 512) =
        (r, fat', cur')" for fat1 cur1
  proof -
    note cong = dir_cong [OF ok1(2)] file_cong [OF ok1(2)] cluster_chain_cong [OF ok1(2)] table_cong(6) [OF ok1(2)]
    have v1: "volume_ok fat1" using ok1 by (simp add: fat_ok_def)
    have n: "nth_cluster img fat1 (k div ?s) dir = Found (ccluster cur1)" and sic: "unat (sector_in_cluster cur1) = k mod ?s"
      using c1 d0 cong by (simp_all add: cursor_at_def Let_def)
    have rg: "2 \<le> ccluster cur1" "ccluster cur1 \<le> max_cluster fat1" using nth_cluster_range [OF n] dir cong by simp_all
    have lt: "unat (sector_in_cluster cur1) < unat (sectors_per_cluster fat1)" using sic s cong by simp
    note P = cluster_sector_pos [OF v1 rg lt]
    have pos: "dir_pos img fat1 dir k = Found (unat (fat_cluster_to_byte fat1 (ccluster cur1) + ucast (sector_in_cluster cur1) * 512))"
      unfolding P(1) using d0 n sic cong(3) by (simp add: dir_pos_def)
    have "sure \<longrightarrow> reliable dev img cap \<and> 512 * volume_end fat1 \<le> cap" using sure cong by simp
    from dir_read_sector_spec [OF c1 c(2) v1 pos _ this r1] P ok1 cong(1,2) show ?thesis
      by (auto split: fat_result.splits)
  qed
  show ?thesis
  proof (cases "cadvance cur")
    case False
    then show ?thesis using read [of fat cur] ok c r c4 by (simp add: fat_dir_next_sector_def)
  next
    case True
    then have k: "k mod ?s = 0" "0 < k" and n: "nth_cluster img fat (k div ?s - 1) dir = Found (ccluster cur)"
      using c d0 by (simp_all add: cursor_at_def Let_def)
    then have "0 < k div ?s" using s by (auto simp: div_greater_zero_iff dest: mod_less)
    then have nk: "nth_cluster img fat (k div ?s) dir = table_next img fat (ccluster cur)"
      using nth_cluster_Suc [OF n] by simp
    obtain r1 fat1 where r1: "fat_next_cluster dev fat (ccluster cur) = (r1, fat1)" by (cases "fat_next_cluster dev fat (ccluster cur)")
    note S = next_cluster_sure [OF ok r1 sure]
    show ?thesis
    proof (cases r1)
      case (Found c')
      then have tn: "nth_cluster img fat (k div ?s) dir = Found c'" using S nk by auto
      have sv: "same_volume fat fat1" using S by blast
      have "cursor_at img fat1 dir k (cur\<lparr>ccluster := c', sector_in_cluster := 0, cadvance := False\<rparr>)"
        using c tn d0 k(1) dir_cong(2) [OF sv] by (simp add: cursor_at_def)
      moreover have "dir_read_sector dev fat1 (cur\<lparr>ccluster := c', sector_in_cluster := 0, cadvance := False\<rparr>)
          (fat_cluster_to_byte fat1 c') = (r, fat', cur')"
        using c4 True r r1 Found by (simp add: fat_dir_next_sector_def)
      ultimately show ?thesis
        using read [of fat1 "cur\<lparr>ccluster := c', sector_in_cluster := 0, cadvance := False\<rparr>"] S by simp
    next
      case FatEnd
      then show ?thesis using S nk c4 True r r1 d0 by (auto simp: fat_dir_next_sector_def dir_pos_def)
    next
      case (Failed e)
      then have "r = Failed e" "fat' = fat1" using c4 True r r1 by (simp_all add: fat_dir_next_sector_def)
      moreover have "dir_pos img fat dir k = Failed e" if sure
      proof -
        have "table_next img fat (ccluster cur) = Failed e" using S Failed that by auto
        then show ?thesis using nk d0 by (simp add: dir_pos_def)
      qed
      ultimately show ?thesis using S by simp
    qed
  qed
qed

lemma dir_next_sector_spec:
  assumes ok: "fat_ok img fat" and dir: "dir_ok fat dir" and c: "cursor_at img fat dir k cur"
    and sure: "sure \<longrightarrow> reliable dev img cap \<and> 512 * volume_end fat \<le> cap"
    and r: "fat_dir_next_sector dev fat cur = (r, fat', cur')"
  shows "same_volume fat fat' \<and> fat_ok img fat' \<and>
    (case r of
       Found (buf, byte) \<Rightarrow> k < 4096 \<and> dir_pos img fat dir k = Found (unat byte) \<and> buf = data_at img (unat byte) 512 \<and>
         cursor_at img fat dir (k + 1) cur'
     | FatEnd \<Rightarrow> k = 4096 \<or> dir_pos img fat dir k = FatEnd
     | Failed e \<Rightarrow> sure \<longrightarrow> k < 4096 \<and> dir_pos img fat dir k = Failed e)"
proof (cases "k = 4096")
  case True
  then have "4096 \<le> csec cur" using c by (simp add: cursor_at_def word_le_nat_alt)
  then show ?thesis using r ok True by (auto simp: fat_dir_next_sector_def)
next
  case False
  then have k: "k < 4096" using c by (simp add: cursor_at_def)
  show ?thesis
  proof (cases "dir = 0")
    case False
    then show ?thesis using dir_next_sector_chain [OF ok _ _ c k sure r] dir k
      by (auto simp: dir_ok_def split: fat_result.splits)
  next
    case True
    have v: "volume_ok fat" using ok by (simp add: fat_ok_def)
    have cs: "unat (csec cur) = k" "fixed_root cur" "\<not> 4096 \<le> csec cur"
      using c True k by (simp_all add: cursor_at_def word_le_nat_alt)
    show ?thesis
    proof (cases "root_dir_sectors fat \<le> csec cur")
      case past: True
      then show ?thesis using cs r ok \<open>dir = 0\<close> by (auto simp: fat_dir_next_sector_def dir_pos_def word_le_nat_alt)
    next
      case lt: False
      then have kr: "k < unat (root_dir_sectors fat)" using cs by (simp add: word_le_nat_alt)
      have vol: "unat (root_dir_start_sector fat) + unat (root_dir_sectors fat) \<le> volume_end fat" "volume_end fat < 2 ^ 32"
        using v by (simp_all add: volume_ok_def volume_end_def)
      have "unat (root_dir_start_sector fat + csec cur) = unat (root_dir_start_sector fat) + k"
        using vol kr cs by (simp add: unat_word_ariths)
      then have b: "unat (ucast (root_dir_start_sector fat + csec cur) * 512 :: u64) = (unat (root_dir_start_sector fat) + k) * 512"
        unfolding unat_sector_byte by simp
      have pos: "dir_pos img fat dir k = Found (unat (ucast (root_dir_start_sector fat + csec cur) * 512 :: u64))"
        unfolding b using True kr by (simp add: dir_pos_def)
      have na: "\<not> cadvance cur" using c True by (simp add: cursor_at_def)
      have "dir_read_sector dev fat cur (ucast (root_dir_start_sector fat + csec cur) * 512) = (r, fat', cur')"
        using r cs lt by (simp add: fat_dir_next_sector_def)
      from dir_read_sector_spec [OF c na k v pos _ sure this] kr vol b k ok show ?thesis
        by (auto split: fat_result.splits)
    qed
  qed
qed

text \<open>A scan finds what the list of entries says, or the disk has failed, or the chain is broken.\<close>

lemma dir_scan_loop_spec:
  assumes "fat_ok img fat" "dir_ok fat dir" "cursor_at img fat dir k cur"
    "sure \<longrightarrow> reliable dev img cap \<and> 512 * volume_end fat \<le> cap"
    "dir_scan_loop dev name n fat cur seen = (r, fat')"
  shows "same_volume fat fat' \<and> fat_ok img fat' \<and>
    (case r of
       Inr (e, pos) \<Rightarrow> \<exists>p. dir_find name n seen (concat (map (sector_entries img) (dir_positions img fat dir k (4096 - k)))) = Some (p, e) \<and>
         pos = of_nat p
     | Inl err \<Rightarrow> sure \<longrightarrow>
         dir_find name n seen (concat (map (sector_entries img) (dir_positions img fat dir k (4096 - k)))) = None \<and>
         (err = ENOENT \<or> (\<exists>j. dir_pos img fat dir j = Failed err)))"
  using assms
proof (induction "4096 - k" arbitrary: k fat cur seen rule: less_induct)
  case less
  obtain x fat1 cur1 where nx: "fat_dir_next_sector dev fat cur = (x, fat1, cur1)" by (metis prod_cases3)
  note S = dir_next_sector_spec [OF less.prems(1-4) nx]
  show ?case
  proof (cases x)
    case FatEnd
    then have "r = Inl ENOENT" "fat' = fat1" using less.prems(5) nx by (subst (asm) dir_scan_loop.simps; simp)+
    moreover have "k \<le> 4096" using less.prems(3) by (simp add: cursor_at_def)
    then have "dir_positions img fat dir k (4096 - k) = []"
      using S FatEnd dir_positions_step [of k img fat dir] by (cases "k = 4096") auto
    ultimately show ?thesis using S by simp
  next
    case (Failed e)
    then have "r = Inl e" "fat' = fat1" using less.prems(5) nx by (subst (asm) dir_scan_loop.simps; simp)+
    then show ?thesis using S Failed dir_positions_step [of k img fat dir] by auto
  next
    case (Found y)
    obtain buf byte where y: "y = (buf, byte)" by (cases y)
    have sv: "same_volume fat fat1" "fat_ok img fat1" using S by simp_all
    have k: "k < 4096" and pos: "dir_pos img fat dir k = Found (unat byte)" and buf: "buf = data_at img (unat byte) 512"
      and c1: "cursor_at img fat dir (k + 1) cur1"
      using S Found y by simp_all
    have list: "concat (map (sector_entries img) (dir_positions img fat dir k (4096 - k))) = drop 0 (sector_entries img (unat byte)) @
        concat (map (sector_entries img) (dir_positions img fat dir (k + 1) (4096 - (k + 1))))"
      using dir_positions_step [OF k, of img fat dir] pos by simp
    have scan: "dir_find name n seen (concat (map (sector_entries img) (dir_positions img fat dir k (4096 - k)))) =
        (case scan_sector name n buf 0 seen of
           ScanHit j e \<Rightarrow> Some (unat byte div 512 * 16 + j, e)
         | ScanEnd \<Rightarrow> None
         | ScanMore seen \<Rightarrow>
             dir_find name n seen (concat (map (sector_entries img) (dir_positions img fat dir (k + 1) (4096 - (k + 1))))))"
      unfolding list buf by (rule scan_sector_find) simp
    have body: "dir_scan_loop dev name n fat cur seen =
        (case scan_sector name n buf 0 seen of
           ScanEnd \<Rightarrow> (Inl ENOENT, fat1)
         | ScanHit i entry \<Rightarrow> (Inr (entry, (byte div 512) * 16 + of_nat i), fat1)
         | ScanMore seen \<Rightarrow> dir_scan_loop dev name n fat1 cur1 seen)"
      using nx Found y by (subst dir_scan_loop.simps) (simp split: sector_scan.split)
    show ?thesis
    proof (cases "scan_sector name n buf 0 seen")
      case (ScanHit i e)
      then have "r = Inr (e, (byte div 512) * 16 + of_nat i)" "fat' = fat1" using body less.prems(5) by simp_all
      moreover have "(byte div 512) * 16 + of_nat i = (of_nat (unat byte div 512 * 16 + i) :: u64)"
      proof -
        have u: "unat byte div 512 = unat (byte div 512)" by (simp add: unat_div_distrib)
        show ?thesis unfolding u by simp
      qed
      ultimately show ?thesis using scan ScanHit sv by simp
    next
      case ScanEnd
      then show ?thesis using body less.prems(5) scan sv by simp
    next
      case (ScanMore seen')
      note cong = dir_cong [OF sv(1)] file_cong [OF sv(1)] table_cong(6) [OF sv(1)]
      have dp: "dir_positions img fat1 dir j l = dir_positions img fat dir j l" for j l
        by (induction l arbitrary: j) (simp_all add: cong split: fat_result.split)
      have "same_volume fat1 fat' \<and> fat_ok img fat' \<and>
        (case r of
           Inr (e, pos) \<Rightarrow> \<exists>p. dir_find name n seen' (concat (map (sector_entries img) (dir_positions img fat1 dir (k + 1) (4096 - (k + 1))))) =
             Some (p, e) \<and> pos = of_nat p
         | Inl err \<Rightarrow> sure \<longrightarrow>
             dir_find name n seen' (concat (map (sector_entries img) (dir_positions img fat1 dir (k + 1) (4096 - (k + 1))))) = None \<and>
             (err = ENOENT \<or> (\<exists>j. dir_pos img fat1 dir j = Failed err)))"
      proof (rule less.hyps)
        show "dir_scan_loop dev name n fat1 cur1 seen' = (r, fat')" using body ScanMore less.prems(5) by simp
        show "cursor_at img fat1 dir (k + 1) cur1" using c1 cong by simp
      qed (use k sv less.prems(2,4) cong in \<open>simp_all add: dir_ok_def\<close>)
      then show ?thesis using scan ScanMore sv(1) same_volume_trans(1) unfolding dp cong(1) by (auto split: sum.splits)
    qed
  qed
qed

lemma dir_scan_spec:
  assumes "fat_ok img fat"
    "sure \<longrightarrow> reliable dev img cap \<and> 512 * volume_end fat \<le> cap \<and> dir_ok fat dir"
    "fat_dir_scan dev fat dir name n = (r, fat')"
  shows "same_volume fat fat' \<and> fat_ok img fat' \<and>
    (case r of
       Inr (e, pos) \<Rightarrow> \<exists>p. dir_lookup name (unat n) (dir_visible img fat dir) = Some (p, e) \<and> pos = of_nat p
     | Inl err \<Rightarrow> sure \<longrightarrow> dir_lookup name (unat n) (dir_visible img fat dir) = None \<and>
         (err = ENOENT \<or> (\<exists>j. dir_pos img fat dir j = Failed err)))"
proof (cases "dir_ok fat dir")
  case False
  then have "fat_dir_start fat dir = Inl EIO" by (auto simp: fat_dir_start_def dir_ok_def)
  then show ?thesis using assms False by (auto simp: fat_dir_scan_def)
next
  case True
  define cur where "cur = \<lparr>fixed_root = (dir = 0), csec = 0, ccluster = dir, sector_in_cluster = 0, cadvance = False\<rparr>"
  have start: "fat_dir_start fat dir = Inr cur" using True by (auto simp: fat_dir_start_def dir_ok_def cur_def)
  have loop: "dir_scan_loop dev name n fat cur 0 = (r, fat')" using assms(3) start by (simp add: fat_dir_scan_def)
  have at: "cursor_at img fat dir 0 cur" by (simp add: cursor_at_def cur_def)
  have sure: "sure \<longrightarrow> reliable dev img cap \<and> 512 * volume_end fat \<le> cap" using assms(2) by blast
  have le: "length (dir_positions img fat dir k l) \<le> l" for k l
    by (induction l arbitrary: k) (auto split: fat_result.split)
  have "length (dir_entries img fat dir) < 2 ^ 32"
    using le [of 0 4096] by (simp add: dir_entries_def length_concat comp_def sector_entries_def sum_list_triv)
  from dir_find_lookup [OF this, of name n] have eq: "dir_find name n 0 (concat (map (sector_entries img) (dir_positions img fat dir 0 (4096 - 0)))) =
      dir_lookup name (unat n) (dir_visible img fat dir)"
    by (simp add: dir_visible_def dir_entries_def)
  show ?thesis using dir_scan_loop_spec [OF assms(1) True at sure loop] unfolding eq .
qed

end

lemma decode_cong:
  assumes "same_volume fat fat'"
  shows "fat_decode_entry fat' = fat_decode_entry fat" "root_cluster fat' = root_cluster fat"
proof -
  have "root_cluster fat' = root_cluster fat" "ftype fat' = ftype fat" using assms by (simp_all add: same_volume_def)
  note eqs = this
  show "root_cluster fat' = root_cluster fat" by (rule eqs)
  show "fat_decode_entry fat' = fat_decode_entry fat" unfolding fat_decode_entry_def fat_make_ino_def eqs ..
qed

section \<open>Properties\<close>

text \<open>
  C34. Looking a name up in a directory finds the first shown entry whose name matches, decoded with its
  position; on a disk without failures it fails only if there is none, with \<open>ENOENT\<close> or with the error
  of a broken chain.
\<close>

theorem fat_follow_correct:
  assumes "faithful dev img" "fat_ok img fat" "fat_follow dev fat dir name = (r, fat')"
  shows "fat_ok img fat' \<and>
    (case r of
       Inr info \<Rightarrow> length name \<le> 12 \<and> (\<exists>p e. find (\<lambda>(_, e). FatNameEquals name (FatEntryName e)) (dir_visible img fat dir) = Some (p, e) \<and>
         info = fat_decode_entry fat e (of_nat p))
     | Inl err \<Rightarrow> reliable dev img cap \<and> 512 * volume_end fat \<le> cap \<and> dir_ok fat dir \<and> length name \<le> 12 \<longrightarrow>
         find (\<lambda>(_, e). FatNameEquals name (FatEntryName e)) (dir_visible img fat dir) = None \<and>
         (err = ENOENT \<or> (\<exists>j. dir_pos img fat dir j = Failed err)))"
proof (cases "12 < length name")
  case True
  then show ?thesis using assms by (auto simp: fat_follow_def)
next
  case False
  define sure where "sure \<longleftrightarrow> reliable dev img cap \<and> 512 * volume_end fat \<le> cap \<and> dir_ok fat dir"
  obtain r1 fat1 where r1: "fat_dir_scan dev fat dir (Some name) 0 = (r1, fat1)" by (cases "fat_dir_scan dev fat dir (Some name) 0")
  have "sure \<longrightarrow> reliable dev img cap \<and> 512 * volume_end fat \<le> cap \<and> dir_ok fat dir" by (simp add: sure_def)
  note S = faithful_disk.dir_scan_spec [OF disk_locales(1) [OF assms(1)] assms(2) this r1]
  have dec: "fat_decode_entry fat1 = fat_decode_entry fat"
    using S decode_cong by blast
  show ?thesis
  proof (cases r1)
    case (Inl e)
    then have "r = Inl e" "fat' = fat1" using assms(3) r1 False by (simp_all add: fat_follow_def)
    then show ?thesis using S Inl by (simp add: dir_lookup_def sure_def)
  next
    case (Inr x)
    then have "r = Inr (fat_decode_entry fat (fst x) (snd x))" "fat' = fat1"
      using assms(3) r1 False dec by (simp_all add: fat_follow_def split: prod.splits)
    then show ?thesis using S Inr False by (cases x) (auto simp: dir_lookup_def)
  qed
qed

definition demo_entry :: "u8 list" where
  "demo_entry = [72, 69, 76, 76, 79, 32, 32, 32, 84, 88, 84, 0x20, 0, 0, 0, 0, 0, 0, 0, 0, 0, 0, 0, 0, 0, 0, 2, 0, 2, 2, 0, 0]"

definition demo_dir_image :: "nat \<Rightarrow> u8" where
  "demo_dir_image p = (if 1024 \<le> p \<and> p < 1056 then demo_entry ! (p - 1024) else demo_image p)"

lemma demo_dir_visible: "dir_visible demo_dir_image demo_fat 0 = [(32, demo_entry)]"
proof -
  have pos: "dir_positions demo_dir_image demo_fat 0 0 4096 = [1024]"
    using dir_positions_step [of 0 demo_dir_image demo_fat 0] dir_positions_step [of 1 demo_dir_image demo_fat 0]
    by (simp add: dir_pos_def demo_fat_def)
  have upt: "[0..<16] = [0, 1] @ [2..<16]" by code_simp
  have e: "data_at demo_dir_image 1024 32 = demo_entry"
    by (rule nth_equalityI) (simp_all add: demo_dir_image_def demo_entry_def)
  have "dir_entries demo_dir_image demo_fat 0 =
      (32, demo_entry) # (33, data_at demo_dir_image 1056 32) # map (\<lambda>i. (32 + i, data_at demo_dir_image (1024 + i * 32) 32)) [2..<16]"
    unfolding dir_entries_def pos sector_entries_def upt by (simp add: e)
  moreover have "data_at demo_dir_image 1056 32 ! 0 = 0" by (simp add: demo_dir_image_def demo_image_def)
  moreover have "FatEntryVisible demo_entry" "demo_entry ! 0 \<noteq> 0" by (simp_all add: demo_entry_def FatEntryVisible_def)
  ultimately show ?thesis by (simp add: dir_visible_def del: nth_data_at upt_Suc)
qed

lemma demo_entry_name: "FatEntryName demo_entry = [72, 69, 76, 76, 79, 46, 84, 88, 84]"
  by code_simp

lemma demo_entry_decoded:
  "fat_decode_entry demo_fat demo_entry 32 = \<lparr>first_cluster = 2, fsize = 514, is_directory = False, ino = 3\<rparr>"
  by (simp add: fat_decode_entry_def fat_make_ino_def demo_entry_def demo_fat_def Le16_def Le32_def of_le16_def of_le32_def)

theorem fat_follow_correct_witness:
  "\<exists>fat'. fat_follow (image_disk demo_dir_image 8192) demo_fat 0 [104, 101, 108, 108, 111, 46, 84, 120, 116] =
     (Inr \<lparr>first_cluster = 2, fsize = 514, is_directory = False, ino = 3\<rparr>, fat')"
proof -
  obtain r fat' where r: "fat_follow (image_disk demo_dir_image 8192) demo_fat 0 [104, 101, 108, 108, 111, 46, 84, 120, 116] = (r, fat')"
    by (cases "fat_follow (image_disk demo_dir_image 8192) demo_fat 0 [104, 101, 108, 108, 111, 46, 84, 120, 116]")
  have eq: "FatNameEquals [104, 101, 108, 108, 111, 46, 84, 120, 116] (FatEntryName demo_entry)"
    unfolding demo_entry_name by code_simp
  have cap: "512 * volume_end demo_fat \<le> 8192" "dir_ok demo_fat 0" by (simp_all add: volume_end_def demo_fat_def dir_ok_def)
  have found: "find (\<lambda>(_, e). FatNameEquals [104, 101, 108, 108, 111, 46, 84, 120, 116] (FatEntryName e))
      (dir_visible demo_dir_image demo_fat 0) = Some (32, demo_entry)"
    unfolding demo_dir_visible using eq by simp
  note P = conjunct2 [OF fat_follow_correct [OF image_disk_reliable(2) demo_fat_ok r, of 8192], unfolded found]
  show ?thesis
  proof (cases r)
    case (Inl e)
    then show ?thesis using P cap image_disk_reliable(1) by simp
  next
    case (Inr info)
    then have "info = fat_decode_entry demo_fat demo_entry 32" using P by simp
    then show ?thesis using r Inr demo_entry_decoded by simp
  qed
qed

text \<open>The entries a program sees: the root directory has a \<open>.\<close> of its own.\<close>

definition dir_listing :: "(nat \<Rightarrow> u8) \<Rightarrow> u64 \<Rightarrow> fat \<Rightarrow> u32 \<Rightarrow> u8 list list" where
  "dir_listing img st_dev fat dir =
     (if dir = root_cluster fat then [dirent FAT_ROOT_INO [0x2E] True (ucast st_dev)] else []) @
     map (\<lambda>(p, e). let info = fat_decode_entry fat e (of_nat p)
                    in dirent (ino info) (c_string (FatEntryName e)) (is_directory info) (ucast st_dev))
       (dir_visible img fat dir)"

lemma length_FatEntryName: "length (FatEntryName e) \<le> 12"
proof -
  have t: "trimmed e b n \<le> n" for b n by (induction n) auto
  show ?thesis using t [of 0 8] t [of 8 3] by (simp add: FatEntryName_def Let_def)
qed

lemma length_dirent:
  "length name \<le> 256 \<Longrightarrow> length (dirent inode name isdir dsk) = 268"
  "length (dirent inode (c_string (FatEntryName e)) isdir dsk) = 268"
proof -
  show l: "length (dirent inode name isdir dsk) = 268" if "length name \<le> 256" for name
    using that by (simp add: dirent_def le32_def)
  have "length (c_string (FatEntryName e)) \<le> length (FatEntryName e)" by (simp add: c_string_def length_takeWhile_le)
  also have "\<dots> \<le> 256" using length_FatEntryName [of e] by linarith
  finally show "length (dirent inode (c_string (FatEntryName e)) isdir dsk) = 268" by (rule l)
qed

lemma dirent_transfer:
  assumes "room io 268" "length bs = 268"
  shows "PerformTransfer bs io 268 m = Some (None, bs, skip 268 io, store_bytes (address io) bs m)"
  using PerformTransfer_read [of io 268 bs m] assms by simp

text \<open>
  C35. Reading a directory entry by entry: the read at offset \<open>268 * i\<close> delivers the \<open>i\<close>-th entry of the
  listing into memory, and nothing else; behind the last entry it transfers nothing. A disk that fails
  or a broken chain can only make it transfer nothing. A misaligned offset is refused.
\<close>

theorem fat_read_directory_correct:
  assumes "faithful dev img" "fat_ok img fat" "room io 268" "unat (offset io) div 268 < 2 ^ 32"
    "listing = dir_listing img st_dev fat dir" "i = unat (offset io) div 268"
  shows "\<exists>res fat' io' m'. fat_read_directory_entry_sync dev st_dev fat dir io m = Some (res, fat', io', m') \<and>
    fat_ok img fat' \<and>
    (unat (offset io) mod 268 \<noteq> 0 \<longrightarrow> res = Some EINVAL \<and> io' = io \<and> m' = m) \<and>
    (unat (offset io) mod 268 = 0 \<longrightarrow>
      (i < length listing \<and> res = None \<and> io' = skip 268 io \<and> m' = store_bytes (address io) (listing ! i) m) \<or>
      (io' = io \<and> m' = m \<and>
       (reliable dev img cap \<and> 512 * volume_end fat \<le> cap \<and> dir_ok fat dir \<longrightarrow> length listing \<le> i \<and>
          (res = None \<or> (\<exists>j err. res = Some err \<and> dir_pos img fat dir j = Failed err)))))"
proof -
  have o: "unat (offset io div 268) = i" "offset io mod 268 = 0 \<longleftrightarrow> unat (offset io) mod 268 = 0"
    using assms(6) by (simp_all add: unat_div_distrib flip: unat_eq_zero) (simp add: unat_mod_distrib flip: unat_eq_zero)
  show ?thesis
  proof (cases "offset io mod 268 = 0")
    case False
    then show ?thesis using o assms(2) by (simp add: fat_read_directory_entry_sync_def)
  next
    case True
    show ?thesis
    proof (cases "dir = root_cluster fat \<and> offset io div 268 = 0")
      case dot: True
      then have "listing ! i = dirent FAT_ROOT_INO [0x2E] True (ucast st_dev)" "i < length listing"
        using o assms(5) by (auto simp: dir_listing_def)
      then show ?thesis using dot True o assms(2) dirent_transfer [OF assms(3) length_dirent(1)]
        by (simp add: fat_read_directory_entry_sync_def)
    next
      case nodot: False
      define n where "n = (if dir = root_cluster fat then offset io div 268 - 1 else offset io div 268)"
      have "unat n = (if dir = root_cluster fat then i - 1 else i)"
        using nodot o unfolding n_def by (auto simp: unat_minus_one)
      then have n: "unat (ucast n :: u32) = (if dir = root_cluster fat then i - 1 else i)"
        using unat_ucast_down [of n] assms(4,6) by (auto split: if_splits)
      have idx: "listing ! i = map (\<lambda>(p, e). let info = fat_decode_entry fat e (of_nat p)
          in dirent (ino info) (c_string (FatEntryName e)) (is_directory info) (ucast st_dev)) (dir_visible img fat dir) ! unat (ucast n :: u32)"
        "i < length listing \<longleftrightarrow> unat (ucast n :: u32) < length (dir_visible img fat dir)"
        using n nodot o unfolding assms(5) by (auto simp: dir_listing_def nth_Cons' simp flip: unat_gt_0)
      obtain r fat1 where r: "fat_dir_scan dev fat dir None (ucast n) = (r, fat1)" by (cases "fat_dir_scan dev fat dir None (ucast n)")
      define sure where "sure \<longleftrightarrow> reliable dev img cap \<and> 512 * volume_end fat \<le> cap \<and> dir_ok fat dir"
      have "sure \<longrightarrow> reliable dev img cap \<and> 512 * volume_end fat \<le> cap \<and> dir_ok fat dir" by (simp add: sure_def)
      note S = faithful_disk.dir_scan_spec [OF disk_locales(1) [OF assms(1)] assms(2) this r]
      have body: "fat_read_directory_entry_sync dev st_dev fat dir io m =
          (case r of
             Inl e \<Rightarrow> Some (if e = ENOENT then None else Some e, fat1, io, m)
           | Inr (entry, position) \<Rightarrow>
               (let info = fat_decode_entry fat1 entry position
                in map_option (\<lambda>(res, _, io, m). (res, fat1, io, m))
                  (PerformTransfer (dirent (ino info) (c_string (FatEntryName entry)) (is_directory info) (ucast st_dev)) io 268 m)))"
        using True nodot r by (auto simp: fat_read_directory_entry_sync_def Let_def n_def split: sum.split)
      show ?thesis
      proof (cases r)
        case (Inl e)
        then have "fat_read_directory_entry_sync dev st_dev fat dir io m = Some (if e = ENOENT then None else Some e, fat1, io, m)"
          using body by simp
        moreover have "length listing \<le> i \<and> (e = ENOENT \<or> (\<exists>j. dir_pos img fat dir j = Failed e))" if sure
          using S Inl that idx(2) by (auto simp: dir_lookup_def split: if_splits)
        ultimately show ?thesis using S o True unfolding sure_def by auto
      next
        case (Inr x)
        obtain e pos where x: "x = (e, pos)" by (cases x)
        obtain p where p: "unat (ucast n :: u32) < length (dir_visible img fat dir)"
          "dir_visible img fat dir ! unat (ucast n :: u32) = (p, e)" "pos = of_nat p"
          using S Inr x by (auto simp: dir_lookup_def split: if_splits)
        have "fat_decode_entry fat1 = fat_decode_entry fat" using S decode_cong(1) by blast
        then have "fat_read_directory_entry_sync dev st_dev fat dir io m =
            Some (None, fat1, skip 268 io, store_bytes (address io) (listing ! i) m)"
          using body Inr x p idx(1) dirent_transfer [OF assms(3) length_dirent(2)] by (simp add: Let_def)
        then show ?thesis using S o True idx(2) p(1) by auto
      qed
    qed
  qed
qed

definition demo_dirread :: transfer where
  "demo_dirread = \<lparr>address = 0x1000, length_remaining = 268, offset = 268, direction = TRANSFER_READ,
     ttype = TRANSFER_INTRA_KERNEL, blockable = True\<rparr>"

theorem fat_read_directory_correct_witness:
  "\<exists>fat'. fat_read_directory_entry_sync (image_disk demo_dir_image 8192) 7 demo_fat 0 demo_dirread zeroed =
     Some (None, fat', skip 268 demo_dirread,
       store_bytes 0x1000 (dirent 3 [72, 69, 76, 76, 79, 46, 84, 88, 84] False 7) zeroed)"
proof -
  have l: "length (dir_listing demo_dir_image 7 demo_fat 0) = 2"
    "dir_listing demo_dir_image 7 demo_fat 0 ! 1 = dirent 3 [72, 69, 76, 76, 79, 46, 84, 88, 84] False 7"
    by (simp_all add: dir_listing_def demo_dir_visible demo_entry_decoded demo_entry_name Let_def c_string_def)
      (simp_all add: demo_fat_def)
  have room: "room demo_dirread 268" "unat (offset demo_dirread) = 268" "address demo_dirread = 0x1000"
    by (simp_all add: room_def demo_dirread_def)
  have cap: "512 * volume_end demo_fat \<le> 8192" "dir_ok demo_fat 0" by (simp_all add: volume_end_def demo_fat_def dir_ok_def)
  show ?thesis
    using fat_read_directory_correct [where m = zeroed and cap = 8192 and st_dev = 7 and dir = 0,
        OF image_disk_reliable(2) [of demo_dir_image 8192] demo_fat_ok room(1) _ refl refl]
      room(2,3) l cap image_disk_reliable(1) [of demo_dir_image 8192]
    by simp blast
qed




text \<open>On a larger volume two empty files can have the same number.\<close>

lemma fat_ino_clash: "fat_make_ino fat 0 False 16 = fat_make_ino fat 0 False (2 ^ 31 + 16)"
  by (simp add: fat_make_ino_def)

end
