(* ===== verification/FatMount.thy ===== *)
theory FatMount
  imports FatTableProps "HOL-Library.While_Combinator"
begin

unbundle bit_operations_syntax

text \<open>
  Mounting: the checks of the boot sector and the geometry of the volume in \<^verbatim>\<open>kernel/fs/fat/fat_core.c\<close>.
\<close>

section \<open>The operations\<close>

text \<open>The two \<open>while\<close> loops of the FAT12 case; \<open>None\<close> is a loop that does not end.\<close>

definition fat_table_capacity :: "fat_type \<Rightarrow> u64 \<Rightarrow> u64 option" where
  "fat_table_capacity ty fat_bytes =
     (case ty of
        FAT_TYPE_16 \<Rightarrow> Some (fat_bytes div 2 - 1)
      | FAT_TYPE_32 \<Rightarrow> Some (fat_bytes div 4 - 1)
      | FAT_TYPE_12 \<Rightarrow>
          (case while_option (\<lambda>n. n + 1 + (n + 1) div 2 + 2 \<le> fat_bytes) (\<lambda>n. n + 1) ((fat_bytes - 2) * 2 div 3) of
             None \<Rightarrow> None
           | Some n \<Rightarrow> while_option (\<lambda>n. fat_bytes < n + n div 2 + 2) (\<lambda>n. n - 1) n))"

definition type_limit :: "fat_type \<Rightarrow> u64" where
  "type_limit ty = (case ty of FAT_TYPE_12 \<Rightarrow> 0xFF6 | FAT_TYPE_16 \<Rightarrow> 0xFFF6 | FAT_TYPE_32 \<Rightarrow> 0x0FFFFFF6)"

definition empty_slot :: fat_cache_slot where
  "empty_slot = \<lparr>valid = False, csector = 0, cdata = replicate FAT_SECTOR_SIZE 0\<rparr>"

text \<open>
  \<open>block_size\<close> is the block size of the disk, \<open>alloc\<close> whether the heap has room for the volume's
  record. The first part of \<open>fat_mount\<close> takes the values out of the boot sector.
\<close>

record boot_record =
  b_sectors_per_cluster :: u32
  b_reserved_sectors :: u32
  b_fat_count :: u32
  b_total_sectors :: u32
  b_fat_sectors :: u32
  b_root_cluster :: u32
  b_root_dir_sectors :: u32
  b_active_fat :: u32
  b_is_fat32 :: bool

definition le16_at :: "u8 list \<Rightarrow> nat \<Rightarrow> u32" where
  "le16_at b i = ucast (Le16 (drop i b))"

definition le32_at :: "u8 list \<Rightarrow> nat \<Rightarrow> u32" where
  "le32_at b i = Le32 (drop i b)"

definition read_boot_sector :: "u8 list \<Rightarrow> errno + boot_record" where
  "read_boot_sector boot =
     (if boot ! 510 \<noteq> 0x55 \<or> boot ! 511 \<noteq> 0xAA then Inl ENOTSUP
      else if boot ! 0 \<noteq> 0xEB \<and> boot ! 0 \<noteq> 0xE9 then Inl ENOTSUP
      else
        (let bytes_per_sector = le16_at boot 11; sectors_per_cluster = ucast (boot ! 13) :: u32;
             reserved_sectors = le16_at boot 14; fat_count = ucast (boot ! 16) :: u32;
             root_entries = le16_at boot 17;
             total_sectors = (if le16_at boot 19 = 0 then le32_at boot 32 else le16_at boot 19);
             media = boot ! 21; fat_sectors = le16_at boot 22
         in if media \<noteq> 0xF0 \<and> media < 0xF8 then Inl ENOTSUP
            else if bytes_per_sector \<noteq> 512 then Inl ENOTSUP
            else if sectors_per_cluster = 0 \<or> sectors_per_cluster AND (sectors_per_cluster - 1) \<noteq> 0 then Inl ENOTSUP
            else if fat_sectors = 0 then
              (let ext_flags = le16_at boot 40; version = le16_at boot 42;
                   active_fat = (if ext_flags AND 0x80 \<noteq> 0 then ext_flags AND 0x0F else 0)
               in if version \<noteq> 0 then Inl ENOTSUP
                  else if ext_flags AND 0x80 \<noteq> 0 \<and> fat_count \<le> active_fat then Inl ENOTSUP
                  else Inr \<lparr>b_sectors_per_cluster = sectors_per_cluster, b_reserved_sectors = reserved_sectors,
                    b_fat_count = fat_count, b_total_sectors = total_sectors, b_fat_sectors = le32_at boot 36,
                    b_root_cluster = le32_at boot 44, b_root_dir_sectors = 0, b_active_fat = active_fat,
                    b_is_fat32 = True\<rparr>)
            else if root_entries = 0 then Inl ENOTSUP
            else Inr \<lparr>b_sectors_per_cluster = sectors_per_cluster, b_reserved_sectors = reserved_sectors,
                    b_fat_count = fat_count, b_total_sectors = total_sectors, b_fat_sectors = fat_sectors,
                    b_root_cluster = 0, b_root_dir_sectors = (root_entries * 32 + 512 - 1) div 512,
                    b_active_fat = 0, b_is_fat32 = False\<rparr>))"

text \<open>The second part lays the volume out.\<close>

definition layout_volume :: "boot_record \<Rightarrow> bool \<Rightarrow> (errno + fat) option" where
  "layout_volume b alloc =
     (if b_reserved_sectors b = 0 \<or> b_fat_count b = 0 \<or> b_fat_sectors b = 0 then Some (Inl ENOTSUP)
      else
        (let root_dir_start = ucast (b_reserved_sectors b) + ucast (b_fat_count b) * ucast (b_fat_sectors b) :: u64;
             data_start = root_dir_start + ucast (b_root_dir_sectors b)
         in if ucast (b_total_sectors b) \<le> data_start then Some (Inl ENOTSUP)
            else
              (let cluster_count = (ucast (b_total_sectors b) - data_start) div ucast (b_sectors_per_cluster b);
                   ty = (if b_is_fat32 b then FAT_TYPE_32 else if cluster_count < 4085 then FAT_TYPE_12 else FAT_TYPE_16)
               in case fat_table_capacity ty (ucast (b_fat_sectors b) * 512) of
                    None \<Rightarrow> None
                  | Some cap \<Rightarrow>
                     (let maxc = min (min (cluster_count + 1) (type_limit ty)) cap
                      in if maxc < 2 then Some (Inl ENOTSUP)
                         else if b_is_fat32 b \<and> (b_root_cluster b < 2 \<or> maxc < ucast (b_root_cluster b)) then Some (Inl ENOTSUP)
                         else if \<not> alloc then Some (Inl ENOMEM)
                         else Some (Inr \<lparr>ftype = ty, sectors_per_cluster = b_sectors_per_cluster b,
                           cluster_bytes = b_sectors_per_cluster b * 512, root_cluster = b_root_cluster b,
                           root_dir_start_sector = ucast root_dir_start, root_dir_sectors = b_root_dir_sectors b,
                           data_start_sector = ucast data_start, max_cluster = ucast maxc,
                           fat_start_sector = b_reserved_sectors b + b_active_fat b * b_fat_sectors b,
                           fat_sectors = b_fat_sectors b, slot0 = empty_slot, slot1 = empty_slot, cache_mru = 0,
                           hint_first_cluster = 0, hint_index = 0, hint_cluster = 0\<rparr>)))))"

definition fat_mount :: "disk \<Rightarrow> u32 \<Rightarrow> bool \<Rightarrow> (errno + fat) option" where
  "fat_mount dev block_size alloc =
     (if block_size = 0 \<or> 512 mod block_size \<noteq> 0 then Some (Inl ENOTSUP)
      else case fat_disk_read dev FAT_SECTOR_SIZE 0 of
        Inl _ \<Rightarrow> Some (Inl ENOTSUP)
      | Inr boot \<Rightarrow>
          (case read_boot_sector boot of
             Inl e \<Rightarrow> Some (Inl e)
           | Inr b \<Rightarrow> layout_volume b alloc))"

section \<open>The capacity of a table\<close>

lemma while_stop: "\<not> b s \<Longrightarrow> while_option b c s = Some s"
  by (subst while_option_unfold) simp

lemma while_step: "b s \<Longrightarrow> while_option b c s = while_option b c (c s)"
  by (subst while_option_unfold) simp

lemma fat12_capacity:
  fixes B :: u64
  assumes B: "2 \<le> unat B" "unat B < 2 ^ 42"
  shows "\<exists>n. fat_table_capacity FAT_TYPE_12 B = Some n \<and> unat n + unat n div 2 + 2 \<le> unat B \<and>
    unat B < unat n + 1 + (unat n + 1) div 2 + 2"
proof -
  define n0 where "n0 = (B - 2) * 2 div 3"
  have B2: "unat (B - 2) = unat B - 2" using B(1) by (subst unat_sub) (simp_all add: word_le_nat_alt)
  have "unat ((B - 2) * 2) = (unat B - 2) * 2"
    unfolding unat_word_ariths(2) B2 using B(2) by simp
  then have n0: "unat n0 = (unat B - 2) * 2 div 3"
    unfolding n0_def unat_div_distrib by simp
  have small: "unat (n + 1 + (n + 1) div 2 + 2) = unat n + 1 + (unat n + 1) div 2 + 2"
    "unat (n + n div 2 + 2) = unat n + unat n div 2 + 2" "unat (n + 1) = unat n + 1"
    if "unat n < 2 ^ 43" for n :: u64
    using that by (simp_all add: unat_word_ariths unat_div_distrib)
  let ?up = "\<lambda>n :: u64. n + 1 + (n + 1) div 2 + 2 \<le> B"
  let ?down = "\<lambda>n :: u64. B < n + n div 2 + 2"
  have up: "?up n \<longleftrightarrow> unat n + 1 + (unat n + 1) div 2 + 2 \<le> unat B"
    and down: "?down n \<longleftrightarrow> unat B < unat n + unat n div 2 + 2" if "unat n < 2 ^ 43" for n
    using small [OF that] by (simp_all add: word_le_nat_alt word_less_nat_alt)
  have lt: "unat n0 < 2 ^ 42" using n0 B by linarith
  define n where "n = (if ?up n0 then n0 + 1 else n0)"
  have n: "unat n = (if unat n0 + 1 + (unat n0 + 1) div 2 + 2 \<le> unat B then unat n0 + 1 else unat n0)"
    using up [of n0] small(3) [of n0] lt by (simp add: n_def)
  have ltn: "unat n < 2 ^ 43" using n lt by simp
  have fit: "unat n + unat n div 2 + 2 \<le> unat B" "unat B < unat n + 1 + (unat n + 1) div 2 + 2"
    using n n0 B(1) by (simp_all split: if_splits, linarith+)
  have stop: "\<not> ?up n" "\<not> ?down n" using fit up [OF ltn] down [OF ltn] by simp_all
  have "while_option ?up (\<lambda>n. n + 1) n0 = Some n"
    using stop(1) by (cases "?up n0") (simp_all add: n_def while_step while_stop)
  moreover have "while_option ?down (\<lambda>n. n - 1) n = Some n" using stop(2) by (simp add: while_stop)
  ultimately show ?thesis using fit by (simp add: fat_table_capacity_def n0_def)
qed

lemma fat_table_capacity_spec:
  assumes "4 \<le> unat B" "unat B < 2 ^ 42"
  shows "\<exists>n. fat_table_capacity ty B = Some n \<and> entry_end ty (unat n) \<le> unat B \<and> unat B < entry_end ty (unat n + 1)"
proof -
  have d2: "unat (B div 2 - 1) = unat B div 2 - 1" and d4: "unat (B div 4 - 1) = unat B div 4 - 1"
  proof -
    have "1 \<le> unat B div 2" "1 \<le> unat B div 4" using assms(1) by simp_all
    then have "1 \<le> B div 2" "1 \<le> B div 4" by (simp_all add: word_le_nat_alt unat_div_distrib)
    then show "unat (B div 2 - 1) = unat B div 2 - 1" "unat (B div 4 - 1) = unat B div 4 - 1"
      by (simp_all add: unat_sub unat_div_distrib)
  qed
  show ?thesis
  proof (cases ty)
    case FAT_TYPE_12
    then show ?thesis using fat12_capacity [of B] assms unfolding FAT_TYPE_12 by (simp add: entry_end_def)
  next
    case FAT_TYPE_16
    have "2 * (unat B div 2 - 1) + 2 \<le> unat B \<and> unat B < 2 * (unat B div 2 - 1 + 1) + 2"
      using assms(1) by presburger
    then show ?thesis unfolding FAT_TYPE_16 by (simp add: fat_table_capacity_def entry_end_def d2)
  next
    case FAT_TYPE_32
    have "4 * (unat B div 4 - 1) + 4 \<le> unat B \<and> unat B < 4 * (unat B div 4 - 1 + 1) + 4"
      using assms(1) by presburger
    then show ?thesis unfolding FAT_TYPE_32 by (simp add: fat_table_capacity_def entry_end_def d4)
  qed
qed

section \<open>The layout of the volume\<close>

definition boot_ok :: "boot_record \<Rightarrow> bool" where
  "boot_ok b \<longleftrightarrow> 0 < unat (b_sectors_per_cluster b) \<and> unat (b_sectors_per_cluster b) \<le> 255 \<and>
     unat (b_reserved_sectors b) < 2 ^ 16 \<and> unat (b_fat_count b) \<le> 255 \<and> unat (b_root_dir_sectors b) < 2 ^ 16 \<and>
     (b_fat_count b \<noteq> 0 \<longrightarrow> b_active_fat b < b_fat_count b) \<and> (\<not> b_is_fat32 b \<longrightarrow> b_root_cluster b = 0)"

lemma type_limit_less: "unat (type_limit ty) + 1 < unat (end_marker ty)" "unat (type_limit ty) < 2 ^ 28"
  by (cases ty; simp add: type_limit_def end_marker_def)+

lemma unat_ucast_u16: "unat (ucast (y :: u16) :: u32) = unat y"
proof -
  have "unat y < 2 ^ 16" using unsigned_less [of y] by simp
  then show ?thesis by (simp add: unsigned_ucast_eq take_bit_nat_eq_self)
qed

lemma unat_ucast_small:
  "unat (ucast (x :: u8) :: u32) \<le> 255" "unat (ucast (y :: u16) :: u32) < 2 ^ 16"
proof -
  have "unat x < 2 ^ 8" "unat y < 2 ^ 16" using unsigned_less [of x] unsigned_less [of y] by simp_all
  then show "unat (ucast (x :: u8) :: u32) \<le> 255" "unat (ucast (y :: u16) :: u32) < 2 ^ 16"
    by (simp_all add: unsigned_ucast_eq take_bit_nat_eq_self)
qed

lemma le16_at_less: "unat (le16_at b i) < 2 ^ 16"
  unfolding le16_at_def by (rule unat_ucast_small)

lemma read_boot_sector_ok:
  assumes "read_boot_sector boot = Inr b"
  shows "boot_ok b"
proof -
  have d: "unat ((le16_at boot 17 * 32 + 512 - 1) div 512) < 2 ^ 16"
  proof -
    have "unat (le16_at boot 17 * 32 + 511) \<le> unat (le16_at boot 17) * 32 + 511"
      using le16_at_less [of boot 17] by (simp add: unat_word_ariths)
    then have "unat (le16_at boot 17 * 32 + 511) div 512 < 2 ^ 16" using le16_at_less [of boot 17] by linarith
    moreover have e: "le16_at boot 17 * 32 + 512 - 1 = le16_at boot 17 * 32 + 511" by simp
    have "unat ((le16_at boot 17 * 32 + 512 - 1) div 512) = unat (le16_at boot 17 * 32 + 511) div 512"
      unfolding e unat_div_distrib by simp
    ultimately show ?thesis by simp
  qed
  show ?thesis
    using assms d unat_ucast_small(1) [of "boot ! 13"] unat_ucast_small(1) [of "boot ! 16"] le16_at_less [of boot 14]
    by (auto simp: read_boot_sector_def boot_ok_def Let_def unat_gt_0 word_gt_0 split: if_splits)
qed

lemma layout_volume_ok:
  assumes ok: "boot_ok b"
  shows "\<exists>r. layout_volume b alloc = Some r \<and> (\<forall>fat. r = Inr fat \<longrightarrow>
    volume_ok fat \<and> volume_end fat \<le> unat (b_total_sectors b) \<and> cache_ok img fat \<and> hint_ok img fat)"
proof (cases "b_reserved_sectors b = 0 \<or> b_fat_count b = 0 \<or> b_fat_sectors b = 0")
  case True
  then show ?thesis by (auto simp: layout_volume_def)
next
  case nz: False
  define R C S D T P where "R = unat (b_reserved_sectors b)" and "C = unat (b_fat_count b)"
    and "S = unat (b_fat_sectors b)" and "D = unat (b_root_dir_sectors b)"
    and "T = unat (b_total_sectors b)" and "P = unat (b_sectors_per_cluster b)"
  note defs = R_def C_def S_def D_def T_def P_def
  have bnd: "R < 2 ^ 16" "C \<le> 255" "S < 2 ^ 32" "D < 2 ^ 16" "T < 2 ^ 32" "0 < P" "P \<le> 255" "0 < S" "0 < C"
    using ok nz unat_lt32 [of "b_fat_sectors b"] unat_lt32 [of "b_total_sectors b"]
    by (simp_all add: boot_ok_def defs unat_gt_0)
  define rds :: u64 where "rds = ucast (b_reserved_sectors b) + ucast (b_fat_count b) * ucast (b_fat_sectors b)"
  define ds where "ds = rds + ucast (b_root_dir_sectors b)"
  have CS: "C * S \<le> 255 * 2 ^ 32" using bnd by (intro mult_le_mono) simp_all
  have rds: "unat rds = R + C * S"
    using bnd CS by (simp add: rds_def unat_word_ariths flip: defs)
  have ds: "unat ds = R + C * S + D"
    using bnd CS by (simp add: ds_def unat_word_ariths rds flip: defs)
  show ?thesis
  proof (cases "ucast (b_total_sectors b) \<le> ds")
    case True
    then show ?thesis using nz by (auto simp: layout_volume_def Let_def simp flip: rds_def ds_def)
  next
    case False
    then have lt: "R + C * S + D < T" by (simp add: word_le_nat_alt ds T_def)
    define N where "N = (ucast (b_total_sectors b) - ds) div ucast (b_sectors_per_cluster b)"
    have N: "unat N = (T - (R + C * S + D)) div P"
      using lt by (simp add: N_def unat_div_distrib unat_sub word_le_nat_alt ds defs)
    define ty where "ty = (if b_is_fat32 b then FAT_TYPE_32 else if N < 4085 then FAT_TYPE_12 else FAT_TYPE_16)"
    define B :: u64 where "B = ucast (b_fat_sectors b) * 512"
    have B: "unat B = S * 512" using bnd by (simp add: B_def unat_word_ariths flip: defs)
    obtain cap where cap: "fat_table_capacity ty B = Some cap" "entry_end ty (unat cap) \<le> S * 512"
      using fat_table_capacity_spec [of B ty] bnd(3,8) unfolding B by auto
    define M where "M = min (min (N + 1) (type_limit ty)) cap"
    have M: "unat M \<le> unat (N + 1)" "unat M \<le> unat (type_limit ty)" "unat M \<le> unat cap"
      unfolding M_def word_le_nat_alt [symmetric] by (meson min.cobounded1 min.cobounded2 order_trans)+
    have body: "layout_volume b alloc =
      (if M < 2 then Some (Inl ENOTSUP)
       else if b_is_fat32 b \<and> (b_root_cluster b < 2 \<or> M < ucast (b_root_cluster b)) then Some (Inl ENOTSUP)
       else if \<not> alloc then Some (Inl ENOMEM)
       else Some (Inr \<lparr>ftype = ty, sectors_per_cluster = b_sectors_per_cluster b,
         cluster_bytes = b_sectors_per_cluster b * 512, root_cluster = b_root_cluster b,
         root_dir_start_sector = ucast rds, root_dir_sectors = b_root_dir_sectors b,
         data_start_sector = ucast ds, max_cluster = ucast M,
         fat_start_sector = b_reserved_sectors b + b_active_fat b * b_fat_sectors b,
         fat_sectors = b_fat_sectors b, slot0 = empty_slot, slot1 = empty_slot, cache_mru = 0,
         hint_first_cluster = 0, hint_index = 0, hint_cluster = 0\<rparr>))"
      unfolding layout_volume_def Let_def
      by (simp only: nz False cap(1) if_False option.case rds_def [symmetric] ds_def [symmetric] N_def [symmetric]
          ty_def [symmetric] B_def [symmetric] M_def [symmetric])
    have fields: "volume_ok fat \<and> volume_end fat \<le> T"
      if "\<not> M < 2" "\<not> (b_is_fat32 b \<and> (b_root_cluster b < 2 \<or> M < ucast (b_root_cluster b)))"
        "fat = \<lparr>ftype = ty, sectors_per_cluster = b_sectors_per_cluster b,
         cluster_bytes = b_sectors_per_cluster b * 512, root_cluster = b_root_cluster b,
         root_dir_start_sector = ucast rds, root_dir_sectors = b_root_dir_sectors b,
         data_start_sector = ucast ds, max_cluster = ucast M,
         fat_start_sector = b_reserved_sectors b + b_active_fat b * b_fat_sectors b,
         fat_sectors = b_fat_sectors b, slot0 = empty_slot, slot1 = empty_slot, cache_mru = 0,
         hint_first_cluster = 0, hint_index = 0, hint_cluster = 0\<rparr>" for fat
    proof -
      have M2: "2 \<le> unat M" using that(1) by (simp add: word_le_nat_alt word_less_nat_alt)
      have mx: "unat (ucast M :: u32) = unat M" using M(2) type_limit_less(2) [of ty] by (intro unat_ucast_down) simp
      have N1: "unat (N + 1) = unat N + 1"
      proof -
        have "unat N < 2 ^ 32" using N bnd(5) by (metis diff_le_self div_le_dividend le_less_trans)
        then show ?thesis by (simp add: unat_word_ariths)
      qed
      have "(unat M - 1) * P \<le> unat N * P" using M(1) N1 by (intro mult_le_mono1) simp
      also have "\<dots> \<le> T - (R + C * S + D)" unfolding N by simp
      finally have vol: "R + C * S + D + (unat M - 1) * P \<le> T" using lt by linarith
      define A where "A = unat (b_active_fat b)"
      have "A < C" using ok nz by (simp add: boot_ok_def A_def C_def word_less_nat_alt)
      then have "(A + 1) * S \<le> C * S" by (intro mult_le_mono1) simp
      then have AS: "A * S + S \<le> C * S" by simp
      have "unat (b_active_fat b * b_fat_sectors b) = A * S"
        using AS lt bnd(5) by (simp add: unat_word_ariths flip: A_def S_def)
      then have start: "unat (b_reserved_sectors b + b_active_fat b * b_fat_sectors b) = R + A * S"
        using AS lt bnd(5) by (simp add: unat_word_ariths(1) flip: R_def)
      have cb: "unat (b_sectors_per_cluster b * 512) = 512 * P" using bnd(7) by (simp add: unat_word_ariths flip: P_def)
      have sec: "unat (ucast rds :: u32) = R + C * S" "unat (ucast ds :: u32) = R + C * S + D"
        using unat_ucast_down [of rds] unat_ucast_down [of ds] lt bnd(5) by (simp_all add: rds ds)
      have mono: "entry_end ty (unat M) \<le> S * 512" using entry_end_mono [OF M(3), of ty] cap(2) by simp
      have root: "if ty = FAT_TYPE_32 then 2 \<le> b_root_cluster b \<and> b_root_cluster b \<le> ucast M else b_root_cluster b = 0"
        using that(2) ok by (auto simp: ty_def boot_ok_def word_le_nat_alt word_less_nat_alt mx not_less split: if_splits)
      have "unat M < unat (end_marker ty) - 1" using M(2) type_limit_less(1) [of ty] by linarith
      then show ?thesis
        using M2 mx AS start cb sec mono root bnd(5-7) vol unfolding that(3) volume_ok_def volume_end_def
        by (simp flip: defs)
    qed
    show ?thesis unfolding body using fields
      by (auto simp: cache_ok_def slot_ok_def hint_ok_def empty_slot_def simp flip: T_def)
  qed
qed

section \<open>Properties\<close>

definition boot_total_sectors :: "(nat \<Rightarrow> u8) \<Rightarrow> u32" where
  "boot_total_sectors img =
     (if of_le16 (img 19) (img 20) = 0 then of_le32 (img 32) (img 33) (img 34) (img 35) else ucast (of_le16 (img 19) (img 20)))"

lemma read_boot_sector_total:
  assumes "read_boot_sector (map img [0..<512]) = Inr b"
  shows "b_total_sectors b = boot_total_sectors img"
proof -
  have 0: "(ucast (w :: u16) :: u32) = 0 \<longleftrightarrow> w = 0" for w
    using unat_ucast_u16 [of w] by (metis unat_eq_zero)
  show ?thesis
    using assms by (auto simp: read_boot_sector_def boot_total_sectors_def le16_at_def le32_at_def Le16_def Le32_def Let_def 0
        split: if_splits)
qed

text \<open>
  C33. Mounting ends on every disk. It refuses with \<open>ENOTSUP\<close> or \<open>ENOMEM\<close>, or sets up a volume for
  which the invariant of the driver holds: the table covers every cluster, the areas of the volume do
  not overlap and lie within the sectors the boot sector declares, nothing is cached.
\<close>

theorem fat_mount_establishes:
  assumes "faithful dev img"
  shows "\<exists>r. fat_mount dev block_size alloc = Some r \<and>
    (case r of
       Inl e \<Rightarrow> e = ENOTSUP \<or> e = ENOMEM \<and> \<not> alloc
     | Inr fat \<Rightarrow> fat_ok img fat \<and> volume_end fat \<le> unat (boot_total_sectors img) \<and> hint_first_cluster fat = 0 \<and>
         \<not> valid (slot0 fat) \<and> \<not> valid (slot1 fat) \<and> img 510 = 0x55 \<and> img 511 = 0xAA)"
proof -
  have l: "layout_volume b alloc = Some (Inr fat) \<Longrightarrow> hint_first_cluster fat = 0 \<and> slot0 fat = empty_slot \<and> slot1 fat = empty_slot"
    "layout_volume b alloc = Some (Inl e) \<Longrightarrow> e = ENOTSUP \<or> e = ENOMEM \<and> \<not> alloc" for b fat e
    by (auto simp: layout_volume_def Let_def split: if_splits option.splits)
  have r: "read_boot_sector boot = Inl e \<Longrightarrow> e = ENOTSUP" for boot e
    by (auto simp: read_boot_sector_def Let_def split: if_splits)
  show ?thesis
  proof (cases "block_size = 0 \<or> 512 mod block_size \<noteq> 0")
    case True
    then show ?thesis by (auto simp: fat_mount_def)
  next
    case bs: False
    show ?thesis
    proof (cases "fat_disk_read dev FAT_SECTOR_SIZE 0")
      case (Inl e)
      then show ?thesis using bs by (auto simp: fat_mount_def)
    next
      case (Inr boot)
      have boot: "boot = map img [0..<512]" using faithful_disk.disk_read_data [OF disk_locales(1) [OF assms] Inr] by simp
      show ?thesis
      proof (cases "read_boot_sector boot")
        case Inl
        then show ?thesis using bs Inr r by (auto simp: fat_mount_def)
      next
        case b: (Inr b)
        have sig: "img 510 = 0x55" "img 511 = 0xAA" using b by (simp_all add: read_boot_sector_def boot split: if_splits)
        obtain res where res: "layout_volume b alloc = Some res" and ok: "\<forall>fat. res = Inr fat \<longrightarrow>
            volume_ok fat \<and> volume_end fat \<le> unat (b_total_sectors b) \<and> cache_ok img fat \<and> hint_ok img fat"
          using layout_volume_ok [OF read_boot_sector_ok [OF b]] by blast
        have "fat_mount dev block_size alloc = Some res" using bs Inr b res by (auto simp: fat_mount_def)
        then show ?thesis
          using res ok l(1) [of b] l(2) [of b] sig read_boot_sector_total [of img b] b boot
          by (auto simp: fat_ok_def empty_slot_def split: sum.splits)
      qed
    qed
  qed
qed

text \<open>The boot sector of a 1.44 MB floppy disk.\<close>

definition floppy_image :: "nat \<Rightarrow> u8" where
  "floppy_image = (\<lambda>_. 0)(0 := 0xEB, 12 := 2, 13 := 1, 14 := 1, 16 := 2, 17 := 224, 19 := 0x40, 20 := 0x0B,
     21 := 0xF0, 22 := 9, 510 := 0x55, 511 := 0xAA)"

lemma floppy_boot:
  "read_boot_sector (map floppy_image [0..<512]) = Inr \<lparr>b_sectors_per_cluster = 1, b_reserved_sectors = 1, b_fat_count = 2,
     b_total_sectors = 2880, b_fat_sectors = 9, b_root_cluster = 0, b_root_dir_sectors = 14, b_active_fat = 0,
     b_is_fat32 = False\<rparr>"
  by (simp add: read_boot_sector_def le16_at_def le32_at_def Le16_def Le32_def of_le16_def floppy_image_def)

lemma floppy_capacity: "fat_table_capacity FAT_TYPE_12 4608 = Some 3071"
  by (simp add: fat_table_capacity_def while_stop while_step)

theorem fat_mount_establishes_witness:
  "\<exists>fat. fat_mount (image_disk floppy_image 1474560) 512 True = Some (Inr fat) \<and> ftype fat = FAT_TYPE_12 \<and>
     max_cluster fat = 2848 \<and> fat_ok floppy_image fat"
proof -
  have read: "fat_disk_read (image_disk floppy_image 1474560) 512 0 = Inr (map floppy_image [0..<512])"
    by (simp add: fat_disk_read_def image_disk_def)
  have "\<exists>fat. fat_mount (image_disk floppy_image 1474560) 512 True = Some (Inr fat) \<and> ftype fat = FAT_TYPE_12 \<and>
     max_cluster fat = 2848"
    by (simp add: fat_mount_def read floppy_boot layout_volume_def floppy_capacity type_limit_def Let_def)
  then show ?thesis using fat_mount_establishes [OF image_disk_reliable(2), of floppy_image 1474560 512 True] by auto
qed

end
