(* ===== verification/CLib.thy ===== *)
theory CLib
  imports Transfers "HOL-Library.Sublist"
begin

unbundle bit_operations_syntax

text \<open>
  The C library functions the kernel uses: \<^verbatim>\<open>libc/common/ctype.c\<close>, \<^verbatim>\<open>libc/common/string.c\<close>,
  \<^verbatim>\<open>libc/common/stdlib\<close> and \<^verbatim>\<open>kernel/core/string.c\<close>. Functions on strings take the list of characters,
  behind which the terminator is read; functions that write take memory.
\<close>

section \<open>Characters\<close>

definition isupper :: "int \<Rightarrow> bool" where "isupper c \<longleftrightarrow> 65 \<le> c \<and> c \<le> 90"

definition islower :: "int \<Rightarrow> bool" where "islower c \<longleftrightarrow> 97 \<le> c \<and> c \<le> 122"

definition isdigit :: "int \<Rightarrow> bool" where "isdigit c \<longleftrightarrow> 48 \<le> c \<and> c \<le> 57"

definition isalpha :: "int \<Rightarrow> bool" where "isalpha c \<longleftrightarrow> isupper c \<or> islower c"

definition isalnum :: "int \<Rightarrow> bool" where "isalnum c \<longleftrightarrow> isalpha c \<or> isdigit c"

definition iscntrl :: "int \<Rightarrow> bool" where "iscntrl c \<longleftrightarrow> c < 32 \<or> c = 127"

definition isblank :: "int \<Rightarrow> bool" where "isblank c \<longleftrightarrow> c = 9 \<or> c = 32"

definition isprint :: "int \<Rightarrow> bool" where "isprint c \<longleftrightarrow> \<not> iscntrl c"

definition isgraph :: "int \<Rightarrow> bool" where "isgraph c \<longleftrightarrow> isprint c \<and> c \<noteq> 32"

definition isspace :: "int \<Rightarrow> bool" where
  "isspace c \<longleftrightarrow> c = 32 \<or> c = 12 \<or> c = 10 \<or> c = 13 \<or> c = 9 \<or> c = 11"

definition ispunct :: "int \<Rightarrow> bool" where "ispunct c \<longleftrightarrow> isprint c \<and> \<not> isspace c \<and> \<not> isalnum c"

definition isxdigit :: "int \<Rightarrow> bool" where
  "isxdigit c \<longleftrightarrow> isdigit c \<or> (65 \<le> c \<and> c \<le> 70) \<or> (97 \<le> c \<and> c \<le> 102)"

definition toupper :: "int \<Rightarrow> int" where "toupper c = (if 97 \<le> c \<and> c \<le> 122 then c - 32 else c)"

definition tolower :: "int \<Rightarrow> int" where "tolower c = (if 65 \<le> c \<and> c \<le> 90 then c + 32 else c)"

section \<open>Numbers\<close>

fun skip_space :: "u8 list \<Rightarrow> u8 list" where
  "skip_space [] = []"
| "skip_space (c # s) = (if c \<noteq> 0 \<and> isspace (sint c) then skip_space s else c # s)"

text \<open>Signed overflow is undefined in C; here the value is an unbounded integer.\<close>

fun atoi_digits :: "u8 list \<Rightarrow> int \<Rightarrow> int" where
  "atoi_digits [] val = val"
| "atoi_digits (c # s) val =
     (if c \<noteq> 0 \<and> isdigit (sint c) then atoi_digits s (val * 10 + (sint c - 48)) else val)"

definition atoi :: "u8 list \<Rightarrow> int" where
  "atoi str =
     (let s = skip_space str
      in if chr0 s = 0x2B then atoi_digits (tl s) 0
         else if chr0 s = 0x2D then - atoi_digits (tl s) 0
         else atoi_digits s 0)"

text \<open>The seed is a static variable.\<close>

definition rand :: "u64 \<Rightarrow> int \<times> u64" where
  "rand rand_seed =
     (let rand_seed = rand_seed * 164603309694725029 + 14738995463583502973
      in (uint (drop_bit 33 rand_seed AND 0x7FFFFFFF), rand_seed))"

definition srand :: "u32 \<Rightarrow> u64" where "srand seed = ucast seed"

section \<open>Comparing and searching\<close>

fun strlen :: "u8 list \<Rightarrow> nat" where
  "strlen [] = 0"
| "strlen (c # s) = (if c \<noteq> 0 then Suc (strlen s) else 0)"

fun strcmp :: "u8 list \<Rightarrow> u8 list \<Rightarrow> int" where
  "strcmp (a # s) (b # t) = (if a \<noteq> 0 \<and> a = b then strcmp s t else uint a - uint b)"
| "strcmp s t = uint (chr0 s) - uint (chr0 t)"

fun strncmp :: "u8 list \<Rightarrow> u8 list \<Rightarrow> nat \<Rightarrow> int" where
  "strncmp s t 0 = 0"
| "strncmp s t (Suc n) =
     (if chr0 s \<noteq> 0 \<and> chr0 s = chr0 t then strncmp (tl s) (tl t) n else uint (chr0 s) - uint (chr0 t))"

fun strcasecmp :: "u8 list \<Rightarrow> u8 list \<Rightarrow> int" where
  "strcasecmp (a # s) (b # t) =
     (if a \<noteq> 0 \<and> tolower (sint a) = tolower (sint b) then strcasecmp s t else tolower (uint a) - tolower (uint b))"
| "strcasecmp s t = tolower (uint (chr0 s)) - tolower (uint (chr0 t))"

fun strncasecmp :: "u8 list \<Rightarrow> u8 list \<Rightarrow> nat \<Rightarrow> int" where
  "strncasecmp s t 0 = 0"
| "strncasecmp s t (Suc n) =
     (if chr0 s \<noteq> 0 \<and> tolower (sint (chr0 s)) = tolower (sint (chr0 t)) then strncasecmp (tl s) (tl t) n
      else tolower (uint (chr0 s)) - tolower (uint (chr0 t)))"

fun memcmp :: "u8 list \<Rightarrow> u8 list \<Rightarrow> nat \<Rightarrow> int" where
  "memcmp a b 0 = 0"
| "memcmp a b (Suc n) =
     (if chr0 a < chr0 b then -1 else if chr0 b < chr0 a then 1 else memcmp (tl a) (tl b) n)"

fun memchr :: "u8 list \<Rightarrow> u8 \<Rightarrow> nat \<Rightarrow> nat option" where
  "memchr s c 0 = None"
| "memchr s c (Suc n) = (if chr0 s = c then Some 0 else map_option Suc (memchr (tl s) c n))"

fun char_in :: "u8 \<Rightarrow> u8 list \<Rightarrow> bool" where
  "char_in c [] = False"
| "char_in c (d # s) = (if d = 0 then False else if c = d then True else char_in c s)"

fun strspn :: "u8 list \<Rightarrow> u8 list \<Rightarrow> nat" where
  "strspn [] t = 0"
| "strspn (c # s) t = (if c = 0 then 0 else if \<not> char_in c t then 0 else Suc (strspn s t))"

fun strcspn :: "u8 list \<Rightarrow> u8 list \<Rightarrow> nat" where
  "strcspn [] t = 0"
| "strcspn (c # s) t = (if c = 0 then 0 else if char_in c t then 0 else Suc (strcspn s t))"

fun strpbrk :: "u8 list \<Rightarrow> u8 list \<Rightarrow> nat option" where
  "strpbrk [] t = None"
| "strpbrk (c # s) t = (if c = 0 then None else if char_in c t then Some 0 else map_option Suc (strpbrk s t))"

fun strrchr_loop :: "u8 list \<Rightarrow> u8 \<Rightarrow> nat \<Rightarrow> nat option \<Rightarrow> nat option" where
  "strrchr_loop [] c i result = result"
| "strrchr_loop (d # s) c i result =
     (if d = 0 then result else strrchr_loop s c (i + 1) (if d = c then Some i else result))"

definition strrchr :: "u8 list \<Rightarrow> u8 \<Rightarrow> nat option" where
  "strrchr s c = strrchr_loop s c 0 None"

fun strchr :: "u8 list \<Rightarrow> u8 \<Rightarrow> nat option" where
  "strchr [] c = (if c = 0 then Some 0 else None)"
| "strchr (d # s) c = (if d = c then Some 0 else if d = 0 then None else map_option Suc (strchr s c))"

fun strstr_loop :: "u8 list \<Rightarrow> u8 list \<Rightarrow> nat \<Rightarrow> nat option" where
  "strstr_loop [] needle n = None"
| "strstr_loop (c # s) needle n =
     (if c = 0 then None else if memcmp (c # s) needle n = 0 then Some 0
      else map_option Suc (strstr_loop s needle n))"

definition strstr :: "u8 list \<Rightarrow> u8 list \<Rightarrow> nat option" where
  "strstr haystack needle =
     (let n = strlen needle in if n = 0 then Some 0 else strstr_loop haystack needle n)"

text \<open>
  \<open>strxfrm\<close> returns what it has written and its result. When the loop is over \<open>dst\<close> points at the
  terminator it has written, and that is the string whose length it returns.
\<close>

fun strxfrm_loop :: "nat \<Rightarrow> u8 list \<Rightarrow> u8 list" where
  "strxfrm_loop 0 s = []"
| "strxfrm_loop (Suc n) [] = []"
| "strxfrm_loop (Suc n) (c # s) = (if c \<noteq> 0 then c # strxfrm_loop n s else [])"

definition strxfrm :: "bool \<Rightarrow> u8 list \<Rightarrow> nat \<Rightarrow> u8 list \<times> nat" where
  "strxfrm dst_null s n =
     (if n = 0 then (if dst_null then [] else [0], 0)
      else (strxfrm_loop (n - 1) s @ [0], strlen [0]))"

definition strcoll :: "u8 list \<Rightarrow> u8 list \<Rightarrow> int" where
  "strcoll s1 s2 =
     (let size1 = 1 + snd (strxfrm True s1 0); size2 = 1 + snd (strxfrm True s2 0);
          out1 = fst (strxfrm False s1 size1); out2 = fst (strxfrm False s2 size2)
      in strcmp out1 out2)"

text \<open>
  \<open>strtok\<close> has the buffer it works on and the saved position as state. The first loop skips while it sees
  delimiters, and gives up at the first other character: \<open>None\<close>. Otherwise the last position it saw.
\<close>

fun strtok_skip :: "u8 list \<Rightarrow> u8 list \<Rightarrow> nat \<Rightarrow> nat option \<Rightarrow> nat option option" where
  "strtok_skip [] delim i token = Some token"
| "strtok_skip (c # s) delim i token =
     (if c = 0 then Some token
      else if char_in c delim then strtok_skip s delim (i + 1) (Some i) else None)"

fun strtok_end :: "u8 list \<Rightarrow> u8 list \<Rightarrow> nat option" where
  "strtok_end [] delim = None"
| "strtok_end (c # s) delim =
     (if c = 0 then None else if char_in c delim then Some 0 else map_option Suc (strtok_end s delim))"

definition strtok_from :: "u8 list \<Rightarrow> nat \<Rightarrow> u8 list \<Rightarrow> nat option \<times> u8 list \<times> nat option" where
  "strtok_from buf saved delim =
     (case strtok_skip (drop saved buf) delim saved None of
        None \<Rightarrow> (None, buf, None)
      | Some token \<Rightarrow>
          (case strtok_end (drop saved buf) delim of
             Some i \<Rightarrow> (token, buf[saved + i := 0], Some (saved + i + 1))
           | None \<Rightarrow> (token, buf, None)))"

definition strtok :: "u8 list option \<Rightarrow> u8 list \<Rightarrow> nat option \<Rightarrow> u8 list \<Rightarrow> nat option \<times> u8 list \<times> nat option" where
  "strtok s buf saved_pointer delim =
     (case s of
        Some str \<Rightarrow> strtok_from str 0 delim
      | None \<Rightarrow> (case saved_pointer of None \<Rightarrow> (None, buf, None) | Some p \<Rightarrow> strtok_from buf p delim))"

section \<open>Writing to memory\<close>

fun copy_up :: "nat \<Rightarrow> u32 \<Rightarrow> u32 \<Rightarrow> mem \<Rightarrow> mem" where
  "copy_up 0 a b m = m"
| "copy_up (Suc n) a b m = copy_up n (a + 1) (b + 1) (m(a := m b))"

fun copy_down :: "nat \<Rightarrow> u32 \<Rightarrow> u32 \<Rightarrow> mem \<Rightarrow> mem" where
  "copy_down 0 a b m = m"
| "copy_down (Suc n) a b m = copy_down n (a - 1) (b - 1) (m(a - 1 := m (b - 1)))"

definition memmove :: "u32 \<Rightarrow> u32 \<Rightarrow> nat \<Rightarrow> mem \<Rightarrow> mem" where
  "memmove dst src n m =
     (if dst \<le> src then copy_up n dst src m else copy_down n (dst + of_nat n) (src + of_nat n) m)"

partial_function (option) strend :: "u32 \<Rightarrow> mem \<Rightarrow> u32 option" where
  "strend a m = (if m a \<noteq> 0 then strend (a + 1) m else Some a)"

partial_function (option) strcpy :: "u32 \<Rightarrow> u32 \<Rightarrow> mem \<Rightarrow> mem option" where
  "strcpy dst src m = (if m src \<noteq> 0 then strcpy (dst + 1) (src + 1) (m(dst := m src)) else Some (m(dst := m src)))"

definition strcat :: "u32 \<Rightarrow> u32 \<Rightarrow> mem \<Rightarrow> mem option" where
  "strcat dst src m = (case strend dst m of None \<Rightarrow> None | Some d \<Rightarrow> strcpy d src m)"

fun strncpy :: "u32 \<Rightarrow> u32 \<Rightarrow> nat \<Rightarrow> mem \<Rightarrow> mem" where
  "strncpy dst src 0 m = m"
| "strncpy dst src (Suc n) m =
     (if m src \<noteq> 0 then strncpy (dst + 1) (src + 1) n (m(dst := m src)) else strncpy (dst + 1) src n (m(dst := 0)))"

fun strncat_loop :: "u32 \<Rightarrow> u32 \<Rightarrow> nat \<Rightarrow> mem \<Rightarrow> mem" where
  "strncat_loop dst src 0 m = m(dst := 0)"
| "strncat_loop dst src (Suc n) m =
     (if m src \<noteq> 0 then strncat_loop (dst + 1) (src + 1) n (m(dst := m src)) else m(dst := 0))"

definition strncat :: "u32 \<Rightarrow> u32 \<Rightarrow> nat \<Rightarrow> mem \<Rightarrow> mem option" where
  "strncat dst src n m = (case strend dst m of None \<Rightarrow> None | Some d \<Rightarrow> Some (strncat_loop d src n m))"

section \<open>Properties\<close>

lemma chr0_simps [simp]: "chr0 [] = 0" "chr0 (c # s) = c"
  by (simp_all add: chr0_def)

lemma load_bytes_Suc: "load_bytes a (Suc n) m = m a # load_bytes (a + 1) n m"
  by (simp add: load_bytes_def upt_conv_Cons map_Suc_upt [symmetric] add.assoc del: upt_Suc)

lemma load_bytes_snoc: "load_bytes a (Suc n) m = load_bytes a n m @ [m (a + of_nat n)]"
  by (simp add: load_bytes_def)

lemma store_bytes_single: "store_bytes a [x] m = m(a := x)"
  by (auto simp: store_bytes_def fun_eq_iff unat_eq_zero)

lemma load_bytes_upd:
  assumes "\<And>i. i < n \<Longrightarrow> a + of_nat i \<noteq> x"
  shows "load_bytes a n (m(x := y)) = load_bytes a n m"
  using assms by (auto simp: load_bytes_def)

lemma copy_up_spec:
  assumes "unat dst \<le> unat src" "unat src + n \<le> 2 ^ 32" "n < 2 ^ 32"
  shows "copy_up n dst src m = store_bytes dst (load_bytes src n m) m"
  using assms
proof (induction n arbitrary: dst src m)
  case 0
  then show ?case by (simp add: load_bytes_def)
next
  case (Suc n)
  show ?case
  proof (cases "n = 0")
    case True
    then show ?thesis by (simp add: load_bytes_def store_bytes_single)
  next
    case False
    let ?m = "m(dst := m src)"
    have s: "unat (src + 1) = unat src + 1" "unat (dst + 1) = unat dst + 1"
      using Suc.prems False by (simp_all add: unat_word_ariths)
    have "src + 1 + of_nat i \<noteq> dst" if "i < n" for i
    proof -
      have "unat (src + 1 + of_nat i) = unat src + 1 + i" using Suc.prems that s by (simp add: unat_word_ariths unat_of_nat)
      then show ?thesis using Suc.prems(1) by auto
    qed
    then have l: "load_bytes (src + 1) n ?m = load_bytes (src + 1) n m" by (rule load_bytes_upd)
    have "copy_up (Suc n) dst src m = store_bytes (dst + 1) (load_bytes (src + 1) n ?m) ?m"
      unfolding copy_up.simps by (rule Suc.IH) (use Suc.prems s in simp_all)
    also have "\<dots> = store_bytes dst ([m src] @ load_bytes (src + 1) n m) m"
      using store_bytes_append [of "[m src]" "load_bytes (src + 1) n m" dst m] Suc.prems False unat_lt32 [of src]
      by (simp add: l store_bytes_single)
    finally show ?thesis by (simp add: load_bytes_Suc)
  qed
qed

lemma copy_down_spec:
  assumes "unat src < unat dst" "unat dst + n \<le> 2 ^ 32"
  shows "copy_down n (dst + of_nat n) (src + of_nat n) m = store_bytes dst (load_bytes src n m) m"
  using assms
proof (induction n arbitrary: m)
  case 0
  then show ?case by (simp add: load_bytes_def)
next
  case (Suc n)
  let ?m = "m(dst + of_nat n := m (src + of_nat n))"
  have d: "unat (dst + of_nat n) = unat dst + n" using Suc.prems by (simp add: unat_word_ariths unat_of_nat)
  have "src + of_nat i \<noteq> dst + of_nat n" if "i < n" for i
  proof -
    have "unat (src + of_nat i) = unat src + i" using Suc.prems that by (simp add: unat_word_ariths unat_of_nat)
    then show ?thesis using d Suc.prems(1) that by auto
  qed
  then have l: "load_bytes src n ?m = load_bytes src n m" by (rule load_bytes_upd)
  have n: "n < 2 ^ 32" using Suc.prems by linarith
  have "store_bytes dst (load_bytes src n m) ?m = store_bytes dst (load_bytes src n m @ [m (src + of_nat n)]) m"
  proof
    fix x
    show "store_bytes dst (load_bytes src n m) ?m x = store_bytes dst (load_bytes src n m @ [m (src + of_nat n)]) m x"
    proof (cases "x = dst + of_nat n")
      case True
      then have "unat (x - dst) = n" using n by (simp add: unat_of_nat)
      then show ?thesis using True by (simp add: store_bytes_def nth_append)
    next
      case False
      have "unat (x - dst) \<noteq> n"
      proof
        assume "unat (x - dst) = n"
        then have "of_nat (unat (x - dst)) = (of_nat n :: u32)" by simp
        then show False using False by (simp add: algebra_simps)
      qed
      then show ?thesis using False by (auto simp: store_bytes_def nth_append less_Suc_eq)
    qed
  qed
  moreover have "copy_down (Suc n) (dst + of_nat (Suc n)) (src + of_nat (Suc n)) m =
      store_bytes dst (load_bytes src n ?m) ?m"
  proof -
    have "copy_down (Suc n) (dst + of_nat (Suc n)) (src + of_nat (Suc n)) m =
        copy_down n (dst + of_nat n) (src + of_nat n) ?m"
      unfolding copy_down.simps by (simp add: algebra_simps del: fun_upd_apply)
    also have "\<dots> = store_bytes dst (load_bytes src n ?m) ?m" by (rule Suc.IH) (use Suc.prems in simp_all)
    finally show ?thesis .
  qed
  ultimately show ?case by (simp add: l load_bytes_snoc)
qed

text \<open>
  Equivalence of the two copying loops with a copy through a temporary buffer: \<open>memmove\<close> moves
  the bytes the source had before, however the two ranges overlap, and changes nothing else.
\<close>

lemma memmove_correct:
  assumes "unat dst + n \<le> 2 ^ 32" "unat src + n \<le> 2 ^ 32" "n < 2 ^ 32"
  shows "memmove dst src n m = store_bytes dst (load_bytes src n m) m"
  using copy_up_spec [of dst src n m] copy_down_spec [of src dst n m] assms
  by (auto simp: memmove_def word_le_nat_alt)

lemma memmove_correct_witness:
  "load_bytes 0x1001 3 (memmove 0x1001 0x1000 3 (store_bytes 0x1000 [1, 2, 3, 4] zeroed)) = [1, 2, 3]"
proof -
  have "memmove 0x1001 0x1000 3 (store_bytes 0x1000 [1, 2, 3, 4] zeroed) =
      store_bytes 0x1001 (load_bytes 0x1000 3 (store_bytes 0x1000 [1, 2, 3, 4] zeroed)) (store_bytes 0x1000 [1, 2, 3, 4] zeroed)"
    by (rule memmove_correct) simp_all
  then show ?thesis by (simp add: load_bytes_def store_bytes_def numeral_3_eq_3)
qed

text \<open>Searching.\<close>

lemma strlen_length: "0 \<notin> set s \<Longrightarrow> strlen s = length s"
  by (induction s) auto

lemma memcmp_prefix:
  "\<lbrakk>0 \<notin> set needle; 0 \<notin> set s\<rbrakk> \<Longrightarrow> memcmp s needle (length needle) = 0 \<longleftrightarrow> prefix needle s"
proof (induction needle arbitrary: s)
  case (Cons c needle)
  then show ?case by (cases s) (auto simp: word_gt_0 not_less intro: antisym)
qed simp

lemma strstr_loop_spec:
  assumes "needle \<noteq> []" "0 \<notin> set needle" "0 \<notin> set s"
  shows "case strstr_loop s needle (length needle) of
     None \<Rightarrow> \<not> sublist needle s
   | Some i \<Rightarrow> prefix needle (drop i s) \<and> (\<forall>k < i. \<not> prefix needle (drop k s))"
  using assms(3)
proof (induction s)
  case Nil
  then show ?case using assms(1) by (simp add: sublist_Nil_right)
next
  case (Cons c s)
  have m: "memcmp (c # s) needle (length needle) = 0 \<longleftrightarrow> prefix needle (c # s)"
    using memcmp_prefix [OF assms(2), of "c # s"] Cons.prems by simp
  show ?case
  proof (cases "prefix needle (c # s)")
    case True
    then show ?thesis using m Cons.prems by simp
  next
    case False
    then show ?thesis using m Cons
      by (auto simp: sublist_Cons_right less_Suc_eq_0_disj split: option.splits)
  qed
qed

text \<open>
  \<open>strstr\<close> finds the first place where the needle occurs, and gives no place exactly when it does
  not occur.
\<close>

lemma strstr_correct:
  assumes "0 \<notin> set needle" "0 \<notin> set s"
  shows "case strstr s needle of
     None \<Rightarrow> \<not> sublist needle s
   | Some i \<Rightarrow> prefix needle (drop i s) \<and> (\<forall>k < i. \<not> prefix needle (drop k s))"
  using strstr_loop_spec [OF _ assms] strlen_length [OF assms(1)] by (auto simp: strstr_def)

lemma strstr_correct_witness: "prefix [2, 3] (drop 1 [1, 2, 3 :: u8]) \<and> strstr [1, 2, 3] [2, 3] = Some 1"
  using strstr_correct [of "[2, 3]" "[1, 2, 3]"] by (simp add: strstr_def)

text \<open>Other functions against the lists they stand for.\<close>

lemma char_in_set: "0 \<notin> set t \<Longrightarrow> char_in c t \<longleftrightarrow> c \<in> set t"
  by (induction t) auto

lemma strspn_takeWhile: "\<lbrakk>0 \<notin> set s; 0 \<notin> set t\<rbrakk> \<Longrightarrow> strspn s t = length (takeWhile (\<lambda>c. c \<in> set t) s)"
  by (induction s) (auto simp: char_in_set)

lemma strcspn_takeWhile: "\<lbrakk>0 \<notin> set s; 0 \<notin> set t\<rbrakk> \<Longrightarrow> strcspn s t = length (takeWhile (\<lambda>c. c \<notin> set t) s)"
  by (induction s) (auto simp: char_in_set)

lemma strcmp_eq: "\<lbrakk>0 \<notin> set s; 0 \<notin> set t\<rbrakk> \<Longrightarrow> strcmp s t = 0 \<longleftrightarrow> s = t"
proof (induction s arbitrary: t)
  case Nil
  then show ?case by (cases t) (auto simp: uint_0_iff)
next
  case (Cons a s)
  then show ?case by (cases t) (auto simp: uint_0_iff dest: unsigned_word_eqI)
qed

text \<open>\<open>strcoll\<close> finds any two strings equal, and \<open>strtok\<close> finds no token in a string that begins with one.\<close>

lemma strcoll_always_0: "strcoll s1 s2 = 0"
  by (simp add: strcoll_def strxfrm_def)

lemma strtok_no_token:
  "\<lbrakk>c \<noteq> 0; \<not> char_in c delim\<rbrakk> \<Longrightarrow> strtok (Some (c # s)) buf saved delim = (None, c # s, None)"
  by (simp add: strtok_def strtok_from_def)

lemma strrchr_0: "0 \<notin> set s \<Longrightarrow> strrchr s 0 = None"
proof -
  have "strrchr_loop s 0 i r = r" if "0 \<notin> set s" for s i r
    using that by (induction s arbitrary: i) auto
  then show "0 \<notin> set s \<Longrightarrow> strrchr s 0 = None" by (simp add: strrchr_def)
qed

end
