(* ===== verification/ShortName.thy ===== *)
theory ShortName
  imports CLib
begin

unbundle bit_operations_syntax

text \<open>
  Short file names: \<^verbatim>\<open>kernel/fs/fat/mksfn.c\<close> makes the 11 characters of an 8.3 name from a long name and
  a number that tells clashing names apart.
\<close>

section \<open>The operations\<close>

definition other_valid :: "u8 list" where
  "other_valid = [0x21, 0x23, 0x24, 0x25, 0x26, 0x27, 0x28, 0x29, 0x2D, 0x40, 0x5E, 0x5F, 0x60, 0x7B, 0x7D, 0x7E]"

definition IsValidSFNCharacter :: "u8 \<Rightarrow> bool" where
  "IsValidSFNCharacter c \<longleftrightarrow> isalnum (sint c) \<or> char_in c other_valid"

text \<open>The character \<open>toupper\<close> gives, as a \<open>char\<close>.\<close>

definition upper_char :: "u8 \<Rightarrow> u8" where
  "upper_char c = word_of_int (toupper (sint c))"

text \<open>The index behind the last dot, or of the terminator.\<close>

fun ext_start_loop :: "u8 list \<Rightarrow> nat \<Rightarrow> nat option \<Rightarrow> nat option" where
  "ext_start_loop [] i start = start"
| "ext_start_loop (c # s) i start =
     (if c = 0 then start else ext_start_loop s (i + 1) (if c = 0x2E then Some (i + 1) else start))"

definition GetShortFileExtensionStart :: "u8 list \<Rightarrow> nat" where
  "GetShortFileExtensionStart lfn =
     (case ext_start_loop lfn 0 None of None \<Rightarrow> strlen lfn | Some i \<Rightarrow> i)"

text \<open>The loops that copy valid characters, with room for \<open>k\<close> more.\<close>

fun copy_valid :: "u8 list \<Rightarrow> nat \<Rightarrow> u8 list" where
  "copy_valid [] k = []"
| "copy_valid (c # s) k =
     (if c \<noteq> 0 \<and> 0 < k then (if IsValidSFNCharacter c then upper_char c # copy_valid s (k - 1) else copy_valid s k) else [])"

definition pad_to :: "nat \<Rightarrow> u8 list \<Rightarrow> u8 list" where
  "pad_to n s = s @ replicate (n - length s) 0x20"

definition GetShortFileExtension :: "u8 list \<Rightarrow> u8 list" where
  "GetShortFileExtension long_ext = pad_to 3 (copy_valid long_ext 3)"

definition GetShortFileMainName :: "u8 list \<Rightarrow> nat \<Rightarrow> u8 list \<times> nat" where
  "GetShortFileMainName lfn ext_start =
     (let name = copy_valid (take ext_start lfn) 8 in (pad_to 8 name, length name))"

definition hex_digit :: "int \<Rightarrow> u8" where
  "hex_digit v = [0x30, 0x31, 0x32, 0x33, 0x34, 0x35, 0x36, 0x37, 0x38, 0x39, 0x41, 0x42, 0x43, 0x44, 0x45, 0x46] ! nat (v AND 0xF)"

text \<open>The status and the 11 characters.\<close>

definition GetShortFilename :: "u8 list \<Rightarrow> int \<Rightarrow> errno option \<times> u8 list" where
  "GetShortFilename lfn clash_num =
     (let long_ext_start = GetShortFileExtensionStart lfn;
          ext = GetShortFileExtension (drop long_ext_start lfn);
          (name, main_len) = GetShortFileMainName lfn long_ext_start
      in if main_len = 0 then (Some EINVAL, name @ ext)
         else if clash_num = 0 then (None, name @ ext)
         else if clash_num < 10 then
           (let p = (if 6 < main_len then 6 else main_len)
            in (None, name[p := 0x7E, p + 1 := word_of_int (clash_num + 48)] @ ext))
         else if clash_num < 100 then
           (let p = (if 5 < main_len then 5 else main_len)
            in (None, name[p := 0x7E, p + 1 := word_of_int (clash_num div 10 + 48),
                  p + 2 := word_of_int (clash_num mod 10 + 48)] @ ext))
         else
           (let p = (if 3 < main_len then 3 else main_len);
                val = clash_num - 100;
                v1 = drop_bit 4 val; v2 = drop_bit 4 v1; v3 = drop_bit 4 v2; v4 = drop_bit 4 v3; v5 = drop_bit 4 v4;
                name = name[p := hex_digit val, p + 1 := hex_digit v1, p + 2 := hex_digit v2,
                         p + 3 := hex_digit v3, p + 4 := hex_digit v4]
            in (if v5 \<noteq> 0 then Some EINVAL else None, name @ ext)))"

section \<open>The characters\<close>

lemma copy_valid_spec:
  "copy_valid s k = take k (map upper_char (filter IsValidSFNCharacter (takeWhile (\<lambda>c. c \<noteq> 0) s)))"
proof (induction s arbitrary: k)
  case (Cons c s)
  then show ?case by (cases k) simp_all
qed simp

text \<open>The characters of short names.\<close>

definition sfn_chars :: "u8 list" where
  "sfn_chars = map of_nat ([65..<91] @ [48..<58]) @ other_valid"

lemma isalnum_upper: "isalnum (sint c) \<Longrightarrow> upper_char c \<in> set sfn_chars"
proof -
  assume a: "isalnum (sint c)"
  then have r: "65 \<le> toupper (sint c) \<and> toupper (sint c) \<le> 90 \<or> 48 \<le> toupper (sint c) \<and> toupper (sint c) \<le> 57"
    by (auto simp: isalnum_def isalpha_def isupper_def islower_def isdigit_def toupper_def)
  define n where "n = nat (toupper (sint c))"
  have n: "upper_char c = of_nat n" using r by (auto simp: upper_char_def n_def)
  have "n \<in> {65..<91} \<union> {48..<58}" using r by (auto simp: n_def nat_less_iff)
  then have "of_nat n \<in> (of_nat :: nat \<Rightarrow> u8) ` ({65..<91} \<union> {48..<58})" by blast
  then show ?thesis unfolding n sfn_chars_def set_append set_map set_upt image_Un by blast
qed

lemma upper_valid: "IsValidSFNCharacter c \<Longrightarrow> upper_char c \<in> set sfn_chars"
proof (cases "isalnum (sint c)")
  case False
  moreover assume "IsValidSFNCharacter c"
  moreover have "0 \<notin> set other_valid" by code_simp
  ultimately have c: "c \<in> set other_valid" by (simp add: IsValidSFNCharacter_def char_in_set)
  have "\<forall>c \<in> set other_valid. upper_char c = c" by code_simp
  then show ?thesis using c by (simp add: sfn_chars_def)
qed (rule isalnum_upper)


definition hex_list :: "u8 list" where
  "hex_list = [0x30, 0x31, 0x32, 0x33, 0x34, 0x35, 0x36, 0x37, 0x38, 0x39, 0x41, 0x42, 0x43, 0x44, 0x45, 0x46]"

lemma hex_digit_nth: "hex_digit v = hex_list ! nat (v mod 16)"
proof -
  have "v AND 0xF = take_bit 4 v" by (simp add: take_bit_eq_mask mask_eq_exp_minus_1)
  then have "v AND 0xF = v mod 16" by (simp add: take_bit_eq_mod)
  then show ?thesis by (simp only: hex_digit_def hex_list_def)
qed


lemma hex_digit_inj: "hex_digit v = hex_digit w \<longleftrightarrow> v mod 16 = w mod 16"
proof -
  have "distinct hex_list" by code_simp
  moreover have "nat (v mod 16) < length hex_list" "nat (w mod 16) < length hex_list" by (simp_all add: hex_list_def nat_less_iff)
  ultimately have "hex_digit v = hex_digit w \<longleftrightarrow> nat (v mod 16) = nat (w mod 16)"
    unfolding hex_digit_nth by (simp add: nth_eq_iff_index_eq)
  then show ?thesis by (simp add: nat_eq_iff)
qed

section \<open>Properties\<close>

lemma pad_to_props: "length s \<le> n \<Longrightarrow> length (pad_to n s) = n" "set (pad_to n s) \<subseteq> set s \<union> {0x20}"
  by (auto simp: pad_to_def)

lemma main_name:
  assumes "GetShortFileMainName lfn e = (name, k)"
  shows "length name = 8" "k \<le> 8" "set name \<subseteq> set sfn_chars \<union> {0x20}"
    "\<And>i. i < k \<Longrightarrow> name ! i \<in> set sfn_chars" "\<And>i. k \<le> i \<Longrightarrow> i < 8 \<Longrightarrow> name ! i = 0x20"
proof -
  define s where "s = copy_valid (take e lfn) 8"
  have n: "name = pad_to 8 s" "k = length s" using assms by (simp_all add: GetShortFileMainName_def Let_def s_def)
  have s: "length s \<le> 8" "set s \<subseteq> set sfn_chars"
    unfolding s_def copy_valid_spec using upper_valid by (auto dest!: in_set_takeD)
  show "length name = 8" "k \<le> 8" "set name \<subseteq> set sfn_chars \<union> {0x20}" using n s pad_to_props [where s = s and n = 8] by auto
  show "name ! i \<in> set sfn_chars" if "i < k" for i using that n s by (auto simp: pad_to_def nth_append)
  show "name ! i = 0x20" if "k \<le> i" "i < 8" for i using that n by (auto simp: pad_to_def nth_append)
qed


text \<open>The name part: which positions carry the suffix.\<close>

definition suffix_pos :: "nat \<Rightarrow> int \<Rightarrow> nat" where
  "suffix_pos k clash = min k (if clash < 10 then 6 else if clash < 100 then 5 else 3)"

definition suffix :: "int \<Rightarrow> u8 list" where
  "suffix clash =
     (if clash < 10 then [0x7E, word_of_int (clash + 48)]
      else if clash < 100 then [0x7E, word_of_int (clash div 10 + 48), word_of_int (clash mod 10 + 48)]
      else (let v = clash - 100 in map (\<lambda>i. hex_digit (drop_bit (4 * i) v)) [0, 1, 2, 3, 4]))"

text \<open>Consecutive stores into the name.\<close>

lemma store_mid: "\<lbrakk>length us = p; j < length vs\<rbrakk> \<Longrightarrow> (us @ vs @ ws)[p + j := a] = us @ vs[j := a] @ ws"
  by (auto simp: list_update_append)

lemma store_all:
  "length vs = 2 \<Longrightarrow> vs[0 := a, 1 := b] = [a, b]"
  "length vs = 3 \<Longrightarrow> vs[0 := a, 1 := b, 2 := c] = [a, b, c]"
  "length vs = 5 \<Longrightarrow> vs[0 := a, 1 := b, 2 := c, 3 := d, 4 := e] = [a, b, c, d, e]"
  by (auto simp: list_eq_iff_nth_eq nth_list_update nth_Cons' less_Suc_eq eval_nat_numeral)

lemma stores:
  fixes xs :: "u8 list"
  assumes "p + n \<le> length xs"
  shows "n = 2 \<Longrightarrow> xs[p := a, p + 1 := b] = take p xs @ [a, b] @ drop (p + 2) xs"
  "n = 3 \<Longrightarrow> xs[p := a, p + 1 := b, p + 2 := c] = take p xs @ [a, b, c] @ drop (p + 3) xs"
  "n = 5 \<Longrightarrow> xs[p := a, p + 1 := b, p + 2 := c, p + 3 := d, p + 4 := e] =
     take p xs @ [a, b, c, d, e] @ drop (p + 5) xs"
proof -
  define us vs ws where "us = take p xs" and "vs = take n (drop p xs)" and "ws = drop (p + n) xs"
  have xs: "xs = us @ vs @ ws" unfolding us_def vs_def ws_def by (metis append_take_drop_id drop_drop add.commute)
  have l: "length us = p" "length vs = n" using assms by (simp_all add: us_def vs_def)
  have mid: "length vs' = n \<Longrightarrow> j < n \<Longrightarrow> (us @ vs' @ ws)[p + j := x] = us @ vs'[j := x] @ ws" for vs' j x
    using store_mid [OF l(1)] by blast
  have mid0: "length vs' = n \<Longrightarrow> 0 < n \<Longrightarrow> (us @ vs' @ ws)[p := x] = us @ vs'[0 := x] @ ws" for vs' x
    using mid [of vs' 0 x] by simp
  show "xs[p := a, p + 1 := b] = take p xs @ [a, b] @ drop (p + 2) xs" if "n = 2"
  proof -
    have "(us @ vs @ ws)[p := a, p + 1 := b] = us @ vs[0 := a, 1 := b] @ ws"
      by (subst mid0, use l that in simp, use that in simp, subst mid) (use l that in simp_all)
    then show ?thesis using store_all(1) [of vs a b] l that unfolding xs [symmetric] by (simp add: us_def ws_def)
  qed
  show "xs[p := a, p + 1 := b, p + 2 := c] = take p xs @ [a, b, c] @ drop (p + 3) xs" if "n = 3"
  proof -
    have "(us @ vs @ ws)[p := a, p + 1 := b, p + 2 := c] = us @ vs[0 := a, 1 := b, 2 := c] @ ws"
      by (subst mid0, use l that in simp, use that in simp, (subst mid, use l that in simp, use that in simp)+) (rule refl)
    then show ?thesis using store_all(2) [of vs a b c] l that unfolding xs [symmetric] by (simp add: us_def ws_def)
  qed
  show "xs[p := a, p + 1 := b, p + 2 := c, p + 3 := d, p + 4 := e] =
     take p xs @ [a, b, c, d, e] @ drop (p + 5) xs" if "n = 5"
  proof -
    have "(us @ vs @ ws)[p := a, p + 1 := b, p + 2 := c, p + 3 := d, p + 4 := e] =
        us @ vs[0 := a, 1 := b, 2 := c, 3 := d, 4 := e] @ ws"
      by (subst mid0, use l that in simp, use that in simp, (subst mid, use l that in simp, use that in simp)+) (rule refl)
    then show ?thesis using store_all(3) [of vs a b c d e] l that unfolding xs [symmetric] by (simp add: us_def ws_def)
  qed
qed

lemma length_suffix: "length (suffix clash) = (if clash < 10 then 2 else if clash < 100 then 3 else 5)"
  by (simp add: suffix_def Let_def)

lemma GetShortFilename_shape:
  assumes m: "GetShortFileMainName lfn (GetShortFileExtensionStart lfn) = (name, k)" and k: "k \<noteq> 0" and c: "0 < clash"
  shows "GetShortFilename lfn clash =
    (if 100 \<le> clash \<and> drop_bit 20 (clash - 100) \<noteq> 0 then Some EINVAL else None,
     take (suffix_pos k clash) name @ suffix clash @ drop (suffix_pos k clash + length (suffix clash)) name @
     GetShortFileExtension (drop (GetShortFileExtensionStart lfn) lfn))"
proof -
  have l: "length name = 8" by (rule main_name(1) [OF m])
  have p: "(if 6 < k then 6 else k) = min k 6" "(if 5 < k then 5 else k) = min k 5" "(if 3 < k then 3 else k) = min k 3" by auto
  consider "clash < 10" | "10 \<le> clash" "clash < 100" | "100 \<le> clash" by linarith
  then show ?thesis
  proof cases
    case 1
    then show ?thesis
      using k c stores(1) [of "min k 6" 2 name] l
      by (simp only: GetShortFilename_def Let_def m prod.case p) (simp add: suffix_pos_def suffix_def)
  next
    case 2
    then show ?thesis
      using k c stores(2) [of "min k 5" 3 name] l
      by (simp only: GetShortFilename_def Let_def m prod.case p) (simp add: suffix_pos_def suffix_def numeral_3_eq_3)
  next
    case 3
    have five: "min k 3 + 5 = Suc (Suc (Suc (Suc (Suc (min k 3)))))" by simp
    from 3 show ?thesis
      using k c stores(3) [of "min k 3" 5 name] l
      by (simp only: GetShortFilename_def Let_def m prod.case p) (simp add: suffix_pos_def suffix_def Let_def five)
  qed
qed




text \<open>The suffix that stands in a name tells its number.\<close>

lemma uint_byte: "\<lbrakk>0 \<le> x; x < 256\<rbrakk> \<Longrightarrow> uint (word_of_int x :: u8) = x"
  by (simp add: uint_word_of_int_eq take_bit_int_eq_self)

lemma digit_inj:
  assumes "0 \<le> d" "d < 10" "0 \<le> e" "e < 10" "(word_of_int (d + 48) :: u8) = word_of_int (e + 48)"
  shows "d = e"
proof -
  have "uint (word_of_int (d + 48) :: u8) = d + 48" by (rule uint_byte) (use assms(1,2) in simp_all)
  moreover have "uint (word_of_int (e + 48) :: u8) = e + 48" by (rule uint_byte) (use assms(3,4) in simp_all)
  ultimately show ?thesis using assms(5) by (metis add_right_cancel)
qed

lemma digit_other:
  assumes "0 \<le> d" "d < 10"
  shows "(word_of_int (d + 48) :: u8) \<noteq> 0x7E \<and> (word_of_int (d + 48) :: u8) \<noteq> 0x20"
proof -
  define x :: u8 where "x = word_of_int (d + 48)"
  have "uint x = d + 48" unfolding x_def by (rule uint_byte) (use assms in simp_all)
  then have "x \<noteq> 0x7E \<and> x \<noteq> 0x20" using assms by auto
  then show ?thesis unfolding x_def .
qed

lemma hex_other: "hex_digit v \<noteq> 0x7E"
proof -
  have "hex_digit v \<in> set hex_list" unfolding hex_digit_nth by (intro nth_mem) (simp add: hex_list_def nat_less_iff)
  moreover have "0x7E \<notin> set hex_list" by code_simp
  ultimately show ?thesis by auto
qed

lemma hex_digits_inj:
  assumes "0 \<le> v" "0 \<le> w" "drop_bit 20 v = 0" "drop_bit 20 w = 0"
    "\<And>i. i \<in> {0, 1, 2, 3, 4} \<Longrightarrow> hex_digit (drop_bit (4 * i) v) = hex_digit (drop_bit (4 * i) w)"
  shows "v = (w :: int)"
proof -
  have step: "drop_bit n a = drop_bit n b"
    if "drop_bit (n + 4) a = drop_bit (n + 4) b" "drop_bit n a mod 16 = drop_bit n b mod 16" for n and a b :: int
  proof -
    have "drop_bit n x = drop_bit n x div 16 * 16 + drop_bit n x mod 16" for x :: int by simp
    moreover have "drop_bit n x div 16 = drop_bit (n + 4) x" for x :: int
    proof -
      have "drop_bit n x div 16 = drop_bit 4 (drop_bit n x)" unfolding drop_bit_eq_div [of 4] by simp
      also have "\<dots> = drop_bit (4 + n) x" by (rule drop_bit_drop_bit)
      finally show ?thesis by (simp only: add.commute)
    qed
    ultimately show ?thesis using that by metis
  qed
  have m: "drop_bit (4 * i) v mod 16 = drop_bit (4 * i) w mod 16" if "i \<in> {0, 1, 2, 3, 4}" for i
    using assms(5) [OF that] hex_digit_inj by blast
  have "drop_bit 16 v = drop_bit 16 w" using step [of 16 v w] assms(3,4) m [of 4] by simp
  then have "drop_bit 12 v = drop_bit 12 w" using step [of 12 v w] m [of 3] by simp
  then have "drop_bit 8 v = drop_bit 8 w" using step [of 8 v w] m [of 2] by simp
  then have "drop_bit 4 v = drop_bit 4 w" using step [of 4 v w] m [of 1] by simp
  then show ?thesis using step [of 0 v w] m [of 0] by simp
qed

lemma suffix_inj:
  assumes "suffix c1 = suffix c2" "0 < c1" "0 < c2"
    "100 \<le> c1 \<longrightarrow> drop_bit 20 (c1 - 100) = 0" "100 \<le> c2 \<longrightarrow> drop_bit 20 (c2 - 100) = 0"
  shows "c1 = c2"
proof -
  have l: "length (suffix c1) = length (suffix c2)" using assms(1) by simp
  consider "c1 < 10" | "10 \<le> c1" "c1 < 100" | "100 \<le> c1" by linarith
  then show ?thesis
  proof cases
    case 1
    then have "c2 < 10" using l by (simp add: length_suffix split: if_splits)
    then show ?thesis using 1 assms(1-3) digit_inj [of c1 c2] by (simp add: suffix_def)
  next
    case 2
    then have c2: "10 \<le> c2" "c2 < 100" using l by (simp_all add: length_suffix split: if_splits)
    then have "c1 div 10 = c2 div 10" "c1 mod 10 = c2 mod 10"
      using 2 assms(1) digit_inj [of "c1 div 10" "c2 div 10"] digit_inj [of "c1 mod 10" "c2 mod 10"] by (simp_all add: suffix_def)
    then show ?thesis by (metis mult_div_mod_eq)
  next
    case 3
    then have c2: "100 \<le> c2" using l by (simp add: length_suffix split: if_splits)
    have "c1 - 100 = c2 - 100"
    proof (rule hex_digits_inj)
      fix i :: nat assume "i \<in> {0, 1, 2, 3, 4}"
      then show "hex_digit (drop_bit (4 * i) (c1 - 100)) = hex_digit (drop_bit (4 * i) (c2 - 100))"
        using assms(1) 3 c2 by (auto simp: suffix_def Let_def)
    qed (use 3 c2 assms(4,5) in simp_all)
    then show ?thesis by simp
  qed
qed

text \<open>The characters of the finished name.\<close>

definition with_suffix :: "u8 list \<Rightarrow> nat \<Rightarrow> int \<Rightarrow> u8 list" where
  "with_suffix name k c = take (suffix_pos k c) name @ suffix c @ drop (suffix_pos k c + length (suffix c)) name"

lemma with_suffix_nth:
  assumes "length name = 8" "i < 8"
  shows "with_suffix name k c ! i = (if i < suffix_pos k c then name ! i
    else if i < suffix_pos k c + length (suffix c) then suffix c ! (i - suffix_pos k c) else name ! i)"
proof -
  have "suffix_pos k c + length (suffix c) \<le> 8" by (auto simp: suffix_pos_def length_suffix)
  then show ?thesis using assms by (auto simp: with_suffix_def nth_append min_def)
qed

lemma with_suffix_other:
  assumes "length name = 8" "0 < k" "\<And>i. k \<le> i \<Longrightarrow> i < 8 \<Longrightarrow> name ! i = 0x20"
    "0 < c1" "c1 < c2" "with_suffix name k c1 = with_suffix name k c2"
  shows "length (suffix c1) = length (suffix c2)"
proof (rule ccontr)
  assume ne: "length (suffix c1) \<noteq> length (suffix c2)"
  have nth: "with_suffix name k c1 ! i = with_suffix name k c2 ! i" for i using assms(6) by simp
  note at = with_suffix_nth [OF assms(1)]
  have tilde: "with_suffix name k c1 ! suffix_pos k c1 = 0x7E" if "c1 < 100"
    using that at [of "suffix_pos k c1" k c1] by (auto simp: suffix_pos_def suffix_def length_suffix)
  consider "c1 < 10" "10 \<le> c2" "c2 < 100" "k \<le> 5" | "c1 < 10" "10 \<le> c2" "c2 < 100" "6 \<le> k" | "c1 < 100" "100 \<le> c2"
    using ne assms(5) by (fastforce simp: length_suffix split: if_splits)
  then show False
  proof cases
    case 1
    have p: "suffix_pos k c1 = k" "suffix_pos k c2 = k" "length (suffix c1) = 2" "length (suffix c2) = 3"
      using 1 by (simp_all add: suffix_pos_def length_suffix)
    have "with_suffix name k c1 ! (k + 2) = 0x20" using at [of "k + 2" k c1] assms(3) [of "k + 2"] 1 p by simp
    moreover have "with_suffix name k c2 ! (k + 2) = word_of_int (c2 mod 10 + 48)"
      using at [of "k + 2" k c2] 1 p by (simp add: suffix_def)
    ultimately show False using nth [of "k + 2"] digit_other [of "c2 mod 10"] by simp
  next
    case 2
    have p: "suffix_pos k c1 = 6" "suffix_pos k c2 = 5" "length (suffix c2) = 3" using 2 by (simp_all add: suffix_pos_def length_suffix)
    have "with_suffix name k c2 ! 6 = word_of_int (c2 div 10 + 48)" using at [of 6 k c2] 2 p by (simp add: suffix_def)
    moreover have "0 \<le> c2 div 10" "c2 div 10 < 10" using 2 by simp_all
    moreover have "with_suffix name k c1 ! 6 = 0x7E" using tilde 2 p by simp
    ultimately show False using nth [of 6] digit_other [of "c2 div 10"] by metis
  next
    case 3
    let ?i = "suffix_pos k c1"
    have p: "suffix_pos k c2 \<le> ?i" "?i < suffix_pos k c2 + 5" "length (suffix c2) = 5" "?i < 8"
      using 3 by (auto simp: suffix_pos_def length_suffix)
    have "with_suffix name k c2 ! ?i = suffix c2 ! (?i - suffix_pos k c2)" using at [OF p(4), of k c2] p by simp
    moreover have "suffix c2 ! j \<noteq> 0x7E" if "j < 5" for j
      using that 3 hex_other by (auto simp: suffix_def Let_def less_Suc_eq eval_nat_numeral)
    ultimately show False using tilde 3 nth [of ?i] p by auto
  qed
qed

text \<open>
  Names that clash are told apart: two different clash numbers give two different short names of the
  same long name.
\<close>

lemma GetShortFilename_distinct:
  assumes "GetShortFilename lfn c1 = (None, s1)" "GetShortFilename lfn c2 = (None, s2)" "0 < c1" "0 < c2" "c1 \<noteq> c2"
  shows "s1 \<noteq> s2"
proof
  assume eq: "s1 = s2"
  obtain name k where m: "GetShortFileMainName lfn (GetShortFileExtensionStart lfn) = (name, k)"
    by (cases "GetShortFileMainName lfn (GetShortFileExtensionStart lfn)")
  note M = main_name [OF m]
  define ext where "ext = GetShortFileExtension (drop (GetShortFileExtensionStart lfn) lfn)"
  have k: "k \<noteq> 0"
  proof
    assume "k = 0"
    then have "fst (GetShortFilename lfn c1) = Some EINVAL" using m by (simp add: GetShortFilename_def)
    then show False using assms(1) by simp
  qed
  have s: "s1 = with_suffix name k c1 @ ext" "s2 = with_suffix name k c2 @ ext"
    and ok: "100 \<le> c1 \<longrightarrow> drop_bit 20 (c1 - 100) = 0" "100 \<le> c2 \<longrightarrow> drop_bit 20 (c2 - 100) = 0"
    using GetShortFilename_shape [OF m k assms(3)] GetShortFilename_shape [OF m k assms(4)] assms(1,2)
    by (auto simp: with_suffix_def ext_def split: if_splits)
  have w: "with_suffix name k c1 = with_suffix name k c2" using eq s by simp
  have l: "length (suffix c1) = length (suffix c2)"
    using with_suffix_other [OF M(1) _ M(5), where ?c1.0 = c1 and ?c2.0 = c2]
      with_suffix_other [OF M(1) _ M(5), where ?c1.0 = c2 and ?c2.0 = c1] w k assms(3-5)
    by (cases "c1 < c2") auto
  then have p: "suffix_pos k c1 = suffix_pos k c2" by (auto simp: length_suffix suffix_pos_def split: if_splits)
  have "suffix c1 = suffix c2" using w l p by (auto simp: with_suffix_def)
  then show False using suffix_inj [OF _ assms(3,4) ok] assms(5) by blast
qed

lemma GetShortFilename_distinct_witness:
  "snd (GetShortFilename [97, 98] 9) \<noteq> snd (GetShortFilename [97, 98] 10)"
proof -
  have "GetShortFilename [97, 98] 9 = (None, snd (GetShortFilename [97, 98] 9))"
    "GetShortFilename [97, 98] 10 = (None, snd (GetShortFilename [97, 98] 10))" by code_simp+
  from GetShortFilename_distinct [OF this] show ?thesis by simp
qed

end
