(* ===== verification/Timeconv.thy ===== *)
theory Timeconv
  imports Bytes
begin

text \<open>
  Conversion between dates and time values (\<open>kernel/core/timeconv.c\<close>). A time value is the number of
  microseconds since 1601, 64 bits wide. Every \<open>int\<close> of the code stays far within its range, except
  \<open>microsec\<close>, which is converted to 64 bits when it is added. The number of days is unsigned and 32 bits wide.
\<close>

section \<open>Definitions\<close>

record ostime =
  sec :: u8
  tmin :: u8
  hour :: u8
  day :: u8
  month :: u8
  year :: int
  microsec :: int

abbreviation SECS_PER_DAY :: u32 where
  "SECS_PER_DAY \<equiv> 86400"

definition cumulative_days_in_months :: "int list" where
  "cumulative_days_in_months =
     [0, 31, 31 + 28, 31 + 28 + 31, 31 + 28 + 31 + 30, 31 + 28 + 31 + 30 + 31,
      31 + 28 + 31 + 30 + 31 + 30, 31 + 28 + 31 + 30 + 31 + 30 + 31,
      31 + 28 + 31 + 30 + 31 + 30 + 31 + 31, 31 + 28 + 31 + 30 + 31 + 30 + 31 + 31 + 30,
      31 + 28 + 31 + 30 + 31 + 30 + 31 + 31 + 30 + 31,
      31 + 28 + 31 + 30 + 31 + 30 + 31 + 31 + 30 + 31 + 30,
      31 + 28 + 31 + 30 + 31 + 30 + 31 + 31 + 30 + 31 + 30 + 31]"

definition IsLeapYear :: "int \<Rightarrow> bool" where
  "IsLeapYear y \<longleftrightarrow> y mod 4 = 0 \<and> (y mod 100 \<noteq> 0 \<or> y mod 400 = 0)"

function leap_loop :: "int \<Rightarrow> int \<Rightarrow> int \<Rightarrow> int" where
  "leap_loop y i leaps =
     (if i < y then leap_loop y (i + 4) (if IsLeapYear i then leaps + 1 else leaps) else leaps)"
  by pat_completeness auto
termination
  by (relation "measure (\<lambda>(y, i, _). nat (y - i))") auto

declare leap_loop.simps [simp del]

definition GetFullLeapYearsSince1601 :: "int \<Rightarrow> int" where
  "GetFullLeapYearsSince1601 y = leap_loop y 1604 0"

text \<open>The sums in seconds are computed in 64 bits, each term is an \<open>int\<close> first.\<close>

definition TimeStructToValue :: "ostime \<Rightarrow> u64" where
  "TimeStructToValue t =
     (if year t < 1601 \<or> 2400 < year t then 0
      else if month t < 1 \<or> 12 < month t then 0
      else if day t < 1 \<or> 31 < day t then 0
      else
        (let total_secs = ucast (sec t) + word_of_int (uint (tmin t) * 60) + word_of_int (uint (hour t) * 3600) :: u64;
             days = word_of_int (uint (day t) - 1) + word_of_int (cumulative_days_in_months ! unat (month t - 1)) :: u64;
             days = (if IsLeapYear (year t) \<and> 3 \<le> month t then days + 1 else days);
             days = days + word_of_int (365 * (year t - 1601)) + word_of_int (GetFullLeapYearsSince1601 (year t));
             total_secs = total_secs + days * ucast SECS_PER_DAY
         in total_secs * 1000000 + word_of_int (microsec t)))"

text \<open>The loop over the months: \<open>i\<close> and the month it has reached; it leaves with the rest of the days.\<close>

fun month_loop :: "nat list \<Rightarrow> bool \<Rightarrow> u8 \<Rightarrow> u32 \<Rightarrow> u8 \<times> u32" where
  "month_loop [] leap m days_left = (m, days_left)"
| "month_loop (i # is) leap m days_left =
     (if cumulative_days_in_months ! i + of_bool (2 \<le> i \<and> leap) \<le> sint days_left
      then month_loop is leap (m + 1) days_left
      else (m, days_left - word_of_int (cumulative_days_in_months ! (i - 1) + of_bool (2 \<le> i - 1 \<and> leap))))"

text \<open>The outer loop: year, month and the days left; \<open>m\<close> is the month before the first round.\<close>

function year_loop :: "int \<Rightarrow> u8 \<Rightarrow> u32 \<Rightarrow> int \<times> u8 \<times> u32" where
  "year_loop y m days_left =
     (if 2400 < y then (y, m, days_left)
      else
        (case month_loop [1, 2, 3, 4, 5, 6, 7, 8, 9, 10, 11, 12] (IsLeapYear y) 1 days_left of
           (m, days_left) \<Rightarrow>
             (if m = 13 then year_loop (y + 1) m (days_left - (if IsLeapYear y then 366 else 365))
              else (y, m, days_left))))"
  by pat_completeness auto
termination
  by (relation "measure (\<lambda>(y, _, _). nat (2401 - y))") auto

declare year_loop.simps [simp del]

text \<open>The factor is a product of two 32-bit numbers.\<close>

definition TimeValueToStruct :: "u64 \<Rightarrow> ostime" where
  "TimeValueToStruct t =
     (let days_left = ucast (drop_bit 12 t div 21093750) :: u32;
          microsec_in_day = t - ucast (days_left * (1000000 * SECS_PER_DAY));
          sec_in_day = ucast (microsec_in_day div 1000000) :: u32
      in case year_loop 1601 0 days_left of
           (y, m, days_left) \<Rightarrow>
             \<lparr>sec = ucast (sec_in_day mod 60), tmin = ucast (sec_in_day div 60 mod 60),
              hour = ucast (sec_in_day div 3600 mod 24), day = ucast (days_left + 1), month = m,
              year = y, microsec = uint (microsec_in_day mod 1000000)\<rparr>)"

text \<open>The number of days is narrowed to an \<open>int\<close>; the remainder has the sign of the dividend.\<close>

definition GetWeekday :: "u64 \<Rightarrow> int" where
  "GetWeekday t =
     (let days_since_1601 = sint (ucast (t div 1000000 div ucast SECS_PER_DAY) :: u32);
          n = 1 + days_since_1601
      in (if 0 \<le> n then n mod 7 else - ((- n) mod 7)) + 1)"

definition SECS_BETWEEN_1970_AND_1601 :: u64 where
  "SECS_BETWEEN_1970_AND_1601 = 11644473600"

definition TimeValueToUnixTime :: "u64 \<Rightarrow> u64" where
  "TimeValueToUnixTime t = t div 1000000 - SECS_BETWEEN_1970_AND_1601"

definition UnixTimeToTimeValue :: "u64 \<Rightarrow> u64" where
  "UnixTimeToTimeValue t = (t + SECS_BETWEEN_1970_AND_1601) * 1000000"

section \<open>The calendar\<close>

text \<open>The number of days before a year, before a month, and in a month.\<close>

definition days_before_year :: "int \<Rightarrow> int" where
  "days_before_year y = 365 * (y - 1601) + GetFullLeapYearsSince1601 y"

definition days_before_month :: "int \<Rightarrow> nat \<Rightarrow> int" where
  "days_before_month y m = cumulative_days_in_months ! (m - 1) + of_bool (3 \<le> m \<and> IsLeapYear y)"

lemma leap_year_mod_4: "IsLeapYear y \<Longrightarrow> y mod 4 = 0"
  by (simp add: IsLeapYear_def)

lemma leap_loop_Suc:
  assumes "i mod 4 = 0"
  shows "leap_loop (y + 1) i n = leap_loop y i n + of_bool (i \<le> y \<and> IsLeapYear y)"
  using assms
proof (induction y i n rule: leap_loop.induct)
  case (1 y i n)
  show ?case
  proof (cases "i < y")
    case True
    have "i + 4 \<le> y" if "y mod 4 = 0" using True 1(2) that by presburger
    then have "IsLeapYear y \<Longrightarrow> i + 4 \<le> y" by (simp add: leap_year_mod_4)
    moreover have "(i + 4) mod 4 = 0" using 1(2) by presburger
    ultimately have "leap_loop (y + 1) (i + 4) (if IsLeapYear i then n + 1 else n) =
        leap_loop y (i + 4) (if IsLeapYear i then n + 1 else n) + of_bool (i \<le> y \<and> IsLeapYear y)"
      unfolding 1(1) [OF True \<open>(i + 4) mod 4 = 0\<close>] using True by auto
    moreover have "leap_loop z i n = leap_loop z (i + 4) (if IsLeapYear i then n + 1 else n)" if "i < z" for z
      using that by (subst leap_loop.simps) simp
    ultimately show ?thesis using True by simp
  next
    case False
    then show ?thesis
      by (cases "i = y")
        (simp_all add: leap_loop.simps [of "y + 1" i] leap_loop.simps [of "y + 1" y] leap_loop.simps [of y i]
          leap_loop.simps [of y y] leap_loop.simps [of "y + 1" "y + 4"])
  qed
qed

lemma days_before_year_Suc:
  assumes "1601 \<le> y"
  shows "days_before_year (y + 1) = days_before_year y + 365 + of_bool (IsLeapYear y)"
proof -
  have "1604 \<le> y" if "y mod 4 = 0" using assms that by presburger
  then have "IsLeapYear y \<Longrightarrow> 1604 \<le> y" by (simp add: leap_year_mod_4)
  then show ?thesis
    by (auto simp: days_before_year_def GetFullLeapYearsSince1601_def leap_loop_Suc)
qed

lemma days_before_year_1601: "days_before_year 1601 = 0"
  by (simp add: days_before_year_def GetFullLeapYearsSince1601_def leap_loop.simps [of 1601])


text \<open>A date that exists, with a time of day.\<close>

definition days_in_month :: "int \<Rightarrow> nat \<Rightarrow> int" where
  "days_in_month y m = days_before_month y (m + 1) - days_before_month y m"

definition valid_date :: "ostime \<Rightarrow> bool" where
  "valid_date t \<longleftrightarrow> 1601 \<le> year t \<and> year t \<le> 2400 \<and> 1 \<le> month t \<and> month t \<le> 12 \<and> 1 \<le> day t \<and>
     uint (day t) \<le> days_in_month (year t) (unat (month t)) \<and>
     hour t < 24 \<and> tmin t < 60 \<and> sec t < 60 \<and> 0 \<le> microsec t \<and> microsec t < 1000000"

definition day_number :: "ostime \<Rightarrow> int" where
  "day_number t = days_before_year (year t) + days_before_month (year t) (unat (month t)) + uint (day t) - 1"

definition microseconds :: "ostime \<Rightarrow> int" where
  "microseconds t = ((uint (hour t) * 60 + uint (tmin t)) * 60 + uint (sec t)) * 1000000 + microsec t"

lemma month_values: "1 \<le> m \<Longrightarrow> m \<le> 12 \<Longrightarrow> P 1 \<and> P 2 \<and> P 3 \<and> P 4 \<and> P 5 \<and> P 6 \<and> P 7 \<and> P 8 \<and> P 9 \<and> P 10 \<and> P 11 \<and> P 12 \<Longrightarrow> P m"
  for m :: nat
proof -
  assume m: "1 \<le> m" "m \<le> 12" and P: "P 1 \<and> P 2 \<and> P 3 \<and> P 4 \<and> P 5 \<and> P 6 \<and> P 7 \<and> P 8 \<and> P 9 \<and> P 10 \<and> P 11 \<and> P 12"
  from m have "m = 1 \<or> m = 2 \<or> m = 3 \<or> m = 4 \<or> m = 5 \<or> m = 6 \<or> m = 7 \<or> m = 8 \<or> m = 9 \<or> m = 10 \<or> m = 11 \<or> m = 12"
    by presburger
  then show "P m" using P by metis
qed

lemmas month_simps = days_in_month_def days_before_month_def cumulative_days_in_months_def nth_Cons'

lemma sint_days: "\<lbrakk>0 \<le> n; n < 2 ^ 31\<rbrakk> \<Longrightarrow> sint (word_of_int n :: u32) = n"
  by (simp add: sint_sbintrunc' signed_take_bit_int_eq_self)

lemma month_loop_step:
  assumes "0 \<le> n" "n < 2 ^ 31"
  shows "month_loop (i # is) leap m (word_of_int n) =
    (if cumulative_days_in_months ! i + of_bool (2 \<le> i \<and> leap) \<le> n then month_loop is leap (m + 1) (word_of_int n)
     else (m, word_of_int (n - (cumulative_days_in_months ! (i - 1) + of_bool (2 \<le> i - 1 \<and> leap)))))"
  using assms by (simp add: sint_days)

declare month_loop.simps(2) [simp del]

lemma month_loop_finds:
  assumes "1 \<le> m" "m \<le> 12" "1 \<le> d" "d \<le> days_in_month y m"
  shows "month_loop [1, 2, 3, 4, 5, 6, 7, 8, 9, 10, 11, 12] (IsLeapYear y) 1 (word_of_int (days_before_month y m + d - 1)) =
    (of_nat m, word_of_int (d - 1))"
proof -
  have "\<forall>d. 1 \<le> d \<longrightarrow> d \<le> days_in_month y m \<longrightarrow>
    month_loop [1, 2, 3, 4, 5, 6, 7, 8, 9, 10, 11, 12] (IsLeapYear y) 1 (word_of_int (days_before_month y m + d - 1)) =
      (of_nat m, word_of_int (d - 1))"
    by (rule month_values [OF assms(1,2)], cases "IsLeapYear y")
      (simp_all add: month_simps month_loop_step del: of_int_add of_int_diff)
  then show ?thesis using assms by blast
qed

lemma month_loop_passes:
  assumes "365 + of_bool (IsLeapYear y) \<le> n" "n < 2 ^ 31"
  shows "month_loop [1, 2, 3, 4, 5, 6, 7, 8, 9, 10, 11, 12] (IsLeapYear y) 1 (word_of_int n) = (13, word_of_int n)"
  using assms by (cases "IsLeapYear y") (simp_all add: month_simps month_loop_step)

lemma month_not_13: "m \<le> 12 \<Longrightarrow> (of_nat m :: u8) \<noteq> 13"
proof
  assume "m \<le> 12" "(of_nat m :: u8) = 13"
  then have "unat (of_nat m :: u8) = 13" by simp
  then show False using \<open>m \<le> 12\<close> by (simp add: unat_of_nat)
qed

lemma month_bounds:
  assumes "1 \<le> m" "m \<le> 12" "1 \<le> d" "d \<le> days_in_month y m"
  shows "0 \<le> days_before_month y m \<and> days_before_month y m + d \<le> 366"
proof -
  have "\<forall>d. 1 \<le> d \<longrightarrow> d \<le> days_in_month y m \<longrightarrow> 0 \<le> days_before_month y m \<and> days_before_month y m + d \<le> 366"
    by (rule month_values [OF assms(1,2)], cases "IsLeapYear y") (simp_all add: month_simps)
  then show ?thesis using assms by blast
qed

lemma days_before_year_diff:
  assumes "1601 \<le> y" "y \<le> z"
  shows "365 * (z - y) \<le> days_before_year z - days_before_year y \<and> days_before_year z - days_before_year y \<le> 366 * (z - y)"
  using assms(2)
proof (induction z rule: int_ge_induct)
  case (step z)
  then show ?case using days_before_year_Suc [of z] assms(1) by (cases "IsLeapYear z") auto
qed simp

lemma year_loop_finds:
  assumes "1601 \<le> y" "y \<le> z" "z \<le> 2400" "1 \<le> m" "m \<le> 12" "1 \<le> d" "d \<le> days_in_month z m"
  shows "year_loop y k (word_of_int (days_before_year z - days_before_year y + days_before_month z m + d - 1)) =
    (z, of_nat m, word_of_int (d - 1))"
  using assms(1,2)
proof (induction "nat (z - y)" arbitrary: y k)
  case 0
  then have "y = z" by simp
  then show ?case using month_loop_finds [OF assms(4-7)] month_not_13 [OF assms(5)] assms(3) by (simp add: year_loop.simps)
next
  case (Suc x)
  let ?n = "days_before_year z - days_before_year y + days_before_month z m + d - 1"
  have y: "1601 \<le> y + 1" "y + 1 \<le> z" "\<not> 2400 < y" using Suc assms(3) by auto
  have m: "0 \<le> days_before_month z m + d - 1" "days_before_month z m + d \<le> 366"
    using month_bounds [OF assms(4-7)] assms(6) by auto
  have n: "365 + of_bool (IsLeapYear y) \<le> ?n" "?n < 2 ^ 31"
    using days_before_year_diff [OF y(1,2)] days_before_year_diff [OF Suc(3,4)] days_before_year_Suc [OF Suc(3)] m y assms(3) Suc(3)
    by auto
  have "word_of_int (?n - (365 + of_bool (IsLeapYear y))) =
      (word_of_int (days_before_year z - days_before_year (y + 1) + days_before_month z m + d - 1) :: u32)"
    using days_before_year_Suc [OF Suc(3)] by simp
  then have "word_of_int ?n - (if IsLeapYear y then 366 else 365) =
      (word_of_int (days_before_year z - days_before_year (y + 1) + days_before_month z m + d - 1) :: u32)"
    unfolding of_int_diff [of ?n] by (cases "IsLeapYear y") simp_all
  then show ?case
    using Suc(1) [OF _ y(1,2), of 13] Suc(2) y(3) month_loop_passes [OF n]
    by (subst year_loop.simps) (simp only: prod.case if_True if_False simp_thms)
qed

lemma valid_dateD:
  assumes "valid_date t"
  shows "1601 \<le> year t" "year t \<le> 2400" "1 \<le> unat (month t)" "unat (month t) \<le> 12" "1 \<le> uint (day t)"
    "uint (day t) \<le> days_in_month (year t) (unat (month t))" "uint (day t) \<le> 31"
    "0 \<le> microseconds t" "microseconds t < 86400000000" "1 \<le> month t" "month t \<le> 12" "1 \<le> day t" "day t \<le> 31"
proof -
  show *: "1601 \<le> year t" "year t \<le> 2400" "1 \<le> unat (month t)" "unat (month t) \<le> 12" "1 \<le> uint (day t)"
    "uint (day t) \<le> days_in_month (year t) (unat (month t))" "1 \<le> month t" "month t \<le> 12" "1 \<le> day t"
    using assms by (simp_all add: valid_date_def word_le_nat_alt) (metis uint_nat int_one_le_iff_zero_less of_nat_0_less_iff Suc_le_lessD)
  have "days_in_month (year t) (unat (month t)) \<le> 31"
    by (rule month_values [OF *(3,4)], cases "IsLeapYear (year t)") (simp_all add: month_simps)
  then show "uint (day t) \<le> 31" using *(6) by simp
  then show "day t \<le> 31" by (simp add: word_le_def)
  have "uint (hour t) \<le> 23" "uint (tmin t) \<le> 59" "uint (sec t) \<le> 59"
    using assms by (auto simp: valid_date_def word_less_def)
  then show "0 \<le> microseconds t" "microseconds t < 86400000000"
    using assms unsigned_greater_eq [of "hour t"] unsigned_greater_eq [of "tmin t"] unsigned_greater_eq [of "sec t"]
    by (auto simp: microseconds_def valid_date_def)
qed

lemma day_number_bounds:
  assumes "valid_date t"
  shows "0 \<le> day_number t \<and> day_number t < 293200"
  using month_bounds [OF valid_dateD(3-6) [OF assms]] days_before_year_diff [of 1601 "year t"] valid_dateD(1,2,5) [OF assms]
  by (auto simp: day_number_def days_before_year_1601)

lemma TimeStructToValue_value:
  assumes "valid_date t"
  shows "uint (TimeStructToValue t) = day_number t * 86400000000 + microseconds t"
proof -
  note v = valid_dateD [OF assms]
  have m: "unat (month t - 1) = unat (month t) - 1" using v(10) by (simp add: unat_sub word_le_nat_alt)
  have d: "word_of_int (uint (day t) - 1) + word_of_int (cumulative_days_in_months ! unat (month t - 1)) +
      (if IsLeapYear (year t) \<and> 3 \<le> month t then 1 else 0) + word_of_int (365 * (year t - 1601)) +
      word_of_int (GetFullLeapYearsSince1601 (year t)) = (word_of_int (day_number t) :: u64)"
    by (auto simp: day_number_def days_before_year_def days_before_month_def m word_le_nat_alt)
  have "TimeStructToValue t = word_of_int (day_number t * 86400000000 + microseconds t)"
  proof -
    have "TimeStructToValue t = ((ucast (sec t) + word_of_int (uint (tmin t) * 60) + word_of_int (uint (hour t) * 3600)) +
        word_of_int (day_number t) * 86400) * 1000000 + word_of_int (microsec t)"
      using v(1,2,10-13) unfolding TimeStructToValue_def d [symmetric]
      by (auto simp: Let_def not_less)
    also have "\<dots> = word_of_int (day_number t * 86400000000 + microseconds t)"
      by (simp add: microseconds_def algebra_simps)
    finally show ?thesis .
  qed
  moreover have "0 \<le> day_number t * 86400000000 + microseconds t" "day_number t * 86400000000 + microseconds t < 2 ^ 64"
    using day_number_bounds [OF assms] v(8,9) by auto
  moreover have "uint (word_of_int x :: u64) = x" if "0 \<le> x" "x < 2 ^ 64" for x
    using that by (simp add: uint_word_of_int_eq take_bit_int_eq_self)
  ultimately show ?thesis by metis
qed

text \<open>
  C40. Dates survive: the time value of a date that exists, taken back to a date, has the same year, month
  and day. (The time of day does not survive, see below.)
\<close>

theorem date_roundtrip:
  assumes "valid_date t"
  shows "year (TimeValueToStruct (TimeStructToValue t)) = year t \<and>
    month (TimeValueToStruct (TimeStructToValue t)) = month t \<and>
    day (TimeValueToStruct (TimeStructToValue t)) = day t"
proof -
  note v = valid_dateD [OF assms]
  have "uint (drop_bit 12 (TimeStructToValue t) div 21093750) = day_number t"
    using v(8,9) by (simp add: uint_div unsigned_drop_bit_eq drop_bit_eq_div
        TimeStructToValue_value [OF assms] zdiv_zmult2_eq [symmetric])
  then have d: "(ucast (drop_bit 12 (TimeStructToValue t) div 21093750) :: u32) = word_of_int (day_number t)"
    by (metis ucast_eq)
  have "year_loop 1601 0 (word_of_int (day_number t)) = (year t, month t, word_of_int (uint (day t) - 1))"
    using year_loop_finds [OF _ _ v(2-6), of 1601 0] v(1) by (simp add: day_number_def days_before_year_1601)
  moreover have "ucast (word_of_int (uint (day t) - 1) + 1 :: u32) = day t"
    by (rule bit_word_eqI) (simp add: bit_simps)
  ultimately show ?thesis unfolding TimeValueToStruct_def d by (simp add: Let_def)
qed

definition leap_day :: ostime where
  "leap_day = \<lparr>sec = 59, tmin = 30, hour = 23, day = 29, month = 2, year = 2000, microsec = 5\<rparr>"

theorem date_roundtrip_witness:
  "year (TimeValueToStruct (TimeStructToValue leap_day)) = 2000 \<and>
   month (TimeValueToStruct (TimeStructToValue leap_day)) = 2 \<and> day (TimeValueToStruct (TimeStructToValue leap_day)) = 29"
  using date_roundtrip [of leap_day]
  by (simp add: leap_day_def valid_date_def month_simps IsLeapYear_def)

text \<open>
  The number of microseconds of the whole days is computed as a product of 32-bit numbers: the second day begins
  at 23:51:39.
\<close>

lemma time_of_day_wrong:
  "TimeValueToStruct 86400000000 =
    \<lparr>sec = 39, tmin = 51, hour = 23, day = 2, month = 1, year = 1601, microsec = 345920\<rparr>"
  by (simp add: TimeValueToStruct_def Let_def year_loop.simps month_loop.simps(2) cumulative_days_in_months_def IsLeapYear_def)

text \<open>The first of January 1601 was a Monday, and the days of the week follow each other.\<close>

lemma GetWeekday_spec:
  assumes "valid_date t"
  shows "GetWeekday (TimeStructToValue t) = (1 + day_number t) mod 7 + 1"
proof -
  have "uint (TimeStructToValue t div 1000000 div 86400) = day_number t"
    using valid_dateD(8,9) [OF assms] by (simp add: uint_div TimeStructToValue_value [OF assms] zdiv_zmult2_eq [symmetric])
  then have "(ucast (TimeStructToValue t div 1000000 div 86400) :: u32) = word_of_int (day_number t)"
    by (metis ucast_eq)
  then show ?thesis using day_number_bounds [OF assms] by (simp add: GetWeekday_def Let_def sint_days)
qed

text \<open>Unix times survive unless they are so large that their time value does not fit.\<close>

lemma unix_time_roundtrip:
  assumes "unat t + 11644473600 < 18446744073709"
  shows "TimeValueToUnixTime (UnixTimeToTimeValue t) = t"
proof -
  have s: "unat (t + 11644473600) = unat t + 11644473600" using assms by (simp add: unat_word_ariths)
  have "unat ((t + 11644473600) * 1000000) = (unat t + 11644473600) * 1000000"
    using assms unfolding unat_word_ariths(2) s by simp
  then have "unat ((t + 11644473600) * 1000000 div 1000000) = unat (t + 11644473600)"
    by (simp add: unat_div_distrib s del: distrib_right_numeral)
  then have "(t + 11644473600) * 1000000 div 1000000 = t + 11644473600" by (simp only: word_unat_eq_iff)
  then show ?thesis
    unfolding TimeValueToUnixTime_def UnixTimeToTimeValue_def SECS_BETWEEN_1970_AND_1601_def by simp
qed

end
