(* ===== verification/RegionData.thy ===== *)
theory RegionData
  imports Bytes
begin

unbundle bit_operations_syntax

text \<open>
  Regions and how they are built (\<^verbatim>\<open>kernel/CLIPDRAW/region.c\<close>, \<^verbatim>\<open>region_internal.h\<close>). A region is a set of
  points, encoded band by band: a band is a range of lines that have the same spans. Coordinates are
  \<open>int16_t\<close>, here words of 16 bits that are read as signed. \<open>band_data\<close> is what has been written of the
  array behind the header, so \<open>current_ptr\<close> is its length; writing past the memory allocated gives \<open>None\<close>.
  Whether the heap has memory is an argument of each operation that allocates.
\<close>

section \<open>State\<close>

type_synonym spans = "(u16 \<times> u16) list"

record region_data =
  num_bands :: u16
  trans_x :: u16
  trans_y :: u16
  band_data :: "u8 list"

record region =
  rdata :: "region_data option"
  used_length :: u32
  allocated_length :: u32

record region_build_context =
  current_points :: "spans option"
  current_height :: nat
  prev_spans :: nat
  prev_x :: spans
  prev_y1 :: u16
  prev_small_output :: "u8 list"
  count0x7F :: nat

abbreviation HEADER :: nat where
  "HEADER \<equiv> 6"

section \<open>Memory\<close>

text \<open>The new size; it grows by a factor of two, then by one half and one third in turn.\<close>

partial_function (option) grow_alloc :: "u32 \<Rightarrow> u32 \<Rightarrow> u32 option" where
  "grow_alloc new_used new_alloc =
     (if new_alloc \<le> new_used then
        (let power2 = (new_alloc AND push_bit 1 new_alloc = 0)
         in grow_alloc new_used
              (if new_alloc < 512 then new_alloc * 2
               else if power2 then new_alloc + drop_bit 1 new_alloc
               else new_alloc div 3 * 4))
      else Some new_alloc)"

definition ExpandToFit :: "region \<Rightarrow> nat \<Rightarrow> bool \<Rightarrow> (errno option \<times> region) option" where
  "ExpandToFit rgn extra_bytes mem_left =
     (let new_used = used_length rgn + of_nat extra_bytes
      in case grow_alloc new_used (allocated_length rgn) of
           None \<Rightarrow> None
         | Some new_alloc \<Rightarrow>
             (if new_alloc \<noteq> allocated_length rgn \<and> \<not> mem_left then Some (Some ENOMEM, rgn)
              else Some (None, rgn\<lparr>allocated_length := new_alloc, used_length := new_used\<rparr>)))"

text \<open>Storing bytes behind those already there, and over the last one.\<close>

definition emit :: "u8 list \<Rightarrow> region \<Rightarrow> region option" where
  "emit bs rgn =
     (case rdata rgn of
        None \<Rightarrow> None
      | Some d \<Rightarrow>
          (if HEADER + length (band_data d) + length bs \<le> unat (allocated_length rgn)
           then Some (rgn\<lparr>rdata := Some (d\<lparr>band_data := band_data d @ bs\<rparr>)\<rparr>) else None))"

definition overwrite_last :: "u8 \<Rightarrow> region \<Rightarrow> region option" where
  "overwrite_last b rgn =
     (case rdata rgn of
        None \<Rightarrow> None
      | Some d \<Rightarrow>
          (if band_data d = [] then None
           else Some (rgn\<lparr>rdata := Some (d\<lparr>band_data := butlast (band_data d) @ [b]\<rparr>)\<rparr>)))"

section \<open>Bad and empty regions\<close>

definition CdBadRegion :: region where
  "CdBadRegion = \<lparr>rdata = None, used_length = - 1, allocated_length = - 1\<rparr>"

definition CdIsRegionBad :: "region \<Rightarrow> bool" where
  "CdIsRegionBad rgn \<longleftrightarrow> rdata rgn = None \<and> allocated_length rgn = - 1 \<and> used_length rgn = - 1"

definition CdIsRegionEmpty :: "region \<Rightarrow> bool" where
  "CdIsRegionEmpty rgn \<longleftrightarrow> (case rdata rgn of None \<Rightarrow> True | Some d \<Rightarrow> num_bands d = 0)"

definition CdEmptyRegion :: region where
  "CdEmptyRegion = \<lparr>rdata = None, used_length = 0, allocated_length = 0\<rparr>"

section \<open>The builder\<close>

definition BuildNewRegion :: "u16 \<Rightarrow> region_build_context \<Rightarrow> bool \<Rightarrow> errno option \<times> region \<times> region_build_context" where
  "BuildNewRegion y0 ctxt mem_left =
     (if mem_left then
        (None, \<lparr>rdata = Some \<lparr>num_bands = 0, trans_x = 0, trans_y = 0, band_data = []\<rparr>,
           used_length = of_nat HEADER, allocated_length = 32\<rparr>, ctxt\<lparr>prev_y1 := y0, current_points := None\<rparr>)
      else (Some ENOMEM, \<lparr>rdata = None, used_length = 0, allocated_length = 0\<rparr>,
        ctxt\<lparr>prev_y1 := y0, current_points := None\<rparr>))"

definition AbortNewRegion :: "region \<Rightarrow> region_build_context \<Rightarrow> region \<times> region_build_context" where
  "AbortNewRegion rgn ctxt =
     (\<lparr>rdata = None, used_length = 0, allocated_length = 0\<rparr>, ctxt\<lparr>current_points := None\<rparr>)"

text \<open>Small mode: each end of each span moves by \<open>-8\<close> to \<open>7\<close>, and both moves share a byte.\<close>

definition small_diff :: "u16 \<Rightarrow> u16 \<Rightarrow> bool" where
  "small_diff new old \<longleftrightarrow> \<not> (sint (new - old) < - 8 \<or> sint (new - old) > 7)"

definition small_spans :: "spans \<Rightarrow> spans \<Rightarrow> bool" where
  "small_spans new old \<longleftrightarrow> list_all2 (\<lambda>(n0, n1) (o0, o1). small_diff n0 o0 \<and> small_diff n1 o1) new (take (length new) old)"

definition adj_byte :: "u16 \<times> u16 \<Rightarrow> u16 \<times> u16 \<Rightarrow> u8" where
  "adj_byte new old =
     (let start_part = ucast (fst new - fst old + 8) :: u8; end_part = ucast (snd new - snd old + 8) :: u8
      in push_bit 4 end_part OR start_part)"

definition small_ctrl :: "spans \<Rightarrow> nat \<Rightarrow> u8" where
  "small_ctrl cur height = of_nat (length cur) OR push_bit 4 (of_nat (height - 1))"

definition small_possible :: "region_data \<Rightarrow> region_build_context \<Rightarrow> spans \<Rightarrow> bool" where
  "small_possible d ctxt cur \<longleftrightarrow> length cur = prev_spans ctxt \<and> length cur \<noteq> 0 \<and> current_height ctxt \<le> 8 \<and>
     length cur \<le> 15 \<and> num_bands d \<noteq> 0 \<and> small_spans cur (prev_x ctxt) \<and>
     small_ctrl cur (current_height ctxt) \<noteq> 0x7F \<and> small_ctrl cur (current_height ctxt) \<noteq> 0x7E"

text \<open>
  A band that repeats the last small one is \<open>0x7F\<close>; two and more of these in a row are \<open>0x7E\<close> and how many
  there are, less two.
\<close>

definition encode_small :: "region \<Rightarrow> region_build_context \<Rightarrow> spans \<Rightarrow> bool \<Rightarrow>
    (errno option \<times> region \<times> region_build_context) option" where
  "encode_small rgn ctxt cur mem_left =
     (let small_output = small_ctrl cur (current_height ctxt) # map2 adj_byte cur (prev_x ctxt)
      in if small_output = prev_small_output ctxt then
           (if count0x7F ctxt = 0 then
              do { (e, rgn) \<leftarrow> ExpandToFit rgn 1 mem_left;
                   if e \<noteq> None then Some (e, rgn, ctxt)
                   else do { rgn \<leftarrow> emit [0x7F] rgn; Some (None, rgn, ctxt\<lparr>count0x7F := 1\<rparr>) } }
            else if count0x7F ctxt = 1 then
              do { (e, rgn) \<leftarrow> ExpandToFit rgn 1 mem_left;
                   if e \<noteq> None then Some (e, rgn, ctxt)
                   else do { rgn \<leftarrow> overwrite_last 0x7E rgn;
                             rgn \<leftarrow> emit [of_nat (2 - 2)] rgn;
                             Some (None, rgn, ctxt\<lparr>count0x7F := 2\<rparr>) } }
            else
              do { let n = count0x7F ctxt + 1;
                   rgn \<leftarrow> overwrite_last (of_nat (n - 2)) rgn;
                   Some (None, rgn, ctxt\<lparr>count0x7F := if n - 2 = 0xFF then 0 else n\<rparr>) })
         else
           do { (e, rgn) \<leftarrow> ExpandToFit rgn (1 + length cur) mem_left;
                if e \<noteq> None then Some (e, rgn, ctxt)
                else do { rgn \<leftarrow> emit small_output rgn;
                          Some (None, rgn, ctxt\<lparr>prev_small_output := small_output, count0x7F := 0\<rparr>) } })"

text \<open>The two bytes of a coordinate, low byte first; its high byte and its low byte.\<close>

definition hi8 :: "u16 \<Rightarrow> u8" where "hi8 w = ucast (drop_bit 8 w)"

definition lo8 :: "u16 \<Rightarrow> u8" where "lo8 w = ucast (w AND 0xFF)"

definition compact_spans :: "spans \<Rightarrow> bool" where
  "compact_spans cur \<longleftrightarrow> list_all (\<lambda>(x0, x1). hi8 x0 = hi8 (fst (hd cur)) \<and> hi8 x1 = hi8 (fst (hd cur))) cur"

definition encode_regular :: "region \<Rightarrow> region_build_context \<Rightarrow> spans \<Rightarrow> bool \<Rightarrow>
    (errno option \<times> region \<times> region_build_context) option" where
  "encode_regular rgn ctxt cur mem_left =
     (let ctxt = ctxt\<lparr>count0x7F := 0\<rparr>; n = length cur
      in if n = 0 then Some (None, rgn, ctxt)
         else case rdata rgn of None \<Rightarrow> None | Some d \<Rightarrow>
           (if n \<le> 0x1F \<and> current_height ctxt = 1 \<and> num_bands d \<noteq> 0 then
              do { let comp = compact_spans cur;
                   (e, rgn) \<leftarrow> ExpandToFit rgn (3 + n * (if comp then 2 else 4) + (if comp then 1 else 0)) mem_left;
                   if e \<noteq> None then Some (e, rgn, ctxt)
                   else do { rgn \<leftarrow> emit [0x80 OR (if comp then 0x20 else 0) OR (of_nat n AND 0x1F)] rgn;
                             rgn \<leftarrow> emit (le16 (prev_y1 ctxt)) rgn;
                             rgn \<leftarrow> emit (if comp then hi8 (fst (hd cur)) # concat (map (\<lambda>(x0, x1). [lo8 x0, lo8 x1]) cur)
                                       else concat (map (\<lambda>(x0, x1). le16 x0 @ le16 x1) cur)) rgn;
                             Some (None, rgn, ctxt) } }
            else
              do { (e, rgn) \<leftarrow> ExpandToFit rgn (6 + n * 4) mem_left;
                   if e \<noteq> None then Some (e, rgn, ctxt)
                   else do { rgn \<leftarrow> emit [0x80 OR 0x40 OR (of_nat n AND 0x3F), of_nat (drop_bit 6 n AND 0xFF)] rgn;
                             rgn \<leftarrow> emit (le16 (prev_y1 ctxt)) rgn;
                             rgn \<leftarrow> emit (le16 (prev_y1 ctxt + of_nat (current_height ctxt))) rgn;
                             rgn \<leftarrow> emit (concat (map (\<lambda>(x0, x1). le16 x0 @ le16 x1) cur)) rgn;
                             Some (None, rgn, ctxt) } }))"

text \<open>After a band, or a gap: only the first 16 spans are kept.\<close>

definition done_encoding :: "region \<Rightarrow> region_build_context \<Rightarrow> spans \<Rightarrow> region \<times> region_build_context" where
  "done_encoding rgn ctxt cur =
     (let (rgn, ctxt) =
        (if cur \<noteq> [] then
           (rgn\<lparr>rdata := map_option (\<lambda>d. d\<lparr>num_bands := num_bands d + 1\<rparr>) (rdata rgn)\<rparr>,
            ctxt\<lparr>prev_x := take 16 cur @ drop (min 16 (length cur)) (prev_x ctxt)\<rparr>)
         else (rgn, ctxt))
      in (rgn, ctxt\<lparr>prev_y1 := prev_y1 ctxt + of_nat (current_height ctxt), prev_spans := length cur,
                current_points := None\<rparr>))"

text \<open>
  The next line; \<open>None\<close> for the spans stands for \<open>-1\<close>, the end. \<open>mem1\<close> and \<open>mem2\<close> say whether there is memory
  for the encoded band and for the copy of the spans.
\<close>

definition AddScanline :: "region \<Rightarrow> region_build_context \<Rightarrow> spans option \<Rightarrow> bool \<Rightarrow> bool \<Rightarrow> bool \<Rightarrow>
    (errno option \<times> region \<times> region_build_context) option" where
  "AddScanline rgn ctxt x_points known_to_be_same_as_prev mem1 mem2 =
     (case current_points ctxt of
        None \<Rightarrow>
          (let rgn = rgn\<lparr>rdata := map_option (\<lambda>d. d\<lparr>band_data := []\<rparr>) (rdata rgn)\<rparr>
           in case x_points of
             None \<Rightarrow> Some (None, rgn, ctxt)
           | Some [] \<Rightarrow> Some (None, rgn, ctxt\<lparr>prev_y1 := prev_y1 ctxt + 1\<rparr>)
           | Some xs \<Rightarrow>
               (if \<not> mem2 then Some (Some ENOMEM, rgn, ctxt)
                else Some (None, rgn, ctxt\<lparr>count0x7F := 0, current_points := Some xs, current_height := 1\<rparr>)))
      | Some cur \<Rightarrow>
          (if (case x_points of None \<Rightarrow> False
               | Some xs \<Rightarrow> length cur = length xs \<and> (cur = [] \<or> known_to_be_same_as_prev \<or> cur = xs)) \<and>
              current_height ctxt < 32000
           then Some (None, rgn, ctxt\<lparr>current_height := current_height ctxt + 1\<rparr>)
           else
             do { d \<leftarrow> rdata rgn;
                  (e, rgn, ctxt) \<leftarrow> (if small_possible d ctxt cur then encode_small rgn ctxt cur mem1
                                    else encode_regular rgn ctxt cur mem1);
                  if e \<noteq> None then Some (e, rgn, ctxt)
                  else
                    do { let (rgn, ctxt) = done_encoding rgn ctxt cur;
                         case x_points of
                           None \<Rightarrow> Some (None, rgn, ctxt)
                         | Some xs \<Rightarrow>
                             (if \<not> mem2 then Some (Some ENOMEM, rgn, ctxt)
                              else Some (None, rgn, ctxt\<lparr>current_points := Some xs, current_height := 1\<rparr>)) } }))"

definition FinishRegion :: "region \<Rightarrow> region_build_context \<Rightarrow> bool \<Rightarrow> (errno option \<times> region \<times> region_build_context) option" where
  "FinishRegion rgn ctxt mem_left =
     do { (e, rgn, ctxt) \<leftarrow> AddScanline rgn ctxt None False mem_left True;
          if e \<noteq> None then Some (e, rgn, ctxt)
          else Some (None,
            (case rdata rgn of
               None \<Rightarrow> rgn\<lparr>used_length := 0, allocated_length := 0\<rparr>
             | Some d \<Rightarrow> (if num_bands d = 0 then CdEmptyRegion else rgn)), ctxt) }"

end
