(* ===== verification/RegionIter.thy ===== *)
theory RegionIter
  imports RegionData
begin

unbundle bit_operations_syntax

text \<open>
  Reading a region (\<^verbatim>\<open>kernel/CLIPDRAW/region.c\<close>): the coroutine that decodes one band and one rectangle at a
  time, and can be left and entered again wherever a callback stops it. Reading outside the bytes of the
  region or of the copy of the last small band gives \<open>None\<close>. The callbacks change a state, in which the
  code has \<open>retv\<close> and \<open>context\<close>, and say whether to stop.
\<close>

text \<open>\<open>cx.ptr\<close> points into the data of the region or into the copy.\<close>

datatype band_ptr = InData nat | InSmall nat

record region_iteration_context =
  ptr :: band_ptr
  start_ptr :: band_ptr
  prev_small_mode :: "u8 list"
  iprev_y1 :: u16
  iprev_x :: spans
  num_repeats :: nat
  used0x7E :: bool
  band_i :: nat
  ctrl_byte :: u8
  num_spans :: nat
  iy0 :: u16
  iy1 :: u16
  scaled_y0 :: u16
  scaled_y1 :: u16
  icompact_spans :: bool
  compact_top :: u8
  in_repeat_mode :: bool
  span_j :: nat
  done_band_callback :: bool
  iter_done :: bool

definition CreateIterationContext :: "region_iteration_context \<Rightarrow> region_iteration_context" where
  "CreateIterationContext cx =
     cx\<lparr>num_repeats := 0, used0x7E := False, band_i := 0, span_j := 0, iter_done := False,
        done_band_callback := False, ptr := InData 0\<rparr>"

fun next_byte :: "u8 list \<Rightarrow> region_iteration_context \<Rightarrow> (u8 \<times> region_iteration_context) option" where
  "next_byte bytes cx =
     (case ptr cx of
        InData i \<Rightarrow> (if i < length bytes then Some (bytes ! i, cx\<lparr>ptr := InData (i + 1)\<rparr>) else None)
      | InSmall i \<Rightarrow>
          (if i < length (prev_small_mode cx) then Some (prev_small_mode cx ! i, cx\<lparr>ptr := InSmall (i + 1)\<rparr>) else None))"

definition next_word :: "u8 list \<Rightarrow> region_iteration_context \<Rightarrow> (u16 \<times> region_iteration_context) option" where
  "next_word bytes cx =
     do { (a, cx) \<leftarrow> next_byte bytes cx;
          (b, cx) \<leftarrow> next_byte bytes cx;
          Some (of_le16 a b, cx) }"

text \<open>The start of a band: the control byte, repetitions, the number of spans and the lines.\<close>

definition enter_repeat :: "u8 list \<Rightarrow> region_iteration_context \<Rightarrow> region_iteration_context option" where
  "enter_repeat bytes cx =
     do { (b, cx) \<leftarrow> next_byte bytes (cx\<lparr>ptr := InSmall 0\<rparr>);
          Some (cx\<lparr>ctrl_byte := b, in_repeat_mode := True\<rparr>) }"

definition read_control :: "u8 list \<Rightarrow> region_iteration_context \<Rightarrow> region_iteration_context option" where
  "read_control bytes cx =
     do { let start = ptr cx;
          (b, cx) \<leftarrow> next_byte bytes cx;
          let cx = cx\<lparr>start_ptr := start, ctrl_byte := b, icompact_spans := False, compact_top := 0, in_repeat_mode := False\<rparr>;
          if 0 < num_repeats cx then enter_repeat bytes (cx\<lparr>num_repeats := num_repeats cx - 1\<rparr>)
          else if b = 0x7F \<or> b = 0x7E then
            do { cx \<leftarrow> (if b = 0x7E then
                         do { (n, cx) \<leftarrow> next_byte bytes cx;
                              Some (cx\<lparr>used0x7E := True, num_repeats := unat n + 1\<rparr>) }
                       else Some cx);
                 enter_repeat bytes cx }
          else Some cx }"

definition read_lines :: "u8 list \<Rightarrow> region_iteration_context \<Rightarrow> region_iteration_context option" where
  "read_lines bytes cx =
     (if ctrl_byte cx AND 0x80 \<noteq> 0 then
        (let n = unat (ctrl_byte cx AND 0x3F)
         in if ctrl_byte cx AND 0x40 \<noteq> 0 then
              do { (b, cx) \<leftarrow> next_byte bytes cx;
                   (y0, cx) \<leftarrow> next_word bytes cx;
                   (y1, cx) \<leftarrow> next_word bytes cx;
                   Some (cx\<lparr>num_spans := n OR push_bit 6 (unat b), iy0 := y0, iy1 := y1\<rparr>) }
            else
              do { let comp = (ctrl_byte cx AND 0x20 \<noteq> 0);
                   (y0, cx) \<leftarrow> next_word bytes cx;
                   Some (cx\<lparr>icompact_spans := comp, num_spans := if comp then n AND 0x1F else n, iy0 := y0, iy1 := y0 + 1\<rparr>) })
      else
        Some (cx\<lparr>num_spans := unat (ctrl_byte cx AND 0xF), iy0 := iprev_y1 cx,
                iy1 := iprev_y1 cx + 1 + ucast (drop_bit 4 (ctrl_byte cx) AND 7)\<rparr>))"

text \<open>The ends of the \<open>j\<close>-th span, which is kept when it is one of the first 16.\<close>

definition read_ends :: "u8 list \<Rightarrow> nat \<Rightarrow> region_iteration_context \<Rightarrow> (u16 \<times> u16 \<times> region_iteration_context) option" where
  "read_ends bytes j cx =
     (if ctrl_byte cx AND 0x80 \<noteq> 0 then
        (if icompact_spans cx then
           do { cx \<leftarrow> (if j = 0 then do { (b, cx) \<leftarrow> next_byte bytes cx; Some (cx\<lparr>compact_top := b\<rparr>) } else Some cx);
                (a, cx) \<leftarrow> next_byte bytes cx;
                (b, cx) \<leftarrow> next_byte bytes cx;
                let top = (push_bit 8 (ucast (compact_top cx)) :: u16);
                Some (ucast a OR top, ucast b OR top, cx) }
         else
           do { (x0, cx) \<leftarrow> next_word bytes cx;
                (x1, cx) \<leftarrow> next_word bytes cx;
                Some (x0, x1, cx) })
      else
        do { (adj, cx) \<leftarrow> next_byte bytes cx;
             if length (iprev_x cx) \<le> j then None
             else Some (fst (iprev_x cx ! j) + (ucast (adj AND 0xF) - 8),
                        snd (iprev_x cx ! j) + (ucast (drop_bit 4 adj AND 0xF) - 8), cx) })"

definition kept :: "nat \<Rightarrow> u16 \<times> u16 \<Rightarrow> spans \<Rightarrow> spans" where
  "kept j x px = (if j < 16 then px[j := x] else px)"

definition read_span :: "u8 list \<Rightarrow> nat \<Rightarrow> region_iteration_context \<Rightarrow> (u16 \<times> u16 \<times> region_iteration_context) option" where
  "read_span bytes j cx =
     do { (x0, x1, cx) \<leftarrow> read_ends bytes j cx;
          Some (x0, x1, cx\<lparr>iprev_x := kept j (x0, x1) (iprev_x cx)\<rparr>) }"

text \<open>After the last span: the copy of a small band, and the way back from the copy.\<close>

definition leave_band :: "u8 list \<Rightarrow> region_iteration_context \<Rightarrow> region_iteration_context option" where
  "leave_band bytes cx =
     (let cx = cx\<lparr>span_j := 0, iprev_y1 := iy1 cx\<rparr>
      in if in_repeat_mode cx then
           (case start_ptr cx of
              InSmall _ \<Rightarrow> None
            | InData s \<Rightarrow>
                (if num_repeats cx = 0 then
                   (if used0x7E cx then Some (cx\<lparr>ptr := InData (s + 2), used0x7E := False\<rparr>)
                    else Some (cx\<lparr>ptr := InData (s + 1)\<rparr>))
                 else Some (cx\<lparr>ptr := InData s\<rparr>)))
         else if ctrl_byte cx AND 0x80 = 0 then
           (case (start_ptr cx, ptr cx) of
              (InData s, InData e) \<Rightarrow>
                (if e - s \<le> 16 then Some (cx\<lparr>prev_small_mode := take (e - s) (drop s bytes) @ drop (e - s) (prev_small_mode cx)\<rparr>) else None)
            | _ \<Rightarrow> None)
         else Some cx)"

text \<open>A device context moves what is drawn (\<open>CdMapDCCoordinates\<close> of \<^verbatim>\<open>dc.c\<close>).\<close>

type_synonym dc_shift = "(u16 \<times> u16) option"

definition map_x :: "dc_shift \<Rightarrow> int \<Rightarrow> int" where
  "map_x scale_dc x = (case scale_dc of None \<Rightarrow> x | Some (tx, _) \<Rightarrow> x + sint tx)"

definition map_y :: "dc_shift \<Rightarrow> int \<Rightarrow> int" where
  "map_y scale_dc y = (case scale_dc of None \<Rightarrow> y | Some (_, ty) \<Rightarrow> y + sint ty)"

type_synonym 's band_callback = "(int \<Rightarrow> int \<Rightarrow> 's \<Rightarrow> bool \<times> 's) option"
type_synonym 's rect_callback = "(int \<Rightarrow> int \<Rightarrow> int \<Rightarrow> int \<Rightarrow> 's \<Rightarrow> bool \<times> 's) option"

definition scale_lines :: "dc_shift \<Rightarrow> region_iteration_context \<Rightarrow> region_iteration_context" where
  "scale_lines scale_dc cx =
     cx\<lparr>scaled_y0 := word_of_int (map_y scale_dc (sint (iy0 cx))), scaled_y1 := word_of_int (map_y scale_dc (sint (iy1 cx)))\<rparr>"

text \<open>
  The loop over the spans, of which \<open>n\<close> are left, from the local \<open>j\<close> on. The boolean says that a callback has
  stopped it; only then \<open>cx.j\<close> changes, by one.
\<close>

fun span_loop :: "region_data \<Rightarrow> 's rect_callback \<Rightarrow> dc_shift \<Rightarrow> nat \<Rightarrow> nat \<Rightarrow> region_iteration_context \<Rightarrow> 's \<Rightarrow>
    (bool \<times> region_iteration_context \<times> 's) option" where
  "span_loop d rect_cb scale_dc 0 j cx s = Some (False, cx, s)"
| "span_loop d rect_cb scale_dc (Suc n) j cx s =
     do { (x0, x1, cx) \<leftarrow> read_span (band_data d) j cx;
          case rect_cb of
            None \<Rightarrow> span_loop d rect_cb scale_dc n (j + 1) cx s
          | Some f \<Rightarrow>
              (let cx = scale_lines scale_dc cx;
                   (stop, s) = f (sint (scaled_y0 cx) + sint (trans_y d)) (sint (scaled_y1 cx) + sint (trans_y d))
                     (map_x scale_dc (sint x0) + sint (trans_x d)) (map_x scale_dc (sint x1) + sint (trans_x d)) s
               in if stop then Some (True, cx\<lparr>span_j := span_j cx + 1\<rparr>, s)
                  else span_loop d rect_cb scale_dc n (j + 1) cx s) }"

text \<open>The part of a band before its spans. It is passed over when the band is entered again.\<close>

definition begin_band :: "region_data \<Rightarrow> 's band_callback \<Rightarrow> dc_shift \<Rightarrow> region_iteration_context \<Rightarrow> 's \<Rightarrow>
    (bool \<times> region_iteration_context \<times> 's) option" where
  "begin_band d band_cb scale_dc cx s =
     (if done_band_callback cx then Some (False, cx, s)
      else
        do { cx \<leftarrow> read_control (band_data d) cx;
             cx \<leftarrow> read_lines (band_data d) cx;
             case band_cb of
               None \<Rightarrow> Some (False, cx\<lparr>done_band_callback := True\<rparr>, s)
             | Some f \<Rightarrow>
                 (let cx = scale_lines scale_dc cx;
                      (stop, s) = f (map_y scale_dc (sint (iy0 cx)) + sint (trans_y d)) (map_y scale_dc (sint (iy1 cx)) + sint (trans_y d)) s
                  in Some (stop, cx\<lparr>done_band_callback := True\<rparr>, s)) })"

text \<open>The loop over the bands, of which \<open>n\<close> are left.\<close>

fun band_loop :: "region_data \<Rightarrow> 's band_callback \<Rightarrow> 's rect_callback \<Rightarrow> dc_shift \<Rightarrow> nat \<Rightarrow> region_iteration_context \<Rightarrow> 's \<Rightarrow>
    ('s \<times> region_iteration_context) option" where
  "band_loop d band_cb rect_cb scale_dc 0 cx s = Some (s, cx\<lparr>iter_done := True\<rparr>)"
| "band_loop d band_cb rect_cb scale_dc (Suc n) cx s =
     do { (stop, cx, s) \<leftarrow> begin_band d band_cb scale_dc cx s;
          if stop then Some (s, cx)
          else
            do { (stop, cx, s) \<leftarrow> span_loop d rect_cb scale_dc (num_spans cx - span_j cx) (span_j cx) cx s;
                 if stop then Some (s, cx)
                 else
                   do { cx \<leftarrow> leave_band (band_data d) cx;
                        band_loop d band_cb rect_cb scale_dc n (cx\<lparr>band_i := band_i cx + 1, done_band_callback := False\<rparr>) s } } }"

definition IterateRegionCoroutine :: "region \<Rightarrow> 's \<Rightarrow> region_iteration_context \<Rightarrow> 's band_callback \<Rightarrow> 's rect_callback \<Rightarrow>
    dc_shift \<Rightarrow> ('s \<times> region_iteration_context) option" where
  "IterateRegionCoroutine rgn s ctxt band_cb rect_cb scale_dc =
     (if iter_done ctxt then Some (s, ctxt)
      else if CdIsRegionBad rgn \<or> CdIsRegionEmpty rgn then Some (s, ctxt\<lparr>iter_done := True\<rparr>)
      else case rdata rgn of
             None \<Rightarrow> None
           | Some d \<Rightarrow> band_loop d band_cb rect_cb scale_dc (unat (num_bands d) - band_i ctxt) ctxt s)"

record rect =
  rx :: int
  ry :: int
  rw :: int
  rh :: int

definition IterateRegionThunk :: "(rect \<Rightarrow> 's \<Rightarrow> bool \<times> 's) \<Rightarrow> int \<Rightarrow> int \<Rightarrow> int \<Rightarrow> int \<Rightarrow> 's \<Rightarrow> bool \<times> 's" where
  "IterateRegionThunk rect_callback y0 y1 x0 x1 =
     rect_callback \<lparr>rx = x0, ry = y0, rw = x1 - x0, rh = y1 - y0\<rparr>"

text \<open>The context begins with what the stack holds.\<close>

definition IterateRegion :: "region_iteration_context \<Rightarrow> region \<Rightarrow> (rect \<Rightarrow> 's \<Rightarrow> bool \<times> 's) \<Rightarrow> 's \<Rightarrow> 's option" where
  "IterateRegion stack rgn rect_callback s =
     map_option fst (IterateRegionCoroutine rgn s (CreateIterationContext stack) None (Some (IterateRegionThunk rect_callback)) None)"

end
