(* ===== verification/RegionDecode.thy ===== *)
theory RegionDecode
  imports RegionIter
begin

unbundle bit_operations_syntax

text \<open>
  What the decoder makes of the bytes of one band. \<open>upcoming\<close> is what it reads next; each kind of encoding is
  described by the bytes that are coming.
\<close>

section \<open>Reading bytes\<close>

definition upcoming :: "u8 list \<Rightarrow> region_iteration_context \<Rightarrow> u8 list" where
  "upcoming bytes cx = (case ptr cx of InData i \<Rightarrow> drop i bytes | InSmall i \<Rightarrow> drop i (prev_small_mode cx))"

definition pass :: "nat \<Rightarrow> region_iteration_context \<Rightarrow> region_iteration_context" where
  "pass k cx = cx\<lparr>ptr := (case ptr cx of InData i \<Rightarrow> InData (i + k) | InSmall i \<Rightarrow> InSmall (i + k))\<rparr>"

lemma upcoming_pass [simp]: "upcoming bytes (pass k cx) = drop k (upcoming bytes cx)"
  by (simp add: upcoming_def pass_def add.commute split: band_ptr.split)

lemma pass_pass [simp]: "pass a (pass b cx) = pass (a + b) cx"
  by (simp add: pass_def add.assoc add.commute split: band_ptr.split)

lemma pass_0 [simp]: "pass 0 cx = cx"
  by (simp add: pass_def split: band_ptr.split)

lemma pass_fields [simp]:
  "prev_small_mode (pass k cx) = prev_small_mode cx" "iprev_y1 (pass k cx) = iprev_y1 cx" "iprev_x (pass k cx) = iprev_x cx"
  "num_repeats (pass k cx) = num_repeats cx" "used0x7E (pass k cx) = used0x7E cx" "band_i (pass k cx) = band_i cx"
  "ctrl_byte (pass k cx) = ctrl_byte cx" "num_spans (pass k cx) = num_spans cx" "iy0 (pass k cx) = iy0 cx"
  "iy1 (pass k cx) = iy1 cx" "icompact_spans (pass k cx) = icompact_spans cx" "compact_top (pass k cx) = compact_top cx"
  "in_repeat_mode (pass k cx) = in_repeat_mode cx" "span_j (pass k cx) = span_j cx" "start_ptr (pass k cx) = start_ptr cx"
  "done_band_callback (pass k cx) = done_band_callback cx" "iter_done (pass k cx) = iter_done cx"
  by (simp_all add: pass_def)

lemma upcoming_updates [simp]:
  "upcoming bytes (cx\<lparr>iprev_x := v0\<rparr>) = upcoming bytes cx"
  "upcoming bytes (cx\<lparr>compact_top := v1\<rparr>) = upcoming bytes cx"
  "upcoming bytes (cx\<lparr>start_ptr := v2\<rparr>) = upcoming bytes cx"
  "upcoming bytes (cx\<lparr>ctrl_byte := v3\<rparr>) = upcoming bytes cx"
  "upcoming bytes (cx\<lparr>icompact_spans := v4\<rparr>) = upcoming bytes cx"
  "upcoming bytes (cx\<lparr>in_repeat_mode := v5\<rparr>) = upcoming bytes cx"
  "upcoming bytes (cx\<lparr>num_spans := v6\<rparr>) = upcoming bytes cx"
  "upcoming bytes (cx\<lparr>iy0 := v7\<rparr>) = upcoming bytes cx"
  "upcoming bytes (cx\<lparr>iy1 := v8\<rparr>) = upcoming bytes cx"
  "upcoming bytes (cx\<lparr>num_repeats := v9\<rparr>) = upcoming bytes cx"
  "upcoming bytes (cx\<lparr>used0x7E := v10\<rparr>) = upcoming bytes cx"
  by (simp_all add: upcoming_def split: band_ptr.split)

lemma pass_updates [simp]:
  "pass k (cx\<lparr>iprev_x := v0\<rparr>) = (pass k cx)\<lparr>iprev_x := v0\<rparr>"
  "pass k (cx\<lparr>compact_top := v1\<rparr>) = (pass k cx)\<lparr>compact_top := v1\<rparr>"
  "pass k (cx\<lparr>start_ptr := v2\<rparr>) = (pass k cx)\<lparr>start_ptr := v2\<rparr>"
  "pass k (cx\<lparr>ctrl_byte := v3\<rparr>) = (pass k cx)\<lparr>ctrl_byte := v3\<rparr>"
  "pass k (cx\<lparr>icompact_spans := v4\<rparr>) = (pass k cx)\<lparr>icompact_spans := v4\<rparr>"
  "pass k (cx\<lparr>in_repeat_mode := v5\<rparr>) = (pass k cx)\<lparr>in_repeat_mode := v5\<rparr>"
  "pass k (cx\<lparr>num_spans := v6\<rparr>) = (pass k cx)\<lparr>num_spans := v6\<rparr>"
  "pass k (cx\<lparr>iy0 := v7\<rparr>) = (pass k cx)\<lparr>iy0 := v7\<rparr>"
  "pass k (cx\<lparr>iy1 := v8\<rparr>) = (pass k cx)\<lparr>iy1 := v8\<rparr>"
  "pass k (cx\<lparr>num_repeats := v9\<rparr>) = (pass k cx)\<lparr>num_repeats := v9\<rparr>"
  "pass k (cx\<lparr>used0x7E := v10\<rparr>) = (pass k cx)\<lparr>used0x7E := v10\<rparr>"
  by (simp_all add: pass_def split: band_ptr.split)

lemma next_byte_upcoming:
  "upcoming bytes cx = b # bs \<Longrightarrow> next_byte bytes cx = Some (b, pass 1 cx)"
  by (auto simp: upcoming_def pass_def split: band_ptr.splits)
    (metis nth_via_drop)+

declare next_byte.simps [simp del]

lemma next_word_upcoming:
  "upcoming bytes cx = le16 w @ bs \<Longrightarrow> next_word bytes cx = Some (w, pass 2 cx)"
  by (simp add: next_word_def le16_def next_byte_upcoming of_le16_le16 numeral_2_eq_2)

section \<open>Spans\<close>

text \<open>The spans of a band without the callbacks, and the first 16 spans as they are kept.\<close>

fun read_spans :: "u8 list \<Rightarrow> nat \<Rightarrow> nat \<Rightarrow> region_iteration_context \<Rightarrow> (spans \<times> region_iteration_context) option" where
  "read_spans bytes 0 j cx = Some ([], cx)"
| "read_spans bytes (Suc n) j cx =
     do { (x0, x1, cx) \<leftarrow> read_span bytes j cx;
          (xs, cx) \<leftarrow> read_spans bytes n (j + 1) cx;
          Some ((x0, x1) # xs, cx) }"

fun keep_from :: "nat \<Rightarrow> spans \<Rightarrow> spans \<Rightarrow> spans" where
  "keep_from j px [] = px"
| "keep_from j px (x # xs) = keep_from (j + 1) (kept j x px) xs"

definition keep :: "spans \<Rightarrow> spans \<Rightarrow> spans" where
  "keep px xs = take 16 xs @ drop (min 16 (length xs)) px"

lemma kept_props [simp]: "length (kept j x px) = length px" "k < length px \<Longrightarrow> kept j x px ! k = (if j = k \<and> k < 16 then x else px ! k)"
  by (auto simp: kept_def nth_list_update)

lemma length_keep_from [simp]: "length (keep_from j px xs) = length px"
  by (induction xs arbitrary: j px) simp_all

lemma nth_keep_from:
  "length px = 16 \<Longrightarrow> k < 16 \<Longrightarrow> keep_from j px xs ! k = (if j \<le> k \<and> k < j + length xs then xs ! (k - j) else px ! k)"
  by (induction xs arbitrary: j px) (auto simp: nth_Cons')

lemma keep_from_keep: "length px = 16 \<Longrightarrow> keep_from 0 px xs = keep px xs"
  by (rule nth_equalityI) (auto simp: nth_keep_from keep_def nth_append min_def)

lemma length_keep [simp]: "length px = 16 \<Longrightarrow> length (keep px xs) = 16"
  by (simp add: keep_def min_def)

lemma read_spans_words:
  assumes "upcoming bytes cx = concat (map (\<lambda>(x0, x1). le16 x0 @ le16 x1) xs) @ r" "ctrl_byte cx AND 0x80 \<noteq> 0" "\<not> icompact_spans cx"
  shows "read_spans bytes (length xs) j cx = Some (xs, (pass (4 * length xs) cx)\<lparr>iprev_x := keep_from j (iprev_x cx) xs\<rparr>)"
  using assms
proof (induction xs arbitrary: j cx)
  case (Cons x xs)
  obtain x0 x1 where x: "x = (x0, x1)" by (cases x)
  have 1: "next_word bytes cx = Some (x0, pass 2 cx)" "next_word bytes (pass 2 cx) = Some (x1, pass 4 cx)"
    using Cons.prems(1) x by (auto simp: next_word_upcoming intro!: next_word_upcoming)
  then show ?case using Cons.prems Cons.IH [of "pass 4 cx\<lparr>iprev_x := kept j x (iprev_x cx)\<rparr>" "j + 1"]
    by (simp add: read_span_def read_ends_def x add.commute)
qed simp

lemma lo8_ucast: "lo8 w = ucast w"
proof -
  have m: "(0xFF :: u16) = mask 8" by code_simp
  show ?thesis unfolding lo8_def m by (rule bit_word_eqI) (auto simp: bit_simps)
qed

lemma join_hi_lo: "ucast (lo8 w) OR push_bit 8 (ucast (hi8 w)) = w"
  by (rule bit_word_eqI) (auto simp: lo8_ucast hi8_def bit_simps)

lemma read_spans_bytes:
  assumes "upcoming bytes cx = concat (map (\<lambda>(x0, x1). [lo8 x0, lo8 x1]) xs) @ r" "ctrl_byte cx AND 0x80 \<noteq> 0" "icompact_spans cx"
    "list_all (\<lambda>(x0, x1). hi8 x0 = compact_top cx \<and> hi8 x1 = compact_top cx) xs"
  shows "read_spans bytes (length xs) (Suc j) cx =
    Some (xs, (pass (2 * length xs) cx)\<lparr>iprev_x := keep_from (Suc j) (iprev_x cx) xs\<rparr>)"
  using assms
proof (induction xs arbitrary: j cx)
  case (Cons x xs)
  obtain x0 x1 where x: "x = (x0, x1)" by (cases x)
  have 1: "next_byte bytes cx = Some (lo8 x0, pass 1 cx)" "next_byte bytes (pass 1 cx) = Some (lo8 x1, pass 2 cx)"
    using Cons.prems(1) x by (auto simp: next_byte_upcoming numeral_2_eq_2)
  have "ucast (lo8 x0) OR push_bit 8 (ucast (compact_top cx)) = x0" "ucast (lo8 x1) OR push_bit 8 (ucast (compact_top cx)) = x1"
    using Cons.prems(4) join_hi_lo [of x0] join_hi_lo [of x1] x by simp_all
  then show ?case using 1 Cons.prems Cons.IH [of "pass 2 cx\<lparr>iprev_x := kept (Suc j) x (iprev_x cx)\<rparr>" "Suc j"]
    by (simp add: read_span_def read_ends_def x add.commute numeral_2_eq_2)
qed simp

lemma read_spans_compact:
  assumes "upcoming bytes cx = hi8 (fst (hd xs)) # concat (map (\<lambda>(x0, x1). [lo8 x0, lo8 x1]) xs) @ r" "ctrl_byte cx AND 0x80 \<noteq> 0"
    "icompact_spans cx" "compact_spans xs" "xs \<noteq> []"
  shows "read_spans bytes (length xs) 0 cx =
    Some (xs, (pass (2 * length xs + 1) cx)\<lparr>iprev_x := keep_from 0 (iprev_x cx) xs, compact_top := hi8 (fst (hd xs))\<rparr>)"
proof -
  obtain x0 x1 ys where x: "xs = (x0, x1) # ys" using assms(5) by (cases xs) auto
  let ?cx = "cx\<lparr>compact_top := hi8 x0\<rparr>"
  have 1: "next_byte bytes cx = Some (hi8 x0, pass 1 cx)" "next_byte bytes (pass 1 ?cx) = Some (lo8 x0, pass 2 ?cx)"
      "next_byte bytes (pass 2 ?cx) = Some (lo8 x1, pass 3 ?cx)"
    using assms(1) x by (auto simp: next_byte_upcoming numeral_2_eq_2 numeral_3_eq_3)
  have "ucast (lo8 x0) OR push_bit 8 (ucast (hi8 x0)) = x0" "ucast (lo8 x1) OR push_bit 8 (ucast (hi8 x0)) = x1"
    using assms(4) join_hi_lo [of x0] join_hi_lo [of x1] x by (auto simp: compact_spans_def)
  then show ?thesis
    using 1 assms read_spans_bytes [of bytes "pass 3 ?cx\<lparr>iprev_x := kept 0 (x0, x1) (iprev_x cx)\<rparr>" ys r 0]
    by (simp add: read_span_def read_ends_def x add.commute numeral_2_eq_2 numeral_3_eq_3 compact_spans_def)
qed

text \<open>The moves of a small band.\<close>

lemma small_diff_cases: "small_diff new old \<longleftrightarrow> new - old \<in> word_of_int ` {-8..7}"
proof
  assume "small_diff new old"
  then have "sint (new - old) \<in> {-8..7}" by (auto simp: small_diff_def)
  moreover have "new - old = word_of_int (sint (new - old))" by simp
  ultimately show "new - old \<in> word_of_int ` {-8..7}" by (rule rev_image_eqI)
next
  assume "new - old \<in> word_of_int ` {-8..7}"
  then obtain k where k: "new - old = word_of_int k" "k \<in> {-8..7}" by (elim imageE)
  have "\<forall>k \<in> set [-8..7]. sint (word_of_int k :: u16) = k" by code_simp
  then have "sint (new - old) = k" unfolding k(1) using k(2) by (simp only: set_upto)
  then show "small_diff new old" using k(2) by (simp add: small_diff_def)
qed

lemma adj_byte_moves:
  assumes "small_diff n0 o0" "small_diff n1 o1"
  shows "o0 + (ucast (adj_byte (n0, n1) (o0, o1) AND 0xF) - 8) = n0" "o1 + (ucast (drop_bit 4 (adj_byte (n0, n1) (o0, o1)) AND 0xF) - 8) = n1"
proof -
  have all: "\<forall>a \<in> set [-8..7]. \<forall>b \<in> set [-8..7].
    ucast ((push_bit 4 (ucast (word_of_int b + 8 :: u16) :: u8) OR ucast (word_of_int a + 8 :: u16)) AND 0xF) - 8 = (word_of_int a :: u16) \<and>
    ucast (drop_bit 4 (push_bit 4 (ucast (word_of_int b + 8 :: u16) :: u8) OR ucast (word_of_int a + 8 :: u16)) AND 0xF) - 8 = (word_of_int b :: u16)"
    by code_simp
  obtain a b where ab: "a \<in> {-8..7}" "n0 - o0 = word_of_int a" "b \<in> {-8..7}" "n1 - o1 = word_of_int b"
    using assms unfolding small_diff_cases by (elim imageE)
  have "a \<in> set [-8..7]" "b \<in> set [-8..7]" using ab(1,3) by (simp_all only: set_upto)
  note * = all [rule_format, OF this]
  have "ucast (adj_byte (n0, n1) (o0, o1) AND 0xF) - 8 = n0 - o0"
    "ucast (drop_bit 4 (adj_byte (n0, n1) (o0, o1)) AND 0xF) - 8 = n1 - o1"
    unfolding adj_byte_def Let_def fst_conv snd_conv ab(2,4) using * by (rule conjunct1, rule conjunct2)
  then show "o0 + (ucast (adj_byte (n0, n1) (o0, o1) AND 0xF) - 8) = n0" "o1 + (ucast (drop_bit 4 (adj_byte (n0, n1) (o0, o1)) AND 0xF) - 8) = n1"
    by simp_all
qed

lemma read_spans_small:
  assumes "upcoming bytes cx = map2 adj_byte xs olds @ r" "ctrl_byte cx AND 0x80 = 0" "length olds = length xs"
    "list_all2 (\<lambda>(n0, n1) (o0, o1). small_diff n0 o0 \<and> small_diff n1 o1) xs olds"
    "\<forall>k < length xs. j + k < length (iprev_x cx) \<and> iprev_x cx ! (j + k) = olds ! k"
  shows "read_spans bytes (length xs) j cx = Some (xs, (pass (length xs) cx)\<lparr>iprev_x := keep_from j (iprev_x cx) xs\<rparr>)"
  using assms
proof (induction xs arbitrary: j cx olds)
  case (Cons x xs)
  obtain n0 n1 where x: "x = (n0, n1)" by (cases x)
  obtain o0 o1 os where o: "olds = (o0, o1) # os" using Cons.prems(3) by (cases olds) auto
  have 1: "next_byte bytes cx = Some (adj_byte (n0, n1) (o0, o1), pass 1 cx)" using Cons.prems(1) x o by (simp add: next_byte_upcoming)
  have d: "small_diff n0 o0" "small_diff n1 o1" using Cons.prems(4) x o by auto
  have k: "j < length (iprev_x cx)" "iprev_x cx ! j = (o0, o1)" using Cons.prems(5) o by auto
  have "j + 1 + i < length (iprev_x cx)" "iprev_x cx ! (j + 1 + i) = os ! i" if "i < length xs" for i
    using Cons.prems(5) [rule_format, of "Suc i"] that o by auto
  then show ?case using 1 k adj_byte_moves [OF d] Cons.prems o
      Cons.IH [of "pass 1 cx\<lparr>iprev_x := kept j x (iprev_x cx)\<rparr>" os "j + 1"]
    by (simp add: read_span_def read_ends_def x add.commute)
qed simp

section \<open>Whole bands\<close>

type_synonym band = "u16 \<times> u16 \<times> spans"

text \<open>One round of the loop over the bands, without the callbacks.\<close>

definition dec_band :: "u8 list \<Rightarrow> region_iteration_context \<Rightarrow> (band \<times> region_iteration_context) option" where
  "dec_band bytes cx =
     do { cx \<leftarrow> read_control bytes cx;
          cx \<leftarrow> read_lines bytes cx;
          (xs, cx) \<leftarrow> read_spans bytes (num_spans cx) 0 cx;
          cx \<leftarrow> leave_band bytes cx;
          Some ((iy0 cx, iy1 cx, xs), cx\<lparr>band_i := band_i cx + 1, done_band_callback := False\<rparr>) }"

definition at_band :: "nat \<Rightarrow> nat \<Rightarrow> bool \<Rightarrow> u16 \<Rightarrow> spans \<Rightarrow> u8 list \<Rightarrow> region_iteration_context \<Rightarrow> bool" where
  "at_band pos r u y px psm cx \<longleftrightarrow> ptr cx = InData pos \<and> num_repeats cx = r \<and> used0x7E cx = u \<and> iprev_y1 cx = y \<and>
     iprev_x cx = px \<and> prev_small_mode cx = psm \<and> span_j cx = 0 \<and> \<not> done_band_callback cx \<and> length px = 16 \<and> length psm = 16"

text \<open>The three encodings of a band.\<close>

definition words_of :: "spans \<Rightarrow> u8 list" where
  "words_of cur = concat (map (\<lambda>(x0, x1). le16 x0 @ le16 x1) cur)"

definition bytes_of_spans :: "spans \<Rightarrow> u8 list" where
  "bytes_of_spans cur = hi8 (fst (hd cur)) # concat (map (\<lambda>(x0, x1). [lo8 x0, lo8 x1]) cur)"

definition full_code :: "u16 \<Rightarrow> nat \<Rightarrow> spans \<Rightarrow> u8 list" where
  "full_code y h cur = [0x80 OR 0x40 OR (of_nat (length cur) AND 0x3F), of_nat (drop_bit 6 (length cur) AND 0xFF)] @
     le16 y @ le16 (y + of_nat h) @ words_of cur"

definition compact_code :: "u16 \<Rightarrow> spans \<Rightarrow> u8 list" where
  "compact_code y cur = [0x80 OR (if compact_spans cur then 0x20 else 0) OR (of_nat (length cur) AND 0x1F)] @
     le16 y @ (if compact_spans cur then bytes_of_spans cur else words_of cur)"

definition small_code :: "nat \<Rightarrow> spans \<Rightarrow> spans \<Rightarrow> u8 list" where
  "small_code h cur px = small_ctrl cur h # map2 adj_byte cur px"

lemma length_words_of [simp]: "length (words_of cur) = 4 * length cur"
  by (induction cur) (auto simp: words_of_def)

lemma length_bytes_of_spans [simp]: "length (bytes_of_spans cur) = 2 * length cur + 1"
proof -
  have "length (concat (map (\<lambda>(x0, x1). [lo8 x0, lo8 x1]) cur)) = 2 * length cur" by (induction cur) auto
  then show ?thesis by (simp add: bytes_of_spans_def)
qed

lemma upcoming_data: "ptr cx = InData pos \<Longrightarrow> upcoming bytes cx = drop pos bytes"
  by (simp add: upcoming_def)

lemma full_ctrl:
  assumes "n < 16384"
  shows "(0x80 OR 0x40 OR (of_nat n AND 0x3F) :: u8) \<noteq> 0x7F" "(0x80 OR 0x40 OR (of_nat n AND 0x3F) :: u8) \<noteq> 0x7E"
    "(0x80 OR 0x40 OR (of_nat n AND 0x3F) :: u8) AND 0x80 \<noteq> 0" "(0x80 OR 0x40 OR (of_nat n AND 0x3F) :: u8) AND 0x40 \<noteq> 0"
    "unat ((0x80 OR 0x40 OR (of_nat n AND 0x3F) :: u8) AND 0x3F) OR push_bit 6 (unat (of_nat (drop_bit 6 n AND 0xFF) :: u8)) = n"
proof -
  have all: "\<forall>m \<in> set [0..<64]. (0x80 OR 0x40 OR of_nat m :: u8) \<noteq> 0x7F \<and> (0x80 OR 0x40 OR of_nat m :: u8) \<noteq> 0x7E \<and>
    (0x80 OR 0x40 OR of_nat m :: u8) AND 0x80 \<noteq> 0 \<and> (0x80 OR 0x40 OR of_nat m :: u8) AND 0x40 \<noteq> 0 \<and>
    unat ((0x80 OR 0x40 OR of_nat m :: u8) AND 0x3F) = m" by code_simp
  have m: "(0x3F :: u8) = mask 6" "(0xFF :: nat) = mask 8" by code_simp+
  have low: "(of_nat n AND 0x3F :: u8) = of_nat (n mod 64)"
    unfolding m take_bit_eq_mask [symmetric] take_bit_of_nat by (simp add: take_bit_eq_mod)
  have "n mod 64 \<in> set [0..<64]" by simp
  note * = all [rule_format, OF this, folded low]
  from * show "(0x80 OR 0x40 OR (of_nat n AND 0x3F) :: u8) \<noteq> 0x7F" "(0x80 OR 0x40 OR (of_nat n AND 0x3F) :: u8) \<noteq> 0x7E"
    "(0x80 OR 0x40 OR (of_nat n AND 0x3F) :: u8) AND 0x80 \<noteq> 0" "(0x80 OR 0x40 OR (of_nat n AND 0x3F) :: u8) AND 0x40 \<noteq> 0"
    by blast+
  have "drop_bit 6 n < 256" using assms by (simp add: drop_bit_eq_div)
  then have "unat (of_nat (drop_bit 6 n AND 0xFF) :: u8) = drop_bit 6 n"
    unfolding m take_bit_eq_mask [symmetric] by (simp add: unat_of_nat take_bit_eq_mod)
  moreover have "n mod 64 OR push_bit 6 (drop_bit 6 n) = n"
  proof -
    have "take_bit 6 n OR push_bit 6 (drop_bit 6 n) = n" by (rule bit_eqI) (auto simp: bit_simps, metis le_add_diff_inverse not_less)
    then show ?thesis by (simp add: take_bit_eq_mod)
  qed
  ultimately show "unat ((0x80 OR 0x40 OR (of_nat n AND 0x3F) :: u8) AND 0x3F) OR push_bit 6 (unat (of_nat (drop_bit 6 n AND 0xFF) :: u8)) = n"
    using * by simp
qed

lemma compact_ctrl:
  assumes "n \<le> 0x1F"
  defines "c \<equiv> (\<lambda>co. 0x80 OR (if co then 0x20 else 0) OR (of_nat n AND 0x1F) :: u8)"
  shows "c co \<noteq> 0x7F" "c co \<noteq> 0x7E" "c co AND 0x80 \<noteq> 0" "c co AND 0x40 = 0" "(c co AND 0x20 \<noteq> 0) = co"
    "(if co then unat (c co AND 0x3F) AND 0x1F else unat (c co AND 0x3F)) = n"
proof -
  have all: "\<forall>m \<in> set [0..<32]. \<forall>co \<in> set [True, False].
    (0x80 OR (if co then 0x20 else 0) OR (of_nat m AND 0x1F) :: u8) \<noteq> 0x7F \<and>
    (0x80 OR (if co then 0x20 else 0) OR (of_nat m AND 0x1F) :: u8) \<noteq> 0x7E \<and>
    (0x80 OR (if co then 0x20 else 0) OR (of_nat m AND 0x1F) :: u8) AND 0x80 \<noteq> 0 \<and>
    (0x80 OR (if co then 0x20 else 0) OR (of_nat m AND 0x1F) :: u8) AND 0x40 = 0 \<and>
    ((0x80 OR (if co then 0x20 else 0) OR (of_nat m AND 0x1F) :: u8) AND 0x20 \<noteq> 0) = co \<and>
    (if co then unat ((0x80 OR (if co then 0x20 else 0) OR (of_nat m AND 0x1F) :: u8) AND 0x3F) AND 0x1F
     else unat ((0x80 OR (if co then 0x20 else 0) OR (of_nat m AND 0x1F) :: u8) AND 0x3F)) = m" by code_simp
  have "n \<in> set [0..<32]" "co \<in> set [True, False]" using assms by auto
  from all [rule_format, OF this, folded c_def]
  show "c co \<noteq> 0x7F" "c co \<noteq> 0x7E" "c co AND 0x80 \<noteq> 0" "c co AND 0x40 = 0" "(c co AND 0x20 \<noteq> 0) = co"
    "(if co then unat (c co AND 0x3F) AND 0x1F else unat (c co AND 0x3F)) = n" unfolding c_def by blast+
qed

lemma small_ctrl_bits:
  assumes "length cur \<le> 15" "1 \<le> h" "h \<le> 8"
  shows "small_ctrl cur h AND 0x80 = 0" "unat (small_ctrl cur h AND 0xF) = length cur"
    "ucast (drop_bit 4 (small_ctrl cur h) AND 7) = (of_nat (h - 1) :: u16)"
proof -
  have all: "\<forall>n \<in> set [0..<16]. \<forall>k \<in> set [0..<8]. (of_nat n OR push_bit 4 (of_nat k) :: u8) AND 0x80 = 0 \<and>
    unat ((of_nat n OR push_bit 4 (of_nat k) :: u8) AND 0xF) = n \<and>
    ucast (drop_bit 4 (of_nat n OR push_bit 4 (of_nat k) :: u8) AND 7) = (of_nat k :: u16)" by code_simp
  have "length cur \<in> set [0..<16]" "h - 1 \<in> set [0..<8]" using assms by auto
  from all [rule_format, OF this] show "small_ctrl cur h AND 0x80 = 0" "unat (small_ctrl cur h AND 0xF) = length cur"
    "ucast (drop_bit 4 (small_ctrl cur h) AND 7) = (of_nat (h - 1) :: u16)" unfolding small_ctrl_def by blast+
qed

lemma read_control_plain:
  assumes "at_band pos 0 False y px psm cx" "drop pos bytes = b # r" "b \<noteq> 0x7F" "b \<noteq> 0x7E"
  shows "read_control bytes cx = Some ((pass 1 cx)\<lparr>start_ptr := InData pos, ctrl_byte := b, icompact_spans := False,
    compact_top := 0, in_repeat_mode := False\<rparr>)"
proof -
  have "next_byte bytes cx = Some (b, pass 1 cx)"
    using assms by (intro next_byte_upcoming) (simp add: at_band_def upcoming_data)
  then show ?thesis using assms by (simp add: read_control_def at_band_def)
qed

lemma dec_full:
  assumes "at_band pos 0 False y px psm cx" "drop pos bytes = full_code y0 h cur @ r" "length cur < 16384"
  shows "\<exists>cx'. dec_band bytes cx = Some ((y0, y0 + of_nat h, cur), cx') \<and>
    at_band (pos + length (full_code y0 h cur)) 0 False (y0 + of_nat h) (keep px cur) psm cx' \<and> band_i cx' = band_i cx + 1"
proof -
  let ?c = "0x80 OR 0x40 OR (of_nat (length cur) AND 0x3F) :: u8" and ?d = "of_nat (drop_bit 6 (length cur) AND 0xFF) :: u8"
  note c = full_ctrl [OF assms(3)]
  have 0: "ptr cx = InData pos" "iprev_x cx = px" "length px = 16" using assms(1) by (simp_all add: at_band_def)
  have up: "upcoming bytes cx = ?c # ?d # le16 y0 @ le16 (y0 + of_nat h) @ words_of cur @ r"
    using assms(2) 0 by (simp add: upcoming_data full_code_def)
  define cx1 where "cx1 = (pass 1 cx)\<lparr>start_ptr := InData pos, ctrl_byte := ?c, icompact_spans := False, compact_top := 0, in_repeat_mode := False\<rparr>"
  have 1: "read_control bytes cx = Some cx1"
    unfolding cx1_def by (rule read_control_plain [OF assms(1)]) (use up 0 c in \<open>simp_all add: upcoming_data\<close>)
  have up1: "upcoming bytes cx1 = ?d # le16 y0 @ le16 (y0 + of_nat h) @ words_of cur @ r"
    using up by (simp add: cx1_def)
  have n: "next_byte bytes cx1 = Some (?d, pass 1 cx1)" "next_word bytes (pass 1 cx1) = Some (y0, pass 3 cx1)"
    "next_word bytes (pass 3 cx1) = Some (y0 + of_nat h, pass 5 cx1)"
    using up1 next_word_upcoming [of bytes "pass 1 cx1"] next_word_upcoming [of bytes "pass 3 cx1"]
    by (simp_all add: next_byte_upcoming eval_nat_numeral)
  define cx2 where "cx2 = (pass 5 cx1)\<lparr>num_spans := length cur, iy0 := y0, iy1 := y0 + of_nat h\<rparr>"
  have 2: "read_lines bytes cx1 = Some cx2" using n c by (simp add: read_lines_def cx1_def cx2_def)
  have up2: "upcoming bytes cx2 = words_of cur @ r" using up1 by (simp add: cx2_def eval_nat_numeral)
  have 3: "read_spans bytes (num_spans cx2) 0 cx2 = Some (cur, (pass (4 * length cur) cx2)\<lparr>iprev_x := keep px cur\<rparr>)"
    using read_spans_words [of bytes cx2 cur r 0] up2 c 0 by (simp add: words_of_def cx2_def cx1_def keep_from_keep)
  show ?thesis
    using assms(1) c by (simp add: dec_band_def 1 2 3) (simp add: leave_band_def cx2_def cx1_def at_band_def pass_def full_code_def)
qed

lemma dec_compact:
  assumes "at_band pos 0 False y px psm cx" "drop pos bytes = compact_code y0 cur @ r" "length cur \<le> 0x1F" "cur \<noteq> []"
  shows "\<exists>cx'. dec_band bytes cx = Some ((y0, y0 + 1, cur), cx') \<and>
    at_band (pos + length (compact_code y0 cur)) 0 False (y0 + 1) (keep px cur) psm cx' \<and> band_i cx' = band_i cx + 1"
proof -
  let ?co = "compact_spans cur"
  let ?c = "0x80 OR (if ?co then 0x20 else 0) OR (of_nat (length cur) AND 0x1F) :: u8"
    and ?body = "if ?co then bytes_of_spans cur else words_of cur"
  note c = compact_ctrl [OF assms(3), of ?co]
  have 0: "ptr cx = InData pos" "iprev_x cx = px" "length px = 16" using assms(1) by (simp_all add: at_band_def)
  have up: "upcoming bytes cx = ?c # le16 y0 @ ?body @ r"
    using assms(2) 0 by (simp add: upcoming_data compact_code_def)
  define cx1 where "cx1 = (pass 1 cx)\<lparr>start_ptr := InData pos, ctrl_byte := ?c, icompact_spans := False, compact_top := 0, in_repeat_mode := False\<rparr>"
  have 1: "read_control bytes cx = Some cx1"
    unfolding cx1_def by (rule read_control_plain [OF assms(1)]) (use up 0 c(1,2) in \<open>simp_all add: upcoming_data\<close>)
  have up1: "upcoming bytes cx1 = le16 y0 @ ?body @ r" using up by (simp add: cx1_def)
  define cx2 where "cx2 = (pass 2 cx1)\<lparr>icompact_spans := ?co, num_spans := length cur, iy0 := y0, iy1 := y0 + 1\<rparr>"
  have c1: "ctrl_byte cx1 = ?c" by (simp add: cx1_def)
  have 2: "read_lines bytes cx1 = Some cx2"
    using next_word_upcoming [OF up1] c(3-6) unfolding read_lines_def c1 by (simp add: cx2_def Let_def cong: if_cong)
  have up2: "upcoming bytes cx2 = ?body @ r" using up1 by (simp add: cx2_def)
  have cx2: "ctrl_byte cx2 = ?c" "icompact_spans cx2 = ?co" "num_spans cx2 = length cur" "iprev_x cx2 = px"
    by (simp_all add: cx2_def cx1_def 0)
  have 3: "\<exists>t. read_spans bytes (length cur) 0 cx2 = Some (cur, (pass (length ?body) cx2)\<lparr>iprev_x := keep px cur, compact_top := t\<rparr>)"
  proof (cases ?co)
    case True
    then have "read_spans bytes (length cur) 0 cx2 =
        Some (cur, (pass (length (bytes_of_spans cur)) cx2)\<lparr>iprev_x := keep px cur, compact_top := hi8 (fst (hd cur))\<rparr>)"
      using read_spans_compact [of bytes cx2 cur r] up2 c(3) 0 cx2 assms(4) by (simp add: keep_from_keep) (simp add: bytes_of_spans_def)
    then show ?thesis using True by auto
  next
    case False
    then have "read_spans bytes (length cur) 0 cx2 = Some (cur, (pass (length ?body) cx2)\<lparr>iprev_x := keep px cur\<rparr>)"
      using read_spans_words [of bytes cx2 cur r 0, folded words_of_def] up2 c(3) 0 cx2 by (simp add: keep_from_keep)
    moreover have "\<And>v. v\<lparr>compact_top := compact_top v\<rparr> = v" by simp
    ultimately show ?thesis by metis
  qed
  then obtain t where 3: "read_spans bytes (length cur) 0 cx2 = Some (cur, (pass (length ?body) cx2)\<lparr>iprev_x := keep px cur, compact_top := t\<rparr>)" ..
  have rep: "in_repeat_mode cx2 = False" "start_ptr cx2 = InData pos" by (simp_all add: cx2_def cx1_def)
  show ?thesis
    using assms(1) c(3) by (simp add: dec_band_def 1 2 3 cx2 leave_band_def rep)
      (simp add: cx2_def cx1_def at_band_def pass_def compact_code_def)
qed

text \<open>The control byte and the moves of a small band, wherever they are read from.\<close>

definition small_ok :: "nat \<Rightarrow> spans \<Rightarrow> spans \<Rightarrow> bool" where
  "small_ok h cur px \<longleftrightarrow> 1 \<le> h \<and> h \<le> 8 \<and> cur \<noteq> [] \<and> length cur \<le> 15 \<and> small_spans cur px \<and>
     small_ctrl cur h \<noteq> 0x7F \<and> small_ctrl cur h \<noteq> 0x7E"

lemma small_body:
  assumes "small_ok h cur px" "ctrl_byte cx = small_ctrl cur h" "upcoming bytes cx = map2 adj_byte cur px @ r"
    "iprev_x cx = px" "length px = 16"
  defines "cx' \<equiv> cx\<lparr>num_spans := length cur, iy0 := iprev_y1 cx, iy1 := iprev_y1 cx + of_nat h\<rparr>"
  shows "read_lines bytes cx = Some cx'"
    "read_spans bytes (length cur) 0 cx' = Some (cur, (pass (length cur) cx')\<lparr>iprev_x := keep px cur\<rparr>)"
proof -
  have ok: "length cur \<le> 15" "1 \<le> h" "h \<le> 8" "small_spans cur px" using assms(1) by (simp_all add: small_ok_def)
  note c = small_ctrl_bits [OF ok(1-3)]
  have "of_nat h = (1 + of_nat (h - 1) :: u16)" using ok(2) by (metis le_add_diff_inverse of_nat_1 of_nat_add)
  then show "read_lines bytes cx = Some cx'" using c assms(2) by (simp add: read_lines_def cx'_def add.assoc)
  have "map2 adj_byte cur px = map2 adj_byte cur (take (length cur) px)" by (rule nth_equalityI) auto
  then show "read_spans bytes (length cur) 0 cx' = Some (cur, (pass (length cur) cx')\<lparr>iprev_x := keep px cur\<rparr>)"
    using read_spans_small [of bytes cx' cur "take (length cur) px" r 0] c ok assms(2-5)
    by (simp add: cx'_def small_spans_def keep_from_keep split: prod.splits)
qed

lemma dec_small:
  assumes "at_band pos 0 False y px psm cx" "drop pos bytes = small_code h cur px @ r" "small_ok h cur px"
  shows "\<exists>cx'. dec_band bytes cx = Some ((y, y + of_nat h, cur), cx') \<and>
    at_band (pos + length (small_code h cur px)) 0 False (y + of_nat h) (keep px cur)
      (small_code h cur px @ drop (length (small_code h cur px)) psm) cx' \<and> band_i cx' = band_i cx + 1"
proof -
  have 0: "ptr cx = InData pos" "iprev_x cx = px" "length px = 16" "iprev_y1 cx = y" using assms(1) by (simp_all add: at_band_def)
  have ok: "length cur \<le> 15" "1 \<le> h" "h \<le> 8" "small_ctrl cur h \<noteq> 0x7F" "small_ctrl cur h \<noteq> 0x7E" using assms(3) by (simp_all add: small_ok_def)
  have len: "length (small_code h cur px) = length cur + 1" using ok 0 by (simp add: small_code_def)
  have up: "upcoming bytes cx = small_ctrl cur h # map2 adj_byte cur px @ r" using assms(2) 0 by (simp add: upcoming_data small_code_def)
  define cx1 where "cx1 = (pass 1 cx)\<lparr>start_ptr := InData pos, ctrl_byte := small_ctrl cur h, icompact_spans := False, compact_top := 0, in_repeat_mode := False\<rparr>"
  have 1: "read_control bytes cx = Some cx1"
    unfolding cx1_def by (rule read_control_plain [OF assms(1)]) (use up 0 ok in \<open>simp_all add: upcoming_data\<close>)
  have up1: "upcoming bytes cx1 = map2 adj_byte cur px @ r" using up by (simp add: cx1_def)
  note b = small_body [OF assms(3) _ up1 _ 0(3)]
  have small: "small_ctrl cur h AND 0x80 = 0" using small_ctrl_bits ok by blast
  have tk: "take (Suc (length cur)) (drop pos bytes) = small_code h cur px" using assms(2) len by simp
  have "length psm = 16" using assms(1) by (simp add: at_band_def)
  then show ?thesis
    using assms(1) b small ok len tk by (simp add: dec_band_def 1 cx1_def 0)
      (simp add: leave_band_def at_band_def pass_def)
qed

text \<open>A repeated band is read from the copy.\<close>

definition copied :: "nat \<Rightarrow> spans \<Rightarrow> spans \<Rightarrow> u8 list \<Rightarrow> bool" where
  "copied h cur px psm \<longleftrightarrow> small_ok h cur px \<and> length px = 16 \<and> length psm = 16 \<and> take (length (small_code h cur px)) psm = small_code h cur px"

lemma read_copy:
  assumes "copied h cur px psm" "iprev_x cx = px" "prev_small_mode cx = psm"
  defines "cx1 \<equiv> cx\<lparr>ptr := InSmall 1, ctrl_byte := small_ctrl cur h, in_repeat_mode := True\<rparr>"
  defines "cx2 \<equiv> cx1\<lparr>num_spans := length cur, iy0 := iprev_y1 cx, iy1 := iprev_y1 cx + of_nat h\<rparr>"
  shows "enter_repeat bytes cx = Some cx1" "read_lines bytes cx1 = Some cx2"
    "read_spans bytes (num_spans cx2) 0 cx2 = Some (cur, (pass (length cur) cx2)\<lparr>iprev_x := keep px cur\<rparr>)"
proof -
  have ok: "small_ok h cur px" "length px = 16" "length psm = 16" "take (length (small_code h cur px)) psm = small_code h cur px"
    using assms(1) by (simp_all add: copied_def)
  have psm: "psm = small_ctrl cur h # map2 adj_byte cur px @ drop (length (small_code h cur px)) psm"
    using ok(4) by (metis append_Cons append_take_drop_id small_code_def)
  have "upcoming bytes (cx\<lparr>ptr := InSmall 0\<rparr>) = psm" using assms(3) by (simp add: upcoming_def)
  then have "next_byte bytes (cx\<lparr>ptr := InSmall 0\<rparr>) = Some (small_ctrl cur h, pass 1 (cx\<lparr>ptr := InSmall 0\<rparr>))"
    by (intro next_byte_upcoming) (rule trans, assumption, rule psm)
  then show "enter_repeat bytes cx = Some cx1" by (simp add: enter_repeat_def cx1_def pass_def)
  have up: "upcoming bytes cx1 = map2 adj_byte cur px @ drop (length (small_code h cur px)) psm"
    using assms(3) psm by (simp add: cx1_def upcoming_def drop_Suc) (metis list.sel(3))
  have c: "ctrl_byte cx1 = small_ctrl cur h" "iprev_x cx1 = px" "iprev_y1 cx1 = iprev_y1 cx" using assms(2) by (simp_all add: cx1_def)
  note b = small_body [OF ok(1) c(1) up c(2) ok(2)]
  show "read_lines bytes cx1 = Some cx2" using b(1) c(3) by (simp add: cx2_def)
  show "read_spans bytes (num_spans cx2) 0 cx2 = Some (cur, (pass (length cur) cx2)\<lparr>iprev_x := keep px cur\<rparr>)"
    using b(2) c(3) by (simp add: cx2_def)
qed

lemma dec_copy:
  assumes "copied h cur px psm" "iprev_x cx0 = px" "prev_small_mode cx0 = psm" "read_control bytes cx = enter_repeat bytes cx0"
    "start_ptr cx0 = InData s" "iprev_y1 cx0 = y"
  shows "\<exists>cx'. dec_band bytes cx = Some ((y, y + of_nat h, cur), cx') \<and> span_j cx' = 0 \<and> iprev_y1 cx' = y + of_nat h \<and>
    iprev_x cx' = keep px cur \<and> prev_small_mode cx' = psm \<and> num_repeats cx' = num_repeats cx0 \<and> \<not> done_band_callback cx' \<and>
    band_i cx' = band_i cx0 + 1 \<and> used0x7E cx' = (used0x7E cx0 \<and> num_repeats cx0 \<noteq> 0) \<and>
    ptr cx' = InData (if num_repeats cx0 \<noteq> 0 then s else if used0x7E cx0 then s + 2 else s + 1)"
  unfolding dec_band_def assms(4) read_copy(1) [OF assms(1-3)] bind.bind_lunit read_copy(2,3) [OF assms(1-3)]
  using assms(3,5,6) by (simp add: leave_band_def)

lemma dec_repeat:
  assumes "at_band pos 0 False y px psm cx" "drop pos bytes = 0x7F # r" "copied h cur px psm"
  shows "\<exists>cx'. dec_band bytes cx = Some ((y, y + of_nat h, cur), cx') \<and>
    at_band (pos + 1) 0 False (y + of_nat h) (keep px cur) psm cx' \<and> band_i cx' = band_i cx + 1"
proof -
  have 0: "ptr cx = InData pos" "iprev_x cx = px" "length px = 16" "iprev_y1 cx = y" "prev_small_mode cx = psm" "num_repeats cx = 0"
    using assms(1) by (simp_all add: at_band_def)
  define cx0 where "cx0 = (pass 1 cx)\<lparr>start_ptr := InData pos, ctrl_byte := 0x7F, icompact_spans := False, compact_top := 0, in_repeat_mode := False\<rparr>"
  have f: "iprev_x cx0 = px" "prev_small_mode cx0 = psm" by (simp_all add: cx0_def 0)
  have "next_byte bytes cx = Some (0x7F, pass 1 cx)" using assms(2) 0 by (intro next_byte_upcoming) (simp add: upcoming_data)
  then have "read_control bytes cx = enter_repeat bytes cx0" by (simp add: read_control_def 0 cx0_def)
  then show ?thesis
    using dec_copy [OF assms(3) f, of bytes cx pos y] assms(1) by (auto simp: cx0_def at_band_def)
qed

lemma dec_run_start:
  assumes "at_band pos 0 False y px psm cx" "drop pos bytes = 0x7E # n # r" "copied h cur px psm"
  shows "\<exists>cx'. dec_band bytes cx = Some ((y, y + of_nat h, cur), cx') \<and>
    at_band pos (unat n + 1) True (y + of_nat h) (keep px cur) psm cx' \<and> band_i cx' = band_i cx + 1"
proof -
  have 0: "ptr cx = InData pos" "iprev_x cx = px" "length px = 16" "iprev_y1 cx = y" "prev_small_mode cx = psm" "num_repeats cx = 0"
    using assms(1) by (simp_all add: at_band_def)
  define cx0 where "cx0 = (pass 1 cx)\<lparr>start_ptr := InData pos, ctrl_byte := 0x7E, icompact_spans := False, compact_top := 0, in_repeat_mode := False\<rparr>"
  define cx1 where "cx1 = (pass 1 cx0)\<lparr>used0x7E := True, num_repeats := unat n + 1\<rparr>"
  have f: "iprev_x cx1 = px" "prev_small_mode cx1 = psm" by (simp_all add: cx1_def cx0_def 0)
  have "next_byte bytes cx = Some (0x7E, pass 1 cx)" using assms(2) 0 by (intro next_byte_upcoming) (simp add: upcoming_data)
  moreover have "upcoming bytes cx0 = n # r" using assms(2) 0 by (simp add: cx0_def upcoming_data)
  then have "next_byte bytes cx0 = Some (n, pass 1 cx0)" by (rule next_byte_upcoming)
  ultimately have "read_control bytes cx = enter_repeat bytes cx1" by (simp add: read_control_def 0 cx0_def cx1_def)
  then show ?thesis
    using dec_copy [OF assms(3) f, of bytes cx pos y] assms(1) by (auto simp: cx1_def cx0_def at_band_def)
qed

lemma dec_run_next:
  assumes "at_band pos (Suc k) True y px psm cx" "drop pos bytes = b # r" "copied h cur px psm"
  shows "\<exists>cx'. dec_band bytes cx = Some ((y, y + of_nat h, cur), cx') \<and>
    at_band (if k = 0 then pos + 2 else pos) k (k \<noteq> 0) (y + of_nat h) (keep px cur) psm cx' \<and> band_i cx' = band_i cx + 1"
proof -
  have 0: "ptr cx = InData pos" "iprev_x cx = px" "length px = 16" "iprev_y1 cx = y" "prev_small_mode cx = psm" "num_repeats cx = Suc k"
    using assms(1) by (simp_all add: at_band_def)
  define cx0 where "cx0 = (pass 1 cx)\<lparr>start_ptr := InData pos, ctrl_byte := b, icompact_spans := False, compact_top := 0,
    in_repeat_mode := False, num_repeats := k\<rparr>"
  have f: "iprev_x cx0 = px" "prev_small_mode cx0 = psm" by (simp_all add: cx0_def 0)
  have "next_byte bytes cx = Some (b, pass 1 cx)" using assms(2) 0 by (intro next_byte_upcoming) (simp add: upcoming_data)
  then have "read_control bytes cx = enter_repeat bytes cx0" by (simp add: read_control_def 0 cx0_def)
  then show ?thesis
    using dec_copy [OF assms(3) f, of bytes cx pos y] assms(1) by (auto simp: cx0_def at_band_def)
qed

end
