(* ===== verification/RegionCodec.thy ===== *)
theory RegionCodec
  imports RegionDecode
begin

unbundle bit_operations_syntax

text \<open>
  Regions survive being encoded: what \<^verbatim>\<open>AddScanline\<close> writes for a sequence of lines, \<^verbatim>\<open>IterateRegion\<close> reads
  back, band by band. The number of repetitions is written over as it grows, so the bytes written so far
  fall into a settled part and a run of repeated bands at their end.
\<close>

section \<open>Sequences of bands\<close>

fun dec_bands :: "u8 list \<Rightarrow> nat \<Rightarrow> region_iteration_context \<Rightarrow> (band list \<times> region_iteration_context) option" where
  "dec_bands bytes 0 cx = Some ([], cx)"
| "dec_bands bytes (Suc n) cx =
     do { (b, cx) \<leftarrow> dec_band bytes cx;
          (bs, cx) \<leftarrow> dec_bands bytes n cx;
          Some (b # bs, cx) }"

lemma dec_bands_append:
  "\<lbrakk>dec_bands bytes m cx = Some (as, cx'); dec_bands bytes n cx' = Some (bs, cx'')\<rbrakk> \<Longrightarrow> dec_bands bytes (m + n) cx = Some (as @ bs, cx'')"
  by (induction m arbitrary: cx as) (auto simp: bind_eq_Some_conv)

lemma dec_bands_1: "dec_band bytes cx = Some (b, cx') \<Longrightarrow> dec_bands bytes 1 cx = Some ([b], cx')"
  by simp

definition settled :: "region_iteration_context \<Rightarrow> u8 list \<Rightarrow> band list \<Rightarrow> u16 \<Rightarrow> spans \<Rightarrow> u8 list \<Rightarrow> bool" where
  "settled cx bs B y px psm \<longleftrightarrow> (\<forall>more. \<exists>cx'. dec_bands (bs @ more) (length B) cx = Some (B, cx') \<and>
     at_band (length bs) 0 False y px psm cx' \<and> band_i cx' = band_i cx + length B)"

lemma settled_add:
  assumes "settled cx bs B y px psm"
    "\<And>cx' bytes r. \<lbrakk>at_band (length bs) 0 False y px psm cx'; drop (length bs) bytes = code @ r\<rbrakk> \<Longrightarrow>
       \<exists>cx''. dec_band bytes cx' = Some (b, cx'') \<and> at_band (length bs + length code) 0 False y' px' psm' cx'' \<and>
         band_i cx'' = band_i cx' + 1"
  shows "settled cx (bs @ code) (B @ [b]) y' px' psm'"
  unfolding settled_def
proof
  fix more
  obtain cx' where 1: "dec_bands (bs @ code @ more) (length B) cx = Some (B, cx')" "at_band (length bs) 0 False y px psm cx'"
    "band_i cx' = band_i cx + length B"
    using assms(1) unfolding settled_def by metis
  obtain cx'' where 2: "dec_band (bs @ code @ more) cx' = Some (b, cx'')" "at_band (length bs + length code) 0 False y' px' psm' cx''"
    "band_i cx'' = band_i cx' + 1"
    using assms(2) [OF 1(2), of "bs @ code @ more" more] by auto
  show "\<exists>cx'. dec_bands ((bs @ code) @ more) (length (B @ [b])) cx = Some (B @ [b], cx') \<and>
      at_band (length (bs @ code)) 0 False y' px' psm' cx' \<and> band_i cx' = band_i cx + length (B @ [b])"
    using dec_bands_append [OF 1(1) dec_bands_1 [OF 2(1)]] 2(2,3) 1(3) by auto
qed

section \<open>Runs of repeated bands\<close>

definition tail :: "nat \<Rightarrow> u8 list" where
  "tail c = (if c = 0 then [] else if c = 1 then [0x7F] else [0x7E, of_nat (c - 2)])"

fun replays :: "band list \<Rightarrow> u16 \<Rightarrow> spans \<Rightarrow> u8 list \<Rightarrow> u16 \<Rightarrow> spans \<Rightarrow> bool" where
  "replays [] y px psm y' px' \<longleftrightarrow> y' = y \<and> px' = px"
| "replays ((a, b, cur) # L) y px psm y' px' \<longleftrightarrow>
     (\<exists>h. copied h cur px psm \<and> a = y \<and> b = y + of_nat h \<and> replays L b (keep px cur) psm y' px')"

lemma replays_snoc:
  assumes "replays L y px psm y' px'" "copied h cur px' psm"
  shows "replays (L @ [(y', y' + of_nat h, cur)]) y px psm (y' + of_nat h) (keep px' cur)"
  using assms by (induction L y px psm y' px' rule: replays.induct) auto

lemma run_goes_on:
  assumes "at_band pos (length L) True y px psm cx" "drop pos bytes = b # r" "replays L y px psm y' px'" "L \<noteq> []"
  shows "\<exists>cx'. dec_bands bytes (length L) cx = Some (L, cx') \<and> at_band (pos + 2) 0 False y' px' psm cx' \<and>
    band_i cx' = band_i cx + length L"
  using assms
proof (induction L arbitrary: y px cx)
  case (Cons x L)
  obtain cur h where x: "x = (y, y + of_nat h, cur)" "copied h cur px psm" "replays L (y + of_nat h) (keep px cur) psm y' px'"
    using Cons.prems(3) by (cases x) auto
  obtain cx1 where 1: "dec_band bytes cx = Some (x, cx1)" "band_i cx1 = band_i cx + 1"
    "at_band (if length L = 0 then pos + 2 else pos) (length L) (length L \<noteq> 0) (y + of_nat h) (keep px cur) psm cx1"
    using dec_run_next [of pos "length L" y px psm cx bytes b r h cur] Cons.prems(1,2) x by auto
  show ?case
  proof (cases "L = []")
    case True
    then show ?thesis using 1 x(3) by simp
  next
    case False
    then obtain cx2 where "dec_bands bytes (length L) cx1 = Some (L, cx2)" "at_band (pos + 2) 0 False y' px' psm cx2"
      "band_i cx2 = band_i cx1 + length L"
      using Cons.IH [OF _ Cons.prems(2) x(3) False, of cx1] 1(3) by auto
    then show ?thesis using 1 by simp
  qed
qed simp

lemma dec_tail:
  assumes "at_band pos 0 False y px psm cx" "drop pos bytes = tail (length L) @ r" "replays L y px psm y' px'" "length L \<le> 257"
  shows "\<exists>cx'. dec_bands bytes (length L) cx = Some (L, cx') \<and> at_band (pos + length (tail (length L))) 0 False y' px' psm cx' \<and>
    band_i cx' = band_i cx + length L"
proof (cases L)
  case Nil
  then show ?thesis using assms by (simp add: tail_def)
next
  case (Cons x L')
  obtain cur h where x: "x = (y, y + of_nat h, cur)" "copied h cur px psm" "replays L' (y + of_nat h) (keep px cur) psm y' px'"
    using assms(3) Cons by (cases x) auto
  show ?thesis
  proof (cases "L' = []")
    case True
    then obtain cx1 where "dec_band bytes cx = Some (x, cx1)" "at_band (pos + 1) 0 False (y + of_nat h) (keep px cur) psm cx1"
      "band_i cx1 = band_i cx + 1"
      using dec_repeat [OF assms(1) _ x(2), of bytes r] assms(2) Cons x(1) by (auto simp: tail_def)
    then show ?thesis using Cons True x(3) by (simp add: tail_def)
  next
    case False
    let ?n = "of_nat (length L - 2) :: u8"
    have n: "unat ?n + 1 = length L'" using Cons False assms(4) by (simp add: unat_of_nat Suc_diff_Suc)
    have d: "drop pos bytes = 0x7E # ?n # r" using assms(2) Cons False by (simp add: tail_def)
    obtain cx1 where 1: "dec_band bytes cx = Some (x, cx1)" "band_i cx1 = band_i cx + 1"
      "at_band pos (length L') True (y + of_nat h) (keep px cur) psm cx1"
      using dec_run_start [OF assms(1) d x(2)] x(1) n by auto
    obtain cx2 where "dec_bands bytes (length L') cx1 = Some (L', cx2)" "at_band (pos + 2) 0 False y' px' psm cx2"
      "band_i cx2 = band_i cx1 + length L'"
      using run_goes_on [OF 1(3) d x(3) False] by blast
    then show ?thesis using Cons 1 False by (simp add: tail_def)
  qed
qed

definition enc :: "region_iteration_context \<Rightarrow> u8 list \<Rightarrow> band list \<Rightarrow> nat \<Rightarrow> u16 \<Rightarrow> spans \<Rightarrow> u8 list \<Rightarrow> bool" where
  "enc cx bs B c y px psm \<longleftrightarrow> (\<exists>bs0 B0 L y0 px0. bs = bs0 @ tail c \<and> B = B0 @ L \<and> length L = c \<and>
     settled cx bs0 B0 y0 px0 psm \<and> replays L y0 px0 psm y px)"

lemma enc_0: "enc cx bs B 0 y px psm \<longleftrightarrow> settled cx bs B y px psm"
  by (auto simp: enc_def tail_def)

lemma enc_settled:
  assumes "enc cx bs B c y px psm" "c \<le> 257"
  shows "settled cx bs B y px psm"
proof -
  obtain bs0 B0 L y0 px0 where e: "bs = bs0 @ tail c" "B = B0 @ L" "length L = c" "settled cx bs0 B0 y0 px0 psm" "replays L y0 px0 psm y px"
    using assms(1) by (auto simp: enc_def)
  show ?thesis unfolding settled_def
  proof
    fix more
    obtain cx' where 1: "dec_bands (bs0 @ tail c @ more) (length B0) cx = Some (B0, cx')" "at_band (length bs0) 0 False y0 px0 psm cx'"
      "band_i cx' = band_i cx + length B0" using e(4) unfolding settled_def by metis
    obtain cx'' where 2: "dec_bands (bs0 @ tail c @ more) (length L) cx' = Some (L, cx'')"
      "at_band (length bs0 + length (tail (length L))) 0 False y px psm cx''" "band_i cx'' = band_i cx' + length L"
      using dec_tail [OF 1(2) _ e(5), of "bs0 @ tail c @ more" more] e(3) assms(2) by auto
    show "\<exists>cx'. dec_bands (bs @ more) (length B) cx = Some (B, cx') \<and> at_band (length bs) 0 False y px psm cx' \<and>
        band_i cx' = band_i cx + length B"
      using dec_bands_append [OF 1(1) 2(1)] 2(2,3) 1(3) e(1-3) by auto
  qed
qed

lemma enc_repeat:
  assumes "enc cx bs B c y px psm" "copied h cur px psm"
  shows "enc cx (if c = 0 then bs @ [0x7F] else if c = 1 then (butlast bs @ [0x7E]) @ [0] else butlast bs @ [of_nat (c - 1)])
    (B @ [(y, y + of_nat h, cur)]) (c + 1) (y + of_nat h) (keep px cur) psm"
proof -
  obtain bs0 B0 L y0 px0 where e: "bs = bs0 @ tail c" "B = B0 @ L" "length L = c" "settled cx bs0 B0 y0 px0 psm" "replays L y0 px0 psm y px"
    using assms(1) by (auto simp: enc_def)
  have "(if c = 0 then bs @ [0x7F] else if c = 1 then (butlast bs @ [0x7E]) @ [0] else butlast bs @ [of_nat (c - 1)]) = bs0 @ tail (c + 1)"
    using e(1) by (auto simp: tail_def butlast_append)
  then show ?thesis unfolding enc_def using e replays_snoc [OF e(5) assms(2)]
    by (intro exI [of _ bs0] exI [of _ B0] exI [of _ "L @ [(y, y + of_nat h, cur)]"] exI [of _ y0] exI [of _ px0]) auto
qed

section \<open>Memory\<close>

lemma grow_alloc_spec:
  assumes "0 < a" "unat a \<le> 2 ^ 31" "unat used < 2 ^ 30"
  shows "\<exists>b. grow_alloc used a = Some b \<and> used < b \<and> a \<le> b \<and> unat b \<le> 2 ^ 31"
  using assms(1,2)
proof (induction "2 ^ 31 - unat a" arbitrary: a rule: less_induct)
  case less
  show ?case
  proof (cases "a \<le> used")
    case False
    then show ?thesis using less.prems by (subst grow_alloc.simps) (auto simp: not_le)
  next
    case True
    define a' where "a' = (if a < 512 then a * 2 else if a AND push_bit 1 a = 0 then a + drop_bit 1 a else a div 3 * 4)"
    have a: "unat a < 2 ^ 30" "0 < unat a" using True assms(3) less.prems(1) by (simp_all add: word_le_nat_alt word_less_nat_alt)
    have d: "unat (drop_bit 1 a) = unat a div 2" by (simp add: drop_bit_eq_div unat_div)
    have d1: "unat (a + drop_bit 1 a) = unat a + unat a div 2" using a by (simp only: unat_word_ariths d) simp
    have "unat a' = (if unat a < 512 then unat a * 2 else if a AND push_bit 1 a = 0 then unat a + unat a div 2 else unat a div 3 * 4)"
      using a d1 by (auto simp: a'_def word_less_nat_alt unat_word_ariths(2) unat_div)
    then have a': "unat a < unat a'" "unat a' \<le> 2 ^ 31" using a by auto
    have "2 ^ 31 - unat a' < 2 ^ 31 - unat a" "0 < a'" using a a' by (simp_all add: word_less_nat_alt)
    from less.hyps [OF this a'(2)] obtain b where "grow_alloc used a' = Some b" "used < b" "a' \<le> b" "unat b \<le> 2 ^ 31"
      by blast
    moreover have "grow_alloc used a = grow_alloc used a'" using True by (subst grow_alloc.simps) (simp add: a'_def Let_def)
    moreover have "a \<le> a'" using a'(1) by (simp add: word_le_nat_alt)
    ultimately show ?thesis by (metis order_trans)
  qed
qed

definition mem_ok :: "region \<Rightarrow> region_data \<Rightarrow> bool" where
  "mem_ok rgn d \<longleftrightarrow> rdata rgn = Some d \<and> used_length rgn = of_nat (HEADER + length (band_data d)) \<and>
     HEADER + length (band_data d) < unat (allocated_length rgn) \<and> unat (allocated_length rgn) \<le> 2 ^ 31"

text \<open>There is room for what is written next, or no memory.\<close>

lemma ExpandToFit_ok:
  assumes "mem_ok rgn d" "HEADER + length (band_data d) + n < 2 ^ 30"
  shows "(\<exists>rgn'. ExpandToFit rgn n mem = Some (None, rgn') \<and> rdata rgn' = Some d \<and>
      used_length rgn' = of_nat (HEADER + length (band_data d) + n) \<and>
      HEADER + length (band_data d) + n < unat (allocated_length rgn') \<and> unat (allocated_length rgn') \<le> 2 ^ 31) \<or>
    (\<not> mem \<and> ExpandToFit rgn n mem = Some (Some ENOMEM, rgn))"
proof -
  let ?u = "of_nat (HEADER + length (band_data d) + n) :: u32"
  have u: "unat ?u = HEADER + length (band_data d) + n" using assms(2) unfolding unat_of_nat by simp
  have eq: "used_length rgn + of_nat n = ?u" using assms(1) by (simp add: mem_ok_def)
  have "0 < allocated_length rgn" "unat (allocated_length rgn) \<le> 2 ^ 31" using assms(1) by (auto simp: mem_ok_def word_less_nat_alt)
  from grow_alloc_spec [OF this, of ?u] obtain b where
    "grow_alloc ?u (allocated_length rgn) = Some b" "?u < b" "unat b \<le> 2 ^ 31" using u assms(2) by auto
  then show ?thesis using u assms(1) by (auto simp: ExpandToFit_def Let_def eq mem_ok_def word_less_nat_alt)
qed

lemma emit_ok:
  "\<lbrakk>rdata rgn = Some d; HEADER + length (band_data d) + length bs \<le> unat (allocated_length rgn)\<rbrakk> \<Longrightarrow>
   emit bs rgn = Some (rgn\<lparr>rdata := Some (d\<lparr>band_data := band_data d @ bs\<rparr>)\<rparr>)"
  by (simp add: emit_def)

lemma emit3:
  assumes "rdata rgn = Some d" "code = a @ b @ c" "HEADER + length (band_data d) + length code < unat (allocated_length rgn)"
  shows "do { rgn \<leftarrow> emit a rgn; rgn \<leftarrow> emit b rgn; rgn \<leftarrow> emit c rgn; k rgn } =
    k (rgn\<lparr>rdata := Some (d\<lparr>band_data := band_data d @ code\<rparr>)\<rparr>)"
  using assms by (simp add: emit_def)

lemma emit4:
  assumes "rdata rgn = Some d" "code = a @ b @ c @ e" "HEADER + length (band_data d) + length code < unat (allocated_length rgn)"
  shows "do { rgn \<leftarrow> emit a rgn; rgn \<leftarrow> emit b rgn; rgn \<leftarrow> emit c rgn; rgn \<leftarrow> emit e rgn; k rgn } =
    k (rgn\<lparr>rdata := Some (d\<lparr>band_data := band_data d @ code\<rparr>)\<rparr>)"
  using assms by (simp add: emit_def)

section \<open>Encoding one band\<close>

text \<open>What the builder remembers of the bands it has written agrees with what the decoder will know.\<close>

definition agrees :: "region_build_context \<Rightarrow> band list \<Rightarrow> u16 \<Rightarrow> spans \<Rightarrow> u8 list \<Rightarrow> bool" where
  "agrees ctxt B y px psm \<longleftrightarrow> length (prev_x ctxt) = 16 \<and> length px = 16 \<and> length psm = 16 \<and>
     (B \<noteq> [] \<longrightarrow> prev_spans ctxt \<noteq> 0 \<longrightarrow> y = prev_y1 ctxt \<and> take (min 16 (prev_spans ctxt)) px = take (min 16 (prev_spans ctxt)) (prev_x ctxt)) \<and>
     take (length (prev_small_output ctxt)) psm = prev_small_output ctxt"

definition binv :: "region_iteration_context \<Rightarrow> region \<Rightarrow> region_build_context \<Rightarrow> band list \<Rightarrow> bool" where
  "binv cx rgn ctxt B \<longleftrightarrow> (\<exists>d y px psm. mem_ok rgn d \<and> num_bands d = of_nat (length B) \<and> trans_x d = 0 \<and> trans_y d = 0 \<and>
     enc cx (band_data d) B (count0x7F ctxt) y px psm \<and> count0x7F ctxt \<le> 256 \<and> agrees ctxt B y px psm)"

definition size_of :: "region \<Rightarrow> nat" where
  "size_of rgn = (case rdata rgn of None \<Rightarrow> 0 | Some d \<Rightarrow> HEADER + length (band_data d))"

lemma full_code_length: "length (full_code y h cur) = 6 + 4 * length cur"
  by (simp add: full_code_def)

lemma compact_code_length: "length (compact_code y cur) = 3 + length cur * (if compact_spans cur then 2 else 4) + (if compact_spans cur then 1 else 0)"
  by (simp add: compact_code_def)

text \<open>
  One band in regular mode. The band count is not changed yet, and the context only forgets its repetitions.
\<close>

lemma encode_regular_spec:
  assumes "mem_ok rgn d" "enc cx (band_data d) B (count0x7F ctxt) y px psm" "count0x7F ctxt \<le> 256"
    "HEADER + length (band_data d) + 6 + 4 * length cur < 2 ^ 30" "length cur < 16384" "cur \<noteq> []" "1 \<le> current_height ctxt"
  shows "(\<exists>rgn' d'. encode_regular rgn ctxt cur mem = Some (None, rgn', ctxt\<lparr>count0x7F := 0\<rparr>) \<and> mem_ok rgn' d' \<and>
      num_bands d' = num_bands d \<and> trans_x d' = trans_x d \<and> trans_y d' = trans_y d \<and>
      length (band_data d') \<le> length (band_data d) + 6 + 4 * length cur \<and>
      settled cx (band_data d') (B @ [(prev_y1 ctxt, prev_y1 ctxt + of_nat (current_height ctxt), cur)])
        (prev_y1 ctxt + of_nat (current_height ctxt)) (keep px cur) psm) \<or>
    (\<not> mem \<and> encode_regular rgn ctxt cur mem = Some (Some ENOMEM, rgn, ctxt\<lparr>count0x7F := 0\<rparr>))"
proof -
  let ?h = "current_height ctxt" and ?y = "prev_y1 ctxt"
  have S: "settled cx (band_data d) B y px psm" using enc_settled [OF assms(2)] assms(3) by simp
  have r: "rdata rgn = Some d" using assms(1) by (simp add: mem_ok_def)
  show ?thesis
  proof (cases "length cur \<le> 0x1F \<and> ?h = 1 \<and> num_bands d \<noteq> 0")
    case True
    let ?code = "compact_code ?y cur"
    have S': "settled cx (band_data d @ ?code) (B @ [(?y, ?y + of_nat ?h, cur)]) (?y + of_nat ?h) (keep px cur) psm"
    proof (rule settled_add [OF S])
      fix cx' bytes r assume "at_band (length (band_data d)) 0 False y px psm cx'" "drop (length (band_data d)) bytes = ?code @ r"
      from dec_compact [OF this] show "\<exists>cx''. dec_band bytes cx' = Some ((?y, ?y + of_nat ?h, cur), cx'') \<and>
          at_band (length (band_data d) + length ?code) 0 False (?y + of_nat ?h) (keep px cur) psm cx'' \<and> band_i cx'' = band_i cx' + 1"
        using True assms(6) by simp
    qed
    have len: "length ?code = 3 + length cur * (if compact_spans cur then 2 else 4) + (if compact_spans cur then 1 else 0)" by (rule compact_code_length)
    have x: "encode_regular rgn ctxt cur mem = do { (e, rgn) \<leftarrow> ExpandToFit rgn (length ?code) mem;
        if e \<noteq> None then Some (e, rgn, ctxt\<lparr>count0x7F := 0\<rparr>) else do {
          rgn \<leftarrow> emit [0x80 OR (if compact_spans cur then 0x20 else 0) OR (of_nat (length cur) AND 0x1F)] rgn;
          rgn \<leftarrow> emit (le16 ?y) rgn;
          rgn \<leftarrow> emit (if compact_spans cur then hi8 (fst (hd cur)) # concat (map (\<lambda>(x0, x1). [lo8 x0, lo8 x1]) cur)
             else concat (map (\<lambda>(x0, x1). le16 x0 @ le16 x1) cur)) rgn;
          Some (None, rgn, ctxt\<lparr>count0x7F := 0\<rparr>) } }"
      using True assms(6) by (simp add: encode_regular_def Let_def r compact_code_length cong: if_cong)
    have "HEADER + length (band_data d) + length ?code < 2 ^ 30" using assms(4) by (simp add: compact_code_length)
    from ExpandToFit_ok [OF assms(1) this, of mem] show ?thesis
    proof (elim disjE exE conjE)
      fix rgn' assume E: "ExpandToFit rgn (length ?code) mem = Some (None, rgn')" "rdata rgn' = Some d"
        "used_length rgn' = of_nat (HEADER + length (band_data d) + length ?code)"
        "HEADER + length (band_data d) + length ?code < unat (allocated_length rgn')" "unat (allocated_length rgn') \<le> 2 ^ 31"
      define rgn'' where "rgn'' = rgn'\<lparr>rdata := Some (d\<lparr>band_data := band_data d @ ?code\<rparr>)\<rparr>"
      have "?code = [0x80 OR (if compact_spans cur then 0x20 else 0) OR (of_nat (length cur) AND 0x1F)] @ le16 ?y @
          (if compact_spans cur then hi8 (fst (hd cur)) # concat (map (\<lambda>(x0, x1). [lo8 x0, lo8 x1]) cur)
           else concat (map (\<lambda>(x0, x1). le16 x0 @ le16 x1) cur))"
        by (simp add: compact_code_def bytes_of_spans_def words_of_def)
      note em = emit3 [OF E(2) this E(4)]
      have "encode_regular rgn ctxt cur mem = Some (None, rgn'', ctxt\<lparr>count0x7F := 0\<rparr>)"
        unfolding x E(1) bind.bind_lunit prod.case em by (simp add: rgn''_def)
      moreover have "mem_ok rgn'' (d\<lparr>band_data := band_data d @ ?code\<rparr>)" using E by (simp add: mem_ok_def rgn''_def)
      ultimately show ?thesis using S' len by (intro disjI1 exI [of _ rgn''] exI [of _ "d\<lparr>band_data := band_data d @ ?code\<rparr>"]) auto
    next
      assume "\<not> mem" "ExpandToFit rgn (length ?code) mem = Some (Some ENOMEM, rgn)"
      then show ?thesis unfolding x by simp
    qed
  next
    case False
    let ?code = "full_code ?y ?h cur"
    have S': "settled cx (band_data d @ ?code) (B @ [(?y, ?y + of_nat ?h, cur)]) (?y + of_nat ?h) (keep px cur) psm"
      by (rule settled_add [OF S]) (rule dec_full [OF _ _ assms(5)])
    have len: "length ?code = 6 + length cur * 4" by (simp add: full_code_length)
    have x: "encode_regular rgn ctxt cur mem = do { (e, rgn) \<leftarrow> ExpandToFit rgn (length ?code) mem;
        if e \<noteq> None then Some (e, rgn, ctxt\<lparr>count0x7F := 0\<rparr>) else do {
          rgn \<leftarrow> emit [0x80 OR 0x40 OR (of_nat (length cur) AND 0x3F), of_nat (drop_bit 6 (length cur) AND 0xFF)] rgn;
          rgn \<leftarrow> emit (le16 ?y) rgn;
          rgn \<leftarrow> emit (le16 (?y + of_nat ?h)) rgn;
          rgn \<leftarrow> emit (concat (map (\<lambda>(x0, x1). le16 x0 @ le16 x1) cur)) rgn;
          Some (None, rgn, ctxt\<lparr>count0x7F := 0\<rparr>) } }"
      using False assms(6) by (auto simp: encode_regular_def Let_def r full_code_length mult.commute cong: if_cong)
    have "HEADER + length (band_data d) + length ?code < 2 ^ 30" using assms(4) by (simp add: full_code_length)
    from ExpandToFit_ok [OF assms(1) this, of mem] show ?thesis
    proof (elim disjE exE conjE)
      fix rgn' assume E: "ExpandToFit rgn (length ?code) mem = Some (None, rgn')" "rdata rgn' = Some d"
        "used_length rgn' = of_nat (HEADER + length (band_data d) + length ?code)"
        "HEADER + length (band_data d) + length ?code < unat (allocated_length rgn')" "unat (allocated_length rgn') \<le> 2 ^ 31"
      define rgn'' where "rgn'' = rgn'\<lparr>rdata := Some (d\<lparr>band_data := band_data d @ ?code\<rparr>)\<rparr>"
      have "?code = [0x80 OR 0x40 OR (of_nat (length cur) AND 0x3F), of_nat (drop_bit 6 (length cur) AND 0xFF)] @
          le16 ?y @ le16 (?y + of_nat ?h) @ concat (map (\<lambda>(x0, x1). le16 x0 @ le16 x1) cur)"
        by (simp add: full_code_def words_of_def)
      note em = emit4 [OF E(2) this E(4)]
      have "encode_regular rgn ctxt cur mem = Some (None, rgn'', ctxt\<lparr>count0x7F := 0\<rparr>)"
        unfolding x E(1) bind.bind_lunit prod.case em by (simp add: rgn''_def)
      moreover have "mem_ok rgn'' (d\<lparr>band_data := band_data d @ ?code\<rparr>)" using E by (simp add: mem_ok_def rgn''_def)
      ultimately show ?thesis using S' len by (intro disjI1 exI [of _ rgn''] exI [of _ "d\<lparr>band_data := band_data d @ ?code\<rparr>"]) auto
    next
      assume "\<not> mem" "ExpandToFit rgn (length ?code) mem = Some (Some ENOMEM, rgn)"
      then show ?thesis unfolding x by simp
    qed
  qed
qed

text \<open>One band in small mode.\<close>

lemma small_okI:
  assumes "small_possible d ctxt cur" "1 \<le> current_height ctxt" "agrees ctxt B y px psm" "B \<noteq> []"
  shows "small_ok (current_height ctxt) cur px" "map2 adj_byte cur (prev_x ctxt) = map2 adj_byte cur px" "prev_y1 ctxt = y"
    "small_ctrl cur (current_height ctxt) # map2 adj_byte cur (prev_x ctxt) = small_code (current_height ctxt) cur px"
proof -
  have p: "length cur = prev_spans ctxt" "length cur \<noteq> 0" "length cur \<le> 15" using assms(1) unfolding small_possible_def by blast+
  have t: "take (length cur) px = take (length cur) (prev_x ctxt)" and y: "y = prev_y1 ctxt"
    using assms(3,4) p by (auto simp: agrees_def min_def)
  have "map2 adj_byte cur (take (length cur) zs) = map2 adj_byte cur zs" for zs
    by (rule nth_equalityI) auto
  then show m: "map2 adj_byte cur (prev_x ctxt) = map2 adj_byte cur px" by (metis t)
  then show "small_ctrl cur (current_height ctxt) # map2 adj_byte cur (prev_x ctxt) = small_code (current_height ctxt) cur px"
    by (simp add: small_code_def)
  show "prev_y1 ctxt = y" using y by simp
  show "small_ok (current_height ctxt) cur px"
    using assms(1,2) t by (auto simp: small_possible_def small_ok_def small_spans_def)
qed

lemma encode_small_spec:
  assumes "mem_ok rgn d" "enc cx (band_data d) B (count0x7F ctxt) y px psm" "count0x7F ctxt \<le> 256"
    "HEADER + length (band_data d) + 1 + length cur < 2 ^ 30" "small_possible d ctxt cur" "1 \<le> current_height ctxt"
    "agrees ctxt B y px psm" "B \<noteq> []"
  shows "(\<exists>rgn' d' c out psm'. encode_small rgn ctxt cur mem = Some (None, rgn', ctxt\<lparr>prev_small_output := out, count0x7F := c\<rparr>) \<and>
      mem_ok rgn' d' \<and> num_bands d' = num_bands d \<and> trans_x d' = trans_x d \<and> trans_y d' = trans_y d \<and>
      length (band_data d') \<le> length (band_data d) + 1 + length cur \<and> c \<le> 256 \<and> take (length out) psm' = out \<and> length psm' = 16 \<and>
      enc cx (band_data d') (B @ [(prev_y1 ctxt, prev_y1 ctxt + of_nat (current_height ctxt), cur)]) c
        (prev_y1 ctxt + of_nat (current_height ctxt)) (keep px cur) psm') \<or>
    (\<not> mem \<and> encode_small rgn ctxt cur mem = Some (Some ENOMEM, rgn, ctxt))"
proof -
  let ?h = "current_height ctxt" and ?c = "count0x7F ctxt" and ?code = "small_code (current_height ctxt) cur px"
  note so = small_okI [OF assms(5-8)]
  have r: "rdata rgn = Some d" using assms(1) by (simp add: mem_ok_def)
  have ag: "length px = 16" "length psm = 16" "take (length (prev_small_output ctxt)) psm = prev_small_output ctxt"
    using assms(7) by (simp_all add: agrees_def)
  have len: "length ?code = 1 + length cur" using so(1) ag(1) by (simp add: small_code_def small_ok_def)
  show ?thesis
  proof (cases "?code = prev_small_output ctxt")
    case False
    have x: "encode_small rgn ctxt cur mem = do { (e, rgn) \<leftarrow> ExpandToFit rgn (length ?code) mem;
        if e \<noteq> None then Some (e, rgn, ctxt)
        else do { rgn \<leftarrow> emit ?code rgn; Some (None, rgn, ctxt\<lparr>prev_small_output := ?code, count0x7F := 0\<rparr>) } }"
      unfolding encode_small_def Let_def so(4) using False len by simp
    let ?psm = "?code @ drop (length ?code) psm"
    have "settled cx (band_data d @ ?code) (B @ [(prev_y1 ctxt, prev_y1 ctxt + of_nat ?h, cur)]) (prev_y1 ctxt + of_nat ?h) (keep px cur) ?psm"
      unfolding so(3)
      by (rule settled_add [OF enc_settled [OF assms(2)]]) (use assms(3) in simp, rule dec_small [OF _ _ so(1)])
    then have S: "enc cx (band_data d @ ?code) (B @ [(prev_y1 ctxt, prev_y1 ctxt + of_nat ?h, cur)]) 0 (prev_y1 ctxt + of_nat ?h) (keep px cur) ?psm"
      by (simp add: enc_0)
    have "HEADER + length (band_data d) + length ?code < 2 ^ 30" using assms(4) len by simp
    from ExpandToFit_ok [OF assms(1) this, of mem] show ?thesis
    proof (elim disjE exE conjE)
      fix rgn' assume E: "ExpandToFit rgn (length ?code) mem = Some (None, rgn')" "rdata rgn' = Some d"
        "used_length rgn' = of_nat (HEADER + length (band_data d) + length ?code)"
        "HEADER + length (band_data d) + length ?code < unat (allocated_length rgn')" "unat (allocated_length rgn') \<le> 2 ^ 31"
      define d' where "d' = d\<lparr>band_data := band_data d @ ?code\<rparr>"
      define rgn'' where "rgn'' = rgn'\<lparr>rdata := Some d'\<rparr>"
      have "encode_small rgn ctxt cur mem = Some (None, rgn'', ctxt\<lparr>prev_small_output := ?code, count0x7F := 0\<rparr>)"
        unfolding x E(1) bind.bind_lunit prod.case using emit_ok [OF E(2), of ?code] E(4) by (simp add: rgn''_def d'_def)
      moreover have "mem_ok rgn'' d'" using E by (simp add: mem_ok_def rgn''_def d'_def)
      moreover have "length ?psm = 16" using len so(1) ag(2) by (simp add: small_ok_def)
      ultimately show ?thesis using S len
        by (intro disjI1 exI [of _ rgn''] exI [of _ d'] exI [of _ 0] exI [of _ ?code] exI [of _ ?psm]) (simp add: d'_def)
    next
      assume "\<not> mem" "ExpandToFit rgn (length ?code) mem = Some (Some ENOMEM, rgn)"
      then show ?thesis unfolding x by simp
    qed
  next
    case True
    have cp: "copied ?h cur px psm" using so(1) ag True by (simp add: copied_def)
    note R = enc_repeat [OF assms(2) cp, folded so(3)]
    have small_out: "ctxt\<lparr>prev_small_output := prev_small_output ctxt, count0x7F := c\<rparr> = ctxt\<lparr>count0x7F := c\<rparr>" for c by simp
    obtain bs0 where bs: "band_data d = bs0 @ tail ?c" using assms(2) by (auto simp: enc_def)
    define new where "new = (if ?c = 0 then band_data d @ [0x7F] else if ?c = 1 then (butlast (band_data d) @ [0x7E]) @ [0]
      else butlast (band_data d) @ [of_nat (?c - 1)])"
    define d' where "d' = d\<lparr>band_data := new\<rparr>"
    define c' where "c' = (if ?c = 256 then 0 else ?c + 1)"
    have S: "enc cx new (B @ [(prev_y1 ctxt, prev_y1 ctxt + of_nat ?h, cur)]) c' (prev_y1 ctxt + of_nat ?h) (keep px cur) psm"
    proof (cases "?c = 256")
      case True
      then show ?thesis using enc_settled [OF R] by (simp add: c'_def new_def enc_0)
    next
      case False
      then show ?thesis using R by (simp add: c'_def new_def)
    qed
    have c': "c' \<le> 256" using assms(3) by (simp add: c'_def)
    show ?thesis
    proof (cases "?c \<le> 1")
      case few: True
      have n: "HEADER + length (band_data d) + 1 < 2 ^ 30" using assms(4) by simp
      have nl: "length new = length (band_data d) + 1" using few bs by (auto simp: new_def tail_def)
      have x: "encode_small rgn ctxt cur mem = do { (e, rgn) \<leftarrow> ExpandToFit rgn 1 mem;
          if e \<noteq> None then Some (e, rgn, ctxt)
          else if ?c = 0 then do { rgn \<leftarrow> emit [0x7F] rgn; Some (None, rgn, ctxt\<lparr>count0x7F := 1\<rparr>) }
          else do { rgn \<leftarrow> overwrite_last 0x7E rgn; rgn \<leftarrow> emit [0] rgn; Some (None, rgn, ctxt\<lparr>count0x7F := 2\<rparr>) } }"
        unfolding encode_small_def Let_def so(4) using True few by (auto simp: le_Suc_eq cong: if_cong)
      from ExpandToFit_ok [OF assms(1) n, of mem] show ?thesis
      proof (elim disjE exE conjE)
        fix rgn' assume E: "ExpandToFit rgn 1 mem = Some (None, rgn')" "rdata rgn' = Some d"
          "used_length rgn' = of_nat (HEADER + length (band_data d) + 1)"
          "HEADER + length (band_data d) + 1 < unat (allocated_length rgn')" "unat (allocated_length rgn') \<le> 2 ^ 31"
        define rgn'' where "rgn'' = rgn'\<lparr>rdata := Some d'\<rparr>"
        have "encode_small rgn ctxt cur mem = Some (None, rgn'', ctxt\<lparr>count0x7F := c'\<rparr>)"
          unfolding x E(1) bind.bind_lunit prod.case using E(2,4) few bs
          by (auto simp: rgn''_def d'_def new_def c'_def emit_def overwrite_last_def tail_def le_Suc_eq)
        moreover have "mem_ok rgn'' d'" using E nl by (simp add: mem_ok_def rgn''_def d'_def)
        ultimately show ?thesis using S c' ag nl
          by (intro disjI1 exI [of _ rgn''] exI [of _ d'] exI [of _ c'] exI [of _ "prev_small_output ctxt"] exI [of _ psm])
            (simp add: d'_def)
      next
        assume "\<not> mem" "ExpandToFit rgn 1 mem = Some (Some ENOMEM, rgn)"
        then show ?thesis unfolding x by simp
      qed
    next
      case many: False
      define rgn'' where "rgn'' = rgn\<lparr>rdata := Some d'\<rparr>"
      have nl: "length new = length (band_data d)" using many bs by (auto simp: new_def tail_def)
      have "encode_small rgn ctxt cur mem = Some (None, rgn'', ctxt\<lparr>count0x7F := c'\<rparr>)"
        unfolding encode_small_def Let_def so(4) using True many r bs
        by (auto simp: rgn''_def d'_def new_def c'_def overwrite_last_def tail_def)
      moreover have "mem_ok rgn'' d'" using assms(1) nl by (simp add: mem_ok_def rgn''_def d'_def)
      ultimately show ?thesis using S c' ag nl
        by (intro disjI1 exI [of _ rgn''] exI [of _ d'] exI [of _ c'] exI [of _ "prev_small_output ctxt"] exI [of _ psm])
          (simp add: d'_def)
    qed
  qed
qed

section \<open>Lines\<close>

text \<open>What the lines from \<open>y\<close> on say: the lines of a band are equal and follow each other, and are at most 32000.\<close>

fun equal_lines :: "spans \<Rightarrow> spans list \<Rightarrow> nat" where
  "equal_lines l [] = 0"
| "equal_lines l (m # ls) = (if m = l then Suc (equal_lines l ls) else 0)"

function bands_from :: "u16 \<Rightarrow> spans list \<Rightarrow> band list" where
  "bands_from y [] = []"
| "bands_from y ([] # ls) = bands_from (y + 1) ls"
| "bands_from y ((x # xs) # ls) =
     (let h = min 32000 (Suc (equal_lines (x # xs) ls))
      in (y, y + of_nat h, x # xs) # bands_from (y + of_nat h) (drop (h - 1) ls))"
  by pat_completeness auto
termination by (relation "measure (\<lambda>(_, ls). length ls)") auto

lemma bands_from_gap: "bands_from y (replicate h [] @ ls) = bands_from (y + of_nat h) ls"
  by (induction h arbitrary: y) (simp_all add: add.assoc)

lemma equal_lines_replicate: "equal_lines l (replicate h l @ ls) = h + equal_lines l ls"
  by (induction h) simp_all

lemma bands_from_band:
  assumes "cur \<noteq> []" "1 \<le> h" "h \<le> 32000" "h = 32000 \<or> equal_lines cur ls = 0"
  shows "bands_from y (replicate h cur @ ls) = (y, y + of_nat h, cur) # bands_from (y + of_nat h) ls"
proof -
  obtain x xs where c: "cur = x # xs" using assms(1) by (cases cur) auto
  obtain k where h: "h = Suc k" using assms(2) by (cases h) auto
  have "min 32000 (Suc (equal_lines cur (replicate k cur @ ls))) = h" using assms(3,4) h by (auto simp: equal_lines_replicate)
  then show ?thesis using h by (simp add: c Let_def)
qed

text \<open>The call of the builder for each line; the flags say whether the line is said to be the same, and the memory there is.\<close>

fun add_lines :: "(spans \<times> bool \<times> bool \<times> bool) list \<Rightarrow> region \<Rightarrow> region_build_context \<Rightarrow>
    (errno option \<times> region \<times> region_build_context) option" where
  "add_lines [] rgn ctxt = Some (None, rgn, ctxt)"
| "add_lines ((xs, same, mem1, mem2) # ls) rgn ctxt =
     do { (e, rgn, ctxt) \<leftarrow> AddScanline rgn ctxt (Some xs) same mem1 mem2;
          if e \<noteq> None then Some (e, rgn, ctxt) else add_lines ls rgn ctxt }"

fun honest :: "spans option \<Rightarrow> (spans \<times> bool \<times> bool \<times> bool) list \<Rightarrow> bool" where
  "honest prev [] \<longleftrightarrow> True"
| "honest prev ((xs, same, mem1, mem2) # ls) \<longleftrightarrow> (same \<longrightarrow> prev = Some xs) \<and> honest (Some xs) ls"

definition cost :: "spans \<Rightarrow> nat" where
  "cost xs = 6 + 4 * length xs"

lemma band_step:
  assumes "binv cx rgn ctxt B" "current_points ctxt = Some cur" "1 \<le> current_height ctxt" "length cur < 16384"
    "size_of rgn + cost cur < 2 ^ 30" "Suc (length B) < 65536"
  shows "\<exists>(e :: errno option) rgn' ctxt'. do { d \<leftarrow> rdata rgn;
       (e, rgn, ctxt) \<leftarrow> (if small_possible d ctxt cur then encode_small rgn ctxt cur mem else encode_regular rgn ctxt cur mem);
       if e \<noteq> None then Some (e, rgn, ctxt)
       else do { let (rgn, ctxt) = done_encoding rgn ctxt cur; k rgn ctxt } } =
     (if e = None then k rgn' ctxt' else Some (Some ENOMEM, rgn', ctxt')) \<and>
     (e = None \<longrightarrow> size_of rgn' \<le> size_of rgn + cost cur \<and> current_points ctxt' = None \<and>
        prev_y1 ctxt' = prev_y1 ctxt + of_nat (current_height ctxt) \<and>
        binv cx rgn' ctxt' (if cur = [] then B else B @ [(prev_y1 ctxt, prev_y1 ctxt + of_nat (current_height ctxt), cur)])) \<and>
     (e \<noteq> None \<longrightarrow> \<not> mem)"
proof -
  let ?h = "current_height ctxt" and ?y = "prev_y1 ctxt"
  let ?B = "B @ [(?y, ?y + of_nat ?h, cur)]"
  obtain d y px psm where i: "mem_ok rgn d" "num_bands d = of_nat (length B)" "trans_x d = 0" "trans_y d = 0"
    "enc cx (band_data d) B (count0x7F ctxt) y px psm" "count0x7F ctxt \<le> 256" "agrees ctxt B y px psm"
    using assms(1) by (auto simp: binv_def)
  have r: "rdata rgn = Some d" using i(1) by (simp add: mem_ok_def)
  have size: "HEADER + length (band_data d) + 6 + 4 * length cur < 2 ^ 30" using assms(5) by (simp add: size_of_def r cost_def)
  have nb: "num_bands d = 0 \<longleftrightarrow> B = []"
    using i(2) assms(6) by (auto simp: word_unat_eq_iff unat_of_nat)
  have px: "length px = 16" "length (prev_x ctxt) = 16" "length psm = 16" using i(7) by (simp_all add: agrees_def)
  have keep_take: "take (min 16 (length cur)) (keep px cur) = take (min 16 (length cur)) (keep (prev_x ctxt) cur)"
    by (simp add: keep_def min.commute)
  have keep_16: "take 16 cur @ drop (min 16 (length cur)) zs = keep zs cur" for zs by (simp add: keep_def)
  text \<open>A band of either kind, and what \<open>done_encoding\<close> makes of it.\<close>
  have finish: ?thesis
    if E: "(if small_possible d ctxt cur then encode_small rgn ctxt cur mem else encode_regular rgn ctxt cur mem) =
        Some (None, rgn1, ctxt\<lparr>prev_small_output := out, count0x7F := c\<rparr>)"
      and M: "mem_ok rgn1 d1" "num_bands d1 = num_bands d" "trans_x d1 = trans_x d" "trans_y d1 = trans_y d"
      and L: "length (band_data d1) \<le> length (band_data d) + 6 + 4 * length cur"
      and S: "enc cx (band_data d1) ?B c (?y + of_nat ?h) (keep px cur) psm'" "c \<le> 256"
      and O: "take (length out) psm' = out" "length psm' = 16" and ne: "cur \<noteq> []"
    for rgn1 d1 out c psm'
  proof -
    define rgn2 where "rgn2 = rgn1\<lparr>rdata := Some (d1\<lparr>num_bands := num_bands d1 + 1\<rparr>)\<rparr>"
    define ctxt2 where "ctxt2 = ctxt\<lparr>prev_small_output := out, count0x7F := c, prev_x := keep (prev_x ctxt) cur,
      prev_y1 := ?y + of_nat ?h, prev_spans := length cur, current_points := None\<rparr>"
    have d: "done_encoding rgn1 (ctxt\<lparr>prev_small_output := out, count0x7F := c\<rparr>) cur = (rgn2, ctxt2)"
      using M(1) ne by (simp add: done_encoding_def rgn2_def ctxt2_def mem_ok_def keep_16)
    have "agrees ctxt2 ?B (?y + of_nat ?h) (keep px cur) psm'"
      using px O keep_take by (simp add: agrees_def ctxt2_def)
    moreover have "mem_ok rgn2 (d1\<lparr>num_bands := num_bands d1 + 1\<rparr>)" using M(1) by (simp add: mem_ok_def rgn2_def)
    ultimately have "binv cx rgn2 ctxt2 ?B"
      unfolding binv_def using M(2-4) i(2-4) S
      by (intro exI [of _ "d1\<lparr>num_bands := num_bands d1 + 1\<rparr>"] exI [of _ "?y + of_nat ?h"] exI [of _ "keep px cur"] exI [of _ psm'])
        (simp add: ctxt2_def)
    moreover have "size_of rgn2 \<le> size_of rgn + cost cur" using L by (simp add: size_of_def rgn2_def r cost_def)
    ultimately show ?thesis using ne
      by (intro exI [of _ None] exI [of _ rgn2] exI [of _ ctxt2]) (simp add: r E d ctxt2_def)
  qed
  show ?thesis
  proof (cases "cur = []")
    case True
    then have "\<not> small_possible d ctxt cur" by (simp add: small_possible_def)
    moreover have "encode_regular rgn ctxt [] mem = Some (None, rgn, ctxt\<lparr>count0x7F := 0\<rparr>)" by (simp add: encode_regular_def Let_def)
    moreover define ctxt2 where "ctxt2 = ctxt\<lparr>count0x7F := 0, prev_y1 := ?y + of_nat ?h, prev_spans := 0, current_points := None\<rparr>"
    moreover have "binv cx rgn ctxt2 B"
      unfolding binv_def using i enc_settled [OF i(5)]
      by (intro exI [of _ d] exI [of _ y] exI [of _ px] exI [of _ psm]) (simp add: ctxt2_def enc_0 agrees_def)
    ultimately show ?thesis using True
      by (intro exI [of _ None] exI [of _ rgn] exI [of _ ctxt2]) (simp add: r done_encoding_def)
  next
    case ne: False
    show ?thesis
    proof (cases "small_possible d ctxt cur")
      case True
      then have B: "B \<noteq> []" using nb by (auto simp: small_possible_def)
      have "HEADER + length (band_data d) + 1 + length cur < 2 ^ 30" using size by simp
      from encode_small_spec [OF i(1,5,6) this True assms(3) i(7) B, of mem] show ?thesis
      proof (elim disjE exE conjE)
        fix rgn1 d1 c out psm'
        assume *: "encode_small rgn ctxt cur mem = Some (None, rgn1, ctxt\<lparr>prev_small_output := out, count0x7F := c\<rparr>)"
          "mem_ok rgn1 d1" "num_bands d1 = num_bands d" "trans_x d1 = trans_x d" "trans_y d1 = trans_y d"
          "length (band_data d1) \<le> length (band_data d) + 1 + length cur" "c \<le> 256" "take (length out) psm' = out" "length psm' = 16"
          "enc cx (band_data d1) ?B c (?y + of_nat ?h) (keep px cur) psm'"
        show ?thesis by (rule finish [OF _ *(2-5) _ *(10,7,8,9) ne]) (use * True in simp_all)
      next
        assume "\<not> mem" "encode_small rgn ctxt cur mem = Some (Some ENOMEM, rgn, ctxt)"
        then show ?thesis using True by (intro exI [of _ "Some ENOMEM"] exI [of _ rgn] exI [of _ ctxt]) (simp add: r)
      qed
    next
      case False
      from encode_regular_spec [OF i(1,5,6) size assms(4) ne assms(3), of mem] show ?thesis
      proof (elim disjE exE conjE)
        fix rgn1 d1
        assume *: "encode_regular rgn ctxt cur mem = Some (None, rgn1, ctxt\<lparr>count0x7F := 0\<rparr>)"
          "mem_ok rgn1 d1" "num_bands d1 = num_bands d" "trans_x d1 = trans_x d" "trans_y d1 = trans_y d"
          "length (band_data d1) \<le> length (band_data d) + 6 + 4 * length cur"
          "settled cx (band_data d1) ?B (?y + of_nat ?h) (keep px cur) psm"
        have "take (length (prev_small_output ctxt)) psm = prev_small_output ctxt" using i(7) by (simp add: agrees_def)
        then show ?thesis
          by (intro finish [where out = "prev_small_output ctxt" and c = 0 and psm' = psm, OF _ *(2-6) _ _ _ px(3) ne])
            (use * False in \<open>simp_all add: enc_0\<close>)
      next
        assume "\<not> mem" "encode_regular rgn ctxt cur mem = Some (Some ENOMEM, rgn, ctxt\<lparr>count0x7F := 0\<rparr>)"
        then show ?thesis using False
          by (intro exI [of _ "Some ENOMEM"] exI [of _ rgn] exI [of _ "ctxt\<lparr>count0x7F := 0\<rparr>"]) (simp add: r)
      qed
    qed
  qed
qed

end
