(* ===== verification/RegionRound.thy ===== *)
theory RegionRound
  imports RegionCodec
begin

text \<open>
  The round trip of regions: the calls of the builder for all lines of a region, and the iteration over the result.
\<close>

section \<open>The callbacks\<close>

text \<open>Rectangles are visited until the callback wants no more.\<close>

fun visit :: "(rect \<Rightarrow> 's \<Rightarrow> bool \<times> 's) \<Rightarrow> rect list \<Rightarrow> 's \<Rightarrow> bool \<times> 's" where
  "visit f [] s = (False, s)"
| "visit f (r # rs) s = (case f r s of (stop, s) \<Rightarrow> if stop then (True, s) else visit f rs s)"

lemma visit_append: "visit f (as @ bs) s = (case visit f as s of (stop, s) \<Rightarrow> if stop then (True, s) else visit f bs s)"
  by (induction as arbitrary: s) (auto split: prod.split)

definition rect_of :: "u16 \<Rightarrow> u16 \<Rightarrow> u16 \<times> u16 \<Rightarrow> rect" where
  "rect_of y0 y1 x = \<lparr>rx = sint (fst x), ry = sint y0, rw = sint (snd x) - sint (fst x), rh = sint y1 - sint y0\<rparr>"

definition rects_of :: "band list \<Rightarrow> rect list" where
  "rects_of B = concat (map (\<lambda>(y0, y1, xs). map (rect_of y0 y1) xs) B)"

text \<open>
  The loop with callbacks also sets the scaled lines and the flag for the band callback, which nothing reads while
  a band is decoded.
\<close>

definition sc :: "u16 \<times> u16 \<times> bool \<Rightarrow> region_iteration_context \<Rightarrow> region_iteration_context" where
  "sc v cx = cx\<lparr>scaled_y0 := fst v, scaled_y1 := fst (snd v), done_band_callback := snd (snd v)\<rparr>"

lemma sc_fields [simp]:
  "ptr (sc v cx) = ptr cx" "prev_small_mode (sc v cx) = prev_small_mode cx" "iprev_y1 (sc v cx) = iprev_y1 cx" "iprev_x (sc v cx) = iprev_x cx"
  "num_repeats (sc v cx) = num_repeats cx" "used0x7E (sc v cx) = used0x7E cx" "band_i (sc v cx) = band_i cx"
  "ctrl_byte (sc v cx) = ctrl_byte cx" "num_spans (sc v cx) = num_spans cx" "iy0 (sc v cx) = iy0 cx"
  "iy1 (sc v cx) = iy1 cx" "icompact_spans (sc v cx) = icompact_spans cx" "compact_top (sc v cx) = compact_top cx"
  "in_repeat_mode (sc v cx) = in_repeat_mode cx" "span_j (sc v cx) = span_j cx" "start_ptr (sc v cx) = start_ptr cx"
  "done_band_callback (sc v cx) = snd (snd v)" "iter_done (sc v cx) = iter_done cx"
  by (simp_all add: sc_def)

lemma sc_sc [simp]: "sc v (sc w cx) = sc v cx"
  by (simp add: sc_def)

lemma sc_updates:
  "(sc v cx)\<lparr>ptr := a1\<rparr> = sc v (cx\<lparr>ptr := a1\<rparr>)" "(sc v cx)\<lparr>iprev_x := a2\<rparr> = sc v (cx\<lparr>iprev_x := a2\<rparr>)"
  "(sc v cx)\<lparr>compact_top := a3\<rparr> = sc v (cx\<lparr>compact_top := a3\<rparr>)" "(sc v cx)\<lparr>start_ptr := a4\<rparr> = sc v (cx\<lparr>start_ptr := a4\<rparr>)"
  "(sc v cx)\<lparr>ctrl_byte := a5\<rparr> = sc v (cx\<lparr>ctrl_byte := a5\<rparr>)" "(sc v cx)\<lparr>icompact_spans := a6\<rparr> = sc v (cx\<lparr>icompact_spans := a6\<rparr>)"
  "(sc v cx)\<lparr>in_repeat_mode := a7\<rparr> = sc v (cx\<lparr>in_repeat_mode := a7\<rparr>)" "(sc v cx)\<lparr>num_spans := a8\<rparr> = sc v (cx\<lparr>num_spans := a8\<rparr>)"
  "(sc v cx)\<lparr>iy0 := a9\<rparr> = sc v (cx\<lparr>iy0 := a9\<rparr>)" "(sc v cx)\<lparr>iy1 := a10\<rparr> = sc v (cx\<lparr>iy1 := a10\<rparr>)"
  "(sc v cx)\<lparr>num_repeats := a11\<rparr> = sc v (cx\<lparr>num_repeats := a11\<rparr>)" "(sc v cx)\<lparr>used0x7E := a12\<rparr> = sc v (cx\<lparr>used0x7E := a12\<rparr>)"
  "(sc v cx)\<lparr>span_j := a13\<rparr> = sc v (cx\<lparr>span_j := a13\<rparr>)" "(sc v cx)\<lparr>iprev_y1 := a14\<rparr> = sc v (cx\<lparr>iprev_y1 := a14\<rparr>)"
  "(sc v cx)\<lparr>prev_small_mode := a15\<rparr> = sc v (cx\<lparr>prev_small_mode := a15\<rparr>)" "(sc v cx)\<lparr>band_i := a16\<rparr> = sc v (cx\<lparr>band_i := a16\<rparr>)"
  "(sc v cx)\<lparr>done_band_callback := a17\<rparr> = sc (fst v, fst (snd v), a17) cx"
  by (simp_all add: sc_def)

lemma bind_mo: "Option.bind (map_option f m) g = Option.bind m (\<lambda>x. g (f x))"
  by (cases m) simp_all

lemma mo_bind: "map_option f (Option.bind m g) = Option.bind m (\<lambda>x. map_option f (g x))"
  by (cases m) simp_all

lemma bind_if: "Option.bind (if b then x else y) g = (if b then Option.bind x g else Option.bind y g)"
  by simp

lemmas sc_bind = bind_mo mo_bind bind_if split_def sc_updates Let_def if_distrib [of "map_option f" for f]

lemma next_byte_sc: "next_byte bytes (sc v cx) = map_option (\<lambda>(b, cx). (b, sc v cx)) (next_byte bytes cx)"
  by (simp add: next_byte.simps sc_updates split: band_ptr.split)

lemma next_word_sc: "next_word bytes (sc v cx) = map_option (\<lambda>(b, cx). (b, sc v cx)) (next_word bytes cx)"
  by (simp add: next_word_def next_byte_sc sc_bind)

lemma enter_repeat_sc: "enter_repeat bytes (sc v cx) = map_option (sc v) (enter_repeat bytes cx)"
  by (simp add: enter_repeat_def next_byte_sc sc_bind)

lemma read_control_sc: "read_control bytes (sc v cx) = map_option (sc v) (read_control bytes cx)"
  by (simp add: read_control_def next_byte_sc enter_repeat_sc sc_bind cong: if_cong)

lemma read_lines_sc: "read_lines bytes (sc v cx) = map_option (sc v) (read_lines bytes cx)"
  by (simp add: read_lines_def next_byte_sc next_word_sc sc_bind cong: if_cong)

lemma read_span_sc: "read_span bytes j (sc v cx) = map_option (\<lambda>(x0, x1, cx). (x0, x1, sc v cx)) (read_span bytes j cx)"
  by (simp add: read_span_def read_ends_def next_byte_sc next_word_sc sc_bind cong: if_cong)

lemma leave_band_sc: "leave_band bytes (sc v cx) = map_option (sc v) (leave_band bytes cx)"
  unfolding leave_band_def by (auto simp: sc_updates Let_def split: band_ptr.splits)

lemma read_span_lines: "read_span bytes j cx = Some (x0, x1, cx') \<Longrightarrow> iy0 cx' = iy0 cx \<and> iy1 cx' = iy1 cx"
  unfolding read_span_def read_ends_def next_word_def
  by (auto simp: bind_eq_Some_conv next_byte.simps Let_def split: if_splits band_ptr.splits)

lemma scale_lines_sc: "scale_lines None (sc v cx) = sc (iy0 cx, iy1 cx, snd (snd v)) cx"
  by (simp add: scale_lines_def sc_def map_y_def)

lemma span_loop_visit:
  assumes "read_spans (band_data d) n j cx = Some (xs, cx')" "trans_x d = 0" "trans_y d = 0"
  shows "\<exists>a b cx''. span_loop d (Some (IterateRegionThunk f)) None n j (sc v cx) s =
    Some (fst (visit f (map (rect_of (iy0 cx) (iy1 cx)) xs) s), cx'', snd (visit f (map (rect_of (iy0 cx) (iy1 cx)) xs) s)) \<and>
    (\<not> fst (visit f (map (rect_of (iy0 cx) (iy1 cx)) xs) s) \<longrightarrow> cx'' = sc (a, b, snd (snd v)) cx')"
  using assms(1)
proof (induction n arbitrary: j cx xs s v)
  case 0
  then show ?case by (intro exI [of _ "fst v"] exI [of _ "fst (snd v)"] exI [of _ "sc v cx"]) simp
next
  case (Suc n)
  obtain x0 x1 cx1 ys where r: "read_span (band_data d) j cx = Some (x0, x1, cx1)" "read_spans (band_data d) n (j + 1) cx1 = Some (ys, cx')"
    "xs = (x0, x1) # ys" using Suc.prems by (auto simp: bind_eq_Some_conv)
  note l = read_span_lines [OF r(1)]
  obtain stop s1 where f: "f (rect_of (iy0 cx) (iy1 cx) (x0, x1)) s = (stop, s1)" by fastforce
  have t: "IterateRegionThunk f (sint (iy0 cx)) (sint (iy1 cx)) (sint x0) (sint x1) s = (stop, s1)"
    using f by (simp add: IterateRegionThunk_def rect_of_def)
  have sy: "scaled_y0 (sc (a, b, e) c) = a" "scaled_y1 (sc (a, b, e) c) = b" for a b e c by (simp_all add: sc_def)
  show ?case
  proof (cases stop)
    case True
    then show ?thesis using r l f t assms(2,3)
      by (simp add: read_span_sc scale_lines_sc Let_def map_x_def sy)
  next
    case False
    then show ?thesis using Suc.IH [OF r(2), of "(iy0 cx1, iy1 cx1, snd (snd v))" s1] r l f t assms(2,3)
      by (simp add: read_span_sc scale_lines_sc Let_def map_x_def sy)
  qed
qed

lemma read_spans_lines: "read_spans bytes n j cx = Some (xs, cx') \<Longrightarrow> iy0 cx' = iy0 cx \<and> iy1 cx' = iy1 cx"
  by (induction n arbitrary: j cx xs) (auto simp: bind_eq_Some_conv dest!: read_span_lines)

lemma leave_band_lines: "leave_band bytes cx = Some cx' \<Longrightarrow> iy0 cx' = iy0 cx \<and> iy1 cx' = iy1 cx"
  by (auto simp: leave_band_def Let_def split: if_splits band_ptr.splits)

lemma band_loop_visit:
  assumes "dec_bands (band_data d) (length B) cx = Some (B, cx')" "span_j cx = 0" "trans_x d = 0" "trans_y d = 0"
  shows "\<exists>cx''. band_loop d None (Some (IterateRegionThunk f)) None (length B) (sc (a, b, False) cx) s = Some (snd (visit f (rects_of B) s), cx'')"
  using assms(1,2)
proof (induction B arbitrary: cx s a b)
  case Nil
  then show ?case by (simp add: rects_of_def)
next
  case (Cons x B)
  obtain cx1 cx2 xs cx3 cx4 where r: "read_control (band_data d) cx = Some cx1" "read_lines (band_data d) cx1 = Some cx2"
    "read_spans (band_data d) (num_spans cx2) 0 cx2 = Some (xs, cx3)" "leave_band (band_data d) cx3 = Some cx4"
    "x = (iy0 cx4, iy1 cx4, xs)" "dec_bands (band_data d) (length B) (cx4\<lparr>band_i := band_i cx4 + 1, done_band_callback := False\<rparr>) = Some (B, cx')"
    using Cons.prems(1) by (auto simp: bind_eq_Some_conv dec_band_def)
  have l: "iy0 cx4 = iy0 cx2" "iy1 cx4 = iy1 cx2" using read_spans_lines [OF r(3)] leave_band_lines [OF r(4)] by simp_all
  have j: "span_j cx2 = 0" "span_j cx4 = 0"
  proof -
    have nb: "span_j c' = span_j c" if "next_byte (band_data d) c = Some (u, c')" for u c c'
      using that by (auto simp: next_byte.simps split: band_ptr.splits if_splits)
    have sj: "span_j b = span_j c" if "b\<lparr>start_ptr := p, ctrl_byte := u, icompact_spans := e, compact_top := t, in_repeat_mode := m\<rparr> =
        c\<lparr>ctrl_byte := u', in_repeat_mode := m'\<rparr>" for b c :: region_iteration_context and p u e t m u' m'
      using arg_cong [OF that, of span_j] by simp
    have "span_j cx1 = span_j cx"
      using r(1)
      by (auto simp: read_control_def enter_repeat_def bind_eq_Some_conv Let_def split: if_splits dest!: nb dest: sj)
    moreover have "span_j cx2 = span_j cx1"
      using r(2) by (auto simp: read_lines_def next_word_def bind_eq_Some_conv Let_def split: if_splits dest!: nb)
    ultimately show "span_j cx2 = 0" using Cons.prems(2) by simp
    show "span_j cx4 = 0" using r(4) by (auto simp: leave_band_def Let_def split: if_splits band_ptr.splits)
  qed
  let ?v = "visit f (map (rect_of (iy0 cx2) (iy1 cx2)) xs) s"
  obtain a' b' c where sl: "span_loop d (Some (IterateRegionThunk f)) None (num_spans cx2) 0 (sc (a, b, True) cx2) s = Some (fst ?v, c, snd ?v)"
    "\<not> fst ?v \<longrightarrow> c = sc (a', b', True) cx3"
    using span_loop_visit [OF r(3) assms(3,4), of f "(a, b, True)" s] by auto
  have bb: "begin_band d None None (sc (a, b, False) cx) s = Some (False, sc (a, b, True) cx2, s)"
    using r(1,2) by (simp add: begin_band_def read_control_sc read_lines_sc) (simp add: sc_def)
  have rects: "rects_of (x # B) = map (rect_of (iy0 cx2) (iy1 cx2)) xs @ rects_of B" by (simp add: rects_of_def r(5) l)
  show ?case
  proof (cases "fst ?v")
    case True
    then show ?thesis using bb sl j by (auto simp: rects visit_append split: prod.splits)
  next
    case False
    have lv: "leave_band (band_data d) (sc (a', b', True) cx3) = Some (sc (a', b', True) cx4)" using r(4) by (simp add: leave_band_sc)
    have eq: "(sc (a', b', True) cx4)\<lparr>band_i := Suc (band_i cx4), done_band_callback := False\<rparr> =
        sc (a', b', False) (cx4\<lparr>band_i := band_i cx4 + 1, done_band_callback := False\<rparr>)" by (simp add: sc_def)
    obtain cx'' where "band_loop d None (Some (IterateRegionThunk f)) None (length B) (sc (a', b', False) (cx4\<lparr>band_i := band_i cx4 + 1, done_band_callback := False\<rparr>)) (snd ?v) =
        Some (snd (visit f (rects_of B) (snd ?v)), cx'')"
      using Cons.IH [OF r(6), of a' b' "snd ?v"] j by auto
    then show ?thesis using False bb sl j lv eq by (auto simp: rects visit_append split: prod.splits)
  qed
qed

section \<open>All lines\<close>

text \<open>The rest of the lines, when the builder holds \<open>h\<close> lines \<open>cur\<close>.\<close>

definition holding :: "region_iteration_context \<Rightarrow> region \<Rightarrow> region_build_context \<Rightarrow> band list \<Rightarrow> spans \<Rightarrow> bool" where
  "holding cx rgn ctxt B cur \<longleftrightarrow> binv cx rgn ctxt B \<and> current_points ctxt = Some cur \<and>
     1 \<le> current_height ctxt \<and> current_height ctxt \<le> 32000 \<and> length cur < 16384"

lemma binv_updates [simp]:
  "binv cx rgn (ctxt\<lparr>current_points := p\<rparr>) B \<longleftrightarrow> binv cx rgn ctxt B"
  "binv cx rgn (ctxt\<lparr>current_height := h\<rparr>) B \<longleftrightarrow> binv cx rgn ctxt B"
  by (simp_all add: binv_def agrees_def)

definition costs :: "spans list \<Rightarrow> nat" where
  "costs ls = sum_list (map cost ls)"

definition has_mem :: "(spans \<times> bool \<times> bool \<times> bool) list \<Rightarrow> bool" where
  "has_mem ls \<longleftrightarrow> list_all (\<lambda>(xs, same, mem1, mem2). mem1 \<and> mem2) ls"

lemma has_mem_Cons [simp]: "has_mem [] \<longleftrightarrow> True" "has_mem ((xs, same, mem1, mem2) # ls) \<longleftrightarrow> mem1 \<and> mem2 \<and> has_mem ls"
  by (auto simp: has_mem_def)

lemma add_lines_holding:
  assumes "holding cx rgn ctxt B cur" "honest (Some cur) ls" "\<forall>l \<in> set ls. length (fst l) < 16384"
    "size_of rgn + cost cur + costs (map fst ls) < 2 ^ 30" "length B + 1 + length ls < 65536"
  shows "\<exists>e rgn' ctxt'. add_lines ls rgn ctxt = Some (e, rgn', ctxt') \<and> (e \<noteq> None \<longrightarrow> e = Some ENOMEM \<and> \<not> has_mem ls) \<and> (e = None \<longrightarrow> (\<exists>B' cur'. holding cx rgn' ctxt' B' cur' \<and>
      size_of rgn' + cost cur' < 2 ^ 30 \<and> length B' + 1 < 65536 \<and>
      B' @ bands_from (prev_y1 ctxt') (replicate (current_height ctxt') cur') =
      B @ bands_from (prev_y1 ctxt) (replicate (current_height ctxt) cur @ map fst ls)))"
  using assms
proof (induction ls arbitrary: rgn ctxt B cur)
  case Nil
  then show ?case by (intro exI [of _ None] exI [of _ rgn] exI [of _ ctxt]) (auto simp: costs_def)
next
  case (Cons l ls)
  obtain xs same mem1 mem2 where l: "l = (xs, same, mem1, mem2)" by (cases l)
  have H: "binv cx rgn ctxt B" "current_points ctxt = Some cur" "1 \<le> current_height ctxt" "current_height ctxt \<le> 32000" "length cur < 16384"
    using Cons.prems(1) by (simp_all add: holding_def)
  have hon: "same \<longrightarrow> xs = cur" "honest (Some xs) ls" using Cons.prems(2) l by auto
  let ?h = "current_height ctxt" and ?y = "prev_y1 ctxt"
  show ?case
  proof (cases "xs = cur \<and> ?h < 32000")
    case True
    let ?c = "ctxt\<lparr>current_height := ?h + 1\<rparr>"
    have "AddScanline rgn ctxt (Some xs) same mem1 mem2 = Some (None, rgn, ?c)" using True H by (simp add: AddScanline_def)
    moreover have "holding cx rgn ?c B cur" using True H by (simp add: holding_def)
    moreover have "size_of rgn + cost cur + costs (map fst ls) < 2 ^ 30" using Cons.prems(4) by (simp add: costs_def)
    moreover have "replicate (?h + 1) cur @ map fst ls = replicate ?h cur @ map fst (l # ls)"
      using True l by (simp add: replicate_app_Cons_same)
    ultimately show ?thesis using Cons.IH [of rgn ?c B cur] hon True Cons.prems(3,5) l by auto blast
  next
    case False
    have "\<not> (length cur = length xs \<and> (cur = [] \<or> same \<or> cur = xs) \<and> ?h < 32000)" using False hon by auto
    then have A: "AddScanline rgn ctxt (Some xs) same mem1 mem2 = do { d \<leftarrow> rdata rgn;
        (e, rgn, ctxt) \<leftarrow> (if small_possible d ctxt cur then encode_small rgn ctxt cur mem1 else encode_regular rgn ctxt cur mem1);
        if e \<noteq> None then Some (e, rgn, ctxt)
        else do { let (rgn, ctxt) = done_encoding rgn ctxt cur;
          if \<not> mem2 then Some (Some ENOMEM, rgn, ctxt) else Some (None, rgn, ctxt\<lparr>current_points := Some xs, current_height := 1\<rparr>) } }"
      unfolding AddScanline_def H(2) option.case by (simp only: conj_assoc if_False)
    have size: "size_of rgn + cost cur < 2 ^ 30" "Suc (length B) < 65536" using Cons.prems(4,5) by auto
    obtain e :: "errno option" and rgn1 ctxt1 where S: "AddScanline rgn ctxt (Some xs) same mem1 mem2 =
        (if e = None then (if \<not> mem2 then Some (Some ENOMEM, rgn1, ctxt1) else Some (None, rgn1, ctxt1\<lparr>current_points := Some xs, current_height := 1\<rparr>))
         else Some (Some ENOMEM, rgn1, ctxt1))" "e \<noteq> None \<longrightarrow> \<not> mem1"
      "e = None \<longrightarrow> size_of rgn1 \<le> size_of rgn + cost cur \<and> current_points ctxt1 = None \<and> prev_y1 ctxt1 = ?y + of_nat ?h \<and>
        binv cx rgn1 ctxt1 (if cur = [] then B else B @ [(?y, ?y + of_nat ?h, cur)])"
      using band_step [OF H(1,2,3,5) size, where mem = mem1 and
          k = "\<lambda>rgn ctxt. if \<not> mem2 then Some (Some ENOMEM, rgn, ctxt) else Some (None, rgn, ctxt\<lparr>current_points := Some xs, current_height := 1\<rparr>)"]
      unfolding A by blast
    show ?thesis
    proof (cases "e = None \<and> mem2")
      case False
      then show ?thesis using S(1,2) l by (auto split: if_splits)
    next
      case ok: True
      let ?c = "ctxt1\<lparr>current_points := Some xs, current_height := 1\<rparr>"
        and ?B = "if cur = [] then B else B @ [(?y, ?y + of_nat ?h, cur)]"
      have hold: "holding cx rgn1 ?c ?B xs" using S(3) ok Cons.prems(3) l by (simp add: holding_def)
      have c: "costs (map fst (l # ls)) = cost xs + costs (map fst ls)" using l by (simp add: costs_def)
      have sz: "size_of rgn1 + cost xs + costs (map fst ls) < 2 ^ 30" using S(3) ok Cons.prems(4) unfolding c by simp
      have nb: "length ?B + 1 + length ls < 65536" using Cons.prems(5) by auto
      have "?B @ bands_from (?y + of_nat ?h) (xs # map fst ls) = B @ bands_from ?y (replicate ?h cur @ xs # map fst ls)"
      proof (cases "cur = []")
        case True
        then show ?thesis by (simp add: bands_from_gap)
      next
        case ne: False
        have "?h = 32000 \<or> equal_lines cur (xs # map fst ls) = 0" using False H(4) by auto
        then show ?thesis using bands_from_band [OF ne H(3,4)] ne by simp
      qed
      then show ?thesis using Cons.IH [OF hold hon(2) _ sz nb] Cons.prems(3) S ok l by (simp, blast)
    qed
  qed
qed

section \<open>The round trip\<close>

text \<open>All builders begin with a context of zeros.\<close>

definition zeroed_context :: region_build_context where
  "zeroed_context = \<lparr>current_points = None, current_height = 0, prev_spans = 0, prev_x = replicate 16 (0, 0), prev_y1 = 0,
     prev_small_output = [], count0x7F = 0\<rparr>"

definition stack_ok :: "region_iteration_context \<Rightarrow> bool" where
  "stack_ok cx \<longleftrightarrow> length (iprev_x cx) = 16 \<and> length (prev_small_mode cx) = 16"

text \<open>Before the first line that is not empty.\<close>

definition waiting :: "region_iteration_context \<Rightarrow> region \<Rightarrow> region_build_context \<Rightarrow> bool" where
  "waiting cx rgn ctxt \<longleftrightarrow> binv cx rgn (ctxt\<lparr>count0x7F := 0\<rparr>) [] \<and> current_points ctxt = None \<and> size_of rgn = HEADER"

lemma waiting_updates [simp]: "waiting cx rgn (ctxt\<lparr>prev_y1 := y\<rparr>) \<longleftrightarrow> waiting cx rgn ctxt"
  by (simp add: waiting_def binv_def agrees_def)

lemma waiting_data:
  assumes "waiting cx rgn ctxt"
  shows "rgn\<lparr>rdata := map_option (\<lambda>d. d\<lparr>band_data := []\<rparr>) (rdata rgn)\<rparr> = rgn"
proof -
  obtain d where "rdata rgn = Some d" "band_data d = []"
    using assms by (auto simp: waiting_def binv_def mem_ok_def size_of_def)
  then show ?thesis by simp
qed

lemma add_lines_waiting:
  assumes "waiting cx rgn ctxt" "honest prev ls" "\<forall>l \<in> set ls. length (fst l) < 16384"
    "HEADER + costs (map fst ls) < 2 ^ 30" "length ls < 65536" "prev = None \<or> prev = Some []"
  shows "\<exists>e rgn' ctxt'. add_lines ls rgn ctxt = Some (e, rgn', ctxt') \<and> (e \<noteq> None \<longrightarrow> e = Some ENOMEM \<and> \<not> has_mem ls) \<and>
      (e = None \<longrightarrow> (waiting cx rgn' ctxt' \<and> bands_from (prev_y1 ctxt) (map fst ls) = []) \<or>
        (\<exists>B' cur'. holding cx rgn' ctxt' B' cur' \<and> size_of rgn' + cost cur' < 2 ^ 30 \<and> length B' + 1 < 65536 \<and>
          B' @ bands_from (prev_y1 ctxt') (replicate (current_height ctxt') cur') = bands_from (prev_y1 ctxt) (map fst ls)))"
  using assms
proof (induction ls arbitrary: ctxt prev)
  case (Cons l ls)
  obtain xs same mem1 mem2 where l: "l = (xs, same, mem1, mem2)" by (cases l)
  have cp: "current_points ctxt = None" using Cons.prems(1) by (simp add: waiting_def)
  note wd = waiting_data [OF Cons.prems(1)]
  show ?case
  proof (cases xs)
    case Nil
    let ?c = "ctxt\<lparr>prev_y1 := prev_y1 ctxt + 1\<rparr>"
    have "AddScanline rgn ctxt (Some xs) same mem1 mem2 = Some (None, rgn, ?c)" by (simp add: AddScanline_def cp wd Nil)
    then show ?thesis using Cons.IH [of ?c "Some []"] Cons.prems l Nil by (auto simp: costs_def)
  next
    case (Cons x xs')
    let ?c = "ctxt\<lparr>count0x7F := 0, current_points := Some xs, current_height := 1\<rparr>"
    have A: "AddScanline rgn ctxt (Some xs) same mem1 mem2 = (if mem2 then Some (None, rgn, ?c) else Some (Some ENOMEM, rgn, ctxt))"
      by (simp add: AddScanline_def cp wd Cons)
    show ?thesis
    proof (cases mem2)
      case True
      have "holding cx rgn ?c [] xs" using Cons.prems(1,3) l by (simp add: holding_def waiting_def)
      moreover have "size_of rgn + cost xs + costs (map fst ls) < 2 ^ 30"
        using Cons.prems(1,4) l by (simp add: waiting_def costs_def)
      ultimately show ?thesis using add_lines_holding [of cx rgn ?c "[]" xs ls] Cons.prems(2,3,5) A l True by auto
    qed (use A l in auto)
  qed
qed auto

lemma BuildNewRegion_waiting:
  assumes "stack_ok stack"
  shows "\<exists>rgn ctxt. BuildNewRegion y0 zeroed_context True = (None, rgn, ctxt) \<and> waiting (CreateIterationContext stack) rgn ctxt \<and> prev_y1 ctxt = y0"
proof -
  have "at_band 0 0 False (iprev_y1 stack) (iprev_x stack) (prev_small_mode stack) (CreateIterationContext stack)"
    using assms by (simp add: at_band_def CreateIterationContext_def stack_ok_def)
  then have "settled (CreateIterationContext stack) [] [] (iprev_y1 stack) (iprev_x stack) (prev_small_mode stack)"
    by (simp add: settled_def)
  then show ?thesis using assms
    by (fastforce simp: BuildNewRegion_def waiting_def binv_def enc_0 agrees_def zeroed_context_def stack_ok_def mem_ok_def size_of_def)
qed

text \<open>The iteration over what has been written when the builder holds no more lines.\<close>

lemma IterateRegion_binv:
  assumes "binv (CreateIterationContext stack) rgn ctxt B" "length B < 65536"
  shows "IterateRegion stack rgn f s = Some (snd (visit f (rects_of B) s))"
proof -
  let ?cx = "CreateIterationContext stack"
  obtain d y px psm where i: "rdata rgn = Some d" "num_bands d = of_nat (length B)" "trans_x d = 0" "trans_y d = 0"
    "enc ?cx (band_data d) B (count0x7F ctxt) y px psm" "count0x7F ctxt \<le> 256"
    using assms(1) by (auto simp: binv_def mem_ok_def)
  have n: "unat (num_bands d) = length B" using i(2) assms(2) by (simp add: unat_of_nat)
  have "settled ?cx (band_data d) B y px psm" using enc_settled [OF i(5)] i(6) by simp
  then obtain cx' where dec: "dec_bands (band_data d) (length B) ?cx = Some (B, cx')" unfolding settled_def by (metis append_Nil2)
  have cx: "sc (scaled_y0 ?cx, scaled_y1 ?cx, False) ?cx = ?cx" by (simp add: sc_def CreateIterationContext_def)
  obtain cx'' where loop: "band_loop d None (Some (IterateRegionThunk f)) None (length B) ?cx s = Some (snd (visit f (rects_of B) s), cx'')"
    using band_loop_visit [OF dec _ i(3,4), of f "scaled_y0 ?cx" "scaled_y1 ?cx" s] cx by (auto simp: CreateIterationContext_def)
  have "\<not> iter_done ?cx" "band_i ?cx = 0" "\<not> CdIsRegionBad rgn" using i(1) by (simp_all add: CreateIterationContext_def CdIsRegionBad_def)
  moreover have "CdIsRegionEmpty rgn \<longleftrightarrow> B = []" using i(1) n by (auto simp: CdIsRegionEmpty_def unat_eq_zero)
  ultimately show ?thesis using loop n i(1) by (auto simp: IterateRegion_def IterateRegionCoroutine_def rects_of_def)
qed

lemma IterateRegion_empty: "IterateRegion stack CdEmptyRegion f s = Some s"
  by (simp add: IterateRegion_def IterateRegionCoroutine_def CreateIterationContext_def CdIsRegionEmpty_def CdEmptyRegion_def)

lemma FinishRegion_holding:
  assumes "holding (CreateIterationContext stack) rgn ctxt B cur" "size_of rgn + cost cur < 2 ^ 30" "length B + 1 < 65536"
  shows "\<exists>e rgn' ctxt'. FinishRegion rgn ctxt mem = Some (e, rgn', ctxt') \<and> (e \<noteq> None \<longrightarrow> e = Some ENOMEM \<and> \<not> mem) \<and>
    (e = None \<longrightarrow> IterateRegion stack rgn' f s =
       Some (snd (visit f (rects_of (B @ bands_from (prev_y1 ctxt) (replicate (current_height ctxt) cur))) s)))"
proof -
  let ?y = "prev_y1 ctxt" and ?h = "current_height ctxt"
  let ?B = "if cur = [] then B else B @ [(?y, ?y + of_nat ?h, cur)]"
  have H: "binv (CreateIterationContext stack) rgn ctxt B" "current_points ctxt = Some cur" "1 \<le> ?h" "?h \<le> 32000" "length cur < 16384"
    using assms(1) by (simp_all add: holding_def)
  have A: "AddScanline rgn ctxt None False mem True = do { d \<leftarrow> rdata rgn;
      (e, rgn, ctxt) \<leftarrow> (if small_possible d ctxt cur then encode_small rgn ctxt cur mem else encode_regular rgn ctxt cur mem);
      if e \<noteq> None then Some (e, rgn, ctxt)
      else do { let (rgn, ctxt) = done_encoding rgn ctxt cur; Some (None, rgn, ctxt) } }"
    unfolding AddScanline_def H(2) option.case by (simp only: simp_thms if_False)
  have size: "Suc (length B) < 65536" using assms(3) by simp
  obtain e :: "errno option" and rgn1 ctxt1 where S:
    "AddScanline rgn ctxt None False mem True = (if e = None then Some (None, rgn1, ctxt1) else Some (Some ENOMEM, rgn1, ctxt1))"
    "e \<noteq> None \<longrightarrow> \<not> mem" "e = None \<longrightarrow> binv (CreateIterationContext stack) rgn1 ctxt1 ?B"
    using band_step [OF H(1-3,5) assms(2) size, where mem = mem and k = "\<lambda>rgn ctxt. Some (None, rgn, ctxt)"]
    unfolding A by blast
  have B: "?B = B @ bands_from ?y (replicate ?h cur)"
    using bands_from_gap [of ?y ?h "[]"] bands_from_band [of cur ?h "[]"] H(3,4) by auto
  have lB: "length ?B < 65536" using assms(3) by simp
  show ?thesis
  proof (cases e)
    case (Some _)
    then show ?thesis using S(1,2) by (simp add: FinishRegion_def)
  next
    case None
    have b: "binv (CreateIterationContext stack) rgn1 ctxt1 ?B" using S(3) None by simp
    then obtain d where d: "rdata rgn1 = Some d" "num_bands d = of_nat (length ?B)" by (auto simp: binv_def mem_ok_def)
    have F: "FinishRegion rgn ctxt mem = Some (None, if num_bands d = 0 then CdEmptyRegion else rgn1, ctxt1)"
      using S(1) None d(1) by (simp add: FinishRegion_def)
    have u: "unat (num_bands d) = length ?B" using d(2) lB by (simp only: unat_of_nat) simp
    have "IterateRegion stack (if num_bands d = 0 then CdEmptyRegion else rgn1) f s = Some (snd (visit f (rects_of ?B) s))"
    proof (cases "num_bands d = 0")
      case True
      then have "length ?B = 0" using u [symmetric] by (simp only: unat_0)
      then have "rects_of ?B = []" unfolding length_0_conv by (simp only: rects_of_def list.map concat.simps)
      then show ?thesis using True IterateRegion_empty [of stack f s] by simp
    next
      case False
      then show ?thesis using IterateRegion_binv [OF b lB, of f s] by (simp only: if_False)
    qed
    then show ?thesis unfolding F B [symmetric] by simp
  qed
qed

lemma FinishRegion_waiting:
  assumes "waiting cx rgn ctxt"
  shows "\<exists>ctxt'. FinishRegion rgn ctxt mem = Some (None, CdEmptyRegion, ctxt')"
proof -
  obtain d where "rdata rgn = Some d" "num_bands d = 0" using assms by (auto simp: waiting_def binv_def mem_ok_def)
  moreover have "current_points ctxt = None" using assms by (simp add: waiting_def)
  ultimately show ?thesis by (simp add: FinishRegion_def AddScanline_def)
qed

text \<open>
  All the calls that build a region. The first failure ends them.
\<close>

definition build :: "u16 \<Rightarrow> (spans \<times> bool \<times> bool \<times> bool) list \<Rightarrow> bool \<Rightarrow> (errno option \<times> region \<times> region_build_context) option" where
  "build y0 ls mem =
     (case BuildNewRegion y0 zeroed_context True of
        (e, rgn, ctxt) \<Rightarrow>
          do { (e, rgn, ctxt) \<leftarrow> add_lines ls rgn ctxt;
               if e \<noteq> None then Some (e, rgn, ctxt) else FinishRegion rgn ctxt mem })"

definition fits :: "spans list \<Rightarrow> bool" where
  "fits ls \<longleftrightarrow> list_all (\<lambda>xs. length xs < 16384) ls \<and> HEADER + costs ls < 2 ^ 30 \<and> length ls < 65536"

lemma build_spec:
  assumes "stack_ok stack" "honest None ls" "fits (map fst ls)"
  shows "\<exists>e rgn ctxt. build y0 ls mem = Some (e, rgn, ctxt) \<and> (e \<noteq> None \<longrightarrow> e = Some ENOMEM \<and> \<not> (mem \<and> has_mem ls)) \<and>
    (e = None \<longrightarrow> IterateRegion stack rgn f s = Some (snd (visit f (rects_of (bands_from y0 (map fst ls))) s)))"
proof -
  obtain rgn0 ctxt0 where b: "BuildNewRegion y0 zeroed_context True = (None, rgn0, ctxt0)"
    "waiting (CreateIterationContext stack) rgn0 ctxt0" "prev_y1 ctxt0 = y0" using BuildNewRegion_waiting [OF assms(1)] by blast
  have F: "\<forall>l \<in> set ls. length (fst l) < 16384" "HEADER + costs (map fst ls) < 2 ^ 30" "length ls < 65536"
    using assms(3) by (auto simp: fits_def list_all_iff)
  obtain e rgn1 ctxt1 where a: "add_lines ls rgn0 ctxt0 = Some (e, rgn1, ctxt1)" "e \<noteq> None \<Longrightarrow> e = Some ENOMEM \<and> \<not> has_mem ls"
    "e = None \<Longrightarrow> (waiting (CreateIterationContext stack) rgn1 ctxt1 \<and> bands_from y0 (map fst ls) = []) \<or>
        (\<exists>B' cur'. holding (CreateIterationContext stack) rgn1 ctxt1 B' cur' \<and> size_of rgn1 + cost cur' < 2 ^ 30 \<and> length B' + 1 < 65536 \<and>
          B' @ bands_from (prev_y1 ctxt1) (replicate (current_height ctxt1) cur') = bands_from y0 (map fst ls))"
    using add_lines_waiting [OF b(2) assms(2) F] unfolding b(3) by blast
  show ?thesis
  proof (cases e)
    case (Some x)
    then show ?thesis using a(1,2) b(1) by (simp add: build_def)
  next
    case None
    then have bf: "build y0 ls mem = FinishRegion rgn1 ctxt1 mem" using a(1) b(1) by (simp add: build_def)
    from a(3) [OF None] show ?thesis
    proof (elim disjE exE conjE)
      assume "waiting (CreateIterationContext stack) rgn1 ctxt1" "bands_from y0 (map fst ls) = []"
      then obtain c where "FinishRegion rgn1 ctxt1 mem = Some (None, CdEmptyRegion, c)" using FinishRegion_waiting by blast
      then show ?thesis using bf \<open>bands_from y0 (map fst ls) = []\<close> IterateRegion_empty [of stack f s] by (simp add: rects_of_def)
    next
      fix B' cur' assume h: "holding (CreateIterationContext stack) rgn1 ctxt1 B' cur'" "size_of rgn1 + cost cur' < 2 ^ 30" "length B' + 1 < 65536"
        "B' @ bands_from (prev_y1 ctxt1) (replicate (current_height ctxt1) cur') = bands_from y0 (map fst ls)"
      show ?thesis using FinishRegion_holding [OF h(1-3), of mem f s] by (auto simp: bf h(4))
    qed
  qed
qed

definition zero_stack :: region_iteration_context where
  "zero_stack = \<lparr>ptr = InData 0, start_ptr = InData 0, prev_small_mode = replicate 16 0, iprev_y1 = 0, iprev_x = replicate 16 (0, 0),
     num_repeats = 0, used0x7E = False, band_i = 0, ctrl_byte = 0, num_spans = 0, iy0 = 0, iy1 = 0, scaled_y0 = 0,
     scaled_y1 = 0, icompact_spans = False, compact_top = 0, in_repeat_mode = False, span_j = 0, done_band_callback = False,
     iter_done = False\<rparr>"

lemma stack_ok_zero: "stack_ok zero_stack"
  by (simp add: stack_ok_def zero_stack_def)

lemma build_safe:
  assumes "honest None ls" "fits (map fst ls)"
  shows "\<exists>e rgn ctxt. build y0 ls mem = Some (e, rgn, ctxt) \<and> (e = None \<or> e = Some ENOMEM \<and> \<not> (mem \<and> has_mem ls))"
proof -
  obtain e rgn ctxt where "build y0 ls mem = Some (e, rgn, ctxt)" "e \<noteq> None \<longrightarrow> e = Some ENOMEM \<and> \<not> (mem \<and> has_mem ls)"
    using build_spec [OF stack_ok_zero assms, of y0 mem "\<lambda>r s. (False, s)" "()"] by (elim exE conjE)
  then show ?thesis by (cases e) simp_all
qed

text \<open>
  C29. What is built is what is seen: iterating over a finished region calls the callback for exactly the
  rectangles of the lines given to the builder, in order, with equal lines joined, until it wants no more. The context on
  the stack may hold anything. The lines said to be the same as the line before are the same.
\<close>

theorem region_roundtrip:
  assumes "stack_ok stack" "honest None ls" "fits (map fst ls)" "build y0 ls mem = Some (None, rgn, ctxt)"
  shows "IterateRegion stack rgn f s = Some (snd (visit f (rects_of (bands_from y0 (map fst ls))) s))"
  using build_spec [OF assms(1-3), of y0 mem f s] assms(4) by auto

definition some_lines :: "(spans \<times> bool \<times> bool \<times> bool) list" where
  "some_lines = [([], False, True, True), ([(1, 5), (7, 9)], False, True, True), ([(1, 5), (7, 9)], True, True, True),
     ([(- 2, 4)], False, True, True)]"

lemma some_lines_ok: "honest None some_lines" "fits (map fst some_lines)" "has_mem some_lines"
  by (simp_all add: some_lines_def fits_def costs_def cost_def)

theorem region_roundtrip_witness:
  "\<exists>rgn ctxt. build 3 some_lines True = Some (None, rgn, ctxt) \<and>
     IterateRegion zero_stack rgn (\<lambda>r rs. (False, rs @ [r])) [] =
       Some [\<lparr>rx = 1, ry = 4, rw = 4, rh = 2\<rparr>, \<lparr>rx = 7, ry = 4, rw = 2, rh = 2\<rparr>, \<lparr>rx = - 2, ry = 6, rw = 6, rh = 1\<rparr>]"
proof -
  obtain rgn ctxt where b: "build 3 some_lines True = Some (None, rgn, ctxt)"
    using build_safe [OF some_lines_ok(1,2), of 3 True] some_lines_ok(3) by auto
  have "rects_of (bands_from 3 (map fst some_lines)) =
      [\<lparr>rx = 1, ry = 4, rw = 4, rh = 2\<rparr>, \<lparr>rx = 7, ry = 4, rw = 2, rh = 2\<rparr>, \<lparr>rx = - 2, ry = 6, rw = 6, rh = 1\<rparr>]"
    by (simp add: some_lines_def rects_of_def rect_of_def)
  then show ?thesis using region_roundtrip [OF stack_ok_zero some_lines_ok(1,2) b, of "\<lambda>r rs. (False, rs @ [r])" "[]"] b by auto
qed

text \<open>
  C30. Building is safe: no call of the builder reads or writes outside the memory of the region or runs for ever, and with
  memory for every call all of them succeed. The only error is \<open>ENOMEM\<close>.
\<close>

theorem region_build_safe:
  assumes "honest None ls" "fits (map fst ls)"
  shows "\<exists>e rgn ctxt. build y0 ls mem = Some (e, rgn, ctxt) \<and> (e = None \<or> e = Some ENOMEM \<and> \<not> (mem \<and> has_mem ls))"
  by (rule build_safe [OF assms])

theorem region_build_safe_witness:
  "\<exists>e rgn ctxt. build 3 some_lines True = Some (e, rgn, ctxt) \<and> (e = None \<or> e = Some ENOMEM \<and> \<not> (True \<and> has_mem some_lines))"
  by (rule region_build_safe [OF some_lines_ok(1,2)])

end
