(* ===== verification/RegionOps.thy ===== *)
theory RegionOps
  imports RegionRound
begin

unbundle bit_operations_syntax

text \<open>
  Regions as sets of points (the rest of \<^verbatim>\<open>kernel/CLIPDRAW/region.c\<close>): rectangles, copies, translation, bounds, and
  the combination of the spans of two regions on a line.
\<close>

type_synonym i32 = "32 word"

section \<open>Operations\<close>

definition CdCreateRectRegion :: "i32 \<Rightarrow> i32 \<Rightarrow> i32 \<Rightarrow> i32 \<Rightarrow> bool \<Rightarrow> region" where
  "CdCreateRectRegion x y width height mem =
     (if sint width \<le> 0 \<or> sint height \<le> 0 then CdEmptyRegion
      else if \<not> mem then CdBadRegion
      else \<lparr>rdata = Some \<lparr>num_bands = 1, trans_x = 0, trans_y = 0,
              band_data = [0x80 OR 0x40 OR 1, 0] @ le16 (ucast y) @ le16 (ucast (y + height)) @
                le16 (ucast x) @ le16 (ucast (x + width))\<rparr>,
            used_length = of_nat (HEADER + 10), allocated_length = of_nat (HEADER + 10)\<rparr>)"

definition CdEverythingRegion :: "bool \<Rightarrow> region" where
  "CdEverythingRegion mem = CdCreateRectRegion (- 0x8000) (- 0x8000) 65535 65535 mem"

definition CdCopyRegion :: "region \<Rightarrow> bool \<Rightarrow> region" where
  "CdCopyRegion rgn mem =
     (if CdIsRegionBad rgn then CdBadRegion
      else if CdIsRegionEmpty rgn then CdEmptyRegion
      else if \<not> mem then CdBadRegion
      else rgn)"

definition CdTranslateRegion :: "region option \<Rightarrow> i32 \<Rightarrow> i32 \<Rightarrow> errno option \<times> region option" where
  "CdTranslateRegion rgn offx offy =
     (case rgn of
        None \<Rightarrow> (Some EINVAL, None)
      | Some rgn \<Rightarrow>
          (if CdIsRegionBad rgn then (Some ENOMEM, Some rgn)
           else case rdata rgn of
             None \<Rightarrow> (None, Some rgn)
           | Some d \<Rightarrow>
               (None, Some (rgn\<lparr>rdata := Some (d\<lparr>trans_x := trans_x d + ucast offx, trans_y := trans_y d + ucast offy\<rparr>)\<rparr>))))"

text \<open>The bounds, with the right and the lower end in \<open>rw\<close> and \<open>rh\<close>.\<close>

definition GetRegionBoundsCallback :: "rect \<Rightarrow> rect \<Rightarrow> bool \<times> rect" where
  "GetRegionBoundsCallback r b =
     (let b = (if ry r < ry b then b\<lparr>ry := ry r\<rparr> else b);
          b = (if rx r < rx b then b\<lparr>rx := rx r\<rparr> else b);
          b = (if rw b < rx r + rw r then b\<lparr>rw := rx r + rw r\<rparr> else b);
          b = (if rh b < ry r + rh r then b\<lparr>rh := ry r + rh r\<rparr> else b)
      in (False, b))"

definition CdGetRegionBounds :: "region_iteration_context \<Rightarrow> region \<Rightarrow> rect option" where
  "CdGetRegionBounds stack rgn =
     (if CdIsRegionBad rgn \<or> CdIsRegionEmpty rgn then Some \<lparr>rx = 0, ry = 0, rw = 0, rh = 0\<rparr>
      else
        do { r \<leftarrow> IterateRegion stack rgn GetRegionBoundsCallback \<lparr>rx = 0x7FFF, ry = 0x7FFF, rw = - 0x8000, rh = - 0x8000\<rparr>;
             Some (r\<lparr>rw := rw r - rx r, rh := rh r - ry r\<rparr>) })"

section \<open>The spans of two regions on a line\<close>

datatype combine_mode = REGION_COMBINE_INTERSECT | REGION_COMBINE_UNION | REGION_COMBINE_XOR | REGION_COMBINE_DIFFERENCE

fun CheckRegionCondition :: "combine_mode \<Rightarrow> bool \<Rightarrow> bool \<Rightarrow> bool" where
  "CheckRegionCondition REGION_COMBINE_INTERSECT a b \<longleftrightarrow> a \<and> b"
| "CheckRegionCondition REGION_COMBINE_UNION a b \<longleftrightarrow> a \<or> b"
| "CheckRegionCondition REGION_COMBINE_XOR a b \<longleftrightarrow> a \<noteq> b"
| "CheckRegionCondition REGION_COMBINE_DIFFERENCE a b \<longleftrightarrow> a \<and> \<not> b"

text \<open>What the loop does with the next coordinate; \<open>out\<close> is what \<open>out_spans\<close> holds.\<close>

definition emit_edge :: "combine_mode \<Rightarrow> bool \<Rightarrow> bool \<Rightarrow> u16 \<Rightarrow> bool \<times> u16 list \<Rightarrow> bool \<times> u16 list" where
  "emit_edge mode active_a active_b cur_x st =
     (case st of (in_span, out) \<Rightarrow>
        (let should_be_active = CheckRegionCondition mode active_a active_b
         in if should_be_active \<and> \<not> in_span then (True, out @ [cur_x])
            else if \<not> should_be_active \<and> in_span then
              (False, if last out = cur_x then butlast out else out @ [cur_x])
            else (in_span, out)))"

text \<open>The loop; \<open>as\<close> and \<open>bs\<close> are the coordinates from \<open>a_idx\<close> and \<open>b_idx\<close> on.\<close>

function merge_edges :: "combine_mode \<Rightarrow> u16 list \<Rightarrow> u16 list \<Rightarrow> bool \<Rightarrow> bool \<Rightarrow> bool \<times> u16 list \<Rightarrow> u16 list" where
  "merge_edges mode as bs active_a active_b st =
     (if as = [] \<and> bs = [] then snd st
      else if as \<noteq> [] \<and> (bs = [] \<or> sint (hd as) < sint (hd bs)) then
        merge_edges mode (tl as) bs (\<not> active_a) active_b (emit_edge mode (\<not> active_a) active_b (hd as) st)
      else if bs \<noteq> [] \<and> (as = [] \<or> sint (hd bs) < sint (hd as)) then
        merge_edges mode as (tl bs) active_a (\<not> active_b) (emit_edge mode active_a (\<not> active_b) (hd bs) st)
      else
        merge_edges mode (tl as) (tl bs) (\<not> active_a) (\<not> active_b) (emit_edge mode (\<not> active_a) (\<not> active_b) (hd bs) st))"
  by pat_completeness auto
termination by (relation "measure (\<lambda>(mode, as, bs, aa, ab, st). length as + length bs)") (auto simp: neq_Nil_conv)

declare merge_edges.simps [simp del]

fun pairs_of :: "u16 list \<Rightarrow> spans" where
  "pairs_of (x0 # x1 # xs) = (x0, x1) # pairs_of xs"
| "pairs_of _ = []"

fun edges_of :: "spans \<Rightarrow> u16 list" where
  "edges_of [] = []"
| "edges_of ((x0, x1) # xs) = x0 # x1 # edges_of xs"

definition merge_spans :: "combine_mode \<Rightarrow> spans \<Rightarrow> spans \<Rightarrow> spans" where
  "merge_spans mode as bs = pairs_of (merge_edges mode (edges_of as) (edges_of bs) False False (False, []))"

section \<open>Correctness of the combination\<close>

definition covers :: "spans \<Rightarrow> int \<Rightarrow> bool" where
  "covers xs p \<longleftrightarrow> (\<exists>(x0, x1) \<in> set xs. sint x0 \<le> p \<and> p < sint x1)"

definition ordered :: "u16 list \<Rightarrow> bool" where
  "ordered = sorted_wrt (\<lambda>x y. sint x < sint y)"

text \<open>A point is inside when the number of ends at or before it is odd.\<close>

definition inside :: "u16 list \<Rightarrow> int \<Rightarrow> bool" where
  "inside es p \<longleftrightarrow> odd (length (filter (\<lambda>x. sint x \<le> p) es))"

lemma inside_simps [simp]:
  "\<not> inside [] p"
  "inside (x # es) p \<longleftrightarrow> ((sint x \<le> p) \<noteq> inside es p)"
  "inside (es @ fs) p \<longleftrightarrow> (inside es p \<noteq> inside fs p)"
  by (auto simp: inside_def)

lemma ordered_simps [simp]:
  "ordered []" "ordered (x # es) \<longleftrightarrow> (\<forall>y \<in> set es. sint x < sint y) \<and> ordered es"
  by (auto simp: ordered_def)

lemma ordered_append: "ordered (es @ fs) \<longleftrightarrow> ordered es \<and> ordered fs \<and> (\<forall>x \<in> set es. \<forall>y \<in> set fs. sint x < sint y)"
  by (auto simp: ordered_def sorted_wrt_append)

lemma inside_before: "\<forall>x \<in> set es. p < sint x \<Longrightarrow> \<not> inside es p"
  by (induction es) auto

lemma covers_simps [simp]:
  "\<not> covers [] p" "covers ((x0, x1) # xs) p \<longleftrightarrow> (sint x0 \<le> p \<and> p < sint x1) \<or> covers xs p"
  by (auto simp: covers_def)

lemma inside_edges: "ordered (edges_of xs) \<Longrightarrow> inside (edges_of xs) p \<longleftrightarrow> covers xs p"
proof (induction xs rule: edges_of.induct)
  case (2 x0 x1 xs)
  have "\<not> covers xs p" if "p < sint x1"
    using 2 that inside_before [of "edges_of xs" p] by fastforce
  then show ?case using 2 by (cases "p < sint x1") auto
qed simp

lemma edges_of_pairs: "even (length es) \<Longrightarrow> edges_of (pairs_of es) = es"
  by (induction es rule: pairs_of.induct) auto

text \<open>What has been written, when the coordinates in \<open>as\<close> and \<open>bs\<close> are still to come.\<close>

definition merging :: "combine_mode \<Rightarrow> u16 list \<Rightarrow> u16 list \<Rightarrow> bool \<Rightarrow> bool \<Rightarrow> bool \<times> u16 list \<Rightarrow> bool" where
  "merging mode as bs aa ab st \<longleftrightarrow> ordered as \<and> ordered bs \<and> ordered (snd st) \<and>
     (\<forall>x \<in> set (snd st). \<forall>y \<in> set as \<union> set bs. sint x < sint y) \<and>
     fst st = CheckRegionCondition mode aa ab \<and> odd (length (snd st)) = fst st"

lemma emit_edge_snd:
  assumes "merging mode as bs aa ab st" "x \<in> set as \<union> set bs" "s = CheckRegionCondition mode aa' ab'"
  shows "emit_edge mode aa' ab' x st = (s, if s \<noteq> fst st then snd st @ [x] else snd st)"
proof -
  have "fst st \<Longrightarrow> last (snd st) \<noteq> x"
    using assms(1,2) unfolding merging_def by (metis even_zero last_in_set less_irrefl list.size(3))
  then show ?thesis using assms(3) by (auto simp: emit_edge_def Let_def split: prod.split)
qed

lemma merging_step:
  assumes "merging mode as bs aa ab st" "x \<in> set as \<union> set bs" "set as' \<union> set bs' \<subseteq> set as \<union> set bs"
    "\<forall>y \<in> set as' \<union> set bs'. sint x < sint y" "ordered as'" "ordered bs'"
  shows "merging mode as' bs' aa' ab' (emit_edge mode aa' ab' x st)"
    "inside (snd (emit_edge mode aa' ab' x st)) p \<longleftrightarrow>
       (if sint x \<le> p then CheckRegionCondition mode aa' ab' else inside (snd st) p)"
proof -
  have m: "ordered (snd st)" "\<forall>x \<in> set (snd st). \<forall>y \<in> set as \<union> set bs. sint x < sint y" "odd (length (snd st)) = fst st"
    using assms(1) by (simp_all add: merging_def)
  show "merging mode as' bs' aa' ab' (emit_edge mode aa' ab' x st)"
    unfolding merging_def emit_edge_snd [OF assms(1,2) refl] fst_conv snd_conv
  proof (intro conjI)
    let ?out = "if CheckRegionCondition mode aa' ab' \<noteq> fst st then snd st @ [x] else snd st"
    show "ordered ?out" using m(1,2) assms(2) by (simp add: ordered_append)
    show "\<forall>x \<in> set ?out. \<forall>y \<in> set as' \<union> set bs'. sint x < sint y"
    proof (intro ballI)
      fix z y assume z: "z \<in> set ?out" and y: "y \<in> set as' \<union> set bs'"
      then have "z = x \<or> z \<in> set (snd st)" by (auto split: if_splits)
      then show "sint z < sint y" using m(2) assms(3,4) y by blast
    qed
    show "odd (length ?out) = CheckRegionCondition mode aa' ab'" using m(3) by simp
  qed (use assms(5,6) in auto)
  have "inside (snd st) p = fst st" if "sint x \<le> p"
  proof -
    have "sint y \<le> p" if "y \<in> set (snd st)" for y
    proof -
      have "sint y < sint x" using m(2) assms(2) that by blast
      then show ?thesis using \<open>sint x \<le> p\<close> by simp
    qed
    then have "filter (\<lambda>y. sint y \<le> p) (snd st) = snd st" by simp
    then show ?thesis using m(3) by (simp add: inside_def)
  qed
  then show "inside (snd (emit_edge mode aa' ab' x st)) p \<longleftrightarrow>
       (if sint x \<le> p then CheckRegionCondition mode aa' ab' else inside (snd st) p)"
    by (auto simp: emit_edge_snd [OF assms(1,2) refl])
qed

text \<open>One list before and after \<open>x\<close> has been taken, if it begins with it.\<close>

definition taken :: "u16 \<Rightarrow> u16 list \<Rightarrow> bool \<Rightarrow> u16 list \<Rightarrow> bool \<Rightarrow> bool" where
  "taken x as aa as' aa' \<longleftrightarrow> (as = x # as' \<and> aa' = (\<not> aa)) \<or> (as = as' \<and> aa' = aa \<and> (\<forall>y \<in> set as. sint x < sint y))"

definition merged :: "combine_mode \<Rightarrow> u16 list \<Rightarrow> u16 list \<Rightarrow> bool \<Rightarrow> bool \<Rightarrow> bool \<times> u16 list \<Rightarrow> u16 list \<Rightarrow> bool" where
  "merged mode as bs aa ab st R \<longleftrightarrow> ordered R \<and>
     (\<forall>p. inside R p \<longleftrightarrow> (if \<exists>x \<in> set as \<union> set bs. sint x \<le> p
        then CheckRegionCondition mode (aa \<noteq> inside as p) (ab \<noteq> inside bs p) else inside (snd st) p)) \<and>
     (odd (length R) \<longleftrightarrow> CheckRegionCondition mode (aa \<noteq> odd (length as)) (ab \<noteq> odd (length bs)))"

lemma taken_inside:
  assumes "taken x as aa as' aa'" "ordered as"
  shows "sint x \<le> p \<Longrightarrow> (aa' \<noteq> inside as' p) = (aa \<noteq> inside as p)" "(aa' \<noteq> odd (length as')) = (aa \<noteq> odd (length as))"
    "\<forall>y \<in> set as'. sint x < sint y" "ordered as'" "set as' \<subseteq> set as" "\<forall>y \<in> set as. sint x \<le> sint y"
  using assms by (auto simp: taken_def less_imp_le)

lemma merged_step:
  assumes "merging mode as bs aa ab st" "taken x as aa as' aa'" "taken x bs ab bs' ab'" "x \<in> set as \<union> set bs"
    "\<And>st'. st' = emit_edge mode aa' ab' x st \<Longrightarrow> merging mode as' bs' aa' ab' st' \<Longrightarrow> merged mode as' bs' aa' ab' st' R"
  shows "merged mode as bs aa ab st R"
proof -
  have ord: "ordered as" "ordered bs" using assms(1) by (simp_all add: merging_def)
  note ta = taken_inside [OF assms(2) ord(1)] and tb = taken_inside [OF assms(3) ord(2)]
  let ?st = "emit_edge mode aa' ab' x st"
  have lt: "\<forall>y \<in> set as' \<union> set bs'. sint x < sint y" and sub: "set as' \<union> set bs' \<subseteq> set as \<union> set bs" using ta tb by auto
  note st = merging_step [OF assms(1,4) sub lt ta(4) tb(4)]
  have R: "ordered R" "\<And>p. inside R p \<longleftrightarrow> (if \<exists>x \<in> set as' \<union> set bs'. sint x \<le> p
        then CheckRegionCondition mode (aa' \<noteq> inside as' p) (ab' \<noteq> inside bs' p) else inside (snd ?st) p)"
    "odd (length R) \<longleftrightarrow> CheckRegionCondition mode (aa' \<noteq> odd (length as')) (ab' \<noteq> odd (length bs'))"
    using assms(5) [OF refl st(1)] by (auto simp: merged_def)
  have "inside R p \<longleftrightarrow> (if \<exists>x \<in> set as \<union> set bs. sint x \<le> p
        then CheckRegionCondition mode (aa \<noteq> inside as p) (ab \<noteq> inside bs p) else inside (snd st) p)" for p
  proof (cases "sint x \<le> p")
    case False
    have "p < sint y" if "y \<in> set as \<union> set bs" for y using that ta(6) tb(6) False by force
    then have "\<not> (\<exists>x \<in> set as \<union> set bs. sint x \<le> p)" "\<not> (\<exists>x \<in> set as' \<union> set bs'. sint x \<le> p)"
      using sub by (auto simp: not_le)
    then show ?thesis using R(2) st(2) False by simp
  next
    case le: True
    then have ex: "\<exists>x \<in> set as \<union> set bs. sint x \<le> p" using assms(4) by blast
    show ?thesis
    proof (cases "\<exists>x \<in> set as' \<union> set bs'. sint x \<le> p")
      case True
      then show ?thesis using R(2) ex ta(1) [OF le] tb(1) [OF le] by simp
    next
      case False
      then have "\<not> inside as' p" "\<not> inside bs' p" by (auto intro!: inside_before simp: not_le)
      then show ?thesis using R(2) False ex st(2) le ta(1) [OF le] tb(1) [OF le] by simp
    qed
  qed
  then show ?thesis using R(1,3) ta(2) tb(2) by (simp add: merged_def)
qed

lemma merge_edges_spec: "merging mode as bs aa ab st \<Longrightarrow> merged mode as bs aa ab st (merge_edges mode as bs aa ab st)"
proof (induction mode as bs aa ab st rule: merge_edges.induct)
  case (1 mode as bs aa ab st)
  note m = "1.prems"
  have ord: "ordered as" "ordered bs" using m by (simp_all add: merging_def)
  consider (none) "as = []" "bs = []" | (a) x as' where "as = x # as'" "bs = [] \<or> sint x < sint (hd bs)"
    | (b) y bs' where "bs = y # bs'" "as = [] \<or> sint y < sint (hd as)" | (ab) x as' bs' where "as = x # as'" "bs = x # bs'"
    using linorder_less_linear [of "sint (hd as)" "sint (hd bs)"] by (cases as; cases bs) (auto dest: signed_word_eqI)
  then show ?case
  proof cases
    case none
    then show ?thesis using m by (simp add: merge_edges.simps merging_def merged_def)
  next
    case a
    have t: "taken x as aa as' (\<not> aa)" "taken x bs ab bs ab" using a ord by (cases bs; auto simp: taken_def)+
    have "merge_edges mode as bs aa ab st = merge_edges mode as' bs (\<not> aa) ab (emit_edge mode (\<not> aa) ab x st)"
      using a by (subst merge_edges.simps) simp
    then show ?thesis using merged_step [OF m t] "1.IH"(1) a by auto
  next
    case b
    have t: "taken y as aa as aa" "taken y bs ab bs' (\<not> ab)" using b ord by (cases as; auto simp: taken_def)+
    have "merge_edges mode as bs aa ab st = merge_edges mode as bs' aa (\<not> ab) (emit_edge mode aa (\<not> ab) y st)"
      using b by (subst merge_edges.simps) auto
    then show ?thesis using merged_step [OF m t] "1.IH"(2) b by auto
  next
    case ab
    have t: "taken x as aa as' (\<not> aa)" "taken x bs ab bs' (\<not> ab)" using ab ord by (auto simp: taken_def)
    have "merge_edges mode as bs aa ab st = merge_edges mode as' bs' (\<not> aa) (\<not> ab) (emit_edge mode (\<not> aa) (\<not> ab) x st)"
      using ab by (subst merge_edges.simps) auto
    then show ?thesis using merged_step [OF m t] "1.IH"(3) ab by auto
  qed
qed

definition spans_ok :: "spans \<Rightarrow> bool" where
  "spans_ok xs \<longleftrightarrow> ordered (edges_of xs)"

lemma length_edges_of: "length (edges_of xs) = 2 * length xs"
  by (induction xs rule: edges_of.induct) auto

text \<open>
  C31. The spans of a combination are in order and disjoint, and cover exactly the points that the mode asks for.
\<close>

theorem merge_spans_correct:
  assumes "spans_ok as" "spans_ok bs"
  shows "spans_ok (merge_spans mode as bs) \<and>
    (\<forall>p. covers (merge_spans mode as bs) p \<longleftrightarrow> CheckRegionCondition mode (covers as p) (covers bs p))"
proof -
  let ?R = "merge_edges mode (edges_of as) (edges_of bs) False False (False, [])"
  have no: "\<not> CheckRegionCondition mode False False" by (cases mode) auto
  have "merging mode (edges_of as) (edges_of bs) False False (False, [])" using assms no by (auto simp: merging_def spans_ok_def)
  from merge_edges_spec [OF this] have R: "ordered ?R" "\<And>p. inside ?R p \<longleftrightarrow> CheckRegionCondition mode (inside (edges_of as) p) (inside (edges_of bs) p)"
    "even (length ?R)"
    using no inside_before [of "edges_of as"] inside_before [of "edges_of bs"]
    by (auto simp: merged_def length_edges_of not_le)
  have e: "edges_of (merge_spans mode as bs) = ?R" using R(3) by (simp add: merge_spans_def edges_of_pairs)
  show ?thesis
    using R(1,2) inside_edges [of as] inside_edges [of bs] inside_edges [of "merge_spans mode as bs"] assms
    by (auto simp: spans_ok_def e)
qed

theorem merge_spans_correct_witness:
  "spans_ok (merge_spans REGION_COMBINE_XOR [(- 5, 3), (8, 20)] [(0, 8)]) \<and>
    (\<forall>p. covers (merge_spans REGION_COMBINE_XOR [(- 5, 3), (8, 20)] [(0, 8)]) p \<longleftrightarrow>
      CheckRegionCondition REGION_COMBINE_XOR (covers [(- 5, 3), (8, 20)] p) (covers [(0, 8)] p))"
  by (rule merge_spans_correct) (simp_all add: spans_ok_def)

lemma merge_spans_example: "merge_spans REGION_COMBINE_XOR [(- 5, 3), (8, 20)] [(0, 8)] = [(- 5, 0), (3, 20)]"
  by (simp add: merge_spans_def merge_edges.simps emit_edge_def)

end
