(* ===== verification/Shapes.thy ===== *)
theory Shapes
  imports RegionRound "HOL-Library.Signed_Division"
begin

unbundle bit_operations_syntax

text \<open>
  Regions made from shapes (\<^verbatim>\<open>kernel/CLIPDRAW/fully_pageable/\<close>): bitmaps, rounded rectangles and
  ellipses, and the integer square root they use.
\<close>

section \<open>The integer square root\<close>

function sqrt_start :: "nat \<Rightarrow> nat \<Rightarrow> nat" where
  "sqrt_start x b = (if x < b then sqrt_start x (b div 4) else b)"
  by auto
termination by (relation "measure snd") auto

function sqrt_loop :: "nat \<Rightarrow> nat \<Rightarrow> nat \<Rightarrow> nat" where
  "sqrt_loop x r b =
     (if b \<noteq> 0 then
        (if r + b \<le> x then sqrt_loop (x - (r + b)) (r div 2 + b) (b div 4)
         else sqrt_loop x (r div 2) (b div 4))
      else r)"
  by auto
termination by (relation "measure (\<lambda>(x, r, b). b)") auto

declare sqrt_start.simps [simp del] sqrt_loop.simps [simp del]

definition IntegerSqrt :: "u32 \<Rightarrow> u32" where
  "IntegerSqrt x =
     (if sint x \<le> 0 then 0
      else if sint x \<le> 2 then 1
      else of_nat (sqrt_loop (unat x) 0 (sqrt_start (unat x) (2 ^ 30))))"

lemma sqrt_start_spec: "\<lbrakk>x < 4 ^ (k + 1); 0 < x\<rbrakk> \<Longrightarrow> \<exists>j. sqrt_start x (4 ^ k) = 4 ^ j \<and> x < 4 ^ (j + 1)"
proof (induction k)
  case 0
  then show ?case by (subst sqrt_start.simps) (auto intro!: exI [of _ 0])
next
  case (Suc k)
  show ?case
  proof (cases "x < 4 ^ Suc k")
    case True
    then have "sqrt_start x (4 ^ Suc k) = sqrt_start x (4 ^ k)" by (subst sqrt_start.simps) simp
    then show ?thesis using Suc True by simp
  next
    case False
    then have "sqrt_start x (4 ^ Suc k) = 4 ^ Suc k" by (subst sqrt_start.simps) simp
    then show ?thesis using Suc.prems by (intro exI [of _ "Suc k"]) simp
  qed
qed

text \<open>\<open>s\<close> is the part of the root that has been found, a multiple of the power of two that comes next.\<close>

lemma sqrt_loop_0: "sqrt_loop x r 0 = r"
  by (subst sqrt_loop.simps) simp

lemma sqrt_loop_spec:
  assumes "x + s ^ 2 < (s + 2 ^ (k + 1)) ^ 2" "2 ^ (k + 1) dvd s"
  shows "(sqrt_loop x (s * 2 ^ (k + 1)) (4 ^ k)) ^ 2 \<le> x + s ^ 2 \<and> x + s ^ 2 < (sqrt_loop x (s * 2 ^ (k + 1)) (4 ^ k) + 1) ^ 2"
  using assms
proof (induction k arbitrary: x s)
  case 0
  show ?case
  proof (cases "s * 2 + 1 \<le> x")
    case True
    then have "sqrt_loop x (s * 2 ^ (0 + 1)) (4 ^ 0) = s + 1" by (subst sqrt_loop.simps) (simp add: sqrt_loop_0)
    then show ?thesis using 0 True by (simp add: power2_eq_square algebra_simps)
  next
    case False
    then have "sqrt_loop x (s * 2 ^ (0 + 1)) (4 ^ 0) = s" by (subst sqrt_loop.simps) (simp add: sqrt_loop_0)
    then show ?thesis using False by (simp add: power2_eq_square algebra_simps)
  qed
next
  case (Suc k)
  define q :: nat where "q = 2 ^ (k + 1)"
  have q: "4 ^ Suc k = q * q" "2 ^ (Suc k + 1) = 2 * q" by (simp_all add: q_def power_mult_distrib [symmetric])
  have half: "s * 2 ^ (Suc k + 1) div 2 = s * 2 ^ (k + 1)" by simp
  have half_add: "s * 2 ^ (Suc k + 1) div 2 + 4 ^ Suc k = (s + q) * 2 ^ (k + 1)"
    unfolding half q(1) q_def [symmetric] by (simp add: algebra_simps)
  have quarter: "(4 :: nat) ^ Suc k div 4 = 4 ^ k" by simp
  have dvd: "q dvd s" using Suc.prems(2) unfolding q(2) by (rule dvd_mult_right)
  show ?case
  proof (cases "s * 2 ^ (Suc k + 1) + 4 ^ Suc k \<le> x")
    case True
    let ?s = "s + q" and ?x = "x - (s * 2 ^ (Suc k + 1) + 4 ^ Suc k)"
    have sq: "?x + ?s ^ 2 = x + s ^ 2" using True unfolding q by (simp add: power2_eq_square algebra_simps)
    have eq: "sqrt_loop x (s * 2 ^ (Suc k + 1)) (4 ^ Suc k) = sqrt_loop ?x (?s * 2 ^ (k + 1)) (4 ^ k)"
      using True by (subst sqrt_loop.simps) (simp only: half_add quarter, simp)
    have "?x + ?s ^ 2 < (?s + 2 ^ (k + 1)) ^ 2" using Suc.prems(1) unfolding sq unfolding q(2) q_def [symmetric] by (simp add: mult_2 add.assoc)
    moreover have "2 ^ (k + 1) dvd ?s" using dvd by (simp add: q_def)
    ultimately show ?thesis using Suc.IH [of ?x ?s] unfolding eq sq by blast
  next
    case False
    have eq: "sqrt_loop x (s * 2 ^ (Suc k + 1)) (4 ^ Suc k) = sqrt_loop x (s * 2 ^ (k + 1)) (4 ^ k)"
      using False by (subst sqrt_loop.simps) (simp only: half quarter, simp)
    have "x + s ^ 2 < (s + q) ^ 2" using False unfolding q by (simp add: power2_eq_square algebra_simps)
    then show ?thesis using Suc.IH [of x s] dvd unfolding eq q_def by blast
  qed
qed

lemma sint_small: "n < 2 ^ 31 \<Longrightarrow> sint (of_nat n :: u32) = int n"
  by transfer (simp add: signed_take_bit_int_eq_self)

lemma sint_unat: "0 \<le> sint (x :: u32) \<Longrightarrow> sint x = int (unat x)"
proof -
  assume "0 \<le> sint x"
  then have "uint x = sint x" using sint_lt [of x] by (simp add: uint_sint take_bit_int_eq_self)
  then show ?thesis by simp
qed

lemma unat_31: "0 \<le> sint (x :: u32) \<Longrightarrow> unat x < 2 ^ 31"
proof -
  assume "0 \<le> sint x"
  then have "int (unat x) < int (2 ^ 31)" using sint_unat [of x] sint_lt [of x] by simp
  then show ?thesis by (simp only: of_nat_less_iff)
qed

text \<open>
  \<open>IntegerSqrt\<close> is the square root, rounded down.
\<close>

lemma IntegerSqrt_correct:
  assumes "0 \<le> sint x"
  shows "0 \<le> sint (IntegerSqrt x) \<and> sint (IntegerSqrt x) ^ 2 \<le> sint x \<and> sint x < (sint (IntegerSqrt x) + 1) ^ 2"
proof -
  let ?n = "unat x"
  note n = sint_unat [OF assms]
  consider "?n = 0" | "?n = 1" | "?n = 2" | "2 < ?n" by linarith
  then show ?thesis
  proof cases
    case 4
    note n31 = unat_31 [OF assms]
    then have "?n < 4 ^ (15 + 1)" by simp
    then obtain j where j: "sqrt_start ?n (4 ^ 15) = 4 ^ j" "?n < 4 ^ (j + 1)" using sqrt_start_spec [of ?n 15] 4 by auto
    let ?r = "sqrt_loop ?n 0 (4 ^ j)"
    have "?n + 0 ^ 2 < (0 + 2 ^ (j + 1)) ^ 2" using j(2) by (simp add: power_mult [symmetric] power2_eq_square power_mult_distrib [symmetric])
    from sqrt_loop_spec [OF this] have r: "?r ^ 2 \<le> ?n" "?n < (?r + 1) ^ 2" by simp_all
    have "?r ^ 2 < (2 ^ 16) ^ 2" using r(1) n31 by simp
    then have lt: "?r < 2 ^ 16" by (rule power_less_imp_less_base) simp
    have gt: "\<not> sint x \<le> 0" "\<not> sint x \<le> 2" unfolding n using 4 by linarith+
    then have "IntegerSqrt x = of_nat ?r" using j(1) by (simp add: IntegerSqrt_def)
    then have eq: "sint (IntegerSqrt x) = int ?r" using lt by (simp add: sint_small)
    have "int (?r ^ 2) \<le> int ?n" "int ?n < int ((?r + 1) ^ 2)" using r by (simp_all only: of_nat_le_iff of_nat_less_iff)
    then show ?thesis unfolding n eq by (simp only: of_nat_power of_nat_add of_nat_1 of_nat_0_le_iff simp_thms)
  qed (use n in \<open>auto simp: IntegerSqrt_def\<close>)
qed

lemma IntegerSqrt_correct_witness:
  "0 \<le> sint (IntegerSqrt 2147483647) \<and> sint (IntegerSqrt 2147483647) ^ 2 \<le> sint (2147483647 :: u32) \<and>
     sint (2147483647 :: u32) < (sint (IntegerSqrt 2147483647) + 1) ^ 2"
  by (rule IntegerSqrt_correct) simp

section \<open>Building without looking at errors\<close>

text \<open>
  The shapes ignore the results of the builder. \<open>mem\<close> says for each line whether there is memory for the band and for the
  copy of the spans, \<open>mem0\<close> for the new region and \<open>memf\<close> for the last band.
\<close>

fun push_all :: "(spans \<times> bool \<times> bool \<times> bool) list \<Rightarrow> region \<times> region_build_context \<Rightarrow> (region \<times> region_build_context) option" where
  "push_all [] st = Some st"
| "push_all ((xs, same, mem1, mem2) # ls) st =
     do { (_, rgn, ctxt) \<leftarrow> AddScanline (fst st) (snd st) (Some xs) same mem1 mem2;
          push_all ls (rgn, ctxt) }"

definition shape :: "u16 \<Rightarrow> (spans \<times> bool \<times> bool \<times> bool) list \<Rightarrow> bool \<Rightarrow> bool \<Rightarrow> region option" where
  "shape y ls mem0 memf =
     (case BuildNewRegion y zeroed_context mem0 of
        (_, st) \<Rightarrow>
          do { (rgn, ctxt) \<leftarrow> push_all ls st;
               (_, rgn, _) \<leftarrow> FinishRegion rgn ctxt memf;
               Some rgn })"

definition with_mem :: "(nat \<Rightarrow> bool \<times> bool) \<Rightarrow> (spans \<times> bool) list \<Rightarrow> (spans \<times> bool \<times> bool \<times> bool) list" where
  "with_mem mem ls = map2 (\<lambda>k (xs, same). (xs, same, mem k)) [0..<length ls] ls"

section \<open>Bitmaps\<close>

definition bit_at :: "u8 list \<Rightarrow> nat \<Rightarrow> nat \<Rightarrow> bool option" where
  "bit_at data row dx =
     (if row + dx div 8 < length data then Some (data ! (row + dx div 8) AND push_bit (7 - dx mod 8) 1 \<noteq> 0) else None)"

text \<open>The runs of bits of a row, the last one ended by the right edge. The calls of the builder follow from them.\<close>

fun row_loop :: "(nat \<Rightarrow> bool option) \<Rightarrow> u32 \<Rightarrow> nat \<Rightarrow> nat list \<Rightarrow> u32 option \<Rightarrow> spans option" where
  "row_loop get x width [] start =
     Some (case start of None \<Rightarrow> [] | Some s \<Rightarrow> [(ucast s, ucast (x + of_nat width))])"
| "row_loop get x width (dx # dxs) start =
     do { b \<leftarrow> get dx;
          if b then row_loop get x width dxs (if start = None then Some (x + of_nat dx) else start)
          else case start of
            None \<Rightarrow> row_loop get x width dxs None
          | Some s \<Rightarrow>
              do { xs \<leftarrow> row_loop get x width dxs None;
                   Some ((ucast s, ucast (x + of_nat dx)) # xs) } }"

definition row_runs :: "u32 \<Rightarrow> nat \<Rightarrow> u8 list \<Rightarrow> nat \<Rightarrow> spans option" where
  "row_runs x width data i = row_loop (bit_at data (i * ((width + 7) div 8))) x width [0..<width] None"

fun all_rows :: "(nat \<Rightarrow> spans option) \<Rightarrow> nat list \<Rightarrow> spans list option" where
  "all_rows f [] = Some []"
| "all_rows f (i # is) = do { xs \<leftarrow> f i; ls \<leftarrow> all_rows f is; Some (xs # ls) }"

definition CdCreateRegionFromBitmask :: "u32 \<Rightarrow> u32 \<Rightarrow> u32 \<Rightarrow> u32 \<Rightarrow> u8 list option \<Rightarrow> bool \<Rightarrow> (nat \<Rightarrow> bool \<times> bool) \<Rightarrow> bool \<Rightarrow> region option" where
  "CdCreateRegionFromBitmask x y width height data mem0 mem memf =
     (case data of
        Some bytes \<Rightarrow>
          (if sint width \<le> 0 \<or> sint height \<le> 0 then shape (ucast y) [] mem0 memf
           else
             do { rows \<leftarrow> all_rows (row_runs x (unat width) bytes) [0..<unat height];
                  shape (ucast y) (with_mem mem (map (\<lambda>sp. ([sp], False)) (concat rows))) mem0 memf })
      | None \<Rightarrow> shape (ucast y) [] mem0 memf)"

section \<open>Rounded rectangles\<close>

definition corner_line :: "u32 \<Rightarrow> u32 \<Rightarrow> u32 \<Rightarrow> u32 \<Rightarrow> spans" where
  "corner_line x width radius dy =
     (let dx = radius - IntegerSqrt (radius * radius - dy * dy)
      in [(ucast (x + dx), ucast (x + width - dx))])"

definition clamp_radius :: "u32 \<Rightarrow> u32 \<Rightarrow> u32 \<Rightarrow> u32" where
  "clamp_radius width height radius =
     (let max_r = (if sint width < sint height then sint width else sint height) sdiv 2;
          radius = (if max_r \<le> sint radius then max_r - 1 else sint radius)
      in word_of_int (if radius < 0 then 0 else radius))"

definition rrect_lines :: "u32 \<Rightarrow> u32 \<Rightarrow> u32 \<Rightarrow> u32 \<Rightarrow> (spans \<times> bool) list" where
  "rrect_lines x width height radius =
     (let r = unat radius
      in map (\<lambda>i. (corner_line x width radius (radius - of_nat i), False)) [0..<r] @
         map (\<lambda>i. ([(ucast x, ucast (x + width))], i \<noteq> 0)) [0..<nat (sint (height - 2 * radius))] @
         map (\<lambda>i. (corner_line x width radius (of_nat (i + 1)), False)) [0..<r])"

definition CdCreateRoundedRectRegion :: "u32 \<Rightarrow> u32 \<Rightarrow> u32 \<Rightarrow> u32 \<Rightarrow> u32 \<Rightarrow> bool \<Rightarrow> (nat \<Rightarrow> bool \<times> bool) \<Rightarrow> bool \<Rightarrow> region option" where
  "CdCreateRoundedRectRegion x y width height radius mem0 mem memf =
     (let radius = clamp_radius width height radius
      in if sint width \<le> 0 \<or> sint height \<le> 0 then shape (ucast y) [] mem0 memf
         else shape (ucast y) (with_mem mem (rrect_lines x width height radius)) mem0 memf)"

section \<open>Ellipses\<close>

text \<open>A division by zero gives \<open>None\<close>. The product of \<open>a\<close> with the root is shifted with its sign.\<close>

definition ellipse_line :: "u32 \<Rightarrow> u32 \<Rightarrow> u32 \<Rightarrow> u32 \<Rightarrow> (spans \<times> bool) option" where
  "ellipse_line center_x a b dy =
     (let b2 = b * b; remaining = b2 - dy * dy
      in if sint remaining < 0 then Some ([], False)
         else if b2 = 0 then None
         else
           (let dx2_scaled = word_of_int ((1073741824 * sint remaining) sdiv sint b2) :: u32;
                dx = word_of_int (sint (a * IntegerSqrt dx2_scaled) div 2 ^ 15) :: u32
            in if dx = 0 then Some ([], False)
               else Some ([(ucast (center_x - dx), ucast (center_x + dx))], False)))"

fun ellipse_lines :: "u32 \<Rightarrow> u32 \<Rightarrow> u32 \<Rightarrow> nat list \<Rightarrow> (spans \<times> bool) list option" where
  "ellipse_lines center_x a b [] = Some []"
| "ellipse_lines center_x a b (i # is) =
     do { l \<leftarrow> ellipse_line center_x a b (of_nat i - b);
          ls \<leftarrow> ellipse_lines center_x a b is;
          Some (l # ls) }"

definition CdCreateEllipseRegion :: "u32 \<Rightarrow> u32 \<Rightarrow> u32 \<Rightarrow> u32 \<Rightarrow> bool \<Rightarrow> (nat \<Rightarrow> bool \<times> bool) \<Rightarrow> bool \<Rightarrow> region option" where
  "CdCreateEllipseRegion x y width height mem0 mem memf =
     (if sint width \<le> 0 \<or> sint height \<le> 0 then shape (ucast y) [] mem0 memf
      else
        (let a = width div 2; b = height div 2
         in do { ls \<leftarrow> ellipse_lines (x + a) a b [0..<unat height];
                 shape (ucast y) (with_mem mem ls) mem0 memf }))"

section \<open>What the shapes show\<close>

lemma push_all_add_lines: "add_lines ls rgn ctxt = Some (None, rgn', ctxt') \<Longrightarrow> push_all ls (rgn, ctxt) = Some (rgn', ctxt')"
  by (induction ls arbitrary: rgn ctxt) (auto simp: bind_eq_Some_conv split: if_splits)

lemma shape_spec:
  assumes "honest None ls" "fits (map fst ls)" "has_mem ls"
  shows "\<exists>rgn. shape y ls True True = Some rgn \<and>
    (\<forall>stack f s. stack_ok stack \<longrightarrow> IterateRegion stack rgn f s = Some (snd (visit f (rects_of (bands_from y (map fst ls))) s)))"
proof -
  obtain rgn ctxt where b: "build y ls True = Some (None, rgn, ctxt)" using build_safe [OF assms(1,2), of y True] assms(3) by auto
  then have "shape y ls True True = Some rgn"
    by (auto simp: build_def shape_def bind_eq_Some_conv split: prod.splits if_splits dest!: push_all_add_lines)
  moreover have "IterateRegion stack rgn f s = Some (snd (visit f (rects_of (bands_from y (map fst ls))) s))" if "stack_ok stack"
    for stack f and s :: 's
    using build_spec [OF that assms(1,2), of y True f s] b by auto
  ultimately show ?thesis by blast
qed

text \<open>The flags say the truth.\<close>

fun truthful :: "spans option \<Rightarrow> (spans \<times> bool) list \<Rightarrow> bool" where
  "truthful prev [] \<longleftrightarrow> True"
| "truthful prev ((xs, same) # ls) \<longleftrightarrow> (same \<longrightarrow> prev = Some xs) \<and> truthful (Some xs) ls"

lemma truthful_append:
  "truthful prev (as @ bs) \<longleftrightarrow> truthful prev as \<and> truthful (if as = [] then prev else Some (fst (last as))) bs"
  by (induction prev as rule: truthful.induct) auto

lemma truthful_False: "\<forall>l \<in> set ls. \<not> snd l \<Longrightarrow> truthful prev ls"
  by (induction prev ls rule: truthful.induct) auto

lemma truthful_same: "k = 0 \<or> prev = Some c \<Longrightarrow> truthful prev (map (\<lambda>i. (c, i \<noteq> 0)) [k..<n])"
proof (induction "n - k" arbitrary: k prev)
  case (Suc m)
  then have "[k..<n] = k # [Suc k..<n]" by (simp add: upt_conv_Cons)
  then show ?case using Suc by auto
qed simp

lemma with_mem_ok:
  assumes "truthful None ls" "\<forall>k. mem k = (True, True)"
  shows "honest None (with_mem mem ls)" "has_mem (with_mem mem ls)" "map fst (with_mem mem ls) = map fst ls"
proof -
  have "honest prev (map2 (\<lambda>k (xs, same). (xs, same, mem k)) ks ls) \<and> has_mem (map2 (\<lambda>k (xs, same). (xs, same, mem k)) ks ls) \<and>
      map fst (map2 (\<lambda>k (xs, same). (xs, same, mem k)) ks ls) = map fst ls"
    if "truthful prev ls" "length ks = length ls" for prev ks
    using that assms(2)
  proof (induction prev ls arbitrary: ks rule: truthful.induct)
    case (2 prev xs same ls)
    then show ?case by (cases ks) auto
  qed simp
  then show "honest None (with_mem mem ls)" "has_mem (with_mem mem ls)" "map fst (with_mem mem ls) = map fst ls"
    using assms(1) by (simp_all add: with_mem_def)
qed

lemma fits_short:
  assumes "\<forall>xs \<in> set ls. length xs \<le> 1" "length ls < 65536"
  shows "fits ls"
proof -
  have "costs ls \<le> 10 * length ls" using assms(1) by (induction ls) (auto simp: costs_def cost_def)
  then show ?thesis using assms by (fastforce simp: fits_def list_all_iff)
qed

lemma shape_of_lines:
  assumes "truthful None ls" "\<forall>k. mem k = (True, True)" "\<forall>l \<in> set ls. length (fst l) \<le> 1" "length ls < 65536"
  shows "\<exists>rgn. shape y (with_mem mem ls) True True = Some rgn \<and>
    (\<forall>stack f s. stack_ok stack \<longrightarrow> IterateRegion stack rgn f s = Some (snd (visit f (rects_of (bands_from y (map fst ls))) s)))"
proof -
  note w = with_mem_ok [OF assms(1,2)]
  have "fits (map fst (with_mem mem ls))" unfolding w(3) using assms(3,4) by (intro fits_short) auto
  from shape_spec [OF w(1) this w(2), of y] show ?thesis unfolding w(3) .
qed

text \<open>
  A region made from a bitmap has one line for each run of bits, from the top; a row with two runs takes two lines and a
  row without bits takes none. So it is the bitmap only when each row has exactly one run.
\<close>

lemma bitmask_runs_are_lines:
  assumes "0 < sint width" "0 < sint height" "all_rows (row_runs x (unat width) bytes) [0..<unat height] = Some rows"
    "length (concat rows) < 65536" "\<forall>k. mem k = (True, True)" "stack_ok stack"
  shows "\<exists>rgn. CdCreateRegionFromBitmask x y width height (Some bytes) True mem True = Some rgn \<and>
    IterateRegion stack rgn f s = Some (snd (visit f (rects_of (bands_from (ucast y) (map (\<lambda>sp. [sp]) (concat rows)))) s))"
proof -
  let ?ls = "map (\<lambda>sp. ([sp], False)) (concat rows)"
  have eq: "CdCreateRegionFromBitmask x y width height (Some bytes) True mem True = shape (ucast y) (with_mem mem ?ls) True True"
    using assms(1-3) by (simp add: CdCreateRegionFromBitmask_def)
  have ls: "truthful None ?ls" "\<forall>l \<in> set ?ls. length (fst l) \<le> 1" "length ?ls < 65536"
    using assms(4) by (auto intro: truthful_False)
  obtain rgn where r: "shape (ucast y) (with_mem mem ?ls) True True = Some rgn"
    "\<forall>stack f (s :: 'a). stack_ok stack \<longrightarrow> IterateRegion stack rgn f s = Some (snd (visit f (rects_of (bands_from (ucast y) (map fst ?ls))) s))"
    using shape_of_lines [OF ls(1) assms(5) ls(2,3), of "ucast y"] by (elim exE conjE)
  have "map fst ?ls = map (\<lambda>sp. [sp]) (concat rows)" by simp
  then show ?thesis unfolding eq using r(1) r(2) [rule_format, OF assms(6), of f s] by (intro exI [of _ rgn] conjI) (simp_all only:)
qed

text \<open>The bits 101 of one row show up below each other.\<close>

lemma bitmask_runs_are_lines_witness:
  "\<exists>rgn. CdCreateRegionFromBitmask 10 20 3 1 (Some [0xA0]) True (\<lambda>_. (True, True)) True = Some rgn \<and>
    IterateRegion zero_stack rgn (\<lambda>r rs. (False, rs @ [r])) [] =
      Some [\<lparr>rx = 10, ry = 20, rw = 1, rh = 1\<rparr>, \<lparr>rx = 12, ry = 21, rw = 1, rh = 1\<rparr>]"
proof -
  have "all_rows (row_runs 10 (unat (3 :: u32)) [0xA0]) [0..<unat (1 :: u32)] = Some [[(10, 11), (12, 13)]]" by code_simp
  from bitmask_runs_are_lines [OF _ _ this, of "\<lambda>_. (True, True)" zero_stack 20 "\<lambda>r rs. (False, rs @ [r])" "[]"]
  show ?thesis by (simp add: stack_ok_zero rects_of_def rect_of_def Let_def)
qed

text \<open>An ellipse that is one line high divides by zero.\<close>

lemma ellipse_height_1: "0 < sint width \<Longrightarrow> CdCreateEllipseRegion x y width 1 mem0 mem memf = None"
  by (simp add: CdCreateEllipseRegion_def ellipse_line_def Let_def)

text \<open>Without memory for the new region, the second different line is written through a null pointer.\<close>

lemma shape_out_of_memory:
  "x \<noteq> z \<Longrightarrow> shape y [([x], False, True, True), ([z], False, True, True)] False memf = None"
  by (simp add: shape_def BuildNewRegion_def AddScanline_def zeroed_context_def)

lemma clamp_radius_bound:
  assumes "0 < sint width" "0 < sint height"
  shows "2 * unat (clamp_radius width height radius) \<le> unat height"
proof -
  define m where "m = (if sint width < sint height then sint width else sint height)"
  define r where "r = (let q = m sdiv 2; p = (if q \<le> sint radius then q - 1 else sint radius) in if p < 0 then 0 else p)"
  have m: "0 < m" "m \<le> sint height" using assms by (auto simp: m_def)
  have "m sdiv 2 = m div 2" using m by (simp add: signed_divide_int_def sgn_if)
  then have r: "0 \<le> r" "2 * r \<le> m" using m by (auto simp: r_def Let_def)
  have c: "clamp_radius width height radius = word_of_int r" by (simp add: clamp_radius_def r_def m_def Let_def)
  have h: "sint height = int (unat height)" using assms(2) by (simp add: sint_unat)
  have "r < 2 ^ 31" using r m sint_lt [of height] by simp
  moreover have "word_of_int r = (of_nat (nat r) :: u32)" using r(1) by simp
  ultimately have "unat (clamp_radius width height radius) = nat r" unfolding c by (simp add: unat_of_nat nat_less_iff)
  then show ?thesis using r m h by linarith
qed

lemma rrect_lines_shape:
  assumes "0 < sint height" "2 * unat radius \<le> unat height"
  shows "length (rrect_lines x width height radius) = unat height"
    "rev (map fst (rrect_lines x width height radius)) = map fst (rrect_lines x width height radius)"
    "truthful None (rrect_lines x width height radius)" "\<forall>l \<in> set (rrect_lines x width height radius). length (fst l) \<le> 1"
proof -
  define m where "m = nat (sint (height - 2 * radius))"
  let ?top = "\<lambda>i. corner_line x width radius (radius - of_nat i)" and ?bot = "\<lambda>i. corner_line x width radius (of_nat (i + 1))"
  let ?mid = "[(ucast x, ucast (x + width))]"
  have h: "sint height = int (unat height)" using assms(1) by (simp add: sint_unat)
  have h31: "unat height < 2 ^ 31" using assms(1) by (simp only: unat_31 less_imp_le)
  have u: "unat (2 * radius) = 2 * unat radius" using assms(2) h31 by (simp only: unat_word_ariths) simp
  have "unat (height - 2 * radius) = unat height - 2 * unat radius"
    using assms(2) u by (simp add: unat_sub word_le_nat_alt)
  moreover have "sint (height - 2 * radius) = int (unat (height - 2 * radius))"
  proof -
    have "unat (height - 2 * radius) < 2 ^ 31" using calculation h31 by linarith
    from sint_small [OF this] show ?thesis by simp
  qed
  ultimately have m: "m = unat height - 2 * unat radius" by (simp add: m_def)
  have lines: "rrect_lines x width height radius = map (\<lambda>i. (?top i, False)) [0..<unat radius] @
      map (\<lambda>i. (?mid, i \<noteq> 0)) [0..<m] @ map (\<lambda>i. (?bot i, False)) [0..<unat radius]"
    by (simp add: rrect_lines_def m_def Let_def)
  show "length (rrect_lines x width height radius) = unat height" using assms(2) by (simp add: lines m)
  have tb: "rev (map ?top [0..<unat radius]) = map ?bot [0..<unat radius]"
  proof (rule nth_equalityI)
    fix i assume "i < length (rev (map ?top [0..<unat radius]))"
    then have "i < unat radius" by simp
    moreover from this have "radius - of_nat (unat radius - Suc i) = (of_nat (Suc i) :: u32)" by (simp add: of_nat_diff)
    ultimately show "rev (map ?top [0..<unat radius]) ! i = map ?bot [0..<unat radius] ! i" by (simp add: rev_nth)
  qed simp
  have bt: "rev (map ?bot [0..<unat radius]) = map ?top [0..<unat radius]" unfolding tb [symmetric] by (rule rev_rev_ident)
  have fsts: "map fst (rrect_lines x width height radius) = map ?top [0..<unat radius] @ replicate m ?mid @ map ?bot [0..<unat radius]"
    by (simp add: lines comp_def map_replicate_const)
  show "rev (map fst (rrect_lines x width height radius)) = map fst (rrect_lines x width height radius)"
    unfolding fsts rev_append tb bt by simp
  show "truthful None (rrect_lines x width height radius)"
  proof -
    have mid: "truthful p (map (\<lambda>i. (?mid, i \<noteq> 0)) [0..<m])" for p by (rule truthful_same) simp
    have flat: "truthful p (map (\<lambda>i. (c i, False)) is)" for p and c :: "nat \<Rightarrow> spans" and "is" by (rule truthful_False) simp
    show ?thesis unfolding lines truthful_append by (intro conjI mid flat)
  qed
  show "\<forall>l \<in> set (rrect_lines x width height radius). length (fst l) \<le> 1"
    by (auto simp: lines corner_line_def Let_def)
qed

text \<open>
  A rounded rectangle shows one line after the other, as many as it is high, each with one span; from the bottom
  it looks as from the top.
\<close>

lemma rounded_rect_correct:
  assumes "0 < sint width" "0 < sint height" "sint height < 65536" "\<forall>k. mem k = (True, True)" "stack_ok stack"
    "ls = map fst (rrect_lines x width height (clamp_radius width height radius))"
  shows "\<exists>rgn. CdCreateRoundedRectRegion x y width height radius True mem True = Some rgn \<and>
    IterateRegion stack rgn f s = Some (snd (visit f (rects_of (bands_from (ucast y) ls)) s)) \<and>
    length ls = unat height \<and> rev ls = ls"
proof -
  let ?ls = "rrect_lines x width height (clamp_radius width height radius)"
  note r = rrect_lines_shape [OF assms(2) clamp_radius_bound [OF assms(1,2), of radius], where x = x and width = width]
  have "int (unat height) < int 65536" using assms(2,3) sint_unat [of height] by simp
  then have len: "length ?ls < 65536" unfolding r(1) by (simp only: of_nat_less_iff)
  obtain rgn where v: "shape (ucast y) (with_mem mem ?ls) True True = Some rgn"
    "\<forall>stack f (s :: 'a). stack_ok stack \<longrightarrow> IterateRegion stack rgn f s = Some (snd (visit f (rects_of (bands_from (ucast y) (map fst ?ls))) s))"
    using shape_of_lines [OF r(3) assms(4) r(4) len, of "ucast y"] by (elim exE conjE)
  have "CdCreateRoundedRectRegion x y width height radius True mem True = Some rgn"
    using v(1) assms(1,2) by (simp add: CdCreateRoundedRectRegion_def Let_def)
  then show ?thesis using v(2) [rule_format, OF assms(5), of f s] r(1,2) unfolding assms(6) by (intro exI [of _ rgn] conjI) simp_all
qed

lemma rounded_rect_correct_witness:
  "\<exists>rgn. CdCreateRoundedRectRegion 10 20 8 6 2 True (\<lambda>_. (True, True)) True = Some rgn \<and>
    IterateRegion zero_stack rgn (\<lambda>r rs. (False, rs @ [r])) [] =
      Some (snd (visit (\<lambda>r rs. (False, rs @ [r])) (rects_of (bands_from (ucast (20 :: u32)) (map fst (rrect_lines 10 8 6 (clamp_radius 8 6 2))))) [])) \<and>
    length (map fst (rrect_lines 10 8 6 (clamp_radius 8 6 2))) = unat (6 :: u32) \<and>
    rev (map fst (rrect_lines 10 8 6 (clamp_radius 8 6 2))) = map fst (rrect_lines 10 8 6 (clamp_radius 8 6 2))"
  by (rule rounded_rect_correct) (simp_all add: stack_ok_zero)

end
