(* ===== verification/HeapAlloc.thy ===== *)
theory HeapAlloc
  imports Prelude
begin

unbundle bit_operations_syntax

text \<open>
  The heap allocator (\<^verbatim>\<open>kernel/mem/heapex.c\<close>). Memory is a map from the addresses of words of 4 bytes to their
  values; addresses and values are natural numbers below $2^{32}$, and sizes are added modulo $2^{32}$ where a caller
  chooses them. Following a pointer to memory that the heap has not been given is \<open>None\<close>. The functions that get
  memory from the system and give it back are parameters; their state is \<open>'g\<close>.
\<close>

section \<open>State\<close>

text \<open>
  A block has its size in its first and in its last word; the lowest bits of the first are flags. A free block has
  the links of its list in the second and third word.
\<close>

record heap =
  hmem :: "nat \<Rightarrow> nat option"
  head_block :: "nat list"
  free_list_bitmap :: nat
  outstanding_allocated_memory :: nat

type_synonym 'g get_memory = "nat \<Rightarrow> 'g \<Rightarrow> (nat \<times> nat list) option \<times> 'g"
type_synonym 'g return_memory = "nat \<Rightarrow> nat \<Rightarrow> 'g \<Rightarrow> 'g"

abbreviation (input) WRAP :: nat where "WRAP \<equiv> 2 ^ 32"
abbreviation (input) ALIGNMENT :: nat where "ALIGNMENT \<equiv> 8"
abbreviation (input) METADATA_LEADING :: nat where "METADATA_LEADING \<equiv> 4"
abbreviation (input) METADATA_TOTAL :: nat where "METADATA_TOTAL \<equiv> 8"
abbreviation (input) MIN_REQ_SIZE :: nat where "MIN_REQ_SIZE \<equiv> 8"
abbreviation (input) TOTAL_NUM_FREE_LISTS :: nat where "TOTAL_NUM_FREE_LISTS \<equiv> 24"

definition ld :: "heap \<Rightarrow> nat \<Rightarrow> nat option" where
  "ld h a = hmem h a"

definition st :: "nat \<Rightarrow> nat \<Rightarrow> heap \<Rightarrow> heap option" where
  "st a v h = (if hmem h a = None then None else Some (h\<lparr>hmem := (hmem h)(a \<mapsto> v)\<rparr>))"

section \<open>Free lists\<close>

definition free_list_block_sizes :: "nat list" where
  "free_list_block_sizes =
     [8, 16, 24, 32, 40, 48, 56, 64, 80, 96, 112, 128, 160, 192, 224, 256, 320, 384, 448, 512, 640, 768, 896, 1024]"

text \<open>The instructions \<open>BSF\<close> and \<open>BSR\<close> on a value that is not zero.\<close>

fun BitScanForward :: "nat \<Rightarrow> nat" where
  "BitScanForward v = (if v = 0 \<or> odd v then 0 else BitScanForward (v div 2) + 1)"

fun BitScanReverse :: "nat \<Rightarrow> nat" where
  "BitScanReverse v = (if v \<le> 1 then 0 else BitScanReverse (v div 2) + 1)"

declare BitScanForward.simps [simp del] BitScanReverse.simps [simp del]

definition GetInsertionIndex :: "nat \<Rightarrow> nat" where
  "GetInsertionIndex sz =
     (if sz < 64 then (if sz < 8 then 0 else drop_bit 3 sz - 1)
      else if 1024 \<le> sz then TOTAL_NUM_FREE_LISTS - 1
      else
        (let k = BitScanReverse sz; sublist = drop_bit (k - 2) sz AND 3
         in 7 + (k - 6) * 4 + sublist))"

definition GetSmallestListIndexThatFits :: "nat \<Rightarrow> nat" where
  "GetSmallestListIndexThatFits sz =
     (if sz \<le> free_list_block_sizes ! 0 then 0
      else
        (let result = GetInsertionIndex (sz - 1) + 1
         in if TOTAL_NUM_FREE_LISTS \<le> result then TOTAL_NUM_FREE_LISTS - 1 else result))"

text \<open>\<open>(size + ALIGNMENT - 1) & ~(ALIGNMENT - 1)\<close>, in 32 bits.\<close>

definition RoundUpSize :: "nat \<Rightarrow> nat" where
  "RoundUpSize sz = (let sz = (if sz < MIN_REQ_SIZE then MIN_REQ_SIZE else sz) in push_bit 3 (drop_bit 3 ((sz + ALIGNMENT - 1) mod WRAP)))"

section \<open>Blocks\<close>

definition MarkFencepost :: "nat \<Rightarrow> heap \<Rightarrow> heap option" where
  "MarkFencepost b h = do { v \<leftarrow> ld h b; st b (v OR 2) h }"

definition MarkFree :: "nat \<Rightarrow> heap \<Rightarrow> heap option" where
  "MarkFree b h = do { v \<leftarrow> ld h b; st b (unset_bit 0 v) h }"

definition MarkAllocated :: "nat \<Rightarrow> heap \<Rightarrow> heap option" where
  "MarkAllocated b h = do { v \<leftarrow> ld h b; st b (v OR 1) h }"

definition IsAllocated :: "heap \<Rightarrow> nat \<Rightarrow> bool option" where
  "IsAllocated h b = map_option (\<lambda>v. v AND 1 \<noteq> 0) (ld h b)"

definition IsFencepost :: "heap \<Rightarrow> nat \<Rightarrow> bool option" where
  "IsFencepost h b = map_option (\<lambda>v. v AND 2 \<noteq> 0) (ld h b)"

definition GetSize :: "heap \<Rightarrow> nat \<Rightarrow> nat option" where
  "GetSize h b = map_option (\<lambda>v. push_bit 3 (drop_bit 3 v)) (ld h b)"

text \<open>The block before has its size in the word before.\<close>

definition prev_block :: "heap \<Rightarrow> nat \<Rightarrow> nat option" where
  "prev_block h b = do { prev_size \<leftarrow> ld h (b - 4); Some (b - prev_size div 4 * 4) }"

definition next_block :: "heap \<Rightarrow> nat \<Rightarrow> nat option" where
  "next_block h b = do { sz \<leftarrow> GetSize h b; Some (b + sz div 4 * 4) }"

definition DoesFreeBlockSpanEntireChunk :: "heap \<Rightarrow> nat \<Rightarrow> bool option" where
  "DoesFreeBlockSpanEntireChunk h b =
     do { a \<leftarrow> IsAllocated h b;
          if a then Some False
          else
            do { prev \<leftarrow> prev_block h b;
                 next \<leftarrow> next_block h b;
                 p \<leftarrow> IsFencepost h prev;
                 n \<leftarrow> IsFencepost h next;
                 Some (p \<and> n) } }"

definition SetSizeTags :: "nat \<Rightarrow> nat \<Rightarrow> heap \<Rightarrow> heap option" where
  "SetSizeTags b sz h =
     do { v \<leftarrow> ld h b;
          h \<leftarrow> st b ((v AND 7) OR sz) h;
          st (b + sz div 4 * 4 - 4) sz h }"

definition set_next :: "nat \<Rightarrow> nat \<Rightarrow> heap \<Rightarrow> heap option" where
  "set_next b v h = st (b + 4) v h"

definition set_prev :: "nat \<Rightarrow> nat \<Rightarrow> heap \<Rightarrow> heap option" where
  "set_prev b v h = st (b + 8) v h"

text \<open>New memory from the system, with a fencepost on each side.\<close>

definition RequestBlock :: "'g get_memory \<Rightarrow> nat \<Rightarrow> heap \<Rightarrow> 'g \<Rightarrow> (nat \<times> heap \<times> 'g) option" where
  "RequestBlock get_memory total_size h g =
     (case get_memory ((total_size + MIN_REQ_SIZE * 2) mod WRAP) g of
        (None, g) \<Rightarrow> Some (0, h, g)
      | (Some (block, contents), g) \<Rightarrow>
          do { let total_size = 4 * length contents;
               let h = h\<lparr>hmem := (\<lambda>a. if block \<le> a \<and> a < block + total_size \<and> (a - block) mod 4 = 0
                 then Some (contents ! ((a - block) div 4)) else hmem h a)\<rparr>;
               let actual_block = block + MIN_REQ_SIZE div 4 * 4;
               let right_fence = block + (total_size - MIN_REQ_SIZE) div 4 * 4;
               h \<leftarrow> SetSizeTags block MIN_REQ_SIZE h;
               h \<leftarrow> SetSizeTags actual_block (total_size - 2 * MIN_REQ_SIZE) h;
               h \<leftarrow> SetSizeTags right_fence MIN_REQ_SIZE h;
               h \<leftarrow> set_prev actual_block 0 h;
               h \<leftarrow> set_next actual_block 0 h;
               h \<leftarrow> MarkFencepost block h;
               h \<leftarrow> MarkFencepost right_fence h;
               h \<leftarrow> MarkAllocated block h;
               h \<leftarrow> MarkAllocated right_fence h;
               h \<leftarrow> MarkFree actual_block h;
               Some (actual_block, h, g) })"

definition RemoveBlock :: "nat \<Rightarrow> nat \<Rightarrow> heap \<Rightarrow> heap option" where
  "RemoveBlock i b h =
     do { prev \<leftarrow> ld h (b + 8);
          next \<leftarrow> ld h (b + 4);
          if prev = 0 \<and> next = 0 then
            Some (h\<lparr>head_block := (head_block h)[i := 0], free_list_bitmap := unset_bit i (free_list_bitmap h)\<rparr>)
          else if prev = 0 then set_prev next 0 (h\<lparr>head_block := (head_block h)[i := next]\<rparr>)
          else if next = 0 then set_next prev 0 h
          else do { h \<leftarrow> set_next prev next h; set_prev next prev h } }"

definition RemoveFree :: "nat \<Rightarrow> heap \<Rightarrow> heap option" where
  "RemoveFree b h = do { sz \<leftarrow> GetSize h b; RemoveBlock (GetInsertionIndex (sz - METADATA_TOTAL)) b h }"

text \<open>A larger block where free ones have been joined, not yet in a list.\<close>

definition MakeFree :: "nat \<Rightarrow> nat \<Rightarrow> heap \<Rightarrow> heap option" where
  "MakeFree b sz h =
     do { h \<leftarrow> SetSizeTags b sz h;
          h \<leftarrow> set_prev b 0 h;
          h \<leftarrow> set_next b 0 h;
          MarkFree b h }"

definition InsertFree :: "nat \<Rightarrow> nat \<Rightarrow> heap \<Rightarrow> heap option" where
  "InsertFree i b h =
     do { h \<leftarrow> set_prev b 0 h;
          let head = head_block h ! i;
          h \<leftarrow> set_next b head h;
          h \<leftarrow> (if head \<noteq> 0 then set_prev head b h else Some h);
          MarkFree b (h\<lparr>head_block := (head_block h)[i := b], free_list_bitmap := set_bit i (free_list_bitmap h)\<rparr>) }"

text \<open>Putting a block in its list, joined with the free blocks next to it.\<close>

partial_function (option) AddBlock :: "nat \<Rightarrow> heap \<Rightarrow> (nat \<times> heap) option" where
  "AddBlock b h =
     do { sz \<leftarrow> GetSize h b;
          prev \<leftarrow> prev_block h b;
          next \<leftarrow> next_block h b;
          pa \<leftarrow> IsAllocated h prev;
          na \<leftarrow> IsAllocated h next;
          if pa \<and> na then do { h \<leftarrow> InsertFree (GetInsertionIndex (sz - METADATA_TOTAL)) b h; Some (b, h) }
          else if pa \<and> \<not> na then
            do { h \<leftarrow> RemoveFree next h;
                 nsize \<leftarrow> GetSize h next;
                 h \<leftarrow> MakeFree b (sz + nsize) h;
                 AddBlock b h }
          else if \<not> pa \<and> na then
            do { h \<leftarrow> RemoveFree prev h;
                 psize \<leftarrow> GetSize h prev;
                 h \<leftarrow> MakeFree prev (sz + psize) h;
                 AddBlock prev h }
          else
            do { h \<leftarrow> RemoveFree prev h;
                 h \<leftarrow> RemoveFree next h;
                 psize \<leftarrow> GetSize h prev;
                 nsize \<leftarrow> GetSize h next;
                 h \<leftarrow> MakeFree prev (sz + psize + nsize) h;
                 AddBlock prev h } }"

declare AddBlock.simps [code]

text \<open>Taking a block from its list, or the end of one; sizes are compared after a subtraction without sign.\<close>

definition AllocateBlock :: "nat \<Rightarrow> nat \<Rightarrow> nat \<Rightarrow> heap \<Rightarrow> (nat \<times> heap) option" where
  "AllocateBlock b i user_requested_size h =
     do { let total_size = (user_requested_size + METADATA_TOTAL) mod WRAP;
          block_size \<leftarrow> GetSize h b;
          let leftover = (block_size + WRAP - total_size) mod WRAP;
          h \<leftarrow> RemoveBlock i b h;
          if leftover < MIN_REQ_SIZE + METADATA_TOTAL then
            do { h \<leftarrow> SetSizeTags b block_size h;
                 h \<leftarrow> MarkAllocated b h;
                 Some (b, h) }
          else
            do { h \<leftarrow> SetSizeTags b leftover h;
                 let a = b + leftover div 4 * 4;
                 h \<leftarrow> SetSizeTags a total_size h;
                 h \<leftarrow> MarkAllocated a h;
                 h \<leftarrow> MarkFree b h;
                 (_, h) \<leftarrow> AddBlock b h;
                 Some (a, h) } }"

section \<open>Allocating and freeing\<close>

text \<open>The search of the last list.\<close>

partial_function (option) first_fit :: "nat \<Rightarrow> nat \<Rightarrow> heap \<Rightarrow> nat option" where
  "first_fit current user_requested_size h =
     (if current = 0 then Some 0
      else
        do { sz \<leftarrow> GetSize h current;
             if user_requested_size \<le> (sz + WRAP - METADATA_TOTAL) mod WRAP then Some current
             else do { next \<leftarrow> ld h (current + 4); first_fit next user_requested_size h } })"

declare first_fit.simps [code]

text \<open>The list and the block, if there is a block in a list that is large enough.\<close>

definition find_in_lists :: "nat \<Rightarrow> nat \<Rightarrow> heap \<Rightarrow> (nat \<times> nat) option option" where
  "find_in_lists min_index user_requested_size h =
     (let candidates = push_bit min_index (drop_bit min_index (free_list_bitmap h))
      in if candidates = 0 then Some None
         else
           (let i = BitScanForward candidates
            in if i \<noteq> TOTAL_NUM_FREE_LISTS - 1 then Some (Some (i, head_block h ! i))
               else do { b \<leftarrow> first_fit (head_block h ! i) user_requested_size h; Some (if b = 0 then None else Some (i, b)) }))"

definition system_size :: "nat \<Rightarrow> nat \<Rightarrow> nat" where
  "system_size min_index user_requested_size =
     (if min_index + 1 < TOTAL_NUM_FREE_LISTS then free_list_block_sizes ! (min_index + 1) + METADATA_TOTAL
      else (user_requested_size + METADATA_TOTAL) mod WRAP)"

definition FindBlock :: "'g get_memory \<Rightarrow> nat \<Rightarrow> heap \<Rightarrow> 'g \<Rightarrow> (nat \<times> heap \<times> 'g) option" where
  "FindBlock get_memory user_requested_size h g =
     do { let min_index = GetSmallestListIndexThatFits user_requested_size;
          found \<leftarrow> find_in_lists min_index user_requested_size h;
          case found of
            Some (i, b) \<Rightarrow>
              do { (p, h) \<leftarrow> AllocateBlock b i user_requested_size h;
                   Some (p, h, g) }
          | None \<Rightarrow>
              do { (sys_block, h, g) \<leftarrow> RequestBlock get_memory (system_size min_index user_requested_size) h g;
                   if sys_block = 0 then Some (0, h, g)
                   else
                     do { (inserted, h) \<leftarrow> AddBlock sys_block h;
                          isize \<leftarrow> GetSize h inserted;
                          (p, h) \<leftarrow> AllocateBlock inserted (GetInsertionIndex (isize - METADATA_TOTAL)) user_requested_size h;
                          Some (p, h, g) } } }"

definition AllocHeapEx :: "'g get_memory \<Rightarrow> nat \<Rightarrow> heap \<Rightarrow> 'g \<Rightarrow> (nat \<times> heap \<times> 'g) option" where
  "AllocHeapEx get_memory sz h g =
     (if sz = 0 then Some (0, h, g)
      else
        do { (b, h, g) \<leftarrow> FindBlock get_memory (RoundUpSize sz) h g;
             if b = 0 then Some (0, h, g)
             else
               do { bsize \<leftarrow> GetSize h b;
                    Some (b + METADATA_LEADING,
                      h\<lparr>outstanding_allocated_memory := (outstanding_allocated_memory h + bsize) mod WRAP\<rparr>, g) } })"

definition FreeHeapEx :: "nat \<Rightarrow> heap \<Rightarrow> heap option" where
  "FreeHeapEx p h =
     (if p = 0 then Some h
      else
        do { let b = p - METADATA_LEADING;
             h \<leftarrow> set_prev b 0 h;
             h \<leftarrow> set_next b 0 h;
             bsize \<leftarrow> GetSize h b;
             (_, h) \<leftarrow> AddBlock b
               (h\<lparr>outstanding_allocated_memory := (outstanding_allocated_memory h + WRAP - bsize) mod WRAP\<rparr>);
             Some h })"

text \<open>\<open>memcpy\<close> of a number of bytes that is a multiple of the word size.\<close>

fun copy_words :: "nat \<Rightarrow> nat \<Rightarrow> nat \<Rightarrow> heap \<Rightarrow> heap option" where
  "copy_words to from 0 h = Some h"
| "copy_words to from (Suc n) h =
     do { v \<leftarrow> ld h from;
          h \<leftarrow> st to v h;
          copy_words (to + 4) (from + 4) n h }"

definition GetAllocationSizeEx :: "heap \<Rightarrow> nat \<Rightarrow> nat option" where
  "GetAllocationSizeEx h p = do { sz \<leftarrow> GetSize h (p - METADATA_LEADING); Some (sz - METADATA_TOTAL) }"

definition ReallocHeapEx :: "'g get_memory \<Rightarrow> nat \<Rightarrow> nat \<Rightarrow> heap \<Rightarrow> 'g \<Rightarrow> (nat \<times> heap \<times> 'g) option" where
  "ReallocHeapEx get_memory p new_size h g =
     (if p = 0 then AllocHeapEx get_memory new_size h g
      else
        do { old_total \<leftarrow> GetSize h (p - METADATA_LEADING);
             let old_payload = old_total - METADATA_TOTAL;
             if new_size \<le> old_payload then Some (p, h, g)
             else
               do { (new_ptr, h, g) \<leftarrow> AllocHeapEx get_memory new_size h g;
                    if new_ptr = 0 then Some (0, h, g)
                    else
                      do { h \<leftarrow> copy_words new_ptr p (old_payload div 4) h;
                           h \<leftarrow> FreeHeapEx p h;
                           Some (new_ptr, h, g) } } })"

definition InitHeapEx :: "heap \<Rightarrow> heap" where
  "InitHeapEx h = h\<lparr>head_block := replicate TOTAL_NUM_FREE_LISTS 0, free_list_bitmap := 0\<rparr>"

text \<open>Giving whole areas back.\<close>

partial_function (option) PurgeLoop :: "'g return_memory \<Rightarrow> nat \<Rightarrow> heap \<Rightarrow> 'g \<Rightarrow> (heap \<times> 'g) option" where
  "PurgeLoop return_memory b h g =
     (if b = 0 then Some (h, g)
      else
        do { whole \<leftarrow> DoesFreeBlockSpanEntireChunk h b;
             if whole then
               do { left_fencepost \<leftarrow> prev_block h b;
                    right_fencepost \<leftarrow> next_block h b;
                    bsize \<leftarrow> GetSize h b;
                    (_, h) \<leftarrow> AllocateBlock b (TOTAL_NUM_FREE_LISTS - 1) (bsize - METADATA_TOTAL) h;
                    PurgeLoop return_memory (head_block h ! (TOTAL_NUM_FREE_LISTS - 1)) h
                      (return_memory left_fencepost (right_fencepost + MIN_REQ_SIZE - left_fencepost) g) }
             else do { next \<leftarrow> ld h (b + 4); PurgeLoop return_memory next h g } })"

declare PurgeLoop.simps [code]

definition PurgeFreeAreasFromHeapEx :: "'g return_memory option \<Rightarrow> heap \<Rightarrow> 'g \<Rightarrow> (heap \<times> 'g) option" where
  "PurgeFreeAreasFromHeapEx return_memory h g =
     (case return_memory of
        None \<Rightarrow> Some (h, g)
      | Some f \<Rightarrow> PurgeLoop f (head_block h ! (TOTAL_NUM_FREE_LISTS - 1)) h g)"

end
