(* ===== verification/HeapInv.thy ===== *)
theory HeapInv
  imports HeapAlloc
begin

unbundle bit_operations_syntax

text \<open>
  The invariant of the heap: each area is a row of blocks whose sizes stand at both ends, with a fencepost at each
  end of the row; no two free blocks are next to each other, and each free block is in the list for its size.
\<close>

section \<open>Rows of blocks\<close>

text \<open>A block is loose while it is taken from one place and put in another.\<close>

datatype kind = Used | Free | Loose | Fence

type_synonym row = "(nat \<times> kind) list"

definition extent :: "row \<Rightarrow> nat" where
  "extent bs = sum_list (map fst bs)"

lemma extent_simps [simp]: "extent [] = 0" "extent (x # bs) = fst x + extent bs" "extent (as @ bs) = extent as + extent bs"
  by (simp_all add: extent_def)

text \<open>The tags of one block, and of all.\<close>

definition tagged :: "(nat \<Rightarrow> nat option) \<Rightarrow> nat \<Rightarrow> nat \<Rightarrow> kind \<Rightarrow> bool" where
  "tagged m b n k \<longleftrightarrow> (\<exists>v. m b = Some v \<and> v div 8 * 8 = n \<and> (k = Free \<longrightarrow> even v) \<and> (k = Used \<or> k = Fence \<longrightarrow> odd v)) \<and>
     m (b + n - 4) = Some n \<and> (\<forall>a. b \<le> a \<longrightarrow> a < b + n \<longrightarrow> 4 dvd a \<longrightarrow> m a \<noteq> None)"

fun lay :: "(nat \<Rightarrow> nat option) \<Rightarrow> nat \<Rightarrow> row \<Rightarrow> bool" where
  "lay m a [] \<longleftrightarrow> True"
| "lay m a ((n, k) # bs) \<longleftrightarrow> tagged m a n k \<and> lay m (a + n) bs"

lemma lay_append [simp]: "lay m a (xs @ ys) \<longleftrightarrow> lay m a xs \<and> lay m (a + extent xs) ys"
  by (induction xs arbitrary: a) (auto simp: add.assoc)

fun blocks_at :: "nat \<Rightarrow> row \<Rightarrow> (nat \<times> nat \<times> kind) set" where
  "blocks_at a [] = {}"
| "blocks_at a ((n, k) # bs) = insert (a, n, k) (blocks_at (a + n) bs)"

lemma blocks_at_append [simp]: "blocks_at a (xs @ ys) = blocks_at a xs \<union> blocks_at (a + extent xs) ys"
  by (induction xs arbitrary: a) (auto simp: add.assoc)

lemma blocks_at_bounds: "(x, n, k) \<in> blocks_at a bs \<Longrightarrow> a \<le> x \<and> x + n \<le> a + extent bs \<and> (n, k) \<in> set bs"
  by (induction a bs rule: blocks_at.induct) fastforce+

lemma blocks_at_split: "(x, n, k) \<in> blocks_at a bs \<Longrightarrow> \<exists>xs ys. bs = xs @ (n, k) # ys \<and> x = a + extent xs"
proof (induction a bs rule: blocks_at.induct)
  case (2 a n' k' bs)
  then consider "x = a" "n = n'" "k = k'" | "(x, n, k) \<in> blocks_at (a + n') bs" by auto
  then show ?case
  proof cases
    case 1
    then show ?thesis by (intro exI [of _ "[]"] exI [of _ bs]) auto
  next
    case 2
    then obtain xs ys where "bs = xs @ (n, k) # ys" "x = a + n' + extent xs" using "2.IH" by blast
    then show ?thesis by (intro exI [of _ "(n', k') # xs"] exI [of _ ys]) auto
  qed
qed simp

text \<open>Sizes are multiples of 8, and the ends are fenceposts.\<close>

definition sized :: "row \<Rightarrow> bool" where
  "sized bs \<longleftrightarrow> list_all (\<lambda>(n, k). 8 dvd n \<and> (if k = Fence then n = 8 else 16 \<le> n)) bs"

lemma sized_simps [simp]:
  "sized []" "sized ((n, k) # bs) \<longleftrightarrow> 8 dvd n \<and> (if k = Fence then n = 8 else 16 \<le> n) \<and> sized bs"
  "sized (xs @ ys) \<longleftrightarrow> sized xs \<and> sized ys"
  by (auto simp: sized_def)

lemma sized_extent: "sized bs \<Longrightarrow> 8 dvd extent bs"
  by (induction bs) auto

definition fenced :: "row \<Rightarrow> bool" where
  "fenced bs \<longleftrightarrow> bs \<noteq> [] \<and> snd (hd bs) = Fence \<and> snd (last bs) = Fence"

text \<open>No two free blocks meet.\<close>

fun coal :: "row \<Rightarrow> bool" where
  "coal ((n, k) # (n', k') # bs) \<longleftrightarrow> \<not> (k = Free \<and> k' = Free) \<and> coal ((n', k') # bs)"
| "coal _ \<longleftrightarrow> True"

lemma coal_Cons: "coal ((n, k) # bs) \<longleftrightarrow> coal bs \<and> (k = Free \<longrightarrow> bs = [] \<or> snd (hd bs) \<noteq> Free)"
  by (cases bs) auto

lemma coal_append: "coal (xs @ ys) \<longleftrightarrow> coal xs \<and> coal ys \<and> (xs = [] \<or> ys = [] \<or> snd (last xs) \<noteq> Free \<or> snd (hd ys) \<noteq> Free)"
  by (induction xs) (auto simp: coal_Cons)

section \<open>Areas\<close>

type_synonym area = "nat \<times> row"

definition area_ok :: "(nat \<Rightarrow> nat option) \<Rightarrow> area \<Rightarrow> bool" where
  "area_ok m = (\<lambda>(s, bs). 0 < s \<and> 8 dvd s \<and> s + extent bs \<le> WRAP \<and> lay m s bs \<and> sized bs \<and> fenced bs \<and> coal bs)"

definition apart :: "area \<Rightarrow> area \<Rightarrow> bool" where
  "apart = (\<lambda>(s, bs) (t, cs). s + extent bs \<le> t \<or> t + extent cs \<le> s)"

definition blocks :: "area list \<Rightarrow> (nat \<times> nat \<times> kind) set" where
  "blocks ars = (\<Union>(s, bs) \<in> set ars. blocks_at s bs)"

lemma blocks_simps [simp]:
  "blocks [] = {}" "blocks ((s, bs) # ars) = blocks_at s bs \<union> blocks ars" "blocks (As @ Bs) = blocks As \<union> blocks Bs"
  by (auto simp: blocks_def)

section \<open>Lists\<close>

fun first :: "nat list \<Rightarrow> nat" where
  "first [] = 0"
| "first (x # xs) = x"

fun dchain :: "(nat \<Rightarrow> nat option) \<Rightarrow> nat \<Rightarrow> nat list \<Rightarrow> bool" where
  "dchain m p [] \<longleftrightarrow> True"
| "dchain m p (x # xs) \<longleftrightarrow> m (x + 8) = Some p \<and> m (x + 4) = Some (first xs) \<and> dchain m x xs"

definition listed :: "heap \<Rightarrow> area list \<Rightarrow> (nat \<Rightarrow> nat list) \<Rightarrow> bool" where
  "listed h ars L \<longleftrightarrow> length (head_block h) = 24 \<and> (\<forall>i. bit (free_list_bitmap h) i \<longrightarrow> i < 24) \<and>
     (\<forall>i < 24. dchain (hmem h) 0 (L i) \<and> distinct (L i) \<and> head_block h ! i = first (L i) \<and>
        (bit (free_list_bitmap h) i \<longleftrightarrow> L i \<noteq> []) \<and>
        (\<forall>b. b \<in> set (L i) \<longleftrightarrow> (\<exists>n. (b, n, Free) \<in> blocks ars \<and> GetInsertionIndex (n - 8) = i)))"

definition hinv :: "heap \<Rightarrow> area list \<Rightarrow> (nat \<Rightarrow> nat list) \<Rightarrow> bool" where
  "hinv h ars L \<longleftrightarrow> list_all (area_ok (hmem h)) ars \<and> sorted_wrt apart ars \<and> listed h ars L"

lemma hinvD:
  assumes "hinv h (As @ (s, bs) # Bs) L"
  shows "0 < s" "8 dvd s" "s + extent bs \<le> WRAP" "lay (hmem h) s bs" "sized bs" "fenced bs" "coal bs"
    "listed h (As @ (s, bs) # Bs) L"
  using assms by (simp_all add: hinv_def area_ok_def)

text \<open>Every other area is apart from one.\<close>

lemma apart_sym: "apart x y \<longleftrightarrow> apart y x"
  by (auto simp: apart_def split: prod.splits)

lemma sorted_apart: "sorted_wrt apart (As @ x # Bs) \<longleftrightarrow> sorted_wrt apart (As @ Bs) \<and> (\<forall>y \<in> set As \<union> set Bs. apart x y)"
  by (auto simp: sorted_wrt_append apart_sym)

lemma sorted_replace:
  assumes "extent bs = extent bs'"
  shows "sorted_wrt apart (As @ (s, bs) # Bs) \<longleftrightarrow> sorted_wrt apart (As @ (s, bs') # Bs)"
proof -
  have "apart (s, bs) y \<longleftrightarrow> apart (s, bs') y" for y using assms by (simp add: apart_def)
  then show ?thesis by (simp add: sorted_apart)
qed

section \<open>Reading a block\<close>

lemma push_drop_3: "push_bit 3 (drop_bit 3 v) = v div 8 * (8 :: nat)"
  by (simp add: push_bit_eq_mult drop_bit_eq_div)

lemma mod8_div4: "8 dvd n \<Longrightarrow> n div 4 * 4 = (n :: nat)"
  by (elim dvdE) simp

lemma tagged_reads:
  assumes "tagged (hmem h) b n k"
  shows "GetSize h b = Some n" "k \<noteq> Loose \<Longrightarrow> IsAllocated h b = Some (k \<noteq> Free)"
  using assms
  by (cases k; auto simp: tagged_def GetSize_def IsAllocated_def ld_def push_drop_3 and_one_eq odd_iff_mod_2_eq_one even_iff_mod_2_eq_zero)+

lemma next_read: "\<lbrakk>tagged (hmem h) b n k; 8 dvd n\<rbrakk> \<Longrightarrow> next_block h b = Some (b + n)"
  by (simp add: next_block_def tagged_reads mod8_div4)

lemma prev_read: "\<lbrakk>tagged (hmem h) p m k; 8 dvd m\<rbrakk> \<Longrightarrow> prev_block h (p + m) = Some p"
  by (simp add: prev_block_def tagged_def ld_def mod8_div4)

section \<open>Changing blocks that are in no list\<close>

lemma dchain_cong:
  "(\<And>x. x \<in> set xs \<Longrightarrow> m' (x + 4) = m (x + 4) \<and> m' (x + 8) = m (x + 8)) \<Longrightarrow> dchain m' p xs \<longleftrightarrow> dchain m p xs"
  by (induction xs arbitrary: p) auto

lemma tagged_cong:
  assumes "tagged m b n k" "\<And>a. b \<le> a \<Longrightarrow> a < b + n \<Longrightarrow> m' a = m a" "8 \<le> n"
  shows "tagged m' b n k"
proof -
  have "m' b = m b" "m' (b + n - 4) = m (b + n - 4)" using assms(2,3) by simp_all
  then show ?thesis using assms(1,2) by (simp add: tagged_def)
qed

lemma lay_cong:
  "\<lbrakk>lay m a bs; sized bs; \<And>x. a \<le> x \<Longrightarrow> x < a + extent bs \<Longrightarrow> m' x = m x\<rbrakk> \<Longrightarrow> lay m' a bs"
proof (induction m a bs rule: lay.induct)
  case (2 m a n k bs)
  have "8 \<le> n" using "2.prems"(2) by (auto split: if_splits)
  then have "tagged m' a n k" using "2.prems" by (auto intro: tagged_cong)
  then show ?case using 2 by simp
qed simp

text \<open>Nothing but the bytes from \<open>b\<close> to \<open>e\<close> has changed, and nothing has become accessible or inaccessible.\<close>

definition frame :: "heap \<Rightarrow> nat \<Rightarrow> nat \<Rightarrow> heap \<Rightarrow> bool" where
  "frame h b e h' \<longleftrightarrow> (\<forall>a. a < b \<or> e \<le> a \<longrightarrow> hmem h' a = hmem h a) \<and> (\<forall>a. hmem h' a = None \<longleftrightarrow> hmem h a = None) \<and>
     head_block h' = head_block h \<and> free_list_bitmap h' = free_list_bitmap h"

lemma frame_refl [simp]: "frame h b e h"
  by (simp add: frame_def)

lemma frame_trans: "\<lbrakk>frame h b e h'; frame h' b e h''\<rbrakk> \<Longrightarrow> frame h b e h''"
  by (simp add: frame_def)

definition busy :: "row \<Rightarrow> bool" where
  "busy bs \<longleftrightarrow> bs \<noteq> [] \<and> list_all (\<lambda>(n, k). k = Loose \<or> k = Used) bs"

lemma not_free: "busy ys \<Longrightarrow> (x, n, Free) \<notin> blocks_at a ys"
  by (auto simp: busy_def list_all_iff dest!: blocks_at_bounds)

lemma busy_coal: "busy ys \<Longrightarrow> coal ys"
  by (induction ys rule: coal.induct) (auto simp: busy_def)

lemma sized_free: "\<lbrakk>sized bs; (x, n, k) \<in> blocks_at a bs; k \<noteq> Fence\<rbrakk> \<Longrightarrow> 16 \<le> n"
  by (induction a bs rule: blocks_at.induct) auto

lemma listed_cong:
  assumes "listed h ars L" "\<And>b n. (b, n, Free) \<in> blocks ars' \<longleftrightarrow> (b, n, Free) \<in> blocks ars"
    "\<And>x n. (x, n, Free) \<in> blocks ars \<Longrightarrow> hmem h' (x + 4) = hmem h (x + 4) \<and> hmem h' (x + 8) = hmem h (x + 8)"
    "head_block h' = head_block h" "free_list_bitmap h' = free_list_bitmap h"
  shows "listed h' ars' L"
proof -
  have "dchain (hmem h') 0 (L i) \<longleftrightarrow> dchain (hmem h) 0 (L i)" if "i < 24" for i
    using assms(1,3) that by (intro dchain_cong) (auto simp: listed_def)
  then show ?thesis using assms(1,2,4,5) by (simp add: listed_def)
qed

text \<open>Outside the bytes of \<open>ys\<close> are all blocks of \<open>xs\<close>, \<open>zs\<close> and of the other areas.\<close>

lemma area_frame:
  assumes "area_ok m (t, cs)" "\<And>a. t \<le> a \<Longrightarrow> a < t + extent cs \<Longrightarrow> m' a = m a"
  shows "area_ok m' (t, cs)"
  using assms by (auto simp: area_ok_def intro: lay_cong)

lemma region_change:
  assumes inv: "hinv h (As @ (s, xs @ ys @ zs) # Bs) L" and ys: "busy ys" "busy ys'" "extent ys' = extent ys" "sized ys'"
    and fr: "frame h (s + extent xs) (s + extent xs + extent ys) h'" and lay: "lay (hmem h') (s + extent xs) ys'"
  shows "hinv h' (As @ (s, xs @ ys' @ zs) # Bs) L"
proof -
  note d = hinvD [OF inv]
  have same: "hmem h' a = hmem h a" if "a < s + extent xs \<or> s + extent xs + extent ys \<le> a" for a
    using fr that unfolding frame_def by blast
  have ends: "xs \<noteq> []" "zs \<noteq> []"
  proof -
    have "snd z \<noteq> Fence" if "z \<in> set ys" for z using ys(1) that by (auto simp: busy_def list_all_iff)
    moreover have "ys \<noteq> []" using ys(1) by (simp add: busy_def)
    ultimately have "snd (hd ys) \<noteq> Fence" "snd (last ys) \<noteq> Fence" by simp_all
    then show "xs \<noteq> []" "zs \<noteq> []" using d(6) \<open>ys \<noteq> []\<close> by (auto simp: fenced_def)
  qed
  have k: "snd z = Loose \<or> snd z = Used" if "z \<in> set ys'" for z using ys(2) that by (auto simp: busy_def list_all_iff)
  have edge: "snd (hd ys') \<noteq> Free" "snd (last ys') \<noteq> Free"
    using k [of "hd ys'"] k [of "last ys'"] ys(2) by (auto simp: busy_def)
  have "coal (xs @ ys' @ zs)" using d(7) edge busy_coal [OF ys(2)] ys(2) by (auto simp: coal_append busy_def)
  moreover have "lay (hmem h') s xs" using d(4,5) same by (auto intro: lay_cong)
  moreover have "lay (hmem h') (s + extent xs + extent ys) zs" using d(4,5) same by (auto simp: add.assoc intro: lay_cong)
  moreover have "fenced (xs @ ys' @ zs)" using d(6) ends by (simp add: fenced_def)
  ultimately have "area_ok (hmem h') (s, xs @ ys' @ zs)" using d(1-3,5) ys(3,4) lay by (simp add: area_ok_def add.assoc)
  moreover have others: "apart (s, xs @ ys @ zs) x" "area_ok (hmem h) x" if "x \<in> set As \<union> set Bs" for x
    using inv that by (auto simp: hinv_def sorted_apart list_all_iff)
  moreover have "area_ok (hmem h') x" if "x \<in> set As \<union> set Bs" for x
    using others [OF that] by (cases x) (auto simp: apart_def intro!: area_frame [of "hmem h"] same)
  moreover have "apart (s, xs @ ys' @ zs) x \<longleftrightarrow> apart (s, xs @ ys @ zs) x" for x by (simp add: apart_def ys(3))
  ultimately have areas: "list_all (area_ok (hmem h')) (As @ (s, xs @ ys' @ zs) # Bs)" "sorted_wrt apart (As @ (s, xs @ ys' @ zs) # Bs)"
    using inv by (auto simp: hinv_def list_all_iff sorted_apart)
  have free: "(b, n, Free) \<in> blocks (As @ (s, xs @ ys' @ zs) # Bs) \<longleftrightarrow> (b, n, Free) \<in> blocks (As @ (s, xs @ ys @ zs) # Bs)" for b n
    by (simp add: not_free [OF ys(1)] not_free [OF ys(2)] ys(3))
  have "hmem h' (x + 4) = hmem h (x + 4) \<and> hmem h' (x + 8) = hmem h (x + 8)" if x: "(x, n, Free) \<in> blocks (As @ (s, xs @ ys @ zs) # Bs)" for x n
  proof -
    consider "(x, n, Free) \<in> blocks_at s xs" | "(x, n, Free) \<in> blocks_at (s + extent xs + extent ys) zs"
      | t cs where "(t, cs) \<in> set As \<union> set Bs" "(x, n, Free) \<in> blocks_at t cs"
      using x not_free [OF ys(1)] by (auto simp: blocks_def add.assoc)
    then have "16 \<le> n \<and> (x + n \<le> s + extent xs \<or> s + extent xs + extent ys \<le> x)"
    proof cases
      case 3
      then have "sized cs" "s + extent (xs @ ys @ zs) \<le> t \<or> t + extent cs \<le> s" using others [OF 3(1)] by (auto simp: area_ok_def apart_def)
      then show ?thesis using 3 sized_free [OF _ 3(2)] blocks_at_bounds [OF 3(2)] by auto
    qed (use d(5) sized_free blocks_at_bounds in fastforce)+
    then show ?thesis by (intro conjI same) auto
  qed
  from listed_cong [OF d(8) free this] have "listed h' (As @ (s, xs @ ys' @ zs) # Bs) L" using fr by (simp add: frame_def)
  then show ?thesis using areas by (simp add: hinv_def)
qed

section \<open>Any two blocks\<close>

lemma blocks_at_apart:
  "\<lbrakk>(x, n, k) \<in> blocks_at a bs; (y, m, l) \<in> blocks_at a bs\<rbrakk> \<Longrightarrow> (x = y \<and> n = m \<and> k = l) \<or> x + n \<le> y \<or> y + m \<le> x"
proof (induction a bs rule: blocks_at.induct)
  case (2 a n' k' bs)
  then show ?case using blocks_at_bounds [of x n k "a + n'" bs] blocks_at_bounds [of y m l "a + n'" bs] by auto
qed simp

lemma blocks_in: "(x, n, k) \<in> blocks ars \<longleftrightarrow> (\<exists>As s bs Bs. ars = As @ (s, bs) # Bs \<and> (x, n, k) \<in> blocks_at s bs)"
proof
  assume "(x, n, k) \<in> blocks ars"
  then obtain s bs where "(s, bs) \<in> set ars" "(x, n, k) \<in> blocks_at s bs" by (auto simp: blocks_def)
  then show "\<exists>As s bs Bs. ars = As @ (s, bs) # Bs \<and> (x, n, k) \<in> blocks_at s bs" using split_list by metis
qed (auto simp: blocks_def)

lemma blocks_apart:
  assumes "sorted_wrt apart ars" "(x, n, k) \<in> blocks ars" "(y, m, l) \<in> blocks ars"
  shows "(x = y \<and> n = m \<and> k = l) \<or> x + n \<le> y \<or> y + m \<le> x"
proof -
  obtain As s bs Bs where a: "ars = As @ (s, bs) # Bs" "(x, n, k) \<in> blocks_at s bs" using assms(2) by (auto simp: blocks_in)
  obtain t cs where b: "(t, cs) \<in> set ars" "(y, m, l) \<in> blocks_at t cs" using assms(3) by (auto simp: blocks_def)
  show ?thesis
  proof (cases "(t, cs) \<in> set As \<union> set Bs")
    case True
    then have "apart (s, bs) (t, cs)" using assms(1) a(1) by (auto simp: sorted_apart)
    then show ?thesis using blocks_at_bounds [OF a(2)] blocks_at_bounds [OF b(2)] by (auto simp: apart_def)
  next
    case False
    then have "t = s" "cs = bs" using b(1) a(1) by auto
    then show ?thesis using blocks_at_apart [OF a(2)] b(2) by blast
  qed
qed

lemma lay_tagged: "\<lbrakk>lay m a bs; (x, n, k) \<in> blocks_at a bs\<rbrakk> \<Longrightarrow> tagged m x n k"
  by (induction m a bs rule: lay.induct) auto

lemma block_facts:
  assumes "hinv h ars L" "(x, n, k) \<in> blocks ars"
  shows "0 < x" "8 dvd x" "8 dvd n" "8 \<le> n" "k \<noteq> Fence \<Longrightarrow> 16 \<le> n" "x + n \<le> WRAP" "tagged (hmem h) x n k"
proof -
  obtain As s bs Bs where a: "ars = As @ (s, bs) # Bs" "(x, n, k) \<in> blocks_at s bs" using assms(2) by (auto simp: blocks_in)
  note d = hinvD [OF assms(1) [unfolded a(1)]]
  obtain xs ys where b: "bs = xs @ (n, k) # ys" "x = s + extent xs" using blocks_at_split [OF a(2)] by blast
  show "0 < x" "8 dvd n" "8 \<le> n" "k \<noteq> Fence \<Longrightarrow> 16 \<le> n" "x + n \<le> WRAP" using d(1-3,5) b by (auto split: if_splits)
  show "8 dvd x" using d(2,5) b sized_extent [of xs] by simp
  show "tagged (hmem h) x n k" using lay_tagged [OF d(4) a(2)] .
qed

section \<open>Links\<close>

definition links :: "area list \<Rightarrow> nat set" where
  "links ars = {a. \<exists>x n. (x, n, Free) \<in> blocks ars \<and> (a = x + 4 \<or> a = x + 8)}"

text \<open>No link is where another block has something.\<close>

lemma link_inside:
  assumes "hinv h ars L" "(y, n, k) \<in> blocks ars" "a \<in> links ars" "y \<le> a" "a < y + n"
  shows "k = Free \<and> (a = y + 4 \<or> a = y + 8) \<and> 16 \<le> n"
proof -
  obtain x m where x: "(x, m, Free) \<in> blocks ars" "a = x + 4 \<or> a = x + 8" using assms(3) by (auto simp: links_def)
  have "16 \<le> m" using block_facts(5) [OF assms(1) x(1)] by simp
  moreover have "(x = y \<and> m = n \<and> Free = k) \<or> x + m \<le> y \<or> y + n \<le> x"
    using blocks_apart [OF _ x(1) assms(2)] assms(1) by (simp add: hinv_def)
  ultimately show ?thesis using x(2) assms(4,5) by auto
qed

definition relinked :: "area list \<Rightarrow> heap \<Rightarrow> heap \<Rightarrow> bool" where
  "relinked ars h h' \<longleftrightarrow> (\<forall>a. a \<notin> links ars \<longrightarrow> hmem h' a = hmem h a) \<and> (\<forall>a. hmem h' a = None \<longleftrightarrow> hmem h a = None)"

lemma relinked_tagged:
  assumes "hinv h ars L" "relinked ars h h'" "(y, n, k) \<in> blocks ars"
  shows "tagged (hmem h') y n k"
proof -
  note f = block_facts [OF assms(1,3)]
  have "y \<notin> links ars" using link_inside [OF assms(1,3), of y] f(4) by auto
  moreover have "y + n - 4 \<notin> links ars"
  proof
    assume "y + n - 4 \<in> links ars"
    from link_inside [OF assms(1,3) this] f(4) show False by linarith
  qed
  ultimately show ?thesis using f(7) assms(2) by (simp add: tagged_def relinked_def)
qed

lemma lay_from_blocks: "\<lbrakk>\<And>y n k. (y, n, k) \<in> blocks_at a bs \<Longrightarrow> tagged m y n k\<rbrakk> \<Longrightarrow> lay m a bs"
  by (induction m a bs rule: lay.induct) auto

lemma relinked_areas:
  assumes "hinv h ars L" "relinked ars h h'"
  shows "list_all (area_ok (hmem h')) ars"
proof (unfold list_all_iff, safe)
  fix s bs assume m: "(s, bs) \<in> set ars"
  have "lay (hmem h') s bs" using m by (intro lay_from_blocks relinked_tagged [OF assms]) (auto simp: blocks_def)
  then show "area_ok (hmem h') (s, bs)" using assms(1) m by (fastforce simp: hinv_def list_all_iff area_ok_def)
qed

lemma dvd_8_links: "\<lbrakk>8 dvd x; 8 dvd y\<rbrakk> \<Longrightarrow> x + 8 \<noteq> y + (4 :: nat) \<and> x + 4 \<noteq> y + (8 :: nat)"
  by presburger

lemma dchain_next:
  assumes "\<forall>x \<in> set xs. 8 dvd x" "8 dvd y" "y \<notin> set xs"
  shows "dchain (m(y + 4 \<mapsto> v)) p xs \<longleftrightarrow> dchain m p xs"
proof (rule dchain_cong)
  fix x assume "x \<in> set xs"
  then show "(m(y + 4 \<mapsto> v)) (x + 4) = m (x + 4) \<and> (m(y + 4 \<mapsto> v)) (x + 8) = m (x + 8)"
    using assms dvd_8_links [of x y] by auto
qed

lemma dchain_prev:
  assumes "\<forall>x \<in> set xs. 8 dvd x" "8 dvd y" "y \<notin> set xs"
  shows "dchain (m(y + 8 \<mapsto> v)) p xs \<longleftrightarrow> dchain m p xs"
proof (rule dchain_cong)
  fix x assume "x \<in> set xs"
  then show "(m(y + 8 \<mapsto> v)) (x + 4) = m (x + 4) \<and> (m(y + 8 \<mapsto> v)) (x + 8) = m (x + 8)"
    using assms dvd_8_links [of x y] by auto
qed

text \<open>Taking a block out of a list.\<close>

definition unlinked :: "(nat \<Rightarrow> nat option) \<Rightarrow> nat \<Rightarrow> nat list \<Rightarrow> nat list \<Rightarrow> nat \<Rightarrow> nat option" where
  "unlinked m p as bs =
     (let m = (if as = [] then m else m(last as + 4 \<mapsto> first bs))
      in if bs = [] then m else m(hd bs + 8 \<mapsto> (if as = [] then p else last as)))"

lemma dchain_unlink:
  assumes "dchain m p (as @ b # bs)" "distinct (as @ b # bs)" "\<forall>x \<in> set (as @ b # bs). 8 dvd x"
  shows "dchain (unlinked m p as bs) p (as @ bs)"
  using assms
proof (induction as arbitrary: p)
  case Nil
  show ?case
  proof (cases bs)
    case (Cons c cs)
    have u: "unlinked m p [] bs = m(c + 8 \<mapsto> p)" by (simp add: unlinked_def Cons)
    have "m (c + 4) = Some (first cs)" using Nil Cons by simp
    moreover have "dchain (m(c + 8 \<mapsto> p)) c cs" using Nil Cons by (subst dchain_prev) auto
    ultimately show ?thesis unfolding u unfolding Cons append_Nil dchain.simps by (intro conjI) simp_all
  qed simp
next
  case (Cons a as)
  show ?case
  proof (cases "as = []")
    case True
    show ?thesis
    proof (cases bs)
      case Nil
      have "unlinked m p (a # as) bs = m(a + 4 \<mapsto> 0)" by (simp add: unlinked_def True Nil)
      then show ?thesis using Cons.prems True Nil by simp
    next
      case (Cons c cs)
      have u: "unlinked m p (a # as) bs = (m(a + 4 \<mapsto> c))(c + 8 \<mapsto> a)" by (simp add: unlinked_def True Cons)
      have "dchain ((m(a + 4 \<mapsto> c))(c + 8 \<mapsto> a)) c cs"
        using Cons.prems True Cons by (subst dchain_prev, simp, simp, simp, subst dchain_next) auto
      moreover have "8 dvd a" "8 dvd c" "a \<noteq> c" "m (a + 8) = Some p" "m (c + 4) = Some (first cs)" using Cons.prems True Cons by auto
      moreover from this have "a + 8 \<noteq> c + 4" "a + 4 \<noteq> c + 8" using dvd_8_links [of a c] by auto
      ultimately show ?thesis unfolding u unfolding True Cons append.simps dchain.simps first.simps by (intro conjI) simp_all
    qed
  next
    case False
    have "last as \<in> set as" using False by simp
    then have ne: "a \<noteq> last as" "bs \<noteq> [] \<Longrightarrow> a \<noteq> hd bs" "8 dvd a" "8 dvd last as" "bs \<noteq> [] \<Longrightarrow> 8 dvd hd bs"
      using Cons.prems by (auto simp: neq_Nil_conv)
    have u: "unlinked m p (a # as) bs = unlinked m a as bs" by (simp add: unlinked_def last_ConsR [OF False] False Let_def)
    have "unlinked m a as bs (a + 8) = m (a + 8)" "unlinked m a as bs (a + 4) = m (a + 4)"
      using ne dvd_8_links [of a "last as"] dvd_8_links [of a "hd bs"] by (auto simp: unlinked_def Let_def)
    moreover have "first (as @ bs) = first (as @ b # bs)" using False by (cases as) auto
    moreover have "dchain (unlinked m a as bs) a (as @ bs)" using Cons by simp
    ultimately show ?thesis using Cons.prems(1) u by simp
  qed
qed

section \<open>Taking a free block from its list\<close>

lemma BitScanReverse_spec: "0 < v \<Longrightarrow> 2 ^ BitScanReverse v \<le> v \<and> v < 2 ^ (BitScanReverse v + 1)"
proof (induction v rule: BitScanReverse.induct)
  case (1 v)
  show ?case
  proof (cases "v \<le> 1")
    case True
    then show ?thesis using 1 by (simp add: BitScanReverse.simps [of v])
  next
    case False
    then have "2 ^ BitScanReverse (v div 2) \<le> v div 2 \<and> v div 2 < 2 ^ (BitScanReverse (v div 2) + 1)" using 1 by simp
    moreover have "BitScanReverse v = BitScanReverse (v div 2) + 1" using False by (simp add: BitScanReverse.simps [of v])
    ultimately show ?thesis by (simp add: less_mult_imp_div_less) linarith
  qed
qed

lemma BitScanReverse_eq: "\<lbrakk>2 ^ k \<le> v; v < 2 ^ (k + 1)\<rbrakk> \<Longrightarrow> BitScanReverse v = k"
proof -
  assume v: "2 ^ k \<le> v" "v < 2 ^ (k + 1)"
  then have "0 < v" by (meson less_le_trans zero_less_numeral zero_less_power)
  then have "2 ^ BitScanReverse v < (2 :: nat) ^ (k + 1)" "2 ^ k < (2 :: nat) ^ (BitScanReverse v + 1)"
    using BitScanReverse_spec [of v] v by (meson le_less_trans)+
  then have "BitScanReverse v < k + 1" "k < BitScanReverse v + 1" by (meson one_less_numeral_iff power_less_imp_less_exp semiring_norm(76))+
  then show ?thesis by simp
qed

text \<open>Sizes of 64 and more: four lists for each power of two.\<close>

lemma GetInsertionIndex_split:
  assumes "64 \<le> n" "n < 1024"
  shows "\<exists>k s. 6 \<le> k \<and> k \<le> 9 \<and> s < 4 \<and> GetInsertionIndex n = 7 + (k - 6) * 4 + s \<and> (4 + s) * 2 ^ (k - 2) \<le> n \<and> n < (5 + s) * 2 ^ (k - 2)"
proof -
  have "n < 128 \<or> 128 \<le> n \<and> n < 256 \<or> 256 \<le> n \<and> n < 512 \<or> 512 \<le> n" using assms by linarith
  then obtain k where k: "k \<in> {6, 7, 8, 9}" "2 ^ k \<le> n" "n < 2 ^ (k + 1)"
    using assms by (elim disjE; force)
  have b: "BitScanReverse n = k" using BitScanReverse_eq k(2,3) .
  define q where "q = n div 2 ^ (k - 2)"
  have q: "4 \<le> q" "q < 8" "q * 2 ^ (k - 2) \<le> n" "n < (q + 1) * 2 ^ (k - 2)" using k unfolding q_def by auto
  have "q AND 3 = take_bit 2 q" by (simp add: take_bit_eq_mask mask_eq_exp_minus_1)
  then have "q AND 3 = q mod 4" by (simp add: take_bit_eq_mod)
  then have "GetInsertionIndex n = 7 + (k - 6) * 4 + q mod 4"
    using assms b by (simp add: GetInsertionIndex_def Let_def drop_bit_eq_div q_def)
  moreover have "q mod 4 = q - 4" using q(1,2) by presburger
  ultimately show ?thesis using k(1) q by (intro exI [of _ k] exI [of _ "q - 4"]) auto
qed

lemma GetInsertionIndex_less: "GetInsertionIndex n < 24"
proof (cases "64 \<le> n \<and> n < 1024")
  case True
  then show ?thesis using GetInsertionIndex_split [of n] by force
next
  case False
  then show ?thesis by (auto simp: GetInsertionIndex_def drop_bit_eq_div)
qed

lemma RemoveBlock_unlinks:
  assumes "ld h (b + 8) = Some (if as = [] then 0 else last as)" "ld h (b + 4) = Some (first bs)"
    "\<forall>x \<in> set (as @ bs). 0 < x \<and> hmem h (x + 4) \<noteq> None \<and> hmem h (x + 8) \<noteq> None"
  shows "RemoveBlock i b h = Some (h\<lparr>hmem := unlinked (hmem h) 0 as bs, head_block := (if as = [] then (head_block h)[i := first bs] else head_block h),
    free_list_bitmap := (if as = [] \<and> bs = [] then unset_bit i (free_list_bitmap h) else free_list_bitmap h)\<rparr>)"
proof -
  have a: "as \<noteq> [] \<Longrightarrow> 0 < last as \<and> hmem h (last as + 4) \<noteq> None" using assms(3) by simp
  have b: "bs \<noteq> [] \<Longrightarrow> first bs = hd bs \<and> 0 < hd bs \<and> hmem h (hd bs + 8) \<noteq> None" using assms(3) by (cases bs) auto
  show ?thesis
    using assms(1,2) a b by (cases "as = []"; cases "bs = []") (auto simp: RemoveBlock_def set_next_def set_prev_def st_def unlinked_def)
qed

lemma first_not_0: "\<forall>x \<in> set xs. 0 < x \<Longrightarrow> (first xs = 0 \<longleftrightarrow> xs = [])"
  by (cases xs) auto

lemma dchain_split:
  "dchain m p (as @ b # bs) \<Longrightarrow> m (b + 8) = Some (if as = [] then p else last as) \<and> m (b + 4) = Some (first bs)"
  by (induction as arbitrary: p) auto

lemma remove_free:
  assumes inv: "hinv h (As @ (s, xs @ (n, Free) # zs) # Bs) L" and b: "b = s + extent xs"
  shows "\<exists>h'. RemoveFree b h = Some h' \<and>
    hinv h' (As @ (s, xs @ (n, Loose) # zs) # Bs) (L(GetInsertionIndex (n - 8) := remove1 b (L (GetInsertionIndex (n - 8))))) \<and>
    relinked (As @ (s, xs @ (n, Free) # zs) # Bs) h h' \<and> outstanding_allocated_memory h' = outstanding_allocated_memory h"
proof -
  let ?ars = "As @ (s, xs @ (n, Free) # zs) # Bs" and ?ars' = "As @ (s, xs @ (n, Loose) # zs) # Bs" and ?i = "GetInsertionIndex (n - 8)"
  note d = hinvD [OF inv] and i = GetInsertionIndex_less [of "n - 8"]
  have blk: "(b, n, Free) \<in> blocks ?ars" using b by simp
  have L: "dchain (hmem h) 0 (L ?i)" "distinct (L ?i)" "head_block h ! ?i = first (L ?i)" "bit (free_list_bitmap h) ?i \<longleftrightarrow> L ?i \<noteq> []"
    "b \<in> set (L ?i)" "length (head_block h) = 24"
    using d(8) i blk by (auto simp: listed_def)
  obtain as bs where Li: "L ?i = as @ b # bs" using L(5) by (meson split_list)
  have mem: "\<exists>m. (x, m, Free) \<in> blocks ?ars" if "x \<in> set (L ?i)" for x using d(8) i that by (auto simp: listed_def)
  have facts: "0 < x" "8 dvd x" "hmem h (x + 4) \<noteq> None" "hmem h (x + 8) \<noteq> None" "x + 4 \<in> links ?ars" "x + 8 \<in> links ?ars" if x: "x \<in> set (L ?i)" for x
  proof -
    obtain m where m: "(x, m, Free) \<in> blocks ?ars" using mem [OF x] by blast
    note f = block_facts [OF inv m]
    show "0 < x" "8 dvd x" using f(1,2) by auto
    have "4 dvd x" "16 \<le> m" using f(2,5) by (auto intro: dvd_trans)
    then show "hmem h (x + 4) \<noteq> None" "hmem h (x + 8) \<noteq> None" using f(7) by (auto simp: tagged_def)
    show "x + 4 \<in> links ?ars" "x + 8 \<in> links ?ars" using m by (auto simp: links_def)
  qed
  let ?h = "h\<lparr>hmem := unlinked (hmem h) 0 as bs, head_block := (if as = [] then (head_block h)[?i := first bs] else head_block h),
    free_list_bitmap := (if as = [] \<and> bs = [] then unset_bit ?i (free_list_bitmap h) else free_list_bitmap h)\<rparr>"
  have rm: "RemoveFree b h = Some ?h"
  proof -
    have "RemoveBlock ?i b h = Some ?h"
      using dchain_split [OF L(1) [unfolded Li]] facts Li by (intro RemoveBlock_unlinks) (auto simp: ld_def)
    then show ?thesis using tagged_reads(1) [OF block_facts(7) [OF inv blk]] by (simp add: RemoveFree_def)
  qed
  have re: "relinked ?ars h ?h"
  proof -
    have "last as + 4 \<in> links ?ars \<and> hmem h (last as + 4) \<noteq> None" if "as \<noteq> []" using facts [of "last as"] Li that by simp
    moreover have "hd bs + 8 \<in> links ?ars \<and> hmem h (hd bs + 8) \<noteq> None" if "bs \<noteq> []" using facts [of "hd bs"] Li that by simp
    ultimately show ?thesis by (auto simp: relinked_def unlinked_def Let_def)
  qed
  have free: "(x, m, Free) \<in> blocks ?ars' \<longleftrightarrow> (x, m, Free) \<in> blocks ?ars \<and> x \<noteq> b" for x m
  proof -
    have "sorted_wrt apart ?ars'" using inv sorted_replace [of "xs @ (n, Loose) # zs" "xs @ (n, Free) # zs"] by (simp add: hinv_def)
    moreover have "(b, n, Loose) \<in> blocks ?ars'" using b by simp
    ultimately have "x \<noteq> b" if "(x, m, Free) \<in> blocks ?ars'"
      using blocks_apart [of ?ars' b n Loose x m Free] block_facts(4) [OF inv blk] block_facts(4) [OF inv, of x m Free] that by auto
    moreover have "(x, m) = (b, n)" if "(x, m, Free) \<in> blocks ?ars" "(x, m, Free) \<notin> blocks ?ars'" using that b by auto
    ultimately show ?thesis by auto
  qed
  have "list_all (area_ok (hmem ?h)) ?ars'"
  proof -
    have "area_ok (hmem ?h) (s, xs @ (n, Loose) # zs)" if "area_ok (hmem ?h) (s, xs @ (n, Free) # zs)"
      using that by (auto simp: area_ok_def tagged_def fenced_def coal_append coal_Cons hd_append split: if_splits)
    then show ?thesis using relinked_areas [OF inv re] by simp
  qed
  moreover have "sorted_wrt apart ?ars'" using inv sorted_replace [of "xs @ (n, Loose) # zs" "xs @ (n, Free) # zs"] by (simp add: hinv_def)
  moreover have "listed ?h ?ars' (L(?i := remove1 b (L ?i)))"
  proof -
    have i_ok: "dchain (hmem ?h) 0 (remove1 b (L ?i))" "distinct (remove1 b (L ?i))" "head_block ?h ! ?i = first (remove1 b (L ?i))"
      "bit (free_list_bitmap ?h) ?i \<longleftrightarrow> remove1 b (L ?i) \<noteq> []"
    proof -
      have rem: "remove1 b (L ?i) = as @ bs" using L(2) by (simp add: Li remove1_append)
      show "dchain (hmem ?h) 0 (remove1 b (L ?i))"
        using dchain_unlink [of "hmem h" 0 as b bs] L(1,2) facts(2) unfolding rem by (simp add: Li)
      show "distinct (remove1 b (L ?i))" using L(2) by simp
      show "head_block ?h ! ?i = first (remove1 b (L ?i))" using L(3,6) i unfolding rem by (cases as) (auto simp: Li)
      show "bit (free_list_bitmap ?h) ?i \<longleftrightarrow> remove1 b (L ?i) \<noteq> []" using L(4) unfolding rem by (simp add: Li bit_unset_bit_iff)
    qed
    have j_ok: "dchain (hmem ?h) 0 (L j)" "head_block ?h ! j = head_block h ! j" "bit (free_list_bitmap ?h) j = bit (free_list_bitmap h) j"
      if j: "j < 24" "j \<noteq> ?i" for j
    proof -
      show "head_block ?h ! j = head_block h ! j" "bit (free_list_bitmap ?h) j = bit (free_list_bitmap h) j"
        using j by (simp_all add: bit_unset_bit_iff)
      have "hmem ?h (x + 4) = hmem h (x + 4) \<and> hmem ?h (x + 8) = hmem h (x + 8)" if x: "x \<in> set (L j)" for x
      proof -
        obtain m where m: "(x, m, Free) \<in> blocks ?ars" "GetInsertionIndex (m - 8) = j" using d(8) j(1) x by (auto simp: listed_def)
        have "x \<noteq> y" if "y \<in> set (L ?i)" for y
        proof
          assume "x = y"
          then have "x \<in> set (L ?i)" using that by simp
          then obtain m' where "(x, m', Free) \<in> blocks ?ars" "GetInsertionIndex (m' - 8) = ?i" using d(8) i by (auto simp: listed_def)
          then show False using blocks_apart [OF _ m(1), of x m' Free] inv block_facts(4) [OF inv m(1)] block_facts(4) [OF inv, of x m' Free] m(2) j(2)
            by (auto simp: hinv_def)
        qed
        moreover have "8 dvd x" using block_facts(2) [OF inv m(1)] .
        ultimately have "x + 8 \<noteq> y + 4 \<and> x + 4 \<noteq> y + 8 \<and> x + 4 \<noteq> y + 4 \<and> x + 8 \<noteq> y + 8" if "y \<in> set (L ?i)" for y
          using dvd_8_links [OF _ facts(2) [OF that], of x] that by auto
        then show ?thesis using Li by (auto simp: unlinked_def Let_def)
      qed
      then show "dchain (hmem ?h) 0 (L j)" using dchain_cong [of "L j" "hmem ?h" "hmem h"] d(8) j(1) by (auto simp: listed_def)
    qed
    have in_list: "b' \<in> set ((L(?i := remove1 b (L ?i))) j) \<longleftrightarrow> (\<exists>m. (b', m, Free) \<in> blocks ?ars' \<and> GetInsertionIndex (m - 8) = j)"
      if j: "j < 24" for j b'
    proof -
      have Lj: "b' \<in> set (L j) \<longleftrightarrow> (\<exists>m. (b', m, Free) \<in> blocks ?ars \<and> GetInsertionIndex (m - 8) = j)" for b' using d(8) j by (simp add: listed_def)
      have "GetInsertionIndex (m - 8) = ?i" if "(b, m, Free) \<in> blocks ?ars" for m
        using blocks_apart [OF _ that blk] inv block_facts(4) [OF inv that] block_facts(4) [OF inv blk] by (auto simp: hinv_def)
      then have "b' \<in> set ((L(?i := remove1 b (L ?i))) j) \<longleftrightarrow> b' \<in> set (L j) \<and> b' \<noteq> b" using L(2) Lj [of b] by (cases "j = ?i") auto
      then show ?thesis unfolding Lj free by auto
    qed
    show ?thesis
      unfolding listed_def
    proof (intro conjI allI impI)
      show "length (head_block ?h) = 24" using L(6) by simp
      show "j < 24" if "bit (free_list_bitmap ?h) j" for j
        using d(8) that unfolding listed_def by (auto simp: bit_unset_bit_iff split: if_splits)
      fix j :: nat assume j: "j < 24"
      let ?L = "L(?i := remove1 b (L ?i))"
      show "dchain (hmem ?h) 0 (?L j)" by (cases "j = ?i") (use i_ok(1) j_ok(1) j in simp_all)
      have old: "distinct (L j)" "head_block h ! j = first (L j)" "bit (free_list_bitmap h) j \<longleftrightarrow> L j \<noteq> []" using d(8) j by (simp_all add: listed_def)
      show "distinct (?L j)" by (cases "j = ?i") (use i_ok(2) old(1) in simp_all)
      show "head_block ?h ! j = first (?L j)"
      proof (cases "j = ?i")
        case True
        then show ?thesis using i_ok(3) by (simp only: fun_upd_same)
      next
        case False
        then have "?L j = L j" by simp
        then show ?thesis using j_ok(2) [OF j False] old(2) by (simp only:)
      qed
      show "bit (free_list_bitmap ?h) j \<longleftrightarrow> ?L j \<noteq> []"
      proof (cases "j = ?i")
        case True
        then show ?thesis using i_ok(4) by (simp only: fun_upd_same)
      next
        case False
        then have "?L j = L j" by simp
        then show ?thesis using j_ok(3) [OF j False] old(3) by (simp only:)
      qed
      show "b' \<in> set (?L j) \<longleftrightarrow> (\<exists>m. (b', m, Free) \<in> blocks ?ars' \<and> GetInsertionIndex (m - 8) = j)" for b' by (rule in_list [OF j])
    qed
  qed
  ultimately have "hinv ?h ?ars' (L(?i := remove1 b (L ?i)))" by (simp add: hinv_def)
  then show ?thesis using rm re by auto
qed

end
