(* ===== verification/HeapOps.thy ===== *)
theory HeapOps
  imports HeapInv
begin

unbundle bit_operations_syntax

text \<open>
  What the operations on blocks do to the rows and the lists: they keep the invariant and the contents
  of all blocks in use.
\<close>

section \<open>What stays\<close>

definition kept :: "area list \<Rightarrow> heap \<Rightarrow> heap \<Rightarrow> bool" where
  "kept ars h h' \<longleftrightarrow> (\<forall>y m a. (y, m, Used) \<in> blocks ars \<longrightarrow> y \<le> a \<longrightarrow> a < y + m \<longrightarrow> hmem h' a = hmem h a) \<and>
     (\<forall>a. hmem h' a = None \<longleftrightarrow> hmem h a = None) \<and> outstanding_allocated_memory h' = outstanding_allocated_memory h"

lemma kept_refl [simp]: "kept ars h h"
  by (simp add: kept_def)

lemma kept_trans:
  assumes "kept ars h h'" "kept ars' h' h''" "\<And>y m. (y, m, Used) \<in> blocks ars \<Longrightarrow> (y, m, Used) \<in> blocks ars'"
  shows "kept ars h h''"
  using assms unfolding kept_def by metis

lemma relinked_kept:
  assumes "hinv h ars L" "relinked ars h h'" "outstanding_allocated_memory h' = outstanding_allocated_memory h"
  shows "kept ars h h'"
proof -
  have "a \<notin> links ars" if "(y, m, Used) \<in> blocks ars" "y \<le> a" "a < y + m" for y m a
    using link_inside [OF assms(1) that(1) _ that(2,3)] by auto
  then show ?thesis using assms(2,3) by (auto simp: kept_def relinked_def)
qed

lemma other_block:
  assumes inv: "hinv h (As @ (s, xs @ ys @ zs) # Bs) L" and y: "(y, m, k) \<in> blocks (As @ (s, xs @ ys @ zs) # Bs)" "k \<notin> snd ` set ys"
  shows "y + m \<le> s + extent xs \<or> s + extent xs + extent ys \<le> y"
proof -
  consider "(y, m, k) \<in> blocks_at s xs" | "(y, m, k) \<in> blocks_at (s + extent xs + extent ys) zs" | "(y, m, k) \<in> blocks_at (s + extent xs) ys"
    | t cs where "(t, cs) \<in> set As \<union> set Bs" "(y, m, k) \<in> blocks_at t cs"
    using y(1) by (auto simp: blocks_def add.assoc)
  then show ?thesis
  proof cases
    case 3
    then have "(m, k) \<in> set ys" using blocks_at_bounds by blast
    then show ?thesis using y(2) by force
  next
    case (4 t cs)
    then have "apart (s, xs @ ys @ zs) (t, cs)" using inv by (auto simp: hinv_def sorted_apart)
    then show ?thesis using blocks_at_bounds [OF 4(2)] by (auto simp: apart_def)
  qed (auto dest: blocks_at_bounds)
qed

lemma frame_kept:
  assumes inv: "hinv h (As @ (s, xs @ ys @ zs) # Bs) L" and fr: "frame h (s + extent xs) (s + extent xs + extent ys) h'"
    and ys: "Used \<notin> snd ` set ys" and out: "outstanding_allocated_memory h' = outstanding_allocated_memory h"
  shows "kept (As @ (s, xs @ ys @ zs) # Bs) h h'"
proof -
  have "hmem h' a = hmem h a" if "(y, m, Used) \<in> blocks (As @ (s, xs @ ys @ zs) # Bs)" "y \<le> a" "a < y + m" for y m a
    using other_block [OF inv that(1) ys] that(2,3) fr unfolding frame_def by (meson le_trans less_le_trans)
  then show ?thesis using fr out by (simp add: kept_def frame_def)
qed

section \<open>Writing tags\<close>

definition mapped :: "heap \<Rightarrow> nat \<Rightarrow> nat \<Rightarrow> bool" where
  "mapped h b e \<longleftrightarrow> (\<forall>a. b \<le> a \<longrightarrow> a < e \<longrightarrow> 4 dvd a \<longrightarrow> hmem h a \<noteq> None)"

lemma tagged_mapped: "tagged (hmem h) b n k \<Longrightarrow> mapped h b (b + n)"
  by (simp add: tagged_def mapped_def)

lemma lay_mapped: "\<lbrakk>lay (hmem h) a bs\<rbrakk> \<Longrightarrow> mapped h a (a + extent bs)"
proof (induction "hmem h" a bs rule: lay.induct)
  case (2 a n k bs)
  then have "mapped h a (a + n)" "mapped h (a + n) (a + n + extent bs)" using tagged_mapped by auto
  then show ?case unfolding mapped_def by (metis add.assoc extent_simps(2) fst_conv not_le)
qed (simp add: mapped_def)

lemma size_flags:
  assumes "8 dvd N"
  shows "(v AND 7) OR N = v mod 8 + (N :: nat)"
proof -
  have "v AND 7 = take_bit 3 v" by (simp add: take_bit_eq_mask mask_eq_exp_minus_1)
  moreover obtain q where "N = push_bit 3 q" using assms by (auto simp: push_bit_eq_mult elim!: dvdE)
  moreover have "take_bit 3 v AND push_bit 3 q = 0" for q by (rule bit_eqI) (auto simp: bit_simps)
  ultimately have "(v AND 7) OR N = take_bit 3 v + N" by (simp add: disjunctive_add_eq_or)
  then show ?thesis by (simp add: take_bit_eq_mod)
qed

lemma SetSizeTags_ok:
  assumes "hmem h b = Some v" "8 dvd N" "8 \<le> N" "hmem h (b + N - 4) \<noteq> None"
  shows "SetSizeTags b N h = Some (h\<lparr>hmem := (hmem h)(b \<mapsto> v mod 8 + N, b + N - 4 \<mapsto> N)\<rparr>)"
  using assms by (simp add: SetSizeTags_def ld_def st_def size_flags mod8_div4)

lemma size_value: "8 dvd N \<Longrightarrow> (v mod 8 + N) div 8 * 8 = (N :: nat) \<and> even (v mod 8 + N) = even v"
  by (elim dvdE) (simp; presburger)

lemma unset_value: "unset_bit 0 v div 8 = v div (8 :: nat) \<and> even (unset_bit 0 v)"
  by (simp add: unset_bit_0; presburger)

lemma or_1_value: "(v OR 1) div 8 = v div (8 :: nat) \<and> odd (v OR 1)"
proof (cases "even v")
  case True
  then have "v OR 1 = Suc v" using or_one_eq [of v] by simp
  then show ?thesis using True by (elim evenE) (simp; presburger)
next
  case False
  then have "v OR 1 = v" using or_one_eq [of v] by simp
  then show ?thesis using False by simp
qed

lemma MakeFree_ok:
  assumes "8 dvd b" "8 dvd N" "16 \<le> N" "mapped h b (b + N)"
  shows "\<exists>h'. MakeFree b N h = Some h' \<and> frame h b (b + N) h' \<and> tagged (hmem h') b N Loose \<and>
    outstanding_allocated_memory h' = outstanding_allocated_memory h"
proof -
  have d4: "4 dvd b" "4 dvd b + N - 4" using assms(1-3) by (auto elim!: dvdE)
  have m: "hmem h b \<noteq> None" "hmem h (b + 4) \<noteq> None" "hmem h (b + 8) \<noteq> None" "hmem h (b + N - 4) \<noteq> None"
    using assms(3,4) d4 unfolding mapped_def by auto
  then obtain v where v: "hmem h b = Some v" by auto
  define M where "M = (hmem h)(b \<mapsto> v mod 8 + N, b + N - 4 \<mapsto> N, b + 8 \<mapsto> 0, b + 4 \<mapsto> 0, b \<mapsto> unset_bit 0 (v mod 8 + N))"
  have ne: "b + N - 4 \<noteq> b" "b + N - 4 \<noteq> b + 4" "b + N - 4 \<noteq> b + 8" using assms(3) by linarith+
  have mk: "MakeFree b N h = Some (h\<lparr>hmem := M\<rparr>)"
    using m v ne SetSizeTags_ok [OF v assms(2)] assms(3) by (simp add: MakeFree_def set_prev_def set_next_def st_def MarkFree_def ld_def M_def)
  have "frame h b (b + N) (h\<lparr>hmem := M\<rparr>)" using m ne assms(3) by (auto simp: frame_def M_def)
  moreover have "M a \<noteq> None \<longleftrightarrow> hmem h a \<noteq> None" for a using m by (auto simp: M_def)
  moreover have "M b = Some (unset_bit 0 (v mod 8 + N))" "M (b + N - 4) = Some N" using ne by (simp_all add: M_def)
  ultimately show ?thesis using mk assms(4) size_value [OF assms(2), of v] unset_value [of "v mod 8 + N"]
    by (auto simp: tagged_def mapped_def)
qed

lemma change_one:
  assumes "hinv h (As @ (s, xs @ (n, k) # zs) # Bs) L" "k = Loose \<or> k = Used" "k' = Loose \<or> k' = Used" "b = s + extent xs"
    "frame h b (b + n) h'" "tagged (hmem h') b n k'"
  shows "hinv h' (As @ (s, xs @ (n, k') # zs) # Bs) L"
proof -
  have "8 dvd n \<and> 16 \<le> n" using hinvD(5) [OF assms(1)] assms(2) by (auto split: if_splits)
  then show ?thesis
    using region_change [of h As s xs "[(n, k)]" zs Bs L "[(n, k')]" h'] assms by (auto simp: busy_def)
qed

section \<open>Putting a block in a list\<close>

text \<open>No block is in two lists.\<close>

lemma one_list:
  assumes "hinv h ars L" "i < 24" "j < 24" "x \<in> set (L i)" "x \<in> set (L j)"
  shows "i = j"
proof -
  obtain m where m: "(x, m, Free) \<in> blocks ars" "GetInsertionIndex (m - 8) = i" using assms(1,2,4) by (auto simp: hinv_def listed_def)
  obtain n where n: "(x, n, Free) \<in> blocks ars" "GetInsertionIndex (n - 8) = j" using assms(1,3,5) by (auto simp: hinv_def listed_def)
  have "m = n" using blocks_apart [OF _ m(1) n(1)] assms(1) block_facts(4) [OF assms(1) m(1)] block_facts(4) [OF assms(1) n(1)]
    by (auto simp: hinv_def)
  then show ?thesis using m(2) n(2) by simp
qed

lemma in_list_facts:
  assumes "hinv h ars L" "i < 24" "x \<in> set (L i)"
  shows "0 < x" "8 dvd x" "hmem h (x + 4) \<noteq> None" "hmem h (x + 8) \<noteq> None" "x + 4 \<in> links ars" "x + 8 \<in> links ars" "\<exists>m. (x, m, Free) \<in> blocks ars"
proof -
  obtain m where m: "(x, m, Free) \<in> blocks ars" using assms by (auto simp: hinv_def listed_def)
  note f = block_facts [OF assms(1) m]
  show "0 < x" "8 dvd x" using f(1,2) by auto
  have "4 dvd x" "16 \<le> m" using f(2,5) by (auto intro: dvd_trans)
  then show "hmem h (x + 4) \<noteq> None" "hmem h (x + 8) \<noteq> None" using f(7) by (auto simp: tagged_def)
  show "x + 4 \<in> links ars" "x + 8 \<in> links ars" "\<exists>m. (x, m, Free) \<in> blocks ars" using m by (auto simp: links_def)
qed

lemma insert_free:
  assumes inv: "hinv h (As @ (s, xs @ (n, Loose) # zs) # Bs) L" and b: "b = s + extent xs"
    and near: "snd (last xs) \<noteq> Free" "snd (hd zs) \<noteq> Free"
  shows "\<exists>h'. InsertFree (GetInsertionIndex (n - 8)) b h = Some h' \<and>
    hinv h' (As @ (s, xs @ (n, Free) # zs) # Bs) (L(GetInsertionIndex (n - 8) := b # L (GetInsertionIndex (n - 8)))) \<and>
    kept (As @ (s, xs @ (n, Loose) # zs) # Bs) h h'"
proof -
  let ?ars = "As @ (s, xs @ (n, Loose) # zs) # Bs" and ?ars' = "As @ (s, xs @ (n, Free) # zs) # Bs" and ?i = "GetInsertionIndex (n - 8)"
  let ?L = "L(?i := b # L ?i)"
  note i = GetInsertionIndex_less [of "n - 8"]
  have blk: "(b, n, Loose) \<in> blocks ?ars" using b by simp
  note f = block_facts [OF inv blk]
  have "4 dvd b" using f(2) by (auto intro: dvd_trans)
  then have m: "hmem h b \<noteq> None" "hmem h (b + 4) \<noteq> None" "hmem h (b + 8) \<noteq> None" using f(5,7) by (auto simp: tagged_def)
  then obtain v where v: "hmem h b = Some v" by auto
  define head where "head = first (L ?i)"
  have head: "head_block h ! ?i = head" "length (head_block h) = 24" using inv i by (auto simp: hinv_def listed_def head_def)
  have head_in: "head \<noteq> 0 \<longleftrightarrow> L ?i \<noteq> []" "L ?i \<noteq> [] \<Longrightarrow> head \<in> set (L ?i)"
    using in_list_facts(1) [OF inv i] by (cases "L ?i"; fastforce simp: head_def)+
  define M where "M = (hmem h)(b + 8 \<mapsto> 0, b + 4 \<mapsto> head, b \<mapsto> unset_bit 0 v)"
  define M' where "M' = (if head \<noteq> 0 then M(head + 8 \<mapsto> b) else M)"
  let ?h1 = "h\<lparr>hmem := M\<rparr>" and ?h = "h\<lparr>hmem := M', head_block := (head_block h)[?i := b], free_list_bitmap := set_bit ?i (free_list_bitmap h)\<rparr>"
  have fr: "frame h b (b + n) ?h1" using m f(5) by (auto simp: frame_def M_def)
  have tag: "tagged M b n Free"
  proof -
    have "b + n - 4 \<noteq> b" "b + n - 4 \<noteq> b + 4" "b + n - 4 \<noteq> b + 8" using f(5) by simp_all
    then have "M (b + n - 4) = hmem h (b + n - 4)" "M b = Some (unset_bit 0 v)" by (simp_all add: M_def)
    moreover have "M a \<noteq> None \<longleftrightarrow> hmem h a \<noteq> None" for a using m by (auto simp: M_def)
    ultimately show ?thesis using f(7) v unset_value [of v] by (auto simp: tagged_def)
  qed
  have tag': "tagged M b n Loose" using tag by (auto simp: tagged_def)
  have inv1: "hinv ?h1 ?ars L" by (rule change_one [OF inv _ _ b fr]) (simp_all add: tag')
  have kept1: "kept ?ars h ?h1" using frame_kept [of h As s xs "[(n, Loose)]" zs Bs L ?h1] inv fr by (simp add: b)
  have re: "relinked ?ars ?h1 ?h" using in_list_facts(4,6) [OF inv1 i] head_in by (auto simp: relinked_def M'_def)
  have "kept ?ars ?h1 ?h" using relinked_kept [OF inv1 re] by simp
  then have kept: "kept ?ars h ?h" by (rule kept_trans [OF kept1]) simp
  have not_in: "b \<noteq> x" if x: "x \<in> set (L j)" "j < 24" for x j
  proof -
    obtain k where "(x, k, Free) \<in> blocks ?ars" using in_list_facts(7) [OF inv x(2,1)] by blast
    then show ?thesis using blocks_apart [OF _ blk, of x k Free] inv block_facts(4) [OF inv, of x k Free] f(4) by (auto simp: hinv_def)
  qed
  have far: "head + 8 < b \<or> b + n \<le> head + 8" if "head \<noteq> 0"
  proof -
    have "head \<in> set (L ?i)" using head_in that by blast
    then obtain k where k: "(head, k, Free) \<in> blocks ?ars" using in_list_facts(7) [OF inv i] by blast
    then show ?thesis using blocks_apart [OF _ blk k] inv block_facts(5) [OF inv k] f(5) by (auto simp: hinv_def)
  qed
  have ins: "InsertFree ?i b h = Some ?h"
  proof -
    let ?m = "(hmem h)(b + 8 \<mapsto> 0, b + 4 \<mapsto> head)"
    have set_up: "InsertFree ?i b h = do {
        h \<leftarrow> (if head \<noteq> 0 then set_prev head b (h\<lparr>hmem := ?m\<rparr>) else Some (h\<lparr>hmem := ?m\<rparr>));
        MarkFree b (h\<lparr>head_block := (head_block h)[?i := b], free_list_bitmap := set_bit ?i (free_list_bitmap h)\<rparr>) }"
    proof -
      obtain v4 v8 where "hmem h (b + 4) = Some v4" "hmem h (b + 8) = Some v8" using m by auto
      then show ?thesis using head(1) by (simp add: InsertFree_def set_prev_def set_next_def st_def Let_def)
    qed
    show ?thesis
    proof (cases "head = 0")
      case True
      then show ?thesis using v by (simp add: set_up MarkFree_def ld_def st_def M'_def M_def)
    next
      case False
      then obtain w where "hmem h (head + 8) = Some w" "head + 8 \<noteq> b" using in_list_facts(4) [OF inv i] head_in far f(5) by fastforce
      then show ?thesis using False v by (simp add: set_up set_prev_def MarkFree_def ld_def st_def M'_def M_def fun_upd_twist [of b "head + 8"])
    qed
  qed
  have "list_all (area_ok M') ?ars'"
  proof -
    have "M' a = M a" if "b \<le> a" "a < b + n" for a using far that by (auto simp: M'_def)
    then have "tagged M' b n Free" using tagged_cong [OF tag _ f(4)] by blast
    then have "area_ok M' (s, xs @ (n, Free) # zs)" if "area_ok M' (s, xs @ (n, Loose) # zs)"
      using that near unfolding b by (auto simp: area_ok_def fenced_def coal_append coal_Cons hd_append split: if_splits)
    then show ?thesis using relinked_areas [OF inv1 re] by simp
  qed
  moreover have "sorted_wrt apart ?ars'" using inv sorted_replace [of "xs @ (n, Loose) # zs" "xs @ (n, Free) # zs"] by (simp add: hinv_def)
  moreover have "listed ?h ?ars' ?L"
    unfolding listed_def
  proof (intro conjI allI impI)
    show "length (head_block ?h) = 24" using head by simp
    show "j < 24" if "bit (free_list_bitmap ?h) j" for j
      using inv1 that i unfolding hinv_def listed_def by (auto simp: bit_set_bit_iff)
    fix j :: nat assume j: "j < 24"
    have old: "dchain M 0 (L j)" "distinct (L j)" "head_block h ! j = first (L j)" "bit (free_list_bitmap h) j \<longleftrightarrow> L j \<noteq> []"
      "\<And>b'. b' \<in> set (L j) \<longleftrightarrow> (\<exists>m. (b', m, Free) \<in> blocks ?ars \<and> GetInsertionIndex (m - 8) = j)"
      using inv1 j by (simp_all add: hinv_def listed_def)
    have d8: "\<forall>x \<in> set (L j). 8 dvd x" using in_list_facts(2) [OF inv j] by blast
    have head8: "head \<noteq> 0 \<Longrightarrow> 8 dvd head" using in_list_facts(2) [OF inv i] head_in by blast
    have "dchain M' 0 (?L j)"
    proof (cases "j = ?i")
      case False
      then have "head \<noteq> 0 \<Longrightarrow> head \<notin> set (L j)" using one_list [OF inv i j] head_in by blast
      then have "dchain M' 0 (L j)" using old(1) d8 head8 by (auto simp: M'_def dchain_prev simp del: fun_upd_apply)
      then show ?thesis using False by simp
    next
      case True
      have cells: "M' (b + 8) = Some 0" "M' (b + 4) = Some (first (L ?i))" 
      proof -
        have "head \<noteq> 0 \<Longrightarrow> head + 8 \<noteq> b + 8 \<and> head + 8 \<noteq> b + 4" using far f(5) by auto
        then show "M' (b + 8) = Some 0" "M' (b + 4) = Some (first (L ?i))"
          unfolding head_def [symmetric] by (cases "head = 0"; simp add: M'_def M_def)+
      qed
      have "dchain M' b (L ?i)"
      proof (cases "L ?i")
        case (Cons c cs)
        then have c: "head = c" "c \<noteq> 0" "8 dvd c" "c \<notin> set cs" "M (c + 4) = Some (first cs)" "dchain M c cs" "\<forall>x \<in> set cs. 8 dvd x"
          using head8 head_in old(1,2) d8 True by (auto simp: head_def)
        have "M' = M(c + 8 \<mapsto> b)" using c(1,2) by (simp add: M'_def)
        moreover have "dchain (M(c + 8 \<mapsto> b)) c cs" using c by (subst dchain_prev) auto
        ultimately show ?thesis unfolding Cons dchain.simps using c(5) by simp
      qed simp
      then show ?thesis using cells True by simp
    qed
    then show "dchain (hmem ?h) 0 (?L j)" by simp
    show "distinct (?L j)" using old(2) not_in [OF _ j] by (cases "j = ?i") auto
    show "head_block ?h ! j = first (?L j)" using old(3) head(2) i by (cases "j = ?i") simp_all
    show "bit (free_list_bitmap ?h) j \<longleftrightarrow> ?L j \<noteq> []" using old(4) by (cases "j = ?i") (simp_all add: bit_set_bit_iff)
    show "b' \<in> set (?L j) \<longleftrightarrow> (\<exists>m. (b', m, Free) \<in> blocks ?ars' \<and> GetInsertionIndex (m - 8) = j)" for b'
      using old(5) [of b'] by (cases "j = ?i") (auto simp: b)
  qed
  ultimately have "hinv ?h ?ars' ?L" by (simp add: hinv_def)
  then show ?thesis using ins kept by auto
qed

section \<open>Joining free blocks\<close>

lemma at_row:
  assumes "hinv h (As @ (s, xs @ (n, k) # zs) # Bs) L"
  shows "tagged (hmem h) (s + extent xs) n k" "8 dvd n" "GetSize h (s + extent xs) = Some n"
    "next_block h (s + extent xs) = Some (s + extent xs + n)" "prev_block h (s + extent xs + n) = Some (s + extent xs)"
    "k \<noteq> Loose \<Longrightarrow> IsAllocated h (s + extent xs) = Some (k \<noteq> Free)"
proof -
  note d = hinvD [OF assms]
  show t: "tagged (hmem h) (s + extent xs) n k" "8 dvd n" using d(4,5) by auto
  show "GetSize h (s + extent xs) = Some n" "next_block h (s + extent xs) = Some (s + extent xs + n)"
    "prev_block h (s + extent xs + n) = Some (s + extent xs)" "k \<noteq> Loose \<Longrightarrow> IsAllocated h (s + extent xs) = Some (k \<noteq> Free)"
    using tagged_reads [OF t(1)] next_read [OF t] prev_read [OF t] by simp_all
qed

lemma merge_loose:
  assumes inv: "hinv h (As @ (s, xs @ ys @ zs) # Bs) L" and ys: "ys \<noteq> []" "\<forall>z \<in> set ys. snd z = Loose" and b: "b = s + extent xs"
    and N: "N = extent ys"
  shows "\<exists>h'. MakeFree b N h = Some h' \<and> hinv h' (As @ (s, xs @ (N, Loose) # zs) # Bs) L \<and> kept (As @ (s, xs @ ys @ zs) # Bs) h h'"
proof -
  note d = hinvD [OF inv]
  have sz: "sized ys" using d(5) by simp
  then have "8 dvd N" unfolding N by (rule sized_extent)
  moreover have "16 \<le> N" using sz ys unfolding N by (cases ys) (auto split: if_splits)
  moreover have "8 dvd b" using d(2,5) sized_extent [of xs] by (simp add: b)
  moreover have "mapped h b (b + N)" using lay_mapped [of h b ys] d(4) by (simp add: b N)
  ultimately obtain h' where h': "MakeFree b N h = Some h'" "frame h b (b + N) h'" "tagged (hmem h') b N Loose"
    "outstanding_allocated_memory h' = outstanding_allocated_memory h" using MakeFree_ok by blast
  have "busy ys" using ys by (auto simp: busy_def list_all_iff)
  then have "hinv h' (As @ (s, xs @ [(N, Loose)] @ zs) # Bs) L"
    using h'(2,3) \<open>8 dvd N\<close> \<open>16 \<le> N\<close> by (intro region_change [OF inv]) (simp_all add: busy_def b N)
  moreover have "Used \<notin> snd ` set ys" using ys(2) by auto
  then have "kept (As @ (s, xs @ ys @ zs) # Bs) h h'" using frame_kept [OF inv _ _ h'(4)] h'(2) by (simp add: b N)
  ultimately show ?thesis using h'(1) by auto
qed

lemma add_block_base:
  assumes inv: "hinv h (As @ (s, xs @ (pn, pk) # (n, Loose) # (nn, nk) # zs) # Bs) L" and b: "b = s + extent xs + pn"
    and near: "pk \<noteq> Free" "pk \<noteq> Loose" "nk \<noteq> Free" "nk \<noteq> Loose"
  shows "\<exists>h' L'. AddBlock b h = Some (b, h') \<and> hinv h' (As @ (s, xs @ (pn, pk) # (n, Free) # (nn, nk) # zs) # Bs) L' \<and>
    kept (As @ (s, xs @ (pn, pk) # (n, Loose) # (nn, nk) # zs) # Bs) h h'"
proof -
  note p = at_row [OF inv] and m = at_row [of h As s "xs @ [(pn, pk)]" n Loose "(nn, nk) # zs" Bs L]
    and q = at_row [of h As s "xs @ [(pn, pk), (n, Loose)]" nn nk zs Bs L]
  obtain h' where "InsertFree (GetInsertionIndex (n - 8)) b h = Some h'"
    "hinv h' (As @ (s, xs @ (pn, pk) # (n, Free) # (nn, nk) # zs) # Bs) (L(GetInsertionIndex (n - 8) := b # L (GetInsertionIndex (n - 8))))"
    "kept (As @ (s, xs @ (pn, pk) # (n, Loose) # (nn, nk) # zs) # Bs) h h'"
    using insert_free [of h As s "xs @ [(pn, pk)]" n "(nn, nk) # zs" Bs L b] inv near by (auto simp: b add.assoc)
  moreover have "AddBlock b h = do { h \<leftarrow> InsertFree (GetInsertionIndex (n - 8)) b h; Some (b, h) }"
    using inv p m q near by (subst AddBlock.simps) (simp add: b add.assoc)
  ultimately show ?thesis by auto
qed

text \<open>A free block has neighbours, which are not free.\<close>

lemma before_free:
  assumes "hinv h (As @ (s, xs @ (n, Free) # zs) # Bs) L"
  shows "\<exists>ws m k. xs = ws @ [(m, k)] \<and> k \<noteq> Free"
proof -
  note d = hinvD [OF assms]
  have "xs \<noteq> []" using d(6) by (auto simp: fenced_def)
  then obtain ws z where "xs = ws @ [z]" by (metis rev_exhaust)
  then show ?thesis using d(7) by (cases z) (auto simp: coal_append)
qed

lemma after_free:
  assumes "hinv h (As @ (s, xs @ (n, Free) # zs) # Bs) L"
  shows "\<exists>ws m k. zs = (m, k) # ws \<and> k \<noteq> Free"
proof -
  note d = hinvD [OF assms]
  have "zs \<noteq> []" using d(6) by (auto simp: fenced_def)
  then show ?thesis using d(7) by (cases zs) (auto simp: coal_append coal_Cons)
qed

lemma add_block:
  assumes inv: "hinv h (As @ (s, xs @ (pn, pk) # (n, Loose) # (nn, nk) # zs) # Bs) L" and b: "b = s + extent xs + pn"
    and nl: "\<forall>z \<in> set (xs @ (pn, pk) # (nn, nk) # zs). snd z \<noteq> Loose"
    and xs': "xs' = (if pk = Free then xs else xs @ [(pn, pk)])" and zs': "zs' = (if nk = Free then zs else (nn, nk) # zs)"
    and n': "n' = (if pk = Free then pn else 0) + n + (if nk = Free then nn else 0)"
  shows "\<exists>h' L'. AddBlock b h = Some (s + extent xs', h') \<and> hinv h' (As @ (s, xs' @ (n', Free) # zs') # Bs) L' \<and>
    kept (As @ (s, xs @ (pn, pk) # (n, Loose) # (nn, nk) # zs) # Bs) h h'"
proof -
  let ?ars = "As @ (s, xs @ (pn, pk) # (n, Loose) # (nn, nk) # zs) # Bs"
  have "Loose \<noteq> pk" "Loose \<noteq> nk" using nl by auto
  note nlk = this [symmetric]
  note p = at_row [OF inv] and m = at_row [of h As s "xs @ [(pn, pk)]" n Loose "(nn, nk) # zs" Bs L]
    and q = at_row [of h As s "xs @ [(pn, pk), (n, Loose)]" nn nk zs Bs L]
  consider (none) "pk \<noteq> Free" "nk \<noteq> Free" | (right) "pk \<noteq> Free" "nk = Free" | (left) "pk = Free" "nk \<noteq> Free" | (both) "pk = Free" "nk = Free" by blast
  then show ?thesis
  proof cases
    case none
    then show ?thesis using add_block_base [OF inv b] nlk by (simp add: xs' zs' n' b add.assoc)
  next
    case right
    have inv': "hinv h (As @ (s, (xs @ [(pn, pk), (n, Loose)]) @ (nn, Free) # zs) # Bs) L" using inv right by simp
    obtain qm qk ws where z: "zs = (qm, qk) # ws" "qk \<noteq> Free" "qk \<noteq> Loose" using after_free [OF inv'] nl by auto
    obtain h1 L1 where 1: "RemoveFree (b + n) h = Some h1" "hinv h1 (As @ (s, (xs @ [(pn, pk), (n, Loose)]) @ (nn, Loose) # zs) # Bs) L1" "kept ?ars h h1"
      using remove_free [OF inv', of "b + n"] relinked_kept [OF inv'] right by (auto simp: b add.assoc)
    obtain h2 where 2: "MakeFree b (n + nn) h1 = Some h2" "hinv h2 (As @ (s, (xs @ [(pn, pk)]) @ (n + nn, Loose) # zs) # Bs) L1"
      "kept (As @ (s, (xs @ [(pn, pk)]) @ [(n, Loose), (nn, Loose)] @ zs) # Bs) h1 h2"
      using merge_loose [of h1 As s "xs @ [(pn, pk)]" "[(n, Loose), (nn, Loose)]" zs Bs L1 b "n + nn"] 1(2) by (auto simp: b add.assoc)
    obtain h3 L3 where 3: "AddBlock b h2 = Some (b, h3)" "hinv h3 (As @ (s, xs @ (pn, pk) # (n + nn, Free) # (qm, qk) # ws) # Bs) L3"
      "kept (As @ (s, xs @ (pn, pk) # (n + nn, Loose) # (qm, qk) # ws) # Bs) h2 h3"
      using add_block_base [of h2 As s xs pn pk "n + nn" qm qk ws Bs L1 b] 2(2) z right nlk by (auto simp: b)
    have "AddBlock b h = Some (b, h3)"
      using inv p m q nlk right 1(1) 2(1) 3(1) at_row(3) [OF 1(2)] by (subst AddBlock.simps) (simp add: b add.assoc)
    moreover have "kept ?ars h h2" by (rule kept_trans [OF 1(3) 2(3)]) (auto simp: right add_ac)
    then have "kept ?ars h h3" by (rule kept_trans [OF _ 3(3)]) (auto simp: z right add.assoc)
    ultimately show ?thesis using 3(2) z right by (auto simp: xs' zs' n' b add.assoc)
  next
    case left
    have inv': "hinv h (As @ (s, xs @ (pn, Free) # (n, Loose) # (nn, nk) # zs) # Bs) L" using inv left by simp
    obtain qm qk ws where z: "xs = ws @ [(qm, qk)]" "qk \<noteq> Free" "qk \<noteq> Loose" using before_free [OF inv'] nl by auto
    let ?p = "s + extent xs"
    obtain h1 L1 where 1: "RemoveFree ?p h = Some h1" "hinv h1 (As @ (s, xs @ (pn, Loose) # (n, Loose) # (nn, nk) # zs) # Bs) L1" "kept ?ars h h1"
      using remove_free [OF inv', of ?p] relinked_kept [OF inv'] left by auto
    obtain h2 where 2: "MakeFree ?p (n + pn) h1 = Some h2" "hinv h2 (As @ (s, xs @ (n + pn, Loose) # (nn, nk) # zs) # Bs) L1"
      "kept (As @ (s, xs @ [(pn, Loose), (n, Loose)] @ (nn, nk) # zs) # Bs) h1 h2"
      using merge_loose [of h1 As s xs "[(pn, Loose), (n, Loose)]" "(nn, nk) # zs" Bs L1 ?p "n + pn"] 1(2) by auto
    obtain h3 L3 where 3: "AddBlock ?p h2 = Some (?p, h3)" "hinv h3 (As @ (s, ws @ (qm, qk) # (n + pn, Free) # (nn, nk) # zs) # Bs) L3"
      "kept (As @ (s, ws @ (qm, qk) # (n + pn, Loose) # (nn, nk) # zs) # Bs) h2 h3"
      using add_block_base [of h2 As s ws qm qk "n + pn" nn nk zs Bs L1 ?p] 2(2) z left nlk by (auto simp: add.assoc)
    have "AddBlock b h = Some (?p, h3)"
      using inv p m q nlk left 1(1) 2(1) 3(1) at_row(3) [OF 1(2)] by (subst AddBlock.simps) (simp add: b add.assoc)
    moreover have "kept ?ars h h2" by (rule kept_trans [OF 1(3) 2(3)]) (auto simp: left add_ac)
    then have "kept ?ars h h3" by (rule kept_trans [OF _ 3(3)]) (auto simp: z left add_ac)
    ultimately show ?thesis using 3(2) z left by (auto simp: xs' zs' n' add_ac)
  next
    case both
    have inv': "hinv h (As @ (s, xs @ (pn, Free) # (n, Loose) # (nn, nk) # zs) # Bs) L" using inv both by simp
    obtain qm qk ws where z: "xs = ws @ [(qm, qk)]" "qk \<noteq> Free" "qk \<noteq> Loose" using before_free [OF inv'] nl by auto
    let ?p = "s + extent xs"
    obtain h0 L0 where 0: "RemoveFree ?p h = Some h0" "hinv h0 (As @ (s, xs @ (pn, Loose) # (n, Loose) # (nn, nk) # zs) # Bs) L0" "kept ?ars h h0"
      using remove_free [OF inv', of ?p] relinked_kept [OF inv'] both by auto
    have inv'': "hinv h0 (As @ (s, (xs @ [(pn, Loose), (n, Loose)]) @ (nn, Free) # zs) # Bs) L0" using 0(2) both by simp
    obtain rm rk vs where y: "zs = (rm, rk) # vs" "rk \<noteq> Free" "rk \<noteq> Loose" using after_free [OF inv''] nl by auto
    obtain h1 L1 where 1: "RemoveFree (b + n) h0 = Some h1" "hinv h1 (As @ (s, (xs @ [(pn, Loose), (n, Loose)]) @ (nn, Loose) # zs) # Bs) L1"
      "kept (As @ (s, (xs @ [(pn, Loose), (n, Loose)]) @ (nn, Free) # zs) # Bs) h0 h1"
      using remove_free [OF inv'', of "b + n"] relinked_kept [OF inv''] by (auto simp: b add.assoc)
    obtain h2 where 2: "MakeFree ?p (n + pn + nn) h1 = Some h2" "hinv h2 (As @ (s, xs @ (n + pn + nn, Loose) # zs) # Bs) L1"
      "kept (As @ (s, xs @ [(pn, Loose), (n, Loose), (nn, Loose)] @ zs) # Bs) h1 h2"
      using merge_loose [of h1 As s xs "[(pn, Loose), (n, Loose), (nn, Loose)]" zs Bs L1 ?p "n + pn + nn"] 1(2) by auto
    obtain h3 L3 where 3: "AddBlock ?p h2 = Some (?p, h3)" "hinv h3 (As @ (s, ws @ (qm, qk) # (n + pn + nn, Free) # (rm, rk) # vs) # Bs) L3"
      "kept (As @ (s, ws @ (qm, qk) # (n + pn + nn, Loose) # (rm, rk) # vs) # Bs) h2 h3"
      using add_block_base [of h2 As s ws qm qk "n + pn + nn" rm rk vs Bs L1 ?p] 2(2) z y by (auto simp: add.assoc)
    have "GetSize h1 ?p = Some pn" "GetSize h1 (b + n) = Some nn" "GetSize h0 (b + n) = Some nn"
      using at_row(3) [of h1 As s xs pn Loose "(n, Loose) # (nn, Loose) # zs" Bs L1] 1(2) at_row(3) [OF 1(2)] at_row(3) [OF inv'']
      by (simp_all add: b add.assoc)
    then have "AddBlock b h = Some (?p, h3)"
      using inv p m q both 0(1) 1(1) 2(1) 3(1) by (subst AddBlock.simps) (simp add: b add.assoc)
    moreover have "kept ?ars h h1" by (rule kept_trans [OF 0(3) 1(3)]) (auto simp: both add.assoc)
    then have "kept ?ars h h2" by (rule kept_trans [OF _ 2(3)]) (auto simp: both add_ac)
    then have "kept ?ars h h3" by (rule kept_trans [OF _ 3(3)]) (auto simp: z y both add_ac)
    ultimately show ?thesis using 3(2) z y both by (auto simp: xs' zs' n' add_ac)
  qed
qed

section \<open>Allocating from a free block\<close>

definition used :: "area list \<Rightarrow> (nat \<times> nat) set" where
  "used ars = {(y, m). (y, m, Used) \<in> blocks ars}"

definition settled_rows :: "area list \<Rightarrow> bool" where
  "settled_rows ars \<longleftrightarrow> (\<forall>x n. (x, n, Loose) \<notin> blocks ars)"

lemma no_loose_at: "(\<forall>x n. (x, n, Loose) \<notin> blocks_at a bs) \<longleftrightarrow> (\<forall>z \<in> set bs. snd z \<noteq> Loose)"
  by (induction a bs rule: blocks_at.induct) auto

lemma settled_rows_simps [simp]:
  "settled_rows (As @ (s, bs) # Bs) \<longleftrightarrow> settled_rows As \<and> settled_rows Bs \<and> (\<forall>z \<in> set bs. snd z \<noteq> Loose)"
proof -
  have "settled_rows (As @ (s, bs) # Bs) \<longleftrightarrow> settled_rows As \<and> settled_rows Bs \<and> (\<forall>x n. (x, n, Loose) \<notin> blocks_at s bs)"
    by (auto simp: settled_rows_def)
  then show ?thesis by (simp add: no_loose_at)
qed

lemma mark_used:
  assumes "8 dvd n" "16 \<le> n" "tagged (hmem h) b n k"
  shows "\<exists>h'. do { h \<leftarrow> SetSizeTags b n h; MarkAllocated b h } = Some h' \<and> frame h b (b + n) h' \<and> tagged (hmem h') b n Used \<and>
    outstanding_allocated_memory h' = outstanding_allocated_memory h"
proof -
  obtain v where v: "hmem h b = Some v" and e: "hmem h (b + n - 4) = Some n" using assms(3) by (auto simp: tagged_def)
  define M where "M = (hmem h)(b \<mapsto> v mod 8 + n, b + n - 4 \<mapsto> n, b \<mapsto> (v mod 8 + n) OR 1)"
  have ne: "b + n - 4 \<noteq> b" using assms(2) by linarith
  have "do { h \<leftarrow> SetSizeTags b n h; MarkAllocated b h } = Some (h\<lparr>hmem := M\<rparr>)"
    using v e ne SetSizeTags_ok [OF v assms(1)] assms(2) by (simp add: MarkAllocated_def ld_def st_def M_def)
  moreover have "frame h b (b + n) (h\<lparr>hmem := M\<rparr>)" using v e ne assms(2) by (auto simp: frame_def M_def)
  moreover have "M a \<noteq> None \<longleftrightarrow> hmem h a \<noteq> None" for a using v e by (auto simp: M_def)
  moreover have "M b = Some ((v mod 8 + n) OR 1)" "M (b + n - 4) = Some n" using ne by (simp_all add: M_def)
  ultimately show ?thesis using assms(3) size_value [OF assms(1), of v] or_1_value [of "v mod 8 + n"]
    by (auto simp: tagged_def)
qed

lemma split_tags:
  assumes "8 dvd b" "8 dvd l" "16 \<le> l" "8 dvd t" "16 \<le> t" "mapped h b (b + l + t)"
  shows "\<exists>h'. do { h \<leftarrow> SetSizeTags b l h; h \<leftarrow> SetSizeTags (b + l) t h; h \<leftarrow> MarkAllocated (b + l) h; MarkFree b h } = Some h' \<and>
    frame h b (b + l + t) h' \<and> tagged (hmem h') b l Loose \<and> tagged (hmem h') (b + l) t Used \<and>
    outstanding_allocated_memory h' = outstanding_allocated_memory h"
proof -
  have d4: "4 dvd b" "4 dvd b + l" "4 dvd b + l - 4" "4 dvd b + l + t - 4" using assms(1-5) by (auto elim!: dvdE)
  have m: "hmem h b \<noteq> None" "hmem h (b + l) \<noteq> None" "hmem h (b + l - 4) \<noteq> None" "hmem h (b + l + t - 4) \<noteq> None"
    using assms(3,5,6) d4 unfolding mapped_def by auto
  then obtain v w where v: "hmem h b = Some v" "hmem h (b + l) = Some w" by auto
  define M where "M = (hmem h)(b \<mapsto> v mod 8 + l, b + l - 4 \<mapsto> l, b + l \<mapsto> w mod 8 + t, b + l + t - 4 \<mapsto> t,
    b + l \<mapsto> (w mod 8 + t) OR 1, b \<mapsto> unset_bit 0 (v mod 8 + l))"
  have ne: "b + l - 4 \<noteq> b" "b + l - 4 \<noteq> b + l" "b + l \<noteq> b" "b + l + t - 4 \<noteq> b" "b + l + t - 4 \<noteq> b + l" "b + l + t - 4 \<noteq> b + l - 4"
    using assms(3,5) by linarith+
  let ?h1 = "h\<lparr>hmem := (hmem h)(b \<mapsto> v mod 8 + l, b + l - 4 \<mapsto> l)\<rparr>"
  have 1: "SetSizeTags b l h = Some ?h1" using SetSizeTags_ok [OF v(1) assms(2)] assms(3) m by simp
  have 2: "SetSizeTags (b + l) t ?h1 = Some (h\<lparr>hmem := (hmem h)(b \<mapsto> v mod 8 + l, b + l - 4 \<mapsto> l, b + l \<mapsto> w mod 8 + t, b + l + t - 4 \<mapsto> t)\<rparr>)"
    using SetSizeTags_ok [of ?h1 "b + l" w t] v(2) assms(4,5) m ne by simp
  have run: "do { h \<leftarrow> SetSizeTags b l h; h \<leftarrow> SetSizeTags (b + l) t h; h \<leftarrow> MarkAllocated (b + l) h; MarkFree b h } = Some (h\<lparr>hmem := M\<rparr>)"
    using 1 2 ne by (simp add: MarkAllocated_def MarkFree_def ld_def st_def M_def)
  have "frame h b (b + l + t) (h\<lparr>hmem := M\<rparr>)" using m v ne assms(3,5) by (auto simp: frame_def M_def)
  moreover have "M a \<noteq> None \<longleftrightarrow> hmem h a \<noteq> None" for a using m v by (auto simp: M_def)
  moreover have "M b = Some (unset_bit 0 (v mod 8 + l))" "M (b + l - 4) = Some l" "M (b + l) = Some ((w mod 8 + t) OR 1)" "M (b + l + t - 4) = Some t"
    using ne by (simp_all add: M_def)
  ultimately show ?thesis
    using run assms(6) size_value [OF assms(2), of v] unset_value [of "v mod 8 + l"] size_value [OF assms(4), of w] or_1_value [of "w mod 8 + t"]
    by (auto simp: tagged_def mapped_def)
qed

end
