(* ===== verification/HeapFit.thy ===== *)
theory HeapFit
  imports HeapOps
begin

unbundle bit_operations_syntax

text \<open>
  Finding a block that is large enough and taking it, and new memory for the heap.
\<close>

section \<open>Taking a block\<close>

lemma used_simps [simp]: "used (As @ Bs) = used As \<union> used Bs"
  by (auto simp: used_def)

lemma used_row [simp]: "used ((s, bs) # Bs) = {(y, m). (y, m, Used) \<in> blocks_at s bs} \<union> used Bs"
  by (auto simp: used_def)

lemma RemoveBlock_Free: "\<lbrakk>GetSize h b = Some n; i = GetInsertionIndex (n - 8)\<rbrakk> \<Longrightarrow> RemoveBlock i b h = RemoveFree b h"
  by (simp add: RemoveFree_def)

lemma sub_wrap: "\<lbrakk>m \<le> n; n < W\<rbrakk> \<Longrightarrow> (n + W - m) mod W = (n - m :: nat)"
proof -
  assume "m \<le> n" "n < W"
  then have "n + W - m = n - m + W" "n - m < W" by linarith+
  then show ?thesis by (simp only: mod_add_self2 mod_less)
qed

lemma allocate_whole:
  assumes inv: "hinv h (As @ (s, xs @ (n, Free) # zs) # Bs) L" and b: "b = s + extent xs" and i: "i = GetInsertionIndex (n - 8)"
    and r: "r + 8 \<le> n" "n < r + 24"
  shows "\<exists>h' L'. AllocateBlock b i r h = Some (b, h') \<and> hinv h' (As @ (s, xs @ (n, Used) # zs) # Bs) L' \<and>
    kept (As @ (s, xs @ (n, Free) # zs) # Bs) h h'"
proof -
  note f = block_facts [OF inv, of b n Free]
  have n: "8 dvd n" "16 \<le> n" "n < WRAP" "GetSize h b = Some n" using f b at_row(3) [OF inv] by auto
  obtain h1 L1 where 1: "RemoveFree b h = Some h1" "hinv h1 (As @ (s, xs @ (n, Loose) # zs) # Bs) L1"
    "kept (As @ (s, xs @ (n, Free) # zs) # Bs) h h1"
    using remove_free [OF inv b] relinked_kept [OF inv] by blast
  obtain h2 where 2: "do { h \<leftarrow> SetSizeTags b n h1; MarkAllocated b h } = Some h2" "frame h1 b (b + n) h2" "tagged (hmem h2) b n Used"
    "outstanding_allocated_memory h2 = outstanding_allocated_memory h1"
    using mark_used [OF n(1,2)] at_row(1) [OF 1(2)] b by blast
  have "hinv h2 (As @ (s, xs @ (n, Used) # zs) # Bs) L1" using change_one [OF 1(2) _ _ b 2(2,3)] by simp
  moreover have "kept (As @ (s, xs @ (n, Loose) # zs) # Bs) h1 h2"
    using frame_kept [of h1 As s xs "[(n, Loose)]" zs Bs L1 h2] 1(2) 2(2,4) b by simp
  then have "kept (As @ (s, xs @ (n, Free) # zs) # Bs) h h2" by (rule kept_trans [OF 1(3)]) auto
  moreover have "AllocateBlock b i r h = Some (b, h2)"
  proof -
    have "(n + WRAP - (r + 8)) mod WRAP = n - (r + 8)" "(r + 8) mod WRAP = r + 8" using sub_wrap [OF r(1) n(3)] r n(3) by simp_all
    moreover have "RemoveBlock i b h = Some h1" using RemoveBlock_Free [OF n(4) i] 1(1) by simp
    moreover have "do { h \<leftarrow> SetSizeTags b n h1; h \<leftarrow> MarkAllocated b h; Some (b, h) } = Some (b, h2)"
      using 2(1) by (auto split: bind_splits)
    moreover have "n - (r + 8) < 16" using r(2) by simp
    ultimately show ?thesis using n(4) by (simp add: AllocateBlock_def Let_def)
  qed
  ultimately show ?thesis by blast
qed

lemma allocate_end:
  assumes inv: "hinv h (As @ (s, xs @ (n, Free) # zs) # Bs) L" and b: "b = s + extent xs" and i: "i = GetInsertionIndex (n - 8)"
    and r: "8 dvd r" "8 \<le> r" "r + 24 \<le> n" and st: "settled_rows (As @ (s, xs @ (n, Free) # zs) # Bs)"
  shows "\<exists>h' L'. AllocateBlock b i r h = Some (b + (n - (r + 8)), h') \<and>
    hinv h' (As @ (s, xs @ (n - (r + 8), Free) # (r + 8, Used) # zs) # Bs) L' \<and> kept (As @ (s, xs @ (n, Free) # zs) # Bs) h h'"
proof -
  let ?l = "n - (r + 8)" and ?t = "r + 8"
  note f = block_facts [OF inv, of b n Free]
  have n: "8 dvd n" "n < WRAP" "GetSize h b = Some n" "8 dvd b" using f b at_row(3) [OF inv] by auto
  have lt: "8 dvd ?l" "16 \<le> ?l" "8 dvd ?t" "16 \<le> ?t" "?l + ?t = n" using r n(1) by auto
  obtain h1 L1 where 1: "RemoveFree b h = Some h1" "hinv h1 (As @ (s, xs @ (n, Loose) # zs) # Bs) L1"
    "kept (As @ (s, xs @ (n, Free) # zs) # Bs) h h1"
    using remove_free [OF inv b] relinked_kept [OF inv] by blast
  have e: "b + ?l + ?t = b + n" using lt(5) by simp
  have "mapped h1 b (b + ?l + ?t)" using tagged_mapped [OF at_row(1) [OF 1(2)]] unfolding e by (simp add: b)
  then obtain h2 where 2: "do { h \<leftarrow> SetSizeTags b ?l h1; h \<leftarrow> SetSizeTags (b + ?l) ?t h; h \<leftarrow> MarkAllocated (b + ?l) h; MarkFree b h } = Some h2"
    "frame h1 b (b + n) h2" "tagged (hmem h2) b ?l Loose" "tagged (hmem h2) (b + ?l) ?t Used"
    "outstanding_allocated_memory h2 = outstanding_allocated_memory h1"
    using split_tags [OF n(4) lt(1-4)] e by auto
  obtain ws pn pk where x: "xs = ws @ [(pn, pk)]" "pk \<noteq> Free" using before_free [OF inv] by blast
  have 3: "hinv h2 (As @ (s, xs @ [(?l, Loose), (?t, Used)] @ zs) # Bs) L1"
    using region_change [of h1 As s xs "[(n, Loose)]" zs Bs L1 "[(?l, Loose), (?t, Used)]" h2] 1(2) 2(2-4) lt b by (auto simp: busy_def)
  have k12: "kept (As @ (s, xs @ (n, Loose) # zs) # Bs) h1 h2"
    using frame_kept [of h1 As s xs "[(n, Loose)]" zs Bs L1 h2] 1(2) 2(2,5) b by simp
  obtain h3 L3 where 4: "AddBlock b h2 = Some (b, h3)" "hinv h3 (As @ (s, ws @ (pn, pk) # (?l, Free) # (?t, Used) # zs) # Bs) L3"
    "kept (As @ (s, ws @ (pn, pk) # (?l, Loose) # (?t, Used) # zs) # Bs) h2 h3"
    using add_block_base [of h2 As s ws pn pk ?l ?t Used zs Bs L1 b] 3 x st by (auto simp: b add.assoc)
  have "kept (As @ (s, xs @ (n, Free) # zs) # Bs) h h2" by (rule kept_trans [OF 1(3) k12]) auto
  then have "kept (As @ (s, xs @ (n, Free) # zs) # Bs) h h3"
    by (rule kept_trans [OF _ 4(3)]) (use e in \<open>simp add: b x add.assoc; blast\<close>)
  moreover have "AllocateBlock b i r h = Some (b + ?l, h3)"
  proof -
    have "(n + WRAP - ?t) mod WRAP = ?l" "(r + 8) mod WRAP = ?t" using sub_wrap [OF _ n(2), of ?t] r n(2) by simp_all
    moreover have "RemoveBlock i b h = Some h1" using RemoveBlock_Free [OF n(3) i] 1(1) by simp
    moreover have "do { h \<leftarrow> SetSizeTags b ?l h1; h \<leftarrow> SetSizeTags (b + ?l) ?t h; h \<leftarrow> MarkAllocated (b + ?l) h; h \<leftarrow> MarkFree b h;
        (_, h) \<leftarrow> AddBlock b h; Some (b + ?l, h) } = Some (b + ?l, h3)"
    proof -
      have "Option.bind (do { h \<leftarrow> SetSizeTags b ?l h1; h \<leftarrow> SetSizeTags (b + ?l) ?t h; h \<leftarrow> MarkAllocated (b + ?l) h; MarkFree b h })
        (\<lambda>h. do { (_, h) \<leftarrow> AddBlock b h; Some (b + ?l, h) }) = Some (b + ?l, h3)"
        by (simp only: 2(1)) (simp add: 4(1))
      then show ?thesis by (simp only: Option.bind_assoc)
    qed
    ultimately show ?thesis using lt(2) n(3) by (simp add: AllocateBlock_def Let_def mod8_div4 [OF lt(1)])
  qed
  ultimately show ?thesis using 4(2) x by auto
qed

definition extents :: "area list \<Rightarrow> (nat \<times> nat) list" where
  "extents = map (\<lambda>(s, bs). (s, extent bs))"

lemma extents_simps [simp]: "extents [] = []" "extents ((s, bs) # ars) = (s, extent bs) # extents ars" "extents (As @ Bs) = extents As @ extents Bs"
  by (simp_all add: extents_def)

text \<open>Block \<open>a\<close> of \<open>t\<close> bytes is in use from now on, and nothing else has changed.\<close>

definition keeps :: "(nat \<times> nat) set \<Rightarrow> heap \<Rightarrow> heap \<Rightarrow> bool" where
  "keeps U h h' \<longleftrightarrow> (\<forall>(y, m) \<in> U. \<forall>a. y \<le> a \<longrightarrow> a < y + m \<longrightarrow> hmem h' a = hmem h a)"

lemma keeps_refl [simp]: "keeps U h h"
  by (simp add: keeps_def)

lemma keeps_trans: "\<lbrakk>keeps U h h'; keeps V h' h''; U \<subseteq> V\<rbrakk> \<Longrightarrow> keeps U h h''"
  unfolding keeps_def by fastforce

lemma kept_keeps: "kept ars h h' \<Longrightarrow> keeps (used ars) h h' \<and> outstanding_allocated_memory h' = outstanding_allocated_memory h"
  by (auto simp: kept_def keeps_def used_def)

definition taken :: "area list \<Rightarrow> heap \<Rightarrow> nat \<Rightarrow> nat \<Rightarrow> area list \<Rightarrow> heap \<Rightarrow> bool" where
  "taken ars h a t ars' h' \<longleftrightarrow> (\<exists>L'. hinv h' ars' L') \<and> settled_rows ars' \<and> (a, t) \<notin> used ars \<and> used ars' = insert (a, t) (used ars) \<and>
     keeps (used ars) h h' \<and> outstanding_allocated_memory h' = outstanding_allocated_memory h"

lemma free_not_used:
  assumes "hinv h ars L" "(b, n, Free) \<in> blocks ars" "b \<le> a" "a + t = b + n" "0 < t"
  shows "(a, t) \<notin> used ars"
proof
  assume "(a, t) \<in> used ars"
  then have "(a, t, Used) \<in> blocks ars" by (simp add: used_def)
  from blocks_apart [OF _ assms(2) this] assms show False by (auto simp: hinv_def)
qed

lemma allocate_block:
  assumes inv: "hinv h (As @ (s, xs @ (n, Free) # zs) # Bs) L" and b: "b = s + extent xs" and i: "i = GetInsertionIndex (n - 8)"
    and r: "8 dvd r" "8 \<le> r" "r + 8 \<le> n" and st: "settled_rows (As @ (s, xs @ (n, Free) # zs) # Bs)"
  shows "\<exists>a t h' ars'. AllocateBlock b i r h = Some (a, h') \<and> taken (As @ (s, xs @ (n, Free) # zs) # Bs) h a t ars' h' \<and>
    extents ars' = extents (As @ (s, xs @ (n, Free) # zs) # Bs) \<and> r + 8 \<le> t \<and> t \<le> n \<and> b \<le> a \<and> a + t = b + n"
proof (cases "n < r + 24")
  case True
  let ?ars' = "As @ (s, xs @ (n, Used) # zs) # Bs"
  from allocate_whole [OF inv b i r(3) True] obtain h' L' where h': "AllocateBlock b i r h = Some (b, h')" "hinv h' ?ars' L'"
    "kept (As @ (s, xs @ (n, Free) # zs) # Bs) h h'" by blast
  have "used ?ars' = insert (b, n) (used (As @ (s, xs @ (n, Free) # zs) # Bs))" using b by auto
  moreover have "settled_rows ?ars'" using st by simp
  moreover have "(b, n) \<notin> used (As @ (s, xs @ (n, Free) # zs) # Bs)" using r(2,3) b by (intro free_not_used [OF inv, of b n]) auto
  ultimately have "taken (As @ (s, xs @ (n, Free) # zs) # Bs) h b n ?ars' h'" using h'(2) kept_keeps [OF h'(3)] by (auto simp: taken_def)
  moreover have "extents ?ars' = extents (As @ (s, xs @ (n, Free) # zs) # Bs)" by simp
  ultimately show ?thesis using h'(1) r(3) by blast
next
  case False
  then have "r + 24 \<le> n" by simp
  let ?l = "n - (r + 8)"
  let ?ars' = "As @ (s, xs @ (?l, Free) # (r + 8, Used) # zs) # Bs"
  from allocate_end [OF inv b i r(1,2) \<open>r + 24 \<le> n\<close> st] obtain h' L' where h':
    "AllocateBlock b i r h = Some (b + ?l, h')" "hinv h' ?ars' L'" "kept (As @ (s, xs @ (n, Free) # zs) # Bs) h h'" by blast
  have e: "?l + (r + 8) = n" using False by simp
  have "(y, m, Used) \<in> blocks_at s (xs @ (?l, Free) # (r + 8, Used) # zs) \<longleftrightarrow>
    (y, m) = (b + ?l, r + 8) \<or> (y, m, Used) \<in> blocks_at s (xs @ (n, Free) # zs)" for y m
  proof -
    have "blocks_at (s + extent xs + ?l + (r + 8)) zs = blocks_at (s + extent xs + n) zs" by (simp only: add.assoc e)
    then show ?thesis by (auto simp: b)
  qed
  then have "used ?ars' = insert (b + ?l, r + 8) (used (As @ (s, xs @ (n, Free) # zs) # Bs))"
    by (auto simp only: used_simps used_row mem_Collect_eq split_paired_all prod.case)
  moreover have "settled_rows ?ars'" using st by simp
  moreover have "(b + ?l, r + 8) \<notin> used (As @ (s, xs @ (n, Free) # zs) # Bs)" using e b by (intro free_not_used [OF inv, of b n]) auto
  ultimately have "taken (As @ (s, xs @ (n, Free) # zs) # Bs) h (b + ?l) (r + 8) ?ars' h'" using h'(2) kept_keeps [OF h'(3)] by (auto simp: taken_def)
  moreover have "extents ?ars' = extents (As @ (s, xs @ (n, Free) # zs) # Bs)" using False by simp
  moreover have "b + ?l + (r + 8) = b + n" "r + 8 \<le> n" using False by simp_all
  ultimately show ?thesis using h'(1) by (intro exI [of _ "b + ?l"] exI [of _ "r + 8"] exI [of _ h'] exI [of _ ?ars']) simp
qed

section \<open>Which lists have blocks that are large enough\<close>

text \<open>The computed index is the one a search of the table would find.\<close>

lemma table_of_fours: "\<lbrakk>6 \<le> k; k \<le> 9; s < 4\<rbrakk> \<Longrightarrow> free_list_block_sizes ! (7 + (k - 6) * 4 + s) = (4 + s) * 2 ^ (k - 2) \<and>
    free_list_block_sizes ! (8 + (k - 6) * 4 + s) = (5 + s) * 2 ^ (k - 2)"
proof -
  assume "6 \<le> k" "k \<le> 9" "s < 4"
  then have "k = 6 \<or> k = 7 \<or> k = 8 \<or> k = 9" "s = 0 \<or> s = 1 \<or> s = 2 \<or> s = 3" by linarith+
  then show ?thesis by (elim disjE; simp add: free_list_block_sizes_def)
qed

lemma small_table: "j < 8 \<Longrightarrow> free_list_block_sizes ! j = 8 * (j + 1)"
proof -
  assume "j < 8"
  then have "j = 0 \<or> j = 1 \<or> j = 2 \<or> j = 3 \<or> j = 4 \<or> j = 5 \<or> j = 6 \<or> j = 7" by linarith
  then show ?thesis by (elim disjE; simp add: free_list_block_sizes_def)
qed

lemma insertion_bounds:
  assumes "8 \<le> n"
  shows "free_list_block_sizes ! GetInsertionIndex n \<le> n \<and> (GetInsertionIndex n < 23 \<longrightarrow> n < free_list_block_sizes ! (GetInsertionIndex n + 1))"
proof -
  consider "n < 64" | "64 \<le> n" "n < 1024" | "1024 \<le> n" by linarith
  then show ?thesis
  proof cases
    case 1
    have "GetInsertionIndex n = n div 8 - 1" using 1 assms by (simp add: GetInsertionIndex_def drop_bit_eq_div)
    moreover have "n div 8 < 8" "n div 8 - 1 < 8" "n div 8 - 1 + 1 < 8" "8 * (n div 8 - 1 + 1) \<le> n" "n < 8 * (n div 8 - 1 + 1 + 1)"
      using 1 assms by presburger+
    ultimately show ?thesis using small_table [of "n div 8 - 1"] small_table [of "n div 8 - 1 + 1"] by simp
  next
    case 2
    from GetInsertionIndex_split [OF this] obtain k s where k: "6 \<le> k" "k \<le> 9" "s < 4" "GetInsertionIndex n = 7 + (k - 6) * 4 + s"
      "(4 + s) * 2 ^ (k - 2) \<le> n" "n < (5 + s) * 2 ^ (k - 2)" by blast
    have "GetInsertionIndex n + 1 = 8 + (k - 6) * 4 + s" using k(4) by simp
    then show ?thesis using table_of_fours [OF k(1-3)] k(4-6) by (simp add: add.assoc)
  next
    case 3
    then have "GetInsertionIndex n = 23" by (simp add: GetInsertionIndex_def)
    moreover have "free_list_block_sizes ! 23 = 1024" by (simp add: free_list_block_sizes_def)
    ultimately show ?thesis using 3 by simp
  qed
qed

lemma table_length [simp]: "length free_list_block_sizes = 24"
  by (simp add: free_list_block_sizes_def)

lemma table_sorted: "\<lbrakk>i \<le> j; j < 24\<rbrakk> \<Longrightarrow> free_list_block_sizes ! i \<le> free_list_block_sizes ! j"
proof -
  assume "i \<le> j" "j < 24"
  moreover have "sorted free_list_block_sizes" by (simp add: free_list_block_sizes_def)
  ultimately show ?thesis by (simp add: sorted_nth_mono)
qed

lemma insertion_index_iff:
  assumes "8 \<le> n" "i < 24"
  shows "i \<le> GetInsertionIndex n \<longleftrightarrow> free_list_block_sizes ! i \<le> n"
proof
  assume "i \<le> GetInsertionIndex n"
  from table_sorted [OF this GetInsertionIndex_less] show "free_list_block_sizes ! i \<le> n" using insertion_bounds [OF assms(1)] by linarith
next
  assume n: "free_list_block_sizes ! i \<le> n"
  show "i \<le> GetInsertionIndex n"
  proof (rule ccontr)
    assume i: "\<not> i \<le> GetInsertionIndex n"
    then have "free_list_block_sizes ! (GetInsertionIndex n + 1) \<le> free_list_block_sizes ! i" using table_sorted [of "GetInsertionIndex n + 1" i] assms(2) by simp
    moreover have "GetInsertionIndex n < 23" using i assms(2) by linarith
    ultimately show False using insertion_bounds [OF assms(1)] n by linarith
  qed
qed

lemma last_list: "8 \<le> n \<Longrightarrow> GetInsertionIndex n < 23 \<longleftrightarrow> n < 1024"
  using insertion_index_iff [of n 23] by (simp add: free_list_block_sizes_def not_le [symmetric])

lemma smallest_fits_iff:
  assumes "8 dvd r" "r \<le> 1024" "i < 24"
  shows "GetSmallestListIndexThatFits r \<le> i \<longleftrightarrow> r \<le> free_list_block_sizes ! i"
proof (cases "r \<le> 8")
  case True
  have "8 \<le> free_list_block_sizes ! i" using table_sorted [of 0 i] assms(3) by (simp add: free_list_block_sizes_def)
  then show ?thesis using True by (simp add: GetSmallestListIndexThatFits_def free_list_block_sizes_def)
next
  case False
  then have "16 \<le> r" using assms(1) by (elim dvdE) auto
  then have r: "8 \<le> r - 1" by simp
  let ?g = "GetInsertionIndex (r - 1)"
  have "?g < 23" using last_list [OF r] assms(2) \<open>16 \<le> r\<close> by linarith
  then have "GetSmallestListIndexThatFits r = ?g + 1" using False
    by (simp add: GetSmallestListIndexThatFits_def free_list_block_sizes_def)
  moreover have "?g + 1 \<le> i \<longleftrightarrow> \<not> i \<le> ?g" by linarith
  ultimately show ?thesis using insertion_index_iff [OF r assms(3)] \<open>16 \<le> r\<close> by auto
qed

lemma smallest_less: "GetSmallestListIndexThatFits r < 24"
  using GetInsertionIndex_less [of "r - 1"] by (simp add: GetSmallestListIndexThatFits_def Let_def)

lemma smallest_large: "1024 < r \<Longrightarrow> GetSmallestListIndexThatFits r = 23"
proof -
  assume r: "1024 < r"
  then have "GetInsertionIndex (r - 1) = 23" using last_list [of "r - 1"] GetInsertionIndex_less [of "r - 1"] by linarith
  then show ?thesis using r by (simp add: GetSmallestListIndexThatFits_def free_list_block_sizes_def)
qed

lemma block_in_list_fits:
  assumes "8 dvd r" "GetSmallestListIndexThatFits r \<le> i" "i < 23" "GetInsertionIndex n = i" "8 \<le> n"
  shows "r \<le> n"
proof -
  have "r \<le> 1024" using smallest_large [of r] assms(2,3) by linarith
  then have "r \<le> free_list_block_sizes ! i" using smallest_fits_iff [of r i] assms(1-3) by simp
  then show ?thesis using insertion_bounds [OF assms(5)] assms(4) by (metis le_trans)
qed

text \<open>
  The bit operations compute the list of a block as a search of \<open>free_list_block_sizes\<close> would: blocks of \<open>n\<close> bytes go to the
  last list whose size is not larger, and a request of \<open>r\<close> bytes begins at the first list whose size is not smaller.
\<close>

lemma list_index_equivalence:
  assumes "8 \<le> n" "8 dvd r" "r \<le> 1024" "i < 24"
  shows "(i \<le> GetInsertionIndex n \<longleftrightarrow> free_list_block_sizes ! i \<le> n) \<and> (GetSmallestListIndexThatFits r \<le> i \<longleftrightarrow> r \<le> free_list_block_sizes ! i)"
  using insertion_index_iff [OF assms(1,4)] smallest_fits_iff [OF assms(2-4)] by simp

lemma list_index_equivalence_witness: "11 \<le> GetInsertionIndex 128 \<and> GetSmallestListIndexThatFits 104 \<le> 11"
  using list_index_equivalence [of 128 104 11] by (simp add: free_list_block_sizes_def)

section \<open>Searching the lists\<close>

lemma BitScanForward_bit: "v \<noteq> 0 \<Longrightarrow> bit v (BitScanForward v)"
proof (induction v rule: BitScanForward.induct)
  case (1 v)
  show ?case
  proof (cases "odd v")
    case True
    then show ?thesis by (subst BitScanForward.simps) (simp add: bit_0)
  next
    case False
    then have "v div 2 \<noteq> 0" using 1 by presburger
    then have "bit (v div 2) (BitScanForward (v div 2))" using 1 False by simp
    then have "bit v (Suc (BitScanForward (v div 2)))" by (simp add: bit_Suc)
    then show ?thesis using 1 False by (subst BitScanForward.simps) simp
  qed
qed

lemma in_list_size:
  assumes "hinv h ars L" "i < 24" "x \<in> set (L i)"
  shows "\<exists>n. (x, n, Free) \<in> blocks ars \<and> GetInsertionIndex (n - 8) = i \<and> GetSize h x = Some n \<and> 16 \<le> n \<and> n < WRAP \<and> 0 < x"
proof -
  obtain n where n: "(x, n, Free) \<in> blocks ars" "GetInsertionIndex (n - 8) = i" using assms by (auto simp: hinv_def listed_def)
  note f = block_facts [OF assms(1) n(1)]
  have "GetSize h x = Some n" using tagged_reads(1) [OF f(7)] .
  then show ?thesis using n f(1,5,6) by (intro exI [of _ n]) auto
qed

lemma first_fit_ok:
  "\<lbrakk>dchain (hmem h) p xs; \<And>x. x \<in> set xs \<Longrightarrow> \<exists>n. GetSize h x = Some n \<and> 16 \<le> n \<and> n < WRAP \<and> 0 < x\<rbrakk> \<Longrightarrow>
    \<exists>b. first_fit (first xs) r h = Some b \<and> (b = 0 \<or> b \<in> set xs \<and> (\<exists>n. GetSize h b = Some n \<and> r + 8 \<le> n))"
proof (induction xs arbitrary: p)
  case Nil
  show ?case by (subst first_fit.simps) simp
next
  case (Cons x xs)
  from Cons.prems(2) [of x] obtain n where n: "GetSize h x = Some n" "16 \<le> n" "n < WRAP" "0 < x" by auto
  have w: "(n + WRAP - 8) mod WRAP = n - 8" using sub_wrap [of 8 n WRAP] n by simp
  show ?case
  proof (cases "r \<le> n - 8")
    case True
    then have "first_fit x r h = Some x" using n w by (subst first_fit.simps) simp
    then show ?thesis using True n by auto
  next
    case False
    have "ld h (x + 4) = Some (first xs)" using Cons.prems(1) by (simp add: ld_def)
    then have "first_fit x r h = first_fit (first xs) r h" using n w False by (subst first_fit.simps) simp
    moreover obtain b where "first_fit (first xs) r h = Some b" "b = 0 \<or> b \<in> set xs \<and> (\<exists>n. GetSize h b = Some n \<and> r + 8 \<le> n)"
      using Cons.IH [of x] Cons.prems by auto
    ultimately show ?thesis by auto
  qed
qed

lemma find_in_lists_ok:
  assumes inv: "hinv h ars L" and r: "8 dvd r" "m = GetSmallestListIndexThatFits r"
  shows "find_in_lists m r h = Some None \<or>
    (\<exists>i b n. find_in_lists m r h = Some (Some (i, b)) \<and> (b, n, Free) \<in> blocks ars \<and> i = GetInsertionIndex (n - 8) \<and> r + 8 \<le> n)"
proof (cases "push_bit m (drop_bit m (free_list_bitmap h)) = 0")
  case True
  then show ?thesis by (simp add: find_in_lists_def)
next
  case False
  define i where "i = BitScanForward (push_bit m (drop_bit m (free_list_bitmap h)))"
  have "bit (push_bit m (drop_bit m (free_list_bitmap h))) i" using BitScanForward_bit [OF False] by (simp add: i_def)
  then have "m \<le> i" "bit (free_list_bitmap h) i" by (auto simp: bit_simps)
  then have i: "m \<le> i" "i < 24" "L i \<noteq> []" "head_block h ! i = first (L i)" "dchain (hmem h) 0 (L i)"
    using inv by (auto simp: hinv_def listed_def)
  show ?thesis
  proof (cases "i = 23")
    case False
    then have i23: "i < 23" using i(2) by simp
    have "first (L i) \<in> set (L i)" using i(3) by (cases "L i") auto
    from in_list_size [OF inv i(2) this] obtain n where n: "(first (L i), n, Free) \<in> blocks ars" "GetInsertionIndex (n - 8) = i" "16 \<le> n" by blast
    moreover have "r \<le> n - 8" using block_in_list_fits [OF r(1) _ i23 n(2)] i(1) r(2) n(3) by simp
    moreover have "find_in_lists m r h = Some (Some (i, first (L i)))"
      using \<open>push_bit m (drop_bit m (free_list_bitmap h)) \<noteq> 0\<close> False i(4) by (simp add: find_in_lists_def Let_def i_def [symmetric])
    ultimately show ?thesis by (intro disjI2 exI [of _ i] exI [of _ "first (L i)"] exI [of _ n]) auto
  next
    case True
    have "\<exists>b. first_fit (first (L i)) r h = Some b \<and> (b = 0 \<or> b \<in> set (L i) \<and> (\<exists>n. GetSize h b = Some n \<and> r + 8 \<le> n))"
      using first_fit_ok [OF i(5)] in_list_size [OF inv i(2)] by blast
    then obtain b where b: "first_fit (first (L i)) r h = Some b" "b = 0 \<or> b \<in> set (L i) \<and> (\<exists>n. GetSize h b = Some n \<and> r + 8 \<le> n)" by blast
    have f: "find_in_lists m r h = Some (if b = 0 then None else Some (i, b))"
      using \<open>push_bit m (drop_bit m (free_list_bitmap h)) \<noteq> 0\<close> True i(4) b(1) by (simp add: find_in_lists_def Let_def i_def [symmetric])
    show ?thesis
    proof (cases "b = 0")
      case False
      then have "b \<in> set (L i)" using b(2) by blast
      from in_list_size [OF inv i(2) this] obtain n where "(b, n, Free) \<in> blocks ars" "GetInsertionIndex (n - 8) = i" "GetSize h b = Some n" by blast
      then show ?thesis using f False b(2) by (intro disjI2 exI [of _ i] exI [of _ b] exI [of _ n]) auto
    qed (simp add: f)
  qed
qed

end
