(* ===== verification/HeapSys.thy ===== *)
theory HeapSys
  imports HeapFit
begin

unbundle bit_operations_syntax

text \<open>
  New memory for the heap, and the whole of finding a block.
\<close>

section \<open>A new area\<close>

lemma or_flags: "(v OR 2) div 8 = v div (8 :: nat)"
proof -
  have "drop_bit 3 (v OR 2) = drop_bit 3 v OR drop_bit 3 2" by (rule drop_bit_or)
  then show ?thesis by (simp add: drop_bit_eq_div)
qed

text \<open>The four values that a fencepost's first word takes.\<close>

lemma fence_value: "(((v mod 8 + 8) OR 2) OR 1) div 8 * 8 = (8 :: nat) \<and> odd (((v mod 8 + 8) OR 2) OR 1)"
  using or_1_value [of "(v mod 8 + 8) OR 2"] or_flags [of "v mod 8 + 8"] by simp

definition new_words :: "nat \<Rightarrow> nat list \<Rightarrow> heap \<Rightarrow> nat \<Rightarrow> nat option" where
  "new_words block contents h = (\<lambda>a. if block \<le> a \<and> a < block + 4 * length contents \<and> (a - block) mod 4 = 0
     then Some (contents ! ((a - block) div 4)) else hmem h a)"

lemma new_words_mapped: "4 dvd block \<Longrightarrow> mapped (h\<lparr>hmem := new_words block cs h\<rparr>) block (block + 4 * length cs)"
  by (auto simp: mapped_def new_words_def)

lemma taggedI:
  assumes "m b = Some v" "v div 8 * 8 = n" "k = Free \<Longrightarrow> even v" "k = Used \<or> k = Fence \<Longrightarrow> odd v" "m (b + n - 4) = Some n"
    "\<And>a. b \<le> a \<Longrightarrow> a < b + n \<Longrightarrow> 4 dvd a \<Longrightarrow> m a \<noteq> None"
  shows "tagged m b n k"
  using assms unfolding tagged_def by blast

lemma new_area_tags:
  assumes "8 dvd b" "8 dvd k" "mapped h b (b + (k + 32))"
  shows "\<exists>h'. do { h \<leftarrow> SetSizeTags b 8 h; h \<leftarrow> SetSizeTags (b + 8) (k + 16) h; h \<leftarrow> SetSizeTags (b + (k + 24)) 8 h;
      h \<leftarrow> set_prev (b + 8) 0 h; h \<leftarrow> set_next (b + 8) 0 h; h \<leftarrow> MarkFencepost b h; h \<leftarrow> MarkFencepost (b + (k + 24)) h;
      h \<leftarrow> MarkAllocated b h; h \<leftarrow> MarkAllocated (b + (k + 24)) h; MarkFree (b + 8) h } = Some h' \<and>
    frame h b (b + (k + 32)) h' \<and> lay (hmem h') b [(8, Fence), (k + 16, Loose), (8, Fence)] \<and>
    outstanding_allocated_memory h' = outstanding_allocated_memory h"
proof -
  have "hmem h (b + c) \<noteq> None" if "c \<in> {0, 4, 8, 12, 16, k + 20, k + 24, k + 28}" for c
  proof -
    have "4 dvd b" "4 dvd k" using assms(1,2) by (auto intro: dvd_trans)
    moreover from this(2) have "4 dvd c" using that by (auto intro!: dvd_add)
    ultimately show ?thesis using that assms(3) unfolding mapped_def by auto
  qed
  then have m: "hmem h b \<noteq> None" "hmem h (b + 4) \<noteq> None" "hmem h (b + 8) \<noteq> None" "hmem h (b + 12) \<noteq> None" "hmem h (b + 16) \<noteq> None"
    "hmem h (b + (k + 20)) \<noteq> None" "hmem h (b + (k + 24)) \<noteq> None" "hmem h (b + (k + 28)) \<noteq> None" by force+
  then obtain u v w where v: "hmem h b = Some u" "hmem h (b + 8) = Some v" "hmem h (b + (k + 24)) = Some w" by blast
  define M1 where "M1 = (hmem h)(b \<mapsto> u mod 8 + 8, b + 4 \<mapsto> 8, b + 8 \<mapsto> v mod 8 + (k + 16), b + (k + 20) \<mapsto> k + 16,
    b + (k + 24) \<mapsto> w mod 8 + 8, b + (k + 28) \<mapsto> 8)"
  define M where "M = M1(b + 16 \<mapsto> 0, b + 12 \<mapsto> 0, b \<mapsto> (u mod 8 + 8) OR 2, b + (k + 24) \<mapsto> (w mod 8 + 8) OR 2,
    b \<mapsto> ((u mod 8 + 8) OR 2) OR 1, b + (k + 24) \<mapsto> ((w mod 8 + 8) OR 2) OR 1, b + 8 \<mapsto> unset_bit 0 (v mod 8 + (k + 16)))"
  let ?ha = "h\<lparr>hmem := (hmem h)(b \<mapsto> u mod 8 + 8, b + 4 \<mapsto> 8)\<rparr>"
  let ?hb = "h\<lparr>hmem := (hmem h)(b \<mapsto> u mod 8 + 8, b + 4 \<mapsto> 8, b + 8 \<mapsto> v mod 8 + (k + 16), b + (k + 20) \<mapsto> k + 16)\<rparr>"
  have 1: "SetSizeTags b 8 h = Some ?ha"
  proof -
    have "b + 8 - 4 = b + 4" by simp
    then show ?thesis using SetSizeTags_ok [OF v(1), of 8] m(2) by (simp only:) simp
  qed
  have 2: "SetSizeTags (b + 8) (k + 16) ?ha = Some ?hb"
  proof -
    have "b + 8 + (k + 16) - 4 = b + (k + 20)" by simp
    then show ?thesis using SetSizeTags_ok [of ?ha "b + 8" v "k + 16"] v(2) assms(2) m(6) by (simp only:) simp
  qed
  have 3: "SetSizeTags (b + (k + 24)) 8 ?hb = Some (h\<lparr>hmem := M1\<rparr>)"
  proof -
    have "b + (k + 24) + 8 - 4 = b + (k + 28)" by simp
    then show ?thesis using SetSizeTags_ok [of ?hb "b + (k + 24)" w 8] v(3) m(8) by (simp only: M1_def) simp
  qed
  have M1: "M1 b = Some (u mod 8 + 8)" "M1 (b + 8) = Some (v mod 8 + (k + 16))" "M1 (b + (k + 24)) = Some (w mod 8 + 8)"
    "M1 (b + 12) \<noteq> None" "M1 (b + 16) \<noteq> None"
    using m by (simp_all add: M1_def)
  have 4: "do { h \<leftarrow> set_prev (b + 8) 0 (h\<lparr>hmem := M1\<rparr>); h \<leftarrow> set_next (b + 8) 0 h; h \<leftarrow> MarkFencepost b h; h \<leftarrow> MarkFencepost (b + (k + 24)) h;
      h \<leftarrow> MarkAllocated b h; h \<leftarrow> MarkAllocated (b + (k + 24)) h; MarkFree (b + 8) h } = Some (h\<lparr>hmem := M\<rparr>)"
  proof -
    have e: "b + 8 + 8 = b + 16" "b + 8 + 4 = b + 12" by simp_all
    have "set_prev (b + 8) 0 (h\<lparr>hmem := M1\<rparr>) = Some (h\<lparr>hmem := M1(b + 16 \<mapsto> 0)\<rparr>)"
      unfolding set_prev_def e using M1 by (simp add: st_def)
    moreover have "set_next (b + 8) 0 (h\<lparr>hmem := M1(b + 16 \<mapsto> 0)\<rparr>) = Some (h\<lparr>hmem := M1(b + 16 \<mapsto> 0, b + 12 \<mapsto> 0)\<rparr>)"
      unfolding set_next_def e using M1 by (simp add: st_def)
    ultimately show ?thesis
      using M1 by (simp add: MarkFencepost_def MarkAllocated_def MarkFree_def st_def ld_def M_def)
  qed
  have "M a = None \<longleftrightarrow> hmem h a = None" for a using m by (auto simp: M_def M1_def)
  moreover have "M a = hmem h a" if "a < b \<or> b + (k + 32) \<le> a" for a using that by (auto simp: M_def M1_def)
  ultimately have fr: "frame h b (b + (k + 32)) (h\<lparr>hmem := M\<rparr>)" by (simp add: frame_def)
  have Mv: "M b = Some (((u mod 8 + 8) OR 2) OR 1)" "M (b + 4) = Some 8" "M (b + 8) = Some (unset_bit 0 (v mod 8 + (k + 16)))"
    "M (b + (k + 20)) = Some (k + 16)" "M (b + (k + 24)) = Some (((w mod 8 + 8) OR 2) OR 1)" "M (b + (k + 28)) = Some 8"
    by (simp_all add: M_def M1_def)
  have mp: "M a \<noteq> None" if "b \<le> a" "a < b + (k + 32)" "4 dvd a" for a
    using assms(3) that \<open>\<And>a. M a = None \<longleftrightarrow> hmem h a = None\<close> unfolding mapped_def by metis
  have "tagged M b 8 Fence"
  proof (rule taggedI)
    show "M (b) = Some (((u mod 8 + 8) OR 2) OR 1)" by (rule Mv(1))
    have "b + 8 - 4 = b + 4" by simp
    then show "M (b + 8 - 4) = Some 8" using Mv(2) by (simp only:)
  qed (use fence_value [of u] mp in auto)
  moreover have "tagged M (b + 8) (k + 16) Loose"
  proof (rule taggedI)
    show "M (b + 8) = Some (unset_bit 0 (v mod 8 + (k + 16)))" by (rule Mv(3))
    have "b + 8 + (k + 16) - 4 = b + (k + 20)" by simp
    then show "M (b + 8 + (k + 16) - 4) = Some (k + 16)" using Mv(4) by (simp only:)
  qed (use size_value [of "k + 16" v] unset_value [of "v mod 8 + (k + 16)"] assms(2) mp in auto)
  moreover have "tagged M (b + (k + 24)) 8 Fence"
  proof (rule taggedI)
    show "M (b + (k + 24)) = Some (((w mod 8 + 8) OR 2) OR 1)" by (rule Mv(5))
    have "b + (k + 24) + 8 - 4 = b + (k + 28)" by simp
    then show "M (b + (k + 24) + 8 - 4) = Some 8" using Mv(6) by (simp only:)
  qed (use fence_value [of w] mp in auto)
  moreover have "b + 8 + (k + 16) = b + (k + 24)" by simp
  ultimately have "lay M b [(8, Fence), (k + 16, Loose), (8, Fence)]" by (simp only: lay.simps)
  then show ?thesis using 1 2 3 4 fr by simp
qed

text \<open>What the system gives: a piece of memory of whole words, apart from every area.\<close>

definition fresh_area :: "(nat \<times> nat) set \<Rightarrow> nat \<Rightarrow> nat \<Rightarrow> bool" where
  "fresh_area own b N \<longleftrightarrow> 0 < b \<and> 8 dvd b \<and> 8 dvd N \<and> b + N \<le> WRAP \<and> (\<forall>(s, m) \<in> own. b + N \<le> s \<or> s + m \<le> b)"

lemma extents_set: "(s, bs) \<in> set ars \<Longrightarrow> (s, extent bs) \<in> set (extents ars)"
  by (force simp: extents_def)

lemma add_area:
  assumes inv: "hinv h ars L" and new: "fresh_area (set (extents ars)) b N" and bs: "extent bs = N" "sized bs" "fenced bs" "coal bs" "\<forall>z \<in> set bs. snd z \<noteq> Free"
    and lay: "lay (hmem h') b bs" and same: "\<And>a. a < b \<or> b + N \<le> a \<Longrightarrow> hmem h' a = hmem h a"
    and lists: "head_block h' = head_block h" "free_list_bitmap h' = free_list_bitmap h"
  shows "hinv h' ((b, bs) # ars) L"
proof -
  have ap: "apart (b, bs) (s, cs)" if "(s, cs) \<in> set ars" for s cs
    using new extents_set [OF that] bs(1) by (auto simp: fresh_area_def apart_def)
  have old: "hmem h' a = hmem h a" if "(s, cs) \<in> set ars" "s \<le> a" "a < s + extent cs" for s cs a
    using ap [OF that(1)] that(2,3) bs(1) by (intro same) (auto simp: apart_def)
  have "area_ok (hmem h') (s, cs)" if "(s, cs) \<in> set ars" for s cs
  proof (rule area_frame [of "hmem h"])
    show "area_ok (hmem h) (s, cs)" using inv that by (simp add: hinv_def list_all_iff)
  qed (rule old [OF that])
  moreover have "area_ok (hmem h') (b, bs)" using new bs lay by (simp add: area_ok_def fresh_area_def)
  moreover have "sorted_wrt apart ((b, bs) # ars)" using inv ap unfolding hinv_def by (simp add: split_paired_all)
  moreover have "listed h' ((b, bs) # ars) L"
  proof (rule listed_cong [of h ars L])
    show "listed h ars L" using inv by (simp add: hinv_def)
    show "(x, n, Free) \<in> blocks ((b, bs) # ars) \<longleftrightarrow> (x, n, Free) \<in> blocks ars" for x n
    proof -
      have "(x, n, Free) \<notin> blocks_at b bs" using bs(5) blocks_at_bounds by fastforce
      then show ?thesis by simp
    qed
    show "hmem h' (x + 4) = hmem h (x + 4) \<and> hmem h' (x + 8) = hmem h (x + 8)" if x: "(x, n, Free) \<in> blocks ars" for x n
    proof -
      obtain s cs where s: "(s, cs) \<in> set ars" "(x, n, Free) \<in> blocks_at s cs" using x by (auto simp: blocks_def)
      have "16 \<le> n" using block_facts(5) [OF inv x] by simp
      then show ?thesis using blocks_at_bounds [OF s(2)] old [OF s(1)] by simp
    qed
  qed (use lists in simp_all)
  ultimately show ?thesis by (simp add: hinv_def list_all_iff split_paired_all)
qed

lemma request_block:
  assumes inv: "hinv h ars L" and get: "get_memory ((total_size + 16) mod WRAP) g = (Some (b, cs), g')"
    and new: "fresh_area (set (extents ars)) b (4 * length cs)" "32 \<le> 4 * length cs"
  shows "\<exists>h'. RequestBlock get_memory total_size h g = Some (b + 8, h', g') \<and>
    hinv h' ((b, [(8, Fence), (4 * length cs - 16, Loose), (8, Fence)]) # ars) L \<and> keeps (used ars) h h' \<and>
    outstanding_allocated_memory h' = outstanding_allocated_memory h"
proof -
  let ?h = "h\<lparr>hmem := new_words b cs h\<rparr>" and ?bs = "[(8, Fence), (4 * length cs - 16, Loose), (8, Fence)]"
  obtain k where k: "4 * length cs = k + 32" using new(2) by (metis le_Suc_ex add.commute)
  have d: "8 dvd b" "8 dvd k" using new(1) unfolding fresh_area_def k by (auto simp: dvd_add_left_iff)
  have "4 dvd b" using d(1) by (auto intro: dvd_trans)
  from new_words_mapped [OF this, of cs h] have "mapped ?h b (b + (k + 32))" by (simp only: k)
  from new_area_tags [OF d this] obtain h' where h': "do { h \<leftarrow> SetSizeTags b 8 ?h; h \<leftarrow> SetSizeTags (b + 8) (k + 16) h; h \<leftarrow> SetSizeTags (b + (k + 24)) 8 h;
      h \<leftarrow> set_prev (b + 8) 0 h; h \<leftarrow> set_next (b + 8) 0 h; h \<leftarrow> MarkFencepost b h; h \<leftarrow> MarkFencepost (b + (k + 24)) h;
      h \<leftarrow> MarkAllocated b h; h \<leftarrow> MarkAllocated (b + (k + 24)) h; MarkFree (b + 8) h } = Some h'"
    "frame ?h b (b + (k + 32)) h'" "lay (hmem h') b [(8, Fence), (k + 16, Loose), (8, Fence)]"
    "outstanding_allocated_memory h' = outstanding_allocated_memory h" by auto
  have same: "hmem h' a = hmem h a" if "a < b \<or> b + 4 * length cs \<le> a" for a
  proof -
    have "hmem h' a = hmem ?h a" using h'(2) that unfolding frame_def k by blast
    then show ?thesis using that by (auto simp: new_words_def)
  qed
  have bs: "?bs = [(8, Fence), (k + 16, Loose), (8, Fence)]" by (simp add: k)
  have "hinv h' ((b, ?bs) # ars) L"
  proof (rule add_area [OF inv new(1) _ _ _ _ _ _ same])
    show "lay (hmem h') b ?bs" unfolding bs by (rule h'(3))
    show "head_block h' = head_block h" "free_list_bitmap h' = free_list_bitmap h" using h'(2) by (simp_all add: frame_def)
    show "sized ?bs" unfolding bs using d(2) by simp
  qed (use new(2) in \<open>auto simp: fenced_def\<close>)
  moreover have "keeps (used ars) h h'"
    unfolding keeps_def
  proof (clarify)
    fix y m a assume u: "(y, m) \<in> used ars" "y \<le> a" "a < y + m"
    then obtain s cs' where "(s, cs') \<in> set ars" "(y, m, Used) \<in> blocks_at s cs'" by (auto simp: used_def blocks_def)
    then show "hmem h' a = hmem h a" using blocks_at_bounds extents_set new(1) u(2,3) by (intro same) (fastforce simp: fresh_area_def)
  qed
  moreover have "RequestBlock get_memory total_size h g = Some (b + 8, h', g')"
  proof -
    have e: "(k + 32 - 8) div 4 * 4 = k + 24" "k + 32 - 2 * 8 = k + 16" "8 div 4 * 4 = (8 :: nat)" "k + 32 - 8 = k + 24" using d(2) by (simp_all add: mod8_div4)
    have "Option.bind (do { h \<leftarrow> SetSizeTags b 8 ?h; h \<leftarrow> SetSizeTags (b + 8) (k + 16) h; h \<leftarrow> SetSizeTags (b + (k + 24)) 8 h;
      h \<leftarrow> set_prev (b + 8) 0 h; h \<leftarrow> set_next (b + 8) 0 h; h \<leftarrow> MarkFencepost b h; h \<leftarrow> MarkFencepost (b + (k + 24)) h;
      h \<leftarrow> MarkAllocated b h; h \<leftarrow> MarkAllocated (b + (k + 24)) h; MarkFree (b + 8) h }) (\<lambda>h. Some (b + 8, h, g')) = Some (b + 8, h', g')"
      by (simp only: h'(1)) simp
    moreover have "(2 :: nat) * 8 = 16" "MIN_REQ_SIZE * 2 = 16" by simp_all
    ultimately show ?thesis
      unfolding RequestBlock_def Let_def new_words_def [symmetric] k e get
      using get e by (simp only: Option.bind_assoc option.case prod.case k new_words_def [symmetric])
  qed
  ultimately show ?thesis using h'(4) by blast
qed

section \<open>Finding a block\<close>

lemma block_row: "(b, n, k) \<in> blocks ars \<Longrightarrow> \<exists>As s xs zs Bs. ars = As @ (s, xs @ (n, k) # zs) # Bs \<and> b = s + extent xs"
  using blocks_in [of b n k ars] blocks_at_split [of b n k] by blast

lemma allocate_any:
  assumes inv: "hinv h ars L" and st: "settled_rows ars" and b: "(b, n, Free) \<in> blocks ars" and i: "i = GetInsertionIndex (n - 8)"
    and r: "8 dvd r" "8 \<le> r" "r + 8 \<le> n"
  shows "\<exists>a t h' ars'. AllocateBlock b i r h = Some (a, h') \<and> taken ars h a t ars' h' \<and> extents ars' = extents ars \<and> r + 8 \<le> t \<and> 0 < a"
proof -
  obtain As s xs zs Bs where a: "ars = As @ (s, xs @ (n, Free) # zs) # Bs" "b = s + extent xs" using block_row [OF b] by blast
  show ?thesis using allocate_block [OF inv [unfolded a(1)] a(2) i r st [unfolded a(1)]] block_facts(1) [OF inv b] unfolding a(1) [symmetric]
    by (metis le_0_eq not_gr0)
qed

lemma system_size_fits:
  assumes "8 dvd r" "8 \<le> r" "r + 24 < WRAP"
  shows "r + 8 \<le> system_size (GetSmallestListIndexThatFits r) r \<and> system_size (GetSmallestListIndexThatFits r) r + 16 < WRAP"
proof -
  let ?m = "GetSmallestListIndexThatFits r"
  show ?thesis
  proof (cases "?m + 1 < 24")
    case True
    then have "r \<le> 1024" using smallest_large [of r] by linarith
    then have "r \<le> free_list_block_sizes ! ?m" using smallest_fits_iff [of r ?m] assms(1) smallest_less [of r] by simp
    also have "\<dots> \<le> free_list_block_sizes ! (?m + 1)" using True by (intro table_sorted) simp_all
    finally have "r \<le> free_list_block_sizes ! (?m + 1)" .
    moreover have "free_list_block_sizes ! (?m + 1) \<le> free_list_block_sizes ! 23" using True by (intro table_sorted) simp_all
    moreover have "free_list_block_sizes ! 23 = 1024" by (simp add: free_list_block_sizes_def)
    ultimately show ?thesis using True by (simp add: system_size_def)
  next
    case False
    then show ?thesis using assms by (simp add: system_size_def)
  qed
qed

definition request_size :: "nat \<Rightarrow> nat" where
  "request_size r = system_size (GetSmallestListIndexThatFits r) r + 16"

lemma FindBlock_new:
  assumes inv: "hinv h ars L" and st: "settled_rows ars" and r: "8 dvd r" "8 \<le> r" "r + 24 < WRAP"
    and get: "get_memory (request_size r) g = (Some (b, cs), g')" and new: "fresh_area (set (extents ars)) b (4 * length cs)" "request_size r \<le> 4 * length cs"
    and none: "find_in_lists (GetSmallestListIndexThatFits r) r h = Some None"
  shows "\<exists>a t h' ars'. FindBlock get_memory r h g = Some (a, h', g') \<and> taken ars h a t ars' h' \<and>
    extents ars' = (b, 4 * length cs) # extents ars \<and> r + 8 \<le> t \<and> 0 < a"
proof -
  let ?N = "4 * length cs"
  let ?size = "system_size (GetSmallestListIndexThatFits r) r"
  note sz = system_size_fits [OF r]
  have N: "32 \<le> ?N" "r + 8 \<le> ?N - 16" "?size + 16 < WRAP" using sz new(2) r(2) unfolding request_size_def by linarith+
  have "get_memory ((?size + 16) mod WRAP) g = (Some (b, cs), g')" using get N(3) by (simp add: request_size_def)
  from request_block [where get_memory = get_memory and total_size = ?size and g = g and g' = g' and b = b and cs = cs, OF inv this new(1) N(1)] obtain h1 where 1: "RequestBlock get_memory ?size h g = Some (b + 8, h1, g')"
    "hinv h1 ([] @ (b, [] @ (8, Fence) # (?N - 16, Loose) # (8, Fence) # []) # ars) L" "keeps (used ars) h h1"
    "outstanding_allocated_memory h1 = outstanding_allocated_memory h" by auto
  let ?ars = "(b, [(8, Fence), (?N - 16, Free), (8, Fence)]) # ars"
  from add_block_base [OF 1(2), of "b + 8"] obtain h2 L2 where 2: "AddBlock (b + 8) h1 = Some (b + 8, h2)" "hinv h2 ?ars L2"
    "kept ((b, [(8, Fence), (?N - 16, Loose), (8, Fence)]) # ars) h1 h2" by auto
  have st2: "settled_rows ?ars" using st by (simp add: settled_rows_def)
  have blk: "(b + 8, ?N - 16, Free) \<in> blocks ?ars" by simp
  from allocate_any [OF 2(2) st2 blk refl r(1,2) N(2)] obtain a t h3 ars' where
    3: "AllocateBlock (b + 8) (GetInsertionIndex (?N - 16 - 8)) r h2 = Some (a, h3)" "taken ?ars h2 a t ars' h3" "extents ars' = extents ?ars" "r + 8 \<le> t" "0 < a" by blast
  have u: "used ?ars = used ars" "used ((b, [(8, Fence), (?N - 16, Loose), (8, Fence)]) # ars) = used ars" by simp_all
  have k2: "keeps (used ars) h1 h2" "outstanding_allocated_memory h2 = outstanding_allocated_memory h1" using kept_keeps [OF 2(3)] unfolding u(2) by simp_all
  have k3: "keeps (used ars) h2 h3" "outstanding_allocated_memory h3 = outstanding_allocated_memory h2" using 3(2) unfolding taken_def u(1) by simp_all
  have "keeps (used ars) h h3" using keeps_trans [OF keeps_trans [OF 1(3) k2(1)] k3(1)] by blast
  moreover have "outstanding_allocated_memory h3 = outstanding_allocated_memory h" using 1(4) k2(2) k3(2) by simp
  ultimately have "taken ars h a t ars' h3" using 3(2) unfolding taken_def u(1) by simp
  moreover have "extents ars' = (b, ?N) # extents ars" using 3(3) N(1) by simp
  moreover have "GetSize h2 (b + 8) = Some (?N - 16)" using tagged_reads(1) [OF block_facts(7) [OF 2(2) blk]] .
  then have "FindBlock get_memory r h g = Some (a, h3, g')"
    using none 1(1) 2(1) 3(1) by (simp add: FindBlock_def)
  ultimately show ?thesis using 3(4,5) by blast
qed

lemma FindBlock_old:
  assumes "hinv h ars L" "settled_rows ars" "8 dvd r" "8 \<le> r" "find_in_lists (GetSmallestListIndexThatFits r) r h \<noteq> Some None"
  shows "\<exists>a t h' ars'. FindBlock get_memory r h g = Some (a, h', g) \<and> taken ars h a t ars' h' \<and> extents ars' = extents ars \<and> r + 8 \<le> t \<and> 0 < a"
proof -
  obtain i b n where f: "find_in_lists (GetSmallestListIndexThatFits r) r h = Some (Some (i, b))" "(b, n, Free) \<in> blocks ars" "i = GetInsertionIndex (n - 8)"
    "r + 8 \<le> n" using find_in_lists_ok [OF assms(1,3) refl] assms(5) by blast
  from allocate_any [OF assms(1,2) f(2,3) assms(3,4) f(4)] obtain a t h' ars' where a: "AllocateBlock b i r h = Some (a, h')"
    "taken ars h a t ars' h'" "extents ars' = extents ars" "r + 8 \<le> t" "0 < a" by blast
  moreover have "FindBlock get_memory r h g = Some (a, h', g)" using f(1) a(1) by (simp add: FindBlock_def)
  ultimately show ?thesis by blast
qed

lemma FindBlock_fails:
  assumes "r + 24 < WRAP" "8 dvd r" "8 \<le> r" "find_in_lists (GetSmallestListIndexThatFits r) r h = Some None" "get_memory (request_size r) g = (None, g')"
  shows "FindBlock get_memory r h g = Some (0, h, g')"
  using assms system_size_fits [OF assms(2,3,1)] by (simp add: FindBlock_def RequestBlock_def request_size_def)

end
