(* ===== verification/HeapSpec.thy ===== *)
theory HeapSpec
  imports HeapSys
begin

unbundle bit_operations_syntax

text \<open>
  The contract of the heap: blocks in use are apart and large enough, their contents stay, and everything that is
  freed can be allocated again. What a client sees is a map from pointers to sizes.
\<close>

section \<open>Freeing\<close>

lemma hinv_outstanding [simp]: "hinv (h\<lparr>outstanding_allocated_memory := x\<rparr>) ars L \<longleftrightarrow> hinv h ars L"
  by (simp add: hinv_def listed_def)

lemma keeps_outstanding [simp]: "keeps U h (h'\<lparr>outstanding_allocated_memory := x\<rparr>) \<longleftrightarrow> keeps U h h'"
  "keeps U (h\<lparr>outstanding_allocated_memory := x\<rparr>) h' \<longleftrightarrow> keeps U h h'"
  by (simp_all add: keeps_def)

lemma ends_of_row:
  assumes "hinv h (As @ (s, xs @ (n, k) # zs) # Bs) L" "k \<noteq> Fence"
  shows "\<exists>ws pn pk qn qk vs. xs = ws @ [(pn, pk)] \<and> zs = (qn, qk) # vs"
proof -
  have "xs \<noteq> []" "zs \<noteq> []" using hinvD(6) [OF assms(1)] assms(2) by (auto simp: fenced_def)
  then obtain ws x where "xs = ws @ [x]" by (metis rev_exhaust)
  then show ?thesis using \<open>zs \<noteq> []\<close> by (cases x; cases zs) auto
qed

lemma loosen:
  assumes inv: "hinv h (As @ (s, xs @ (n, Used) # zs) # Bs) L" and b: "b = s + extent xs"
  shows "\<exists>h'. do { h \<leftarrow> set_prev b 0 h; set_next b 0 h } = Some h' \<and> hinv h' (As @ (s, xs @ (n, Loose) # zs) # Bs) L \<and>
    frame h b (b + n) h' \<and> outstanding_allocated_memory h' = outstanding_allocated_memory h"
proof -
  note f = block_facts [OF inv, of b n Used]
  have t: "tagged (hmem h) b n Used" "16 \<le> n" "8 dvd b" using f b by auto
  have "4 dvd b" using t(3) by (auto intro: dvd_trans)
  then have m: "hmem h (b + 8) \<noteq> None" "hmem h (b + 4) \<noteq> None" using t by (auto simp: tagged_def)
  define M where "M = (hmem h)(b + 8 \<mapsto> 0, b + 4 \<mapsto> 0)"
  have run: "do { h \<leftarrow> set_prev b 0 h; set_next b 0 h } = Some (h\<lparr>hmem := M\<rparr>)"
    using m by (simp add: set_prev_def set_next_def st_def M_def)
  have dom: "M a = None \<longleftrightarrow> hmem h a = None" for a using m by (auto simp: M_def)
  have fr: "frame h b (b + n) (h\<lparr>hmem := M\<rparr>)" using dom t(2) by (auto simp: frame_def M_def)
  have "M b = hmem h b" "M (b + n - 4) = hmem h (b + n - 4)" using t(2) by (auto simp: M_def)
  then have "tagged M b n Loose" using t(1) dom by (simp add: tagged_def) metis
  then have "hinv (h\<lparr>hmem := M\<rparr>) (As @ (s, xs @ (n, Loose) # zs) # Bs) L" using change_one [OF inv _ _ b fr] by simp
  then show ?thesis using run fr by auto
qed

lemma used_loosened:
  assumes "hinv h (As @ (s, xs @ (n, Loose) # zs) # Bs) L" "b = s + extent xs"
  shows "used (As @ (s, xs @ (n, Loose) # zs) # Bs) = used (As @ (s, xs @ (n, Used) # zs) # Bs) - {(b, n)}"
proof -
  let ?ars = "As @ (s, xs @ (n, Loose) # zs) # Bs"
  have "(b, n) \<notin> used ?ars"
  proof
    assume "(b, n) \<in> used ?ars"
    then have "(b, n, Used) \<in> blocks ?ars" by (simp add: used_def)
    moreover have "(b, n, Loose) \<in> blocks ?ars" using assms(2) by simp
    ultimately show False using blocks_apart [of ?ars b n Used b n Loose] assms(1) block_facts(4) [OF assms(1), of b n Used] by (auto simp: hinv_def)
  qed
  then show ?thesis using assms(2) by auto
qed

lemma add_loose:
  assumes inv: "hinv h (As @ (s, xs @ (n, Loose) # zs) # Bs) L" and b: "b = s + extent xs"
    and nl: "\<forall>z \<in> set xs \<union> set zs. snd z \<noteq> Loose" and st: "settled_rows As" "settled_rows Bs"
  shows "\<exists>b' h' ars' L'. AddBlock b h = Some (b', h') \<and> hinv h' ars' L' \<and> settled_rows ars' \<and>
    used ars' = used (As @ (s, xs @ (n, Loose) # zs) # Bs) \<and> extents ars' = extents (As @ (s, xs @ (n, Loose) # zs) # Bs) \<and>
    kept (As @ (s, xs @ (n, Loose) # zs) # Bs) h h'"
proof -
  obtain ws pn pk qn qk vs where e: "xs = ws @ [(pn, pk)]" "zs = (qn, qk) # vs" using ends_of_row [OF inv] by auto
  define xs' zs' n' where d: "xs' = (if pk = Free then ws else ws @ [(pn, pk)])" "zs' = (if qk = Free then vs else (qn, qk) # vs)"
    "n' = (if pk = Free then pn else 0) + n + (if qk = Free then qn else 0)"
  have inv': "hinv h (As @ (s, ws @ (pn, pk) # (n, Loose) # (qn, qk) # vs) # Bs) L" using inv by (simp add: e)
  have "\<forall>z \<in> set (ws @ (pn, pk) # (qn, qk) # vs). snd z \<noteq> Loose" using nl by (auto simp: e)
  from add_block [OF inv' _ this d(1,2,3)] obtain h' L' where h': "AddBlock b h = Some (s + extent xs', h')"
    "hinv h' (As @ (s, xs' @ (n', Free) # zs') # Bs) L'" "kept (As @ (s, xs @ (n, Loose) # zs) # Bs) h h'"
    using b by (auto simp: e add.assoc)
  let ?ars' = "As @ (s, xs' @ (n', Free) # zs') # Bs"
  have "settled_rows ?ars'" using st nl by (auto simp: d e)
  moreover have "extents ?ars' = extents (As @ (s, xs @ (n, Loose) # zs) # Bs)" by (simp add: d e)
  moreover have "used ?ars' = used (As @ (s, xs @ (n, Loose) # zs) # Bs)"
    by (cases "pk = Free"; cases "qk = Free") (simp add: d e add.assoc; auto)+
  ultimately show ?thesis using h' by blast
qed

section \<open>What a client sees\<close>

text \<open>\<open>live\<close> maps the pointer to each block in use to the number of bytes that may be used.\<close>

definition heap_ok :: "(nat \<times> nat) set \<Rightarrow> heap \<Rightarrow> (nat \<rightharpoonup> nat) \<Rightarrow> bool" where
  "heap_ok own h live \<longleftrightarrow> (\<exists>ars L. hinv h ars L \<and> settled_rows ars \<and> set (extents ars) \<subseteq> own \<and>
     (\<forall>p k. live p = Some k \<longleftrightarrow> 4 \<le> p \<and> (p - 4, k + 8) \<in> used ars) \<and>
     outstanding_allocated_memory h = (\<Sum>(b, n) \<in> used ars. n) mod WRAP)"

definition contents_kept :: "(nat \<rightharpoonup> nat) \<Rightarrow> heap \<Rightarrow> heap \<Rightarrow> bool" where
  "contents_kept live h h' \<longleftrightarrow> (\<forall>p k a. live p = Some k \<longrightarrow> p \<le> a \<longrightarrow> a < p + k \<longrightarrow> hmem h' a = hmem h a)"

lemma heap_okE:
  assumes "heap_ok own h live"
  obtains ars L where "hinv h ars L" "settled_rows ars" "set (extents ars) \<subseteq> own" "\<And>p k. live p = Some k \<longleftrightarrow> 4 \<le> p \<and> (p - 4, k + 8) \<in> used ars"
    "outstanding_allocated_memory h = (\<Sum>(b, n) \<in> used ars. n) mod WRAP"
  using assms unfolding heap_ok_def by blast

lemma finite_blocks: "finite (blocks ars)"
proof -
  have "finite (blocks_at a bs)" for a bs by (induction a bs rule: blocks_at.induct) auto
  then show ?thesis by (auto simp: blocks_def)
qed

lemma finite_used [simp]: "finite (used ars)"
proof -
  have "used ars \<subseteq> (\<lambda>(y, m, k). (y, m)) ` blocks ars" by (force simp: used_def)
  then show ?thesis using finite_blocks finite_subset by blast
qed

lemma used_facts:
  assumes "hinv h ars L" "(b, n) \<in> used ars"
  shows "0 < b" "8 dvd b" "8 dvd n" "16 \<le> n" "b + n \<le> WRAP" "tagged (hmem h) b n Used" "GetSize h b = Some n"
  using block_facts [OF assms(1), of b n Used] assms(2) tagged_reads(1) by (auto simp: used_def)

lemma used_apart:
  assumes "hinv h ars L" "(b, n) \<in> used ars" "(c, m) \<in> used ars"
  shows "(b, n) = (c, m) \<or> b + n \<le> c \<or> c + m \<le> b"
  using blocks_apart [of ars b n Used c m Used] assms by (auto simp: hinv_def used_def)

lemma keeps_contents:
  assumes "keeps (used ars) h h'" "\<And>p k. live p = Some k \<Longrightarrow> 4 \<le> p \<and> (p - 4, k + 8) \<in> used ars"
  shows "contents_kept live h h'"
  unfolding contents_kept_def
proof (intro allI impI)
  fix p k a assume a: "live p = Some k" "p \<le> a" "a < p + k"
  then have "(p - 4, k + 8) \<in> used ars" "p - 4 \<le> a" "a < p - 4 + (k + 8)" using assms(2) [OF a(1)] by auto
  then show "hmem h' a = hmem h a" using assms(1) unfolding keeps_def by blast
qed

lemma contents_trans: "\<lbrakk>contents_kept live h h'; contents_kept live h' h''\<rbrakk> \<Longrightarrow> contents_kept live h h''"
  by (auto simp: contents_kept_def)

lemma contents_keptD: "\<lbrakk>contents_kept live h h'; live p = Some k; i < k\<rbrakk> \<Longrightarrow> hmem h' (p + i) = hmem h (p + i)"
  unfolding contents_kept_def by (meson le_add1 nat_add_left_cancel_less)

lemma contents_mono: "\<lbrakk>contents_kept live' h h'; live \<subseteq>\<^sub>m live'\<rbrakk> \<Longrightarrow> contents_kept live h h'"
  by (auto simp: contents_kept_def map_le_def dom_def)

text \<open>Live blocks are apart, can be accessed, and their size can be asked for.\<close>

lemma live_facts:
  assumes "heap_ok own h live" "live p = Some k"
  shows "8 \<le> k" "p mod 8 = 4" "8 dvd k" "p + k + 4 \<le> WRAP" "GetAllocationSizeEx h p = Some k" "\<lbrakk>p \<le> a; a < p + k; 4 dvd a\<rbrakk> \<Longrightarrow> hmem h a \<noteq> None"
    "\<lbrakk>live q = Some l; q \<noteq> p\<rbrakk> \<Longrightarrow> p + k + 8 \<le> q \<or> q + l + 8 \<le> p"
proof -
  obtain ars L where a: "hinv h ars L" "\<And>p k. live p = Some k \<longleftrightarrow> 4 \<le> p \<and> (p - 4, k + 8) \<in> used ars" using heap_okE [OF assms(1)] by metis
  have p: "4 \<le> p" "(p - 4, k + 8) \<in> used ars" using a(2) assms(2) by auto
  note f = used_facts [OF a(1) p(2)]
  show "8 \<le> k" "8 dvd k" "p + k + 4 \<le> WRAP" using f(3-5) p(1) by auto
  show "p mod 8 = 4" using f(2) p(1) by presburger
  show "GetAllocationSizeEx h p = Some k" using f(7) by (simp add: GetAllocationSizeEx_def)
  show "hmem h a \<noteq> None" if "p \<le> a" "a < p + k" "4 dvd a" using f(6) p(1) that by (auto simp: tagged_def)
  show "p + k + 8 \<le> q \<or> q + l + 8 \<le> p" if "live q = Some l" "q \<noteq> p"
  proof -
    have "4 \<le> q" "(q - 4, l + 8) \<in> used ars" using a(2) that(1) by auto
    then show ?thesis using used_apart [OF a(1) p(2)] p(1) that(2) by fastforce
  qed
qed

section \<open>FreeHeapEx\<close>

lemma sub_outstanding: "n < W \<Longrightarrow> ((n + s) mod W + W - n) mod W = s mod (W :: nat)"
proof -
  assume "n < W"
  then have "(n + s) mod W + W - n = (n + s) mod W + (W - n)" "n + s + (W - n) = s + W" by linarith+
  then show ?thesis by (simp only: mod_add_left_eq) simp
qed

theorem FreeHeapEx_ok:
  assumes ok: "heap_ok own h live" and p: "live p = Some k"
  shows "\<exists>h'. FreeHeapEx p h = Some h' \<and> heap_ok own h' (live(p := None)) \<and> contents_kept (live(p := None)) h h'"
proof -
  obtain ars L where a: "hinv h ars L" "settled_rows ars" "set (extents ars) \<subseteq> own" "\<And>p k. live p = Some k \<longleftrightarrow> 4 \<le> p \<and> (p - 4, k + 8) \<in> used ars"
    "outstanding_allocated_memory h = (\<Sum>(b, n) \<in> used ars. n) mod WRAP" using heap_okE [OF ok] by blast
  define b n where b: "b = p - 4" "n = k + 8"
  have pb: "4 \<le> p" "(b, n) \<in> used ars" using a(4) p by (simp_all add: b)
  then have "(b, n, Used) \<in> blocks ars" by (simp add: used_def)
  from block_row [OF this] obtain As s xs zs Bs where r: "ars = As @ (s, xs @ (n, Used) # zs) # Bs" "b = s + extent xs" by blast
  note f = used_facts [OF a(1) pb(2)]
  obtain h1 where 1: "do { h \<leftarrow> set_prev b 0 h; set_next b 0 h } = Some h1" "hinv h1 (As @ (s, xs @ (n, Loose) # zs) # Bs) L"
    "frame h b (b + n) h1" "outstanding_allocated_memory h1 = outstanding_allocated_memory h" using loosen [OF a(1) [unfolded r(1)] r(2)] by blast
  let ?ars1 = "As @ (s, xs @ (n, Loose) # zs) # Bs"
  let ?out = "(outstanding_allocated_memory h + WRAP - n) mod WRAP"
  let ?h1 = "h1\<lparr>outstanding_allocated_memory := ?out\<rparr>"
  have u: "used ?ars1 = used ars - {(b, n)}" using used_loosened [OF 1(2) r(2)] by (simp add: r(1))
  have st: "settled_rows As" "settled_rows Bs" "\<forall>z \<in> set xs \<union> set zs. snd z \<noteq> Loose" using a(2) by (auto simp: r(1))
  have inv1: "hinv ?h1 ?ars1 L" using 1(2) by simp
  obtain b' h2 ars2 L2 where 2: "AddBlock b ?h1 = Some (b', h2)" "hinv h2 ars2 L2" "settled_rows ars2" "used ars2 = used ?ars1"
    "extents ars2 = extents ?ars1" "kept ?ars1 ?h1 h2" using add_loose [OF inv1 r(2) st(3,1,2)] by blast
  have "FreeHeapEx p h = Some h2"
  proof -
    have "GetSize h1 b = Some n" using at_row(3) [OF 1(2)] by (simp add: r(2))
    then have "Option.bind (do { h \<leftarrow> set_prev b 0 h; set_next b 0 h }) (\<lambda>h1. do { bsize \<leftarrow> GetSize h1 b;
      (_, h) \<leftarrow> AddBlock b (h1\<lparr>outstanding_allocated_memory := (outstanding_allocated_memory h1 + WRAP - bsize) mod WRAP\<rparr>); Some h }) = Some h2"
      unfolding 1(1) using 2(1) 1(4) by simp
    then show ?thesis using pb(1) by (simp add: FreeHeapEx_def b(1))
  qed
  moreover have "heap_ok own h2 (live(p := None))"
    unfolding heap_ok_def
  proof (intro exI conjI allI)
    show "set (extents ars2) \<subseteq> own" using a(3) 2(5) by (simp add: r(1))
    show "(live(p := None)) q = Some l \<longleftrightarrow> 4 \<le> q \<and> (q - 4, l + 8) \<in> used ars2" for q l
    proof -
      have "q = p \<Longrightarrow> (q - 4, l + 8) \<in> used ars \<Longrightarrow> l = k" using used_apart [OF a(1) pb(2), of "q - 4" "l + 8"] f(4) by (auto simp: b)
      then show ?thesis using a(4) [of q l] pb(1) unfolding 2(4) u by (auto simp: b)
    qed
    have "(\<Sum>(b, n) \<in> used ars. n) = n + (\<Sum>(b, n) \<in> used ars2. n)" using pb(2) unfolding 2(4) u by (subst sum.remove) auto
    then have "?out = (\<Sum>(b, n) \<in> used ars2. n) mod WRAP" unfolding a(5) using f(1,5) by (simp only: sub_outstanding)
    then show "outstanding_allocated_memory h2 = (\<Sum>(b, n) \<in> used ars2. n) mod WRAP" using kept_keeps [OF 2(6)] by simp
  qed (use 2 in auto)
  moreover have "contents_kept (live(p := None)) h h2"
  proof (rule keeps_contents)
    have "keeps (used ?ars1) h h1" unfolding keeps_def
    proof (clarify)
      fix y m x assume y: "(y, m) \<in> used ?ars1" "y \<le> x" "x < y + m"
      then have "y + m \<le> b \<or> b + n \<le> y" using used_apart [OF a(1) pb(2), of y m] unfolding u by auto
      then show "hmem h1 x = hmem h x" using 1(3) y(2,3) unfolding frame_def by (meson le_trans less_le_trans)
    qed
    moreover have "keeps (used ?ars1) h1 h2" using kept_keeps [OF 2(6)] by (simp only: keeps_outstanding)
    ultimately show "keeps (used ?ars1) h h2" by (rule keeps_trans) simp
    show "4 \<le> q \<and> (q - 4, l + 8) \<in> used ?ars1" if "(live(p := None)) q = Some l" for q l
      using that a(4) [of q l] pb(1) unfolding u by (auto simp: b split: if_splits)
  qed
  ultimately show ?thesis by blast
qed

section \<open>AllocHeapEx\<close>

lemma RoundUpSize_ok:
  assumes "0 < sz" "sz + 8 \<le> WRAP"
  shows "8 dvd RoundUpSize sz" "8 \<le> RoundUpSize sz" "sz \<le> RoundUpSize sz" "RoundUpSize sz \<le> sz + 8"
proof -
  define s where "s = (if sz < 8 then 8 else sz)"
  have s: "8 \<le> s" "sz \<le> s" "s + 7 < WRAP" using assms by (auto simp: s_def)
  have "RoundUpSize sz = (s + 8 - 1) mod WRAP div 8 * 8" by (simp add: RoundUpSize_def Let_def push_drop_3 s_def)
  also have "\<dots> = (s + 7) div 8 * 8" using s(3) by simp
  finally have e: "RoundUpSize sz = (s + 7) div 8 * 8" .
  show "8 dvd RoundUpSize sz" "8 \<le> RoundUpSize sz" "sz \<le> RoundUpSize sz" "RoundUpSize sz \<le> sz + 8"
    using s(1,2) assms(1) unfolding e by (auto simp: s_def)
qed

text \<open>
  What the heap relies on. \<open>owned\<close> are the areas that have been given, and \<open>serves\<close> says for which sizes
  at least that many bytes are given.
\<close>

locale system_memory =
  fixes get_memory :: "'g get_memory" and lawful :: "'g \<Rightarrow> bool" and serves :: "nat \<Rightarrow> 'g \<Rightarrow> bool" and owned :: "'g \<Rightarrow> (nat \<times> nat) set"
  assumes refuses: "\<lbrakk>lawful g; get_memory n g = (None, g')\<rbrakk> \<Longrightarrow> lawful g' \<and> owned g' = owned g"
    and gives: "\<lbrakk>lawful g; serves n g; get_memory n g = (Some (b, cs), g')\<rbrakk> \<Longrightarrow>
      lawful g' \<and> fresh_area (owned g) b (4 * length cs) \<and> n \<le> 4 * length cs \<and> owned g' = insert (b, 4 * length cs) (owned g)"
begin

lemma find_block:
  assumes inv: "hinv h ars L" "settled_rows ars" "set (extents ars) \<subseteq> owned g" and g: "lawful g" "serves (request_size r) g"
    and r: "8 dvd r" "8 \<le> r" "r + 24 < WRAP"
  shows "\<exists>a h' g'. FindBlock get_memory r h g = Some (a, h', g') \<and> lawful g' \<and>
    (if a = 0 then h' = h \<and> owned g' = owned g \<and> get_memory (request_size r) g = (None, g')
     else \<exists>t ars'. taken ars h a t ars' h' \<and> set (extents ars') \<subseteq> owned g' \<and> r + 8 \<le> t)"
proof (cases "find_in_lists (GetSmallestListIndexThatFits r) r h = Some None")
  case False
  from FindBlock_old [where get_memory = get_memory, OF inv(1,2) r(1,2) False] show ?thesis using g(1) inv(3) by (metis not_gr0)
next
  case True
  show ?thesis
  proof (cases "fst (get_memory (request_size r) g)")
    case None
    then obtain g' where g': "get_memory (request_size r) g = (None, g')" by (metis prod.collapse)
    from FindBlock_fails [where get_memory = get_memory, OF r(3,1,2) True this] show ?thesis using refuses [OF g(1) g'] g' by simp
  next
    case (Some bc)
    then obtain b cs g' where g': "get_memory (request_size r) g = (Some (b, cs), g')" by (metis prod.collapse)
    note l = gives [OF g g']
    have "fresh_area (set (extents ars)) b (4 * length cs)" using l inv(3) by (auto simp: fresh_area_def)
    from FindBlock_new [where get_memory = get_memory, OF inv(1,2) r g' this _ True] l obtain a t h' ars' where a: "FindBlock get_memory r h g = Some (a, h', g')"
      "taken ars h a t ars' h'" "extents ars' = (b, 4 * length cs) # extents ars" "r + 8 \<le> t" "0 < a" by blast
    have "set (extents ars') \<subseteq> owned g'" using a(3) l inv(3) by auto
    then have "\<exists>t ars'. taken ars h a t ars' h' \<and> set (extents ars') \<subseteq> owned g' \<and> r + 8 \<le> t" using a(2,4) by blast
    then show ?thesis using a(1,5) l by (intro exI [of _ a] exI [of _ h'] exI [of _ g']) simp
  qed
qed

lemma AllocHeapEx_ok:
  assumes ok: "heap_ok (owned g) h live" and g: "lawful g" "serves (request_size (RoundUpSize sz)) g" and sz: "0 < sz" "sz + 32 < WRAP"
  shows "\<exists>p h' g'. AllocHeapEx get_memory sz h g = Some (p, h', g') \<and> lawful g' \<and> contents_kept live h h' \<and>
    (if p = 0 then heap_ok (owned g') h' live \<and> get_memory (request_size (RoundUpSize sz)) g = (None, g')
     else live p = None \<and> (\<exists>k. sz \<le> k \<and> heap_ok (owned g') h' (live(p \<mapsto> k))))"
proof -
  obtain ars L where a: "hinv h ars L" "settled_rows ars" "set (extents ars) \<subseteq> owned g" "\<And>p k. live p = Some k \<longleftrightarrow> 4 \<le> p \<and> (p - 4, k + 8) \<in> used ars"
    "outstanding_allocated_memory h = (\<Sum>(b, n) \<in> used ars. n) mod WRAP" using heap_okE [OF ok] by blast
  let ?r = "RoundUpSize sz"
  have "sz + 8 \<le> WRAP" using sz(2) by simp
  note r = RoundUpSize_ok [OF sz(1) this]
  have "?r + 24 < WRAP" using r(4) sz(2) by linarith
  from find_block [OF a(1-3) g r(1,2) this] obtain b h1 g' where 1: "FindBlock get_memory ?r h g = Some (b, h1, g')" "lawful g'"
    "if b = 0 then h1 = h \<and> owned g' = owned g \<and> get_memory (request_size ?r) g = (None, g')
     else \<exists>t ars'. taken ars h b t ars' h1 \<and> set (extents ars') \<subseteq> owned g' \<and> ?r + 8 \<le> t" by blast
  show ?thesis
  proof (cases "b = 0")
    case True
    then have "AllocHeapEx get_memory sz h g = Some (0, h1, g')" using sz(1) 1(1) by (simp add: AllocHeapEx_def)
    then show ?thesis using 1 True ok by (simp add: contents_kept_def)
  next
    case False
    then obtain t ars' where 2: "taken ars h b t ars' h1" "set (extents ars') \<subseteq> owned g'" "?r + 8 \<le> t" using 1(3) by auto
    obtain L' where 3: "hinv h1 ars' L'" "settled_rows ars'" "(b, t) \<notin> used ars" "used ars' = insert (b, t) (used ars)" "keeps (used ars) h h1"
      "outstanding_allocated_memory h1 = outstanding_allocated_memory h" using 2(1) unfolding taken_def by blast
    have "(b, t) \<in> used ars'" using 3(4) by simp
    note f = used_facts [OF 3(1) this]
    let ?h = "h1\<lparr>outstanding_allocated_memory := (outstanding_allocated_memory h1 + t) mod WRAP\<rparr>"
    have run: "AllocHeapEx get_memory sz h g = Some (b + 4, ?h, g')" using sz(1) 1(1) False f(7) by (simp add: AllocHeapEx_def)
    have "live (b + 4) = None"
    proof (rule ccontr)
      assume "live (b + 4) \<noteq> None"
      then obtain k where "(b, k + 8) \<in> used ars" using a(4) by (metis add_diff_cancel_right' not_Some_eq)
      then show False using used_apart [OF 3(1), of b t b "k + 8"] 3(3,4) f(4) by auto
    qed
    moreover have "heap_ok (owned g') ?h (live(b + 4 \<mapsto> t - 8))"
      unfolding heap_ok_def
    proof (intro exI conjI allI)
      show "hinv ?h ars' L'" using 3(1) by simp
      show "(live(b + 4 \<mapsto> t - 8)) q = Some l \<longleftrightarrow> 4 \<le> q \<and> (q - 4, l + 8) \<in> used ars'" for q l
      proof (cases "q = b + 4")
        case True
        have "(b, l + 8) \<notin> used ars" using used_apart [OF 3(1), of b t b "l + 8"] 3(3,4) f(4) by auto
        then show ?thesis using True 2(3) 3(4) by auto
      next
        case False
        then have "4 \<le> q \<Longrightarrow> q - 4 \<noteq> b" by linarith
        then show ?thesis using False a(4) [of q l] 3(4) by auto
      qed
      have "(\<Sum>(b, n) \<in> used ars'. n) = t + (\<Sum>(b, n) \<in> used ars. n)" using 3(3) unfolding 3(4) by (subst sum.insert) auto
      then show "outstanding_allocated_memory ?h = (\<Sum>(b, n) \<in> used ars'. n) mod WRAP"
        using 3(6) a(5) by (simp add: mod_add_left_eq mod_add_right_eq add.commute)
    qed (use 3 2 in auto)
    moreover have "sz \<le> t - 8" using r(3) 2(3) by linarith
    moreover have "contents_kept live h ?h" using keeps_contents [of ars h ?h live] 3(5) a(4) by simp
    ultimately show ?thesis using run 1(2) by (intro exI [of _ "b + 4"] exI [of _ ?h] exI [of _ g']) auto
  qed
qed

end

section \<open>What clients write\<close>

text \<open>Nothing has changed but the bytes of the block at \<open>p\<close>.\<close>

definition client_writes :: "nat \<Rightarrow> nat \<Rightarrow> heap \<Rightarrow> heap \<Rightarrow> bool" where
  "client_writes p k h h' \<longleftrightarrow> frame h p (p + k) h' \<and> outstanding_allocated_memory h' = outstanding_allocated_memory h"

lemma client_writes_ok:
  assumes ok: "heap_ok own h live" and p: "live p = Some k" and w: "client_writes p k h h'"
  shows "heap_ok own h' live" "contents_kept (live(p := None)) h h'"
proof -
  obtain ars L where a: "hinv h ars L" "settled_rows ars" "set (extents ars) \<subseteq> own" "\<And>p k. live p = Some k \<longleftrightarrow> 4 \<le> p \<and> (p - 4, k + 8) \<in> used ars"
    "outstanding_allocated_memory h = (\<Sum>(b, n) \<in> used ars. n) mod WRAP" using heap_okE [OF ok] by blast
  define b n where b: "b = p - 4" "n = k + 8"
  have pb: "4 \<le> p" "(b, n) \<in> used ars" using a(4) p by (simp_all add: b)
  then have "(b, n, Used) \<in> blocks ars" by (simp add: used_def)
  from block_row [OF this] obtain As s xs zs Bs where r: "ars = As @ (s, xs @ (n, Used) # zs) # Bs" "b = s + extent xs" by blast
  note f = used_facts [OF a(1) pb(2)]
  have fr: "frame h b (b + n) h'" and same: "\<And>x. x \<le> b + 3 \<or> b + n - 4 \<le> x \<Longrightarrow> hmem h' x = hmem h x"
    and dom: "\<And>x. hmem h' x = None \<longleftrightarrow> hmem h x = None"
    using w pb(1) unfolding client_writes_def frame_def by (auto simp: b)
  have "tagged (hmem h') b n Used" using f(6) same [of b] same [of "b + n - 4"] dom by (simp add: tagged_def)
  then have "hinv h' ars L" using change_one [OF a(1) [unfolded r(1)] _ _ r(2) fr, of Used] by (simp add: r(1))
  moreover have "outstanding_allocated_memory h' = outstanding_allocated_memory h" using w by (simp add: client_writes_def)
  ultimately show "heap_ok own h' live" using a(2-5) unfolding heap_ok_def by metis
  show "contents_kept (live(p := None)) h h'"
    unfolding contents_kept_def
  proof (intro allI impI)
    fix q l x assume q: "(live(p := None)) q = Some l" "q \<le> x" "x < q + l"
    then have "p + k + 8 \<le> q \<or> q + l + 8 \<le> p" using live_facts(7) [OF ok p, of q l] by (auto split: if_splits)
    then show "hmem h' x = hmem h x" using w q(2,3) unfolding client_writes_def frame_def by auto
  qed
qed

lemma copy_words_ok:
  "\<lbrakk>\<forall>i < n. hmem h (from + 4 * i) \<noteq> None \<and> hmem h (to + 4 * i) \<noteq> None; to + 4 * n \<le> from \<or> from + 4 * n \<le> to\<rbrakk> \<Longrightarrow>
    \<exists>h'. copy_words to from n h = Some h' \<and> (\<forall>i < n. hmem h' (to + 4 * i) = hmem h (from + 4 * i)) \<and> frame h to (to + 4 * n) h' \<and>
      outstanding_allocated_memory h' = outstanding_allocated_memory h"
proof (induction n arbitrary: to "from" h)
  case (Suc n)
  obtain v where v: "hmem h from = Some v" "hmem h to \<noteq> None" using Suc.prems(1) by force
  let ?h = "h\<lparr>hmem := (hmem h)(to \<mapsto> v)\<rparr>"
  have "\<forall>i < n. hmem ?h (from + 4 + 4 * i) \<noteq> None \<and> hmem ?h (to + 4 + 4 * i) \<noteq> None"
  proof (intro allI impI)
    fix i assume "i < n"
    then have "Suc i < Suc n" by simp
    then have "hmem h (from + 4 * Suc i) \<noteq> None \<and> hmem h (to + 4 * Suc i) \<noteq> None" using Suc.prems(1) by blast
    then show "hmem ?h (from + 4 + 4 * i) \<noteq> None \<and> hmem ?h (to + 4 + 4 * i) \<noteq> None" by (simp add: add.assoc)
  qed
  moreover have "to + 4 + 4 * n \<le> from + 4 \<or> from + 4 + 4 * n \<le> to + 4" using Suc.prems(2) by auto
  ultimately obtain h' where h': "copy_words (to + 4) (from + 4) n ?h = Some h'" "\<forall>i < n. hmem h' (to + 4 + 4 * i) = hmem ?h (from + 4 + 4 * i)"
    "frame ?h (to + 4) (to + 4 + 4 * n) h'" "outstanding_allocated_memory h' = outstanding_allocated_memory ?h" using Suc.IH by blast
  have "hmem h' (to + 4 * i) = hmem h (from + 4 * i)" if i: "i < Suc n" for i
  proof (cases i)
    case 0
    then show ?thesis using h'(3) v by (simp add: frame_def)
  next
    case (Suc j)
    have "from + 4 + 4 * j \<noteq> to" using Suc.prems(2) i Suc by auto
    moreover have "hmem h' (to + 4 + 4 * j) = hmem ?h (from + 4 + 4 * j)" using h'(2) i Suc by simp
    ultimately show ?thesis by (simp add: Suc add.assoc)
  qed
  moreover have "frame h to (to + 4 * Suc n) h'" using h'(3) v(2) by (auto simp: frame_def)
  moreover have "copy_words to from (Suc n) h = Some h'" using v h'(1) by (simp add: ld_def st_def)
  ultimately show ?case using h'(4) by auto
qed simp

section \<open>ReallocHeapEx\<close>

context system_memory
begin

lemma ReallocHeapEx_ok:
  assumes ok: "heap_ok (owned g) h live" and g: "lawful g" "serves (request_size (RoundUpSize sz)) g" and sz: "sz + 32 < WRAP" and p: "live p = Some k"
  shows "\<exists>p' h' g'. ReallocHeapEx get_memory p sz h g = Some (p', h', g') \<and> lawful g' \<and>
    (if p' = 0 then heap_ok (owned g') h' live \<and> contents_kept live h h' \<and> get_memory (request_size (RoundUpSize sz)) g = (None, g')
     else (\<exists>k'. sz \<le> k' \<and> k \<le> k' \<and> heap_ok (owned g') h' ((live(p := None))(p' \<mapsto> k'))) \<and> contents_kept (live(p := None)) h h' \<and>
       (p' = p \<or> live p' = None) \<and> (\<forall>i. 4 dvd i \<longrightarrow> i < k \<longrightarrow> hmem h' (p' + i) = hmem h (p + i)))"
proof -
  have sz0: "GetSize h (p - 4) = Some (k + 8)" "p \<noteq> 0"
  proof -
    show "GetSize h (p - 4) = Some (k + 8)" "p \<noteq> 0" using heap_okE [OF ok] p used_facts(7) by (metis, metis le_0_eq zero_neq_numeral)
  qed
  show ?thesis
  proof (cases "sz \<le> k")
    case True
    then have "ReallocHeapEx get_memory p sz h g = Some (p, h, g)" using sz0 by (simp add: ReallocHeapEx_def)
    moreover have "(live(p := None))(p \<mapsto> k) = live" using p by auto
    ultimately show ?thesis using ok True g(1) sz0(2) by (auto simp: contents_kept_def)
  next
    case False
    then have "0 < sz" by simp
    from AllocHeapEx_ok [OF ok g this sz] obtain p' h1 g' where 1: "AllocHeapEx get_memory sz h g = Some (p', h1, g')" "lawful g'" "contents_kept live h h1"
      "if p' = 0 then heap_ok (owned g') h1 live \<and> get_memory (request_size (RoundUpSize sz)) g = (None, g')
       else live p' = None \<and> (\<exists>k. sz \<le> k \<and> heap_ok (owned g') h1 (live(p' \<mapsto> k)))" by blast
    show ?thesis
    proof (cases "p' = 0")
      case True
      then have "ReallocHeapEx get_memory p sz h g = Some (0, h1, g')" using sz0 False 1(1) by (simp add: ReallocHeapEx_def)
      then show ?thesis using 1 True by (intro exI [of _ 0] exI [of _ h1] exI [of _ g']) simp
    next
      case new: False
      then obtain k' where 2: "live p' = None" "sz \<le> k'" "heap_ok (owned g') h1 (live(p' \<mapsto> k'))" using 1(4) by auto
      let ?live = "live(p' \<mapsto> k')"
      have pp: "p' \<noteq> p" "?live p = Some k" "?live p' = Some k'" using 2(1) p by auto
      note old = live_facts [OF 2(3) pp(2)] and nw = live_facts [OF 2(3) pp(3)]
      have far: "p + k + 8 \<le> p' \<or> p' + k' + 8 \<le> p" using old(7) [OF pp(3,1)] .
      have dv: "4 dvd k" "k div 4 * 4 = k" "4 dvd p" "4 dvd p'" "k \<le> k'" using old(2,3) nw(2) False 2(2) by presburger+
      have "\<forall>i < k div 4. hmem h1 (p + 4 * i) \<noteq> None \<and> hmem h1 (p' + 4 * i) \<noteq> None"
      proof (intro allI impI)
        fix i assume "i < k div 4"
        then have "4 * i < k" by linarith
        then show "hmem h1 (p + 4 * i) \<noteq> None \<and> hmem h1 (p' + 4 * i) \<noteq> None" using old(6) [of "p + 4 * i"] nw(6) [of "p' + 4 * i"] dv by simp
      qed
      moreover have "p' + 4 * (k div 4) \<le> p \<or> p + 4 * (k div 4) \<le> p'" using far dv by linarith
      ultimately obtain h2 where 3: "copy_words p' p (k div 4) h1 = Some h2" "\<forall>i < k div 4. hmem h2 (p' + 4 * i) = hmem h1 (p + 4 * i)"
        "frame h1 p' (p' + 4 * (k div 4)) h2" "outstanding_allocated_memory h2 = outstanding_allocated_memory h1" using copy_words_ok by blast
      have "client_writes p' k' h1 h2" using 3(3,4) dv(2,5) unfolding client_writes_def frame_def by auto
      note 4 = client_writes_ok [OF 2(3) pp(3) this]
      from FreeHeapEx_ok [OF 4(1) pp(2)] obtain h3 where 5: "FreeHeapEx p h2 = Some h3" "heap_ok (owned g') h3 (?live(p := None))" "contents_kept (?live(p := None)) h2 h3" by blast
      have "ReallocHeapEx get_memory p sz h g = Some (p', h3, g')" using sz0 False 1(1) new 3(1) 5(1) by (simp add: ReallocHeapEx_def)
      moreover have "heap_ok (owned g') h3 ((live(p := None))(p' \<mapsto> k'))" using 5(2) pp(1) by (simp add: fun_upd_twist)
      moreover have "contents_kept (live(p := None)) h h3"
      proof -
        have le: "live(p := None) \<subseteq>\<^sub>m live" "live(p := None) \<subseteq>\<^sub>m ?live(p' := None)" "live(p := None) \<subseteq>\<^sub>m ?live(p := None)"
          using 2(1) by (auto simp: map_le_def)
        show ?thesis
          using contents_trans contents_mono [OF 1(3) le(1)] contents_mono [OF 4(2) le(2)] contents_mono [OF 5(3) le(3)] by blast
      qed
      moreover have "hmem h3 (p' + i) = hmem h (p + i)" if i: "4 dvd i" "i < k" for i
      proof -
        have "hmem h3 (p' + i) = hmem h2 (p' + i)" using contents_keptD [OF 5(3), of p' k' i] pp(1) i(2) dv(5) by simp
        also have "\<dots> = hmem h1 (p + i)"
        proof -
          obtain j where "i = 4 * j" using i(1) by blast
          moreover from this have "j < k div 4" using i(2) dv(2) by linarith
          ultimately show ?thesis using 3(2) by simp
        qed
        also have "\<dots> = hmem h (p + i)" using contents_keptD [OF 1(3) p i(2)] .
        finally show ?thesis .
      qed
      ultimately show ?thesis using 1(2) new 2(1,2) dv(5) by (intro exI [of _ p'] exI [of _ h3] exI [of _ g']) auto
    qed
  qed
qed

end

end
