(* ===== verification/KernelHeap.thy ===== *)
theory KernelHeap
  imports HeapSpec
begin

unbundle bit_operations_syntax

text \<open>
  The heap of the kernel (\<^verbatim>\<open>kernel/mem/heapk.c\<close>), which gets its memory from a static page first and from
  the memory manager afterwards. The memory manager is a function from the calls made so far to its answer: the address
  and the words of new pages, or \<open>None\<close>.
\<close>

section \<open>Memory from the system\<close>

datatype sys_call = Request nat | Return nat nat

record kernel_memory =
  bootstrap_heap :: nat
  bootstrap_words :: "nat list"
  given_bootstrap_heap :: bool
  AllocAnonMemory :: "sys_call list \<Rightarrow> nat \<Rightarrow> (nat \<times> (nat \<Rightarrow> nat)) option"
  calls :: "sys_call list"

abbreviation (input) PAGE_SIZE :: nat where "PAGE_SIZE \<equiv> 4096"

definition page_round :: "nat \<Rightarrow> nat" where
  "page_round sz = push_bit 12 (drop_bit 12 ((sz + PAGE_SIZE - 1) mod WRAP))"

text \<open>The latest call is the first of \<open>calls\<close>.\<close>

definition KernelHeapRequestMemory :: "kernel_memory get_memory" where
  "KernelHeapRequestMemory sz g =
     (if \<not> given_bootstrap_heap g then (Some (bootstrap_heap g, bootstrap_words g), g\<lparr>given_bootstrap_heap := True\<rparr>)
      else
        (case AllocAnonMemory g (calls g) sz of
           None \<Rightarrow> (None, g\<lparr>calls := Request sz # calls g\<rparr>)
         | Some (retv, w) \<Rightarrow>
             (Some (retv, map w [0..<page_round sz div 4]), g\<lparr>calls := Request sz # calls g\<rparr>)))"

definition KernelHeapReturnMemory :: "kernel_memory return_memory" where
  "KernelHeapReturnMemory ptr sz g =
     (if ptr = bootstrap_heap g then g
      else if ptr AND (PAGE_SIZE - 1) \<noteq> 0 then g
      else if sz AND (PAGE_SIZE - 1) \<noteq> 0 then g
      else g\<lparr>calls := Return ptr sz # calls g\<rparr>)"

definition InitBootstrapHeap :: "heap \<Rightarrow> kernel_memory \<Rightarrow> heap \<times> kernel_memory" where
  "InitBootstrapHeap h g = (InitHeapEx h, g\<lparr>bootstrap_words := replicate 1024 0xEEEEEEEE\<rparr>)"

section \<open>Operations\<close>

text \<open>\<open>refused\<close> is \<open>IsOutOfMemory() && IsSchedulingInitialised()\<close>.\<close>

definition KeAllocHeap :: "bool \<Rightarrow> nat \<Rightarrow> heap \<Rightarrow> kernel_memory \<Rightarrow> (nat \<times> heap \<times> kernel_memory) option" where
  "KeAllocHeap refused bytes h g =
     (if bytes = 0 then Some (0, h, g)
      else if refused then Some (0, h, g)
      else AllocHeapEx KernelHeapRequestMemory (push_bit 2 (drop_bit 2 ((bytes + 4 - 1) mod WRAP))) h g)"

fun fill_words :: "nat \<Rightarrow> nat \<Rightarrow> nat \<Rightarrow> heap \<Rightarrow> heap option" where
  "fill_words p v 0 h = Some h"
| "fill_words p v (Suc n) h = do { h \<leftarrow> st p v h; fill_words (p + 4) v n h }"

definition KeGetAllocationSize :: "heap \<Rightarrow> nat \<Rightarrow> nat option" where
  "KeGetAllocationSize h ptr = GetAllocationSizeEx h ptr"

definition KeFreeHeap :: "nat \<Rightarrow> heap \<Rightarrow> heap option" where
  "KeFreeHeap ptr h =
     (if ptr = 0 then Some h
      else
        do { s \<leftarrow> KeGetAllocationSize h ptr;
             h \<leftarrow> fill_words ptr 0xCCCCCCCC (s div 4) h;
             FreeHeapEx ptr h })"

definition KeReallocHeap :: "bool \<Rightarrow> nat \<Rightarrow> nat \<Rightarrow> heap \<Rightarrow> kernel_memory \<Rightarrow> (nat \<times> heap \<times> kernel_memory) option" where
  "KeReallocHeap refused ptr new_size h g =
     (if ptr = 0 then KeAllocHeap refused new_size h g
      else if new_size = 0 then do { h \<leftarrow> KeFreeHeap ptr h; Some (0, h, g) }
      else ReallocHeapEx KernelHeapRequestMemory ptr new_size h g)"

definition KePurgeFreeAreasFromHeap :: "heap \<Rightarrow> kernel_memory \<Rightarrow> (heap \<times> kernel_memory) option" where
  "KePurgeFreeAreasFromHeap h g = PurgeFreeAreasFromHeapEx (Some KernelHeapReturnMemory) h g"

definition GetHeapAllocatedAmount :: "heap \<Rightarrow> nat" where
  "GetHeapAllocatedAmount h = outstanding_allocated_memory h"

section \<open>What the memory manager promises\<close>

text \<open>The areas that it has given and not got back.\<close>

fun anon_areas :: "(sys_call list \<Rightarrow> nat \<Rightarrow> (nat \<times> (nat \<Rightarrow> nat)) option) \<Rightarrow> sys_call list \<Rightarrow> (nat \<times> nat) set" where
  "anon_areas f [] = {}"
| "anon_areas f (Request n # cs) = (case f cs n of None \<Rightarrow> anon_areas f cs | Some (p, w) \<Rightarrow> insert (p, page_round n) (anon_areas f cs))"
| "anon_areas f (Return p n # cs) = anon_areas f cs - {(p, n)}"

definition gives_fresh_pages :: "(sys_call list \<Rightarrow> nat \<Rightarrow> (nat \<times> (nat \<Rightarrow> nat)) option) \<Rightarrow> nat \<Rightarrow> bool" where
  "gives_fresh_pages f bootstrap \<longleftrightarrow>
     (\<forall>cs n p w. n + PAGE_SIZE - 1 < WRAP \<longrightarrow> f cs n = Some (p, w) \<longrightarrow> fresh_area (insert (bootstrap, PAGE_SIZE) (anon_areas f cs)) p (page_round n))"

definition memory_lawful :: "kernel_memory \<Rightarrow> bool" where
  "memory_lawful g \<longleftrightarrow> length (bootstrap_words g) = 1024 \<and> fresh_area {} (bootstrap_heap g) PAGE_SIZE \<and>
     gives_fresh_pages (AllocAnonMemory g) (bootstrap_heap g) \<and> (given_bootstrap_heap g \<or> calls g = [])"

text \<open>The static page is given whatever the size that is asked for.\<close>

definition memory_serves :: "nat \<Rightarrow> kernel_memory \<Rightarrow> bool" where
  "memory_serves n g \<longleftrightarrow> (if given_bootstrap_heap g then n + PAGE_SIZE - 1 < WRAP else n \<le> PAGE_SIZE)"

definition memory_owned :: "kernel_memory \<Rightarrow> (nat \<times> nat) set" where
  "memory_owned g = (if given_bootstrap_heap g then insert (bootstrap_heap g, PAGE_SIZE) (anon_areas (AllocAnonMemory g) (calls g)) else {})"

lemma page_round_eq: "n + PAGE_SIZE - 1 < WRAP \<Longrightarrow> page_round n = (n + 4095) div 4096 * 4096"
  by (simp add: page_round_def push_bit_eq_mult drop_bit_eq_div)

interpretation kernel: system_memory KernelHeapRequestMemory memory_lawful memory_serves memory_owned
proof
  fix g g' :: kernel_memory and n
  assume g: "memory_lawful g" and get: "KernelHeapRequestMemory n g = (None, g')"
  then have "given_bootstrap_heap g" "AllocAnonMemory g (calls g) n = None" "g' = g\<lparr>calls := Request n # calls g\<rparr>"
    by (auto simp: KernelHeapRequestMemory_def split: if_splits option.splits)
  then show "memory_lawful g' \<and> memory_owned g' = memory_owned g" using g by (simp add: memory_lawful_def memory_owned_def)
next
  fix g g' :: kernel_memory and n b cs
  assume g: "memory_lawful g" "memory_serves n g" and get: "KernelHeapRequestMemory n g = (Some (b, cs), g')"
  show "memory_lawful g' \<and> fresh_area (memory_owned g) b (4 * length cs) \<and> n \<le> 4 * length cs \<and> memory_owned g' = insert (b, 4 * length cs) (memory_owned g)"
  proof (cases "given_bootstrap_heap g")
    case False
    then have "b = bootstrap_heap g" "cs = bootstrap_words g" "g' = g\<lparr>given_bootstrap_heap := True\<rparr>" using get by (simp_all add: KernelHeapRequestMemory_def)
    then show ?thesis using False g by (simp add: memory_lawful_def memory_owned_def memory_serves_def)
  next
    case True
    then obtain w where w: "AllocAnonMemory g (calls g) n = Some (b, w)" "cs = map w [0..<page_round n div 4]" "g' = g\<lparr>calls := Request n # calls g\<rparr>"
      using get by (auto simp: KernelHeapRequestMemory_def split: option.splits)
    have n: "n + PAGE_SIZE - 1 < WRAP" using g(2) True by (simp add: memory_serves_def)
    have l: "4 * length cs = page_round n" "n \<le> page_round n" using w(2) by (simp_all add: page_round_eq [OF n])
    have "fresh_area (memory_owned g) b (page_round n)" using g(1) n w(1) True unfolding memory_lawful_def gives_fresh_pages_def memory_owned_def by auto
    then show ?thesis using g True w(1,3) unfolding l by (simp add: memory_lawful_def memory_owned_def l(2) insert_commute)
  qed
qed

section \<open>Which sizes can be asked for\<close>

text \<open>The static page must be enough for the first block.\<close>

definition size_fits :: "nat \<Rightarrow> kernel_memory \<Rightarrow> bool" where
  "size_fits bytes g \<longleftrightarrow> (if given_bootstrap_heap g then bytes + 2 * PAGE_SIZE < WRAP else bytes \<le> 4000)"

definition round_4 :: "nat \<Rightarrow> nat" where
  "round_4 bytes = push_bit 2 (drop_bit 2 ((bytes + 4 - 1) mod WRAP))"

lemma round_4_le: "bytes + 2 * PAGE_SIZE < WRAP \<Longrightarrow> bytes \<le> round_4 bytes \<and> round_4 bytes \<le> bytes + 3"
  by (simp add: round_4_def push_bit_eq_mult drop_bit_eq_div) linarith

lemma request_size_le: "8 dvd r \<Longrightarrow> request_size r \<le> max 1048 (r + 24)"
proof -
  assume r: "8 dvd r"
  let ?m = "GetSmallestListIndexThatFits r"
  show ?thesis
  proof (cases "?m + 1 < 24")
    case True
    then have "free_list_block_sizes ! (?m + 1) \<le> free_list_block_sizes ! 23" by (intro table_sorted) simp_all
    then have "free_list_block_sizes ! (?m + 1) \<le> 1024" by (simp add: free_list_block_sizes_def)
    then show ?thesis using True by (simp add: request_size_def system_size_def)
  next
    case False
    have "(r + 8) mod WRAP \<le> r + 8" by simp
    then show ?thesis using False by (simp add: request_size_def system_size_def)
  qed
qed

lemma size_fits_serves:
  assumes "size_fits bytes g" "0 < bytes" "bytes \<le> sz" "sz \<le> bytes + 3"
  shows "memory_serves (request_size (RoundUpSize sz)) g" "sz + 32 < WRAP"
proof -
  have b: "bytes + 2 * PAGE_SIZE < WRAP" using assms(1) by (simp add: size_fits_def split: if_splits)
  then show "sz + 32 < WRAP" using assms(4) by simp
  have "0 < sz" "sz + 8 \<le> WRAP" using assms(2-4) b by simp_all
  note r = RoundUpSize_ok [OF this]
  have q: "request_size (RoundUpSize sz) \<le> max 1048 (bytes + 35)" using request_size_le [OF r(1)] r(4) assms(4) by linarith
  show "memory_serves (request_size (RoundUpSize sz)) g"
  proof (cases "given_bootstrap_heap g")
    case True
    then show ?thesis using q b by (simp add: memory_serves_def)
  next
    case False
    then have "bytes \<le> 4000" using assms(1) by (simp add: size_fits_def)
    then show ?thesis using q False by (simp add: memory_serves_def)
  qed
qed

lemma KeAllocHeap_eq:
  "KeAllocHeap refused bytes h g =
     (if bytes = 0 \<or> refused then Some (0, h, g) else AllocHeapEx KernelHeapRequestMemory (round_4 bytes) h g)"
  by (simp add: KeAllocHeap_def round_4_def)

section \<open>The contract\<close>

lemma KeAllocHeap_ok:
  assumes "heap_ok (memory_owned g) h live" "memory_lawful g" "size_fits bytes g"
  shows "\<exists>p h' g'. KeAllocHeap refused bytes h g = Some (p, h', g') \<and> memory_lawful g' \<and> contents_kept live h h' \<and>
    (if p = 0 then heap_ok (memory_owned g') h' live \<and>
       (bytes = 0 \<or> refused \<or> KernelHeapRequestMemory (request_size (RoundUpSize (round_4 bytes))) g = (None, g'))
     else live p = None \<and> (\<exists>k. bytes \<le> k \<and> KeGetAllocationSize h' p = Some k \<and> heap_ok (memory_owned g') h' (live(p \<mapsto> k)) \<and>
       (\<forall>q l. live q = Some l \<longrightarrow> p + k + 8 \<le> q \<or> q + l + 8 \<le> p) \<and> (\<forall>a. p \<le> a \<longrightarrow> a < p + k \<longrightarrow> 4 dvd a \<longrightarrow> hmem h' a \<noteq> None)))"
proof (cases "bytes = 0 \<or> refused")
  case True
  then show ?thesis using assms by (auto simp: KeAllocHeap_eq contents_kept_def)
next
  case False
  then have b: "0 < bytes" "bytes + 2 * PAGE_SIZE < WRAP" using assms(3) by (auto simp: size_fits_def split: if_splits)
  note r4 = round_4_le [OF b(2)]
  note s = size_fits_serves [OF assms(3) b(1)]
  have "0 < round_4 bytes" using r4 b(1) by linarith
  from kernel.AllocHeapEx_ok [OF assms(1,2) s(1) this s(2)] r4 obtain p h' g' where p: "AllocHeapEx KernelHeapRequestMemory (round_4 bytes) h g = Some (p, h', g')"
    "memory_lawful g'" "contents_kept live h h'"
    "if p = 0 then heap_ok (memory_owned g') h' live \<and> KernelHeapRequestMemory (request_size (RoundUpSize (round_4 bytes))) g = (None, g')
     else live p = None \<and> (\<exists>k. round_4 bytes \<le> k \<and> heap_ok (memory_owned g') h' (live(p \<mapsto> k)))" by blast
  have run: "KeAllocHeap refused bytes h g = Some (p, h', g')" using False p(1) by (simp add: KeAllocHeap_eq)
  show ?thesis
  proof (cases "p = 0")
    case True
    then show ?thesis using p run by auto
  next
    case pos: False
    then obtain k where k: "live p = None" "round_4 bytes \<le> k" "heap_ok (memory_owned g') h' (live(p \<mapsto> k))" using p(4) by auto
    have lp: "(live(p \<mapsto> k)) p = Some k" by simp
    note f = live_facts [OF k(3) lp]
    have "p + k + 8 \<le> q \<or> q + l + 8 \<le> p" if "live q = Some l" for q l using f(7) [of q l] that k(1) by (cases "q = p") auto
    moreover have "bytes \<le> k" using k(2) r4 by linarith
    moreover have "KeGetAllocationSize h' p = Some k" using f(5) by (simp add: KeGetAllocationSize_def)
    ultimately show ?thesis using p(2,3) run pos k(1,3) f(6) by (intro exI [of _ p] exI [of _ h'] exI [of _ g']) auto
  qed
qed

lemma fill_words_ok:
  "\<lbrakk>\<forall>i < n. hmem h (p + 4 * i) \<noteq> None\<rbrakk> \<Longrightarrow>
    \<exists>h'. fill_words p v n h = Some h' \<and> frame h p (p + 4 * n) h' \<and> outstanding_allocated_memory h' = outstanding_allocated_memory h"
proof (induction n arbitrary: p h)
  case (Suc n)
  have v: "hmem h p \<noteq> None" using Suc.prems by force
  let ?h = "h\<lparr>hmem := (hmem h)(p \<mapsto> v)\<rparr>"
  have "\<forall>i < n. hmem ?h (p + 4 + 4 * i) \<noteq> None"
  proof (intro allI impI)
    fix i assume "i < n"
    then have "hmem h (p + 4 * Suc i) \<noteq> None" using Suc.prems by blast
    then show "hmem ?h (p + 4 + 4 * i) \<noteq> None" by (simp add: add.assoc)
  qed
  from Suc.IH [OF this] obtain h' where h': "fill_words (p + 4) v n ?h = Some h'" "frame ?h (p + 4) (p + 4 + 4 * n) h'"
    "outstanding_allocated_memory h' = outstanding_allocated_memory h" by auto
  have "frame h p (p + 4 * Suc n) h'" using h'(2) v by (auto simp: frame_def)
  then show ?case using v h' by (auto simp: st_def)
qed simp

lemma KeFreeHeap_ok:
  assumes ok: "heap_ok own h live" and p: "live p = Some k"
  shows "\<exists>h'. KeFreeHeap p h = Some h' \<and> heap_ok own h' (live(p := None)) \<and> contents_kept (live(p := None)) h h'"
proof -
  note f = live_facts [OF ok p]
  have p4: "4 dvd p" "4 dvd k" "k div 4 * 4 = k" "p \<noteq> 0" using f(1-3) by presburger+
  have "\<forall>i < k div 4. hmem h (p + 4 * i) \<noteq> None"
  proof (intro allI impI)
    fix i assume "i < k div 4"
    then have "4 * i < k" by linarith
    then show "hmem h (p + 4 * i) \<noteq> None" using f(6) [of "p + 4 * i"] p4(1) by simp
  qed
  from fill_words_ok [OF this] obtain h1 where 1: "fill_words p 0xCCCCCCCC (k div 4) h = Some h1" "frame h p (p + 4 * (k div 4)) h1"
    "outstanding_allocated_memory h1 = outstanding_allocated_memory h" by blast
  have "client_writes p k h h1" using 1(2,3) p4(3) by (simp add: client_writes_def mult.commute)
  note 2 = client_writes_ok [OF ok p this]
  from FreeHeapEx_ok [OF 2(1) p] obtain h2 where 3: "FreeHeapEx p h1 = Some h2" "heap_ok own h2 (live(p := None))" "contents_kept (live(p := None)) h1 h2" by blast
  have "KeFreeHeap p h = Some h2" using p4(4) f(5) 1(1) 3(1) by (simp add: KeFreeHeap_def KeGetAllocationSize_def)
  then show ?thesis using 3(2) contents_trans [OF 2(2) 3(3)] by blast
qed

lemma KeReallocHeap_ok:
  assumes ok: "heap_ok (memory_owned g) h live" and g: "memory_lawful g" "size_fits bytes g" and p: "live p = Some k" "0 < bytes"
  shows "\<exists>p' h' g'. KeReallocHeap refused p bytes h g = Some (p', h', g') \<and> memory_lawful g' \<and>
    (if p' = 0 then heap_ok (memory_owned g') h' live \<and> contents_kept live h h'
     else (\<exists>k'. bytes \<le> k' \<and> k \<le> k' \<and> heap_ok (memory_owned g') h' ((live(p := None))(p' \<mapsto> k'))) \<and> contents_kept (live(p := None)) h h' \<and>
       (p' = p \<or> live p' = None) \<and> (\<forall>i. 4 dvd i \<longrightarrow> i < k \<longrightarrow> hmem h' (p' + i) = hmem h (p + i)))"
proof -
  have "p \<noteq> 0" using live_facts(2) [OF ok p(1)] by auto
  then have e: "KeReallocHeap refused p bytes h g = ReallocHeapEx KernelHeapRequestMemory p bytes h g" using p(2) by (simp add: KeReallocHeap_def)
  have s: "memory_serves (request_size (RoundUpSize bytes)) g" "bytes + 32 < WRAP" using size_fits_serves [OF g(2) p(2)] by simp_all
  from kernel.ReallocHeapEx_ok [OF ok g(1) s p(1)] obtain p' h' g' where r: "ReallocHeapEx KernelHeapRequestMemory p bytes h g = Some (p', h', g')" "memory_lawful g'"
    "if p' = 0 then heap_ok (memory_owned g') h' live \<and> contents_kept live h h' \<and> KernelHeapRequestMemory (request_size (RoundUpSize bytes)) g = (None, g')
     else (\<exists>k'. bytes \<le> k' \<and> k \<le> k' \<and> heap_ok (memory_owned g') h' ((live(p := None))(p' \<mapsto> k'))) \<and> contents_kept (live(p := None)) h h' \<and>
       (p' = p \<or> live p' = None) \<and> (\<forall>i. 4 dvd i \<longrightarrow> i < k \<longrightarrow> hmem h' (p' + i) = hmem h (p + i))" by blast
  show ?thesis
    by (rule exI [of _ p'], rule exI [of _ h'], rule exI [of _ g']) (use e r in \<open>simp split: if_splits\<close>)
qed

section \<open>Any sequence of operations\<close>

text \<open>
  \<open>live\<close> is what the clients of the heap know: the blocks they have got and not freed. They may write into those in between.
\<close>

inductive heap_run :: "heap \<Rightarrow> kernel_memory \<Rightarrow> heap \<Rightarrow> kernel_memory \<Rightarrow> (nat \<rightharpoonup> nat) \<Rightarrow> bool" for h0 g0 where
  start: "InitBootstrapHeap h0 g0 = (h, g) \<Longrightarrow> heap_run h0 g0 h g Map.empty"
| alloc: "\<lbrakk>heap_run h0 g0 h g live; size_fits bytes g; KeAllocHeap refused bytes h g = Some (p, h', g')\<rbrakk> \<Longrightarrow>
    heap_run h0 g0 h' g' (if p = 0 then live else live(p := KeGetAllocationSize h' p))"
| free: "\<lbrakk>heap_run h0 g0 h g live; live p \<noteq> None; KeFreeHeap p h = Some h'\<rbrakk> \<Longrightarrow> heap_run h0 g0 h' g (live(p := None))"
| realloc: "\<lbrakk>heap_run h0 g0 h g live; live p \<noteq> None; size_fits bytes g; 0 < bytes; KeReallocHeap refused p bytes h g = Some (p', h', g')\<rbrakk> \<Longrightarrow>
    heap_run h0 g0 h' g' (if p' = 0 then live else (live(p := None))(p' := KeGetAllocationSize h' p'))"
| client: "\<lbrakk>heap_run h0 g0 h g live; live p = Some k; client_writes p k h h'\<rbrakk> \<Longrightarrow> heap_run h0 g0 h' g live"

text \<open>The state before \<open>InitBootstrapHeap\<close>, and memory that suits it.\<close>

definition before_init :: "heap \<Rightarrow> kernel_memory \<Rightarrow> bool" where
  "before_init h g \<longleftrightarrow> outstanding_allocated_memory h = 0 \<and> \<not> given_bootstrap_heap g \<and> calls g = [] \<and>
     fresh_area {} (bootstrap_heap g) PAGE_SIZE \<and> gives_fresh_pages (AllocAnonMemory g) (bootstrap_heap g)"

lemma InitBootstrapHeap_ok:
  assumes "before_init h0 g0" "InitBootstrapHeap h0 g0 = (h, g)"
  shows "heap_ok (memory_owned g) h Map.empty" "memory_lawful g"
proof -
  have e: "h = InitHeapEx h0" "g = g0\<lparr>bootstrap_words := replicate 1024 0xEEEEEEEE\<rparr>" using assms(2) by (simp_all add: InitBootstrapHeap_def)
  show "memory_lawful g" using assms(1) by (simp add: memory_lawful_def before_init_def e)
  have "listed h [] (\<lambda>_. [])" by (simp add: listed_def InitHeapEx_def e)
  then have "hinv h [] (\<lambda>_. [])" by (simp add: hinv_def)
  moreover have "used [] = {}" by (simp add: used_def)
  moreover have "outstanding_allocated_memory h = 0" using assms(1) by (simp add: before_init_def InitHeapEx_def e)
  moreover have "settled_rows []" by (simp add: settled_rows_def)
  ultimately show "heap_ok (memory_owned g) h Map.empty" unfolding heap_ok_def by (intro exI [of _ "[]"] exI [of _ "\<lambda>_. []"]) simp
qed

lemma heap_run_ok:
  assumes "heap_run h0 g0 h g live" "before_init h0 g0"
  shows "heap_ok (memory_owned g) h live \<and> memory_lawful g"
  using assms
proof (induction rule: heap_run.induct)
  case (start h g)
  then show ?case using InitBootstrapHeap_ok by blast
next
  case (alloc h g live bytes refused p h' g')
  then show ?case using KeAllocHeap_ok [of g h live bytes refused] by (auto split: if_splits)
next
  case (free h g live p h')
  then obtain k where k: "live p = Some k" by auto
  have ok: "heap_ok (memory_owned g) h live" "memory_lawful g" using free by auto
  from KeFreeHeap_ok [where live = live and p = p, OF ok(1) k] obtain h'' where "KeFreeHeap p h = Some h''" "heap_ok (memory_owned g) h'' (live(p := None))" by blast
  moreover from this(1) free(3) have "h'' = h'" by simp
  ultimately show ?case using ok(2) by (simp add: fun_upd_def)
next
  case (realloc h g live p bytes refused p' h' g')
  then obtain k where k: "live p = Some k" by auto
  have ok: "heap_ok (memory_owned g) h live" "memory_lawful g" using realloc by auto
  from KeReallocHeap_ok [where refused = refused, OF ok realloc(3) k realloc(4)] realloc(5) have r: "memory_lawful g'"
    "if p' = 0 then heap_ok (memory_owned g') h' live else \<exists>k'. heap_ok (memory_owned g') h' ((live(p := None))(p' \<mapsto> k'))"
    by (auto split: if_splits)
  show ?case
  proof (cases "p' = 0")
    case False
    then obtain k' where k': "heap_ok (memory_owned g') h' ((live(p := None))(p' \<mapsto> k'))" using r(2) by auto
    have "KeGetAllocationSize h' p' = Some k'" using live_facts(5) [OF k' fun_upd_same] by (simp add: KeGetAllocationSize_def)
    then show ?thesis using False k' r(1) by (simp add: fun_upd_def)
  qed (use r in simp)
next
  case (client h g live p k h')
  then show ?case using client_writes_ok by blast
qed

lemma outstanding_live:
  assumes "heap_ok own h live"
  shows "finite (dom live)" "outstanding_allocated_memory h = (\<Sum>p \<in> dom live. the (live p) + 8) mod WRAP"
proof -
  obtain ars L where a: "hinv h ars L" "\<And>p k. live p = Some k \<longleftrightarrow> 4 \<le> p \<and> (p - 4, k + 8) \<in> used ars"
    "outstanding_allocated_memory h = (\<Sum>(b, n) \<in> used ars. n) mod WRAP" using heap_okE [OF assms] by metis
  let ?f = "\<lambda>p. (p - 4, the (live p) + 8)"
  have img: "used ars = ?f ` dom live"
  proof (rule set_eqI, clarify)
    fix b n
    show "(b, n) \<in> used ars \<longleftrightarrow> (b, n) \<in> ?f ` dom live"
    proof
      assume u: "(b, n) \<in> used ars"
      then have "16 \<le> n" using used_facts(4) [OF a(1)] by blast
      then have "live (b + 4) = Some (n - 8)" using a(2) [of "b + 4" "n - 8"] u by simp
      then show "(b, n) \<in> ?f ` dom live" using \<open>16 \<le> n\<close> by (intro image_eqI [of _ _ "b + 4"]) auto
    next
      assume "(b, n) \<in> ?f ` dom live"
      then obtain p l where "live p = Some l" "(b, n) = (p - 4, l + 8)" by auto
      then show "(b, n) \<in> used ars" using a(2) by simp
    qed
  qed
  have inj: "inj_on ?f (dom live)"
  proof (rule inj_onI)
    fix p q assume "p \<in> dom live" "q \<in> dom live" "?f p = ?f q"
    then show "p = q" using a(2) by auto
  qed
  show "finite (dom live)" using finite_imageD [OF _ inj] finite_used [of ars] img by simp
  show "outstanding_allocated_memory h = (\<Sum>p \<in> dom live. the (live p) + 8) mod WRAP"
    unfolding a(3) img by (simp add: sum.reindex [OF inj] comp_def)
qed

section \<open>Properties\<close>

text \<open>
  C16. \<open>KeAllocHeap\<close> returns, keeps the contents of every block in use, and answers with a new block that is large
  enough and apart from all others, or with 0 if it was refused or the memory manager had nothing left.
\<close>

theorem KeAllocHeap_correct:
  assumes "heap_ok (memory_owned g) h live" "memory_lawful g" "size_fits bytes g"
  shows "\<exists>p h' g'. KeAllocHeap refused bytes h g = Some (p, h', g') \<and> memory_lawful g' \<and> contents_kept live h h' \<and>
    (if p = 0 then heap_ok (memory_owned g') h' live \<and>
       (bytes = 0 \<or> refused \<or> KernelHeapRequestMemory (request_size (RoundUpSize (round_4 bytes))) g = (None, g'))
     else live p = None \<and> (\<exists>k. bytes \<le> k \<and> KeGetAllocationSize h' p = Some k \<and> heap_ok (memory_owned g') h' (live(p \<mapsto> k)) \<and>
       (\<forall>q l. live q = Some l \<longrightarrow> p + k + 8 \<le> q \<or> q + l + 8 \<le> p) \<and> (\<forall>a. p \<le> a \<longrightarrow> a < p + k \<longrightarrow> 4 dvd a \<longrightarrow> hmem h' a \<noteq> None)))"
  using assms by (rule KeAllocHeap_ok)

text \<open>
  C17. \<open>KeFreeHeap\<close> of a block in use returns, keeps the contents of all others, and the block is free from then on.
\<close>

theorem KeFreeHeap_correct:
  assumes ok: "heap_ok own h live" and p: "live p = Some k"
  shows "\<exists>h'. KeFreeHeap p h = Some h' \<and> heap_ok own h' (live(p := None)) \<and> contents_kept (live(p := None)) h h'"
  using assms by (rule KeFreeHeap_ok)

text \<open>
  C18. \<open>KeReallocHeap\<close> of a block in use to a size that is not 0 returns. It answers with a block that is large enough and
  has the old contents, and frees the old one if it is another; or with 0, and then the old block stays as it is.
\<close>

theorem KeReallocHeap_correct:
  assumes ok: "heap_ok (memory_owned g) h live" and g: "memory_lawful g" "size_fits bytes g" and p: "live p = Some k" "0 < bytes"
  shows "\<exists>p' h' g'. KeReallocHeap refused p bytes h g = Some (p', h', g') \<and> memory_lawful g' \<and>
    (if p' = 0 then heap_ok (memory_owned g') h' live \<and> contents_kept live h h'
     else (\<exists>k'. bytes \<le> k' \<and> k \<le> k' \<and> heap_ok (memory_owned g') h' ((live(p := None))(p' \<mapsto> k'))) \<and> contents_kept (live(p := None)) h h' \<and>
       (p' = p \<or> live p' = None) \<and> (\<forall>i. 4 dvd i \<longrightarrow> i < k \<longrightarrow> hmem h' (p' + i) = hmem h (p + i)))"
  using assms by (rule KeReallocHeap_ok)

text \<open>
  C15. After any sequence of allocations, frees, reallocations and writes of clients to their own blocks: the blocks in use are
  apart, aligned, in accessible memory and of the size that is reported; the amount of memory in use is accounted
  for; and no operation fails, follows a wild pointer or does not return.
\<close>

theorem kernel_heap_safe:
  assumes "heap_run h0 g0 h g live" "before_init h0 g0"
  shows "(\<forall>p k. live p = Some k \<longrightarrow> p mod 8 = 4 \<and> 8 \<le> k \<and> KeGetAllocationSize h p = Some k \<and> (\<forall>a. p \<le> a \<longrightarrow> a < p + k \<longrightarrow> 4 dvd a \<longrightarrow> hmem h a \<noteq> None)) \<and>
    (\<forall>p k q l. live p = Some k \<longrightarrow> live q = Some l \<longrightarrow> p \<noteq> q \<longrightarrow> p + k \<le> q \<or> q + l \<le> p) \<and>
    GetHeapAllocatedAmount h = (\<Sum>p \<in> dom live. the (live p) + 8) mod WRAP \<and>
    (\<forall>refused bytes. size_fits bytes g \<longrightarrow> KeAllocHeap refused bytes h g \<noteq> None) \<and>
    (\<forall>p. live p \<noteq> None \<longrightarrow> KeFreeHeap p h \<noteq> None) \<and>
    (\<forall>p refused bytes. live p \<noteq> None \<longrightarrow> size_fits bytes g \<longrightarrow> KeReallocHeap refused p bytes h g \<noteq> None)"
proof -
  from heap_run_ok [OF assms] have ok: "heap_ok (memory_owned g) h live" "memory_lawful g" by auto
  have free: "KeFreeHeap p h \<noteq> None" if "live p \<noteq> None" for p using KeFreeHeap_ok [OF ok(1), of p] that by auto
  have alloc: "KeAllocHeap refused bytes h g \<noteq> None" if "size_fits bytes g" for refused bytes using KeAllocHeap_ok [OF ok that, of refused] by auto
  have realloc: "KeReallocHeap refused p bytes h g \<noteq> None" if "live p \<noteq> None" "size_fits bytes g" for p refused bytes
  proof (cases "bytes = 0")
    case True
    then show ?thesis using free [OF that(1)] that(1) live_facts(2) [OF ok(1), of p] by (auto simp: KeReallocHeap_def)
  next
    case False
    then show ?thesis using KeReallocHeap_ok [OF ok that(2), of p _ refused] that(1) by auto
  qed
  show ?thesis
  proof (intro conjI)
    show "\<forall>p k. live p = Some k \<longrightarrow> p mod 8 = 4 \<and> 8 \<le> k \<and> KeGetAllocationSize h p = Some k \<and> (\<forall>a. p \<le> a \<longrightarrow> a < p + k \<longrightarrow> 4 dvd a \<longrightarrow> hmem h a \<noteq> None)"
      using live_facts(1,2,5,6) [OF ok(1)] by (simp add: KeGetAllocationSize_def)
    show "\<forall>p k q l. live p = Some k \<longrightarrow> live q = Some l \<longrightarrow> p \<noteq> q \<longrightarrow> p + k \<le> q \<or> q + l \<le> p" using live_facts(7) [OF ok(1)] by fastforce
    show "GetHeapAllocatedAmount h = (\<Sum>p \<in> dom live. the (live p) + 8) mod WRAP" using outstanding_live(2) [OF ok(1)] by (simp add: GetHeapAllocatedAmount_def)
  qed (use free alloc realloc in blast)+
qed

section \<open>Examples\<close>

definition zero_heap :: heap where
  "zero_heap = \<lparr>hmem = Map.empty, head_block = [], free_list_bitmap = 0, outstanding_allocated_memory = 0\<rparr>"

definition sample_memory :: kernel_memory where
  "sample_memory = \<lparr>bootstrap_heap = 65536, bootstrap_words = [], given_bootstrap_heap = False,
     AllocAnonMemory = (\<lambda>cs n. if cs = [] \<and> n \<le> 4096 then Some (1048576, \<lambda>_. 0) else None), calls = []\<rparr>"

definition sample_heap :: heap where
  "sample_heap = fst (InitBootstrapHeap zero_heap sample_memory)"

definition sample_state :: kernel_memory where
  "sample_state = snd (InitBootstrapHeap zero_heap sample_memory)"

lemma sample_before: "before_init zero_heap sample_memory"
proof -
  have "page_round n = 0 \<or> page_round n = 4096" if "n \<le> 4096" for n
  proof -
    have "page_round n = (n + 4095) div 4096 * 4096" using that by (intro page_round_eq) simp
    moreover have "(n + 4095) div 4096 < 2" using that by (simp add: less_mult_imp_div_less)
    ultimately show ?thesis by (auto simp: less_2_cases_iff)
  qed
  then have "fresh_area {(65536, 4096)} 1048576 (page_round n)" if "n \<le> 4096" for n using that by (fastforce simp: fresh_area_def)
  then show ?thesis by (auto simp: before_init_def zero_heap_def sample_memory_def fresh_area_def gives_fresh_pages_def split: if_splits)
qed

lemma sample_ok: "heap_ok (memory_owned sample_state) sample_heap Map.empty" "memory_lawful sample_state" "size_fits 100 sample_state"
proof -
  have "InitBootstrapHeap zero_heap sample_memory = (sample_heap, sample_state)" by (simp add: sample_heap_def sample_state_def)
  from InitBootstrapHeap_ok [OF sample_before this] show "heap_ok (memory_owned sample_state) sample_heap Map.empty" "memory_lawful sample_state" .
  show "size_fits 100 sample_state" by (simp add: size_fits_def sample_state_def sample_memory_def InitBootstrapHeap_def)
qed

lemma sample_refuses: "KernelHeapRequestMemory n sample_state \<noteq> (None, g)"
  by (simp add: KernelHeapRequestMemory_def sample_state_def sample_memory_def InitBootstrapHeap_def)

lemma size_fits_100: "size_fits 100 g" "size_fits 200 g"
  by (simp_all add: size_fits_def)

lemma sample_run:
  "\<exists>p k h g. heap_run zero_heap sample_memory h g [p \<mapsto> k] \<and> heap_ok (memory_owned g) h [p \<mapsto> k] \<and> memory_lawful g \<and> 100 \<le> k"
proof -
  obtain p h g k where p: "KeAllocHeap False 100 sample_heap sample_state = Some (p, h, g)" "p \<noteq> 0" "100 \<le> k" "KeGetAllocationSize h p = Some k"
    using KeAllocHeap_ok [OF sample_ok, of False] sample_refuses by (auto split: if_splits)
  have "InitBootstrapHeap zero_heap sample_memory = (sample_heap, sample_state)" by (simp add: sample_heap_def sample_state_def)
  from heap_run.alloc [OF heap_run.start [OF this] sample_ok(3) p(1)] have "heap_run zero_heap sample_memory h g [p \<mapsto> k]" using p(2,4) by simp
  then show ?thesis using heap_run_ok [OF _ sample_before] p(3) by blast
qed

theorem KeAllocHeap_correct_witness:
  "\<exists>p h g k. KeAllocHeap False 100 sample_heap sample_state = Some (p, h, g) \<and> p \<noteq> 0 \<and> 100 \<le> k \<and> heap_ok (memory_owned g) h [p \<mapsto> k]"
  using KeAllocHeap_correct [OF sample_ok, of False] sample_refuses by (auto split: if_splits)

theorem KeFreeHeap_correct_witness: "\<exists>own h p k h'. KeFreeHeap p h = Some h' \<and> heap_ok own h [p \<mapsto> k] \<and> heap_ok own h' Map.empty"
proof -
  obtain p k h g where h: "heap_ok (memory_owned g) h [p \<mapsto> k]" using sample_run by blast
  have "[p \<mapsto> k] p = Some k" "[p \<mapsto> k](p := None) = Map.empty" by auto
  with KeFreeHeap_correct [OF h this(1)] h show ?thesis by metis
qed

theorem KeReallocHeap_correct_witness:
  "\<exists>p k h g p' h' g'. heap_ok (memory_owned g) h [p \<mapsto> k] \<and> KeReallocHeap False p 200 h g = Some (p', h', g') \<and> memory_lawful g'"
proof -
  obtain p k h g where h: "heap_ok (memory_owned g) h [p \<mapsto> k]" "memory_lawful g" using sample_run by blast
  have "[p \<mapsto> k] p = Some k" by simp
  from KeReallocHeap_correct [OF h size_fits_100(2) this, of False] obtain p' h' g' where
    "KeReallocHeap False p 200 h g = Some (p', h', g')" "memory_lawful g'" by auto
  then show ?thesis using h(1) by blast
qed

theorem kernel_heap_safe_witness:
  "\<exists>p k h g. heap_run zero_heap sample_memory h g [p \<mapsto> k] \<and> p mod 8 = 4 \<and> GetHeapAllocatedAmount h = (k + 8) mod WRAP \<and> KeAllocHeap False 100 h g \<noteq> None"
proof -
  obtain p k h g where r: "heap_run zero_heap sample_memory h g [p \<mapsto> k]" using sample_run by blast
  have "[p \<mapsto> k] p = Some k" by simp
  with kernel_heap_safe [OF r sample_before] r size_fits_100 show ?thesis by (intro exI [of _ p] exI [of _ k] exI [of _ h] exI [of _ g]) auto
qed

text \<open>Evaluation: the arguments of a step are evaluated before the steps that follow it.\<close>

lemma bind_weak: "m = m' \<Longrightarrow> Option.bind m f = Option.bind m' f"
  by simp

lemma BitScanForward_power: "BitScanForward (2 ^ k) = k"
  by (induction k; subst BitScanForward.simps; simp)

lemma scans: "BitScanForward 8388608 = 23" "BitScanReverse 103 = 6"
  using BitScanForward_power [of 23] BitScanReverse_eq [of 6 103] by simp_all

lemmas heap_eval = sample_heap_def sample_state_def InitBootstrapHeap_def zero_heap_def sample_memory_def InitHeapEx_def
  KeAllocHeap_def AllocHeapEx_def FindBlock_def find_in_lists_def system_size_def RequestBlock_def AllocateBlock_def
  FreeHeapEx_def PurgeFreeAreasFromHeapEx_def PurgeLoop.simps DoesFreeBlockSpanEntireChunk_def KeGetAllocationSize_def GetAllocationSizeEx_def
  RemoveBlock_def RemoveFree_def MakeFree_def InsertFree_def SetSizeTags_def set_next_def set_prev_def MarkFencepost_def MarkFree_def MarkAllocated_def
  IsAllocated_def IsFencepost_def GetSize_def prev_block_def next_block_def ld_def st_def KernelHeapRequestMemory_def
  GetSmallestListIndexThatFits_def GetInsertionIndex_def RoundUpSize_def free_list_block_sizes_def
  AddBlock.simps first_fit.simps scans
  push_bit_eq_mult drop_bit_eq_div set_bit_eq unset_bit_eq bit_iff_odd Let_def

text \<open>
  The flag of a fencepost is bit 1 of the first word of a block, and \<open>SetSizeTags\<close> keeps what was in that bit before there
  was a block. The static page is filled with \<open>0xEE\<close>, so all of its blocks look like fenceposts: a free block between two
  blocks in use counts as a whole area, and memory in use (at 68292 and at 69516) is given back.
\<close>

lemma purge_returns_live_memory:
  "do { (p, h, g) \<leftarrow> KeAllocHeap False 100 sample_heap sample_state;
        (q, h, g) \<leftarrow> KeAllocHeap False 1100 h g;
        (r, h, g) \<leftarrow> KeAllocHeap False 100 h g;
        h \<leftarrow> FreeHeapEx q h;
        (h, returned) \<leftarrow> PurgeFreeAreasFromHeapEx (Some (\<lambda>p n l. (p, n) # l)) h [];
        Some (p, q, r, returned) } = Some (69516, 68404, 68292, [(65536, 2760), (68288, 1232)])"
  by (simp add: heap_eval cong: bind_weak prod.case_cong_weak option.case_cong_weak let_weak_cong)

text \<open>A size close to $2^{32}$ wraps to 0, and a block without any space for the client is the answer.\<close>

lemma huge_size_wraps:
  "do { (p, h, g) \<leftarrow> KeAllocHeap False (2 ^ 32 - 5) sample_heap sample_state; k \<leftarrow> KeGetAllocationSize h p; Some (p, k) } = Some (69620, 0)"
  by (simp add: heap_eval cong: bind_weak prod.case_cong_weak option.case_cong_weak let_weak_cong)

text \<open>If the first block that is asked for does not fit the static page, the heap writes outside of it.\<close>

lemma first_request_ignored: "KeAllocHeap False 5000 sample_heap sample_state = None"
  by (simp add: heap_eval cong: bind_weak prod.case_cong_weak option.case_cong_weak let_weak_cong)

end
