(* ===== verification/VirtArena.thy ===== *)
theory VirtArena
  imports Prelude
begin

text \<open>
  Ranges of virtual addresses (\<^verbatim>\<open>kernel/mem/allocvirtex.c\<close>): a sorted list of the free ranges, from which the
  first that is large enough is taken and into which freed ranges are merged. The nodes of the linked list are not shared,
  so it is a list here.
\<close>

section \<open>Operations\<close>

record virt_range =
  start_addr :: nat
  pages :: nat

abbreviation (input) WORDS :: nat where "WORDS \<equiv> 2 ^ 32"
abbreviation (input) PAGE :: nat where "PAGE \<equiv> 4096"

definition page_count :: "nat \<Rightarrow> nat" where
  "page_count bytes = (bytes + PAGE - 1) mod WORDS div PAGE"

text \<open>\<open>mem\<close> is whether \<open>AllocVmmHeap\<close> returns a node; the code does not look whether it does.\<close>

definition InitVirtArena :: "bool \<Rightarrow> nat \<Rightarrow> nat \<Rightarrow> virt_range list option" where
  "InitVirtArena mem start bytes = (if mem then Some [\<lparr>start_addr = start, pages = page_count bytes\<rparr>] else None)"

fun take_range :: "nat \<Rightarrow> virt_range list \<Rightarrow> (nat \<times> virt_range list) option" where
  "take_range n [] = None"
| "take_range n (cur # rs) =
     (if n \<le> pages cur then
        (if pages cur = n then Some (start_addr cur, rs)
         else Some (start_addr cur, cur\<lparr>start_addr := (start_addr cur + n * PAGE) mod WORDS, pages := pages cur - n\<rparr> # rs))
      else map_option (\<lambda>(a, rs'). (a, cur # rs')) (take_range n rs))"

definition AllocVirtEx :: "nat \<Rightarrow> virt_range list \<Rightarrow> nat \<times> virt_range list" where
  "AllocVirtEx bytes va = (case take_range (page_count bytes) va of None \<Rightarrow> (0, va) | Some (a, va') \<Rightarrow> (a, va'))"

definition FreeVirtEx :: "bool \<Rightarrow> nat \<Rightarrow> nat \<Rightarrow> virt_range list \<Rightarrow> virt_range list option" where
  "FreeVirtEx mem start bytes va =
     (let n = page_count bytes;
          end_addr = (start + n * PAGE) mod WORDS;
          before = takeWhile (\<lambda>r. start_addr r < start) va;
          after = dropWhile (\<lambda>r. start_addr r < start) va;
          prev = last before;
          cur = hd after;
          merged_left = (before \<noteq> [] \<and> (start_addr prev + pages prev * PAGE) mod WORDS = start);
          merged_right = (after \<noteq> [] \<and> end_addr = start_addr cur)
      in if merged_left \<and> merged_right then Some (butlast before @ prev\<lparr>pages := pages prev + (n + pages cur)\<rparr> # tl after)
         else if merged_left then Some (butlast before @ prev\<lparr>pages := pages prev + n\<rparr> # after)
         else if merged_right then Some (before @ cur\<lparr>start_addr := start, pages := pages cur + n\<rparr> # tl after)
         else if mem then Some (before @ \<lparr>start_addr = start, pages = n\<rparr> # after)
         else None)"

section \<open>The free addresses\<close>

definition end_of :: "virt_range \<Rightarrow> nat" where
  "end_of r = start_addr r + pages r * PAGE"

definition range_set :: "virt_range \<Rightarrow> nat set" where
  "range_set r = {start_addr r ..< end_of r}"

definition free_set :: "virt_range list \<Rightarrow> nat set" where
  "free_set rs = (\<Union>r \<in> set rs. range_set r)"

lemma free_set_simps [simp]: "free_set [] = {}" "free_set (r # rs) = range_set r \<union> free_set rs" "free_set (rs @ qs) = free_set rs \<union> free_set qs"
  by (auto simp: free_set_def)

text \<open>Ranges are in order, and there is a gap between any two: otherwise they would have been merged.\<close>

definition range_ok :: "virt_range \<Rightarrow> bool" where
  "range_ok r \<longleftrightarrow> 0 < start_addr r \<and> PAGE dvd start_addr r \<and> 0 < pages r \<and> end_of r \<le> WORDS"

definition arena_ok :: "virt_range list \<Rightarrow> bool" where
  "arena_ok rs \<longleftrightarrow> list_all range_ok rs \<and> sorted_wrt (\<lambda>r q. end_of r < start_addr q) rs"

lemma arena_ok_simps [simp]:
  "arena_ok []" "arena_ok (r # rs) \<longleftrightarrow> range_ok r \<and> arena_ok rs \<and> (\<forall>q \<in> set rs. end_of r < start_addr q)"
  "arena_ok (rs @ qs) \<longleftrightarrow> arena_ok rs \<and> arena_ok qs \<and> (\<forall>r \<in> set rs. \<forall>q \<in> set qs. end_of r < start_addr q)"
  by (auto simp: arena_ok_def sorted_wrt_append)

lemma range_ok_less: "range_ok r \<Longrightarrow> start_addr r < end_of r"
  by (simp add: range_ok_def end_of_def)

lemma arena_member: "\<lbrakk>arena_ok rs; r \<in> set rs\<rbrakk> \<Longrightarrow> range_ok r"
  by (auto simp: arena_ok_def list_all_iff)

text \<open>The list is determined by the addresses in it.\<close>

lemma arena_unique: "\<lbrakk>arena_ok rs; arena_ok qs; free_set rs = free_set qs\<rbrakk> \<Longrightarrow> rs = qs"
proof (induction rs arbitrary: qs)
  case Nil
  then show ?case
  proof (cases qs)
    case (Cons q qs')
    then have "start_addr q \<in> free_set qs" using Nil.prems range_ok_less by (simp add: range_set_def)
    then show ?thesis using Nil.prems by simp
  qed simp
next
  case (Cons r rs)
  have least: "start_addr x \<le> a" if "arena_ok (x # xs)" "a \<in> free_set (x # xs)" for x xs a
    using that range_ok_less [of x] by (auto simp: free_set_def range_set_def)
  have out: "end_of x \<notin> free_set (x # xs)" if "arena_ok (x # xs)" for x xs
    using that by (fastforce simp: free_set_def range_set_def)
  have r: "start_addr r \<in> free_set (r # rs)" using Cons.prems(1) range_ok_less by (simp add: range_set_def)
  then obtain q qs' where qs: "qs = q # qs'" using Cons.prems(3) by (cases qs) auto
  have q: "start_addr q \<in> free_set qs" using Cons.prems(2) range_ok_less by (simp add: range_set_def qs)
  have s: "start_addr r = start_addr q"
    using least [OF Cons.prems(1)] least [of q qs'] Cons.prems(2,3) r q qs by (metis le_antisym)
  have "\<not> end_of r < end_of q" 
  proof
    assume "end_of r < end_of q"
    then have "end_of r \<in> free_set qs" using s range_ok_less [of r] Cons.prems(1) by (simp add: qs range_set_def)
    then show False using out [OF Cons.prems(1)] unfolding Cons.prems(3) by blast
  qed
  moreover have "\<not> end_of q < end_of r"
  proof
    assume "end_of q < end_of r"
    then have "end_of q \<in> free_set (r # rs)" using s range_ok_less [of q] Cons.prems(2) by (simp add: qs range_set_def)
    moreover have "end_of q \<notin> free_set (r # rs)" unfolding Cons.prems(3) qs by (rule out) (use Cons.prems(2) qs in simp)
    ultimately show False by blast
  qed
  ultimately have e: "r = q" using s by (simp add: end_of_def)
  have rest: "free_set xs = free_set (x # xs) - range_set x" if "arena_ok (x # xs)" for x xs
    using that range_ok_less [of x] by (fastforce simp: free_set_def range_set_def)
  have "free_set rs = free_set qs'" using rest [OF Cons.prems(1)] rest [of q qs'] Cons.prems(2,3) e by (simp add: qs)
  then show ?case using Cons.IH Cons.prems(1,2) e by (simp add: qs)
qed

section \<open>Taking a range\<close>

lemma take_range_ok:
  "\<lbrakk>arena_ok rs; 0 < n\<rbrakk> \<Longrightarrow> case take_range n rs of
     None \<Rightarrow> \<forall>r \<in> set rs. pages r < n
   | Some (a, rs') \<Rightarrow> arena_ok rs' \<and> 0 < a \<and> PAGE dvd a \<and> a + n * PAGE \<le> WORDS \<and> {a ..< a + n * PAGE} \<subseteq> free_set rs \<and>
       free_set rs' = free_set rs - {a ..< a + n * PAGE} \<and> (\<forall>q \<in> set rs'. \<exists>r \<in> set rs. start_addr r \<le> start_addr q)"
proof (induction rs)
  case (Cons r rs)
  have r: "range_ok r" "0 < start_addr r" "PAGE dvd start_addr r" "end_of r \<le> WORDS" "arena_ok rs" using Cons.prems(1) by (auto simp: range_ok_def)
  have apart: "range_set r \<inter> free_set rs = {}" using Cons.prems(1) by (fastforce simp: free_set_def range_set_def)
  consider "pages r < n" | "pages r = n" | "n < pages r" by linarith
  then show ?case
  proof cases
    case 1
    show ?thesis
    proof (cases "take_range n rs")
      case None
      then show ?thesis using Cons 1 by simp
    next
      case (Some p)
      obtain a rs' where p: "p = (a, rs')" by (cases p)
      have ih: "arena_ok rs'" "0 < a" "PAGE dvd a" "a + n * PAGE \<le> WORDS" "{a ..< a + n * PAGE} \<subseteq> free_set rs"
        "free_set rs' = free_set rs - {a ..< a + n * PAGE}" "\<forall>q \<in> set rs'. \<exists>r \<in> set rs. start_addr r \<le> start_addr q"
        using Cons.IH [OF r(5) Cons.prems(2)] unfolding Some p by auto
      have "\<forall>q \<in> set rs'. end_of r < start_addr q" using ih(7) Cons.prems(1) by (meson arena_ok_simps(2) less_le_trans)
      moreover have "range_set r \<inter> {a ..< a + n * PAGE} = {}" using apart ih(5) by blast
      ultimately show ?thesis using ih r(1) 1 Some p by auto
    qed
  next
    case 2
    then have "range_set r = {start_addr r ..< start_addr r + n * PAGE}" by (simp add: range_set_def end_of_def)
    then show ?thesis using 2 r apart by (auto simp: end_of_def)
  next
    case 3
    let ?q = "r\<lparr>start_addr := start_addr r + n * PAGE, pages := pages r - n\<rparr>"
    have "start_addr r + n * PAGE < end_of r" using 3 by (simp add: end_of_def)
    then have w: "(start_addr r + n * PAGE) mod WORDS = start_addr r + n * PAGE" using r(4) by simp
    have e: "end_of ?q = end_of r" using 3 by (simp add: end_of_def diff_mult_distrib)
    have "range_ok ?q" using r 3 e by (simp add: range_ok_def)
    moreover have "range_set r = {start_addr r ..< start_addr r + n * PAGE} \<union> range_set ?q" "{start_addr r ..< start_addr r + n * PAGE} \<inter> range_set ?q = {}"
      using \<open>start_addr r + n * PAGE < end_of r\<close> e by (auto simp: range_set_def)
    moreover have "take_range n (r # rs) = Some (start_addr r, ?q # rs)" using 3 w by simp
    ultimately show ?thesis using r e apart Cons.prems(1) \<open>start_addr r + n * PAGE < end_of r\<close> by auto
  qed
qed simp

section \<open>Giving a range back\<close>

text \<open>The four cases, with the list split where the range belongs.\<close>

lemma join_ok:
  assumes ok: "arena_ok (bs @ cs)" and s: "PAGE dvd s" "0 < s" "0 < n" "s + n * PAGE \<le> WORDS"
    and below: "\<forall>r \<in> set bs. end_of r < s" and above: "\<forall>r \<in> set cs. s + n * PAGE < start_addr r"
  shows "arena_ok (bs @ \<lparr>start_addr = s, pages = n\<rparr> # cs)"
    "free_set (bs @ \<lparr>start_addr = s, pages = n\<rparr> # cs) = free_set (bs @ cs) \<union> {s ..< s + n * PAGE}"
proof -
  show "arena_ok (bs @ \<lparr>start_addr = s, pages = n\<rparr> # cs)" using ok s below above by (simp add: range_ok_def end_of_def)
  show "free_set (bs @ \<lparr>start_addr = s, pages = n\<rparr> # cs) = free_set (bs @ cs) \<union> {s ..< s + n * PAGE}"
    by (auto simp: range_set_def end_of_def)
qed

lemma FreeVirtEx_ok:
  assumes ok: "arena_ok va" and s: "PAGE dvd s" "0 < s" "0 < page_count bytes" "s + page_count bytes * PAGE \<le> WORDS"
    and used: "{s ..< s + page_count bytes * PAGE} \<inter> free_set va = {}"
  shows "\<exists>va'. FreeVirtEx True s bytes va = Some va' \<and> arena_ok va' \<and> free_set va' = free_set va \<union> {s ..< s + page_count bytes * PAGE}"
proof -
  define n where "n = page_count bytes"
  define e where "e = s + n * PAGE"
  define bs where "bs = takeWhile (\<lambda>r. start_addr r < s) va"
  define cs where "cs = dropWhile (\<lambda>r. start_addr r < s) va"
  have va: "va = bs @ cs" by (simp add: bs_def cs_def)
  have n: "0 < n" "s + n * PAGE \<le> WORDS" "s < e" "e \<le> WORDS" using s(3,4) by (simp_all add: n_def e_def)
  have okb: "arena_ok bs" "arena_ok cs" "\<forall>r \<in> set bs. \<forall>q \<in> set cs. end_of r < start_addr q" using ok by (simp_all add: va)
  have b: "end_of r \<le> s" if "r \<in> set bs" for r
  proof (rule ccontr)
    assume "\<not> end_of r \<le> s"
    moreover have "start_addr r < s" using that by (auto simp: bs_def dest: set_takeWhileD)
    ultimately have "s \<in> range_set r" by (simp add: range_set_def)
    then have "s \<in> free_set va" using that by (auto simp: va free_set_def)
    moreover have "s \<in> {s ..< s + page_count bytes * PAGE}" using \<open>0 < page_count bytes\<close> by simp
    ultimately show False using used by blast
  qed
  have c: "e \<le> start_addr r" if m: "r \<in> set cs" for r
  proof (rule ccontr)
    assume "\<not> e \<le> start_addr r"
    moreover have "s \<le> start_addr r"
    proof -
      obtain q qs where q: "cs = q # qs" using m by (cases cs) auto
      then have "s \<le> start_addr q" using hd_dropWhile [of "\<lambda>r. start_addr r < s" va] by (auto simp: cs_def)
      moreover have "start_addr q \<le> start_addr r" using okb(2) m range_ok_less [of q] by (fastforce simp: q)
      ultimately show ?thesis by simp
    qed
    ultimately have "start_addr r \<in> {s ..< s + page_count bytes * PAGE}" by (simp add: e_def n_def)
    moreover have "start_addr r \<in> free_set va" using m range_ok_less [OF arena_member [OF okb(2) m]] by (auto simp: va free_set_def range_set_def)
    ultimately show False using used by blast
  qed
  have start: "0 < start_addr r" "start_addr r < WORDS" if "r \<in> set va" for r
    using arena_member [OF ok that] range_ok_less [of r] by (auto simp: range_ok_def)
  have left: "bs \<noteq> [] \<Longrightarrow> (start_addr (last bs) + pages (last bs) * PAGE) mod WORDS = end_of (last bs)"
    using b [of "last bs"] n by (simp add: end_of_def [symmetric])
  have right: "cs \<noteq> [] \<Longrightarrow> (s + n * PAGE) mod WORDS = start_addr (hd cs) \<longleftrightarrow> e = start_addr (hd cs)"
    using c [of "hd cs"] start [of "hd cs"] by (simp add: e_def va)
  have run: "FreeVirtEx True s bytes va =
    (if (bs \<noteq> [] \<and> end_of (last bs) = s) \<and> (cs \<noteq> [] \<and> e = start_addr (hd cs)) then Some (butlast bs @ (last bs)\<lparr>pages := pages (last bs) + (n + pages (hd cs))\<rparr> # tl cs)
     else if bs \<noteq> [] \<and> end_of (last bs) = s then Some (butlast bs @ (last bs)\<lparr>pages := pages (last bs) + n\<rparr> # cs)
     else if cs \<noteq> [] \<and> e = start_addr (hd cs) then Some (bs @ (hd cs)\<lparr>start_addr := s, pages := pages (hd cs) + n\<rparr> # tl cs)
     else Some (bs @ \<lparr>start_addr = s, pages = n\<rparr> # cs))"
    unfolding FreeVirtEx_def Let_def bs_def [symmetric] cs_def [symmetric] n_def [symmetric]
    using left right by (simp cong: conj_cong if_cong)
  have lb: "end_of r < s" if r: "r \<in> set bs" "end_of (last bs) \<noteq> s" for r
  proof (cases "r = last bs")
    case True
    then show ?thesis using b [OF r(1)] r(2) by simp
  next
    case False
    then have "bs = butlast bs @ [last bs]" "r \<in> set (butlast bs)" using r(1) by (cases bs rule: rev_cases; auto)+
    then have "end_of r < start_addr (last bs)" using okb(1) by (metis arena_ok_simps(3) list.set_intros(1))
    moreover have "last bs \<in> set bs" using r(1) by (cases bs rule: rev_cases) auto
    then have "start_addr (last bs) < s" unfolding bs_def by (rule set_takeWhileD [THEN conjunct2])
    ultimately show ?thesis by simp
  qed
  have fb: "e < start_addr r" if r: "r \<in> set cs" "e \<noteq> start_addr (hd cs)" for r
  proof (cases "r = hd cs")
    case True
    then show ?thesis using c [OF r(1)] r(2) by simp
  next
    case False
    then obtain q qs where q: "cs = q # qs" "r \<in> set qs" using r(1) by (cases cs) auto
    then have "end_of q < start_addr r" "start_addr q < end_of q" using okb(2) range_ok_less by auto
    then show ?thesis using c [of q] q(1) by simp
  qed
  consider (none) "bs = [] \<or> end_of (last bs) \<noteq> s" "cs = [] \<or> e \<noteq> start_addr (hd cs)"
    | (left) ps p where "bs = ps @ [p]" "end_of p = s" "cs = [] \<or> e \<noteq> start_addr (hd cs)"
    | (right) q qs where "bs = [] \<or> end_of (last bs) \<noteq> s" "cs = q # qs" "e = start_addr q"
    | (both) ps p q qs where "bs = ps @ [p]" "end_of p = s" "cs = q # qs" "e = start_addr q"
    by (cases bs rule: rev_cases; cases cs; force)
  then have "\<exists>va'. FreeVirtEx True s bytes va = Some va' \<and> arena_ok va' \<and> free_set va' = free_set va \<union> {s ..< s + n * PAGE}"
  proof cases
    case none
    have "\<forall>r \<in> set bs. end_of r < s" "\<forall>r \<in> set cs. s + n * PAGE < start_addr r" using lb fb none by (auto simp: e_def)
    then show ?thesis using join_ok [of bs cs s n] ok s(1,2) n run none by (auto simp: va)
  next
    case left
    have p: "range_ok p" "\<forall>r \<in> set ps. end_of r < start_addr p" using okb(1) by (simp_all add: left)
    have "arena_ok (ps @ cs)" "\<forall>r \<in> set cs. e < start_addr r" using ok fb left(3) by (auto simp: va left(1))
    moreover have "end_of p = start_addr p + pages p * PAGE" by (simp add: end_of_def)
    moreover from this have "start_addr p + (pages p + n) * PAGE = e" using left(2) by (simp add: e_def distrib_right)
    ultimately have "arena_ok (ps @ \<lparr>start_addr = start_addr p, pages = pages p + n\<rparr> # cs)"
      "free_set (ps @ \<lparr>start_addr = start_addr p, pages = pages p + n\<rparr> # cs) = free_set (ps @ cs) \<union> {start_addr p ..< e}"
      using join_ok [of ps cs "start_addr p" "pages p + n"] p n by (simp_all add: range_ok_def)
    moreover have "{start_addr p ..< e} = range_set p \<union> {s ..< s + n * PAGE}" using left(2) n(3) range_ok_less [OF p(1)] by (auto simp: range_set_def e_def)
    moreover have "p\<lparr>pages := pages p + n\<rparr> = \<lparr>start_addr = start_addr p, pages = pages p + n\<rparr>" by simp
    then have "FreeVirtEx True s bytes va = Some (ps @ \<lparr>start_addr = start_addr p, pages = pages p + n\<rparr> # cs)" using run left by (auto simp: va)
    moreover have "free_set va = free_set (ps @ cs) \<union> range_set p" by (auto simp: va left(1))
    ultimately show ?thesis by (intro exI [of _ "ps @ \<lparr>start_addr = start_addr p, pages = pages p + n\<rparr> # cs"]) (simp only: Un_assoc Un_commute Un_left_commute simp_thms; blast)
  next
    case right
    have q: "range_ok q" "\<forall>r \<in> set qs. end_of q < start_addr r" using okb(2) by (simp_all add: right)
    have "arena_ok (bs @ qs)" "\<forall>r \<in> set bs. end_of r < s" using ok lb right(1) by (auto simp: va right(2))
    moreover have "s + (pages q + n) * PAGE = end_of q" using right(3) by (simp add: e_def end_of_def distrib_right)
    ultimately have "arena_ok (bs @ \<lparr>start_addr = s, pages = pages q + n\<rparr> # qs)"
      "free_set (bs @ \<lparr>start_addr = s, pages = pages q + n\<rparr> # qs) = free_set (bs @ qs) \<union> {s ..< end_of q}"
      using join_ok [of bs qs s "pages q + n"] q n s(1,2) by (simp_all add: range_ok_def)
    moreover have "{s ..< end_of q} = range_set q \<union> {s ..< s + n * PAGE}" using right(3) n(3) range_ok_less [OF q(1)] by (auto simp: range_set_def e_def)
    moreover have "q\<lparr>start_addr := s, pages := pages q + n\<rparr> = \<lparr>start_addr = s, pages = pages q + n\<rparr>" by simp
    then have "FreeVirtEx True s bytes va = Some (bs @ \<lparr>start_addr = s, pages = pages q + n\<rparr> # qs)" using run right by auto
    moreover have "free_set va = free_set (bs @ qs) \<union> range_set q" by (auto simp: va right(2))
    ultimately show ?thesis by (intro exI [of _ "bs @ \<lparr>start_addr = s, pages = pages q + n\<rparr> # qs"]) (simp only: Un_assoc Un_commute Un_left_commute simp_thms; blast)
  next
    case both
    have p: "range_ok p" "\<forall>r \<in> set ps. end_of r < start_addr p" using okb(1) by (simp_all add: both)
    have q: "range_ok q" "\<forall>r \<in> set qs. end_of q < start_addr r" using okb(2) by (simp_all add: both)
    have "arena_ok (ps @ qs)" using ok by (simp add: va both)
    moreover have e: "start_addr p + (pages p + (n + pages q)) * PAGE = end_of q" using both(2,4) by (simp add: e_def end_of_def distrib_right)
    ultimately have "arena_ok (ps @ \<lparr>start_addr = start_addr p, pages = pages p + (n + pages q)\<rparr> # qs)"
      "free_set (ps @ \<lparr>start_addr = start_addr p, pages = pages p + (n + pages q)\<rparr> # qs) = free_set (ps @ qs) \<union> {start_addr p ..< end_of q}"
      using join_ok [of ps qs "start_addr p" "pages p + (n + pages q)"] p q n by (simp_all add: range_ok_def)
    moreover have "{start_addr p ..< end_of q} = range_set p \<union> range_set q \<union> {s ..< s + n * PAGE}"
      using both(2,4) n(3) range_ok_less [OF p(1)] range_ok_less [OF q(1)] by (auto simp: range_set_def e_def)
    moreover have "p\<lparr>pages := pages p + (n + pages q)\<rparr> = \<lparr>start_addr = start_addr p, pages = pages p + (n + pages q)\<rparr>" by simp
    then have "FreeVirtEx True s bytes va = Some (ps @ \<lparr>start_addr = start_addr p, pages = pages p + (n + pages q)\<rparr> # qs)" using run both by simp
    moreover have "free_set va = free_set (ps @ qs) \<union> range_set p \<union> range_set q" by (auto simp: va both(1,3))
    ultimately show ?thesis by (intro exI [of _ "ps @ \<lparr>start_addr = start_addr p, pages = pages p + (n + pages q)\<rparr> # qs"]) (simp only: Un_assoc Un_commute Un_left_commute simp_thms; blast)
  qed
  then show ?thesis by (simp add: n_def)
qed

section \<open>Properties\<close>

lemma AllocVirtEx_ok:
  assumes "arena_ok va" "0 < page_count bytes"
  shows "case AllocVirtEx bytes va of (a, va') \<Rightarrow>
    if a = 0 then va' = va \<and> (\<forall>r \<in> set va. pages r < page_count bytes)
    else arena_ok va' \<and> PAGE dvd a \<and> {a ..< a + page_count bytes * PAGE} \<subseteq> free_set va \<and>
      free_set va' = free_set va - {a ..< a + page_count bytes * PAGE}"
  using take_range_ok [OF assms] by (auto simp: AllocVirtEx_def split: option.splits)

text \<open>
  C19. The operations are those on a set of free addresses. Taking a range removes exactly that many pages, beginning at a page, and
  fails only if no range is large enough; giving back a range that is not free adds exactly it, and ranges that meet become one.
\<close>

theorem arena_refines_set:
  assumes "arena_ok va" "0 < page_count bytes"
  shows "(case AllocVirtEx bytes va of (a, va') \<Rightarrow>
      if a = 0 then va' = va \<and> (\<forall>r \<in> set va. pages r < page_count bytes)
      else arena_ok va' \<and> PAGE dvd a \<and> {a ..< a + page_count bytes * PAGE} \<subseteq> free_set va \<and>
        free_set va' = free_set va - {a ..< a + page_count bytes * PAGE}) \<and>
    (\<forall>s. PAGE dvd s \<longrightarrow> 0 < s \<longrightarrow> s + page_count bytes * PAGE \<le> WORDS \<longrightarrow> {s ..< s + page_count bytes * PAGE} \<inter> free_set va = {} \<longrightarrow>
      (\<exists>va'. FreeVirtEx True s bytes va = Some va' \<and> arena_ok va' \<and> free_set va' = free_set va \<union> {s ..< s + page_count bytes * PAGE}))"
  using AllocVirtEx_ok [OF assms] FreeVirtEx_ok [OF assms(1) _ _ assms(2)] by (intro conjI) blast+

theorem arena_refines_set_witness:
  "free_set (snd (AllocVirtEx 5000 [\<lparr>start_addr = 4096, pages = 1\<rparr>, \<lparr>start_addr = 16384, pages = 9\<rparr>])) =
     free_set [\<lparr>start_addr = 4096, pages = 1\<rparr>, \<lparr>start_addr = 16384, pages = 9\<rparr>] - {16384 ..< 24576}"
proof -
  let ?va = "[\<lparr>start_addr = 4096, pages = 1\<rparr>, \<lparr>start_addr = 16384, pages = 9\<rparr>]" and ?va' = "[\<lparr>start_addr = 4096, pages = 1\<rparr>, \<lparr>start_addr = 24576, pages = 7\<rparr>]"
  have n: "page_count 5000 = 2" by (simp add: page_count_def)
  then have "AllocVirtEx 5000 ?va = (16384, ?va')" by (simp add: AllocVirtEx_def)
  moreover have "arena_ok ?va" by (simp add: range_ok_def end_of_def)
  ultimately show ?thesis using conjunct1 [OF arena_refines_set [of ?va 5000]] n by simp
qed

text \<open>
  A range that is given back after it was taken leaves the list as it was, with the same nodes.
\<close>

lemma FreeVirtEx_undoes:
  assumes "arena_ok va" "0 < page_count bytes" "AllocVirtEx bytes va = (a, va')" "a \<noteq> 0"
  shows "FreeVirtEx True a bytes va' = Some va"
proof -
  obtain "take_range (page_count bytes) va = Some (a, va')" using assms(3,4) by (auto simp: AllocVirtEx_def split: option.splits)
  then have t: "arena_ok va'" "0 < a" "PAGE dvd a" "a + page_count bytes * PAGE \<le> WORDS" "{a ..< a + page_count bytes * PAGE} \<subseteq> free_set va"
    "free_set va' = free_set va - {a ..< a + page_count bytes * PAGE}" using take_range_ok [OF assms(1,2)] by auto
  have "{a ..< a + page_count bytes * PAGE} \<inter> free_set va' = {}" using t(6) by blast
  from FreeVirtEx_ok [OF t(1,3,2) assms(2) t(4) this] obtain va'' where v: "FreeVirtEx True a bytes va' = Some va''" "arena_ok va''"
    "free_set va'' = free_set va' \<union> {a ..< a + page_count bytes * PAGE}" by blast
  have "free_set va'' = free_set va" using v(3) t(5,6) by blast
  then show ?thesis using arena_unique [OF v(2) assms(1)] v(1) by simp
qed

lemma FreeVirtEx_undoes_witness:
  "FreeVirtEx True 16384 5000 [\<lparr>start_addr = 4096, pages = 1\<rparr>, \<lparr>start_addr = 24576, pages = 7\<rparr>] =
    Some [\<lparr>start_addr = 4096, pages = 1\<rparr>, \<lparr>start_addr = 16384, pages = 9\<rparr>]"
  by (rule FreeVirtEx_undoes) (simp_all add: page_count_def AllocVirtEx_def range_ok_def end_of_def)

text \<open>Sizes that wrap in the rounding ask for no page at all, and get the address of the first free range, which stays free.\<close>

lemma AllocVirtEx_huge: "AllocVirtEx (2 ^ 32 - 1) [\<lparr>start_addr = 4096, pages = 1\<rparr>] = (4096, [\<lparr>start_addr = 4096, pages = 1\<rparr>])"
  by (simp add: AllocVirtEx_def page_count_def)

end
