(* ===== verification/Vfs.thy ===== *)
theory Vfs
  imports Prelude
begin

unbundle bit_operations_syntax

text \<open>
  Mounted filesystems, paths, vnodes and open files (\<^verbatim>\<open>kernel/vfs/vfs.c\<close>, \<^verbatim>\<open>vnode.c\<close>,
  \<^verbatim>\<open>file.c\<close>). The operations of a filesystem are pointers in each vnode; here they are a parameter \<open>ops\<close>.
  \<open>None\<close> is a wild or uninitialised pointer, or a heap pointer freed that was never allocated. The lock of the list of
  mounts is not modelled.
\<close>

section \<open>State\<close>

type_synonym name = "u8 list"

record vnode_state =
  vrefs :: nat
  st_mode :: u32
  st_nlink :: nat
  vflags :: u32

record open_file =
  frefs :: nat
  node :: nat
  can_read :: bool
  can_write :: bool
  initial_mode :: u32
  fflags :: u32
  seek_position :: nat

text \<open>\<open>fs\<close> is the state of the filesystems. A mount is a file and its name; the latest is the first.\<close>

record 'fs vfs =
  mounted_file_list :: "(nat \<times> name) list"
  files :: "nat \<Rightarrow> open_file option"
  vnodes :: "nat \<Rightarrow> vnode_state option"
  fs :: 'fs

record 'fs vnode_operations =
  check_open :: "(nat \<Rightarrow> u32 \<Rightarrow> 'fs vfs \<Rightarrow> errno option \<times> 'fs vfs) option"
  truncate_op :: "(nat \<Rightarrow> nat \<Rightarrow> 'fs vfs \<Rightarrow> errno option \<times> 'fs vfs) option"
  create :: "(nat \<Rightarrow> name \<Rightarrow> u32 \<Rightarrow> u32 \<Rightarrow> 'fs vfs \<Rightarrow> (errno + nat) \<times> 'fs vfs) option"
  follow :: "(nat \<Rightarrow> name \<Rightarrow> 'fs vfs \<Rightarrow> (errno + nat) \<times> 'fs vfs) option"
  unlink :: "(nat \<Rightarrow> 'fs vfs \<Rightarrow> errno option \<times> 'fs vfs) option"
  delete :: "(nat \<Rightarrow> 'fs vfs \<Rightarrow> 'fs vfs) option"
  cleanup :: "(nat \<Rightarrow> 'fs vfs \<Rightarrow> 'fs vfs) option"

type_synonym 'fs operations = "nat \<Rightarrow> 'fs vnode_operations"

abbreviation (input) O_WRONLY :: u32 where "O_WRONLY \<equiv> 1"
abbreviation (input) O_RDONLY :: u32 where "O_RDONLY \<equiv> 0"
abbreviation (input) O_ACCMODE :: u32 where "O_ACCMODE \<equiv> 3"
abbreviation (input) O_CREAT :: u32 where "O_CREAT \<equiv> 4"
abbreviation (input) O_EXCL :: u32 where "O_EXCL \<equiv> 8"
abbreviation (input) O_TRUNC :: u32 where "O_TRUNC \<equiv> 32"
abbreviation (input) O_APPEND :: u32 where "O_APPEND \<equiv> 64"
abbreviation (input) O_NONBLOCK :: u32 where "O_NONBLOCK \<equiv> 128"
abbreviation (input) O_CLOEXEC :: u32 where "O_CLOEXEC \<equiv> 256"
abbreviation (input) DT_REG :: u32 where "DT_REG \<equiv> 4"
abbreviation (input) DT_DIR :: u32 where "DT_DIR \<equiv> 5"

definition IFTODT :: "u32 \<Rightarrow> u32" where "IFTODT x = drop_bit 15 x"

abbreviation (input) MAX_COMPONENT_LENGTH :: nat where "MAX_COMPONENT_LENGTH \<equiv> 128"
abbreviation (input) MAX_PATH_LENGTH :: nat where "MAX_PATH_LENGTH \<equiv> 2000"
abbreviation (input) SLASH :: u8 where "SLASH \<equiv> 47"
abbreviation (input) BACKSLASH :: u8 where "BACKSLASH \<equiv> 92"
abbreviation (input) COLON :: u8 where "COLON \<equiv> 58"
abbreviation (input) DOT :: u8 where "DOT \<equiv> 46"

section \<open>Vnodes and files\<close>

definition RefNode :: "nat \<Rightarrow> 'fs vfs \<Rightarrow> 'fs vfs option" where
  "RefNode n s = do { v \<leftarrow> vnodes s n; Some (s\<lparr>vnodes := (vnodes s)(n \<mapsto> v\<lparr>vrefs := vrefs v + 1\<rparr>)\<rparr>) }"

definition CleanupVnode :: "'fs operations \<Rightarrow> nat \<Rightarrow> vnode_state \<Rightarrow> 'fs vfs \<Rightarrow> 'fs vfs" where
  "CleanupVnode ops n v s =
     (let s = (case delete (ops n) of Some f \<Rightarrow> if st_nlink v = 0 then f n s else s | None \<Rightarrow> s);
          s = (case cleanup (ops n) of Some f \<Rightarrow> f n s | None \<Rightarrow> s)
      in s\<lparr>vnodes := (vnodes s)(n := None)\<rparr>)"

definition DerefNode :: "'fs operations \<Rightarrow> nat \<Rightarrow> 'fs vfs \<Rightarrow> 'fs vfs option" where
  "DerefNode ops n s =
     do { v \<leftarrow> vnodes s n;
          let v = v\<lparr>vrefs := vrefs v - 1\<rparr>;
          let s = s\<lparr>vnodes := (vnodes s)(n \<mapsto> v)\<rparr>;
          if vrefs v = 0 then Some (CleanupVnode ops n v s) else Some s }"

definition VnodeCheckOpen :: "'fs operations \<Rightarrow> nat \<Rightarrow> u32 \<Rightarrow> 'fs vfs \<Rightarrow> errno option \<times> 'fs vfs" where
  "VnodeCheckOpen ops n flags s = (case check_open (ops n) of None \<Rightarrow> (None, s) | Some f \<Rightarrow> f n flags s)"

definition VnodeTruncate :: "'fs operations \<Rightarrow> nat \<Rightarrow> nat \<Rightarrow> 'fs vfs \<Rightarrow> errno option \<times> 'fs vfs" where
  "VnodeTruncate ops n offset s = (case truncate_op (ops n) of None \<Rightarrow> (Some EINVAL, s) | Some f \<Rightarrow> f n offset s)"

definition VnodeCreate :: "'fs operations \<Rightarrow> nat \<Rightarrow> name \<Rightarrow> u32 \<Rightarrow> u32 \<Rightarrow> 'fs vfs \<Rightarrow> (errno + nat) \<times> 'fs vfs" where
  "VnodeCreate ops n name flags mode s = (case create (ops n) of None \<Rightarrow> (Inl EINVAL, s) | Some f \<Rightarrow> f n name flags mode s)"

definition VnodeFollow :: "'fs operations \<Rightarrow> nat \<Rightarrow> name \<Rightarrow> 'fs vfs \<Rightarrow> (errno + nat) \<times> 'fs vfs" where
  "VnodeFollow ops n name s = (case follow (ops n) of None \<Rightarrow> (Inl ENOTDIR, s) | Some f \<Rightarrow> f n name s)"

definition VnodeUnlink :: "'fs operations \<Rightarrow> nat \<Rightarrow> 'fs vfs \<Rightarrow> errno option \<times> 'fs vfs" where
  "VnodeUnlink ops n s = (case unlink (ops n) of None \<Rightarrow> (Some EINVAL, s) | Some f \<Rightarrow> f n s)"

definition VnodeDirentType :: "nat \<Rightarrow> 'fs vfs \<Rightarrow> u32 option" where
  "VnodeDirentType n s = do { v \<leftarrow> vnodes s n; Some (IFTODT (st_mode v)) }"

text \<open>\<open>mem\<close> is what \<open>AllocHeap\<close> returns: the address of a file, or \<open>None\<close>.\<close>

definition CreateFile :: "nat option \<Rightarrow> nat \<Rightarrow> u32 \<Rightarrow> u32 \<Rightarrow> bool \<Rightarrow> bool \<Rightarrow> 'fs vfs \<Rightarrow> (nat option \<times> 'fs vfs) option" where
  "CreateFile mem n mode flags cr cw s =
     (case mem of
        None \<Rightarrow> Some (None, s)
      | Some f \<Rightarrow>
          do { s \<leftarrow> RefNode n s;
               Some (Some f, s\<lparr>files := (files s)(f \<mapsto> \<lparr>frefs = 1, node = n, can_read = cr, can_write = cw, initial_mode = mode,
                 fflags = flags, seek_position = 0\<rparr>)\<rparr>) })"

definition RefFile :: "nat \<Rightarrow> 'fs vfs \<Rightarrow> 'fs vfs option" where
  "RefFile f s = do { x \<leftarrow> files s f; Some (s\<lparr>files := (files s)(f \<mapsto> x\<lparr>frefs := frefs x + 1\<rparr>)\<rparr>) }"

definition CleanupFile :: "'fs operations \<Rightarrow> nat \<Rightarrow> open_file \<Rightarrow> 'fs vfs \<Rightarrow> 'fs vfs option" where
  "CleanupFile ops f x s = do { s \<leftarrow> DerefNode ops (node x) s; Some (s\<lparr>files := (files s)(f := None)\<rparr>) }"

definition DerefFile :: "'fs operations \<Rightarrow> nat \<Rightarrow> 'fs vfs \<Rightarrow> 'fs vfs option" where
  "DerefFile ops f s =
     do { x \<leftarrow> files s f;
          let x = x\<lparr>frefs := frefs x - 1\<rparr>;
          let s = s\<lparr>files := (files s)(f \<mapsto> x)\<rparr>;
          if frefs x = 0 then CleanupFile ops f x s else Some s }"

section \<open>Paths\<close>

definition IsRelative :: "u8 list \<Rightarrow> bool" where
  "IsRelative path \<longleftrightarrow> COLON \<notin> set path"

definition CheckValidComponentName :: "u8 list \<Rightarrow> errno option" where
  "CheckValidComponentName name =
     (if name = [] then Some EINVAL
      else if \<exists>c \<in> set name. c = SLASH \<or> c = BACKSLASH \<or> c = COLON then Some EINVAL
      else None)"

text \<open>The part of the path that has not been read takes the place of the index; \<open>room\<close> is \<open>max_len - 1 - i\<close>.\<close>

fun copy_component :: "nat \<Rightarrow> u8 \<Rightarrow> u8 list \<Rightarrow> (errno + u8 list) \<times> u8 list" where
  "copy_component room delimiter [] = (Inr [], [])"
| "copy_component room delimiter (c # rest) =
     (if c = delimiter then (Inr [], c # rest)
      else
        (case room of
           0 \<Rightarrow> (Inl ENAMETOOLONG, c # rest)
         | Suc room \<Rightarrow> (case copy_component room delimiter rest of (out, rest) \<Rightarrow> (map_sum id (Cons c) out, rest))))"

fun skip_slashes :: "u8 list \<Rightarrow> u8 list" where
  "skip_slashes (c # rest) = (if c = SLASH then skip_slashes rest else c # rest)"
| "skip_slashes [] = []"

definition GetPathComponent :: "u8 list \<Rightarrow> nat \<Rightarrow> u8 \<Rightarrow> (errno + u8 list) \<times> u8 list" where
  "GetPathComponent path max_len delimiter =
     (case copy_component (max_len - 1) delimiter path of
        (Inl e, rest) \<Rightarrow> (Inl e, rest)
      | (Inr out, rest) \<Rightarrow>
          (case CheckValidComponentName out of Some e \<Rightarrow> Inl e | None \<Rightarrow> Inr out,
           case rest of [] \<Rightarrow> [] | _ # rest \<Rightarrow> skip_slashes rest))"

lemma copy_component_length: "length (snd (copy_component room d p)) \<le> length p"
  by (induction room d p rule: copy_component.induct) (auto split: nat.splits prod.splits)

lemma skip_slashes_length: "length (skip_slashes p) \<le> length p"
  by (induction p rule: skip_slashes.induct) auto

text \<open>A component that is returned has been taken off the path.\<close>

lemma copy_component_less: "copy_component room d p = (Inr (c # out), rest) \<Longrightarrow> length rest < length p"
proof (induction room d p arbitrary: c out rest rule: copy_component.induct)
  case (2 room d x p)
  then show ?case using copy_component_length by (auto split: if_splits nat.splits prod.splits) (metis snd_conv le_imp_less_Suc)
qed simp

lemma GetPathComponent_less: "GetPathComponent p m d = (Inr out, rest) \<Longrightarrow> length rest < length p"
proof -
  assume a: "GetPathComponent p m d = (Inr out, rest)"
  then obtain r where r: "copy_component (m - 1) d p = (Inr out, r)" "out \<noteq> []" "rest = (case r of [] \<Rightarrow> [] | _ # r \<Rightarrow> skip_slashes r)"
    by (auto simp: GetPathComponent_def CheckValidComponentName_def split: prod.splits sum.splits option.splits if_splits)
  then have "length r < length p" by (metis copy_component_less neq_Nil_conv)
  moreover have "length rest \<le> length r" using r(3) skip_slashes_length by (auto split: list.splits simp: le_SucI)
  ultimately show ?thesis by simp
qed

function final_component :: "u8 list \<Rightarrow> u8 list \<Rightarrow> nat \<Rightarrow> errno + u8 list" where
  "final_component path out max_len =
     (if path = [] then Inr out
      else
        (case GetPathComponent path max_len SLASH of
           (Inl e, rest) \<Rightarrow> Inl e
         | (Inr out, rest) \<Rightarrow> final_component rest out max_len))"
  by pat_completeness auto
termination
  by (relation "measure (\<lambda>(path, _, _). length path)") (auto dest: GetPathComponent_less [OF sym])

declare final_component.simps [simp del]

definition GetFinalPathComponent :: "u8 list \<Rightarrow> nat \<Rightarrow> errno + u8 list" where
  "GetFinalPathComponent path max_len =
     (if \<not> IsRelative path then
        (case GetPathComponent path max_len COLON of
           (Inl e, rest) \<Rightarrow> Inl e
         | (Inr out, rest) \<Rightarrow> final_component rest out max_len)
      else final_component path [] max_len)"

section \<open>Mounts\<close>

definition GetMountPointFromName :: "name \<Rightarrow> 'fs vfs \<Rightarrow> nat option" where
  "GetMountPointFromName name s = map_option fst (find (\<lambda>(f, n). n = name) (mounted_file_list s))"

text \<open>\<open>room\<close> is whether there is memory for the mount, \<open>mem\<close> what there is for its file.\<close>

definition Mount :: "bool \<Rightarrow> nat option \<Rightarrow> nat option \<Rightarrow> name option \<Rightarrow> 'fs vfs \<Rightarrow> (errno option \<times> 'fs vfs) option" where
  "Mount room mem vnode name s =
     (case (name, vnode) of
        (Some name, Some n) \<Rightarrow>
          if MAX_COMPONENT_LENGTH \<le> length name then Some (Some ENAMETOOLONG, s)
          else if CheckValidComponentName name \<noteq> None then Some (CheckValidComponentName name, s)
          else if GetMountPointFromName name s \<noteq> None then Some (Some EEXIST, s)
          else if \<not> room then Some (Some ENOMEM, s)
          else
            do { (f, s) \<leftarrow> CreateFile mem n 0 0 True True s;
                 f \<leftarrow> f;
                 RefFile f (s\<lparr>mounted_file_list := (f, name) # mounted_file_list s\<rparr>) \<bind> (\<lambda>s. Some (None, s)) }
      | _ \<Rightarrow> Some (Some EINVAL, s))"

fun unlink_mount :: "name \<Rightarrow> (nat \<times> name) list \<Rightarrow> (nat \<times> name) list" where
  "unlink_mount name [] = []"
| "unlink_mount name ((f, n) # ms) = (if n = name then ms else (f, n) # unlink_mount name ms)"

text \<open>
  The name is a part of the mount and not an allocation of its own, so that \<open>FreeHeap(actual->name)\<close> is never allowed;
  \<open>FreeHeap_interior\<close> is what it does.
\<close>

definition Unmount :: "('fs vfs \<Rightarrow> 'fs vfs option) \<Rightarrow> 'fs operations \<Rightarrow> name option \<Rightarrow> 'fs vfs \<Rightarrow> (errno option \<times> 'fs vfs) option" where
  "Unmount FreeHeap_interior ops name s =
     (case name of
        None \<Rightarrow> Some (Some EINVAL, s)
      | Some name \<Rightarrow>
          if CheckValidComponentName name \<noteq> None then Some (Some EINVAL, s)
          else
            (case GetMountPointFromName name s of
               None \<Rightarrow> Some (Some ENODEV, s)
             | Some f \<Rightarrow>
                 do { s \<leftarrow> DerefFile ops f s;
                      s \<leftarrow> FreeHeap_interior (s\<lparr>mounted_file_list := unlink_mount name (mounted_file_list s)\<rparr>);
                      Some (None, s) }))"

section \<open>Lookup\<close>

function walk_path :: "'fs operations \<Rightarrow> nat \<Rightarrow> u8 list \<Rightarrow> 'fs vfs \<Rightarrow> ((errno + nat) \<times> 'fs vfs) option" where
  "walk_path ops current path s =
     (if path = [] then Some (Inr current, s)
      else
        (case GetPathComponent path MAX_COMPONENT_LENGTH SLASH of
           (Inl e, rest) \<Rightarrow> do { s \<leftarrow> DerefNode ops current s; Some (Inl e, s) }
         | (Inr component, rest) \<Rightarrow>
             if component = [DOT] then walk_path ops current rest s
             else
               (case VnodeFollow ops current component s of
                  (Inl e, s) \<Rightarrow> do { s \<leftarrow> DerefNode ops current s; Some (Inl e, s) }
                | (Inr next, s) \<Rightarrow> walk_path ops next rest s)))"
  by pat_completeness auto
termination
  by (relation "measure (\<lambda>(_, _, path, _). length path)") (auto dest: GetPathComponent_less [OF sym])

declare walk_path.simps [simp del]

definition GetVnodeFromPath :: "'fs operations \<Rightarrow> u8 list \<Rightarrow> bool \<Rightarrow> 'fs vfs \<Rightarrow> ((errno + nat) \<times> 'fs vfs) option" where
  "GetVnodeFromPath ops path want_parent s =
     (if path = [] then Some (Inl EINVAL, s)
      else if MAX_PATH_LENGTH \<le> length path then Some (Inl ENAMETOOLONG, s)
      else if IsRelative path then Some (Inl ENODEV, s)
      else
        (case GetPathComponent path MAX_COMPONENT_LENGTH COLON of
           (Inl e, rest) \<Rightarrow> Some (Inl e, s)
         | (Inr component, rest) \<Rightarrow>
             (case GetMountPointFromName component s of
                None \<Rightarrow> Some (Inl ENODEV, s)
              | Some f \<Rightarrow>
                  do { x \<leftarrow> files s f;
                       s \<leftarrow> RefNode (node x) s;
                       (res, s) \<leftarrow> walk_path ops (node x) rest s;
                       case res of
                         Inl e \<Rightarrow> Some (Inl e, s)
                       | Inr current \<Rightarrow>
                           if want_parent then
                             (case VnodeFollow ops current [DOT, DOT] s of
                                (res, s) \<Rightarrow> do { s \<leftarrow> DerefNode ops current s; Some (res, s) })
                           else Some (Inr current, s) })))"

section \<open>Opening and removing\<close>

text \<open>A vnode that is opened with \<open>O_CREAT\<close>, or \<open>Inl\<close> with what \<open>OpenFile\<close> returns.\<close>

definition open_or_create :: "'fs operations \<Rightarrow> u8 list \<Rightarrow> u32 \<Rightarrow> u32 \<Rightarrow> errno + nat \<Rightarrow> 'fs vfs \<Rightarrow> ((errno + nat) \<times> 'fs vfs) option" where
  "open_or_create ops path flags mode status s =
     (if status = Inl ENOENT then
        do { (res, s) \<leftarrow> GetVnodeFromPath ops path True s;
             case res of
               Inl e \<Rightarrow> Some (Inl e, s)
             | Inr parent \<Rightarrow>
                 (case GetFinalPathComponent path MAX_COMPONENT_LENGTH of
                    Inl e \<Rightarrow> Some (Inl e, s)
                  | Inr name \<Rightarrow>
                      (case VnodeCreate ops parent name flags mode s of
                         (res, s) \<Rightarrow> do { s \<leftarrow> DerefNode ops parent s; Some (res, s) })) }
      else if flags AND O_EXCL \<noteq> 0 then Some (Inl EEXIST, s)
      else (case status of Inl e \<Rightarrow> None | Inr n \<Rightarrow> Some (Inr n, s)))"

definition finish_open :: "'fs operations \<Rightarrow> nat option \<Rightarrow> u32 \<Rightarrow> u32 \<Rightarrow> nat \<Rightarrow> 'fs vfs \<Rightarrow> ((errno + nat option) \<times> 'fs vfs) option" where
  "finish_open ops mem flags mode n s =
     (case VnodeCheckOpen ops n (flags AND (O_ACCMODE OR O_NONBLOCK)) s of
        (Some e, s) \<Rightarrow> do { s \<leftarrow> DerefNode ops n s; Some (Inl e, s) }
      | (None, s) \<Rightarrow>
          do { v \<leftarrow> vnodes s n;
               let cr = (flags AND O_ACCMODE \<noteq> O_WRONLY);
               let cw = (flags AND O_ACCMODE \<noteq> O_RDONLY);
               if IFTODT (st_mode v) = DT_DIR \<and> cw then do { s \<leftarrow> DerefNode ops n s; Some (Inl EISDIR, s) }
               else if flags AND O_TRUNC \<noteq> 0 \<and> IFTODT (st_mode v) = DT_REG then
                 (if cw then (case VnodeTruncate ops n 0 s of (Some e, s) \<Rightarrow> Some (Inl e, s) | (None, s) \<Rightarrow> Some (Inl ENOSYS, s))
                  else Some (Inl EINVAL, s))
               else
                 do { let s = s\<lparr>vnodes := (vnodes s)(n \<mapsto> v\<lparr>vflags := flags AND (O_NONBLOCK OR O_APPEND)\<rparr>)\<rparr>;
                      (f, s) \<leftarrow> CreateFile mem n mode (flags AND O_CLOEXEC) cr cw s;
                      Some (Inr f, s) } })"

definition OpenFile :: "'fs operations \<Rightarrow> nat option \<Rightarrow> u8 list \<Rightarrow> u32 \<Rightarrow> u32 \<Rightarrow> 'fs vfs \<Rightarrow> ((errno + nat option) \<times> 'fs vfs) option" where
  "OpenFile ops mem path flags mode s =
     (if path = [] then Some (Inl EINVAL, s)
      else
        do { (status, s) \<leftarrow> GetVnodeFromPath ops path False s;
             (res, s) \<leftarrow> (if flags AND O_CREAT \<noteq> 0 then open_or_create ops path flags mode status s else Some (status, s));
             case res of
               Inl e \<Rightarrow> Some (Inl e, s)
             | Inr n \<Rightarrow> finish_open ops mem flags mode n s })"

definition RemoveFileOrDirectory :: "'fs operations \<Rightarrow> u8 list \<Rightarrow> bool \<Rightarrow> 'fs vfs \<Rightarrow> (errno option \<times> 'fs vfs) option" where
  "RemoveFileOrDirectory ops path rmdir s =
     do { (res, s) \<leftarrow> GetVnodeFromPath ops path False s;
          case res of
            Inl e \<Rightarrow> Some (Some e, s)
          | Inr n \<Rightarrow>
              do { v \<leftarrow> vnodes s n;
                   let is_dir = (IFTODT (st_mode v) = DT_DIR);
                   if rmdir \<and> \<not> is_dir then Some (Some ENOTDIR, s)
                   else if \<not> rmdir \<and> is_dir then Some (Some EISDIR, s)
                   else
                     (case (if 0 < st_nlink v then VnodeUnlink ops n s else (Some ENOENT, s)) of
                        (res, s) \<Rightarrow> do { s \<leftarrow> DerefNode ops n s; Some (res, s) }) } }"

section \<open>Components of a path\<close>

text \<open>What stands between slashes, and of that what is not empty.\<close>

fun pieces :: "u8 list \<Rightarrow> u8 list list" where
  "pieces [] = [[]]"
| "pieces (c # p) = (if c = SLASH then [] # pieces p else (case pieces p of [] \<Rightarrow> [[c]] | q # qs \<Rightarrow> (c # q) # qs))"

definition components :: "u8 list \<Rightarrow> u8 list list" where
  "components p = filter (\<lambda>c. c \<noteq> []) (pieces p)"

definition good_component :: "u8 list \<Rightarrow> bool" where
  "good_component c \<longleftrightarrow> CheckValidComponentName c = None \<and> length c < MAX_COMPONENT_LENGTH"

lemma pieces_not_Nil [simp]: "pieces p \<noteq> []"
  by (induction p) (auto split: list.splits)

lemma pieces_append: "SLASH \<notin> set c \<Longrightarrow> pieces (c @ p) = (c @ hd (pieces p)) # tl (pieces p)"
  by (induction c) (auto split: list.splits)

lemma components_skip: "components (skip_slashes p) = components p"
  by (induction p rule: skip_slashes.induct) (auto simp: components_def)

lemma components_Nil [simp]: "components [] = []"
  by (simp add: components_def)

lemma components_first:
  assumes "SLASH \<notin> set c" "c \<noteq> []"
  shows "components c = [c]" "components (c @ SLASH # p) = c # components p"
  using pieces_append [OF assms(1), of "[]"] pieces_append [OF assms(1), of "SLASH # p"] assms(2) by (simp_all add: components_def)

lemma path_split:
  obtains (last) c where "p = c" "d \<notin> set c" | (more) c q where "p = c @ d # q" "d \<notin> set c"
proof (cases "d \<in> set p")
  case True
  then obtain c q where "p = c @ d # q" "d \<notin> set c" by (meson split_list_first)
  then show ?thesis by (rule more)
qed (use last in blast)

lemma copy_component_eq:
  assumes "d \<notin> set c"
  shows "copy_component room d c = (if length c \<le> room then (Inr c, []) else (Inl ENAMETOOLONG, drop room c))"
    "copy_component room d (c @ d # q) = (if length c \<le> room then (Inr c, d # q) else (Inl ENAMETOOLONG, drop room c @ d # q))"
  using assms by (induction c arbitrary: room) (auto split: nat.splits)

lemma GetPathComponent_eq:
  assumes "d \<notin> set c" "good_component c"
  shows "GetPathComponent c MAX_COMPONENT_LENGTH d = (Inr c, [])"
    "GetPathComponent (c @ d # q) MAX_COMPONENT_LENGTH d = (Inr c, skip_slashes q)"
  using assms copy_component_eq [OF assms(1)] by (simp_all add: GetPathComponent_def good_component_def)

text \<open>The first component of a path that does not begin with a slash.\<close>

lemma first_component:
  assumes "p \<noteq> []" "hd p \<noteq> SLASH"
  obtains c rest where "components p = c # components rest" "rest = [] \<or> hd rest \<noteq> SLASH" "length rest < length p"
    "good_component c \<Longrightarrow> GetPathComponent p MAX_COMPONENT_LENGTH SLASH = (Inr c, rest)"
    "\<not> good_component c \<Longrightarrow> fst (GetPathComponent p MAX_COMPONENT_LENGTH SLASH) = Inl (if MAX_COMPONENT_LENGTH \<le> length c then ENAMETOOLONG else EINVAL)"
proof (cases rule: path_split [of p SLASH])
  case (last c)
  then have "c \<noteq> []" using assms by simp
  have bad: "fst (GetPathComponent p MAX_COMPONENT_LENGTH SLASH) = Inl (if MAX_COMPONENT_LENGTH \<le> length c then ENAMETOOLONG else EINVAL)" if "\<not> good_component c"
    using that copy_component_eq(1) [OF last(2)] \<open>c \<noteq> []\<close> by (auto simp: GetPathComponent_def good_component_def last(1) CheckValidComponentName_def split: if_splits)
  show ?thesis
    by (rule that [of c "[]"]) (use components_first(1) [OF last(2) \<open>c \<noteq> []\<close>] GetPathComponent_eq(1) [OF last(2)] bad last(1) \<open>c \<noteq> []\<close> in auto)
next
  case (more c q)
  then have "c \<noteq> []" using assms by (cases c) auto
  have bad: "fst (GetPathComponent p MAX_COMPONENT_LENGTH SLASH) = Inl (if MAX_COMPONENT_LENGTH \<le> length c then ENAMETOOLONG else EINVAL)" if "\<not> good_component c"
    using that copy_component_eq(2) [OF more(2)] \<open>c \<noteq> []\<close> by (auto simp: GetPathComponent_def good_component_def more(1) CheckValidComponentName_def split: if_splits)
  have "skip_slashes q = [] \<or> hd (skip_slashes q) \<noteq> SLASH" by (induction q rule: skip_slashes.induct) auto
  moreover have "length (skip_slashes q) < length p" using skip_slashes_length [of q] by (simp add: more(1))
  ultimately show ?thesis
    using that [of c "skip_slashes q"] components_first(2) [OF more(2) \<open>c \<noteq> []\<close>, of q] GetPathComponent_eq(2) [OF more(2)] bad by (auto simp: components_skip more(1))
qed

section \<open>What a filesystem promises\<close>

definition refs_of :: "'fs vfs \<Rightarrow> nat \<Rightarrow> nat" where
  "refs_of s n = (case vnodes s n of None \<Rightarrow> 0 | Some v \<Rightarrow> vrefs v)"

text \<open>The only change is a reference to \<open>m\<close>, which may be a new vnode.\<close>

definition referenced :: "nat \<Rightarrow> 'fs vfs \<Rightarrow> 'fs vfs \<Rightarrow> bool" where
  "referenced m s s' \<longleftrightarrow> mounted_file_list s' = mounted_file_list s \<and> files s' = files s \<and> (\<forall>n. n \<noteq> m \<longrightarrow> vnodes s' n = vnodes s n) \<and>
     vnodes s' m \<noteq> None \<and> refs_of s' m = refs_of s m + 1"

text \<open>\<open>child\<close> is the tree of the files.\<close>

definition follows_tree :: "'fs operations \<Rightarrow> (nat \<Rightarrow> name \<Rightarrow> nat option) \<Rightarrow> bool" where
  "follows_tree ops child \<longleftrightarrow> (\<forall>n c s. vnodes s n \<noteq> None \<longrightarrow>
     (case child n c of
        None \<Rightarrow> VnodeFollow ops n c s = (Inl ENOENT, s)
      | Some m \<Rightarrow> \<exists>s'. VnodeFollow ops n c s = (Inr m, s') \<and> referenced m s s'))"

lemma follows_treeD:
  assumes "follows_tree ops child" "vnodes s n \<noteq> None"
  shows "child n c = None \<Longrightarrow> VnodeFollow ops n c s = (Inl ENOENT, s)"
    "child n c = Some m \<Longrightarrow> \<exists>s'. VnodeFollow ops n c s = (Inr m, s') \<and> referenced m s s'"
proof -
  have "case child n c of None \<Rightarrow> VnodeFollow ops n c s = (Inl ENOENT, s) | Some m \<Rightarrow> \<exists>s'. VnodeFollow ops n c s = (Inr m, s') \<and> referenced m s s'"
    using assms unfolding follows_tree_def by blast
  then show "child n c = None \<Longrightarrow> VnodeFollow ops n c s = (Inl ENOENT, s)"
    "child n c = Some m \<Longrightarrow> \<exists>s'. VnodeFollow ops n c s = (Inr m, s') \<and> referenced m s s'" by simp_all
qed

text \<open>The vnode at the end of a path, and those on the way.\<close>

fun resolve :: "(nat \<Rightarrow> name \<Rightarrow> nat option) \<Rightarrow> nat \<Rightarrow> name list \<Rightarrow> (errno + nat) \<times> nat list" where
  "resolve child n [] = (Inr n, [])"
| "resolve child n (c # cs) =
     (if c = [DOT] then resolve child n cs
      else
        (case child n c of
           None \<Rightarrow> (Inl ENOENT, [])
         | Some m \<Rightarrow> (case resolve child m cs of (res, ms) \<Rightarrow> (res, m # ms))))"

lemma DerefNode_returns: "vnodes s n \<noteq> None \<Longrightarrow> \<exists>s'. DerefNode ops n s = Some s'"
  by (auto simp: DerefNode_def Let_def)

lemma walk_path_ok:
  assumes "follows_tree ops child"
  shows "\<lbrakk>p = [] \<or> hd p \<noteq> SLASH; \<forall>c \<in> set (components p). good_component c; vnodes s n \<noteq> None\<rbrakk> \<Longrightarrow>
    \<exists>s'. walk_path ops n p s = Some (fst (resolve child n (components p)), s') \<and>
      (\<forall>m. fst (resolve child n (components p)) = Inr m \<longrightarrow> mounted_file_list s' = mounted_file_list s \<and> files s' = files s \<and> vnodes s' m \<noteq> None \<and>
        (\<forall>x. refs_of s' x = refs_of s x + count_list (snd (resolve child n (components p))) x))"
proof (induction "length p" arbitrary: p n s rule: less_induct)
  case less
  show ?case
  proof (cases "p = []")
    case True
    then show ?thesis using less.prems(3) by (subst walk_path.simps) simp
  next
    case False
    then have "hd p \<noteq> SLASH" using less.prems(1) by simp
    obtain c rest where c: "components p = c # components rest" "rest = [] \<or> hd rest \<noteq> SLASH" "length rest < length p"
      "good_component c \<Longrightarrow> GetPathComponent p MAX_COMPONENT_LENGTH SLASH = (Inr c, rest)" using first_component [OF False \<open>hd p \<noteq> SLASH\<close>] by metis
    have g: "GetPathComponent p MAX_COMPONENT_LENGTH SLASH = (Inr c, rest)" "\<forall>c \<in> set (components rest). good_component c"
      using less.prems(2) c(1,4) by simp_all
    show ?thesis
    proof (cases "c = [DOT]")
      case True
      then show ?thesis using less.hyps [OF c(3,2) g(2) less.prems(3)] False g(1) c(1) by (subst walk_path.simps) simp
    next
      case nd: False
      show ?thesis
      proof (cases "child n c")
        case None
        then have "VnodeFollow ops n c s = (Inl ENOENT, s)" using follows_treeD(1) [OF assms less.prems(3)] by blast
        moreover obtain s' where "DerefNode ops n s = Some s'" using DerefNode_returns [OF less.prems(3)] by blast
        ultimately show ?thesis using False nd None g(1) c(1) by (subst walk_path.simps) simp
      next
        case (Some m)
        then obtain s1 where s1: "VnodeFollow ops n c s = (Inr m, s1)" "referenced m s s1"
          using follows_treeD(2) [OF assms less.prems(3)] by blast
        have "vnodes s1 m \<noteq> None" using s1(2) by (simp add: referenced_def)
        obtain res ms where rm: "resolve child m (components rest) = (res, ms)" by (cases "resolve child m (components rest)")
        from less.hyps [OF c(3,2) g(2) \<open>vnodes s1 m \<noteq> None\<close>] obtain s' where s': "walk_path ops m rest s1 = Some (res, s')"
          "\<forall>k. res = Inr k \<longrightarrow> mounted_file_list s' = mounted_file_list s1 \<and> files s' = files s1 \<and> vnodes s' k \<noteq> None \<and>
            (\<forall>x. refs_of s' x = refs_of s1 x + count_list ms x)" unfolding rm fst_conv snd_conv by blast
        have "walk_path ops n p s = Some (res, s')"
          using False nd g(1) s1(1) s'(1) by (subst walk_path.simps) simp
        moreover have "resolve child n (components p) = (res, m # ms)" using c(1) nd Some rm by simp
        moreover have r1: "refs_of s1 x = refs_of s x + (if x = m then 1 else 0)" for x
          using s1(2) by (cases "x = m") (simp_all add: referenced_def refs_of_def)
        moreover have "mounted_file_list s1 = mounted_file_list s" "files s1 = files s" using s1(2) by (simp_all add: referenced_def)
        ultimately show ?thesis using s'(2) by simp
      qed
    qed
  qed
qed

section \<open>Lookup of a path\<close>

text \<open>What stands after the colon, when it is not empty, begins a component.\<close>

lemma skip_slashes_hd: "skip_slashes q = [] \<or> hd (skip_slashes q) \<noteq> SLASH"
  by (induction q rule: skip_slashes.induct) auto

lemma RefNode_eq:
  assumes "vnodes s n \<noteq> None"
  obtains s1 where "RefNode n s = Some s1" "referenced n s s1"
  using assms by (auto simp: RefNode_def referenced_def refs_of_def)

lemma good_no_slash: "good_component c \<Longrightarrow> SLASH \<notin> set c \<and> COLON \<notin> set c \<and> c \<noteq> []"
  by (auto simp: good_component_def CheckValidComponentName_def split: if_splits)

lemma lookup_first:
  assumes "good_component m" "length (m @ COLON # p) < MAX_PATH_LENGTH"
  shows "GetVnodeFromPath ops (m @ COLON # p) want_parent s =
    (case GetMountPointFromName m s of
       None \<Rightarrow> Some (Inl ENODEV, s)
     | Some f \<Rightarrow>
         do { x \<leftarrow> files s f;
              s \<leftarrow> RefNode (node x) s;
              (res, s) \<leftarrow> walk_path ops (node x) (skip_slashes p) s;
              case res of
                Inl e \<Rightarrow> Some (Inl e, s)
              | Inr current \<Rightarrow>
                  if want_parent then
                    (case VnodeFollow ops current [DOT, DOT] s of
                       (res, s) \<Rightarrow> do { s \<leftarrow> DerefNode ops current s; Some (res, s) })
                  else Some (Inr current, s) })"
  using assms good_no_slash [OF assms(1)] GetPathComponent_eq(2) [of COLON m p]
  by (simp add: GetVnodeFromPath_def IsRelative_def)

lemma lookup_ok:
  assumes "follows_tree ops child" "good_component m" "length (m @ COLON # p) < MAX_PATH_LENGTH"
    and "GetMountPointFromName m s = Some f" "files s f = Some x" "vnodes s (node x) \<noteq> None" "\<forall>c \<in> set (components p). good_component c"
    and "resolve child (node x) (components p) = (res, ms)"
  shows "\<exists>s'. GetVnodeFromPath ops (m @ COLON # p) False s = Some (res, s') \<and>
    (\<forall>n. res = Inr n \<longrightarrow> mounted_file_list s' = mounted_file_list s \<and> files s' = files s \<and> vnodes s' n \<noteq> None \<and>
      (\<forall>y. refs_of s' y = refs_of s y + count_list (node x # ms) y))"
proof -
  obtain s1 where s1: "RefNode (node x) s = Some s1" "referenced (node x) s s1" using RefNode_eq [OF assms(6)] .
  have r1: "refs_of s1 y = refs_of s y + (if y = node x then 1 else 0)" for y
    using s1(2) by (cases "y = node x") (simp_all add: referenced_def refs_of_def)
  have "vnodes s1 (node x) \<noteq> None" using s1(2) by (simp add: referenced_def)
  then obtain s' where s': "walk_path ops (node x) (skip_slashes p) s1 = Some (res, s')"
    "\<forall>n. res = Inr n \<longrightarrow> mounted_file_list s' = mounted_file_list s1 \<and> files s' = files s1 \<and> vnodes s' n \<noteq> None \<and>
      (\<forall>y. refs_of s' y = refs_of s1 y + count_list ms y)"
    using walk_path_ok [OF assms(1) skip_slashes_hd, of p s1 "node x"] assms(7,8) unfolding components_skip by force
  have "GetVnodeFromPath ops (m @ COLON # p) False s = Some (res, s')"
    unfolding lookup_first [OF assms(2,3)] using assms(4,5) s1(1) s'(1) by (simp split: sum.splits)
  moreover have "mounted_file_list s1 = mounted_file_list s" "files s1 = files s" using s1(2) by (simp_all add: referenced_def)
  ultimately show ?thesis using s'(2) r1 by auto
qed









text \<open>What is not an absolute path of a mount is refused, and nothing changes.\<close>

lemma lookup_errors:
  shows "GetVnodeFromPath ops [] w s = Some (Inl EINVAL, s)"
    "MAX_PATH_LENGTH \<le> length p \<Longrightarrow> GetVnodeFromPath ops p w s = Some (Inl ENAMETOOLONG, s)"
    "p \<noteq> [] \<Longrightarrow> length p < MAX_PATH_LENGTH \<Longrightarrow> IsRelative p \<Longrightarrow> GetVnodeFromPath ops p w s = Some (Inl ENODEV, s)"
    "good_component m \<Longrightarrow> length (m @ COLON # p) < MAX_PATH_LENGTH \<Longrightarrow> GetMountPointFromName m s = None \<Longrightarrow>
      GetVnodeFromPath ops (m @ COLON # p) w s = Some (Inl ENODEV, s)"
  by (simp_all add: GetVnodeFromPath_def [of ops "[]"] GetVnodeFromPath_def [of ops p] lookup_first) auto

section \<open>Opening\<close>

lemma refs_of_RefVnode:
  assumes "RefNode n s = Some s'"
  shows "refs_of s' y = refs_of s y + (if y = n then 1 else 0)" "vnodes s' n \<noteq> None" "files s' = files s" "mounted_file_list s' = mounted_file_list s"
  using assms by (cases "vnodes s n"; auto simp: RefNode_def refs_of_def)+

lemma DerefNode_shared:
  assumes "1 < refs_of s n"
  obtains s' where "DerefNode ops n s = Some s'" "\<And>y. refs_of s' y = refs_of s y - (if y = n then 1 else 0)" "files s' = files s"
    "mounted_file_list s' = mounted_file_list s" "vnodes s' n \<noteq> None"
proof -
  obtain v where v: "vnodes s n = Some v" "1 < vrefs v" using assms by (cases "vnodes s n") (auto simp: refs_of_def)
  then show ?thesis using that [of "s\<lparr>vnodes := (vnodes s)(n \<mapsto> v\<lparr>vrefs := vrefs v - 1\<rparr>)\<rparr>"] by (auto simp: DerefNode_def refs_of_def)
qed

text \<open>The end of a successful open, once the vnode is known.\<close>

lemma finish_open_ok:
  assumes "VnodeCheckOpen ops n (flags AND (O_ACCMODE OR O_NONBLOCK)) s = (None, s)" "vnodes s n = Some v" "flags AND O_TRUNC = 0"
    and "IFTODT (st_mode v) = DT_DIR \<Longrightarrow> flags AND O_ACCMODE = O_RDONLY"
  obtains s' where "finish_open ops (Some f) flags mode n s = Some (Inr (Some f), s')" "mounted_file_list s' = mounted_file_list s"
    "files s' = (files s)(f \<mapsto> \<lparr>frefs = 1, node = n, can_read = flags AND O_ACCMODE \<noteq> O_WRONLY, can_write = flags AND O_ACCMODE \<noteq> O_RDONLY,
      initial_mode = mode, fflags = flags AND O_CLOEXEC, seek_position = 0\<rparr>)"
    "vnodes s' = (vnodes s)(n \<mapsto> v\<lparr>vflags := flags AND (O_NONBLOCK OR O_APPEND), vrefs := vrefs v + 1\<rparr>)"
proof -
  have "\<not> (IFTODT (st_mode v) = DT_DIR \<and> flags AND O_ACCMODE \<noteq> O_RDONLY)" using assms(4) by blast
  then have "finish_open ops (Some f) flags mode n s = Some (Inr (Some f), s\<lparr>vnodes := (vnodes s)(n \<mapsto> v\<lparr>vflags := flags AND (O_NONBLOCK OR O_APPEND), vrefs := vrefs v + 1\<rparr>),
    files := (files s)(f \<mapsto> \<lparr>frefs = 1, node = n, can_read = flags AND O_ACCMODE \<noteq> O_WRONLY, can_write = flags AND O_ACCMODE \<noteq> O_RDONLY,
      initial_mode = mode, fflags = flags AND O_CLOEXEC, seek_position = 0\<rparr>)\<rparr>)"
    unfolding finish_open_def assms(1) prod.case option.case using assms(2,3) by (auto simp: CreateFile_def RefNode_def Let_def)
  then show ?thesis by (rule that) simp_all
qed

lemma OpenFile_existing:
  assumes "GetVnodeFromPath ops path False s = Some (Inr n, s1)" "path \<noteq> []" "flags AND O_CREAT = 0 \<or> flags AND O_EXCL = 0"
  shows "OpenFile ops mem path flags mode s = finish_open ops mem flags mode n s1"
  using assms by (auto simp: OpenFile_def open_or_create_def)

lemma open_ok:
  assumes "follows_tree ops child" "good_component m" "length (m @ COLON # p) < MAX_PATH_LENGTH"
    and "GetMountPointFromName m s = Some f" "files s f = Some x" "vnodes s (node x) \<noteq> None" "\<forall>c \<in> set (components p). good_component c"
    and "resolve child (node x) (components p) = (Inr n, ms)"
    and "flags AND O_ACCMODE = O_RDONLY" "flags AND O_TRUNC = 0" "flags AND O_CREAT = 0 \<or> flags AND O_EXCL = 0"
    and "\<forall>s. VnodeCheckOpen ops n (flags AND (O_ACCMODE OR O_NONBLOCK)) s = (None, s)"
  shows "\<exists>s'. OpenFile ops (Some g) (m @ COLON # p) flags mode s = Some (Inr (Some g), s') \<and>
    mounted_file_list s' = mounted_file_list s \<and>
    files s' = (files s)(g \<mapsto> \<lparr>frefs = 1, node = n, can_read = True, can_write = False, initial_mode = mode, fflags = flags AND O_CLOEXEC, seek_position = 0\<rparr>) \<and>
    (\<forall>y. refs_of s' y = refs_of s y + count_list (node x # ms @ [n]) y)"
proof -
  obtain s1 where s1: "GetVnodeFromPath ops (m @ COLON # p) False s = Some (Inr n, s1)" "mounted_file_list s1 = mounted_file_list s" "files s1 = files s"
    "vnodes s1 n \<noteq> None" "\<And>y. refs_of s1 y = refs_of s y + count_list (node x # ms) y"
    using lookup_ok [OF assms(1-8)] by auto
  then obtain v where v: "vnodes s1 n = Some v" by blast
  obtain s' where s': "finish_open ops (Some g) flags mode n s1 = Some (Inr (Some g), s')" "mounted_file_list s' = mounted_file_list s1"
    "files s' = (files s1)(g \<mapsto> \<lparr>frefs = 1, node = n, can_read = flags AND O_ACCMODE \<noteq> O_WRONLY, can_write = flags AND O_ACCMODE \<noteq> O_RDONLY,
      initial_mode = mode, fflags = flags AND O_CLOEXEC, seek_position = 0\<rparr>)"
    "vnodes s' = (vnodes s1)(n \<mapsto> v\<lparr>vflags := flags AND (O_NONBLOCK OR O_APPEND), vrefs := vrefs v + 1\<rparr>)"
    using finish_open_ok [OF spec [OF assms(12)] v assms(10)] assms(9) by blast
  have "refs_of s' y = refs_of s1 y + (if y = n then 1 else 0)" for y using s'(4) v by (simp add: refs_of_def)
  moreover have "OpenFile ops (Some g) (m @ COLON # p) flags mode s = Some (Inr (Some g), s')"
    using OpenFile_existing [OF s1(1) _ assms(11)] s'(1) by simp
  ultimately show ?thesis using s'(2,3) s1(2,3,5) assms(9) by auto
qed



text \<open>When the file is closed again, all those references but the one of the file are still held: no vnode that has been opened is ever freed.\<close>

lemma open_close_leaks:
  assumes "follows_tree ops child" "good_component m" "length (m @ COLON # p) < MAX_PATH_LENGTH"
    and "GetMountPointFromName m s = Some f" "files s f = Some x" "vnodes s (node x) \<noteq> None" "\<forall>c \<in> set (components p). good_component c"
    and "resolve child (node x) (components p) = (Inr n, ms)"
    and "flags AND O_ACCMODE = O_RDONLY" "flags AND O_TRUNC = 0" "flags AND O_CREAT = 0 \<or> flags AND O_EXCL = 0"
    and "\<forall>s. VnodeCheckOpen ops n (flags AND (O_ACCMODE OR O_NONBLOCK)) s = (None, s)"
    and "files s g = None" "n \<in> set (node x # ms)"
  shows "\<exists>s1 s2. OpenFile ops (Some g) (m @ COLON # p) flags mode s = Some (Inr (Some g), s1) \<and> DerefFile ops g s1 = Some s2 \<and>
    files s2 = files s \<and> (\<forall>y. refs_of s2 y = refs_of s y + count_list (node x # ms) y)"
proof -
  obtain s1 where s1: "OpenFile ops (Some g) (m @ COLON # p) flags mode s = Some (Inr (Some g), s1)"
    "files s1 = (files s)(g \<mapsto> \<lparr>frefs = 1, node = n, can_read = True, can_write = False, initial_mode = mode, fflags = flags AND O_CLOEXEC, seek_position = 0\<rparr>)"
    "\<And>y. refs_of s1 y = refs_of s y + count_list (node x # ms @ [n]) y" using open_ok [OF assms(1-12)] by blast
  define x1 where "x1 = \<lparr>frefs = 0, node = n, can_read = True, can_write = False, initial_mode = mode, fflags = flags AND O_CLOEXEC, seek_position = 0\<rparr>"
  define t where "t = s1\<lparr>files := (files s1)(g \<mapsto> x1)\<rparr>"
  have t: "refs_of t y = refs_of s1 y" for y by (simp add: t_def refs_of_def)
  have "count_list (node x # ms) n \<noteq> 0" using assms(14) by (metis count_list_0_iff)
  moreover have "refs_of s1 n = refs_of s n + (count_list (node x # ms) n + 1)" using s1(3) [of n] by (simp add: count_list_append)
  ultimately have "1 < refs_of t n" unfolding t by linarith
  then obtain s2 where s2: "DerefNode ops n t = Some s2" "\<And>y. refs_of s2 y = refs_of t y - (if y = n then 1 else 0)" "files s2 = files t"
    by (rule DerefNode_shared) blast
  have "DerefFile ops g s1 = Some (s2\<lparr>files := (files s2)(g := None)\<rparr>)"
    using s1(2) s2(1) by (simp add: DerefFile_def CleanupFile_def x1_def t_def)
  moreover have "(files s2)(g := None) = files s" using assms(13) by (simp add: s2(3) t_def s1(2) fun_upd_idem)
  moreover have "refs_of (s2\<lparr>files := (files s2)(g := None)\<rparr>) y = refs_of s y + count_list (node x # ms) y" for y
    using s2(2) [of y] s1(3) [of y] by (simp add: t refs_of_def [of "_\<lparr>files := _\<rparr>"] refs_of_def [of s2, symmetric] count_list_append)
  ultimately show ?thesis using s1(1) by auto
qed

section \<open>The table of mounts\<close>

definition mount_names_distinct :: "'fs vfs \<Rightarrow> bool" where
  "mount_names_distinct s \<longleftrightarrow> distinct (map snd (mounted_file_list s))"

definition mount_table :: "'fs vfs \<Rightarrow> name \<Rightarrow> nat option" where
  "mount_table s name = GetMountPointFromName name s"

lemma mount_table_None: "mount_table s name = None \<longleftrightarrow> name \<notin> snd ` set (mounted_file_list s)"
  by (force simp: mount_table_def GetMountPointFromName_def find_None_iff)

lemma unlink_mount_set: "set (unlink_mount name ms) \<subseteq> set ms"
  by (induction name ms rule: unlink_mount.induct) auto

lemma unlink_mount_ok:
  assumes "distinct (map snd ms)"
  shows "distinct (map snd (unlink_mount name ms))"
    "find (\<lambda>(f, n). n = name') (unlink_mount name ms) = (if name' = name then None else find (\<lambda>(f, n). n = name') ms)"
proof -
  show "distinct (map snd (unlink_mount name ms))"
    using assms by (induction name ms rule: unlink_mount.induct) (use unlink_mount_set in fastforce)+
  show "find (\<lambda>(f, n). n = name') (unlink_mount name ms) = (if name' = name then None else find (\<lambda>(f, n). n = name') ms)"
    using assms by (induction name ms rule: unlink_mount.induct) (force simp: find_None_iff)+
qed

lemma Mount_ok:
  assumes "mount_names_distinct s" "good_component name" "mount_table s name = None" "vnodes s n \<noteq> None"
  obtains s' where "Mount True (Some f) (Some n) (Some name) s = Some (None, s')" "mount_names_distinct s'" "mount_table s' = (mount_table s)(name \<mapsto> f)"
    "files s' = (files s)(f \<mapsto> \<lparr>frefs = 2, node = n, can_read = True, can_write = True, initial_mode = 0, fflags = 0, seek_position = 0\<rparr>)"
    "\<And>y. refs_of s' y = refs_of s y + (if y = n then 1 else 0)"
proof -
  have g: "length name < MAX_COMPONENT_LENGTH" "CheckValidComponentName name = None" "GetMountPointFromName name s = None"
    using assms(2,3) by (simp_all add: good_component_def mount_table_def)
  obtain s1 where s1: "RefNode n s = Some s1" using RefNode_eq [OF assms(4)] by blast
  let ?s = "s1\<lparr>files := (files s1)(f \<mapsto> \<lparr>frefs = 2, node = n, can_read = True, can_write = True, initial_mode = 0, fflags = 0, seek_position = 0\<rparr>),
    mounted_file_list := (f, name) # mounted_file_list s1\<rparr>"
  have "Mount True (Some f) (Some n) (Some name) s = Some (None, ?s)"
    using g s1 by (simp add: Mount_def CreateFile_def RefFile_def numeral_2_eq_2)
  moreover have "mount_names_distinct ?s" "mount_table ?s = (mount_table s)(name \<mapsto> f)"
    using assms(1,3) refs_of_RefVnode(4) [OF s1] mount_table_None [of s name]
    by (auto simp: mount_names_distinct_def mount_table_def GetMountPointFromName_def)
  moreover have "refs_of ?s y = refs_of s y + (if y = n then 1 else 0)" for y
    using refs_of_RefVnode(1) [OF s1, of y] by (simp add: refs_of_def)
  ultimately show ?thesis using that [of ?s] refs_of_RefVnode(3) [OF s1] by simp
qed

text \<open>What \<open>Unmount\<close> has done when it frees the name.\<close>

lemma Unmount_ok:
  assumes "mount_names_distinct s" "CheckValidComponentName name = None" "mount_table s name = Some f" "files s f = Some x" "1 < frefs x"
  obtains s' where "Unmount FreeHeap_interior ops (Some name) s = FreeHeap_interior s' \<bind> (\<lambda>s. Some (None, s))" "mount_names_distinct s'"
    "mount_table s' = (mount_table s)(name := None)" "files s' = (files s)(f \<mapsto> x\<lparr>frefs := frefs x - 1\<rparr>)" "vnodes s' = vnodes s"
proof -
  let ?s = "s\<lparr>files := (files s)(f \<mapsto> x\<lparr>frefs := frefs x - 1\<rparr>), mounted_file_list := unlink_mount name (mounted_file_list s)\<rparr>"
  have "Unmount FreeHeap_interior ops (Some name) s = FreeHeap_interior ?s \<bind> (\<lambda>s. Some (None, s))"
    using assms(2-5) by (simp add: Unmount_def mount_table_def DerefFile_def)
  moreover have "mount_names_distinct ?s" "mount_table ?s = (mount_table s)(name := None)"
    using assms(1) by (auto simp: mount_names_distinct_def mount_table_def GetMountPointFromName_def unlink_mount_ok fun_eq_iff)
  ultimately show ?thesis using that [of ?s] by simp
qed



section \<open>What is not as it should be\<close>

text \<open>\<open>Mount\<close> takes two references to the file of the mount and \<open>Unmount\<close> drops one, so that neither the file nor the vnode is ever freed.\<close>

lemma Unmount_leaks_file:
  assumes "mount_names_distinct s" "good_component name" "mount_table s name = None" "vnodes s n \<noteq> None"
  shows "\<exists>s' s''. Mount True (Some f) (Some n) (Some name) s = Some (None, s') \<and>
    Unmount FreeHeap_interior ops (Some name) s' = FreeHeap_interior s'' \<bind> (\<lambda>s. Some (None, s)) \<and>
    files s'' f \<noteq> None \<and> refs_of s'' n = refs_of s n + 1"
proof -
  have c: "CheckValidComponentName name = None" using assms(2) by (simp add: good_component_def)
  obtain s' where s': "Mount True (Some f) (Some n) (Some name) s = Some (None, s')" "mount_names_distinct s'" "mount_table s' = (mount_table s)(name \<mapsto> f)"
    "files s' = (files s)(f \<mapsto> \<lparr>frefs = 2, node = n, can_read = True, can_write = True, initial_mode = 0, fflags = 0, seek_position = 0\<rparr>)"
    "\<And>y. refs_of s' y = refs_of s y + (if y = n then 1 else 0)"
    by (rule Mount_ok [OF assms]) blast
  obtain s'' where s'': "Unmount FreeHeap_interior ops (Some name) s' = FreeHeap_interior s'' \<bind> (\<lambda>s. Some (None, s))"
    "files s'' f \<noteq> None" "vnodes s'' = vnodes s'"
    by (rule Unmount_ok [OF s'(2) c, of f "\<lparr>frefs = 2, node = n, can_read = True, can_write = True, initial_mode = 0, fflags = 0, seek_position = 0\<rparr>" FreeHeap_interior ops])
      (use s'(3,4) in auto)
  show ?thesis using s' s'' by (auto simp: refs_of_def)
qed

text \<open>There is memory for the mount but not for its file: a null file is in the list, and is referenced.\<close>

lemma Mount_without_file:
  assumes "good_component name" "GetMountPointFromName name s = None"
  shows "Mount True None (Some n) (Some name) s = None"
  using assms by (simp add: Mount_def good_component_def CreateFile_def)

lemma open_without_memory:
  assumes "GetVnodeFromPath ops path False s = Some (Inr n, s1)" "path \<noteq> []" "vnodes s1 n = Some v"
    "VnodeCheckOpen ops n (flags AND (O_ACCMODE OR O_NONBLOCK)) s1 = (None, s1)" "flags AND O_ACCMODE = O_RDONLY" "flags AND O_TRUNC = 0" "flags AND O_CREAT = 0"
  shows "\<exists>s'. OpenFile ops None path flags mode s = Some (Inr None, s')"
  unfolding OpenFile_existing [OF assms(1,2) disjI1, OF assms(7)] finish_open_def assms(4) prod.case option.case
  using assms(3,5,6) by (simp add: CreateFile_def)

text \<open>
  Creating a file looks for its directory with the whole path, of which the last component does not exist. So it never
  creates anything.
\<close>

lemma lookup_missing:
  assumes "follows_tree ops child" "good_component m" "good_component c" "c \<noteq> [DOT]" "length (m @ COLON # c) < MAX_PATH_LENGTH"
    and "GetMountPointFromName m s = Some f" "files s f = Some x" "0 < refs_of s (node x)" "child (node x) c = None"
  obtains s' where "GetVnodeFromPath ops (m @ COLON # c) w s = Some (Inl ENOENT, s')" "mounted_file_list s' = mounted_file_list s" "files s' = files s"
    "0 < refs_of s' (node x)"
proof -
  have n: "vnodes s (node x) \<noteq> None" using assms(8) by (auto simp: refs_of_def split: option.splits)
  obtain s1 where s1: "RefNode (node x) s = Some s1" using RefNode_eq [OF n] by blast
  note r1 = refs_of_RefVnode [OF s1]
  have skip: "skip_slashes c = c" using good_no_slash [OF assms(3)] by (cases c) auto
  have "1 < refs_of s1 (node x)" using r1(1) [of "node x"] assms(8) by simp
  then obtain s2 where s2: "DerefNode ops (node x) s1 = Some s2" "\<And>y. refs_of s2 y = refs_of s1 y - (if y = node x then 1 else 0)"
    "files s2 = files s1" "mounted_file_list s2 = mounted_file_list s1" by (rule DerefNode_shared) blast
  have "walk_path ops (node x) c s1 = Some (Inl ENOENT, s2)"
    using good_no_slash [OF assms(3)] GetPathComponent_eq(1) [OF _ assms(3), of SLASH] assms(4) follows_treeD(1) [OF assms(1) r1(2) assms(9)] s2(1)
    by (subst walk_path.simps) simp
  then have "GetVnodeFromPath ops (m @ COLON # c) w s = Some (Inl ENOENT, s2)"
    unfolding lookup_first [OF assms(2,5)] using assms(6,7) s1 by (simp add: skip)
  then show ?thesis by (rule that) (use s2(2-4) r1(1,3,4) assms(8) in auto)
qed

lemma O_CREAT_never_creates:
  assumes "follows_tree ops child" "good_component m" "good_component c" "c \<noteq> [DOT]" "length (m @ COLON # c) < MAX_PATH_LENGTH"
    and "GetMountPointFromName m s = Some f" "files s f = Some x" "0 < refs_of s (node x)" "child (node x) c = None" "flags AND O_CREAT \<noteq> 0"
  shows "\<exists>s'. OpenFile ops mem (m @ COLON # c) flags mode s = Some (Inl ENOENT, s')"
proof -
  obtain s1 where s1: "GetVnodeFromPath ops (m @ COLON # c) False s = Some (Inl ENOENT, s1)" "mounted_file_list s1 = mounted_file_list s" "files s1 = files s"
    "0 < refs_of s1 (node x)" by (rule lookup_missing [OF assms(1-9)]) blast
  have "GetMountPointFromName m s1 = Some f" "files s1 f = Some x" using assms(6,7) s1(2,3) by (simp_all add: GetMountPointFromName_def)
  then obtain s2 where "GetVnodeFromPath ops (m @ COLON # c) True s1 = Some (Inl ENOENT, s2)"
    by (rule lookup_missing [OF assms(1-5) _ _ s1(4) assms(9)]) blast
  then show ?thesis using s1(1) assms(10) by (auto simp: OpenFile_def open_or_create_def)
qed

text \<open>With \<open>O_CREAT\<close> any other error of the lookup is lost: the vnode that was not found is used, or \<open>O_EXCL\<close> says that it exists.\<close>

lemma O_CREAT_uninitialised:
  assumes "IsRelative p" "p \<noteq> []" "length p < MAX_PATH_LENGTH" "flags AND O_CREAT \<noteq> 0"
  shows "OpenFile ops mem p flags mode s = (if flags AND O_EXCL = 0 then None else Some (Inl EEXIST, s))"
  using assms by (simp add: OpenFile_def open_or_create_def lookup_errors(3))

lemma O_TRUNC_fails:
  assumes "GetVnodeFromPath ops path False s = Some (Inr n, s1)" "path \<noteq> []" "vnodes s1 n = Some v" "IFTODT (st_mode v) = DT_REG"
    "VnodeCheckOpen ops n (flags AND (O_ACCMODE OR O_NONBLOCK)) s1 = (None, s1)" "flags AND O_TRUNC \<noteq> 0" "flags AND O_CREAT = 0"
  shows "\<exists>e s'. OpenFile ops mem path flags mode s = Some (Inl e, s')"
  unfolding OpenFile_existing [OF assms(1,2) disjI1, OF assms(7)] finish_open_def assms(5) prod.case option.case
  using assms(3,4,6) by (auto simp: Let_def split: prod.splits option.splits)

text \<open>Removing a file as a directory fails, and keeps the reference of the lookup.\<close>

lemma remove_wrong_kind_leaks:
  assumes "GetVnodeFromPath ops path False s = Some (Inr n, s1)" "vnodes s1 n = Some v" "rmdir \<longleftrightarrow> IFTODT (st_mode v) \<noteq> DT_DIR"
  shows "RemoveFileOrDirectory ops path rmdir s = Some (Some (if rmdir then ENOTDIR else EISDIR), s1)"
  using assms by (auto simp: RemoveFileOrDirectory_def)

end
