(* ===== verification/Phys.thy ===== *)
theory Phys
  imports Prelude
begin

unbundle bit_operations_syntax

text \<open>
  Physical pages (\<^verbatim>\<open>kernel/mem/phys.c\<close>). A physical page is its index in the table, and what the table holds of virtual pages
  and origins is their numbers. The spinlock of each page, taken and given back within each operation, is not modelled, and of
  the messages that memory is low only their number is.
\<close>

section \<open>State\<close>

record phys_page =
  origin :: "nat option"
  pvp :: "nat option"
  chain :: "nat list"
  lru :: u16
  wired :: u16
  allocated :: bool
  exists :: bool
  pdirty :: bool

type_synonym page_data = "u8 list"

record phys =
  sys_pp_table :: "phys_page list"
  sys_free_pp :: u32
  sys_total_pp :: u32
  low_memory_messages :: nat
  zeroed_phys_buffer :: "nat list"
  please_provide_zeroed_phys :: u8
  contents :: "nat \<Rightarrow> page_data"

abbreviation (input) PAGE_SIZE :: nat where "PAGE_SIZE \<equiv> 4096"
abbreviation (input) LOW_MEM_THRESHOLD :: u32 where "LOW_MEM_THRESHOLD \<equiv> 16"
abbreviation (input) CRITICAL_THRESHOLD :: u32 where "CRITICAL_THRESHOLD \<equiv> 12"
abbreviation (input) ZEROED_PHYS_BUFFER_COUNT :: nat where "ZEROED_PHYS_BUFFER_COUNT \<equiv> 2"

definition GetPhysPage :: "nat \<Rightarrow> nat" where "GetPhysPage addr = addr div PAGE_SIZE"
definition GetPhysAddr :: "nat \<Rightarrow> nat" where "GetPhysAddr pp = pp * PAGE_SIZE"

definition GetNextPhysPage :: "'a phys_scheme \<Rightarrow> nat \<Rightarrow> nat option" where
  "GetNextPhysPage s pp = (if pp = length (sys_pp_table s) - 1 then None else Some (pp + 1))"

definition the_page :: "'a phys_scheme \<Rightarrow> nat \<Rightarrow> phys_page option" where
  "the_page s i = (if i < length (sys_pp_table s) then Some (sys_pp_table s ! i) else None)"

definition upd_page :: "nat \<Rightarrow> (phys_page \<Rightarrow> phys_page) \<Rightarrow> 'a phys_scheme \<Rightarrow> 'a phys_scheme" where
  "upd_page i f s = s\<lparr>sys_pp_table := (sys_pp_table s)[i := f (sys_pp_table s ! i)]\<rparr>"

definition GetFreeMemory :: "'a phys_scheme \<Rightarrow> u32" where "GetFreeMemory s = sys_free_pp s * of_nat PAGE_SIZE"
definition GetTotalMemory :: "'a phys_scheme \<Rightarrow> u32" where "GetTotalMemory s = sys_total_pp s * of_nat PAGE_SIZE"
definition IsMemoryRunningLow :: "'a phys_scheme \<Rightarrow> bool" where "IsMemoryRunningLow s \<longleftrightarrow> sys_free_pp s \<le> LOW_MEM_THRESHOLD * 2"
definition IsMemoryLow :: "'a phys_scheme \<Rightarrow> bool" where "IsMemoryLow s \<longleftrightarrow> sys_free_pp s \<le> LOW_MEM_THRESHOLD"
definition IsOutOfMemory :: "'a phys_scheme \<Rightarrow> bool" where "IsOutOfMemory s \<longleftrightarrow> sys_free_pp s \<le> CRITICAL_THRESHOLD"

section \<open>Allocation\<close>

definition FreeDiscardedPhys :: "nat \<Rightarrow> 'a phys_scheme \<Rightarrow> 'a phys_scheme option" where
  "FreeDiscardedPhys i s =
     do { _ \<leftarrow> the_page s i;
          let s = upd_page i (\<lambda>pp. pp\<lparr>chain := [], origin := None, allocated := False, pdirty := False, wired := 0, lru := 0\<rparr>) s;
          Some (s\<lparr>sys_free_pp := sys_free_pp s + 1\<rparr>) }"

fun first_free :: "phys_page list \<Rightarrow> nat option" where
  "first_free [] = None"
| "first_free (pp # pps) = (if exists pp \<and> \<not> allocated pp then Some 0 else map_option Suc (first_free pps))"

definition AllocPhys :: "bool \<Rightarrow> 'a phys_scheme \<Rightarrow> nat \<times> 'a phys_scheme" where
  "AllocPhys pin s =
     (case first_free (sys_pp_table s) of
        None \<Rightarrow> (0, s)
      | Some i \<Rightarrow>
          let s = upd_page i (\<lambda>pp. pp\<lparr>allocated := True, wired := of_bool pin\<rparr>) s;
              s = (if sys_free_pp s \<le> LOW_MEM_THRESHOLD then s\<lparr>low_memory_messages := low_memory_messages s + 1\<rparr> else s)
          in (GetPhysAddr i, s\<lparr>sys_free_pp := sys_free_pp s - 1\<rparr>))"

definition ZeroPhysPage :: "nat \<Rightarrow> 'a phys_scheme \<Rightarrow> 'a phys_scheme" where
  "ZeroPhysPage phys s = s\<lparr>contents := (contents s)(GetPhysPage phys := replicate PAGE_SIZE 0)\<rparr>"

fun take_zeroed :: "nat list \<Rightarrow> (nat \<times> nat list) option" where
  "take_zeroed [] = None"
| "take_zeroed (f # fs) = (if f \<noteq> 0 then Some (f, 0 # fs) else map_option (apsnd (Cons f)) (take_zeroed fs))"

definition AllocZeroedPhys :: "'a phys_scheme \<Rightarrow> nat \<times> 'a phys_scheme" where
  "AllocZeroedPhys s =
     (case take_zeroed (zeroed_phys_buffer s) of
        Some (f, fs) \<Rightarrow> (f, s\<lparr>zeroed_phys_buffer := fs, please_provide_zeroed_phys := please_provide_zeroed_phys s + 1\<rparr>)
      | None \<Rightarrow>
          let (f, s) = AllocPhys True (s\<lparr>please_provide_zeroed_phys := of_nat ZEROED_PHYS_BUFFER_COUNT\<rparr>)
          in (f, ZeroPhysPage f s))"

fun put_zeroed :: "nat \<Rightarrow> nat list \<Rightarrow> nat list option" where
  "put_zeroed phys [] = None"
| "put_zeroed phys (f # fs) = (if f = 0 then Some (phys # fs) else map_option (Cons f) (put_zeroed phys fs))"

definition ProvideZeroedPhys :: "nat \<Rightarrow> 'a phys_scheme \<Rightarrow> bool \<times> 'a phys_scheme" where
  "ProvideZeroedPhys phys s =
     (if phys = 0 then (False, s)
      else if please_provide_zeroed_phys s = 0 then (False, s)
      else
        (case put_zeroed phys (zeroed_phys_buffer s) of
           Some fs \<Rightarrow> (True, s\<lparr>zeroed_phys_buffer := fs, please_provide_zeroed_phys := please_provide_zeroed_phys s - 1\<rparr>)
         | None \<Rightarrow> (False, s\<lparr>please_provide_zeroed_phys := 0\<rparr>)))"

section \<open>Start\<close>

record boot_memory_entry =
  address :: u64
  mem_length :: u64
  info :: u64

definition page_start :: "boot_memory_entry \<Rightarrow> u32" where
  "page_start e = ucast ((address e + of_nat PAGE_SIZE - 1) div of_nat PAGE_SIZE)"

definition page_end :: "boot_memory_entry \<Rightarrow> u32" where
  "page_end e = ucast ((address e + mem_length e) div of_nat PAGE_SIZE)"

definition is_available :: "boot_memory_entry \<Rightarrow> bool" where
  "is_available e \<longleftrightarrow> info e AND 0xF = 0"

definition max_page_index :: "boot_memory_entry list \<Rightarrow> u32" where
  "max_page_index entries = fold (\<lambda>e m. if is_available e then max m (page_end e) else m) entries 0"

definition reserved_page :: "u32 \<Rightarrow> u32 \<Rightarrow> bool" where
  "reserved_page max_addr_used j \<longleftrightarrow>
     (0x10000 \<le> j * of_nat PAGE_SIZE \<and> j * of_nat PAGE_SIZE < max_addr_used) \<or>
     j * of_nat PAGE_SIZE = 0 \<or> j * of_nat PAGE_SIZE = 0xA000 \<or> j * of_nat PAGE_SIZE = 0xC000"

definition no_page :: phys_page where
  "no_page = \<lparr>origin = None, pvp = None, chain = [], lru = 0, wired = 0, allocated = False, exists = False, pdirty = False\<rparr>"

definition add_page :: "u32 \<Rightarrow> u32 \<Rightarrow> nat \<Rightarrow> phys_page list \<times> u32 \<Rightarrow> phys_page list \<times> u32" where
  "add_page max_addr_used max_index j tf =
     (case tf of (t, f) \<Rightarrow>
        if reserved_page max_addr_used (of_nat j) then (t, f)
        else if j < unat max_index then (t[j := (t ! j)\<lparr>exists := True\<rparr>], f + 1)
        else (t, f))"

definition add_entry :: "u32 \<Rightarrow> u32 \<Rightarrow> boot_memory_entry \<Rightarrow> phys_page list \<times> u32 \<Rightarrow> phys_page list \<times> u32" where
  "add_entry max_addr_used max_index e tf =
     (if is_available e then fold (add_page max_addr_used max_index) [unat (page_start e)..<unat (page_end e)] tf else tf)"

text \<open>
  \<open>raw\<close> is what the memory behind the kernel (up to \<open>max_kernel_addr\<close>) holds where the table is put; an entry has \<open>pp_size\<close> bytes.
\<close>

definition InitPhys :: "boot_memory_entry list \<Rightarrow> u32 \<Rightarrow> u32 \<Rightarrow> phys_page list \<Rightarrow> phys option" where
  "InitPhys entries max_kernel_addr pp_size raw =
     (let max_pp = (1024 * 4096 - max_kernel_addr) div pp_size;
          max_index = min (max_page_index entries) max_pp - 1;
          max_addr_used = max_kernel_addr + ((max_index * pp_size + of_nat PAGE_SIZE - 1) AND NOT (of_nat PAGE_SIZE - 1));
          table = replicate (unat max_index) no_page @ [raw ! unat max_index];
          (table, free) = fold (add_entry max_addr_used max_index) entries (table, 0);
          total = fold (\<lambda>e t. if is_available e then t + (page_end e - page_start e) else t) entries 0
      in if unat max_index < 12 \<or> length raw \<le> unat max_index then None
         else Some \<lparr>sys_pp_table = table[10 := (table ! 10)\<lparr>exists := True\<rparr>, 12 := (table ! 12)\<lparr>exists := True\<rparr>], sys_free_pp = free + 2,
           sys_total_pp = total, low_memory_messages = 0, zeroed_phys_buffer = replicate ZEROED_PHYS_BUFFER_COUNT 0, please_provide_zeroed_phys = 0,
           contents = \<lambda>_. []\<rparr>)"

section \<open>The free pages\<close>

definition free_pages :: "'a phys_scheme \<Rightarrow> nat set" where
  "free_pages s = {i. i < length (sys_pp_table s) \<and> exists (sys_pp_table s ! i) \<and> \<not> allocated (sys_pp_table s ! i)}"

text \<open>The number of free pages is right, and page 0, whose address means that there is none, is not one of them.\<close>

definition phys_ok :: "'a phys_scheme \<Rightarrow> bool" where
  "phys_ok s \<longleftrightarrow> sys_free_pp s = of_nat (card (free_pages s)) \<and> 0 \<notin> free_pages s \<and> 0 < length (sys_pp_table s) \<and>
     length (sys_pp_table s) * PAGE_SIZE \<le> 2 ^ 32"

lemma finite_free [simp]: "finite (free_pages s)"
  unfolding free_pages_def by (rule finite_subset [of _ "{..<length (sys_pp_table s)}"]) auto

lemma first_free_Some:
  "first_free t = Some i \<Longrightarrow> i < length t \<and> exists (t ! i) \<and> \<not> allocated (t ! i) \<and> (\<forall>j<i. \<not> (exists (t ! j) \<and> \<not> allocated (t ! j)))"
  by (induction t arbitrary: i) (auto split: if_splits simp: less_Suc_eq_0_disj nth_Cons split: nat.splits)

lemma first_free_None: "first_free t = None \<longleftrightarrow> (\<forall>i<length t. \<not> (exists (t ! i) \<and> \<not> allocated (t ! i)))"
  by (induction t) (auto simp: less_Suc_eq_0_disj)

lemma page_addr [simp]: "GetPhysPage (GetPhysAddr i) = i"
  by (simp add: GetPhysPage_def GetPhysAddr_def)

lemma AllocPhys_none: "free_pages s = {} \<Longrightarrow> AllocPhys pin s = (0, s)"
  using first_free_None [of "sys_pp_table s"] by (auto simp: AllocPhys_def free_pages_def)

lemma AllocPhys_some:
  assumes "free_pages s \<noteq> {}"
  obtains s' where "AllocPhys pin s = (GetPhysAddr (Min (free_pages s)), s')"
    "sys_pp_table s' = (sys_pp_table s)[Min (free_pages s) := (sys_pp_table s ! Min (free_pages s))\<lparr>allocated := True, wired := of_bool pin\<rparr>]"
    "sys_free_pp s' = sys_free_pp s - 1" "contents s' = contents s" "zeroed_phys_buffer s' = zeroed_phys_buffer s" "phys.more s' = phys.more s"
proof -
  obtain i where i: "first_free (sys_pp_table s) = Some i"
    using assms first_free_None [of "sys_pp_table s"] by (cases "first_free (sys_pp_table s)") (auto simp: free_pages_def)
  have "i \<in> free_pages s" "\<forall>j \<in> free_pages s. i \<le> j"  using first_free_Some [OF i] by (auto simp: free_pages_def) (meson leI)
  then have "Min (free_pages s) = i" by (meson Min_in Min_le antisym assms finite_free)
  then show ?thesis using that i by (simp add: AllocPhys_def upd_page_def Let_def)
qed

lemma free_pages_update:
  assumes "i < length (sys_pp_table s)" "sys_pp_table s' = (sys_pp_table s)[i := pp]"
  shows "free_pages s' = (if exists pp \<and> \<not> allocated pp then insert i (free_pages s) else free_pages s - {i})"
  using assms by (auto simp: free_pages_def nth_list_update split: if_splits)

text \<open>An allocation takes the first free page, or says that there is none; the count goes with it.\<close>

lemma AllocPhys_ok:
  assumes "phys_ok s" "AllocPhys pin s = (phys, s')"
  shows "phys_ok s' \<and>
    (if free_pages s = {} then phys = 0 \<and> s' = s
     else phys = GetPhysAddr (Min (free_pages s)) \<and> phys \<noteq> 0 \<and> phys < 2 ^ 32 \<and> free_pages s' = free_pages s - {Min (free_pages s)} \<and>
       allocated (sys_pp_table s' ! Min (free_pages s)) \<and> (\<forall>j. j \<noteq> Min (free_pages s) \<longrightarrow> sys_pp_table s' ! j = sys_pp_table s ! j) \<and>
       length (sys_pp_table s') = length (sys_pp_table s) \<and> phys.more s' = phys.more s)"
proof (cases "free_pages s = {}")
  case True
  then show ?thesis using AllocPhys_none [OF True, of pin] assms by simp
next
  case False
  define i where "i = Min (free_pages s)"
  obtain t where t: "AllocPhys pin s = (GetPhysAddr i, t)" "sys_pp_table t = (sys_pp_table s)[i := (sys_pp_table s ! i)\<lparr>allocated := True, wired := of_bool pin\<rparr>]"
    "sys_free_pp t = sys_free_pp s - 1" "phys.more t = phys.more s" using AllocPhys_some [OF False, of pin] unfolding i_def by blast
  have i: "i \<in> free_pages s" using False by (simp add: i_def)
  then have l: "i < length (sys_pp_table s)" by (simp add: free_pages_def)
  have f: "free_pages t = free_pages s - {i}" using free_pages_update [OF l t(2)] by simp
  have "0 < i" using i assms(1) by (metis phys_ok_def gr0I)
  then have a: "GetPhysAddr i \<noteq> 0" "GetPhysAddr i < 2 ^ 32" using l assms(1) by (simp_all add: phys_ok_def GetPhysAddr_def)
  have c: "card (free_pages s) = Suc (card (free_pages t))" unfolding f using i by (metis card_Suc_Diff1 finite_free)
  have "phys_ok t" using assms(1) f t(2,3) by (simp add: phys_ok_def c)
  moreover have "s' = t" "phys = GetPhysAddr i" using assms(2) t(1) by simp_all
  moreover have "allocated (sys_pp_table t ! i)" "\<forall>j. j \<noteq> i \<longrightarrow> sys_pp_table t ! j = sys_pp_table s ! j" "length (sys_pp_table t) = length (sys_pp_table s)"
    using l t(2) by simp_all
  ultimately show ?thesis using False a f t(4) unfolding i_def [symmetric] by simp
qed

lemma FreeDiscardedPhys_ok:
  assumes "phys_ok s" "i < length (sys_pp_table s)" "i \<noteq> 0" "exists (sys_pp_table s ! i)" "allocated (sys_pp_table s ! i)"
  obtains s' where "FreeDiscardedPhys i s = Some s'" "phys_ok s'" "free_pages s' = insert i (free_pages s)"
    "sys_pp_table s' = (sys_pp_table s)[i := (sys_pp_table s ! i)\<lparr>chain := [], origin := None, allocated := False, pdirty := False, wired := 0, lru := 0\<rparr>]"
    "phys.more s' = phys.more s" "contents s' = contents s" "zeroed_phys_buffer s' = zeroed_phys_buffer s"
proof -
  let ?s = "s\<lparr>sys_pp_table := (sys_pp_table s)[i := (sys_pp_table s ! i)\<lparr>chain := [], origin := None, allocated := False, pdirty := False, wired := 0, lru := 0\<rparr>],
    sys_free_pp := sys_free_pp s + 1\<rparr>"
  have "FreeDiscardedPhys i s = Some ?s" using assms(2) by (simp add: FreeDiscardedPhys_def the_page_def upd_page_def)
  moreover have f: "free_pages ?s = insert i (free_pages s)"
    by (subst free_pages_update [OF assms(2), of _ "(sys_pp_table s ! i)\<lparr>chain := [], origin := None, allocated := False, pdirty := False, wired := 0, lru := 0\<rparr>"]) (use assms(4) in auto)
  moreover have "i \<notin> free_pages s" using assms(5) by (simp add: free_pages_def)
  then have "phys_ok ?s" using assms(1,3) f by (simp add: phys_ok_def add.commute)
  ultimately show ?thesis using that [of ?s] by simp
qed

text \<open>Pages of the kernel are in use without being allocated (and do not count as existing): to free them changes the count only.\<close>

lemma FreeDiscardedPhys_kernel_page:
  assumes "phys_ok s" "i < length (sys_pp_table s)" "\<not> exists (sys_pp_table s ! i)"
  shows "\<exists>s'. FreeDiscardedPhys i s = Some s' \<and> free_pages s' = free_pages s \<and> sys_free_pp s' = of_nat (card (free_pages s')) + 1"
proof -
  let ?s = "s\<lparr>sys_pp_table := (sys_pp_table s)[i := (sys_pp_table s ! i)\<lparr>chain := [], origin := None, allocated := False, pdirty := False, wired := 0, lru := 0\<rparr>],
    sys_free_pp := sys_free_pp s + 1\<rparr>"
  have "FreeDiscardedPhys i s = Some ?s" using assms(2) by (simp add: FreeDiscardedPhys_def the_page_def upd_page_def)
  moreover have "free_pages ?s = free_pages s - {i}"
    by (subst free_pages_update [OF assms(2), of _ "(sys_pp_table s ! i)\<lparr>chain := [], origin := None, allocated := False, pdirty := False, wired := 0, lru := 0\<rparr>"]) (use assms(3) in auto)
  then have "free_pages ?s = free_pages s" using assms(3) by (auto simp: free_pages_def)
  ultimately show ?thesis using assms(1) by (simp add: phys_ok_def)
qed

text \<open>Without a page, \<open>AllocZeroedPhys\<close> zeroes the page at address 0 before it says so.\<close>

lemma AllocZeroedPhys_clears_page_0:
  assumes "free_pages s = {}" "zeroed_phys_buffer s = [0, 0]"
  shows "fst (AllocZeroedPhys s) = 0 \<and> contents (snd (AllocZeroedPhys s)) 0 = replicate PAGE_SIZE 0"
  using assms by (simp add: AllocZeroedPhys_def AllocPhys_none free_pages_def ZeroPhysPage_def GetPhysPage_def)

section \<open>The pages found at the start\<close>

definition available_pages :: "boot_memory_entry list \<Rightarrow> nat list" where
  "available_pages entries = concat (map (\<lambda>e. if is_available e then [unat (page_start e)..<unat (page_end e)] else []) entries)"

lemma fold_add_entry: "fold (add_entry a m) entries tf = fold (add_page a m) (available_pages entries) tf"
  by (induction entries arbitrary: tf) (simp_all add: available_pages_def add_entry_def)

definition usable_page :: "u32 \<Rightarrow> u32 \<Rightarrow> nat \<Rightarrow> bool" where
  "usable_page a m j \<longleftrightarrow> \<not> reserved_page a (of_nat j) \<and> j < unat m"

lemma fold_add_page:
  assumes "distinct js" "unat m \<le> length t"
  shows "length (fst (fold (add_page a m) js (t, f))) = length t \<and>
    (\<forall>i < length t. fst (fold (add_page a m) js (t, f)) ! i = (if i \<in> set js \<and> usable_page a m i then (t ! i)\<lparr>exists := True\<rparr> else t ! i)) \<and>
    snd (fold (add_page a m) js (t, f)) = f + of_nat (card {j \<in> set js. usable_page a m j})"
  using assms
proof (induction js arbitrary: t f)
  case (Cons j js)
  let ?u = "usable_page a m j"
  have step: "add_page a m j (t, f) = (if ?u then t[j := (t ! j)\<lparr>exists := True\<rparr>] else t, if ?u then f + 1 else f)"
    by (simp add: add_page_def usable_page_def)
  have jl: "?u \<Longrightarrow> j < length t" using Cons.prems(2) by (simp add: usable_page_def)
  have "{i \<in> set (j # js). usable_page a m i} = (if ?u then insert j {i \<in> set js. usable_page a m i} else {i \<in> set js. usable_page a m i})" by auto
  then have c: "card {i \<in> set (j # js). usable_page a m i} = card {i \<in> set js. usable_page a m i} + of_bool ?u" using Cons.prems(1) by simp
  show ?case
  proof (cases ?u)
    case True
    have l: "unat m \<le> length (t[j := (t ! j)\<lparr>exists := True\<rparr>])" using Cons.prems(2) by simp
    note IH = Cons.IH [OF _ l, of "f + 1"]
    show ?thesis unfolding c using IH Cons.prems(1) True jl [OF True] by (auto simp: step nth_list_update)
  next
    case False
    show ?thesis unfolding c using Cons.IH [OF _ Cons.prems(2), of f] Cons.prems(1) False by (auto simp: step)
  qed
qed simp

text \<open>The address up to which memory is in use at the start, and the last index of the table.\<close>

definition last_index :: "boot_memory_entry list \<Rightarrow> u32 \<Rightarrow> u32 \<Rightarrow> u32" where
  "last_index entries k pp_size = min (max_page_index entries) ((1024 * 4096 - k) div pp_size) - 1"

definition used_now :: "boot_memory_entry list \<Rightarrow> u32 \<Rightarrow> u32 \<Rightarrow> u32" where
  "used_now entries k pp_size = k + ((last_index entries k pp_size * pp_size + of_nat PAGE_SIZE - 1) AND NOT (of_nat PAGE_SIZE - 1))"

lemma InitPhys_eq:
  "InitPhys entries k pp_size raw =
    (let m = last_index entries k pp_size;
         (table, free) = fold (add_page (used_now entries k pp_size) m) (available_pages entries) (replicate (unat m) no_page @ [raw ! unat m], 0);
         total = fold (\<lambda>e t. if is_available e then t + (page_end e - page_start e) else t) entries 0
     in if unat m < 12 \<or> length raw \<le> unat m then None
        else Some \<lparr>sys_pp_table = table[10 := (table ! 10)\<lparr>exists := True\<rparr>, 12 := (table ! 12)\<lparr>exists := True\<rparr>], sys_free_pp = free + 2,
          sys_total_pp = total, low_memory_messages = 0, zeroed_phys_buffer = replicate ZEROED_PHYS_BUFFER_COUNT 0, please_provide_zeroed_phys = 0,
          contents = \<lambda>_. []\<rparr>)"
  unfolding InitPhys_def Let_def fold_add_entry last_index_def used_now_def by simp



text \<open>
  The last entry of the table is looked at by every walk over it, but the loop that clears the table stops before it: it stays what
  the memory held.
\<close>

lemma InitPhys_last_entry:
  assumes "InitPhys entries k pp_size raw = Some s" "distinct (available_pages entries)" "unat (last_index entries k pp_size) \<noteq> 12"
    and "exists (raw ! unat (last_index entries k pp_size))" "\<not> allocated (raw ! unat (last_index entries k pp_size))"
  shows "unat (last_index entries k pp_size) \<in> free_pages s"
proof -
  define m where "m = last_index entries k pp_size"
  define a where "a = used_now entries k pp_size"
  define t0 where "t0 = replicate (unat m) no_page @ [raw ! unat m]"
  obtain t f where tf: "fold (add_page a m) (available_pages entries) (t0, 0) = (t, f)" by fastforce
  have s: "sys_pp_table s = t[10 := (t ! 10)\<lparr>exists := True\<rparr>, 12 := (t ! 12)\<lparr>exists := True\<rparr>]" "12 < unat m"
    using assms(1,3) tf unfolding InitPhys_eq m_def [symmetric] a_def [symmetric] t0_def by (auto split: if_splits)
  have "unat m \<le> length t0" by (simp add: t0_def)
  note F = fold_add_page [OF assms(2) this, of a 0, unfolded tf fst_conv snd_conv]
  have "length t = unat m + 1" "t ! unat m = raw ! unat m" using F by (simp_all add: t0_def nth_append usable_page_def)
  then show ?thesis using s assms(4,5) by (simp add: free_pages_def m_def)
qed



end
