(* ===== verification/Vmm.thy ===== *)
theory Vmm
  imports Phys
begin

unbundle bit_operations_syntax

text \<open>
  The virtual memory manager (\<^verbatim>\<open>kernel/mem/vmm.c\<close>) on one CPU and one address space, the only one there is (\<open>CreateVas\<close> has no
  caller). Operations that give up their locks on the way are cut there into sections, each of which runs
  undisturbed; the whole operations compose them for a caller that is not disturbed between them either. \<open>None\<close> is a panic, a failed assertion or a wild pointer. Pointers to virtual
  pages and to origins are numbers; where they come from, and what a loader puts into a frame, are arguments.
\<close>

section \<open>State\<close>

text \<open>\<open>loc\<close> is the union of the physical address and the pointer to the origin.\<close>

record virt_page =
  vrefs :: nat
  vaddr :: nat
  loc :: nat
  present :: bool
  vwrite :: bool
  user :: bool
  accessed :: bool
  vdirty :: bool
  executable :: bool
  vfixed :: bool
  busy :: u8

record page_origin =
  orefs :: nat
  is_file :: bool
  ofixed :: bool
  ophys :: nat
  ofile :: nat
  file_offset :: u32
  mtx_held :: bool

type_synonym slots = "nat \<Rightarrow> nat option"
type_synonym slot_table = "nat \<Rightarrow> slots option"

text \<open>\<open>ptes\<close> are the entries of the page tables of the processor, by page number.\<close>

record vmm = phys +
  virt_pages :: "nat \<Rightarrow> virt_page option"
  origins :: "nat \<Rightarrow> page_origin option"
  mappings :: "nat \<Rightarrow> slot_table option"
  ptes :: "nat \<Rightarrow> u32"
  clock_hand :: "nat option"
  file_refs :: "nat \<Rightarrow> nat"

abbreviation (input) MAPPINGS_PER_LEVEL :: nat where "MAPPINGS_PER_LEVEL \<equiv> 128"
abbreviation (input) VMM_MAX_FAULT_RETRIES :: nat where "VMM_MAX_FAULT_RETRIES \<equiv> 100"
abbreviation (input) VP_WRITE :: u32 where "VP_WRITE \<equiv> 1"
abbreviation (input) VP_USER :: u32 where "VP_USER \<equiv> 2"
abbreviation (input) VP_EXEC :: u32 where "VP_EXEC \<equiv> 4"
abbreviation (input) PF_WRITE :: u32 where "PF_WRITE \<equiv> 2"
abbreviation (input) PF_USER :: u32 where "PF_USER \<equiv> 4"
abbreviation (input) PF_FETCH :: u32 where "PF_FETCH \<equiv> 8"
abbreviation (input) LRU_REFERENCED :: u16 where "LRU_REFERENCED \<equiv> 0x8000"

definition set_vp :: "nat \<Rightarrow> virt_page \<Rightarrow> vmm \<Rightarrow> vmm" where
  "set_vp v y s = s\<lparr>virt_pages := (virt_pages s)(v \<mapsto> y)\<rparr>"

definition set_origin :: "nat \<Rightarrow> page_origin \<Rightarrow> vmm \<Rightarrow> vmm" where
  "set_origin o1 x s = s\<lparr>origins := (origins s)(o1 \<mapsto> x)\<rparr>"

section \<open>Mapping tables\<close>

definition slot_index :: "nat \<Rightarrow> nat \<times> nat \<times> nat" where
  "slot_index virt =
     (let index = virt div PAGE_SIZE
      in (index div MAPPINGS_PER_LEVEL div MAPPINGS_PER_LEVEL, index div MAPPINGS_PER_LEVEL mod MAPPINGS_PER_LEVEL, index mod MAPPINGS_PER_LEVEL))"

text \<open>\<open>mem\<close> says for which levels there is memory for a new table.\<close>

definition GetVirtualPageSlot :: "nat \<Rightarrow> bool \<Rightarrow> bool \<times> bool \<Rightarrow> vmm \<Rightarrow> (nat \<times> nat \<times> nat) option \<times> vmm" where
  "GetVirtualPageSlot virt create mem s =
     (case slot_index virt of (level_1, level_2, level_3) \<Rightarrow>
        if MAPPINGS_PER_LEVEL \<le> level_1 then (None, s)
        else if mappings s level_1 = None \<and> (\<not> create \<or> \<not> fst mem) then (None, s)
        else
          let table = (case mappings s level_1 of None \<Rightarrow> (\<lambda>_. None) | Some t \<Rightarrow> t);
              s = s\<lparr>mappings := (mappings s)(level_1 \<mapsto> table)\<rparr>
          in if table level_2 = None \<and> (\<not> create \<or> \<not> snd mem) then (None, s)
             else
               let table2 = (case table level_2 of None \<Rightarrow> (\<lambda>_. None) | Some t \<Rightarrow> t)
               in (Some (level_1, level_2, level_3), s\<lparr>mappings := (mappings s)(level_1 \<mapsto> table(level_2 \<mapsto> table2))\<rparr>))"

definition read_slot :: "nat \<times> nat \<times> nat \<Rightarrow> vmm \<Rightarrow> nat option" where
  "read_slot slot s =
     (case slot of (level_1, level_2, level_3) \<Rightarrow>
        (case mappings s level_1 of None \<Rightarrow> None | Some t \<Rightarrow> (case t level_2 of None \<Rightarrow> None | Some t \<Rightarrow> t level_3)))"

definition write_slot :: "nat \<times> nat \<times> nat \<Rightarrow> nat option \<Rightarrow> vmm \<Rightarrow> vmm" where
  "write_slot slot v s =
     (case slot of (level_1, level_2, level_3) \<Rightarrow>
        (case mappings s level_1 of
           None \<Rightarrow> s
         | Some t \<Rightarrow>
             (case t level_2 of
                None \<Rightarrow> s
              | Some t2 \<Rightarrow> s\<lparr>mappings := (mappings s)(level_1 \<mapsto> t(level_2 \<mapsto> t2(level_3 := v)))\<rparr>)))"

definition GetVirtualPageFromVirt :: "nat \<Rightarrow> vmm \<Rightarrow> nat option" where
  "GetVirtualPageFromVirt virt s =
     (case fst (GetVirtualPageSlot virt False (False, False) s) of None \<Rightarrow> None | Some slot \<Rightarrow> read_slot slot s)"

section \<open>Objects\<close>

definition RefOrigin :: "nat \<Rightarrow> vmm \<Rightarrow> vmm option" where
  "RefOrigin o1 s = do { x \<leftarrow> origins s o1; Some (set_origin o1 (x\<lparr>orefs := orefs x + 1\<rparr>) s) }"

definition CleanupPageOrigin :: "nat \<Rightarrow> page_origin \<Rightarrow> vmm \<Rightarrow> vmm" where
  "CleanupPageOrigin o1 x s =
     (let s = (if is_file x then s\<lparr>file_refs := (file_refs s)(ofile x := file_refs s (ofile x) - 1)\<rparr> else s)
      in s\<lparr>origins := (origins s)(o1 := None)\<rparr>)"

definition DerefOrigin :: "nat \<Rightarrow> vmm \<Rightarrow> vmm option" where
  "DerefOrigin o1 s =
     do { x \<leftarrow> origins s o1;
          if orefs x = 0 then None
          else if orefs x = 1 then Some (CleanupPageOrigin o1 x s)
          else Some (set_origin o1 (x\<lparr>orefs := orefs x - 1\<rparr>) s) }"

definition RefVp :: "nat \<Rightarrow> vmm \<Rightarrow> vmm option" where
  "RefVp v s = do { y \<leftarrow> virt_pages s v; Some (set_vp v (y\<lparr>vrefs := vrefs y + 1\<rparr>) s) }"

definition CleanupVirtPage :: "nat \<Rightarrow> virt_page \<Rightarrow> vmm \<Rightarrow> vmm option" where
  "CleanupVirtPage v y s =
     (if busy y \<noteq> 0 then None
      else
        do { s \<leftarrow> (if present y then Some s else DerefOrigin (loc y) s);
             Some (s\<lparr>virt_pages := (virt_pages s)(v := None)\<rparr>) })"

definition DerefVp :: "nat \<Rightarrow> vmm \<Rightarrow> vmm option" where
  "DerefVp v s =
     do { y \<leftarrow> virt_pages s v;
          if vrefs y = 0 then None
          else if vrefs y = 1 then CleanupVirtPage v y s
          else Some (set_vp v (y\<lparr>vrefs := vrefs y - 1\<rparr>) s) }"

definition CreatePageOrigin :: "nat option \<Rightarrow> nat option \<Rightarrow> u32 \<Rightarrow> nat \<Rightarrow> bool \<Rightarrow> vmm \<Rightarrow> nat option \<times> vmm" where
  "CreatePageOrigin mem file offset phys fixed s =
     (case mem of
        None \<Rightarrow> (None, s)
      | Some o1 \<Rightarrow>
          let x = \<lparr>orefs = 1, is_file = (file \<noteq> None), ofixed = fixed, ophys = phys, ofile = (case file of None \<Rightarrow> 0 | Some f \<Rightarrow> f), file_offset = offset, mtx_held = False\<rparr>;
              s = (case file of None \<Rightarrow> s | Some f \<Rightarrow> s\<lparr>file_refs := (file_refs s)(f := file_refs s f + 1)\<rparr>)
          in (Some o1, set_origin o1 x s))"

text \<open>The two pointers are those of the virtual page and of its origin.\<close>

definition CreateVirtPage :: "nat option \<times> nat option \<Rightarrow> bool \<times> bool \<Rightarrow> nat \<Rightarrow> u32 \<Rightarrow> nat option \<Rightarrow> u32 \<Rightarrow> nat \<Rightarrow> bool \<Rightarrow> vmm \<Rightarrow> (nat option \<times> vmm) option" where
  "CreateVirtPage mem tables virt flags file offset phys fixed s =
     (if flags AND VP_WRITE \<noteq> 0 \<and> flags AND VP_EXEC \<noteq> 0 then Some (None, s)
      else
        (case fst mem of
           None \<Rightarrow> Some (None, s)
         | Some v \<Rightarrow>
             (case CreatePageOrigin (snd mem) file offset phys fixed s of
                (None, s) \<Rightarrow> Some (None, s)
              | (Some po, s) \<Rightarrow>
                  let s = set_vp v \<lparr>vrefs = 1, vaddr = virt, loc = po, present = False, vwrite = flags AND VP_WRITE \<noteq> 0, user = flags AND VP_USER \<noteq> 0,
                        accessed = False, vdirty = False, executable = flags AND VP_EXEC \<noteq> 0, vfixed = fixed, busy = 0\<rparr> s;
                      (slot, s) = GetVirtualPageSlot virt True tables s
                  in (case slot of
                        None \<Rightarrow> do { s \<leftarrow> DerefVp v s; Some (None, s) }
                      | Some slot \<Rightarrow>
                          if read_slot slot s \<noteq> None then do { s \<leftarrow> DerefVp v s; Some (None, s) }
                          else Some (Some v, write_slot slot (Some v) s)))))"


section \<open>Page tables of the processor\<close>

abbreviation (input) PAGE_PRESENT :: u32 where "PAGE_PRESENT \<equiv> 1"
abbreviation (input) PAGE_WRITE :: u32 where "PAGE_WRITE \<equiv> 2"
abbreviation (input) PAGE_USER :: u32 where "PAGE_USER \<equiv> 4"
abbreviation (input) PAGE_ACCESSED :: u32 where "PAGE_ACCESSED \<equiv> 32"
abbreviation (input) PAGE_DIRTY :: u32 where "PAGE_DIRTY \<equiv> 64"
abbreviation (input) PAGE_GLOBAL :: u32 where "PAGE_GLOBAL \<equiv> 256"
abbreviation (input) ARCH_KRNL_MAPPING_BASE :: nat where "ARCH_KRNL_MAPPING_BASE \<equiv> 0xC0000000"

definition InKernelRange :: "nat \<Rightarrow> bool" where "InKernelRange virt \<longleftrightarrow> ARCH_KRNL_MAPPING_BASE \<le> virt"

definition TranslateToEntry :: "virt_page \<Rightarrow> u32" where
  "TranslateToEntry y =
     (of_nat (loc y) AND NOT 0xFFF) OR
     ((if present y \<and> busy y = 0 then PAGE_PRESENT else 0) OR (if vwrite y then PAGE_WRITE else 0) OR (if user y then PAGE_USER else 0) OR
      (if InKernelRange (vaddr y) then PAGE_GLOBAL else 0))"

definition SynchroniseVirt :: "virt_page \<Rightarrow> vmm \<Rightarrow> vmm" where
  "SynchroniseVirt y s = s\<lparr>ptes := (ptes s)(vaddr y div PAGE_SIZE := TranslateToEntry y)\<rparr>"

text \<open>The bits are read from the entry of the page, and cleared in the first entry of its table.\<close>

definition ArchReadVirtDirtyAndAccessed :: "virt_page \<Rightarrow> vmm \<Rightarrow> virt_page \<times> vmm" where
  "ArchReadVirtDirtyAndAccessed y s =
     (let i = vaddr y div PAGE_SIZE; entry = ptes s i; first = i div 1024 * 1024
      in (y\<lparr>vdirty := (entry AND PAGE_DIRTY \<noteq> 0), accessed := (entry AND PAGE_ACCESSED \<noteq> 0)\<rparr>,
          s\<lparr>ptes := (ptes s)(first := ptes s first AND NOT (PAGE_DIRTY OR PAGE_ACCESSED))\<rparr>))"

section \<open>The users of a physical page\<close>

fun call_on_chain :: "(nat \<Rightarrow> nat \<Rightarrow> vmm \<Rightarrow> vmm option) \<Rightarrow> nat \<Rightarrow> nat list \<Rightarrow> vmm \<Rightarrow> vmm option" where
  "call_on_chain func pp [] s = Some s"
| "call_on_chain func pp (v # vs) s = do { s \<leftarrow> func pp v s; call_on_chain func pp vs s }"

definition CallOnVirtualUsers :: "nat \<Rightarrow> (nat \<Rightarrow> nat \<Rightarrow> vmm \<Rightarrow> vmm option) \<Rightarrow> vmm \<Rightarrow> vmm option" where
  "CallOnVirtualUsers pp func s =
     do { x \<leftarrow> the_page s pp;
          s \<leftarrow> (case pvp x of None \<Rightarrow> Some s | Some v \<Rightarrow> func pp v s);
          x \<leftarrow> the_page s pp;
          call_on_chain func pp (chain x) s }"

definition EnterCriticalVirt :: "nat \<Rightarrow> nat \<Rightarrow> vmm \<Rightarrow> vmm option" where
  "EnterCriticalVirt pp v s =
     do { y \<leftarrow> virt_pages s v;
          if busy y = 0 then
            let (y, s) = ArchReadVirtDirtyAndAccessed (y\<lparr>busy := 1\<rparr>) s;
                s = upd_page pp (\<lambda>x. x\<lparr>pdirty := pdirty x \<or> vdirty y, lru := (if accessed y then lru x OR LRU_REFERENCED else lru x)\<rparr>) s;
                y = y\<lparr>accessed := False\<rparr>
            in Some (SynchroniseVirt y (set_vp v y s))
          else if busy y + 1 = 0 then None
          else Some (set_vp v (y\<lparr>busy := busy y + 1\<rparr>) s) }"

definition LeaveCriticalVirt :: "nat \<Rightarrow> nat \<Rightarrow> vmm \<Rightarrow> vmm option" where
  "LeaveCriticalVirt pp v s =
     do { y \<leftarrow> virt_pages s v;
          if busy y = 0 then None
          else
            let y = y\<lparr>busy := busy y - 1\<rparr>; s = set_vp v y s
            in Some (if busy y = 0 then SynchroniseVirt y s else s) }"

definition EnterPhysPageCriticalSection :: "nat \<Rightarrow> vmm \<Rightarrow> vmm option" where
  "EnterPhysPageCriticalSection pp = CallOnVirtualUsers pp EnterCriticalVirt"

definition LeavePhysPageCriticalSection :: "nat \<Rightarrow> vmm \<Rightarrow> vmm option" where
  "LeavePhysPageCriticalSection pp = CallOnVirtualUsers pp LeaveCriticalVirt"

definition DiscardVirt :: "nat \<Rightarrow> nat \<Rightarrow> vmm \<Rightarrow> vmm option" where
  "DiscardVirt pp v s =
     do { y \<leftarrow> virt_pages s v;
          x \<leftarrow> the_page s pp;
          o1 \<leftarrow> origin x;
          let y = y\<lparr>present := False, loc := o1\<rparr>;
          s \<leftarrow> RefOrigin o1 (set_vp v y s);
          Some (SynchroniseVirt y s) }"

section \<open>Discarding\<close>

text \<open>Whether a page may be discarded, without and with the bits that the critical section has collected.\<close>

definition candidate :: "nat \<Rightarrow> vmm \<Rightarrow> bool option" where
  "candidate pp s =
     do { x \<leftarrow> the_page s pp;
          if wired x \<noteq> 0 then Some False
          else
            (case origin x of
               None \<Rightarrow> Some False
             | Some o1 \<Rightarrow> do { ox \<leftarrow> origins s o1; Some (is_file ox \<and> (pvp x \<noteq> None \<or> chain x \<noteq> [])) }) }"

text \<open>\<open>max_index\<close> is the index of the last page. The result holds the critical section of the page.\<close>

function discard_loop :: "nat \<Rightarrow> nat \<Rightarrow> nat \<Rightarrow> vmm \<Rightarrow> (nat option \<times> vmm) option" where
  "discard_loop max_index hand wraps s =
     (if max_index < hand \<or> 2 < wraps then None
      else
        let pp = hand;
            hand = (if pp = max_index then 0 else pp + 1);
            wraps = (if pp = max_index then wraps + 1 else wraps)
        in if 2 < wraps then Some (None, s\<lparr>clock_hand := Some hand\<rparr>)
           else
             do { cand \<leftarrow> candidate pp s;
                  if \<not> cand then discard_loop max_index hand wraps s
                  else
                    do { s \<leftarrow> EnterPhysPageCriticalSection pp s;
                         x \<leftarrow> the_page s pp;
                         cand \<leftarrow> candidate pp s;
                         let usable = (cand \<and> \<not> pdirty x);
                         if usable \<and> lru x AND LRU_REFERENCED = 0 then Some (Some pp, s\<lparr>clock_hand := Some hand\<rparr>)
                         else
                           do { let s = (if usable then upd_page pp (\<lambda>x. x\<lparr>lru := lru x AND NOT LRU_REFERENCED\<rparr>) s else s);
                                s \<leftarrow> LeavePhysPageCriticalSection pp s;
                                discard_loop max_index hand wraps s } } })"
  by pat_completeness auto
termination
  by (relation "measures [\<lambda>(m, c, w, s). 3 - w, \<lambda>(m, c, w, s). m - c]") (auto split: if_splits)

declare discard_loop.simps [simp del]

definition FindDiscardPage :: "vmm \<Rightarrow> (nat option \<times> vmm) option" where
  "FindDiscardPage s =
     discard_loop (length (sys_pp_table s) - 1) (case clock_hand s of None \<Rightarrow> 0 | Some pp \<Rightarrow> pp) 0 s"

fun deref_all :: "nat list \<Rightarrow> vmm \<Rightarrow> vmm option" where
  "deref_all [] s = Some s"
| "deref_all (v # vs) s = do { s \<leftarrow> DerefVp v s; deref_all vs s }"

definition discard_found :: "nat \<Rightarrow> vmm \<Rightarrow> vmm option" where
  "discard_found pp s =
     do { s \<leftarrow> CallOnVirtualUsers pp DiscardVirt s;
          x \<leftarrow> the_page s pp;
          o1 \<leftarrow> origin x;
          ox \<leftarrow> origins s o1;
          if ophys ox \<noteq> GetPhysAddr pp then None
          else
            do { let s = set_origin o1 (ox\<lparr>ophys := 0\<rparr>) s;
                 s \<leftarrow> CallOnVirtualUsers pp LeaveCriticalVirt s;
                 s \<leftarrow> (case pvp x of None \<Rightarrow> Some s | Some v \<Rightarrow> DerefVp v s);
                 let s = upd_page pp (\<lambda>x. x\<lparr>pvp := None\<rparr>) s;
                 s \<leftarrow> deref_all (chain x) s;
                 s \<leftarrow> DerefOrigin o1 s;
                 FreeDiscardedPhys pp s } }"

definition DiscardPage :: "vmm \<Rightarrow> (nat option \<times> vmm) option" where
  "DiscardPage s =
     do { (found, s) \<leftarrow> FindDiscardPage s;
          case found of
            None \<Rightarrow> Some (None, s)
          | Some pp \<Rightarrow> do { s \<leftarrow> discard_found pp s; Some (Some pp, s) } }"

section \<open>Page faults\<close>

text \<open>What the first section finds: the page is there, it is held by someone, or it must be made from its origin, which is referenced.\<close>

datatype lookup_result = Serviced | Held | Absent nat

definition fault_lookup :: "nat \<Rightarrow> u32 \<Rightarrow> vmm \<Rightarrow> (lookup_result \<times> vmm) option" where
  "fault_lookup addr flags s =
     do { v \<leftarrow> GetVirtualPageFromVirt addr s;
          y \<leftarrow> virt_pages s v;
          if present y then
            if busy y \<noteq> 0 then Some (Held, s)
            else if (flags AND PF_WRITE \<noteq> 0 \<and> \<not> vwrite y) \<or> (flags AND PF_USER \<noteq> 0 \<and> \<not> user y) \<or> (flags AND PF_FETCH \<noteq> 0 \<and> \<not> executable y)
            then None
            else Some (Serviced, s)
          else do { s \<leftarrow> RefOrigin (loc y) s; Some (Absent (loc y), s) } }"

definition HandleFixedFault :: "nat \<Rightarrow> nat \<Rightarrow> vmm \<Rightarrow> (bool \<times> vmm) option" where
  "HandleFixedFault addr o1 s =
     do { x \<leftarrow> origins s o1;
          case GetVirtualPageFromVirt addr s of
            None \<Rightarrow> Some (False, s)
          | Some v \<Rightarrow>
              do { y \<leftarrow> virt_pages s v;
                   if present y \<or> loc y \<noteq> o1 then Some (False, s)
                   else
                     do { s \<leftarrow> DerefOrigin (loc y) s;
                          let y = y\<lparr>loc := ophys x, present := True\<rparr>;
                          Some (True, SynchroniseVirt y (set_vp v y s)) } } }"

definition fault_lock :: "nat \<Rightarrow> vmm \<Rightarrow> vmm option" where
  "fault_lock o1 s = do { x \<leftarrow> origins s o1; if mtx_held x then None else Some (set_origin o1 (x\<lparr>mtx_held := True\<rparr>) s) }"

text \<open>With the mutex of the origin: the frame that is to be filled, or \<open>0\<close> when there is one already.\<close>

definition fault_frame :: "nat \<Rightarrow> vmm \<Rightarrow> (nat \<times> vmm) option" where
  "fault_frame o1 s =
     do { x \<leftarrow> origins s o1;
          if ophys x \<noteq> 0 then Some (0, s)
          else
            let (frame, s) = (if is_file x then AllocPhys True s else AllocZeroedPhys s)
            in if frame = 0 then None else Some (frame, s) }"

definition fault_fill :: "nat \<Rightarrow> errno + page_data \<Rightarrow> nat \<Rightarrow> vmm \<Rightarrow> vmm option" where
  "fault_fill o1 loaded frame s =
     do { x \<leftarrow> origins s o1;
          if is_file x then
            (case loaded of Inl e \<Rightarrow> None | Inr data \<Rightarrow> Some (s\<lparr>contents := (contents s)(GetPhysPage frame := data)\<rparr>))
          else Some s }"

definition fault_publish :: "nat \<Rightarrow> nat \<Rightarrow> vmm \<Rightarrow> vmm option" where
  "fault_publish o1 frame s =
     do { pp \<leftarrow> the_page s (GetPhysPage frame);
          if origin pp \<noteq> None \<or> pvp pp \<noteq> None \<or> chain pp \<noteq> [] then None
          else
            do { let s = upd_page (GetPhysPage frame) (\<lambda>pp. pp\<lparr>origin := Some o1, pdirty := False, wired := 0, lru := 0xFFFF\<rparr>) s;
                 s \<leftarrow> RefOrigin o1 s;
                 x \<leftarrow> origins s o1;
                 Some (set_origin o1 (x\<lparr>ophys := frame\<rparr>) s) } }"

definition fault_unlock :: "nat \<Rightarrow> vmm \<Rightarrow> vmm option" where
  "fault_unlock o1 s =
     do { x \<leftarrow> origins s o1;
          if \<not> mtx_held x then None else DerefOrigin o1 (set_origin o1 (x\<lparr>mtx_held := False\<rparr>) s) }"

text \<open>The second result is what is left of the link that was allocated.\<close>

definition RegisterVasAsPhysUser :: "nat \<Rightarrow> nat \<Rightarrow> vmm \<Rightarrow> vmm option" where
  "RegisterVasAsPhysUser pp v s =
     do { s \<leftarrow> RefVp v s;
          y \<leftarrow> virt_pages s v;
          let s = set_vp v (y\<lparr>busy := busy y + 1\<rparr>) s;
          x \<leftarrow> the_page s pp;
          if pvp x = None then Some (upd_page pp (\<lambda>x. x\<lparr>pvp := Some v\<rparr>) s)
          else Some (upd_page pp (\<lambda>x. x\<lparr>chain := v # chain x\<rparr>) s) }"

text \<open>The commit gives back the reference to the origin; \<open>False\<close> is another try.\<close>

definition fault_commit :: "nat \<Rightarrow> nat \<Rightarrow> nat \<Rightarrow> vmm \<Rightarrow> (bool \<times> vmm) option" where
  "fault_commit addr o1 phys s =
     do { let pp = GetPhysPage phys;
          s \<leftarrow> EnterPhysPageCriticalSection pp s;
          x \<leftarrow> the_page s pp;
          if origin x \<noteq> Some o1 then
            do { s \<leftarrow> LeavePhysPageCriticalSection pp s; s \<leftarrow> DerefOrigin o1 s; Some (False, s) }
          else
            (case GetVirtualPageFromVirt addr s of
               None \<Rightarrow> do { s \<leftarrow> LeavePhysPageCriticalSection pp s; s \<leftarrow> DerefOrigin o1 s; Some (False, s) }
             | Some v \<Rightarrow>
                 do { y \<leftarrow> virt_pages s v;
                      if present y \<or> loc y \<noteq> o1 then
                        do { s \<leftarrow> LeavePhysPageCriticalSection pp s; s \<leftarrow> DerefOrigin o1 s; Some (False, s) }
                      else
                        do { s \<leftarrow> DerefOrigin (loc y) s;
                             let s = set_vp v (y\<lparr>loc := phys, present := True\<rparr>) s;
                             s \<leftarrow> RegisterVasAsPhysUser pp v s;
                             s \<leftarrow> LeavePhysPageCriticalSection pp s;
                             s \<leftarrow> DerefOrigin o1 s;
                             Some (True, s) } }) }"

text \<open>Loading, from the mutex on; the caller tries again.\<close>

definition fault_load :: "(page_origin \<Rightarrow> errno + page_data) \<Rightarrow> nat \<Rightarrow> vmm \<Rightarrow> vmm option" where
  "fault_load loader o1 s =
     do { s \<leftarrow> fault_lock o1 s;
          (frame, s) \<leftarrow> fault_frame o1 s;
          s \<leftarrow> (if frame = 0 then Some s
                else
                  do { x \<leftarrow> origins s o1;
                       s \<leftarrow> fault_fill o1 (loader x) frame s;
                       fault_publish o1 frame s });
          fault_unlock o1 s }"

text \<open>\<open>loader\<close> is what the file of an origin, or a loader of its own, makes of a frame, and \<open>link\<close> whether there is memory for a link.\<close>

fun fault_loop :: "(page_origin \<Rightarrow> errno + page_data) \<Rightarrow> bool \<Rightarrow> nat \<Rightarrow> nat \<Rightarrow> u32 \<Rightarrow> vmm \<Rightarrow> vmm option" where
  "fault_loop loader link 0 addr flags s = None"
| "fault_loop loader link (Suc n) addr flags s =
     do { (res, s) \<leftarrow> fault_lookup addr flags s;
          case res of
            Serviced \<Rightarrow> Some s
          | Held \<Rightarrow> Some s
          | Absent o1 \<Rightarrow>
              do { x \<leftarrow> origins s o1;
                   if ofixed x then
                     do { (ok, s) \<leftarrow> HandleFixedFault addr o1 s;
                          s \<leftarrow> DerefOrigin o1 s;
                          if ok then Some s else fault_loop loader link n addr flags s }
                   else if ophys x = 0 then
                     do { s \<leftarrow> fault_load loader o1 s; fault_loop loader link n addr flags s }
                   else if \<not> link then None
                   else
                     do { (ok, s) \<leftarrow> fault_commit addr o1 (ophys x) s;
                          if ok then Some s else fault_loop loader link n addr flags s } } }"

definition HandlePageFault :: "(page_origin \<Rightarrow> errno + page_data) \<Rightarrow> bool \<Rightarrow> nat \<Rightarrow> u32 \<Rightarrow> vmm \<Rightarrow> vmm option" where
  "HandlePageFault loader link = fault_loop loader link VMM_MAX_FAULT_RETRIES"


section \<open>Giving memory back\<close>

text \<open>The links that are freed are what a chain consists of here, so that only the new users are left of it.\<close>

definition UnregisterVasAsPhysUser :: "nat \<Rightarrow> nat \<Rightarrow> vmm \<Rightarrow> vmm option" where
  "UnregisterVasAsPhysUser pp v s =
     do { x \<leftarrow> the_page s pp;
          if pvp x = Some v then
            (case chain x of
               w # ws \<Rightarrow> Some (upd_page pp (\<lambda>x. x\<lparr>pvp := Some w, chain := ws\<rparr>) s)
             | [] \<Rightarrow> Some (upd_page pp (\<lambda>x. x\<lparr>pvp := None\<rparr>) s))
          else if v \<in> set (chain x) then Some (upd_page pp (\<lambda>x. x\<lparr>chain := remove1 v (chain x)\<rparr>) s)
          else None }"

datatype release_result = Released | Backed nat nat

text \<open>The first section: pages without a frame of their own are done, the others are referenced to take their frame.\<close>

definition release_begin :: "nat \<Rightarrow> vmm \<Rightarrow> (release_result \<times> vmm) option" where
  "release_begin addr s =
     (case fst (GetVirtualPageSlot addr False (False, False) s) of
        None \<Rightarrow> None
      | Some slot \<Rightarrow>
          do { v \<leftarrow> read_slot slot s;
               y \<leftarrow> virt_pages s v;
               if \<not> present y then do { s \<leftarrow> DerefVp v (write_slot slot None s); Some (Released, s) }
               else if vfixed y then
                 if busy y \<noteq> 0 then None
                 else
                   do { let s = SynchroniseVirt (y\<lparr>busy := 1\<rparr>) s;
                        s \<leftarrow> DerefVp v (write_slot slot None s);
                        Some (Released, s) }
               else do { s \<leftarrow> RefVp v s; Some (Backed v (loc y), s) } })"

text \<open>The second section, with the frame and the address space; \<open>False\<close> is another try.\<close>

definition release_commit :: "nat \<Rightarrow> nat \<Rightarrow> nat \<Rightarrow> vmm \<Rightarrow> (bool \<times> vmm) option" where
  "release_commit addr v phys s =
     do { let pp = GetPhysPage phys;
          s \<leftarrow> EnterPhysPageCriticalSection pp s;
          y \<leftarrow> virt_pages s v;
          if GetVirtualPageFromVirt addr s \<noteq> Some v \<or> \<not> present y \<or> loc y \<noteq> phys then
            do { s \<leftarrow> LeavePhysPageCriticalSection pp s; s \<leftarrow> DerefVp v s; Some (False, s) }
          else
            do { x \<leftarrow> the_page s pp;
                 if wired x \<noteq> 0 \<or> busy y \<noteq> 1 then None
                 else
                   do { let s = write_slot (slot_index addr) None s;
                        let s = set_vp v (y\<lparr>busy := busy y - 1\<rparr>) s;
                        s \<leftarrow> UnregisterVasAsPhysUser pp v s;
                        x \<leftarrow> the_page s pp;
                        (dead_origin, s) \<leftarrow>
                          (if pvp x = None \<and> chain x = [] then
                             do { o1 \<leftarrow> origin x;
                                  ox \<leftarrow> origins s o1;
                                  if ophys ox \<noteq> phys then None
                                  else Some (Some o1, upd_page pp (\<lambda>x. x\<lparr>origin := None\<rparr>) (set_origin o1 (ox\<lparr>ophys := 0\<rparr>) s)) }
                           else Some (None, s));
                        s \<leftarrow> LeavePhysPageCriticalSection pp s;
                        s \<leftarrow> (case dead_origin of None \<Rightarrow> Some s | Some o1 \<Rightarrow> do { s \<leftarrow> FreeDiscardedPhys pp s; DerefOrigin o1 s });
                        s \<leftarrow> DerefVp v s;
                        s \<leftarrow> DerefVp v s;
                        s \<leftarrow> DerefVp v s;
                        Some (True, s) } } }"

fun release_loop :: "nat \<Rightarrow> nat \<Rightarrow> vmm \<Rightarrow> vmm option" where
  "release_loop 0 addr s = None"
| "release_loop (Suc n) addr s =
     do { (res, s) \<leftarrow> release_begin addr s;
          case res of
            Released \<Rightarrow> Some s
          | Backed v phys \<Rightarrow> do { (ok, s) \<leftarrow> release_commit addr v phys s; if ok then Some s else release_loop n addr s } }"

definition ReleaseVirtPage :: "nat \<Rightarrow> vmm \<Rightarrow> vmm option" where
  "ReleaseVirtPage = release_loop VMM_MAX_FAULT_RETRIES"

definition pages_of :: "nat \<Rightarrow> nat" where "pages_of bytes = (bytes + PAGE_SIZE - 1) mod 2 ^ 32 div PAGE_SIZE"

fun release_pages :: "nat list \<Rightarrow> vmm \<Rightarrow> vmm option" where
  "release_pages [] s = Some s"
| "release_pages (a # as) s = do { s \<leftarrow> ReleaseVirtPage a s; release_pages as s }"

text \<open>The range of addresses goes back to its arena, which is in \<open>VirtArena\<close>.\<close>

definition FreeMemory :: "nat \<Rightarrow> nat \<Rightarrow> vmm \<Rightarrow> vmm option" where
  "FreeMemory base bytes s =
     (if base = 0 \<or> bytes = 0 then Some s
      else if base mod PAGE_SIZE \<noteq> 0 then None
      else release_pages (map (\<lambda>i. base + i * PAGE_SIZE) [0..<pages_of bytes]) s)"

section \<open>Allocating\<close>

fun UnwindVirtPages :: "nat list \<Rightarrow> vmm \<Rightarrow> vmm option" where
  "UnwindVirtPages [] s = Some s"
| "UnwindVirtPages (a # as) s =
     (case fst (GetVirtualPageSlot a False (False, False) s) of
        None \<Rightarrow> UnwindVirtPages as s
      | Some slot \<Rightarrow>
          (case read_slot slot s of
             None \<Rightarrow> UnwindVirtPages as s
           | Some v \<Rightarrow>
               do { y \<leftarrow> virt_pages s v;
                    if present y \<or> busy y \<noteq> 0 then None
                    else do { s \<leftarrow> DerefVp v (write_slot slot None s); UnwindVirtPages as s } }))"

text \<open>The loop over the pages from \<open>i\<close> on; \<open>mem\<close> has what the heap answers for each page.\<close>

fun create_pages ::
  "(nat \<Rightarrow> (nat option \<times> nat option) \<times> bool \<times> bool) \<Rightarrow> nat \<Rightarrow> nat \<Rightarrow> u32 \<Rightarrow> nat option \<Rightarrow> u32 \<Rightarrow> nat \<Rightarrow> bool \<Rightarrow> nat \<Rightarrow> vmm \<Rightarrow> (bool \<times> vmm) option" where
  "create_pages mem i base flags file offset phys fixed 0 s = Some (True, s)"
| "create_pages mem i base flags file offset phys fixed (Suc n) s =
     do { (vp, s) \<leftarrow> CreateVirtPage (fst (mem i)) (snd (mem i)) (base + i * PAGE_SIZE) flags file
            (if file \<noteq> None then offset + of_nat (i * PAGE_SIZE) else 0) (if phys \<noteq> 0 then phys + i * PAGE_SIZE else 0) fixed s;
          case vp of
            None \<Rightarrow> do { s \<leftarrow> UnwindVirtPages (map (\<lambda>j. base + j * PAGE_SIZE) [0..<i]) s; Some (False, s) }
          | Some v \<Rightarrow> create_pages mem (Suc i) base flags file offset phys fixed n s }"

text \<open>\<open>base\<close> is what \<open>AllocVirt\<close> returns for as many bytes as the pages have, and \<open>None\<close> the null pointer.\<close>

definition AllocMemoryRange ::
  "(nat \<Rightarrow> (nat option \<times> nat option) \<times> bool \<times> bool) \<Rightarrow> nat \<Rightarrow> nat option \<Rightarrow> u32 \<Rightarrow> nat \<Rightarrow> nat \<Rightarrow> u32 \<Rightarrow> bool \<Rightarrow> vmm \<Rightarrow> (nat option \<times> vmm) option" where
  "AllocMemoryRange mem base file offset phys bytes flags fixed s =
     (if bytes = 0 then Some (None, s)
      else if base = 0 then Some (None, s)
      else
        do { (ok, s) \<leftarrow> create_pages mem 0 base flags file offset phys fixed (pages_of bytes) s;
             Some (if ok then Some base else None, s) })"

definition AllocFixedMemory ::
  "(nat \<Rightarrow> (nat option \<times> nat option) \<times> bool \<times> bool) \<Rightarrow> nat \<Rightarrow> nat \<Rightarrow> nat \<Rightarrow> u32 \<Rightarrow> vmm \<Rightarrow> (nat option \<times> vmm) option" where
  "AllocFixedMemory mem base phys bytes flags = AllocMemoryRange mem base None 0 phys bytes flags True"

definition AllocAnonMemory ::
  "(nat \<Rightarrow> (nat option \<times> nat option) \<times> bool \<times> bool) \<Rightarrow> nat \<Rightarrow> nat \<Rightarrow> u32 \<Rightarrow> vmm \<Rightarrow> (nat option \<times> vmm) option" where
  "AllocAnonMemory mem base bytes flags = AllocMemoryRange mem base None 0 0 bytes flags False"

definition AllocFileMemory ::
  "(nat \<Rightarrow> (nat option \<times> nat option) \<times> bool \<times> bool) \<Rightarrow> nat \<Rightarrow> nat \<Rightarrow> u32 \<Rightarrow> nat \<Rightarrow> u32 \<Rightarrow> vmm \<Rightarrow> (nat option \<times> vmm) option" where
  "AllocFileMemory mem base file offset bytes flags = AllocMemoryRange mem base (Some file) offset 0 bytes flags False"

section \<open>Wiring\<close>

text \<open>With the frame and the address space.\<close>

definition wire_commit :: "nat \<Rightarrow> nat \<Rightarrow> nat \<Rightarrow> vmm \<Rightarrow> (bool \<times> vmm) option" where
  "wire_commit addr v phys s =
     do { y \<leftarrow> virt_pages s v;
          if GetVirtualPageFromVirt addr s \<noteq> Some v \<or> \<not> present y \<or> loc y \<noteq> phys then
            do { s \<leftarrow> DerefVp v s; Some (False, s) }
          else
            do { x \<leftarrow> the_page s (GetPhysPage phys);
                 if wired x = 0xFFFF then None
                 else do { s \<leftarrow> DerefVp v (upd_page (GetPhysPage phys) (\<lambda>x. x\<lparr>wired := wired x + 1\<rparr>) s); Some (True, s) } } }"

fun wire_loop :: "(page_origin \<Rightarrow> errno + page_data) \<Rightarrow> bool \<Rightarrow> nat \<Rightarrow> nat \<Rightarrow> vmm \<Rightarrow> (errno option \<times> vmm) option" where
  "wire_loop loader link 0 addr s = None"
| "wire_loop loader link (Suc n) addr s =
     (case GetVirtualPageFromVirt addr s of
        None \<Rightarrow> Some (Some EFAULT, s)
      | Some v \<Rightarrow>
          do { y \<leftarrow> virt_pages s v;
               if present y \<and> vfixed y then Some (None, s)
               else if \<not> present y \<or> busy y \<noteq> 0 then do { s \<leftarrow> HandlePageFault loader link addr 0 s; wire_loop loader link n addr s }
               else
                 do { s \<leftarrow> RefVp v s;
                      (ok, s) \<leftarrow> wire_commit addr v (loc y) s;
                      if ok then Some (None, s) else wire_loop loader link n addr s } })"

definition WireVirtPage :: "(page_origin \<Rightarrow> errno + page_data) \<Rightarrow> bool \<Rightarrow> nat \<Rightarrow> vmm \<Rightarrow> (errno option \<times> vmm) option" where
  "WireVirtPage loader link = wire_loop loader link VMM_MAX_FAULT_RETRIES"

definition UnwireVirtPage :: "nat \<Rightarrow> vmm \<Rightarrow> vmm option" where
  "UnwireVirtPage addr s =
     do { v \<leftarrow> GetVirtualPageFromVirt addr s;
          y \<leftarrow> virt_pages s v;
          if \<not> present y then None
          else if vfixed y then Some s
          else
            do { x \<leftarrow> the_page s (GetPhysPage (loc y));
                 if wired x = 0 then None
                 else Some (upd_page (GetPhysPage (loc y)) (\<lambda>x. x\<lparr>wired := wired x - 1\<rparr>) s) } }"

fun unwire_pages :: "nat list \<Rightarrow> vmm \<Rightarrow> vmm option" where
  "unwire_pages [] s = Some s"
| "unwire_pages (pg # pgs) s = do { s \<leftarrow> UnwireVirtPage (pg * PAGE_SIZE) s; unwire_pages pgs s }"

fun wire_pages :: "(page_origin \<Rightarrow> errno + page_data) \<Rightarrow> bool \<Rightarrow> nat list \<Rightarrow> nat list \<Rightarrow> vmm \<Rightarrow> (errno option \<times> vmm) option" where
  "wire_pages loader link finished [] s = Some (None, s)"
| "wire_pages loader link finished (pg # pgs) s =
     do { (res, s) \<leftarrow> WireVirtPage loader link (pg * PAGE_SIZE) s;
          case res of
            Some e \<Rightarrow> do { s \<leftarrow> unwire_pages finished s; Some (Some e, s) }
          | None \<Rightarrow> wire_pages loader link (finished @ [pg]) pgs s }"

text \<open>The pages that overlap a range, with the end of the range computed modulo $2^{32}$.\<close>

definition overlapped :: "u32 \<Rightarrow> u32 \<Rightarrow> nat list" where
  "overlapped ptr bytes = [unat ptr div PAGE_SIZE..<unat (ptr + bytes - 1) div PAGE_SIZE + 1]"

definition WireVirt :: "(page_origin \<Rightarrow> errno + page_data) \<Rightarrow> bool \<Rightarrow> u32 \<Rightarrow> u32 \<Rightarrow> vmm \<Rightarrow> (errno option \<times> vmm) option" where
  "WireVirt loader link ptr bytes s =
     (if ptr = 0 \<or> bytes = 0 then Some (Some EINVAL, s) else wire_pages loader link [] (overlapped ptr bytes) s)"

definition UnwireVirt :: "u32 \<Rightarrow> u32 \<Rightarrow> vmm \<Rightarrow> vmm option" where
  "UnwireVirt ptr bytes s = (if ptr = 0 \<or> bytes = 0 then Some s else unwire_pages (overlapped ptr bytes) s)"


section \<open>The mapping tables as a map\<close>

text \<open>The virtual page of a page number.\<close>

definition vpage :: "vmm \<Rightarrow> nat \<Rightarrow> nat option" where
  "vpage s n = GetVirtualPageFromVirt (n * PAGE_SIZE) s"

definition slot_of :: "nat \<Rightarrow> nat \<times> nat \<times> nat" where
  "slot_of n = (n div MAPPINGS_PER_LEVEL div MAPPINGS_PER_LEVEL, n div MAPPINGS_PER_LEVEL mod MAPPINGS_PER_LEVEL, n mod MAPPINGS_PER_LEVEL)"

lemma slot_index_eq: "slot_index addr = slot_of (addr div PAGE_SIZE)"
  by (simp add: slot_index_def slot_of_def Let_def)

lemma slot_of_inj: "slot_of n = slot_of m \<longleftrightarrow> n = m"
  unfolding slot_of_def by (metis Pair_inject div_mod_decomp)

lemma slot_lookup:
  "GetVirtualPageSlot addr False mem s =
    (case slot_of (addr div PAGE_SIZE) of (a, b, c) \<Rightarrow>
       if MAPPINGS_PER_LEVEL \<le> a then (None, s)
       else (case mappings s a of None \<Rightarrow> (None, s) | Some t \<Rightarrow> (case t b of None \<Rightarrow> (None, s) | Some _ \<Rightarrow> (Some (a, b, c), s))))"
  by (cases "slot_of (addr div PAGE_SIZE)") (auto simp: GetVirtualPageSlot_def slot_index_eq Let_def fun_upd_idem split: option.splits)

lemma lookup_eq: "GetVirtualPageFromVirt addr s = vpage s (addr div PAGE_SIZE)"
  by (simp add: vpage_def GetVirtualPageFromVirt_def slot_lookup)

lemma vpage_eq:
  "vpage s n = (case slot_of n of (a, b, c) \<Rightarrow> if MAPPINGS_PER_LEVEL \<le> a then None else read_slot (a, b, c) s)"
  by (auto simp: vpage_def GetVirtualPageFromVirt_def slot_lookup read_slot_def split: option.splits prod.splits)

lemma vpage_upd: "mappings s' = mappings s \<Longrightarrow> vpage s' = vpage s"
  by (rule ext) (simp add: vpage_eq read_slot_def split: prod.splits)

lemma slot_found:
  assumes "GetVirtualPageSlot addr False mem s = (Some slot, s')"
  shows "slot = slot_of (addr div PAGE_SIZE) \<and> s' = s \<and> read_slot slot s = vpage s (addr div PAGE_SIZE)"
  using assms by (auto simp: slot_lookup vpage_eq split: prod.splits option.splits if_splits)

lemma slot_not_found: "GetVirtualPageSlot addr False mem s = (None, s') \<Longrightarrow> vpage s (addr div PAGE_SIZE) = None"
  by (auto simp: slot_lookup vpage_eq read_slot_def split: prod.splits option.splits if_splits)

lemma write_slot_vpage:
  assumes "vpage s n \<noteq> None \<or> (\<exists>t. mappings s (fst (slot_of n)) = Some t \<and> t (fst (snd (slot_of n))) \<noteq> None \<and> fst (slot_of n) < MAPPINGS_PER_LEVEL)"
  shows "vpage (write_slot (slot_of n) v s) = (vpage s)(n := v)"
proof
  fix m
  obtain a b c where n: "slot_of n = (a, b, c)" by (cases "slot_of n")
  obtain a' b' c' where m: "slot_of m = (a', b', c')" by (cases "slot_of m")
  have "a < MAPPINGS_PER_LEVEL" "\<exists>t t2. mappings s a = Some t \<and> t b = Some t2"
    using assms by (auto simp: vpage_eq n read_slot_def split: option.splits if_splits)
  moreover have "(a', b', c') = (a, b, c) \<longleftrightarrow> m = n" using slot_of_inj [of m n] by (simp add: n m)
  ultimately show "vpage (write_slot (slot_of n) v s) m = ((vpage s)(n := v)) m"
    by (auto simp: vpage_eq write_slot_def n m read_slot_def split: option.splits)
qed

lemma write_slot_same [simp]:
  "sys_pp_table (write_slot slot v s) = sys_pp_table s" "sys_free_pp (write_slot slot v s) = sys_free_pp s" "virt_pages (write_slot slot v s) = virt_pages s"
  "origins (write_slot slot v s) = origins s" "ptes (write_slot slot v s) = ptes s" "zeroed_phys_buffer (write_slot slot v s) = zeroed_phys_buffer s"
  "contents (write_slot slot v s) = contents s" "file_refs (write_slot slot v s) = file_refs s"
  by (auto simp: write_slot_def split: prod.splits option.splits)

text \<open>Making a slot changes no page; a slot that is returned can be written.\<close>

lemma slot_create:
  assumes "GetVirtualPageSlot addr True mem s = (slot, s')"
  shows "vpage s' = vpage s" "slot = Some sl \<Longrightarrow> sl = slot_of (addr div PAGE_SIZE)" "slot \<noteq> None \<Longrightarrow> addr div PAGE_SIZE < 128 * 128 * 128"
    "slot = Some sl \<Longrightarrow> read_slot sl s' = vpage s (addr div PAGE_SIZE)"
    "slot \<noteq> None \<Longrightarrow> vpage (write_slot (slot_of (addr div PAGE_SIZE)) v s') = (vpage s)(addr div PAGE_SIZE := v)"
    "\<exists>ms. s' = s\<lparr>mappings := ms\<rparr>"
proof -
  obtain a b c where n: "slot_of (addr div PAGE_SIZE) = (a, b, c)" by (cases "slot_of (addr div PAGE_SIZE)")
  have a: "a = addr div PAGE_SIZE div 128 div 128" using n by (simp add: slot_of_def)
  have r: "read_slot (x, y, z) s' = read_slot (x, y, z) s" for x y z
    using assms by (auto simp: GetVirtualPageSlot_def slot_index_eq n Let_def read_slot_def split: option.splits if_splits)
  show v: "vpage s' = vpage s" by (auto simp: vpage_eq r fun_eq_iff split: prod.splits)
  show i: "sl = slot_of (addr div PAGE_SIZE)" if "slot = Some sl" for sl
    using assms that by (auto simp: GetVirtualPageSlot_def slot_index_eq n Let_def split: if_splits)
  show l: "addr div PAGE_SIZE < 128 * 128 * 128" if "slot \<noteq> None"
    using assms that by (auto simp: GetVirtualPageSlot_def slot_index_eq n Let_def a less_mult_imp_div_less split: if_splits)
  then have l': "slot \<noteq> None \<Longrightarrow> a < 128" unfolding a by (simp add: less_mult_imp_div_less)
  show "read_slot sl s' = vpage s (addr div PAGE_SIZE)" if "slot = Some sl" for sl
    using i [OF that] l' that by (simp add: n vpage_eq r)
  show "\<exists>ms. s' = s\<lparr>mappings := ms\<rparr>"
  proof -
    have "s' = s\<lparr>mappings := mappings s'\<rparr>" using assms by (auto simp: GetVirtualPageSlot_def slot_index_eq n Let_def split: if_splits)
    then show ?thesis by (intro exI [of _ "mappings s'"])
  qed
  show "vpage (write_slot (slot_of (addr div PAGE_SIZE)) v s') = (vpage s)(addr div PAGE_SIZE := v)" if "slot \<noteq> None"
  proof -
    have "\<exists>t. mappings s' a = Some t \<and> t b \<noteq> None"
      using assms that by (auto simp: GetVirtualPageSlot_def slot_index_eq n Let_def split: option.splits if_splits)
    then show ?thesis using write_slot_vpage [of s' "addr div PAGE_SIZE" v] l' [OF that] v by (auto simp: n)
  qed
qed

section \<open>Making a page\<close>

lemma set_vp_simps [simp]:
  "virt_pages (set_vp v y s) = (virt_pages s)(v \<mapsto> y)" "origins (set_vp v y s) = origins s" "mappings (set_vp v y s) = mappings s"
  "file_refs (set_vp v y s) = file_refs s" "ptes (set_vp v y s) = ptes s" "sys_pp_table (set_vp v y s) = sys_pp_table s"
  "virt_pages (set_origin p x s) = virt_pages s" "origins (set_origin p x s) = (origins s)(p \<mapsto> x)" "mappings (set_origin p x s) = mappings s"
  "file_refs (set_origin p x s) = file_refs s" "ptes (set_origin p x s) = ptes s" "sys_pp_table (set_origin p x s) = sys_pp_table s"
  by (simp_all add: set_vp_def set_origin_def)

lemma vpage_set_simps [simp]: "vpage (set_vp v y s) = vpage s" "vpage (set_origin p x s) = vpage s"
  by (rule vpage_upd, simp)+

definition new_page :: "nat \<Rightarrow> nat \<Rightarrow> u32 \<Rightarrow> bool \<Rightarrow> virt_page" where
  "new_page addr p flags fixed =
     \<lparr>vrefs = 1, vaddr = addr, loc = p, present = False, vwrite = flags AND VP_WRITE \<noteq> 0, user = flags AND VP_USER \<noteq> 0, accessed = False, vdirty = False,
      executable = flags AND VP_EXEC \<noteq> 0, vfixed = fixed, busy = 0\<rparr>"

definition new_origin :: "nat option \<Rightarrow> u32 \<Rightarrow> nat \<Rightarrow> bool \<Rightarrow> page_origin" where
  "new_origin file offset phys fixed =
     \<lparr>orefs = 1, is_file = (file \<noteq> None), ofixed = fixed, ophys = phys, ofile = (case file of None \<Rightarrow> 0 | Some f \<Rightarrow> f), file_offset = offset, mtx_held = False\<rparr>"

text \<open>Whether a slot can be had, with memory for its tables.\<close>

lemma slot_create_result:
  "fst (GetVirtualPageSlot addr True (True, True) s) = (if addr div PAGE_SIZE < 128 * 128 * 128 then Some (slot_of (addr div PAGE_SIZE)) else None)"
proof -
  have "128 \<le> addr div PAGE_SIZE div 128 div 128 \<longleftrightarrow> \<not> addr div PAGE_SIZE < 128 * 128 * 128" by (simp add: div_mult2_eq [symmetric] not_less less_eq_div_iff_mult_less_eq)
  then show ?thesis by (simp add: GetVirtualPageSlot_def slot_index_eq slot_of_def Let_def)
qed

text \<open>Dropping a page that has just been made gives back its origin and the reference to the file.\<close>

lemma drop_new_page:
  assumes "virt_pages s v = Some (new_page addr p flags fixed)" "origins s p = Some (new_origin file offset phys fixed)"
  shows "\<exists>s'. DerefVp v s = Some s' \<and> virt_pages s' = (virt_pages s)(v := None) \<and> origins s' = (origins s)(p := None) \<and> vpage s' = vpage s \<and>
    file_refs s' = (case file of None \<Rightarrow> file_refs s | Some f \<Rightarrow> (file_refs s)(f := file_refs s f - 1))"
  using assms by (auto simp: DerefVp_def CleanupVirtPage_def DerefOrigin_def CleanupPageOrigin_def new_page_def new_origin_def Let_def split: option.splits intro: vpage_upd)

lemma CreateVirtPage_ok:
  assumes "virt_pages s v = None" "origins s p = None"
  shows "if (flags AND VP_WRITE \<noteq> 0 \<and> flags AND VP_EXEC \<noteq> 0) \<or> 128 * 128 * 128 \<le> addr div PAGE_SIZE \<or> vpage s (addr div PAGE_SIZE) \<noteq> None
    then \<exists>s'. CreateVirtPage (Some v, Some p) (True, True) addr flags file offset phys fixed s = Some (None, s') \<and>
      virt_pages s' = virt_pages s \<and> origins s' = origins s \<and> vpage s' = vpage s \<and> file_refs s' = file_refs s
    else \<exists>s'. CreateVirtPage (Some v, Some p) (True, True) addr flags file offset phys fixed s = Some (Some v, s') \<and>
      virt_pages s' = (virt_pages s)(v \<mapsto> new_page addr p flags fixed) \<and> origins s' = (origins s)(p \<mapsto> new_origin file offset phys fixed) \<and>
      vpage s' = (vpage s)(addr div PAGE_SIZE \<mapsto> v) \<and> ptes s' = ptes s \<and> sys_pp_table s' = sys_pp_table s"
proof (cases "flags AND VP_WRITE \<noteq> 0 \<and> flags AND VP_EXEC \<noteq> 0")
  case True
  then show ?thesis by (simp add: CreateVirtPage_def)
next
  case wx: False
  define s1 where "s1 = set_vp v (new_page addr p flags fixed) (snd (CreatePageOrigin (Some p) file offset phys fixed s))"
  have s1: "virt_pages s1 = (virt_pages s)(v \<mapsto> new_page addr p flags fixed)" "origins s1 = (origins s)(p \<mapsto> new_origin file offset phys fixed)"
    "vpage s1 = vpage s" "ptes s1 = ptes s" "sys_pp_table s1 = sys_pp_table s"
    "file_refs s1 = (case file of None \<Rightarrow> file_refs s | Some f \<Rightarrow> (file_refs s)(f := file_refs s f + 1))"
    by (auto simp: s1_def CreatePageOrigin_def new_origin_def Let_def split: option.splits intro: vpage_upd)
  obtain slot s2 where g: "GetVirtualPageSlot addr True (True, True) s1 = (slot, s2)" by fastforce
  have slot: "slot = (if addr div PAGE_SIZE < 128 * 128 * 128 then Some (slot_of (addr div PAGE_SIZE)) else None)"
    using slot_create_result [of addr s1] by (simp add: g)
  note sc = slot_create [OF g]
  obtain ms where ms: "s2 = s1\<lparr>mappings := ms\<rparr>" using sc(6) by blast
  have eq: "CreateVirtPage (Some v, Some p) (True, True) addr flags file offset phys fixed s =
      (case slot of None \<Rightarrow> do { s \<leftarrow> DerefVp v s2; Some (None, s) }
       | Some slot \<Rightarrow> if read_slot slot s2 \<noteq> None then do { s \<leftarrow> DerefVp v s2; Some (None, s) } else Some (Some v, write_slot slot (Some v) s2))"
    using g wx by (auto simp: CreateVirtPage_def CreatePageOrigin_def s1_def new_page_def Let_def)
  have "virt_pages s2 v = Some (new_page addr p flags fixed)" "origins s2 p = Some (new_origin file offset phys fixed)" by (simp_all add: ms s1)
  from drop_new_page [OF this] obtain s3 where s3: "DerefVp v s2 = Some s3" "virt_pages s3 = (virt_pages s2)(v := None)" "origins s3 = (origins s2)(p := None)"
    "vpage s3 = vpage s2" "file_refs s3 = (case file of None \<Rightarrow> file_refs s2 | Some f \<Rightarrow> (file_refs s2)(f := file_refs s2 f - 1))" by blast
  have clean: "virt_pages s3 = virt_pages s" "origins s3 = origins s" "vpage s3 = vpage s" "file_refs s3 = file_refs s"
    using assms s3 sc(1) by (auto simp: ms s1 fun_upd_idem split: option.splits)
  show ?thesis
  proof (cases "128 * 128 * 128 \<le> addr div PAGE_SIZE \<or> vpage s (addr div PAGE_SIZE) \<noteq> None")
    case True
    have "CreateVirtPage (Some v, Some p) (True, True) addr flags file offset phys fixed s = Some (None, s3)"
    proof (cases "addr div PAGE_SIZE < 128 * 128 * 128")
      case in_range: True
      then have "read_slot (slot_of (addr div PAGE_SIZE)) s2 \<noteq> None" using sc(4) slot True s1(3) by simp
      then show ?thesis using in_range slot s3(1) by (simp add: eq)
    qed (use slot s3(1) in \<open>simp add: eq\<close>)
    then show ?thesis using True clean by auto
  next
    case False
    then have sl: "slot = Some (slot_of (addr div PAGE_SIZE))" using slot by simp
    have "read_slot (slot_of (addr div PAGE_SIZE)) s2 = None" using sc(4) [OF sl] False s1(3) by simp
    then have "CreateVirtPage (Some v, Some p) (True, True) addr flags file offset phys fixed s = Some (Some v, write_slot (slot_of (addr div PAGE_SIZE)) (Some v) s2)"
      by (simp add: eq sl)
    moreover have "vpage (write_slot (slot_of (addr div PAGE_SIZE)) (Some v) s2) = (vpage s)(addr div PAGE_SIZE \<mapsto> v)"
      using sc(5) sl s1(3) by simp
    ultimately show ?thesis using False wx by (simp add: ms s1)
  qed
qed

text \<open>
  C10. Making a virtual page puts it into the slot of its page number in the three levels of tables and changes no other slot. It is refused
  when it would be writable and executable, when the address is beyond the 8 GB that the tables cover, or when there is a page already;
  then nothing is left behind, neither the page, nor its origin, nor the reference to the file.
\<close>

theorem CreateVirtPage_correct:
  assumes "virt_pages s v = None" "origins s p = None"
  shows "if (flags AND VP_WRITE \<noteq> 0 \<and> flags AND VP_EXEC \<noteq> 0) \<or> 128 * 128 * 128 \<le> addr div PAGE_SIZE \<or> vpage s (addr div PAGE_SIZE) \<noteq> None
    then \<exists>s'. CreateVirtPage (Some v, Some p) (True, True) addr flags file offset phys fixed s = Some (None, s') \<and>
      virt_pages s' = virt_pages s \<and> origins s' = origins s \<and> vpage s' = vpage s \<and> file_refs s' = file_refs s
    else \<exists>s'. CreateVirtPage (Some v, Some p) (True, True) addr flags file offset phys fixed s = Some (Some v, s') \<and>
      virt_pages s' = (virt_pages s)(v \<mapsto> new_page addr p flags fixed) \<and> origins s' = (origins s)(p \<mapsto> new_origin file offset phys fixed) \<and>
      vpage s' = (vpage s)(addr div PAGE_SIZE \<mapsto> v) \<and> ptes s' = ptes s \<and> sys_pp_table s' = sys_pp_table s"
  using assms by (rule CreateVirtPage_ok)

text \<open>A machine with two pages of memory, of which the second is free, and an empty address space.\<close>

definition sample_vmm :: vmm where
  "sample_vmm = \<lparr>sys_pp_table = [no_page, no_page\<lparr>exists := True\<rparr>], sys_free_pp = 1, sys_total_pp = 1, low_memory_messages = 0,
     zeroed_phys_buffer = [0, 0], please_provide_zeroed_phys = 0, contents = (\<lambda>_. []), virt_pages = (\<lambda>_. None), origins = (\<lambda>_. None),
     mappings = (\<lambda>_. None), ptes = (\<lambda>_. 0), clock_hand = None, file_refs = (\<lambda>_. 0)\<rparr>"

lemma CreateVirtPage_correct_witness:
  "\<exists>s. CreateVirtPage (Some 5, Some 6) (True, True) 0xC8000000 VP_WRITE None 0 0 False sample_vmm = Some (Some 5, s) \<and> vpage s 0xC8000 = Some 5 \<and> vpage s 0xC8001 = None"
proof -
  have "vpage sample_vmm n = None" for n by (simp add: vpage_eq read_slot_def sample_vmm_def split: prod.splits)
  then show ?thesis using CreateVirtPage_correct [of sample_vmm 5 6 VP_WRITE "0xC8000000" None 0 0 False] by (auto simp: sample_vmm_def [THEN arg_cong, of virt_pages] sample_vmm_def [THEN arg_cong, of origins])
qed

section \<open>What is not as it should be\<close>

text \<open>The end of a range is computed modulo $2^{32}$: when it wraps, nothing is wired, and the answer is success.\<close>

lemma WireVirt_wraps:
  assumes "ptr \<noteq> 0" "bytes \<noteq> 0" "unat (ptr + bytes - 1) div PAGE_SIZE < unat ptr div PAGE_SIZE"
  shows "WireVirt loader link ptr bytes s = Some (None, s)"
  using assms by (simp add: WireVirt_def overlapped_def)

text \<open>
  Collecting the bits of a page clears those of the first page of its table, which are lost (the page may be discarded though it has been
  written to), and not its own.
\<close>

lemma dirty_bit_lost:
  assumes "vaddr y div PAGE_SIZE mod 1024 \<noteq> 0"
  shows "ptes (snd (ArchReadVirtDirtyAndAccessed y s)) (vaddr y div PAGE_SIZE div 1024 * 1024) AND (PAGE_DIRTY OR PAGE_ACCESSED) = 0 \<and>
    ptes (snd (ArchReadVirtDirtyAndAccessed y s)) (vaddr y div PAGE_SIZE) = ptes s (vaddr y div PAGE_SIZE)"
proof -
  have n: "vaddr y div PAGE_SIZE \<noteq> vaddr y div PAGE_SIZE div 1024 * 1024" using assms by (metis mod_mult_self2_is_0)
  have "(e AND NOT 96) AND (96 :: u32) = 0" for e by (rule bit_word_eqI) (auto simp: bit_simps)
  with n show ?thesis by (auto simp: ArchReadVirtDirtyAndAccessed_def Let_def)
qed

end
