(* ===== verification/VmmFault.thy ===== *)
theory VmmFault
  imports Vmm
begin

unbundle bit_operations_syntax

text \<open>
  What a page fault, a discard and a release do to one page and its frame, and that they leave all others alone.
\<close>

section \<open>Small facts\<close>

lemma upd_page_simps [simp]:
  "virt_pages (upd_page i f s) = virt_pages s" "origins (upd_page i f s) = origins s" "mappings (upd_page i f s) = mappings s" "ptes (upd_page i f s) = ptes s"
  "contents (upd_page i f s) = contents s" "file_refs (upd_page i f s) = file_refs s" "sys_free_pp (upd_page i f s) = sys_free_pp s"
  "sys_pp_table (upd_page i f s) = (sys_pp_table s)[i := f (sys_pp_table s ! i)]" "zeroed_phys_buffer (upd_page i f s) = zeroed_phys_buffer s"
  by (simp_all add: upd_page_def)

lemma set_simps [simp]:
  "contents (set_vp v y s) = contents s" "sys_free_pp (set_vp v y s) = sys_free_pp s" "zeroed_phys_buffer (set_vp v y s) = zeroed_phys_buffer s"
  "contents (set_origin p x s) = contents s" "sys_free_pp (set_origin p x s) = sys_free_pp s" "zeroed_phys_buffer (set_origin p x s) = zeroed_phys_buffer s"
  by (simp_all add: set_vp_def set_origin_def)

lemma sync_simps [simp]:
  "virt_pages (SynchroniseVirt y s) = virt_pages s" "origins (SynchroniseVirt y s) = origins s" "mappings (SynchroniseVirt y s) = mappings s"
  "contents (SynchroniseVirt y s) = contents s" "file_refs (SynchroniseVirt y s) = file_refs s" "sys_free_pp (SynchroniseVirt y s) = sys_free_pp s"
  "sys_pp_table (SynchroniseVirt y s) = sys_pp_table s" "ptes (SynchroniseVirt y s) = (ptes s)(vaddr y div PAGE_SIZE := TranslateToEntry y)"
  "zeroed_phys_buffer (SynchroniseVirt y s) = zeroed_phys_buffer s"
  by (simp_all add: SynchroniseVirt_def)

lemma vpage_more [simp]: "vpage (upd_page i f s) = vpage s" "vpage (SynchroniseVirt y s) = vpage s"
  by (rule vpage_upd, simp)+

lemma the_page_eq: "the_page s i = (if i < length (sys_pp_table s) then Some (sys_pp_table s ! i) else None)"
  by (simp add: the_page_def)



text \<open>One user is the only one that is called.\<close>

lemma CallOnVirtualUsers_one:
  assumes "i < length (sys_pp_table s)" "pvp (sys_pp_table s ! i) = Some v" "chain (sys_pp_table s ! i) = []"
    and "\<And>s'. f i v s = Some s' \<Longrightarrow> i < length (sys_pp_table s') \<and> chain (sys_pp_table s' ! i) = []"
  shows "CallOnVirtualUsers i f s = f i v s"
  using assms by (cases "f i v s") (auto simp: CallOnVirtualUsers_def the_page_eq)

section \<open>Loading\<close>






section \<open>Mapping\<close>


section \<open>Page faults\<close>



section \<open>The critical section of a page with one user\<close>


text \<open>Leaving it maps the page again.\<close>

lemma leave_one:
  assumes "i < length (sys_pp_table s)" "pvp (sys_pp_table s ! i) = Some v" "chain (sys_pp_table s ! i) = []" "virt_pages s v = Some (y\<lparr>busy := 1\<rparr>)"
  shows "LeavePhysPageCriticalSection i s = Some (SynchroniseVirt (y\<lparr>busy := 0\<rparr>) (set_vp v (y\<lparr>busy := 0\<rparr>) s))"
  unfolding LeavePhysPageCriticalSection_def
  by (subst CallOnVirtualUsers_one [of _ _ v]) (use assms in \<open>auto simp: LeaveCriticalVirt_def Let_def\<close>)


section \<open>Releasing\<close>






section \<open>Discarding\<close>









section \<open>Theorems\<close>










end
