(* ===== verification/Spec2Isabelle.thy ===== *)
theory Spec2Isabelle
  imports NodeTableProps KernelProps MsgProtocol IrqQueue FatDirProps FatMount ShortName Timeconv RegionOps Shapes KernelHeap VirtArena Vfs VmmFault
begin

text \<open>
  A verification of the Nolrem operating system: its synchronisation, scheduling, timing, messages, vnode table,
  heap, FAT driver, user memory access, regions of the drawing library, time conversion and string functions. File names are below \<^verbatim>\<open>src/\<close>.
  Definitions carry the names of the C functions; steps and loops of a function that have a definition of their own
  have descriptive names. Theories named \<open>...Props\<close> hold proofs only.

  \<^bold>\<open>Conventions.\<close> Integers are words of the width of the C type where the code computes with them modulo
  that width, and natural numbers where they are indices or counts that the code bounds. A function that can fail returns
  an error of \<open>Prelude\<close> (\<^verbatim>\<open>libc/common/include/errno.h\<close>). \<open>None\<close> as the result of an
  operation is what the code must never do: a panic, a failed assertion, a null or wild pointer, an access
  out of bounds, or a loop without end (loops that may not end are \<open>partial_function (option)\<close>). Whether the heap
  has memory is an argument of the operations that allocate. The kernel runs on one CPU, as the code does.

  \<^bold>\<open>Kernel core.\<close> \<open>KState\<close> has the state of \<^verbatim>\<open>kernel/task/scheduler.c\<close>,
  \<^verbatim>\<open>task/thread.c\<close>, \<^verbatim>\<open>core/timer.c\<close>, \<^verbatim>\<open>sync/sem.c\<close>, \<^verbatim>\<open>sync/spinlock.c\<close> and
  \<^verbatim>\<open>sync/irqctrl.c\<close>: threads, semaphores, wait clots and globals, with pointers as numbers. The linked lists are modelled
  link by link in \<open>ReadyQueue\<close>, \<open>SemQueue\<close> and \<open>TimerQueue\<close>, which show that the operations do what
  they should to the list of members. \<open>Scheduler\<close>, \<open>Timer\<close> and \<open>Sem\<close> have the operations; \<open>SchedInv\<close>,
  \<open>SchedSwitch\<close> and \<open>SchedOps\<close> show that they keep the invariant that says where each thread is; \<open>SemProps\<close> has
  what a release and an abandonment do to waiters. \<open>Kernel\<close> takes all operations as the steps of a transition system
  and \<open>KernelProps\<close> states what holds in every reachable state: mutual exclusion, no lost wake-up, bounded waiting,
  round robin, and that no operation gives \<open>None\<close>. The stack switch is the change of the current thread.

  \<^bold>\<open>Messages.\<close> \<open>MsgBox\<close> is \<^verbatim>\<open>kernel/sync/msgbox.c\<close>: a ring buffer of
  messages behind two counting semaphores and a mutex. \<open>MsgProtocol\<close> interleaves any number of its calls at the
  semaphore operations and shows that they refine a FIFO queue. \<open>IrqQueue\<close> is the lock-free queue that interrupt
  handlers post to, with the compare-and-swap loops of its producers and its consumer as steps.

  \<^bold>\<open>Heap.\<close> \<open>HeapAlloc\<close> is \<^verbatim>\<open>kernel/mem/heapex.c\<close>: blocks with their size at both
  ends, 24 doubly linked lists of free blocks and a bitmap of those that have members, over a memory of words. \<open>HeapInv\<close> says how
  areas consist of blocks and which blocks are listed; \<open>HeapOps\<close> shows that unlinking, linking and joining blocks keep this,
  \<open>HeapFit\<close> that a listed block that is large enough is found and split, and \<open>HeapSys\<close> that memory from the system becomes an
  area. \<open>HeapSpec\<close> has the contract towards clients, who see a map from pointers to sizes; it rests on the locale
  \<open>system_memory\<close>, which \<open>KernelHeap\<close> (\<^verbatim>\<open>heapk.c\<close>) interprets on the static page and the memory manager.
  \<open>KernelHeap\<close> states what holds after any sequence of operations. Bounds: sizes below $2^{32} - 8192$, and at most 4000 for the
  first allocation; examples show what happens beyond these, and what purging does wrong. \<open>VirtArena\<close> is
  \<^verbatim>\<open>allocvirtex.c\<close>, the free ranges of virtual addresses, as a set of addresses.

  \<^bold>\<open>Memory.\<close> \<open>Phys\<close> is \<^verbatim>\<open>kernel/mem/phys.c\<close>, the table of physical pages, and \<open>Vmm\<close> is
  \<^verbatim>\<open>kernel/mem/vmm.c\<close> with the bits of \<^verbatim>\<open>arch/x86/vmm/virt.c\<close> that decide what is mapped: the tables that find a virtual
  page, page faults, discarding, releasing and wiring. \<open>VmmFault\<close> shows what a fault, a release and a discard do to a page and
  its frame, and that they leave all others alone, when nobody else works on that page. The heap of the memory manager and the loaders of files are arguments.

  \<^bold>\<open>Files.\<close> \<open>KObject\<close> (\<^verbatim>\<open>kernel/core/obj.c\<close>) counts references. \<open>NodeTable\<close> is the AVL
  tree of \<^verbatim>\<open>kernel/vfs/nodetable.c\<close>; the locale \<open>vnode_registry\<close> is what the VFS relies on, interpreted on the tree in
  \<open>NodeTableProps\<close>. \<open>Transfers\<close> is \<^verbatim>\<open>kernel/vfs/transfer.c\<close>: copies between kernel and user memory, and the
  checks of user addresses. \<open>Vfs\<close> is \<^verbatim>\<open>vfs.c\<close>, \<^verbatim>\<open>vnode.c\<close> and \<^verbatim>\<open>file.c\<close>: the
  walk of a path through a filesystem, which is a parameter that \<open>follows_tree\<close> describes, the mounts, and open files with the
  references they take; its last section shows what creation, truncation and unmounting do wrong.

  \<^bold>\<open>FAT.\<close> \<open>FatTable\<close>, \<open>FatRead\<close>, \<open>FatFile\<close>, \<open>FatDir\<close> and \<open>FatMount\<close> are the files of
  \<^verbatim>\<open>kernel/fs/fat/\<close>: the table behind its cache of two sectors, contiguous reads, files along their chain, directories, and the checks
  of the boot sector. The block device is a parameter: the locales \<open>faithful_disk\<close> (what is read is what is on
  the disk, or there is an error) and \<open>reliable_disk\<close> (no errors within the capacity) say what is relied on. The theorems compare each
  routine with a definition over the bytes of the disk that knows nothing of caches and hints. \<open>ShortName\<close> is \<^verbatim>\<open>mksfn.c\<close>.

  \<^bold>\<open>Regions.\<close> \<open>RegionData\<close> (the encoder) and \<open>RegionIter\<close> (the decoder, a coroutine) are
  \<^verbatim>\<open>kernel/CLIPDRAW/region.c\<close>. A region is written band by band in one of three encodings, with repeated bands run-length encoded.
  \<open>RegionDecode\<close> shows what the decoder makes of each encoding, \<open>RegionCodec\<close> that encoder and decoder stay in
  step, and \<open>RegionRound\<close> that iterating over a finished region yields the rectangles of the lines it was built from,
  and that building never leaves the memory allocated. \<open>RegionOps\<close> has the combination of the spans of two regions on a line, and
  \<open>Shapes\<close> the regions of bitmaps, rounded rectangles and ellipses (\<^verbatim>\<open>fully_pageable/\<close>) with the integer square root. Bounds: fewer than 16384 spans a line and 65536 lines, and less than
  $2^{30}$ bytes; the number of spans has 14 bits and the number of bands 16.

  \<^bold>\<open>Libraries.\<close> \<open>Timeconv\<close> is \<^verbatim>\<open>kernel/core/timeconv.c\<close>; dates and time values are converted back and forth
  without loss. \<open>CLib\<close> has \<^verbatim>\<open>libc/common/\<close> and \<^verbatim>\<open>kernel/core/string.c\<close> over the memory of \<open>Transfers\<close>; \<open>Bytes\<close>
  has byte buffers and little-endian words; \<open>Prelude\<close> what all share.

  \<^bold>\<open>Not modelled.\<close> Assembly, interrupt entry, page tables and drivers (\<^verbatim>\<open>boot/\<close>, \<^verbatim>\<open>kernel/arch/\<close>):
  they are hardware access. Components other than the heap see memory only as an allocation that succeeds or fails. Drawing and fonts (the rest of \<^verbatim>\<open>kernel/CLIPDRAW/\<close>) and
  the window manager produce pixels and have no contract that the repository states. The tests and tools run on the
  host. \<^verbatim>\<open>PROJECT.json\<close> lists them one by one.
\<close>

end
